(* ===== verification/Prelude.thy ===== *)
theory Prelude
  imports Main "HOL-Library.Word" "HOL-Library.Char_ord" "HOL-Library.AList"
begin

text \<open>
  Shared vocabulary of the development: bytes and fixed-width integers, results with an error
  branch, C string literals as byte lists, and the generic facts on words and lists that the
  components rest on.
\<close>

unbundle bit_operations_syntax

named_theorems res_simps \<open>unfolding of the result monad\<close>
named_theorems wf_intros \<open>preservation of well-formedness, one rule per operation\<close>

type_synonym byte = "8 word"
type_synonym bytes = "byte list"
type_synonym u16 = "16 word"
type_synonym u32 = "32 word"
type_synonym u64 = "64 word"

section \<open>C characters and string literals\<close>

abbreviation chr :: "char \<Rightarrow> byte" where
  "chr c \<equiv> of_char c"

abbreviation cstr :: "string \<Rightarrow> bytes" where
  "cstr s \<equiv> map of_char s"

section \<open>Results\<close>

definition res_bind :: "'e + 'a \<Rightarrow> ('a \<Rightarrow> 'e + 'b) \<Rightarrow> 'e + 'b" where
  "res_bind m f = (case m of Inl e \<Rightarrow> Inl e | Inr x \<Rightarrow> f x)"

definition res_ok :: "'e + 'a \<Rightarrow> bool" where
  "res_ok m = (case m of Inl _ \<Rightarrow> False | Inr _ \<Rightarrow> True)"

lemma res_bind_Inl [simp, res_simps]: "res_bind (Inl e) f = Inl e"
  by (simp add: res_bind_def)

lemma res_bind_Inr [simp, res_simps]: "res_bind (Inr x) f = f x"
  by (simp add: res_bind_def)

lemma res_bind_Inr_right [simp]: "res_bind m Inr = m"
  by (cases m) auto

lemma res_bind_assoc: "res_bind (res_bind m f) g = res_bind m (\<lambda>x. res_bind (f x) g)"
  by (cases m) auto

lemma res_bind_eq_Inr: "res_bind m f = Inr y \<longleftrightarrow> (\<exists>x. m = Inr x \<and> f x = Inr y)"
  by (cases m) auto

lemma res_bind_eq_Inl: "res_bind m f = Inl e \<longleftrightarrow> m = Inl e \<or> (\<exists>x. m = Inr x \<and> f x = Inl e)"
  by (cases m) auto

lemma res_bind_cong [fundef_cong]:
  "m = m' \<Longrightarrow> (\<And>x. m' = Inr x \<Longrightarrow> f x = g x) \<Longrightarrow> res_bind m f = res_bind m' g"
  by (cases m') auto

lemma res_ok_iff: "res_ok m \<longleftrightarrow> (\<exists>x. m = Inr x)"
  by (cases m) (auto simp: res_ok_def)

section \<open>Words as naturals\<close>

lemma unat_and_255: "unat ((w :: 'a::len word) AND 255) = unat w mod 256" if "8 \<le> LENGTH('a)"
proof -
  have "w AND 255 = take_bit 8 w"
    by (simp add: take_bit_eq_mask mask_eq_exp_minus_1)
  moreover have "unat (take_bit 8 w) = take_bit 8 (unat w)"
    by (simp add: unsigned_take_bit_eq)
  ultimately show ?thesis by (simp add: take_bit_eq_mod)
qed

lemma unat_ucast_byte: "unat (ucast (w :: 'a::len word) :: byte) = unat w mod 256"
  by (simp add: unsigned_ucast_eq take_bit_eq_mod)

lemma unat_byte_lt [simp]: "unat (b :: byte) < 256"
  using unsigned_less [of b] by simp

lemma byte_eqI: "unat (a :: byte) = unat b \<Longrightarrow> a = b"
  by (simp add: unsigned_word_eqI)

text \<open>Equality of bytes, bit by bit.\<close>

lemma bit_byte_high [simp]: "8 \<le> n \<Longrightarrow> \<not> bit (b :: byte) n"
  using bit_imp_le_length [of b n] by auto

lemma byte_bitsI:
  fixes a b :: byte
  assumes "bit a 0 = bit b 0" "bit a 1 = bit b 1" "bit a 2 = bit b 2" "bit a 3 = bit b 3"
    "bit a 4 = bit b 4" "bit a 5 = bit b 5" "bit a 6 = bit b 6" "bit a 7 = bit b 7"
  shows "a = b"
proof (rule bit_word_eqI)
  fix n assume "n < LENGTH(8)"
  then have "n = 0 \<or> n = 1 \<or> n = 2 \<or> n = 3 \<or> n = 4 \<or> n = 5 \<or> n = 6 \<or> n = 7" by auto
  with assms show "bit a n = bit b n" by auto
qed

text \<open>An OR of disjoint bit ranges is a sum.\<close>

lemma or_push_bit_add:
  fixes a b :: "'a::len word"
  assumes "unat a < 2 ^ n"
  shows "a OR push_bit n b = a + push_bit n b"
proof -
  have "a AND push_bit n b = 0"
  proof (rule bit_word_eqI)
    fix k assume "k < LENGTH('a)"
    have "\<not> bit a k" if "n \<le> k"
    proof -
      have "take_bit n (unat a) = unat a"
        using assms by (simp add: take_bit_nat_eq_self)
      then have "bit (unat a) k \<longleftrightarrow> k < n \<and> bit (unat a) k"
        using bit_take_bit_iff [of n "unat a" k] by simp
      with that show ?thesis by (simp add: bit_unsigned_iff)
    qed
    then show "bit (a AND push_bit n b) k = bit (0 :: 'a word) k"
      by (auto simp: bit_and_iff bit_push_bit_iff)
  qed
  then show ?thesis by (simp add: disjunctive_add_eq_or)
qed

lemma sint_neg_byte:
  fixes b :: byte
  assumes "0x80 \<le> b"
  shows "sint b < 0"
proof -
  have "128 \<le> unat b" using assms by (simp add: word_le_nat_alt)
  moreover have "unat b < 256" by simp
  ultimately have "unat b div 2 ^ 7 = 1" by (intro div_nat_eqI) simp_all
  then have "bit (unat b) 7" by (simp only: bit_iff_odd) simp
  then have "bit b 7" by (simp add: bit_unsigned_iff)
  then show ?thesis using bit_last_iff [of b] by simp
qed

lemma sint_neg_iff: "sint (w :: 'a::len word) < 0 \<longleftrightarrow> 2 ^ (LENGTH('a) - 1) \<le> unat w"
proof -
  let ?p = "2 ^ (LENGTH('a) - 1) :: nat"
  have lt: "unat w < 2 * ?p" using unsigned_less [of w] by (cases "LENGTH('a)") auto
  have "sint w < 0 \<longleftrightarrow> bit w (LENGTH('a) - 1)" by (simp add: bit_last_iff)
  also have "\<dots> \<longleftrightarrow> odd (unat w div ?p)" by (simp add: bit_unsigned_iff flip: bit_iff_odd)
  also have "\<dots> \<longleftrightarrow> ?p \<le> unat w"
  proof (cases "?p \<le> unat w")
    case True
    then have "unat w div ?p = 1" using lt by (intro div_nat_eqI) simp_all
    with True show ?thesis by simp
  qed simp
  finally show ?thesis .
qed

lemma unat_push_bit: "unat (push_bit n (w :: 'a::len word)) = (unat w * 2 ^ n) mod 2 ^ LENGTH('a)"
  by (simp only: unsigned_push_bit_eq) (simp add: take_bit_eq_mod push_bit_eq_mult)

lemma unat_drop_bit_div: "unat (drop_bit n (w :: 'a::len word)) = unat w div 2 ^ n"
  unfolding unat_drop_bit_eq by (simp only: drop_bit_eq_div)

section \<open>Lists\<close>

lemma take_append_mid: "take (length ys) (drop (length xs) (xs @ ys @ zs)) = ys"
  by simp

section \<open>Association lists used as std::map or std::unordered_map\<close>

lemma map_of_SomeI_distinct:
  "distinct (map fst kvs) \<Longrightarrow> (k, v) \<in> set kvs \<Longrightarrow> map_of kvs k = Some v"
  by simp

lemma map_of_None_notin: "map_of kvs k = None \<longleftrightarrow> k \<notin> fst ` set kvs"
  by (simp add: map_of_eq_None_iff)

end
