(* ===== verification/UTypes.thy ===== *)
theory UTypes
  imports Prelude
begin

text \<open>
  The object tree of \<open>types/\<close>: \<open>UObject\<close> and its subclasses as one datatype, the operations of
  \<open>UBinder\<close> (a \<open>std::map\<close> keyed by \<open>std::string\<close>) and of \<open>UArray\<close>, and \<open>BaseSerializer\<close>, which
  replaces complex objects by binders and back. A \<open>double\<close> is its 64-bit pattern, a
  \<open>TimePoint\<close> its count of nanoseconds, a \<open>std::string\<close> its bytes. A complex key or address
  object is represented by the packed bytes that identify it.
\<close>

section \<open>Objects\<close>

datatype cobj =
    CTest bytes u64        \<comment> \<open>TestComplexObject: name, amount\<close>
  | CHashId bytes          \<comment> \<open>UHashId: digest\<close>
  | CKeyAddress bytes      \<comment> \<open>UKeyAddress: packed address\<close>
  | CPublicKey bytes       \<comment> \<open>UPublicKey: packed key\<close>
  | CPrivateKey bytes      \<comment> \<open>UPrivateKey: packed key\<close>
  | CError bytes           \<comment> \<open>USerializationError: message\<close>

datatype uobj =
    UNull
  | UInt u64
  | UDouble u64
  | UBool bool
  | UDateTime u64
  | UBytes bytes
  | UString bytes
  | UArray "uobj list"
  | UBinder "(bytes \<times> uobj) list"
  | UComplex cobj

type_synonym ubinder = "(bytes \<times> uobj) list"

datatype boss_error =
    InvalidCode | UnknownObjectType
  | OverflowBinary | OverflowString | OverflowCache | RecursiveReference | BadHeader
  | KeyNotString | OverflowHeader | InvalidLongLength | OverflowDouble | UnknownExtra
  | NotInstance | KeyNotFound | WrongValueType | BadKeyData
  | LengthError        \<comment> \<open>\<open>std::length_error\<close> from a negative range\<close>
  | OutOfBoundsRead    \<comment> \<open>the code would read outside the packed data\<close>
  | UndefinedShift     \<comment> \<open>the code would shift by the width of the type or more\<close>
  | CountOverflow      \<comment> \<open>the code would count past the largest \<open>int\<close>\<close>
  | PartialReference   \<comment> \<open>the code would hand out a container that is still being read\<close>
  | OutOfFuel

section \<open>Binders: a sorted association list\<close>

text \<open>\<open>std::string\<close> compares bytes as unsigned characters, lexicographically.\<close>

fun bytes_less :: "bytes \<Rightarrow> bytes \<Rightarrow> bool" where
  "bytes_less [] [] = False"
| "bytes_less [] (y # ys) = True"
| "bytes_less (x # xs) [] = False"
| "bytes_less (x # xs) (y # ys) = (x < y \<or> (x = y \<and> bytes_less xs ys))"

fun binder_get :: "ubinder \<Rightarrow> bytes \<Rightarrow> uobj" where
  "binder_get [] k = UNull"
| "binder_get ((k', v) # kvs) k = (if k = k' then v else binder_get kvs k)"

fun binder_set :: "bytes \<Rightarrow> uobj \<Rightarrow> ubinder \<Rightarrow> ubinder" where
  "binder_set k v [] = [(k, v)]"
| "binder_set k v ((k', v') # kvs) =
     (if k = k' then (k', v) # kvs
      else if bytes_less k k' then (k, v) # (k', v') # kvs
      else (k', v') # binder_set k v kvs)"

definition binder_of1 :: "bytes \<Rightarrow> uobj \<Rightarrow> ubinder" where
  "binder_of1 k v = binder_set k v []"

definition binder_of2 :: "bytes \<Rightarrow> uobj \<Rightarrow> bytes \<Rightarrow> uobj \<Rightarrow> ubinder" where
  "binder_of2 k v k' v' =
     (let bFirst = binder_of1 k v; bRest = binder_of1 k' v'
      in if k' \<in> set (map fst bFirst) then bFirst else binder_set k' (binder_get bRest k') bFirst)"

text \<open>\<open>of\<close> with any number of pairs: the first pair, and of the rest what it does not hold yet.\<close>

fun insert_absent :: "ubinder \<Rightarrow> ubinder \<Rightarrow> ubinder" where
  "insert_absent [] b = b"
| "insert_absent ((k, v) # kvs) b = insert_absent kvs (if k \<in> set (map fst b) then b else binder_set k v b)"

fun binder_of :: "(bytes \<times> uobj) list \<Rightarrow> ubinder" where
  "binder_of [] = []"
| "binder_of ((k, v) # kvs) = insert_absent (binder_of kvs) (binder_of1 k v)"

definition getStringOrDefault :: "ubinder \<Rightarrow> bytes \<Rightarrow> bytes \<Rightarrow> boss_error + bytes" where
  "getStringOrDefault b k d =
     (case binder_get b k of UNull \<Rightarrow> Inr d | UString s \<Rightarrow> Inr s | _ \<Rightarrow> Inl WrongValueType)"

definition getString :: "ubinder \<Rightarrow> bytes \<Rightarrow> boss_error + bytes" where
  "getString b k =
     (case binder_get b k of UNull \<Rightarrow> Inl KeyNotFound | UString s \<Rightarrow> Inr s | _ \<Rightarrow> Inl WrongValueType)"

definition getInt :: "ubinder \<Rightarrow> bytes \<Rightarrow> boss_error + u64" where
  "getInt b k =
     (case binder_get b k of UNull \<Rightarrow> Inl KeyNotFound | UInt i \<Rightarrow> Inr i | _ \<Rightarrow> Inl WrongValueType)"

definition bytes_asInstance :: "uobj \<Rightarrow> boss_error + bytes" where
  "bytes_asInstance u = (case u of UBytes b \<Rightarrow> Inr b | _ \<Rightarrow> Inl NotInstance)"

definition int_asInstance :: "uobj \<Rightarrow> boss_error + u64" where
  "int_asInstance u = (case u of UInt i \<Rightarrow> Inr i | _ \<Rightarrow> Inl NotInstance)"

definition array_asInstance :: "uobj \<Rightarrow> boss_error + uobj list" where
  "array_asInstance u = (case u of UArray xs \<Rightarrow> Inr xs | _ \<Rightarrow> Inl NotInstance)"

definition binder_asInstance :: "uobj \<Rightarrow> boss_error + ubinder" where
  "binder_asInstance u = (case u of UBinder b \<Rightarrow> Inr b | _ \<Rightarrow> Inl NotInstance)"

definition getIntOrDefault :: "ubinder \<Rightarrow> bytes \<Rightarrow> u64 \<Rightarrow> boss_error + u64" where
  "getIntOrDefault b k d =
     (case binder_get b k of UNull \<Rightarrow> Inr d | UInt i \<Rightarrow> Inr i | _ \<Rightarrow> Inl WrongValueType)"

definition getBinder :: "ubinder \<Rightarrow> bytes \<Rightarrow> boss_error + ubinder" where
  "getBinder b k =
     (case binder_get b k of UNull \<Rightarrow> Inl KeyNotFound | UBinder v \<Rightarrow> Inr v | _ \<Rightarrow> Inl WrongValueType)"

text \<open>The invariant of \<open>std::map\<close>: strictly increasing keys.\<close>

fun keys_sorted :: "bytes list \<Rightarrow> bool" where
  "keys_sorted [] = True"
| "keys_sorted [k] = True"
| "keys_sorted (k # k' # ks) = (bytes_less k k' \<and> keys_sorted (k' # ks))"

lemma bytes_less_irrefl [simp]: "\<not> bytes_less k k"
  by (induction k) auto

lemma bytes_less_trans: "bytes_less a b \<Longrightarrow> bytes_less b c \<Longrightarrow> bytes_less a c"
proof (induction a b arbitrary: c rule: bytes_less.induct)
  case (2 y ys)
  then show ?case by (cases c) auto
next
  case (4 x xs y ys)
  then show ?case by (cases c) auto
qed auto

lemma bytes_less_linear: "a \<noteq> b \<Longrightarrow> bytes_less a b \<or> bytes_less b a"
  by (induction a b rule: bytes_less.induct) auto

lemma keys_sorted_Cons: "keys_sorted (k # ks) \<longleftrightarrow> keys_sorted ks \<and> (\<forall>k' \<in> set ks. bytes_less k k')"
proof (induction ks arbitrary: k)
  case Nil
  then show ?case by simp
next
  case (Cons a ks)
  have "keys_sorted (k # a # ks) \<longleftrightarrow> bytes_less k a \<and> keys_sorted ks \<and> (\<forall>k' \<in> set ks. bytes_less a k')"
    using Cons.IH [of a] by simp
  also have "\<dots> \<longleftrightarrow> keys_sorted (a # ks) \<and> (\<forall>k' \<in> set (a # ks). bytes_less k k')"
    using Cons.IH [of a] bytes_less_trans by auto
  finally show ?case .
qed

lemma set_keys_binder_set: "set (map fst (binder_set k v b)) = insert k (set (map fst b))"
proof (induction b)
  case (Cons p b)
  have "set (map fst (x # c)) = insert (fst x) (set (map fst c))" for x :: "bytes \<times> uobj" and c
    by simp
  with Cons show ?case by (cases p) (simp del: set_map add: insert_commute)
qed simp

lemma binder_set_sorted [wf_intros]:
  "keys_sorted (map fst b) \<Longrightarrow> keys_sorted (map fst (binder_set k v b))"
proof (induction b)
  case Nil
  then show ?case by simp
next
  case (Cons p b)
  obtain k' v' where p: "p = (k', v')" by (cases p)
  have srt: "keys_sorted (map fst b)" and lt: "\<forall>x \<in> set (map fst b). bytes_less k' x"
    using Cons.prems by (auto simp: p keys_sorted_Cons)
  consider "k = k'" | "k \<noteq> k'" "bytes_less k k'" | "k \<noteq> k'" "\<not> bytes_less k k'" by blast
  then show ?case
  proof cases
    case 2
    then show ?thesis using srt lt bytes_less_trans by (auto simp: p keys_sorted_Cons)
  next
    case 3
    then have "bytes_less k' k" using bytes_less_linear by blast
    with 3 show ?thesis
      using Cons.IH srt lt set_keys_binder_set [of k v b] by (auto simp: p keys_sorted_Cons)
  qed (use Cons.prems in \<open>auto simp: p keys_sorted_Cons\<close>)
qed

lemma binder_get_notin: "k \<notin> set (map fst b) \<Longrightarrow> binder_get b k = UNull"
  by (induction b) auto

lemma binder_get_set_same: "binder_get (binder_set k v b) k = v"
  by (induction b) auto

lemma binder_get_set_other: "k' \<noteq> k \<Longrightarrow> binder_get (binder_set k v b) k' = binder_get b k'"
  by (induction b) auto

lemma keys_insert_absent: "set (map fst (insert_absent kvs b)) = set (map fst kvs) \<union> set (map fst b)"
  by (induction kvs b rule: insert_absent.induct) (auto simp: set_keys_binder_set simp del: set_map)

lemma keys_binder_of: "set (map fst (binder_of kvs)) = set (map fst kvs)"
  by (induction kvs rule: binder_of.induct) (auto simp: keys_insert_absent binder_of1_def simp del: set_map)

lemma insert_absent_sorted: "keys_sorted (map fst b) \<Longrightarrow> keys_sorted (map fst (insert_absent kvs b))"
proof (induction kvs b rule: insert_absent.induct)
  case (2 k v kvs b)
  then show ?case using binder_set_sorted [of b k v] by (cases "k \<in> set (map fst b)") simp_all
qed simp

lemma binder_of_sorted: "keys_sorted (map fst (binder_of kvs))"
  by (induction kvs rule: binder_of.induct) (auto intro: insert_absent_sorted simp: binder_of1_def)

section \<open>The map interface\<close>

text \<open>
  What the clients of \<open>UBinder\<close> rely on: reading back what was set, other keys untouched, and
  an invariant that \<open>set\<close> keeps.
\<close>

locale ordered_map =
  fixes get :: "'m \<Rightarrow> 'k \<Rightarrow> 'v"
    and upd :: "'k \<Rightarrow> 'v \<Rightarrow> 'm \<Rightarrow> 'm"
    and keys :: "'m \<Rightarrow> 'k set"
    and inv :: "'m \<Rightarrow> bool"
  assumes get_same: "get (upd k v m) k = v"
    and get_other: "k' \<noteq> k \<Longrightarrow> get (upd k v m) k' = get m k'"
    and keys_upd: "keys (upd k v m) = insert k (keys m)"
    and inv_upd: "inv m \<Longrightarrow> inv (upd k v m)"
begin

fun upd_all :: "('k \<times> 'v) list \<Rightarrow> 'm \<Rightarrow> 'm" where
  "upd_all [] m = m"
| "upd_all ((k, v) # kvs) m = upd_all kvs (upd k v m)"

lemma inv_upd_all: "inv m \<Longrightarrow> inv (upd_all kvs m)"
  by (induction kvs m rule: upd_all.induct) (auto intro: inv_upd)

lemma get_upd_all: "get (upd_all kvs m) k = (case map_of (rev kvs) k of None \<Rightarrow> get m k | Some v \<Rightarrow> v)"
proof (induction kvs m rule: upd_all.induct)
  case (2 k' v kvs m)
  then show ?case
    by (cases "map_of (rev kvs) k") (auto simp: get_same get_other map_add_def)
qed simp

lemma upd_overwrites: "get (upd k v (upd k w m)) k' = get (upd k v m) k'"
  by (cases "k' = k") (simp_all add: get_same get_other)

end

interpretation ubinder_map: ordered_map binder_get binder_set "\<lambda>b. set (map fst b)" "\<lambda>b. keys_sorted (map fst b)"
  by unfold_locales
    (simp_all add: binder_get_set_same binder_get_set_other set_keys_binder_set binder_set_sorted
      del: set_map)

end
