(* ===== verification/BaseSerializer.thy ===== *)
theory BaseSerializer
  imports UTypes
begin

text \<open>
  \<open>serialization/BaseSerializer.cpp\<close> and the \<open>compose\<close>/\<open>decompose\<close> methods of the complex
  types: complex objects become binders tagged with \<open>__type\<close>, and tagged binders become
  complex objects again. The constructors of addresses and keys parse their packed bytes with
  code outside this theory; they are the parameter \<open>kp\<close>, which yields the packed bytes of the
  constructed object or rejects them.
\<close>

datatype key_class = AddressClass | PublicKeyClass | PrivateKeyClass

type_synonym key_parser = "key_class \<Rightarrow> bytes \<Rightarrow> bytes option"

definition k_type :: bytes where "k_type = cstr ''__type''"
definition k_t :: bytes where "k_t = cstr ''__t''"

section \<open>compose and decompose\<close>

fun decompose :: "cobj \<Rightarrow> ubinder" where
  "decompose (CTest name amount) = binder_of2 (cstr ''name'') (UString name) (cstr ''amount'') (UInt amount)"
| "decompose (CHashId d) = binder_of1 (cstr ''composite3'') (UBytes d)"
| "decompose (CKeyAddress p) = binder_of1 (cstr ''uaddress'') (UBytes p)"
| "decompose (CPublicKey p) = binder_of1 (cstr ''packed'') (UBytes p)"
| "decompose (CPrivateKey p) = binder_of1 (cstr ''packed'') (UBytes p)"
| "decompose (CError s) = binder_of1 (cstr ''strValue'') (UString s)"

fun type_name :: "cobj \<Rightarrow> bytes" where
  "type_name (CTest _ _) = cstr ''TestComplexObject''"
| "type_name (CHashId _) = cstr ''HashId''"
| "type_name (CKeyAddress _) = cstr ''KeyAddress''"
| "type_name (CPublicKey _) = cstr ''RSAPublicKey''"
| "type_name (CPrivateKey _) = cstr ''RSAPrivateKey''"
| "type_name (CError _) = cstr ''USerializationError''"

definition parse_key :: "key_parser \<Rightarrow> key_class \<Rightarrow> bytes \<Rightarrow> boss_error + bytes" where
  "parse_key kp c b = (case kp c b of None \<Rightarrow> Inl BadKeyData | Some p \<Rightarrow> Inr p)"

definition compose_test :: "ubinder \<Rightarrow> boss_error + cobj" where
  "compose_test b = res_bind (getString b (cstr ''name'')) (\<lambda>n.
     res_bind (getInt b (cstr ''amount'')) (\<lambda>a. Inr (CTest n a)))"

definition compose_hashid :: "ubinder \<Rightarrow> boss_error + cobj" where
  "compose_hashid b = res_bind (bytes_asInstance (binder_get b (cstr ''composite3''))) (\<lambda>d. Inr (CHashId d))"

definition compose_address :: "key_parser \<Rightarrow> ubinder \<Rightarrow> boss_error + cobj" where
  "compose_address kp b = res_bind (bytes_asInstance (binder_get b (cstr ''uaddress''))) (\<lambda>d.
     res_bind (parse_key kp AddressClass d) (\<lambda>p. Inr (CKeyAddress p)))"

definition compose_public :: "key_parser \<Rightarrow> ubinder \<Rightarrow> boss_error + cobj" where
  "compose_public kp b = res_bind (bytes_asInstance (binder_get b (cstr ''packed''))) (\<lambda>d.
     res_bind (parse_key kp PublicKeyClass d) (\<lambda>p. Inr (CPublicKey p)))"

definition compose_private :: "key_parser \<Rightarrow> ubinder \<Rightarrow> boss_error + cobj" where
  "compose_private kp b = res_bind (bytes_asInstance (binder_get b (cstr ''packed''))) (\<lambda>d.
     res_bind (parse_key kp PrivateKeyClass d) (\<lambda>p. Inr (CPrivateKey p)))"

definition compose_error :: "ubinder \<Rightarrow> boss_error + cobj" where
  "compose_error b = res_bind (getString b (cstr ''strValue'')) (\<lambda>s. Inr (CError s))"

text \<open>
  The chain of type-name comparisons of \<open>deserializeComplex\<close>; a binder with an unknown type
  name is returned as it is, its values not deserialized.
\<close>

definition deserialize_complex :: "key_parser \<Rightarrow> bytes \<Rightarrow> ubinder \<Rightarrow> boss_error + uobj" where
  "deserialize_complex kp ty b =
     (let wrap = (\<lambda>r. res_bind r (\<lambda>c. Inr (UComplex c))) in
      if ty = cstr ''TestComplexObject'' then wrap (compose_test b)
      else if ty = cstr ''HashId'' then wrap (compose_hashid b)
      else if ty = cstr ''KeyAddress'' then wrap (compose_address kp b)
      else if ty = cstr ''RSAPublicKey'' then wrap (compose_public kp b)
      else if ty = cstr ''RSAPrivateKey'' then wrap (compose_private kp b)
      else if ty = cstr ''USerializationError'' then wrap (compose_error b)
      else Inr (UBinder b))"

section \<open>serialize and deserialize\<close>

fun base_serialize :: "uobj \<Rightarrow> uobj" where
  "base_serialize (UBinder kvs) = UBinder (map (\<lambda>(k, v). (k, base_serialize v)) kvs)"
| "base_serialize (UArray xs) = UArray (map base_serialize xs)"
| "base_serialize (UComplex c) = UBinder (binder_set k_type (UString (type_name c)) (decompose c))"
| "base_serialize o1 = o1"

definition binder_type :: "ubinder \<Rightarrow> boss_error + bytes" where
  "binder_type b = res_bind (getStringOrDefault b k_type []) (\<lambda>ty.
     if ty = [] then getStringOrDefault b k_t [] else Inr ty)"

fun base_deserialize :: "key_parser \<Rightarrow> uobj \<Rightarrow> boss_error + uobj"
  and base_deserialize_list :: "key_parser \<Rightarrow> uobj list \<Rightarrow> boss_error + uobj list"
  and base_deserialize_pairs :: "key_parser \<Rightarrow> ubinder \<Rightarrow> boss_error + ubinder" where
  "base_deserialize kp (UArray xs) = res_bind (base_deserialize_list kp xs) (\<lambda>ys. Inr (UArray ys))"
| "base_deserialize kp (UBinder b) = res_bind (binder_type b) (\<lambda>ty.
     if ty = [] then res_bind (base_deserialize_pairs kp b) (\<lambda>b'. Inr (UBinder b'))
     else deserialize_complex kp ty b)"
| "base_deserialize kp (UComplex c) = Inl UnknownObjectType"
| "base_deserialize kp o1 = Inr o1"
| "base_deserialize_list kp [] = Inr []"
| "base_deserialize_list kp (x # xs) = res_bind (base_deserialize kp x) (\<lambda>y.
     res_bind (base_deserialize_list kp xs) (\<lambda>ys. Inr (y # ys)))"
| "base_deserialize_pairs kp [] = Inr []"
| "base_deserialize_pairs kp ((k, v) # b) = res_bind (base_deserialize kp v) (\<lambda>v'.
     res_bind (base_deserialize_pairs kp b) (\<lambda>b'. Inr ((k, v') # b')))"

end
