(* ===== verification/BossCodec.thy ===== *)
theory BossCodec
  imports BossReader
begin

text \<open>
  The byte level of the two directions: every header, variable-length integer and little-endian
  number that \<open>Writer\<close> emits is read back by \<open>Reader\<close> from any position of the data, and the
  cache-free encoding \<open>senc\<close> that a writer in stream mode produces.
\<close>

named_theorems read_back \<open>what the reader returns on bytes the writer emitted\<close>

lemma drop_Suc_eq: "drop pos bs = b # rest \<Longrightarrow> drop (Suc pos) bs = rest"
  by (metis drop_Suc list.sel(3) tl_drop)

lemma drop_add_append: "drop pos bs = enc @ rest \<Longrightarrow> drop (pos + length enc) bs = rest"
  by (metis add.commute append_eq_conv_conj drop_drop)

lemma drop_eq_ConsD: "drop pos bs = b # rest \<Longrightarrow> pos < length bs \<and> bs ! pos = b"
  by (metis drop_eq_Nil hd_drop_conv_nth linorder_not_less list.distinct(1) list.sel(1))

lemma readByte_at:
  "length bs < U32 \<Longrightarrow> drop pos bs = b # rest \<Longrightarrow> readByte bs pos = Inr (b, Suc pos)"
  using drop_eq_ConsD [of pos bs b rest] by (auto simp: readByte_def data_size_def)

section \<open>Little-endian numbers\<close>

lemma length_emit_le [simp]: "length (emit_le n v) = n"
  by (induction n arbitrary: v) auto

lemma unat_of_nat_u64: "k \<le> 100 \<Longrightarrow> unat (of_nat k :: u64) = k"
  by (rule of_nat_inverse) simp_all

lemma and_255: "(v :: u64) AND 255 = take_bit 8 v"
  and and_127: "(v :: u64) AND 127 = take_bit 7 v"
  by (simp_all add: take_bit_eq_mask mask_eq_exp_minus_1)

lemma low_byte: "ucast (ucast (v :: u64) :: byte) = take_bit 8 v"
  by (rule bit_word_eqI) (auto simp: bit_ucast_iff bit_take_bit_iff)

lemma push_split:
  "push_bit sh (take_bit m v) OR push_bit (sh + m) (take_bit n (drop_bit m v))
    = push_bit sh (take_bit (m + n) (v :: u64))"
proof (rule bit_word_eqI)
  fix k assume "k < LENGTH(64)"
  then show "bit (push_bit sh (take_bit m v) OR push_bit (sh + m) (take_bit n (drop_bit m v))) k
      = bit (push_bit sh (take_bit (m + n) v)) k"
    by (cases "sh + m \<le> k") (auto simp: bit_or_iff bit_push_bit_iff bit_take_bit_iff bit_drop_bit_eq)
qed

lemma push_rest:
  "push_bit sh (take_bit m v) OR push_bit (sh + m) (drop_bit m v) = push_bit sh (v :: u64)"
proof (rule bit_word_eqI)
  fix k assume "k < LENGTH(64)"
  then show "bit (push_bit sh (take_bit m v) OR push_bit (sh + m) (drop_bit m v)) k = bit (push_bit sh v) k"
    by (cases "sh + m \<le> k") (auto simp: bit_or_iff bit_push_bit_iff bit_take_bit_iff bit_drop_bit_eq)
qed

lemma readLong_loop_emit:
  "length bs < U32 \<Longrightarrow> drop pos bs = emit_le n v @ rest \<Longrightarrow>
   readLong_loop bs n res sh pos = Inr (res OR push_bit sh (take_bit (8 * n) v), pos + n)"
proof (induction n arbitrary: v res sh pos)
  case (Suc n)
  have d: "drop pos bs = ucast (take_bit 8 v) # emit_le n (drop_bit 8 v) @ rest"
    using Suc.prems by (simp add: and_255)
  have "ucast (ucast (take_bit 8 v) :: byte) = take_bit 8 v"
    by (simp add: low_byte)
  with Suc.IH [OF Suc.prems(1) drop_Suc_eq [OF d]] show ?case
    using push_split [of sh 8 v "8 * n"] by (simp add: readByte_at [OF Suc.prems(1) d] or.assoc)
qed simp

lemma readLong_emit:
  "length bs < U32 \<Longrightarrow> drop pos bs = emit_le n v @ rest \<Longrightarrow> n \<le> 8 \<Longrightarrow> unat v < 2 ^ (8 * n) \<Longrightarrow>
   readLong bs (of_nat n) pos = Inr (v, pos + n)"
proof -
  assume a: "length bs < U32" "drop pos bs = emit_le n v @ rest" "n \<le> 8" "unat v < 2 ^ (8 * n)"
  have n: "unat (of_nat n :: u64) = n" using a(3) by (simp add: unat_of_nat)
  then have "\<not> 8 < (of_nat n :: u64)" using a(3) by (simp add: word_less_nat_alt)
  moreover have "take_bit (8 * n) v = v"
    using a(4) by (simp add: unsigned_take_bit_eq take_bit_nat_eq_self word_unat_eq_iff)
  ultimately show ?thesis
    by (simp add: readLong_def n readLong_loop_emit [OF a(1,2)])
qed

lemma le_word_emit: "unat v < 2 ^ (8 * n) \<Longrightarrow> le_word (emit_le n v) = v"
proof (induction n arbitrary: v)
  case 0
  then show ?case by (simp add: unat_eq_zero)
next
  case (Suc n)
  have "unat (drop_bit 8 v) < 2 ^ (8 * n)"
    using Suc.prems by (simp add: unat_drop_bit_div less_mult_imp_div_less power_add mult.commute)
  with Suc.IH show ?case using push_rest [of 0 8 v] by (simp add: and_255 low_byte)
qed

section \<open>Encoded integers\<close>

lemma encode7_nonempty [simp]: "encode7 v \<noteq> []"
  by (simp add: encode7.simps [of v])

lemma and_128: "(b :: byte) AND 0x80 = 0 \<longleftrightarrow> \<not> bit b 7"
  using and_exp_eq_0_iff_not_bit [of b 7] by simp

lemma low7_bit7: "\<not> bit (ucast (take_bit 7 (v :: u64)) :: byte) 7"
  by (simp add: bit_ucast_iff bit_take_bit_iff)

lemma set7:
  assumes "\<not> 0x7F < (v :: u64)"
  shows "bit (ucast (v OR 0x80) :: byte) 7" "ucast (ucast (v OR 0x80) :: byte) AND 0x7F = v"
proof -
  have v: "take_bit 7 v = v"
    using assms by (simp add: unsigned_take_bit_eq take_bit_nat_eq_self word_unat_eq_iff word_less_nat_alt)
  have b: "bit (0x80 :: u64) k \<longleftrightarrow> k = 7" and b8: "bit (0x80 :: byte) k \<longleftrightarrow> k = 7" for k
    using bit_exp_iff [of 7 k, where ?'a = u64] bit_exp_iff [of 7 k, where ?'a = byte] by auto
  show "bit (ucast (v OR 0x80) :: byte) 7"
    by (simp add: bit_ucast_iff bit_or_iff b b8)
  show "ucast (ucast (v OR 0x80) :: byte) AND 0x7F = v"
  proof (rule bit_word_eqI)
    fix k assume "k < LENGTH(64)"
    have "bit v k \<longleftrightarrow> k < 7 \<and> bit v k"
      using bit_take_bit_iff [of 7 v k] by (simp add: v)
    then show "bit (ucast (ucast (v OR 0x80) :: byte) AND 0x7F :: u64) k = bit v k"
      unfolding and_127 bit_take_bit_iff bit_ucast_iff bit_or_iff b by auto
  qed
qed

lemma readEncoded_loop_encode7:
  "length bs < U32 \<Longrightarrow> drop pos bs = encode7 v @ rest \<Longrightarrow> unat v < 2 ^ (7 * k) \<Longrightarrow> 0 < k \<Longrightarrow>
   readEncoded_loop bs k val sh pos = Inr (val OR push_bit sh v, pos + length (encode7 v))"
proof (induction v arbitrary: k val sh pos rule: encode7.induct)
  case (1 v)
  obtain k' where k: "k = Suc k'" using "1.prems"(4) by (cases k) auto
  show ?case
  proof (cases "0x7F < v")
    case True
    have d: "drop pos bs = ucast (take_bit 7 v) # encode7 (drop_bit 7 v) @ rest"
      using "1.prems"(2) True by (simp add: encode7.simps [of v] and_127)
    have lt: "unat (drop_bit 7 v) < 2 ^ (7 * k')"
      using "1.prems"(3) by (simp add: k unat_drop_bit_div less_mult_imp_div_less power_add mult.commute)
    have "0 < k'" using True "1.prems"(3) by (cases k') (auto simp: k word_less_nat_alt)
    have c: "take_bit 7 (ucast (ucast (take_bit 7 v) :: byte)) = take_bit 7 v"
      by (simp add: low_byte)
    show ?thesis
      using "1.IH" [OF True "1.prems"(1) drop_Suc_eq [OF d] lt \<open>0 < k'\<close>] True push_rest [of sh 7 v]
      by (simp add: k readByte_at [OF "1.prems"(1) d] and_128 low7_bit7 and_127 c encode7.simps [of v]
          Let_def or.assoc)
  next
    case False
    have d: "drop pos bs = ucast (v OR 0x80) # rest"
      using "1.prems"(2) False by (simp add: encode7.simps [of v])
    show ?thesis
      using False by (simp add: k readByte_at [OF "1.prems"(1) d] and_128 set7 encode7.simps [of v] Let_def
          del: push_bit_and)
  qed
qed

lemma readEncodedLong_encode7:
  "length bs < U32 \<Longrightarrow> drop pos bs = encode7 v @ rest \<Longrightarrow>
   readEncodedLong bs pos = Inr (v, pos + length (encode7 v))"
  using readEncoded_loop_encode7 [of bs pos v rest 10 0 0] unsigned_less [of v, where 'a = nat]
  by (simp add: readEncodedLong_def)

section \<open>Headers\<close>

lemma sizeInBytes_loop_bound:
  "unat v < 2 ^ (8 * (sizeInBytes_loop c v + 1 - c)) \<and> c \<le> sizeInBytes_loop c v"
proof (induction c v rule: sizeInBytes_loop.induct)
  case (1 c v)
  show ?case
  proof (cases "255 < v")
    case True
    obtain m where m: "sizeInBytes_loop (c + 1) (drop_bit 8 v) = c + 1 + m"
      using "1.IH" [OF True] le_Suc_ex by blast
    have "unat v div 2 ^ 8 < 2 ^ (8 * (m + 1))"
      using "1.IH" [OF True] by (simp only: m unat_drop_bit_div) simp
    then have "unat v < 2 ^ (8 * (m + 2))"
      by (simp add: power_add div_less_iff_less_mult)
    moreover have "sizeInBytes_loop c v = c + 1 + m"
      using True m by (subst sizeInBytes_loop.simps) simp
    ultimately show ?thesis by (simp add: add.commute)
  next
    case False
    then show ?thesis by (subst (1 2) sizeInBytes_loop.simps) (simp add: word_less_nat_alt)
  qed
qed

lemma sizeInBytes_fits: "unat v < 2 ^ (8 * sizeInBytes v)"
  using sizeInBytes_loop_bound [of v 1] by (simp add: sizeInBytes_def)

lemma sizeInBytes_loop_le:
  "unat v < 2 ^ (8 * k) \<Longrightarrow> 0 < k \<Longrightarrow> sizeInBytes_loop c v \<le> c + k - 1"
proof (induction c v arbitrary: k rule: sizeInBytes_loop.induct)
  case (1 c v)
  show ?case
  proof (cases "255 < v")
    case True
    obtain k' where k: "k = Suc k'" using "1.prems"(2) by (cases k) auto
    have "0 < k'" using True "1.prems"(1) by (cases k') (auto simp: k word_less_nat_alt)
    moreover have "unat (drop_bit 8 v) < 2 ^ (8 * k')"
      using "1.prems"(1) by (simp add: k unat_drop_bit_div less_mult_imp_div_less power_add mult.commute)
    ultimately show ?thesis using "1.IH" [OF True, of k'] True
      by (subst sizeInBytes_loop.simps) (simp add: k)
  next
    case False
    then show ?thesis using "1.prems"(2) by (subst sizeInBytes_loop.simps) simp
  qed
qed

lemma sizeInBytes_le_8: "sizeInBytes v \<le> 8"
  using sizeInBytes_loop_le [of v 8 1] unsigned_less [of v] by (simp add: sizeInBytes_def)

lemma sizeInBytes_pos: "0 < sizeInBytes v"
  using sizeInBytes_loop_bound [of v 1] by (simp add: sizeInBytes_def)

lemma header_byte_decode:
  assumes "c \<le> 7" "x < 32"
  shows "unat (header_byte c x AND 7) = c" "(ucast (drop_bit 3 (header_byte c x)) :: u64) = of_nat x"
proof -
  have c: "unat (of_nat c :: u32) = c" and x: "unat (of_nat x :: u32) = x"
    using assms by (simp_all add: unat_of_nat)
  have "(of_nat c :: u32) OR push_bit 3 (of_nat x) = of_nat c + push_bit 3 (of_nat x)"
    using assms(1) by (intro or_push_bit_add) (simp add: c)
  then have u: "unat (header_byte c x) = c + 8 * x"
    using assms by (simp add: header_byte_def unat_ucast_byte unat_word_ariths unat_push_bit c x)
  have "header_byte c x AND 7 = take_bit 3 (header_byte c x)"
    by (simp add: take_bit_eq_mask mask_eq_exp_minus_1)
  then have "unat (header_byte c x AND 7) = take_bit 3 (c + 8 * x)"
    by (simp only: unsigned_take_bit_eq u)
  then show "unat (header_byte c x AND 7) = c"
    using assms by (simp add: take_bit_eq_mod)
  have "unat (ucast (drop_bit 3 (header_byte c x)) :: u64) = x"
    using assms by (simp add: unsigned_ucast_eq unat_drop_bit_div u take_bit_nat_eq_self)
  then show "(ucast (drop_bit 3 (header_byte c x)) :: u64) = of_nat x"
    using assms by (simp add: word_unat_eq_iff unat_of_nat)
qed

lemma header_bytes_nonempty [simp]: "header_bytes c v \<noteq> []"
  by (simp add: header_bytes_def Let_def)

lemma readHeader_header_bytes:
  assumes "length bs < U32" "drop pos bs = header_bytes c v @ rest" "c \<le> 7"
  shows "readHeader bs pos = Inr ((c, v), pos + length (header_bytes c v))"
proof (cases "v < 23")
  case True
  then have u: "unat v < 23" by (simp add: word_less_nat_alt)
  have d: "drop pos bs = header_byte c (unat v) # rest"
    using assms(2) True by (simp add: header_bytes_def)
  show ?thesis
    using u header_byte_decode [OF assms(3), of "unat v"] True
    by (simp add: readHeader_def readByte_at [OF assms(1) d] header_bytes_def Let_def
        word_le_nat_alt word_less_nat_alt)
next
  case False
  define n where "n = sizeInBytes v"
  have n: "0 < n" "n \<le> 8" and fit: "unat v < 2 ^ (8 * n)"
    by (simp_all add: n_def sizeInBytes_pos sizeInBytes_le_8 sizeInBytes_fits)
  have e: "header_bytes c v = header_byte c (n + 22) # emit_le n v"
    using False n by (simp add: header_bytes_def n_def [symmetric])
  have d: "drop pos bs = header_byte c (n + 22) # emit_le n v @ rest"
    using assms(2) by (simp add: e)
  have x: "unat (of_nat (n + 22) :: u64) = n + 22" using n(2) by (intro unat_of_nat_u64) simp
  have x32: "n + 22 < 32" using n by simp
  have m: "(of_nat (n + 22) :: u64) - 22 = of_nat n" by simp
  have c1: "\<not> 31 \<le> (of_nat (n + 22) :: u64)" and c2: "22 < (of_nat (n + 22) :: u64)"
    using n unfolding word_le_nat_alt word_less_nat_alt x by simp_all
  show ?thesis
    unfolding readHeader_def readByte_at [OF assms(1) d] res_bind_Inr prod.case Let_def
      header_byte_decode [OF assms(3) x32] c1 c2 m
    using readLong_emit [OF assms(1) drop_Suc_eq [OF d] n(2) fit] by (simp add: c1 c2 e del: of_nat_add)
qed

section \<open>The stream encoding\<close>

definition enc_double :: "u64 \<Rightarrow> bytes" where
  "enc_double d =
     (if d = dbl_zero \<or> d = dbl_negzero then header_bytes TYPE_EXTRA XT_DZERO
      else if d = dbl_minusone then header_bytes TYPE_EXTRA XT_DMINUSONE
      else if d = dbl_one then header_bytes TYPE_EXTRA XT_DONE
      else header_bytes TYPE_EXTRA XT_DOUBLE @ emit_le 8 d)"

definition enc_flat :: "nat \<Rightarrow> bytes \<Rightarrow> bytes" where
  "enc_flat code b = header_bytes code (of_nat (length b)) @ b"

fun senc :: "uobj \<Rightarrow> bytes" where
  "senc UNull = header_bytes TYPE_CREF 0"
| "senc (UInt i) = (if 0 \<le> sint i then header_bytes TYPE_INT i else header_bytes TYPE_NINT (- i))"
| "senc (UDouble d) = enc_double d"
| "senc (UBool b) = header_bytes TYPE_EXTRA (if b then XT_TTRUE else XT_FALSE)"
| "senc (UDateTime t) = header_bytes TYPE_EXTRA XT_TIME @ encode7 (t div NANOS)"
| "senc (UBytes b) = enc_flat TYPE_BIN b"
| "senc (UString s) = enc_flat TYPE_TEXT s"
| "senc (UArray xs) = header_bytes TYPE_LIST (of_nat (length xs)) @ concat (map senc xs)"
| "senc (UBinder b) = header_bytes TYPE_DICT (of_nat (length b)) @
     concat (map (\<lambda>p. enc_flat TYPE_TEXT (fst p) @ senc (snd p)) b)"
| "senc (UComplex c) = []"

abbreviation enc_pair :: "bytes \<times> uobj \<Rightarrow> bytes" where
  "enc_pair p \<equiv> enc_flat TYPE_TEXT (fst p) @ senc (snd p)"

section \<open>Well-formed trees\<close>

text \<open>
  Binders are sorted and, unless they stand for a complex object, free of the reserved keys;
  packed keys are ones their constructor gives back; the size of every byte string is a
  \<open>size_t\<close>, and an array or a binder has fewer than \<open>2^31\<close> elements, which the reader counts with
  an \<open>int\<close>. An array or a binder inside another has a stream form below 4 GiB: the writer looks
  it up under that form, whose size \<open>getBytes\<close> takes as an \<open>unsigned int\<close>, so that larger ones
  can be mistaken for each other.
\<close>

definition short_stream :: "uobj \<Rightarrow> bool" where
  "short_stream u = (case u of UArray xs \<Rightarrow> length (senc u) < 2 ^ 32 | UBinder b \<Rightarrow> length (senc u) < 2 ^ 32 | _ \<Rightarrow> True)"

lemma short_stream_leaf [simp]:
  "short_stream UNull" "short_stream (UInt i)" "short_stream (UDouble d)" "short_stream (UBool t)"
  "short_stream (UDateTime n)" "short_stream (UBytes b)" "short_stream (UString b)"
  by (simp_all add: short_stream_def)

definition sized :: "'a list \<Rightarrow> bool" where
  "sized xs = (length xs < 2 ^ 64)"

fun cobj_ok :: "key_parser \<Rightarrow> cobj \<Rightarrow> bool" where
  "cobj_ok kp (CKeyAddress p) = (sized p \<and> kp AddressClass p = Some p)"
| "cobj_ok kp (CPublicKey p) = (sized p \<and> kp PublicKeyClass p = Some p)"
| "cobj_ok kp (CPrivateKey p) = (sized p \<and> kp PrivateKeyClass p = Some p)"
| "cobj_ok kp (CTest n a) = sized n"
| "cobj_ok kp (CHashId d) = sized d"
| "cobj_ok kp (CError s) = sized s"

fun uobj_wf :: "key_parser \<Rightarrow> uobj \<Rightarrow> bool" where
  "uobj_wf kp (UArray xs) = (length xs < 2 ^ 31 \<and> (\<forall>x \<in> set xs. uobj_wf kp x \<and> short_stream (base_serialize x)))"
| "uobj_wf kp (UBinder b) =
     (length b < 2 ^ 31 \<and> keys_sorted (map fst b) \<and> k_type \<notin> fst ` set b \<and> k_t \<notin> fst ` set b \<and>
      (\<forall>p \<in> set b. sized (fst p) \<and> uobj_wf kp (snd p) \<and> short_stream (base_serialize (snd p))))"
| "uobj_wf kp (UComplex c) = cobj_ok kp c"
| "uobj_wf kp (UBytes b) = sized b"
| "uobj_wf kp (UString b) = sized b"
| "uobj_wf kp o1 = True"

text \<open>Trees without complex objects, as \<open>BossSerializer\<close> writes and reads them.\<close>

fun uobj_plain :: "uobj \<Rightarrow> bool" where
  "uobj_plain (UArray xs) = (length xs < 2 ^ 31 \<and> (\<forall>x \<in> set xs. uobj_plain x \<and> short_stream x))"
| "uobj_plain (UBinder b) = (length b < 2 ^ 31 \<and> keys_sorted (map fst b) \<and>
     (\<forall>p \<in> set b. sized (fst p) \<and> uobj_plain (snd p) \<and> short_stream (snd p)))"
| "uobj_plain (UComplex c) = False"
| "uobj_plain (UBytes b) = sized b"
| "uobj_plain (UString b) = sized b"
| "uobj_plain o1 = True"

lemma sorted_decompose: "keys_sorted (map fst (decompose c))"
  by (cases c) (auto simp: binder_of1_def binder_of2_def Let_def)

lemma base_serialize_plain: "uobj_wf kp u \<Longrightarrow> uobj_plain (base_serialize u)"
proof (induction kp u rule: uobj_wf.induct)
  case (2 kp b)
  have "map fst (map (\<lambda>(k, v). (k, base_serialize v)) b) = map fst b" by auto
  with 2 show ?case by (auto simp: sized_def simp del: map_map)
next
  case (3 kp c)
  have "keys_sorted (map fst (binder_set k_type (UString (type_name c)) (decompose c)))"
    by (rule binder_set_sorted [OF sorted_decompose])
  then show ?case
    using 3 by (cases c) (auto simp: binder_of1_def binder_of2_def k_type_def Let_def sized_def)
qed (auto simp: sized_def)

lemma base_serialize_plain_id: "uobj_plain u \<Longrightarrow> base_serialize u = u"
  by (induction u rule: uobj_plain.induct) (auto intro: map_idI)

lemma type_name_nonempty: "type_name c \<noteq> []"
  by (cases c) auto

lemma deserialize_complex_serialized:
  "cobj_ok kp c \<Longrightarrow>
   deserialize_complex kp (type_name c) (binder_set k_type (UString (type_name c)) (decompose c)) =
     Inr (UComplex c)"
  by (cases c) (auto simp: deserialize_complex_def binder_of1_def binder_of2_def Let_def k_type_def
    compose_test_def compose_hashid_def compose_address_def compose_public_def compose_private_def
    compose_error_def getString_def getInt_def bytes_asInstance_def parse_key_def)

lemma binder_type_serialized:
  "binder_type (binder_set k_type (UString (type_name c)) b) = Inr (type_name c)"
  by (simp add: binder_type_def getStringOrDefault_def ubinder_map.get_same type_name_nonempty)

lemma binder_type_plain:
  "k_type \<notin> fst ` set b \<Longrightarrow> k_t \<notin> fst ` set b \<Longrightarrow> binder_type b = Inr []"
  by (simp add: binder_type_def getStringOrDefault_def binder_get_notin)

lemma base_deserialize_list_map:
  "(\<And>x. x \<in> set xs \<Longrightarrow> base_deserialize kp (f x) = Inr x) \<Longrightarrow>
   base_deserialize_list kp (map f xs) = Inr xs"
  by (induction xs) auto

lemma base_deserialize_pairs_map:
  "(\<And>p. p \<in> set b \<Longrightarrow> base_deserialize kp (f (snd p)) = Inr (snd p)) \<Longrightarrow>
   base_deserialize_pairs kp (map (\<lambda>(k, v). (k, f v)) b) = Inr b"
  by (induction b) force+

lemma base_deserialize_serialize:
  "uobj_wf kp u \<Longrightarrow> base_deserialize kp (base_serialize u) = Inr u"
proof (induction kp u rule: uobj_wf.induct)
  case (2 kp b)
  have "fst ` set (map (\<lambda>(k, v). (k, base_serialize v)) b) = fst ` set b" by force
  with 2 have "binder_type (map (\<lambda>(k, v). (k, base_serialize v)) b) = Inr []"
    using binder_type_plain by auto
  moreover have "base_deserialize_pairs kp (map (\<lambda>(k, v). (k, base_serialize v)) b) = Inr b"
    using 2 by (intro base_deserialize_pairs_map) auto
  ultimately show ?case by simp
next
  case (3 kp c)
  then show ?case
    by (simp add: binder_type_serialized type_name_nonempty deserialize_complex_serialized)
qed (auto simp: base_deserialize_list_map)

section \<open>A writer in stream mode\<close>

lemma push_push [simp]: "push_bytes b (push_bytes a w) = push_bytes (a @ b) w"
  by (simp add: push_bytes_def)

lemma push_Nil [simp]: "push_bytes [] w = w"
  by (simp add: push_bytes_def)

lemma push_sel [simp]:
  "wr_cache (push_bytes b w) = wr_cache w" "wr_tree (push_bytes b w) = wr_tree w"
  "wr_buf (push_bytes b w) = wr_buf w @ b" "skips_cache (push_bytes b w) = skips_cache w"
  by (simp_all add: push_bytes_def skips_cache_def)

lemma writeHeader_ok: "c \<le> 7 \<Longrightarrow> writeHeader c v w = Inr (push_bytes (header_bytes c v) w)"
  by (simp add: writeHeader_def)

lemma writeHeader_type [simp]:
  "writeHeader TYPE_INT v w = Inr (push_bytes (header_bytes TYPE_INT v) w)"
  "writeHeader TYPE_EXTRA v w = Inr (push_bytes (header_bytes TYPE_EXTRA v) w)"
  "writeHeader TYPE_NINT v w = Inr (push_bytes (header_bytes TYPE_NINT v) w)"
  "writeHeader TYPE_TEXT v w = Inr (push_bytes (header_bytes TYPE_TEXT v) w)"
  "writeHeader TYPE_BIN v w = Inr (push_bytes (header_bytes TYPE_BIN v) w)"
  "writeHeader TYPE_CREF v w = Inr (push_bytes (header_bytes TYPE_CREF v) w)"
  "writeHeader TYPE_LIST v w = Inr (push_bytes (header_bytes TYPE_LIST v) w)"
  "writeHeader TYPE_DICT v w = Inr (push_bytes (header_bytes TYPE_DICT v) w)"
  by (simp_all add: writeHeader_def type_codes)

lemma put_double_enc: "put_double d w = Inr (push_bytes (enc_double d) w)"
  by (simp add: put_double_def enc_double_def)

lemma put_stream:
  "skips_cache w \<Longrightarrow> uobj_plain u \<Longrightarrow> put u w = Inr (push_bytes (senc u) w)"
  "skips_cache w \<Longrightarrow> \<forall>x \<in> set xs. uobj_plain x \<Longrightarrow>
     put_list xs w = Inr (push_bytes (concat (map senc xs)) w)"
  "skips_cache w \<Longrightarrow> \<forall>p \<in> set b. uobj_plain (snd p) \<Longrightarrow>
     put_pairs b w = Inr (push_bytes (concat (map enc_pair b)) w)"
proof (induction u w and xs w and b w rule: put_put_list_put_pairs.induct)
  case (8 xs w)
  from "8.IH"(2) [of "(False, w)" False w] "8.prems" show ?case by simp
next
  case (9 b w)
  from "9.IH"(2) [of "(False, w)" False w] "9.prems" show ?case by simp
qed (auto simp: put_double_enc put_flat_def tryWriteFlat_def enc_flat_def writeEncoded_def)

lemma senc_nonempty: "uobj_plain u \<Longrightarrow> senc u \<noteq> []"
  by (cases u) (auto simp: enc_double_def enc_flat_def)

end
