(* ===== verification/BossRoundtrip.thy ===== *)
theory BossRoundtrip
  imports BossCodec
begin

text \<open>
  \<open>Reader\<close> undoes \<open>Writer\<close>: the encoding of a tree determines it, a cache hit of the writer is a
  reference the reader resolves to the same tree, and so every written tree is read back, up to
  the sign of a zero double and the fraction of a second of a time.
\<close>

section \<open>What survives a round trip\<close>

fun canon :: "uobj \<Rightarrow> uobj" where
  "canon (UDouble d) = UDouble (if d = dbl_negzero then dbl_zero else d)"
| "canon (UDateTime t) = UDateTime ((t div NANOS) * NANOS)"
| "canon (UArray xs) = UArray (map canon xs)"
| "canon (UBinder b) = UBinder (map (\<lambda>p. (fst p, canon (snd p))) b)"
| "canon u = u"

lemma seconds_again: "(t div NANOS * NANOS) div NANOS = t div NANOS"
proof (rule word_unat_eq_iff [THEN iffD2])
  have n: "unat NANOS = 1000000000" by (simp add: NANOS_def)
  have d: "unat (t div NANOS) = unat t div 1000000000" by (simp add: unat_div n)
  have "unat t div 1000000000 * 1000000000 \<le> unat t" by simp
  also have "unat t < 2 ^ 64" using unsigned_less [of t, where 'a = nat] by simp
  finally have "unat (t div NANOS * NANOS) = unat t div 1000000000 * 1000000000" by (simp add: unat_word_ariths n d)
  then show "unat ((t div NANOS * NANOS) div NANOS) = unat (t div NANOS)" by (simp add: unat_div n)
qed

lemma senc_canon: "senc (canon u) = senc u"
proof (induction u)
  case (UArray xs)
  then have "map (senc \<circ> canon) xs = map senc xs" by simp
  then show ?case by (simp only: canon.simps senc.simps map_map length_map)
next
  case (UBinder b)
  then have "map (\<lambda>p. enc_flat TYPE_TEXT (fst p) @ senc (canon (snd p))) b = map (\<lambda>p. enc_flat TYPE_TEXT (fst p) @ senc (snd p)) b"
    by (auto simp: snds.simps)
  then show ?case by (simp only: canon.simps senc.simps map_map comp_def fst_conv snd_conv length_map)
qed (simp_all add: enc_double_def seconds_again dbl_defs)

lemma short_stream_canon [simp]: "short_stream (canon u) = short_stream u"
proof (cases u)
  case (UArray xs)
  then show ?thesis using senc_canon [of u] by (simp add: short_stream_def del: senc.simps)
next
  case (UBinder b)
  then show ?thesis using senc_canon [of u] by (simp add: short_stream_def del: senc.simps)
qed simp_all

section \<open>Encodings are prefix-free\<close>

lemma length_encode7: "unat v < 2 ^ (7 * k) \<Longrightarrow> 0 < k \<Longrightarrow> length (encode7 v) \<le> k"
proof (induction v arbitrary: k rule: encode7.induct)
  case (1 v)
  obtain k' where k: "k = Suc k'" using "1.prems"(2) by (cases k) auto
  show ?case
  proof (cases "0x7F < v")
    case True
    have "0 < k'" using True "1.prems"(1) by (cases k') (auto simp: k word_less_nat_alt)
    moreover have "unat (drop_bit 7 v) < 2 ^ (7 * k')"
      using "1.prems"(1) by (simp add: k unat_drop_bit_div less_mult_imp_div_less power_add mult.commute)
    ultimately show ?thesis using "1.IH" [OF True, of k'] True
      by (subst encode7.simps) (simp add: k)
  next
    case False
    then show ?thesis by (subst encode7.simps) (simp add: k)
  qed
qed

lemma length_encode7_le: "length (encode7 v) \<le> 10"
  using length_encode7 [of v 10] unsigned_less [of v, where 'a = nat] by simp

lemma length_header_bytes_le: "length (header_bytes c v) \<le> 19"
  using sizeInBytes_le_8 [of v] length_encode7_le [of "of_nat (sizeInBytes v)"]
  by (simp add: header_bytes_def Let_def)

text \<open>A bound on the size of a packed tree, from its parts.\<close>

fun weight :: "uobj \<Rightarrow> nat" where
  "weight (UBytes b) = 19 + length b"
| "weight (UString b) = 19 + length b"
| "weight (UArray xs) = 19 + sum_list (map weight xs)"
| "weight (UBinder b) = 19 + sum_list (map (\<lambda>p. 19 + length (fst p) + weight (snd p)) b)"
| "weight _ = 29"

lemma header_small: "length (header_bytes c v) \<le> 29" "length (header_bytes c v) \<le> 21"
  using length_header_bytes_le [of c v] by simp_all

lemma length_concat_le: "(\<And>x. x \<in> set xs \<Longrightarrow> length (f x) \<le> g x) \<Longrightarrow> length (concat (map f xs)) \<le> sum_list (map g xs)"
  by (induction xs) (auto intro: add_mono)

lemma length_senc: "length (senc u) \<le> weight u"
proof (induction u)
  case (UArray xs)
  then show ?case using length_concat_le [of xs senc weight] length_header_bytes_le [of TYPE_LIST "of_nat (length xs)"] by simp
next
  case (UBinder b)
  have "length (enc_pair p) \<le> 19 + length (fst p) + weight (snd p)" if "p \<in> set b" for p
    using UBinder [OF that, of "snd p"] length_header_bytes_le [of TYPE_TEXT "of_nat (length (fst p))"]
    by (cases p) (auto simp: enc_flat_def)
  then show ?case
    using length_concat_le [of b "\<lambda>p. enc_pair p" "\<lambda>p. 19 + length (fst p) + weight (snd p)"]
      length_header_bytes_le [of TYPE_DICT "of_nat (length b)"] by simp
next
  case (UDateTime t)
  show ?case using length_header_bytes_le [of TYPE_EXTRA XT_TIME] length_encode7_le [of "t div NANOS"] by simp
next
  case (UDouble d)
  show ?case using length_header_bytes_le [of TYPE_EXTRA] by (simp add: enc_double_def header_small)
qed (auto simp: enc_flat_def header_small length_header_bytes_le)

lemma short_streamI: "weight u < 2 ^ 32 \<Longrightarrow> short_stream u"
  using length_senc [of u] by (cases u) (simp_all add: short_stream_def)

lemma append_take_both:
  assumes "a @ x = b @ y"
  shows "a @ take (length b) x = b @ take (length a) y"
proof -
  have "take (length a + length b) (a @ x) = take (length a + length b) (b @ y)" using assms by simp
  then show ?thesis by simp
qed

lemma header_bytes_prefix_free:
  assumes "header_bytes c v @ x = header_bytes c' v' @ y" "c \<le> 7" "c' \<le> 7"
  shows "c = c' \<and> v = v' \<and> x = y"
proof -
  let ?h = "header_bytes c v" and ?h' = "header_bytes c' v'"
  let ?bs = "?h @ take (length ?h') x"
  have bs: "drop 0 ?bs = ?h @ take (length ?h') x" "drop 0 ?bs = ?h' @ take (length ?h) y"
    using append_take_both [OF assms(1)] by simp_all
  have "length ?bs < U32"
    using length_header_bytes_le [of c v] length_header_bytes_le [of c' v'] by (simp add: U32_def)
  from readHeader_header_bytes [OF this bs(1) assms(2)] readHeader_header_bytes [OF this bs(2) assms(3)]
  have "c = c'" "v = v'" by simp_all
  with assms(1) show ?thesis by simp
qed

lemma encode7_prefix_free:
  assumes "encode7 v @ x = encode7 v' @ y"
  shows "v = v' \<and> x = y"
proof -
  let ?h = "encode7 v" and ?h' = "encode7 v'"
  let ?bs = "?h @ take (length ?h') x"
  have bs: "drop 0 ?bs = ?h @ take (length ?h') x" "drop 0 ?bs = ?h' @ take (length ?h) y"
    using append_take_both [OF assms] by simp_all
  have "length ?bs < U32"
    using length_encode7_le [of v] length_encode7_le [of v'] by (simp add: U32_def)
  from readEncodedLong_encode7 [OF this bs(1)] readEncodedLong_encode7 [OF this bs(2)]
  have "v = v'" by simp
  with assms show ?thesis by simp
qed

lemma sized_of_nat: "sized xs \<Longrightarrow> unat (of_nat (length xs) :: u64) = length xs"
  unfolding sized_def by (rule of_nat_inverse) simp_all

lemma counted_of_nat: "length xs < 2 ^ 31 \<Longrightarrow> unat (of_nat (length xs) :: u64) = length xs"
  by (rule sized_of_nat) (simp add: sized_def)

lemma sized_of_nat_eq: "sized xs \<Longrightarrow> sized ys \<Longrightarrow> (of_nat (length xs) :: u64) = of_nat (length ys) \<Longrightarrow>
  length xs = length ys"
  by (metis sized_of_nat)

lemma le_word_emit_8: "le_word (emit_le 8 d) = d"
  by (rule le_word_emit) (use unsigned_less [of d, where 'a = nat] in simp)

lemma emit_le_8_inj: "emit_le 8 d @ x = emit_le 8 d' @ y \<Longrightarrow> d = d' \<and> x = y"
  by (metis append_eq_append_conv le_word_emit_8 length_emit_le)

lemma enc_flat_prefix_free:
  assumes "enc_flat c b @ x = enc_flat c' b' @ y" "c \<le> 7" "c' \<le> 7" "sized b" "sized b'"
  shows "c = c' \<and> b = b' \<and> x = y"
proof -
  from assms(1) have "header_bytes c (of_nat (length b)) @ b @ x = header_bytes c' (of_nat (length b')) @ b' @ y"
    by (simp add: enc_flat_def)
  then have c: "c = c'" "b @ x = b' @ y" "(of_nat (length b) :: u64) = of_nat (length b')"
    using header_bytes_prefix_free assms(2,3) by blast+
  with sized_of_nat_eq [OF assms(4,5)] have "length b = length b'" by blast
  with c show ?thesis by simp
qed

text \<open>The head of an encoding: its type code, header value and the bytes that follow it.\<close>

fun head_code :: "uobj \<Rightarrow> nat" where
  "head_code UNull = TYPE_CREF"
| "head_code (UInt i) = (if 0 \<le> sint i then TYPE_INT else TYPE_NINT)"
| "head_code (UBytes b) = TYPE_BIN"
| "head_code (UString b) = TYPE_TEXT"
| "head_code (UArray xs) = TYPE_LIST"
| "head_code (UBinder b) = TYPE_DICT"
| "head_code u = TYPE_EXTRA"

fun head_val :: "uobj \<Rightarrow> u64" where
  "head_val UNull = 0"
| "head_val (UInt i) = (if 0 \<le> sint i then i else - i)"
| "head_val (UDouble d) = (if d = dbl_zero \<or> d = dbl_negzero then XT_DZERO else if d = dbl_minusone then XT_DMINUSONE
     else if d = dbl_one then XT_DONE else XT_DOUBLE)"
| "head_val (UBool b) = (if b then XT_TTRUE else XT_FALSE)"
| "head_val (UDateTime t) = XT_TIME"
| "head_val (UBytes b) = of_nat (length b)"
| "head_val (UString b) = of_nat (length b)"
| "head_val (UArray xs) = of_nat (length xs)"
| "head_val (UBinder b) = of_nat (length b)"
| "head_val (UComplex c) = 0"

fun tail_bytes :: "uobj \<Rightarrow> bytes" where
  "tail_bytes (UDouble d) = (if d \<in> {dbl_zero, dbl_negzero, dbl_minusone, dbl_one} then [] else emit_le 8 d)"
| "tail_bytes (UDateTime t) = encode7 (t div NANOS)"
| "tail_bytes (UBytes b) = b"
| "tail_bytes (UString b) = b"
| "tail_bytes (UArray xs) = concat (map senc xs)"
| "tail_bytes (UBinder b) = concat (map enc_pair b)"
| "tail_bytes u = []"

lemma senc_head: "uobj_plain u \<Longrightarrow> senc u = header_bytes (head_code u) (head_val u) @ tail_bytes u"
  by (cases u) (auto simp: enc_double_def enc_flat_def)

lemma head_code_le: "head_code u \<le> 7"
  by (cases u) (auto simp: type_codes)

lemma list_prefix_free:
  assumes "\<And>a b x y. a \<in> set xs \<Longrightarrow> b \<in> set ys \<Longrightarrow> f a @ x = f b @ y \<Longrightarrow> g a = g b \<and> x = y"
    and "length xs = length ys" and "concat (map f xs) @ x = concat (map f ys) @ y"
  shows "map g xs = map g ys \<and> x = y"
  using assms(2,1,3)
proof (induction xs ys arbitrary: x y rule: list_induct2)
  case (Cons a as b bs)
  from Cons.prems(2) have e: "f a @ concat (map f as) @ x = f b @ concat (map f bs) @ y" by simp
  with Cons.prems(1) [of a b] have "g a = g b" "concat (map f as) @ x = concat (map f bs) @ y"
    by auto
  with Cons.IH Cons.prems(1) show ?case by (metis list.set_intros(2) list.simps(9))
qed simp

lemma emit_inj: "d \<noteq> d' \<Longrightarrow> emit_le 8 d @ x \<noteq> emit_le 8 d' @ y"
  using emit_le_8_inj by blast

fun leaf :: "uobj \<Rightarrow> bool" where
  "leaf (UArray _) = False"
| "leaf (UBinder _) = False"
| "leaf (UComplex _) = False"
| "leaf _ = True"

lemma sized_append_eq:
  "sized a \<Longrightarrow> sized b \<Longrightarrow> (of_nat (length a) :: u64) = of_nat (length b) \<Longrightarrow> a @ x = b @ y \<Longrightarrow> a = b \<and> x = y"
  using sized_of_nat_eq by (metis append_eq_append_conv)

lemma double_determined:
  assumes "head_val (UDouble d) = head_val (UDouble d')"
    and "tail_bytes (UDouble d) @ x = tail_bytes (UDouble d') @ y"
  shows "canon (UDouble d) = canon (UDouble d') \<and> x = y"
proof (cases "d \<in> {dbl_zero, dbl_negzero, dbl_minusone, dbl_one}")
  case True
  then have "head_val (UDouble d) \<noteq> XT_DOUBLE"
    by (auto simp: extra_codes)
  with assms(1) have d': "d' \<in> {dbl_zero, dbl_negzero, dbl_minusone, dbl_one}"
    by (auto split: if_splits)
  have "canon (UDouble d) = canon (UDouble d')"
    using True d' assms(1) unfolding insert_iff empty_iff
    by (elim disjE) (simp_all add: extra_codes dbl_defs)
  with True d' assms(2) show ?thesis by simp
next
  case False
  with assms(1) have "d' \<notin> {dbl_zero, dbl_negzero, dbl_minusone, dbl_one}"
    by (auto simp: extra_codes split: if_splits)
  with False assms(2) have "emit_le 8 d @ x = emit_le 8 d' @ y" by simp
  then show ?thesis using emit_le_8_inj by blast
qed

lemma leaf_determined:
  assumes "leaf u" "uobj_plain u" "uobj_plain u'" "head_code u = head_code u'" "head_val u = head_val u'"
    "tail_bytes u @ x = tail_bytes u' @ y"
  shows "canon u = canon u' \<and> x = y"
proof (cases u)
  case (UDouble d)
  then have "u' = UDouble d' \<Longrightarrow> ?thesis" for d'
    using double_determined [of d d' x y] assms(5,6) by simp
  moreover have "\<exists>d'. u' = UDouble d'"
    using UDouble assms(3-5) by (cases u') (auto simp: type_codes extra_codes split: if_splits)
  ultimately show ?thesis by blast
next
  case (UDateTime t)
  then have "u' = UDateTime t' \<Longrightarrow> ?thesis" for t'
    using assms(6) encode7_prefix_free [of "t div NANOS" x "t' div NANOS" y] by simp
  moreover have "\<exists>t'. u' = UDateTime t'"
    using UDateTime assms(3-5) by (cases u') (auto simp: type_codes extra_codes split: if_splits)
  ultimately show ?thesis by blast
next
  case (UInt i)
  then show ?thesis using assms by (cases u') (auto simp: type_codes split: if_splits)
next
  case (UBool b)
  then show ?thesis using assms by (cases u') (auto simp: type_codes extra_codes split: if_splits)
next
  case (UBytes b)
  then show ?thesis using assms by (cases u') (auto simp: type_codes split: if_splits dest: sized_append_eq)
next
  case (UString b)
  then show ?thesis using assms by (cases u') (auto simp: type_codes split: if_splits dest: sized_append_eq)
next
  case UNull
  then show ?thesis using assms by (cases u') (auto simp: type_codes split: if_splits)
qed (use assms(1) in auto)

lemma senc_head_eq:
  assumes "uobj_plain u" "uobj_plain u'" "senc u @ x = senc u' @ y"
  shows "head_code u = head_code u'" "head_val u = head_val u'" "tail_bytes u @ x = tail_bytes u' @ y"
  using header_bytes_prefix_free [of "head_code u" "head_val u" "tail_bytes u @ x"
      "head_code u'" "head_val u'" "tail_bytes u' @ y"] assms
  by (simp_all add: senc_head head_code_le)

lemma senc_prefix_free_leaf:
  "leaf u \<Longrightarrow> uobj_plain u \<Longrightarrow> uobj_plain u' \<Longrightarrow> senc u @ x = senc u' @ y \<Longrightarrow> canon u = canon u' \<and> x = y"
  by (rule leaf_determined; (assumption | rule senc_head_eq))

lemma senc_prefix_free:
  "uobj_plain u \<Longrightarrow> uobj_plain u' \<Longrightarrow> senc u @ x = senc u' @ y \<Longrightarrow> canon u = canon u' \<and> x = y"
proof (induction u arbitrary: u' x y)
  case (UArray xs)
  from senc_head_eq [OF UArray.prems] have h: "head_code u' = TYPE_LIST" "of_nat (length xs) = head_val u'"
      "concat (map senc xs) @ x = tail_bytes u' @ y"
    by simp_all
  then obtain ys where u': "u' = UArray ys" by (cases u') (auto simp: type_codes split: if_splits)
  with h UArray.prems have "length xs = length ys" by (auto intro: sized_of_nat_eq simp: sized_def)
  moreover have "canon a = canon c \<and> p = q"
    if "a \<in> set xs" "c \<in> set ys" "senc a @ p = senc c @ q" for a c p q
    using UArray.IH [OF that(1) _ _ that(3)] UArray.prems that by (auto simp: u')
  ultimately have "map canon xs = map canon ys \<and> x = y"
    using h(3) by (intro list_prefix_free [where f = senc]) (auto simp: u')
  then show ?case by (simp add: u')
next
  case (UBinder b)
  from senc_head_eq [OF UBinder.prems] have h: "head_code u' = TYPE_DICT" "of_nat (length b) = head_val u'"
      "concat (map enc_pair b) @ x = tail_bytes u' @ y"
    by simp_all
  then obtain b' where u': "u' = UBinder b'" by (cases u') (auto simp: type_codes split: if_splits)
  with h UBinder.prems have "length b = length b'" by (auto intro: sized_of_nat_eq simp: sized_def)
  moreover have "(\<lambda>p. (fst p, canon (snd p))) a = (\<lambda>p. (fst p, canon (snd p))) c \<and> p = q"
    if "a \<in> set b" "c \<in> set b'" "enc_pair a @ p = enc_pair c @ q" for a c p q
  proof -
    have e: "enc_flat TYPE_TEXT (fst a) @ senc (snd a) @ p = enc_flat TYPE_TEXT (fst c) @ senc (snd c) @ q"
      using that(3) by simp
    have k: "fst a = fst c" "senc (snd a) @ p = senc (snd c) @ q"
      using enc_flat_prefix_free [OF e] UBinder.prems that(1,2) by (auto simp: u' type_codes)
    have "snd a \<in> Basic_BNFs.snds a" by (cases a) simp
    with UBinder.IH [OF that(1) this _ _ k(2)] UBinder.prems that(1,2) k(1) show ?thesis
      by (auto simp: u')
  qed
  ultimately have "map (\<lambda>p. (fst p, canon (snd p))) b = map (\<lambda>p. (fst p, canon (snd p))) b' \<and> x = y"
    using h(3) by (intro list_prefix_free [where f = enc_pair]) (auto simp: u')
  then show ?case by (simp add: u')
qed (rule senc_prefix_free_leaf; simp)+

lemma senc_inj: "uobj_plain u \<Longrightarrow> uobj_plain u' \<Longrightarrow> senc u = senc u' \<Longrightarrow> canon u = canon u'"
  using senc_prefix_free [of u u' "[]" "[]"] by simp

section \<open>Writer and reader in step\<close>

text \<open>
  What ties a cache entry of the writer to the slot of the reader: the slot of a container that
  is still being read is empty.
\<close>

fun entry_ok :: "cached_object \<Rightarrow> uobj option \<Rightarrow> bool" where
  "entry_ok (CT_BIN, b) x = (x = Some (UBytes b))"
| "entry_ok (CT_TEXT, b) x = (x = Some (UString b))"
| "entry_ok (ct, b) x = (x = None \<or> (\<exists>u. uobj_plain u \<and> senc u = b \<and> x = Some (canon u)))"

text \<open>The key of an empty slot is the cut stream form of a tree that is larger than what is still to be written.\<close>

definition open_above :: "bytes \<Rightarrow> nat \<Rightarrow> bool" where
  "open_above key n = (\<exists>u. uobj_plain u \<and> cut_size (senc u) = key \<and> n < length (senc u))"

lemma open_above_mono: "open_above key n \<Longrightarrow> m \<le> n \<Longrightarrow> open_above key m"
  unfolding open_above_def using le_less_trans by blast

lemma not_open_above_own:
  assumes "uobj_plain u"
  shows "\<not> open_above (senc u) (length (senc u))"
proof
  assume "open_above (senc u) (length (senc u))"
  then obtain v where v: "uobj_plain v" "cut_size (senc v) = senc u" "length (senc u) < length (senc v)"
    unfolding open_above_def by blast
  then obtain n where n: "take n (senc v) = senc u" unfolding cut_size_def by blast
  then have "senc u @ drop n (senc v) = senc v @ []" using append_take_drop_id [of n "senc v"] by simp
  from senc_prefix_free [OF assms v(1) this] n have "senc v = senc u" by simp
  then show False using v(3) by simp
qed

definition slot_ok :: "(cached_object \<times> u64) list \<Rightarrow> uobj option list \<Rightarrow> nat \<Rightarrow> bool" where
  "slot_ok C R i = (snd (C ! i) = of_nat (i + 1) \<and> entry_ok (fst (C ! i)) (R ! i))"

definition sync :: "writer \<Rightarrow> reader \<Rightarrow> nat \<Rightarrow> bool" where
  "sync w r n =
     (wr_tree w \<and> rd_tree r \<and> length (wr_cache w) = length (rd_cache r) \<and> length (wr_cache w) \<le> rd_pos r \<and>
      (\<forall>i < length (rd_cache r). slot_ok (wr_cache w) (rd_cache r) i) \<and>
      (\<forall>i < length (rd_cache r). rd_cache r ! i = None \<longrightarrow> open_above (snd (fst (wr_cache w ! i))) n) \<and>
      (\<forall>j \<in> set (rd_rec r). 0 < j \<and> j \<le> length (rd_cache r) \<and> rd_cache r ! (j - 1) = None))"

definition wr_after :: "writer \<Rightarrow> bytes \<Rightarrow> (cached_object \<times> u64) list \<Rightarrow> writer" where
  "wr_after w enc Cn = w\<lparr>wr_buf := wr_buf w @ enc, wr_cache := wr_cache w @ Cn\<rparr>"

definition rd_after :: "reader \<Rightarrow> bytes \<Rightarrow> uobj list \<Rightarrow> reader" where
  "rd_after r enc new = r\<lparr>rd_pos := rd_pos r + length enc, rd_cache := rd_cache r @ map Some new\<rparr>"

lemma drop_append_bound: "drop pos bs = b @ post \<Longrightarrow> b \<noteq> [] \<Longrightarrow> pos + length b \<le> length bs"
  using length_drop [of pos bs] by (cases b) auto

definition step_ok :: "uobj \<Rightarrow> writer \<Rightarrow> reader \<Rightarrow> bytes \<Rightarrow> (cached_object \<times> u64) list \<Rightarrow> uobj list \<Rightarrow> bool" where
  "step_ok u w r enc Cn new =
     (put u w = Inr (wr_after w enc Cn) \<and> enc \<noteq> [] \<and>
      (short_stream u \<longrightarrow> (\<forall>n. sync w r n \<longrightarrow> sync (wr_after w enc Cn) (rd_after r enc new) n)) \<and>
      (\<forall>bs post fuel. drop (rd_pos r) bs = enc @ post \<longrightarrow> length bs < U32 \<longrightarrow> 2 * length enc \<le> fuel \<longrightarrow>
         get fuel bs r = Inr (canon u, rd_after r enc new)))"

text \<open>A tree whose stream form is larger than what the cache can tell apart is read back as the first one.\<close>

definition reads_back :: "uobj \<Rightarrow> bool" where
  "reads_back u = (\<forall>w r. short_stream u \<or> wr_cache w = [] \<longrightarrow> sync w r (length (senc u)) \<longrightarrow> (\<exists>enc Cn new. step_ok u w r enc Cn new))"

lemma step_okI:
  assumes "put u w = Inr (wr_after w enc Cn)" "enc \<noteq> []"
    and "\<And>n. short_stream u \<Longrightarrow> sync w r n \<Longrightarrow> sync (wr_after w enc Cn) (rd_after r enc new) n"
    and "\<And>bs post fuel. drop (rd_pos r) bs = enc @ post \<Longrightarrow> length bs < U32 \<Longrightarrow> 2 * length enc \<le> fuel \<Longrightarrow>
      0 < fuel \<Longrightarrow> rd_pos r + length enc \<le> length bs \<Longrightarrow> get fuel bs r = Inr (canon u, rd_after r enc new)"
  shows "step_ok u w r enc Cn new"
  unfolding step_ok_def
proof (intro conjI allI impI)
  fix bs post fuel
  assume a: "drop (rd_pos r) bs = enc @ post" "length bs < U32" "2 * length enc \<le> fuel"
  moreover have "0 < fuel" using a(3) assms(2) by (cases enc) auto
  moreover have "rd_pos r + length enc \<le> length bs" using drop_append_bound [OF a(1) assms(2)] .
  ultimately show "get fuel bs r = Inr (canon u, rd_after r enc new)" by (rule assms(4))
qed (use assms(1-3) in simp_all)

lemma reads_backI:
  assumes "\<And>w r. short_stream u \<or> wr_cache w = [] \<Longrightarrow> sync w r (length (senc u)) \<Longrightarrow> \<exists>enc Cn new. step_ok u w r enc Cn new"
  shows "reads_back u"
  using assms unfolding reads_back_def by blast

lemma push_as_after: "push_bytes b w = wr_after w b []"
  by (simp add: push_bytes_def wr_after_def)

lemma sync_no_entry: "sync w r n \<Longrightarrow> sync (wr_after w enc []) (rd_after r enc []) n"
  by (simp add: sync_def wr_after_def rd_after_def)

lemma sync_mono: "sync w r n \<Longrightarrow> m \<le> n \<Longrightarrow> sync w r m"
  unfolding sync_def using open_above_mono by blast

lemma sync_one_entry:
  assumes "sync w r n" "enc \<noteq> []" "entry_ok key (Some u)"
  shows "sync (wr_after w enc [(key, of_nat (length (wr_cache w)) + 1)]) (rd_after r enc [u]) n"
proof -
  obtain m where "length enc = Suc m" using assms(2) by (cases enc) auto
  then show ?thesis using assms(1,3)
    by (auto simp: sync_def wr_after_def rd_after_def slot_ok_def nth_append less_Suc_eq)
qed

section \<open>Leaves\<close>

lemma get_header:
  assumes "length bs < U32" "drop (rd_pos r) bs = header_bytes c v @ rest" "c \<le> 7" "0 < fuel"
  shows "get fuel bs r = (let r = r\<lparr>rd_pos := rd_pos r + length (header_bytes c v)\<rparr>; f = fuel - 1 in
     if c = TYPE_LIST then
       res_bind (get_items f bs (int_rounds v) (begin_container r)) (\<lambda>(xs, r').
         int_counted v (UArray xs, end_container (rd_tree r) (length (rd_cache r)) (UArray xs) r'))
     else if c = TYPE_DICT then
       res_bind (get_pairs f bs (int_rounds v) [] (begin_container r)) (\<lambda>(b, r').
         int_counted v (UBinder b, end_container (rd_tree r) (length (rd_cache r)) (UBinder b) r'))
     else if c = TYPE_EXTRA then
       (if ucast v = (ucast XT_STREAM_MODE :: u32) then get f bs (rd_setStreamMode r)
        else parseExtra bs (ucast v) r)
     else get_leaf bs c v r)"
  using assms(4) by (cases fuel) (simp_all add: readHeader_header_bytes [OF assms(1-3)] Let_def)

lemma reads_back_no_entry:
  assumes "\<And>w. put u w = Inr (push_bytes enc w)" "enc \<noteq> []"
    and "\<And>bs r post fuel. drop (rd_pos r) bs = enc @ post \<Longrightarrow> length bs < U32 \<Longrightarrow> 0 < fuel \<Longrightarrow>
      0 \<notin> set (rd_rec r) \<Longrightarrow> get fuel bs r = Inr (canon u, rd_after r enc [])"
  shows "reads_back u"
proof (rule reads_backI)
  fix w r assume "sync w r (length (senc u))"
  then have "0 \<notin> set (rd_rec r)" by (auto simp: sync_def)
  then have "step_ok u w r enc [] []"
    using assms by (intro step_okI) (auto simp: push_as_after intro: sync_no_entry)
  then show "\<exists>enc Cn new. step_ok u w r enc Cn new" by blast
qed

lemma rd_after_no_entry: "rd_after r enc [] = r\<lparr>rd_pos := rd_pos r + length enc\<rparr>"
  by (simp add: rd_after_def)

lemma reads_back_null: "reads_back UNull"
proof (rule reads_back_no_entry [of _ "header_bytes TYPE_CREF 0"])
  fix bs and r :: reader and post and fuel :: nat
  assume "drop (rd_pos r) bs = header_bytes TYPE_CREF 0 @ post" "length bs < U32" "0 < fuel" "0 \<notin> set (rd_rec r)"
  then show "get fuel bs r = Inr (canon UNull, rd_after r (header_bytes TYPE_CREF 0) [])"
    using get_header [of bs r TYPE_CREF 0 post fuel]
    by (simp add: type_codes get_leaf_def read_ref_def rd_after_no_entry)
qed simp_all

lemma reads_back_int: "reads_back (UInt i)"
proof (rule reads_back_no_entry [of _ "header_bytes (head_code (UInt i)) (head_val (UInt i))"])
  fix bs and r :: reader and post and fuel :: nat
  assume "drop (rd_pos r) bs = header_bytes (head_code (UInt i)) (head_val (UInt i)) @ post" "length bs < U32" "0 < fuel"
  then show "get fuel bs r = Inr (canon (UInt i), rd_after r (header_bytes (head_code (UInt i)) (head_val (UInt i))) [])"
    using get_header [of bs r "head_code (UInt i)" "head_val (UInt i)" post fuel] head_code_le [of "UInt i"]
    by (cases "0 \<le> sint i") (simp_all add: type_codes get_leaf_def header_int_def rd_after_no_entry)
qed simp_all

lemma reads_back_bool: "reads_back (UBool b)"
proof (rule reads_back_no_entry [of _ "header_bytes TYPE_EXTRA (head_val (UBool b))"])
  fix bs and r :: reader and post and fuel :: nat
  assume "drop (rd_pos r) bs = header_bytes TYPE_EXTRA (head_val (UBool b)) @ post" "length bs < U32" "0 < fuel"
  then show "get fuel bs r = Inr (canon (UBool b), rd_after r (header_bytes TYPE_EXTRA (head_val (UBool b))) [])"
    using get_header [of bs r TYPE_EXTRA "head_val (UBool b)" post fuel]
    by (cases b) (simp_all add: type_codes extra_codes parseExtra_def rd_after_no_entry)
qed simp_all

lemma reads_back_time: "reads_back (UDateTime t)"
proof (rule reads_back_no_entry [of _ "senc (UDateTime t)"])
  fix bs and r :: reader and post and fuel :: nat
  assume d: "drop (rd_pos r) bs = senc (UDateTime t) @ post" "length bs < U32" "0 < fuel"
  then have h: "drop (rd_pos r) bs = header_bytes TYPE_EXTRA XT_TIME @ encode7 (t div NANOS) @ post" by simp
  from readEncodedLong_encode7 [OF d(2) drop_add_append [OF h]] get_header [OF d(2) h _ d(3)]
  show "get fuel bs r = Inr (canon (UDateTime t), rd_after r (senc (UDateTime t)) [])"
    by (simp add: type_codes extra_codes parseExtra_def rd_after_no_entry add.assoc)
qed (simp_all add: writeEncoded_def)

lemma slice_at: "drop pos bs = b @ post \<Longrightarrow> pos \<le> length bs \<Longrightarrow> slice bs pos (length b) = Inr b"
  using length_drop [of pos bs] by (simp add: slice_def)

lemma reads_back_double: "reads_back (UDouble d)"
proof (rule reads_back_no_entry [of _ "enc_double d"])
  fix bs and r :: reader and post and fuel :: nat
  assume d: "drop (rd_pos r) bs = enc_double d @ post" "length bs < U32" "0 < fuel"
  show "get fuel bs r = Inr (canon (UDouble d), rd_after r (enc_double d) [])"
  proof (cases "d \<in> {dbl_zero, dbl_negzero, dbl_minusone, dbl_one}")
    case True
    then have e: "enc_double d = header_bytes TYPE_EXTRA (head_val (UDouble d))"
      and v: "head_val (UDouble d) \<in> {XT_DZERO, XT_DMINUSONE, XT_DONE}"
      by (auto simp: enc_double_def)
    from v True show ?thesis
      using get_header [OF d(2), of r TYPE_EXTRA "head_val (UDouble d)" post fuel] d(1,3)
      unfolding e insert_iff empty_iff
      by (elim disjE) (simp_all add: type_codes extra_codes parseExtra_def rd_after_no_entry dbl_defs)
  next
    case False
    then have e: "enc_double d = header_bytes TYPE_EXTRA XT_DOUBLE @ emit_le 8 d"
      by (simp add: enc_double_def)
    have h: "drop (rd_pos r) bs = header_bytes TYPE_EXTRA XT_DOUBLE @ emit_le 8 d @ post"
      using d(1) by (simp add: e)
    let ?p = "rd_pos r + length (header_bytes TYPE_EXTRA XT_DOUBLE)"
    have b: "?p + 8 \<le> length bs"
      using drop_append_bound [OF drop_add_append [OF h]] by (metis length_emit_le list.size(3) zero_neq_numeral)
    then have "slice bs ?p 8 = Inr (emit_le 8 d)"
      using slice_at [OF drop_add_append [OF h]] by simp
    then show ?thesis
      using get_header [OF d(2) h, of fuel] d(2,3) b False
      by (simp add: type_codes extra_codes parseExtra_def rd_after_no_entry e data_size_def le_word_emit_8
          advance_def add.assoc del: emit_le.simps)
  qed
qed (auto simp: put_double_enc enc_double_def)

section \<open>References and flat objects\<close>

lemma sync_lookup:
  assumes "sync w r n" "map_of (wr_cache w) key = Some idx"
  obtains i where "i < length (rd_cache r)" "idx = of_nat (i + 1)" "entry_ok key (rd_cache r ! i)"
    "wr_cache w ! i = (key, idx)"
proof -
  from assms(2) have "(key, idx) \<in> set (wr_cache w)" by (rule map_of_SomeD)
  then obtain i where "i < length (wr_cache w)" "wr_cache w ! i = (key, idx)"
    by (auto simp: in_set_conv_nth)
  with assms(1) have "i < length (rd_cache r)" "idx = of_nat (i + 1)" "entry_ok key (rd_cache r ! i)"
    unfolding sync_def slot_ok_def by (metis fst_conv snd_conv)+
  with \<open>wr_cache w ! i = (key, idx)\<close> that show thesis by blast
qed

lemma read_ref_slot:
  assumes "sync w r n" "i < length (rd_cache r)" "rd_cache r ! i = Some u" "length (rd_cache r) < 2 ^ 64"
  shows "read_ref (of_nat (i + 1)) (r\<lparr>rd_pos := p\<rparr>) = Inr u"
proof -
  have n: "unat (of_nat (i + 1) :: u64) = i + 1"
    by (rule of_nat_inverse) (use assms(2,4) in simp_all)
  moreover have "(of_nat (i + 1) :: u64) \<noteq> 0" using n by (metis add_is_0 unat_0 zero_neq_one)
  moreover have "i + 1 \<notin> set (rd_rec r)" using assms(1,3) by (auto simp: sync_def)
  ultimately show ?thesis using assms(2,3) by (simp add: read_ref_def)
qed

lemma step_ref:
  assumes "sync w r n" "i < length (rd_cache r)" "rd_cache r ! i = Some (canon u)"
    and "put u w = Inr (push_bytes (header_bytes TYPE_CREF (of_nat (i + 1))) w)"
  shows "step_ok u w r (header_bytes TYPE_CREF (of_nat (i + 1))) [] []"
proof (rule step_okI)
  fix bs post and fuel :: nat
  let ?h = "header_bytes TYPE_CREF (of_nat (i + 1))"
  assume a: "drop (rd_pos r) bs = ?h @ post" "length bs < U32" "0 < fuel" "rd_pos r + length ?h \<le> length bs"
  have "length (rd_cache r) < 2 ^ 64" using assms(1) a(2,4) by (simp add: sync_def U32_def)
  from read_ref_slot [OF assms(1-3) this] get_header [OF a(2,1) _ a(3)]
  show "get fuel bs r = Inr (canon u, rd_after r ?h [])"
    by (simp add: type_codes get_leaf_def rd_after_no_entry del: of_nat_Suc of_nat_add)
qed (use assms(4) in \<open>auto simp: push_as_after intro: sync_no_entry\<close>)

definition flat_obj :: "cache_type \<Rightarrow> bytes \<Rightarrow> uobj" where
  "flat_obj ct b = (if ct = CT_BIN then UBytes b else UString b)"

definition flat_code :: "cache_type \<Rightarrow> nat" where
  "flat_code ct = (if ct = CT_BIN then TYPE_BIN else TYPE_TEXT)"

lemma bound_ok:
  assumes "length bs < U32" "pos + n \<le> length bs"
  shows "\<not> bound_fails bs pos (of_nat n)" "unat (of_nat n :: u64) = n" "\<not> sint (of_nat n :: u64) < 0"
proof -
  have "n < 2 ^ 32" "pos + n < 2 ^ 32" using assms by (simp_all add: U32_def)
  then show n: "unat (of_nat n :: u64) = n" by (intro of_nat_inverse) simp_all
  have "unat ((of_nat pos :: u64) + of_nat n) = pos + n"
    using of_nat_inverse [of "pos + n" "(of_nat pos :: u64) + of_nat n"] \<open>pos + n < 2 ^ 32\<close> by simp
  moreover have "unat (of_nat (length bs) :: u64) = length bs"
    by (rule of_nat_inverse) (use assms in \<open>simp_all add: U32_def\<close>)
  ultimately show "\<not> bound_fails bs pos (of_nat n)"
    using assms by (simp add: bound_fails_def data_size_def word_less_nat_alt)
  have "sint (of_nat n :: u64) = int n"
    using \<open>n < 2 ^ 32\<close> n by (simp add: sint_uint uint_nat signed_take_bit_int_eq_self del: of_nat_unat)
  then show "\<not> sint (of_nat n :: u64) < 0" by simp
qed

lemma get_flat:
  assumes "drop (rd_pos r) bs = enc_flat (flat_code ct) b @ post" "length bs < U32" "0 < fuel"
    and "rd_pos r + length (enc_flat (flat_code ct) b) \<le> length bs" "rd_tree r"
  shows "get fuel bs r = Inr (flat_obj ct b, rd_after r (enc_flat (flat_code ct) b) [flat_obj ct b])"
proof -
  let ?h = "header_bytes (flat_code ct) (of_nat (length b))"
  let ?p = "rd_pos r + length ?h"
  have h: "drop (rd_pos r) bs = ?h @ b @ post" using assms(1) by (simp add: enc_flat_def)
  have len: "?p + length b \<le> length bs" using assms(4) by (simp add: enc_flat_def)
  have sl: "slice bs ?p (length b) = Inr b"
    using slice_at [OF drop_add_append [OF h]] len by simp
  have n32: "length b < 2 ^ 32" "?p + length b < 2 ^ 32" using len assms(2) by (simp_all add: U32_def)
  note ok = bound_ok [OF assms(2) len]
  have z: "0 < (of_nat (length b) :: u64) \<longleftrightarrow> b \<noteq> []"
    using ok(2) by (auto simp: word_less_nat_alt)
  have rb: "read_bin bs ?p (of_nat (length b)) = Inr b"
    using sl n32(1) by (simp add: read_bin_def ok z U32_def)
  have rt: "read_text bs ?p (of_nat (length b)) = Inr b"
    using sl by (simp add: read_text_def ok)
  have adv: "advance ?p (of_nat (length b)) = ?p + length b"
    using n32(2) by (simp add: advance_def ok(2) U32_def)
  have c7: "flat_code ct \<le> 7" by (simp add: flat_code_def type_codes)
  show ?thesis
    using get_header [OF assms(2) h c7 assms(3)] rb rt adv assms(5)
    by (simp add: get_leaf_def type_codes flat_code_def flat_obj_def rd_after_def cacheObject_def
        enc_flat_def add.assoc split: if_splits)
qed

lemma put_flat_obj:
  "ct = CT_BIN \<or> ct = CT_TEXT \<Longrightarrow> put (flat_obj ct b) w = put_flat ct (flat_code ct) b w"
  by (auto simp: flat_obj_def flat_code_def)

lemma reads_back_flat:
  assumes "ct = CT_BIN \<or> ct = CT_TEXT"
  shows "reads_back (flat_obj ct b)"
proof (rule reads_backI)
  fix w r assume s: "sync w r (length (senc (flat_obj ct b)))"
  have key: "entry_ok (ct, b) x = (x = Some (canon (flat_obj ct b)))" for x
    using assms by (auto simp: flat_obj_def)
  have t: "wr_tree w" "\<not> skips_cache w" "rd_tree r" using s by (auto simp: sync_def skips_cache_def)
  show "\<exists>enc Cn new. step_ok (flat_obj ct b) w r enc Cn new"
  proof (cases "map_of (wr_cache w) (ct, b)")
    case None
    let ?enc = "enc_flat (flat_code ct) b"
    have "put (flat_obj ct b) w =
        Inr (wr_after w ?enc [((ct, b), of_nat (length (wr_cache w)) + 1)])"
      using None t assms
      by (auto simp: put_flat_obj put_flat_def tryWriteFlat_def tryWriteRef_def flat_code_def push_bytes_def
          wr_after_def enc_flat_def)
    moreover have ne: "?enc \<noteq> []" by (simp add: enc_flat_def)
    moreover have c: "canon (flat_obj ct b) = flat_obj ct b" by (simp add: flat_obj_def)
    moreover have "sync (wr_after w ?enc [((ct, b), of_nat (length (wr_cache w)) + 1)])
        (rd_after r ?enc [flat_obj ct b]) n" if "sync w r n" for n
      by (rule sync_one_entry [OF that ne]) (simp add: key c)
    ultimately have "step_ok (flat_obj ct b) w r ?enc
        [((ct, b), of_nat (length (wr_cache w)) + 1)] [flat_obj ct b]"
      by (intro step_okI) (simp_all add: get_flat t)
    then show ?thesis by blast
  next
    case (Some idx)
    from sync_lookup [OF s this] obtain i where i: "i < length (rd_cache r)" "idx = of_nat (i + 1)"
      "entry_ok (ct, b) (rd_cache r ! i)" by blast
    have "put (flat_obj ct b) w = Inr (push_bytes (header_bytes TYPE_CREF (of_nat (i + 1))) w)"
      using Some t assms i(2) by (simp add: put_flat_obj put_flat_def tryWriteFlat_def tryWriteRef_def)
    from step_ref [OF s i(1) _ this] i(3) key show ?thesis by blast
  qed
qed

lemmas reads_back_bytes = reads_back_flat [of CT_BIN, unfolded flat_obj_def, simplified]
lemmas reads_back_string = reads_back_flat [of CT_TEXT, unfolded flat_obj_def, simplified]

section \<open>Containers\<close>

lemma wr_after_after [simp]: "wr_after (wr_after w e c) e' c' = wr_after w (e @ e') (c @ c')"
  by (simp add: wr_after_def)

lemma rd_after_after [simp]: "rd_after (rd_after r e c) e' c' = rd_after r (e @ e') (c @ c')"
  by (simp add: rd_after_def)

lemma after_sel [simp]:
  "rd_pos (rd_after r e c) = rd_pos r + length e" "rd_tree (rd_after r e c) = rd_tree r"
  "rd_rec (rd_after r e c) = rd_rec r" "rd_cache (rd_after r e c) = rd_cache r @ map Some c"
  "wr_tree (wr_after w e d) = wr_tree w" "wr_cache (wr_after w e d) = wr_cache w @ d"
  "wr_buf (wr_after w e d) = wr_buf w @ e"
  by (simp_all add: rd_after_def wr_after_def)

definition inner_ok :: "bytes \<Rightarrow> (writer \<Rightarrow> boss_error + writer) \<Rightarrow> (nat \<Rightarrow> bytes \<Rightarrow> reader \<Rightarrow> boss_error + 'a \<times> reader) \<Rightarrow> 'a \<Rightarrow> bool" where
  "inner_ok body wput rget res = (\<forall>w r. sync w r (length body) \<longrightarrow>
     (\<exists>enc Cn new. wput w = Inr (wr_after w enc Cn) \<and>
        (\<forall>n. sync w r n \<longrightarrow> sync (wr_after w enc Cn) (rd_after r enc new) n) \<and>
        (\<forall>bs post fuel. drop (rd_pos r) bs = enc @ post \<longrightarrow> length bs < U32 \<longrightarrow> 2 * length enc < fuel \<longrightarrow>
           rget fuel bs r = Inr (res, rd_after r enc new))))"

lemma inner_okI:
  assumes "\<And>w r. sync w r (length body) \<Longrightarrow> \<exists>enc Cn new. wput w = Inr (wr_after w enc Cn) \<and>
        (\<forall>n. sync w r n \<longrightarrow> sync (wr_after w enc Cn) (rd_after r enc new) n) \<and>
        (\<forall>bs post fuel. drop (rd_pos r) bs = enc @ post \<longrightarrow> length bs < U32 \<longrightarrow> 2 * length enc < fuel \<longrightarrow>
           rget fuel bs r = Inr (res, rd_after r enc new))"
  shows "inner_ok body wput rget res"
  using assms unfolding inner_ok_def by blast

lemma inner_ok_Nil: "(\<And>fuel bs r. rget fuel bs r = Inr (res, r)) \<Longrightarrow> inner_ok [] Inr rget res"
  by (rule inner_okI) (auto intro!: exI [of _ "[]"] simp: wr_after_def rd_after_def)

text \<open>An object followed by the rest of a container.\<close>

lemma inner_ok_step:
  assumes "reads_back x" "inner_ok body wput rget res" "short_stream x"
    and "d \<le> 1" "\<And>f bs r. rget' (d + f) bs r = res_bind (get f bs r) (\<lambda>(y, r). if y = canon x
       then res_bind (rget f bs r) (\<lambda>(z, r). Inr (g z, r)) else rbad f bs y r)"
  shows "inner_ok (senc x @ body) (\<lambda>w. res_bind (put x w) wput) rget' (g res)"
proof (rule inner_okI)
  fix w r assume s: "sync w r (length (senc x @ body))"
  from assms(1,3) sync_mono [OF s] obtain e1 C1 n1 where s1: "step_ok x w r e1 C1 n1"
    unfolding reads_back_def by (metis le_add1 length_append)
  then have "sync (wr_after w e1 C1) (rd_after r e1 n1) (length body)"
    using s sync_mono assms(3) by (metis le_add2 length_append step_ok_def)
  with assms(2) obtain e2 C2 n2 where s2: "wput (wr_after w e1 C1) = Inr (wr_after (wr_after w e1 C1) e2 C2)"
    "\<And>n. sync (wr_after w e1 C1) (rd_after r e1 n1) n \<Longrightarrow> sync (wr_after (wr_after w e1 C1) e2 C2) (rd_after (rd_after r e1 n1) e2 n2) n"
    "\<And>bs post fuel. drop (rd_pos (rd_after r e1 n1)) bs = e2 @ post \<Longrightarrow> length bs < U32 \<Longrightarrow> 2 * length e2 < fuel \<Longrightarrow>
       rget fuel bs (rd_after r e1 n1) = Inr (res, rd_after (rd_after r e1 n1) e2 n2)"
    unfolding inner_ok_def by blast
  have "rget' fuel bs r = Inr (g res, rd_after r (e1 @ e2) (n1 @ n2))"
    if d: "drop (rd_pos r) bs = (e1 @ e2) @ post" "length bs < U32" "2 * length (e1 @ e2) < fuel" for bs post fuel
  proof -
    obtain f where f: "fuel = d + f" using d(3) assms(4) le_Suc_ex [of d fuel] by auto
    have d1: "drop (rd_pos r) bs = e1 @ e2 @ post" using d(1) by simp
    have ne: "e1 \<noteq> []" using s1 by (simp add: step_ok_def)
    have "get f bs r = Inr (canon x, rd_after r e1 n1)"
      using s1 d1 d(2,3) assms(4) by (simp add: step_ok_def f)
    moreover have "2 * length e2 < f" using d(3) ne assms(4) by (cases e1) (auto simp: f)
    then have "rget f bs (rd_after r e1 n1) = Inr (res, rd_after r (e1 @ e2) (n1 @ n2))"
      using s2(3) [OF _ d(2)] drop_add_append [OF d1] by simp
    ultimately show ?thesis by (simp add: f assms(5))
  qed
  moreover have "\<And>n. sync w r n \<Longrightarrow> sync (wr_after w (e1 @ e2) (C1 @ C2)) (rd_after r (e1 @ e2) (n1 @ n2)) n"
    using s1 s2(2) assms(3) by (simp add: step_ok_def)
  moreover have "res_bind (put x w) wput = Inr (wr_after w (e1 @ e2) (C1 @ C2))"
    using s1 s2(1) by (simp add: step_ok_def)
  ultimately show "\<exists>enc Cn new. res_bind (put x w) wput = Inr (wr_after w enc Cn) \<and>
        (\<forall>n. sync w r n \<longrightarrow> sync (wr_after w enc Cn) (rd_after r enc new) n) \<and>
        (\<forall>bs post fuel. drop (rd_pos r) bs = enc @ post \<longrightarrow> length bs < U32 \<longrightarrow> 2 * length enc < fuel \<longrightarrow>
           rget' fuel bs r = Inr (g res, rd_after r enc new))"
    by blast
qed

lemma items_inner_ok:
  "\<forall>x \<in> set xs. reads_back x \<and> short_stream x \<Longrightarrow>
   inner_ok (concat (map senc xs)) (put_list xs) (\<lambda>f bs r. get_items f bs (length xs) r) (map canon xs)"
proof (induction xs)
  case Nil
  have "put_list [] = Inr" by (rule ext) simp
  then show ?case by (simp add: inner_ok_Nil)
next
  case (Cons x xs)
  have "put_list (x # xs) = (\<lambda>w. res_bind (put x w) (put_list xs))" by (rule ext) simp
  moreover have "inner_ok (senc x @ concat (map senc xs)) (\<lambda>w. res_bind (put x w) (put_list xs))
      (\<lambda>f bs r. get_items f bs (Suc (length xs)) r) (canon x # map canon xs)"
    using Cons by (intro inner_ok_step [where g = "(#) (canon x)" and d = 1 and
          rbad = "\<lambda>f bs y r. res_bind (get_items f bs (length xs) r) (\<lambda>(ys, r). Inr (y # ys, r))"])
      (auto intro!: arg_cong [where f = "res_bind _"] ext)
  ultimately show ?case by simp
qed

lemma binder_set_greatest:
  "(\<And>k'. k' \<in> set (map fst acc) \<Longrightarrow> bytes_less k' k) \<Longrightarrow> binder_set k v acc = acc @ [(k, v)]"
proof (induction acc)
  case (Cons p acc)
  have "bytes_less (fst p) k" using Cons.prems by simp
  then have "k \<noteq> fst p" "\<not> bytes_less k (fst p)" using bytes_less_trans by force+
  with Cons show ?case by (cases p) auto
qed simp

lemma keys_sorted_append_Cons:
  "keys_sorted (xs @ k # ys) \<Longrightarrow> x \<in> set xs \<Longrightarrow> bytes_less x k"
  by (induction xs) (auto simp: keys_sorted_Cons)

abbreviation canon_pair :: "bytes \<times> uobj \<Rightarrow> bytes \<times> uobj" where
  "canon_pair p \<equiv> (fst p, canon (snd p))"

lemma pairs_inner_ok:
  "\<forall>p \<in> set b. reads_back (snd p) \<and> short_stream (snd p) \<Longrightarrow> keys_sorted (map fst acc @ map fst b) \<Longrightarrow>
   inner_ok (concat (map enc_pair b)) (put_pairs b) (\<lambda>f bs r. get_pairs f bs (length b) acc r)
     (acc @ map canon_pair b)"
proof (induction b arbitrary: acc)
  case Nil
  have "put_pairs [] = Inr" by (rule ext) simp
  then show ?case by (simp add: inner_ok_Nil)
next
  case (Cons p b)
  obtain k v where p: "p = (k, v)" by (cases p)
  let ?acc = "binder_set k (canon v) acc"
  have acc: "?acc = acc @ [(k, canon v)]"
    using Cons.prems(2) keys_sorted_append_Cons by (intro binder_set_greatest) (auto simp: p)
  let ?rest = "\<lambda>f bs r. get_pairs f bs (length b) ?acc r"
  let ?val = "\<lambda>f bs r. res_bind (get f bs r) (\<lambda>(y, r). get_pairs f bs (length b) (binder_set k y acc) r)"
  have "inner_ok (concat (map enc_pair b)) (put_pairs b) ?rest (?acc @ map canon_pair b)"
    using Cons.prems by (intro Cons.IH) (auto simp: p acc)
  then have inner: "inner_ok (senc v @ concat (map enc_pair b)) (\<lambda>w. res_bind (put v w) (put_pairs b)) ?val
      (?acc @ map canon_pair b)"
  proof (rule inner_ok_step [where g = "\<lambda>x. x" and d = 0, rotated])
    fix f bs r
    show "?val (0 + f) bs r = res_bind (get f bs r) (\<lambda>(y, r). if y = canon v
        then res_bind (?rest f bs r) (\<lambda>(z, r). Inr (z, r))
        else get_pairs f bs (length b) (binder_set k y acc) r)"
      by (cases "get f bs r") auto
  qed (use Cons.prems(1) in \<open>simp_all add: p\<close>)
  have "inner_ok (senc (UString k) @ senc v @ concat (map enc_pair b))
      (\<lambda>w. res_bind (put (UString k) w) (\<lambda>w. res_bind (put v w) (put_pairs b)))
      (\<lambda>f bs r. get_pairs f bs (Suc (length b)) acc r) (?acc @ map canon_pair b)"
  proof (rule inner_ok_step [OF reads_back_string inner short_stream_leaf(7), where g = "\<lambda>x. x" and d = 1])
    fix f bs r
    show "get_pairs (1 + f) bs (Suc (length b)) acc r = res_bind (get f bs r) (\<lambda>(y, r). if y = canon (UString k)
        then res_bind (?val f bs r) (\<lambda>(z, r). Inr (z, r))
        else case y of UString s \<Rightarrow>
            res_bind (get f bs r) (\<lambda>(v, r). get_pairs f bs (length b) (binder_set s v acc) r)
          | _ \<Rightarrow> Inl KeyNotString)"
      by (cases "get f bs r") (auto split: uobj.splits)
  qed simp
  moreover have "put_pairs (p # b) = (\<lambda>w. res_bind (put (UString k) w) (\<lambda>w. res_bind (put v w) (put_pairs b)))"
    by (rule ext) (simp only: p put_pairs.simps)
  ultimately show ?case by (simp add: acc p)
qed

section \<open>A whole container\<close>

lemma sync_begin:
  assumes "sync w r n" "uobj_plain u" "ct = CT_ARRAY \<or> ct = CT_BINDER" "hb \<noteq> []" "n < length (senc u)"
  shows "sync (wr_after w hb [((ct, cut_size (senc u)), of_nat (length (wr_cache w)) + 1)])
    (begin_container (r\<lparr>rd_pos := rd_pos r + length hb\<rparr>)) n"
proof -
  obtain m where "length hb = Suc m" using assms(4) by (cases hb) auto
  moreover have "open_above (cut_size (senc u)) n" using assms(2,5) unfolding open_above_def by blast
  ultimately show ?thesis using assms(1,3)
    by (auto simp: sync_def begin_container_def cacheObject_def slot_ok_def nth_append less_Suc_eq)
qed

lemma sync_end:
  assumes "sync w r n" "uobj_plain u" "ct = CT_ARRAY \<or> ct = CT_BINDER" "hb \<noteq> []" "cut_size (senc u) = senc u"
    and inner: "sync (wr_after w (hb @ enc) (((ct, cut_size (senc u)), of_nat (length (wr_cache w)) + 1) # Cn))
      (rd_after (begin_container (r\<lparr>rd_pos := rd_pos r + length hb\<rparr>)) enc new) m"
  shows "sync (wr_after w (hb @ enc) (((ct, cut_size (senc u)), of_nat (length (wr_cache w)) + 1) # Cn))
    (rd_after r (hb @ enc) (canon u # new)) n"
proof -
  let ?C = "wr_cache w @ ((ct, cut_size (senc u)), of_nat (length (wr_cache w)) + 1) # Cn"
  let ?R = "rd_cache r @ None # map Some new" and ?R' = "rd_cache r @ Some (canon u) # map Some new"
  have t: "rd_tree r" "length (wr_cache w) = length (rd_cache r)" using assms(1) by (auto simp: sync_def)
  have slots: "slot_ok ?C ?R i" if "i < length ?R" for i
    using inner that t by (simp add: sync_def begin_container_def cacheObject_def)
  have "slot_ok ?C ?R' i" if i: "i < length ?R'" for i
  proof (cases "i = length (rd_cache r)")
    case True
    then show ?thesis using t assms(2,3,5) by (auto simp: slot_ok_def nth_append)
  next
    case False
    then have "?R' ! i = ?R ! i" by (auto simp: nth_append nth_Cons')
    with slots [of i] i show ?thesis by (simp add: slot_ok_def)
  qed
  moreover have "open_above (snd (fst (?C ! i))) n" if "i < length ?R'" "?R' ! i = None" for i
    using that assms(1) t by (cases "i < length (rd_cache r)") (auto simp: sync_def nth_append nth_Cons')
  moreover have "length ?C \<le> rd_pos r + length hb + length enc"
    using inner t by (simp add: sync_def begin_container_def cacheObject_def)
  moreover have "length ?C = length ?R'"
    using inner t by (simp add: sync_def begin_container_def cacheObject_def)
  ultimately show ?thesis using assms(1) t
    by (auto simp: sync_def nth_append)
qed

lemma end_container_after:
  assumes "rd_tree r"
  shows "end_container True (length (rd_cache r)) u
      (rd_after (begin_container (r\<lparr>rd_pos := rd_pos r + length hb\<rparr>)) enc new) =
    rd_after r (hb @ enc) (u # new)"
  using assms by (simp add: end_container_def rd_after_def begin_container_def cacheObject_def Let_def)

lemma container_cut: "\<not> leaf u \<Longrightarrow> short_stream u \<Longrightarrow> cut_size (senc u) = senc u"
  by (cases u) (simp_all add: short_stream_def cut_size_short)

lemma container_step:
  assumes plain: "uobj_plain u" and ct: "ct = CT_ARRAY \<or> ct = CT_BINDER" and ct_obj: "\<not> leaf u"
    and put: "\<And>w. wr_tree w \<Longrightarrow> put u w = res_bind (tryWriteRef (ct, cut_size (senc u)) w)
      (\<lambda>(done, w'). if done then Inr w' else wput (push_bytes hb w'))"
    and enc: "senc u = hb @ body" "hb \<noteq> []"
    and inner: "inner_ok body wput rget res"
    and get: "\<And>bs r rest f. length bs < U32 \<Longrightarrow> drop (rd_pos r) bs = hb @ rest \<Longrightarrow>
      get (Suc f) bs r = res_bind (rget f bs (begin_container (r\<lparr>rd_pos := rd_pos r + length hb\<rparr>)))
        (\<lambda>(x, r'). Inr (con x, end_container (rd_tree r) (length (rd_cache r)) (con x) r'))"
    and con: "con res = canon u"
  shows "reads_back u"
proof (rule reads_backI)
  fix w r assume short: "short_stream u \<or> wr_cache w = []" and s: "sync w r (length (senc u))"
  from s have t: "wr_tree w" "rd_tree r" by (auto simp: sync_def)
  show "\<exists>enc Cn new. step_ok u w r enc Cn new"
  proof (cases "map_of (wr_cache w) (ct, cut_size (senc u))")
    case (Some idx)
    from sync_lookup [OF s this] obtain i where i: "i < length (rd_cache r)" "idx = of_nat (i + 1)"
      "entry_ok (ct, cut_size (senc u)) (rd_cache r ! i)" "wr_cache w ! i = ((ct, cut_size (senc u)), idx)" by blast
    have cut: "cut_size (senc u) = senc u" using container_cut [OF ct_obj] short Some by auto
    have "rd_cache r ! i \<noteq> None"
    proof
      assume "rd_cache r ! i = None"
      with s i(1) have "open_above (snd (fst (wr_cache w ! i))) (length (senc u))" by (simp add: sync_def)
      with i(4) cut not_open_above_own [OF plain] show False by simp
    qed
    with i(3) ct cut obtain u0 where "uobj_plain u0" "senc u0 = senc u" "rd_cache r ! i = Some (canon u0)" by auto
    with senc_inj [OF _ plain] have "rd_cache r ! i = Some (canon u)" by metis
    moreover have "put u w = Inr (push_bytes (header_bytes TYPE_CREF (of_nat (i + 1))) w)"
      using Some t i(2) by (simp add: put tryWriteRef_def)
    ultimately show ?thesis using step_ref [OF s i(1)] by blast
  next
    case None
    let ?e = "((ct, cut_size (senc u)), of_nat (length (wr_cache w)) + 1) :: cached_object \<times> u64"
    let ?r = "begin_container (r\<lparr>rd_pos := rd_pos r + length hb\<rparr>)"
    have "length body < length (senc u)" using enc by (cases hb) auto
    then have "sync (wr_after w hb [?e]) ?r (length body)"
      using s by (intro sync_begin plain ct enc(2)) (auto intro: sync_mono)
    with inner obtain e Cn new where n: "wput (wr_after w hb [?e]) = Inr (wr_after (wr_after w hb [?e]) e Cn)"
      "sync (wr_after (wr_after w hb [?e]) e Cn) (rd_after ?r e new) (length body)"
      "\<And>bs post fuel. drop (rd_pos ?r) bs = e @ post \<Longrightarrow> length bs < U32 \<Longrightarrow> 2 * length e < fuel \<Longrightarrow>
         rget fuel bs ?r = Inr (res, rd_after ?r e new)"
      unfolding inner_ok_def by blast
    have pb: "push_bytes hb (w\<lparr>wr_cache := wr_cache w @ [?e]\<rparr>) = wr_after w hb [?e]"
      by (simp add: push_bytes_def wr_after_def)
    have p: "put u w = Inr (wr_after w (hb @ e) (?e # Cn))"
      using None t n(1) by (simp add: put tryWriteRef_def pb)
    have "step_ok u w r (hb @ e) (?e # Cn) (canon u # new)"
    proof (rule step_okI [OF p])
      show "sync (wr_after w (hb @ e) (?e # Cn)) (rd_after r (hb @ e) (canon u # new)) m" if "short_stream u" "sync w r m" for m
        using n(2) container_cut [OF ct_obj that(1)] by (intro sync_end [OF that(2) plain ct enc(2)]) simp_all
    next
      fix bs post fuel
      assume a: "drop (rd_pos r) bs = (hb @ e) @ post" "length bs < U32" "2 * length (hb @ e) \<le> fuel" "0 < fuel"
      obtain f where f: "fuel = Suc f" using a(4) by (cases fuel) auto
      have d: "drop (rd_pos r) bs = hb @ e @ post" using a(1) by simp
      have "2 * length e < f" using a(3) enc(2) by (cases hb) (auto simp: f)
      moreover have "rd_pos ?r = rd_pos r + length hb"
        by (simp add: begin_container_def cacheObject_def Let_def)
      ultimately have "rget f bs ?r = Inr (res, rd_after ?r e new)"
        using n(3) [OF _ a(2)] drop_add_append [OF d] by simp
      then show "get fuel bs r = Inr (canon u, rd_after r (hb @ e) (canon u # new))"
        using t by (simp add: f get [OF a(2) d] con end_container_after del: get.simps)
    qed (use enc(2) in simp)
    then show ?thesis by blast
  qed
qed

section \<open>Every plain tree is read back\<close>

lemma put_array_tree:
  assumes "uobj_plain (UArray xs)" "wr_tree w"
  shows "put (UArray xs) w = res_bind (tryWriteRef (CT_ARRAY, cut_size (senc (UArray xs))) w)
    (\<lambda>(done, w'). if done then Inr w' else put_list xs (push_bytes (header_bytes TYPE_LIST (of_nat (length xs))) w'))"
proof -
  have "put (base_serialize (UArray xs)) (new_writer False) = Inr (push_bytes (senc (UArray xs)) (new_writer False))"
    unfolding base_serialize_plain_id [OF assms(1)]
    by (rule put_stream(1) [OF _ assms(1)]) (simp add: new_writer_def skips_cache_def)
  then show ?thesis using assms(2)
    by (simp add: skips_cache_def new_writer_def stream_key_def del: base_serialize.simps senc.simps cong: if_cong)
qed

lemma put_binder_tree:
  assumes "uobj_plain (UBinder b)" "wr_tree w"
  shows "put (UBinder b) w = res_bind (tryWriteRef (CT_BINDER, cut_size (senc (UBinder b))) w)
    (\<lambda>(done, w'). if done then Inr w' else put_pairs b (push_bytes (header_bytes TYPE_DICT (of_nat (length b))) w'))"
proof -
  have "put (base_serialize (UBinder b)) (new_writer False) = Inr (push_bytes (senc (UBinder b)) (new_writer False))"
    unfolding base_serialize_plain_id [OF assms(1)]
    by (rule put_stream(1) [OF _ assms(1)]) (simp add: new_writer_def skips_cache_def)
  then show ?thesis using assms(2)
    by (simp add: skips_cache_def new_writer_def stream_key_def del: base_serialize.simps senc.simps cong: if_cong)
qed

lemma reads_back_array:
  assumes "uobj_plain (UArray xs)" "\<forall>x \<in> set xs. reads_back x \<and> short_stream x"
  shows "reads_back (UArray xs)"
proof (rule container_step [OF assms(1) _ _ put_array_tree [OF assms(1)] _ _ items_inner_ok [OF assms(2)],
      where con = UArray])
  fix bs and r :: reader and rest f
  assume a: "length bs < U32" "drop (rd_pos r) bs = header_bytes TYPE_LIST (of_nat (length xs)) @ rest"
  show "get (Suc f) bs r = res_bind (get_items f bs (length xs)
        (begin_container (r\<lparr>rd_pos := rd_pos r + length (header_bytes TYPE_LIST (of_nat (length xs)))\<rparr>)))
      (\<lambda>(x, r'). Inr (UArray x, end_container (rd_tree r) (length (rd_cache r)) (UArray x) r'))"
    using get_header [OF a, of "Suc f"] assms(1) by (simp add: type_codes counted_of_nat int_rounds_below int_counted_below)
qed simp_all

lemma reads_back_binder:
  assumes "uobj_plain (UBinder b)" "\<forall>p \<in> set b. reads_back (snd p) \<and> short_stream (snd p)"
  shows "reads_back (UBinder b)"
proof -
  have "keys_sorted (map fst [] @ map fst b)" using assms(1) by simp
  note inner = pairs_inner_ok [OF assms(2) this]
  show ?thesis
  proof (rule container_step [OF assms(1) _ _ put_binder_tree [OF assms(1)] _ _ inner, where con = UBinder])
    fix bs and r :: reader and rest f
    assume a: "length bs < U32" "drop (rd_pos r) bs = header_bytes TYPE_DICT (of_nat (length b)) @ rest"
    show "get (Suc f) bs r = res_bind (get_pairs f bs (length b) []
          (begin_container (r\<lparr>rd_pos := rd_pos r + length (header_bytes TYPE_DICT (of_nat (length b)))\<rparr>)))
        (\<lambda>(x, r'). Inr (UBinder x, end_container (rd_tree r) (length (rd_cache r)) (UBinder x) r'))"
      using get_header [OF a, of "Suc f"] assms(1) by (simp add: type_codes counted_of_nat int_rounds_below int_counted_below)
  qed simp_all
qed

lemma reads_back_plain: "uobj_plain u \<Longrightarrow> reads_back u"
proof (induction u rule: uobj_plain.induct)
  case (2 b)
  then show ?case by (intro reads_back_binder) auto
qed (auto intro: reads_back_array reads_back_null reads_back_int reads_back_double reads_back_bool
    reads_back_time reads_back_bytes reads_back_string)

end
