(* ===== verification/BossSafety.thy ===== *)
theory BossSafety
  imports BossCodec
begin

text \<open>
  The reader on arbitrary data: every call of \<open>get\<close> consumes a byte, so the fuel of
  \<open>deserialize\<close> is enough for every input and the loops of the reader end; and a reference
  never yields a container whose elements are still being read.
\<close>

section \<open>Progress\<close>

text \<open>A result that fails, but not for want of fuel, or moves forward inside the data.\<close>

definition moves :: "bytes \<Rightarrow> nat \<Rightarrow> ('a \<Rightarrow> nat) \<Rightarrow> boss_error + 'a \<Rightarrow> bool" where
  "moves bs pos p m = (case m of Inl e \<Rightarrow> e \<noteq> OutOfFuel \<and> e \<noteq> PartialReference
     | Inr x \<Rightarrow> pos \<le> p x \<and> p x \<le> length bs)"

lemma moves_simps [simp]:
  "moves bs pos p (Inl e) \<longleftrightarrow> e \<noteq> OutOfFuel \<and> e \<noteq> PartialReference"
  "moves bs pos p (Inr x) \<longleftrightarrow> pos \<le> p x \<and> p x \<le> length bs"
  by (simp_all add: moves_def)

lemma moves_bind:
  "moves bs pos p m \<Longrightarrow> (\<And>x. m = Inr x \<Longrightarrow> pos \<le> p x \<Longrightarrow> p x \<le> length bs \<Longrightarrow> moves bs (p x) q (f x)) \<Longrightarrow>
   moves bs pos q (res_bind m f)"
  by (cases m) (force simp: moves_def split: sum.splits)+

lemma moves_mono: "moves bs pos p m \<Longrightarrow> pos' \<le> pos \<Longrightarrow> moves bs pos' p m"
  by (auto simp: moves_def split: sum.splits)

lemma readByte_moves: "length bs < U32 \<Longrightarrow> moves bs (Suc pos) snd (readByte bs pos)"
  by (auto simp: readByte_def U32_def)

lemma readLong_loop_moves:
  "length bs < U32 \<Longrightarrow> pos \<le> length bs \<Longrightarrow> moves bs pos snd (readLong_loop bs n res sh pos)"
proof (induction n arbitrary: res sh pos)
  case (Suc n)
  show ?case unfolding readLong_loop.simps
    by (rule moves_mono [OF moves_bind [OF readByte_moves [of bs pos]]])
      (use Suc in \<open>auto simp: case_prod_unfold\<close>)
qed simp

lemma readLong_moves: "length bs < U32 \<Longrightarrow> pos \<le> length bs \<Longrightarrow> moves bs pos snd (readLong bs n pos)"
  by (simp add: readLong_def readLong_loop_moves)

lemma readEncoded_loop_moves:
  "length bs < U32 \<Longrightarrow> moves bs pos snd (readEncoded_loop bs k val sh pos)"
proof (induction k arbitrary: val sh pos)
  case 0
  show ?case unfolding readEncoded_loop.simps
    by (rule moves_mono [OF moves_bind [OF readByte_moves [of bs pos]]]) (use 0 in auto)
next
  case (Suc k)
  show ?case unfolding readEncoded_loop.simps
    by (rule moves_mono [OF moves_bind [OF readByte_moves [of bs pos]]])
      (use Suc in \<open>auto simp: case_prod_unfold Let_def\<close>)
qed

lemma readEncodedLong_moves: "length bs < U32 \<Longrightarrow> moves bs pos snd (readEncodedLong bs pos)"
  by (simp add: readEncodedLong_def readEncoded_loop_moves)

lemma moves_pair: "moves bs pos snd m \<Longrightarrow> moves bs pos snd (res_bind m (\<lambda>(v, p). Inr ((c, v), p)))"
  by (cases m) (auto simp: case_prod_unfold)

lemma readHeader_moves: "length bs < U32 \<Longrightarrow> moves bs (Suc pos) snd (readHeader bs pos)"
  unfolding readHeader_def
proof (rule moves_bind [OF readByte_moves])
  fix x :: "byte \<times> nat" assume a: "length bs < U32" "snd x \<le> length bs" "Suc pos \<le> snd x"
  obtain b p where x: "x = (b, p)" by (cases x)
  have "moves bs p snd (res_bind (readEncodedLong bs p) (\<lambda>(len, pos).
          res_bind (readLong bs len pos) (\<lambda>(v, pos). Inr ((c, v), pos))))" for c :: nat
    by (rule moves_bind [OF readEncodedLong_moves [OF a(1)]])
      (auto intro!: moves_pair readLong_moves a(1))
  moreover have "moves bs p snd (res_bind (readLong bs n p) (\<lambda>(v, pos). Inr ((c, v), pos)))" for n and c :: nat
    using a by (intro moves_pair readLong_moves) (simp_all add: x)
  ultimately show "moves bs (snd x) snd (case x of (b, pos) \<Rightarrow>
        let code = unat (b AND 7); val = ucast (drop_bit 3 b)
        in if 31 \<le> val then res_bind (readEncodedLong bs pos) (\<lambda>(len, pos).
             res_bind (readLong bs len pos) (\<lambda>(v, pos). Inr ((code, v), pos)))
           else if 22 < val then res_bind (readLong bs (val - 22) pos) (\<lambda>(v, pos). Inr ((code, v), pos))
           else Inr ((code, val), pos))"
    using a(2) by (simp add: x Let_def)
qed

section \<open>Bodies of binary data and text\<close>

lemma bound_passes:
  assumes "length bs < U32" "pos \<le> length bs" "\<not> bound_fails bs pos v"
  shows "pos + unat v \<le> length bs \<or> 2 ^ 64 \<le> pos + unat v"
proof -
  have "unat (of_nat (length bs) :: u64) = length bs" "unat (of_nat pos :: u64) = pos"
    by (rule of_nat_inverse; use assms in \<open>simp add: U32_def\<close>)+
  then have "unat ((of_nat pos :: u64) + v) \<le> length bs"
    using assms by (simp add: bound_fails_def data_size_def word_le_nat_alt not_less)
  then have "(pos + unat v) mod 2 ^ 64 \<le> length bs"
    using \<open>unat (of_nat pos :: u64) = pos\<close> by (simp add: unat_word_ariths)
  then show ?thesis by (cases "pos + unat v < 2 ^ 64") auto
qed

lemma read_bin_honest:
  assumes "length bs < U32" "pos \<le> length bs" "read_bin bs pos v = Inr b"
  shows "pos + unat v \<le> length bs"
proof (cases "v = 0")
  case False
  then have p: "0 < v" by (simp add: word_gt_0)
  have nb: "\<not> bound_fails bs pos v" using assms(3) by (auto simp: read_bin_def split: if_splits)
  have s: "pos + unat v mod U32 \<le> length bs"
    using assms(3) p by (auto simp: read_bin_def slice_def split: if_splits)
  from bound_passes [OF assms(1,2) nb] show ?thesis
  proof
    assume w: "2 ^ 64 \<le> pos + unat v"
    have lt: "unat v < 2 ^ 64" using unsigned_less [of v, where 'a = nat] by simp
    define k where "k = 2 ^ 64 - unat v"
    have k: "k \<le> pos" "0 < k" "unat v = 2 ^ 64 - k" "k < U32"
      using w lt assms(1,2) by (auto simp: k_def)
    then have "unat v = (U32 - 1) * U32 + (U32 - k)"
      by (simp add: U32_def)
    then have "unat v mod U32 = (U32 - k) mod U32" by simp
    moreover have "(U32 - k) mod U32 = U32 - k" by (rule mod_less) (use k(2,4) in simp)
    ultimately have "unat v mod U32 = U32 - k" by simp
    then show ?thesis using s k(1,4) assms(1) by simp
  qed
qed (use assms(2) in simp)

lemma read_text_honest:
  assumes "length bs < U32" "pos \<le> length bs" "read_text bs pos v = Inr b"
  shows "pos + unat v \<le> length bs"
  using assms(3) by (auto simp: read_text_def slice_def split: if_splits)

lemma slice_moves [simp]: "slice bs p n = Inl e \<Longrightarrow> e = OutOfBoundsRead"
  by (auto simp: slice_def split: if_splits)

section \<open>Objects\<close>

text \<open>Slots of unfinished containers are exactly guarded by \<open>recursive\<close>.\<close>

definition guarded :: "reader \<Rightarrow> bool" where
  "guarded r = ((\<forall>i < length (rd_cache r). rd_cache r ! i = None \<longrightarrow> i + 1 \<in> set (rd_rec r)) \<and>
     (rd_tree r \<or> rd_cache r = []))"

definition progress :: "bytes \<Rightarrow> nat \<Rightarrow> nat list \<Rightarrow> boss_error + 'a \<times> reader \<Rightarrow> bool" where
  "progress bs pos rec m = (case m of Inl e \<Rightarrow> e \<noteq> OutOfFuel \<and> e \<noteq> PartialReference
     | Inr (u, r) \<Rightarrow> pos \<le> rd_pos r \<and> rd_pos r \<le> length bs \<and> rd_rec r = rec \<and> guarded r)"

lemma progress_simps [simp]:
  "progress bs pos rec (Inl e) \<longleftrightarrow> e \<noteq> OutOfFuel \<and> e \<noteq> PartialReference"
  "progress bs pos rec (Inr (u, r)) \<longleftrightarrow> pos \<le> rd_pos r \<and> rd_pos r \<le> length bs \<and> rd_rec r = rec \<and> guarded r"
  by (simp_all add: progress_def)

lemma progress_mono: "progress bs pos rec m \<Longrightarrow> pos' \<le> pos \<Longrightarrow> progress bs pos' rec m"
  by (auto simp: progress_def split: sum.splits)

lemma progress_bind:
  assumes "progress bs pos rec m"
    and "\<And>u r. m = Inr (u, r) \<Longrightarrow> pos \<le> rd_pos r \<Longrightarrow> rd_pos r \<le> length bs \<Longrightarrow> rd_rec r = rec \<Longrightarrow> guarded r \<Longrightarrow>
      progress bs (rd_pos r) rec' (f (u, r))"
  shows "progress bs pos rec' (res_bind m f)"
proof (cases m)
  case (Inr x)
  then obtain u r where "m = Inr (u, r)" by (cases x) auto
  with assms have "progress bs (rd_pos r) rec' (res_bind m f)" "pos \<le> rd_pos r" by auto
  then show ?thesis by (rule progress_mono)
qed (use assms(1) in auto)

lemma guarded_pos [simp]: "guarded (r\<lparr>rd_pos := p\<rparr>) = guarded r"
  by (simp add: guarded_def)

lemma guarded_cache: "guarded r \<Longrightarrow> guarded (cacheObject (Some u) r)"
  by (auto simp: guarded_def cacheObject_def nth_append)

lemma cacheObject_sel [simp]:
  "rd_pos (cacheObject u r) = rd_pos r" "rd_rec (cacheObject u r) = rd_rec r" "rd_tree (cacheObject u r) = rd_tree r"
  by (simp_all add: cacheObject_def)

lemma read_ref_guarded: "guarded r \<Longrightarrow> read_ref v r \<noteq> Inl PartialReference \<and> read_ref v r \<noteq> Inl OutOfFuel"
proof -
  assume g: "guarded r"
  have "rd_cache r ! (unat v - 1) \<noteq> None"
    if "v \<noteq> 0" "unat v \<le> length (rd_cache r)" "unat v \<notin> set (rd_rec r)"
  proof -
    have "0 < unat v" using that(1) by (simp add: unat_gt_0)
    with g that(2,3) show ?thesis unfolding guarded_def
      by (metis One_nat_def Suc_eq_plus1 Suc_pred Suc_le_eq)
  qed
  then show ?thesis by (auto simp: read_ref_def not_less split: option.splits)
qed

lemma progress_ref: "guarded r \<Longrightarrow> rd_pos r \<le> length bs \<Longrightarrow>
    progress bs (rd_pos r) (rd_rec r) (res_bind (read_ref v r) (\<lambda>u. Inr (u, r)))"
  using read_ref_guarded [of r v] by (cases "read_ref v r") auto

lemma progress_body:
  assumes "\<And>b. m = Inr b \<Longrightarrow> rd_pos r + unat v \<le> length bs" "m \<noteq> Inl OutOfFuel" "m \<noteq> Inl PartialReference"
    and "guarded r" "length bs < U32"
  shows "progress bs (rd_pos r) (rd_rec r) (res_bind m (\<lambda>b. Inr (u b,
    (cacheObject (Some (u b)) r)\<lparr>rd_pos := advance (rd_pos r) v\<rparr>)))"
proof (cases m)
  case (Inr b)
  then have "advance (rd_pos r) v = rd_pos r + unat v"
    using assms(1,5) by (auto simp: advance_def)
  with Inr assms show ?thesis by (auto simp: guarded_cache)
qed (use assms in auto)

lemma read_bin_errors: "read_bin bs pos v = Inl e \<Longrightarrow> e = OverflowBinary \<or> e = OutOfBoundsRead"
  by (auto simp: read_bin_def slice_def split: if_splits)

lemma read_text_errors: "read_text bs pos v = Inl e \<Longrightarrow> e = OverflowString \<or> e = LengthError \<or> e = OutOfBoundsRead"
  by (auto simp: read_text_def slice_def split: if_splits)

lemma get_leaf_progress:
  assumes "length bs < U32" "rd_pos r \<le> length bs" "guarded r"
  shows "progress bs (rd_pos r) (rd_rec r) (get_leaf bs c v r)"
proof -
  have "progress bs (rd_pos r) (rd_rec r) (res_bind (read_bin bs (rd_pos r) v) (\<lambda>b.
      Inr (UBytes b, (cacheObject (Some (UBytes b)) r)\<lparr>rd_pos := advance (rd_pos r) v\<rparr>)))"
    using assms read_bin_honest read_bin_errors by (intro progress_body) fastforce+
  moreover have "progress bs (rd_pos r) (rd_rec r) (res_bind (read_text bs (rd_pos r) v) (\<lambda>b.
      Inr (UString b, (cacheObject (Some (UString b)) r)\<lparr>rd_pos := advance (rd_pos r) v\<rparr>)))"
    using assms read_text_honest read_text_errors by (intro progress_body) fastforce+
  ultimately show ?thesis
    using assms progress_ref [OF assms(3,2)] by (simp add: get_leaf_def)
qed

lemma parseExtra_progress:
  assumes "length bs < U32" "rd_pos r \<le> length bs" "guarded r"
  shows "progress bs (rd_pos r) (rd_rec r) (parseExtra bs c r)"
proof -
  have "progress bs (rd_pos r) (rd_rec r) (res_bind (readEncodedLong bs (rd_pos r)) (\<lambda>(t, pos).
      Inr (UDateTime (t * NANOS), r\<lparr>rd_pos := pos\<rparr>)))"
    using readEncodedLong_moves [OF assms(1), of "rd_pos r"] assms(3)
    by (cases "readEncodedLong bs (rd_pos r)") auto
  moreover have "progress bs (rd_pos r) (rd_rec r) (res_bind (slice bs (rd_pos r) 8) (\<lambda>d.
      Inr (UDouble (le_word d), r\<lparr>rd_pos := advance (rd_pos r) 8\<rparr>)))"
    using assms by (auto simp: slice_def advance_def)
  ultimately show ?thesis
    using assms by (simp add: parseExtra_def)
qed

lemma begin_container_guarded: "guarded r \<Longrightarrow> guarded (begin_container r)"
  by (auto simp: guarded_def begin_container_def cacheObject_def nth_append Let_def)

lemma begin_container_sel:
  "rd_pos (begin_container r) = rd_pos r"
  "rd_rec (begin_container r) = rd_rec r @ [length (rd_cache (begin_container r))]"
  "rd_tree (begin_container r) = rd_tree r"
  "rd_tree r \<Longrightarrow> length (rd_cache (begin_container r)) = Suc (length (rd_cache r))"
  "\<not> rd_tree r \<Longrightarrow> rd_cache (begin_container r) = rd_cache r"
  by (simp_all add: begin_container_def cacheObject_def Let_def)

lemma end_container_guarded:
  assumes "guarded r" "guarded r'" "rd_rec r' = rd_rec (begin_container r)"
  shows "guarded (end_container (rd_tree r) (length (rd_cache r)) u r')"
proof (cases "rd_tree r")
  case True
  have "i + 1 \<in> set (rd_rec r)"
    if i: "i < length (rd_cache r')" "(rd_cache r')[length (rd_cache r) := Some u] ! i = None" for i
  proof -
    have ne: "i \<noteq> length (rd_cache r)" using i by (metis nth_list_update_eq option.distinct(1))
    with i have "rd_cache r' ! i = None" by simp
    with assms(2) i(1) have "i + 1 \<in> set (rd_rec r')" by (simp add: guarded_def)
    with ne assms(3) show ?thesis by (simp add: begin_container_sel True)
  qed
  with True assms show ?thesis
    by (auto simp: guarded_def end_container_def begin_container_sel)
next
  case False
  with assms(1) have "rd_cache r = []" by (simp add: guarded_def)
  then have "rd_rec r' = rd_rec r @ [0]" using assms(3) False by (simp add: begin_container_sel)
  with assms(2) False show ?thesis by (force simp: guarded_def end_container_def)
qed

lemma progress_end:
  assumes "progress bs pos (rd_rec (begin_container r)) m" "guarded r"
  shows "progress bs pos (rd_rec r) (res_bind m (\<lambda>(x, r').
    int_counted v (con x, end_container (rd_tree r) (length (rd_cache r)) (con x) r')))"
  using assms end_container_guarded [OF assms(2)]
  by (cases m) (auto simp: begin_container_sel int_counted_def, auto simp: end_container_def)

definition enough :: "bytes \<Rightarrow> reader \<Rightarrow> bool" where
  "enough bs r = (length bs < U32 \<and> rd_pos r \<le> length bs \<and> guarded r)"

lemma stream_guarded: "guarded (rd_setStreamMode r)" "rd_pos (rd_setStreamMode r) = rd_pos r"
  "rd_rec (rd_setStreamMode r) = rd_rec r"
  by (simp_all add: rd_setStreamMode_def guarded_def)

lemma get_Suc_progress:
  assumes items: "\<And>n r. enough bs r \<Longrightarrow> 2 * (length bs - rd_pos r) + 3 \<le> f \<Longrightarrow>
      progress bs (rd_pos r) (rd_rec r) (get_items f bs n r)"
    and pairs: "\<And>n b r. enough bs r \<Longrightarrow> 2 * (length bs - rd_pos r) + 3 \<le> f \<Longrightarrow>
      progress bs (rd_pos r) (rd_rec r) (get_pairs f bs n b r)"
    and rec: "\<And>r. enough bs r \<Longrightarrow> 2 * (length bs - rd_pos r) + 2 \<le> f \<Longrightarrow>
      progress bs (Suc (rd_pos r)) (rd_rec r) (get f bs r)"
    and r: "enough bs r" "2 * (length bs - rd_pos r) + 2 \<le> Suc f"
  shows "progress bs (Suc (rd_pos r)) (rd_rec r) (get (Suc f) bs r)"
proof (cases "readHeader bs (rd_pos r)")
  case (Inl e)
  then show ?thesis using readHeader_moves [of bs "rd_pos r"] r(1) by (simp add: enough_def)
next
  case (Inr x)
  obtain code v p where x: "x = ((code, v), p)" by (metis prod.exhaust)
  have p: "Suc (rd_pos r) \<le> p" "p \<le> length bs"
    using readHeader_moves [of bs "rd_pos r"] r(1) Inr by (simp_all add: enough_def x)
  let ?r = "r\<lparr>rd_pos := p\<rparr>"
  have e: "enough bs ?r" "guarded ?r" "rd_pos ?r = p" "rd_rec ?r = rd_rec r"
    using r(1) p by (auto simp: enough_def)
  then have eb: "enough bs (begin_container ?r)" and es: "enough bs (rd_setStreamMode ?r)"
    by (simp_all add: enough_def begin_container_guarded begin_container_sel stream_guarded)
  have f: "2 * (length bs - p) + 3 \<le> f" using r(2) p by simp
  have f2: "2 * (length bs - p) + 2 \<le> f" using f by simp
  have "progress bs p (rd_rec r) (res_bind (get_items f bs (int_rounds v) (begin_container ?r)) (\<lambda>(x, r').
      int_counted v (UArray x, end_container (rd_tree ?r) (length (rd_cache ?r)) (UArray x) r')))"
    using progress_end [OF items [OF eb] e(2)] f by (simp add: begin_container_sel)
  moreover have "progress bs p (rd_rec r) (res_bind (get_pairs f bs (int_rounds v) [] (begin_container ?r)) (\<lambda>(x, r').
      int_counted v (UBinder x, end_container (rd_tree ?r) (length (rd_cache ?r)) (UBinder x) r')))"
    using progress_end [OF pairs [OF eb] e(2)] f by (simp add: begin_container_sel)
  moreover have "progress bs p (rd_rec r) (get f bs (rd_setStreamMode ?r))"
    using rec [OF es] f2 by (auto simp: stream_guarded intro: progress_mono)
  moreover have "progress bs p (rd_rec r) (parseExtra bs c ?r)" for c
    using parseExtra_progress [of bs ?r] e by (simp add: enough_def)
  moreover have "progress bs p (rd_rec r) (get_leaf bs code v ?r)"
    using get_leaf_progress [of bs ?r] e by (simp add: enough_def)
  ultimately have "progress bs p (rd_rec r) (get (Suc f) bs r)"
    by (simp add: Inr x Let_def)
  then show ?thesis using p(1) by (rule progress_mono)
qed

lemma items_Suc_progress:
  assumes get: "\<And>r. enough bs r \<Longrightarrow> 2 * (length bs - rd_pos r) + 2 \<le> f \<Longrightarrow>
      progress bs (Suc (rd_pos r)) (rd_rec r) (get f bs r)"
    and rest: "\<And>r. enough bs r \<Longrightarrow> 2 * (length bs - rd_pos r) + 3 \<le> f \<Longrightarrow>
      progress bs (rd_pos r) (rd_rec r) (rget r)"
    and r: "enough bs r" "2 * (length bs - rd_pos r) + 2 \<le> f"
  shows "progress bs (rd_pos r) (rd_rec r) (res_bind (get f bs r) (\<lambda>(x, r). res_bind (rget r) (\<lambda>(xs, r). Inr (x # xs, r))))"
proof (rule progress_mono [OF progress_bind [OF get [OF r]]])
  fix u r' assume a: "Suc (rd_pos r) \<le> rd_pos r'" "rd_pos r' \<le> length bs" "rd_rec r' = rd_rec r" "guarded r'"
  then have "enough bs r'" "2 * (length bs - rd_pos r') + 3 \<le> f"
    using r by (auto simp: enough_def)
  from rest [OF this] show "progress bs (rd_pos r') (rd_rec r)
      (case (u, r') of (x, r) \<Rightarrow> res_bind (rget r) (\<lambda>(xs, r). Inr (x # xs, r)))"
    by (cases "rget r'") (auto simp: a(3))
qed simp

lemma pairs_Suc_progress:
  assumes get: "\<And>r. enough bs r \<Longrightarrow> 2 * (length bs - rd_pos r) + 2 \<le> f \<Longrightarrow>
      progress bs (Suc (rd_pos r)) (rd_rec r) (get f bs r)"
    and rest: "\<And>b r. enough bs r \<Longrightarrow> 2 * (length bs - rd_pos r) + 3 \<le> f \<Longrightarrow>
      progress bs (rd_pos r) (rd_rec r) (rget b r)"
    and r: "enough bs r" "2 * (length bs - rd_pos r) + 2 \<le> f"
  shows "progress bs (rd_pos r) (rd_rec r) (res_bind (get f bs r) (\<lambda>(k, r). case k of
     UString s \<Rightarrow> res_bind (get f bs r) (\<lambda>(v, r). rget (binder_set s v b) r)
     | _ \<Rightarrow> Inl KeyNotString))"
proof (rule progress_mono [OF progress_bind [OF get [OF r]]])
  fix k r1 assume a: "Suc (rd_pos r) \<le> rd_pos r1" "rd_pos r1 \<le> length bs" "rd_rec r1 = rd_rec r" "guarded r1"
  then have e1: "enough bs r1" "2 * (length bs - rd_pos r1) + 2 \<le> f" using r by (auto simp: enough_def)
  have "progress bs (rd_pos r1) (rd_rec r1) (res_bind (get f bs r1) (\<lambda>(v, r). rget (binder_set s v b) r))" for s
  proof (rule progress_mono [OF progress_bind [OF get [OF e1]]])
    fix v r2 assume a: "Suc (rd_pos r1) \<le> rd_pos r2" "rd_pos r2 \<le> length bs" "rd_rec r2 = rd_rec r1" "guarded r2"
    then have "enough bs r2" "2 * (length bs - rd_pos r2) + 3 \<le> f" using e1 by (auto simp: enough_def)
    from rest [OF this] show "progress bs (rd_pos r2) (rd_rec r1) (case (v, r2) of (v, r) \<Rightarrow> rget (binder_set s v b) r)"
      by (simp add: a(3))
  qed simp
  then show "progress bs (rd_pos r1) (rd_rec r) (case (k, r1) of (k, r) \<Rightarrow> case k of
     UString s \<Rightarrow> res_bind (get f bs r) (\<lambda>(v, r). rget (binder_set s v b) r)
     | _ \<Rightarrow> Inl KeyNotString)"
    by (cases k) (simp_all add: a(3))
qed simp

lemma reader_progress:
  "enough bs r \<Longrightarrow> 2 * (length bs - rd_pos r) + 2 \<le> f \<Longrightarrow> progress bs (Suc (rd_pos r)) (rd_rec r) (get f bs r)"
  "enough bs r \<Longrightarrow> 2 * (length bs - rd_pos r) + 3 \<le> f \<Longrightarrow> progress bs (rd_pos r) (rd_rec r) (get_items f bs n r)"
  "enough bs r \<Longrightarrow> 2 * (length bs - rd_pos r) + 3 \<le> f \<Longrightarrow> progress bs (rd_pos r) (rd_rec r) (get_pairs f bs n b r)"
proof (induction f arbitrary: r n b)
  case 0
  {
    case 1
    then show ?case by simp
  next
    case 2
    then show ?case by simp
  next
    case 3
    then show ?case by simp
  }
next
  case (Suc f)
  {
    case 1
    show ?case by (rule get_Suc_progress [OF Suc.IH(2) Suc.IH(3) Suc.IH(1) 1])
  next
    case 2
    have "2 * (length bs - rd_pos r) + 2 \<le> f" using 2(2) by simp
    from items_Suc_progress [OF Suc.IH(1) Suc.IH(2) 2(1) this] 2 show ?case
      by (cases n) (auto simp: enough_def simp del: get.simps)
  next
    case 3
    have "2 * (length bs - rd_pos r) + 2 \<le> f" using 3(2) by simp
    from pairs_Suc_progress [OF Suc.IH(1) Suc.IH(3) 3(1) this] 3 show ?case
      by (cases n) (auto simp: enough_def simp del: get.simps)
  }
qed

section \<open>The entry point\<close>

lemma get_new_progress: "length bs < U32 \<Longrightarrow> progress bs 1 [] (get (fuel_for bs) bs new_reader)"
  using reader_progress(1) [of bs new_reader "fuel_for bs"]
  by (simp add: enough_def new_reader_def guarded_def fuel_for_def del: get.simps)

lemma getters_errors:
  "getString b k \<noteq> Inl OutOfFuel" "getString b k \<noteq> Inl PartialReference"
  "getInt b k \<noteq> Inl OutOfFuel" "getInt b k \<noteq> Inl PartialReference"
  "getStringOrDefault b k d \<noteq> Inl OutOfFuel" "getStringOrDefault b k d \<noteq> Inl PartialReference"
  "bytes_asInstance u \<noteq> Inl OutOfFuel" "bytes_asInstance u \<noteq> Inl PartialReference"
  "parse_key kp c x \<noteq> Inl OutOfFuel" "parse_key kp c x \<noteq> Inl PartialReference"
  by (auto simp: getString_def getInt_def getStringOrDefault_def bytes_asInstance_def parse_key_def
      split: uobj.splits option.splits)

lemma deserialize_complex_errors:
  "deserialize_complex kp ty b \<noteq> Inl OutOfFuel" "deserialize_complex kp ty b \<noteq> Inl PartialReference"
  by (simp_all add: deserialize_complex_def Let_def compose_test_def compose_hashid_def
      compose_address_def compose_public_def compose_private_def compose_error_def res_bind_eq_Inl getters_errors)

lemma base_deserialize_errors:
  "e = OutOfFuel \<or> e = PartialReference \<Longrightarrow> base_deserialize kp u \<noteq> Inl e"
  "e = OutOfFuel \<or> e = PartialReference \<Longrightarrow> base_deserialize_list kp us \<noteq> Inl e"
  "e = OutOfFuel \<or> e = PartialReference \<Longrightarrow> base_deserialize_pairs kp ps \<noteq> Inl e"
  by (induction kp u and kp us and kp ps rule: base_deserialize_base_deserialize_list_base_deserialize_pairs.induct)
    (auto simp: res_bind_eq_Inl binder_type_def getters_errors deserialize_complex_errors split: if_splits)

lemma deserialize_errors:
  assumes "length bs < 2 ^ 32" "e = OutOfFuel \<or> e = PartialReference"
  shows "deserialize kp bs \<noteq> Inl e"
  using get_new_progress [of bs] assms base_deserialize_errors(1) [OF assms(2)]
  by (cases "get (fuel_for bs) bs new_reader")
    (auto simp: U32_def deserialize_def readObject_def res_bind_eq_Inl split: uobj.splits
      simp del: get.simps base_deserialize.simps)

text \<open>
  C2: on every input below 4 GiB the loops of the reader end: the fuel that \<open>deserialize\<close> starts
  with, two units per byte, is never used up.
\<close>

theorem deserialize_terminates: "length bs < 2 ^ 32 \<Longrightarrow> deserialize kp bs \<noteq> Inl OutOfFuel"
  by (simp add: deserialize_errors)

lemma deserialize_terminates_witness: "deserialize (\<lambda>_ _. None) [0x2E, 0x3D, 0x0F] \<noteq> Inl OutOfFuel"
  by (rule deserialize_terminates) simp

text \<open>
  whatever the input, a reference never hands out a list or dictionary whose elements are
  still being read: the list \<open>recursive\<close> guards every unfinished slot of the cache.
\<close>

theorem deserialize_no_partial: "length bs < 2 ^ 32 \<Longrightarrow> deserialize kp bs \<noteq> Inl PartialReference"
  by (simp add: deserialize_errors)

lemma deserialize_no_partial_witness: "deserialize (\<lambda>_ _. None) [0x0E, 0x0D] \<noteq> Inl PartialReference"
  by (rule deserialize_no_partial) simp

lemma read_bin_wraps:
  assumes "length bs < 2 ^ 32" "pos \<le> length bs" "2 ^ 64 \<le> pos + unat v"
  shows "\<not> bound_fails bs pos v \<and> read_bin bs pos v = Inl OutOfBoundsRead"
proof -
  have u: "unat (of_nat (length bs) :: u64) = length bs" "unat (of_nat pos :: u64) = pos"
    by (rule of_nat_inverse; use assms in simp)+
  have lt: "unat v < 2 ^ 64" using unsigned_less [of v, where 'a = nat] by simp
  have "(pos + unat v) mod 2 ^ 64 = pos + unat v - 2 ^ 64"
    using assms lt by (simp add: mod_if)
  then have "unat ((of_nat pos :: u64) + v) \<le> length bs"
    using assms lt by (simp add: unat_word_ariths u)
  then have nb: "\<not> bound_fails bs pos v"
    using assms by (simp add: bound_fails_def data_size_def U32_def word_less_nat_alt u)
  have "read_bin bs pos v \<noteq> Inr b" for b
    using read_bin_honest [of bs pos v b] assms by (auto simp: U32_def)
  with nb read_bin_errors [of bs pos v] show ?thesis
    by (cases "read_bin bs pos v") (auto simp: read_bin_def split: if_splits)
qed

text \<open>
  C3: the bound check \<open>pos + h.value > size\<close> of binary data wraps: a length within \<open>pos\<close> of
  \<open>2^64\<close> passes it, and the copy then reads outside the packed data.
\<close>

theorem bin_length_wraps:
  assumes "length bs < 2 ^ 32" "pos \<le> length bs" "2 ^ 64 \<le> pos + unat v"
  shows "\<not> bound_fails bs pos v \<and> read_bin bs pos v = Inl OutOfBoundsRead"
  by (rule read_bin_wraps [OF assms])

text \<open>A message that opens with such a length: the reader leaves the data with its first object.\<close>

lemma deserialize_wraps:
  assumes "length bs < 2 ^ 32" "readHeader bs 0 = Inr ((TYPE_BIN, v), p)" "2 ^ 64 \<le> p + unat v"
  shows "deserialize kp bs = Inl OutOfBoundsRead"
proof -
  have "p \<le> length bs" using readHeader_moves [of bs 0] assms(1,2) by (simp add: U32_def)
  then have "read_bin bs p v = Inl OutOfBoundsRead" using read_bin_wraps [OF assms(1) _ assms(3)] by simp
  then have "get (Suc f) bs new_reader = Inl OutOfBoundsRead" for f
    by (simp add: new_reader_def assms(2) Let_def get_leaf_def type_codes)
  then show ?thesis by (simp add: deserialize_def readObject_def fuel_for_def del: get.simps)
qed

abbreviation huge_bin :: bytes where
  "huge_bin \<equiv> [0xF4, 255, 255, 255, 255, 255, 255, 255, 255]"

lemma huge_bin_header: "readHeader huge_bin 0 = Inr ((TYPE_BIN, - 1), 9)"
proof -
  have "header_bytes TYPE_BIN (- 1) = huge_bin" by code_simp
  then show ?thesis using readHeader_header_bytes [of huge_bin 0 TYPE_BIN "- 1" "[]"]
    by (simp add: U32_def type_codes)
qed

lemma bin_length_wraps_witness:
  "read_bin huge_bin 9 (- 1) = Inl OutOfBoundsRead \<and> deserialize (\<lambda>_ _. None) huge_bin = Inl OutOfBoundsRead"
proof -
  have "unat (- 1 :: u64) = 2 ^ 64 - 1" by (simp add: unsigned_minus_1_eq_mask mask_eq_exp_minus_1)
  then have "read_bin huge_bin 9 (- 1) = Inl OutOfBoundsRead"
    using bin_length_wraps [of huge_bin 9 "- 1"] by simp
  moreover from this have "get (Suc 19) huge_bin new_reader = Inl OutOfBoundsRead"
    unfolding get.simps(2) by (simp add: new_reader_def huge_bin_header Let_def get_leaf_def type_codes)
  moreover have "fuel_for huge_bin = Suc 19" by (simp add: fuel_for_def)
  ultimately show ?thesis
    unfolding deserialize_def readObject_def by (simp del: Suc_numeral)
qed

text \<open>
  in stream mode a null element of a list is not read back: its reference number 0 is found
  among the entries that \<open>recursive\<close> holds for uncached containers.
\<close>

theorem stream_null_rejected:
  assumes "rd_cache r = []" "\<not> rd_tree r"
    and "readHeader bs (rd_pos r) = Inr ((TYPE_LIST, v), p)" "v \<noteq> 0" "readHeader bs p = Inr ((TYPE_CREF, 0), q)"
    and "3 \<le> f"
  shows "get f bs r = Inl RecursiveReference"
proof -
  obtain g where f: "f = Suc (Suc (Suc g))" using assms(6) by (metis Suc_le_D numeral_3_eq_3 Suc_le_mono)
  have "int_rounds v \<noteq> 0" using assms(4) by (simp add: int_rounds_def unat_gt_0)
  then obtain n where n: "int_rounds v = Suc n" by (metis not0_implies_Suc)
  show ?thesis
    using assms(1-5) by (simp add: f n type_codes Let_def begin_container_def cacheObject_def get_leaf_def read_ref_def)
qed

lemma readByte_short: "length bs \<le> 1000 \<Longrightarrow> pos < length bs \<Longrightarrow> readByte bs pos = Inr (bs ! pos, Suc pos)"
  by (simp add: readByte_def data_size_def U32_def)

lemma list_null_headers:
  "readHeader [0x0E, 0x05] 0 = Inr ((TYPE_LIST, 1), 1)" "readHeader [0x0E, 0x05] 1 = Inr ((TYPE_CREF, 0), 2)"
  by (simp_all add: readHeader_def readByte_short type_codes Let_def word_le_nat_alt word_less_nat_alt)

lemma stream_null_rejected_witness:
  "put (UArray [UNull]) (new_writer False) = Inr \<lparr>wr_cache = [], wr_buf = [0x0E, 0x05], wr_tree = False\<rparr> \<and>
   get 3 [0x0E, 0x05] (rd_setStreamMode new_reader) = Inl RecursiveReference"
proof
  show "put (UArray [UNull]) (new_writer False) = Inr \<lparr>wr_cache = [], wr_buf = [0x0E, 0x05], wr_tree = False\<rparr>"
    by code_simp
  show "get 3 [0x0E, 0x05] (rd_setStreamMode new_reader) = Inl RecursiveReference"
    by (rule stream_null_rejected [where v = 1 and p = 1 and q = 2])
      (simp_all add: rd_setStreamMode_def new_reader_def list_null_headers list_null_headers(2) [simplified])
qed

end
