(* ===== verification/EvtTls.thy ===== *)
theory EvtTls
  imports Prelude
begin

text \<open>
  \<open>AsyncIO/TLS/evt_tls.c\<close>: TLS over a BIO pair. OpenSSL, the network writer and the callbacks are
  the environment \<open>tls_env\<close>: every operation of theirs is a function on the abstract SSL state, and
  a callback may change the whole connection, which is how re-entrant calls are covered. A failed
  \<open>assert\<close> is an error value.
\<close>

datatype tls_error = AssertFailed | ReadOutOfBounds | UseAfterFree | LoopFuel

datatype tls_event =
    OnHandshake int
  | OnRead "bytes option" int   \<comment> \<open>the buffer, \<open>None\<close> for \<open>NULL\<close>, and the size argument\<close>
  | OnWrite int
  | OnClose int

datatype tls_op = EVT_TLS_OP_HANDSHAKE | EVT_TLS_OP_READ | EVT_TLS_OP_WRITE | EVT_TLS_OP_SHUTDOWN

record ('s, 'u, 'c) conn =
  c_data :: 'u
  c_ssl :: 's
  c_writer :: "'c option"
  c_reader :: "'c option"
  c_hshake :: "'c option"
  c_read :: "'c option"
  c_write :: "'c option"
  c_close :: "'c option"

record ('s, 'u, 'c) tls_env =
  SSL_do_handshake :: "'s \<Rightarrow> int \<times> 's"
  SSL_read :: "nat \<Rightarrow> 's \<Rightarrow> int \<times> bytes \<times> 's"
  SSL_write :: "bytes \<Rightarrow> 's \<Rightarrow> int \<times> 's"
  SSL_shutdown :: "'s \<Rightarrow> int \<times> 's"
  SSL_is_init_finished :: "'s \<Rightarrow> bool"
  SSL_is_server :: "'s \<Rightarrow> bool"
  SSL_set_accept_state :: "'s \<Rightarrow> 's"
  SSL_set_connect_state :: "'s \<Rightarrow> 's"
  BIO_pending :: "'s \<Rightarrow> int"
  BIO_read :: "nat \<Rightarrow> 's \<Rightarrow> int \<times> bytes \<times> 's"
  BIO_write :: "bytes \<Rightarrow> 's \<Rightarrow> int \<times> 's"
  net_write :: "'c \<Rightarrow> bytes \<Rightarrow> ('s, 'u, 'c) conn \<Rightarrow> int \<times> ('s, 'u, 'c) conn"
  run_cb :: "'c \<Rightarrow> tls_event \<Rightarrow> ('s, 'u, 'c) conn \<Rightarrow> tls_error + ('s, 'u, 'c) conn"

text \<open>\<open>conn->cb(conn, ...)\<close> on a callback known to be set, and guarded by \<open>if (conn->cb)\<close>.\<close>

definition must_call :: "('s, 'u, 'c) tls_env \<Rightarrow> 'c option \<Rightarrow> tls_event \<Rightarrow> ('s, 'u, 'c) conn \<Rightarrow> tls_error + ('s, 'u, 'c) conn" where
  "must_call E cb ev c = (case cb of None \<Rightarrow> Inl AssertFailed | Some f \<Rightarrow> run_cb E f ev c)"

definition may_call :: "('s, 'u, 'c) tls_env \<Rightarrow> 'c option \<Rightarrow> tls_event \<Rightarrow> ('s, 'u, 'c) conn \<Rightarrow> tls_error + ('s, 'u, 'c) conn" where
  "may_call E cb ev c = (case cb of None \<Rightarrow> Inr c | Some f \<Rightarrow> run_cb E f ev c)"

section \<open>The state machine\<close>

definition evt__send_pending :: "('s, 'u, 'c) tls_env \<Rightarrow> ('s, 'u, 'c) conn \<Rightarrow> tls_error + int \<times> ('s, 'u, 'c) conn" where
  "evt__send_pending E c =
     (let pending = BIO_pending E (c_ssl c) in
      if \<not> 0 < pending then Inr (0, c)
      else case BIO_read E (nat pending) (c_ssl c) of (p, buf, s) \<Rightarrow>
        if p \<noteq> pending then Inl AssertFailed
        else case c_writer c of None \<Rightarrow> Inl AssertFailed
          | Some f \<Rightarrow> Inr (net_write E f buf (c\<lparr>c_ssl := s\<rparr>)))"

definition handle_shutdown :: "('s, 'u, 'c) tls_env \<Rightarrow> ('s, 'u, 'c) conn \<Rightarrow> tls_error + int \<times> ('s, 'u, 'c) conn" where
  "handle_shutdown E c =
     (case SSL_shutdown E (c_ssl c) of (r, s) \<Rightarrow>
      res_bind (evt__send_pending E (c\<lparr>c_ssl := s\<rparr>)) (\<lambda>(_, c).
      if r = 1 then res_bind (may_call E (c_close c) (OnClose r) c) (\<lambda>c. Inr (r, c)) else Inr (r, c)))"

definition op_handshake :: "('s, 'u, 'c) tls_env \<Rightarrow> ('s, 'u, 'c) conn \<Rightarrow> tls_error + int \<times> ('s, 'u, 'c) conn" where
  "op_handshake E c =
     (case SSL_do_handshake E (c_ssl c) of (r, s) \<Rightarrow>
      res_bind (evt__send_pending E (c\<lparr>c_ssl := s\<rparr>)) (\<lambda>(bytes, c).
      if bytes < 0 then Inl AssertFailed
      else if r = 1 \<or> r = 0 then res_bind (must_call E (c_hshake c) (OnHandshake r) c) (\<lambda>c. Inr (r, c))
      else Inr (r, c)))"

definition op_read :: "('s, 'u, 'c) tls_env \<Rightarrow> ('s, 'u, 'c) conn \<Rightarrow> tls_error + int \<times> ('s, 'u, 'c) conn" where
  "op_read E c =
     (case SSL_read E (16 * 1024) (c_ssl c) of (r, buf, s) \<Rightarrow>
      let c = c\<lparr>c_ssl := s\<rparr> in
      if r = 0 then handle_shutdown E c
      else if 0 < r then res_bind (may_call E (c_read c) (OnRead (Some buf) r) c) (\<lambda>c. Inr (r, c))
      else res_bind (evt__send_pending E c) (\<lambda>(bytes, c).
        if bytes = 0 then res_bind (may_call E (c_read c) (OnRead (Some []) r) c) (\<lambda>c. Inr (r, c))
        else Inr (r, c)))"

definition op_write :: "('s, 'u, 'c) tls_env \<Rightarrow> bytes \<Rightarrow> ('s, 'u, 'c) conn \<Rightarrow> tls_error + int \<times> ('s, 'u, 'c) conn" where
  "op_write E buf c =
     (if buf = [] then Inl AssertFailed
      else case SSL_write E buf (c_ssl c) of (r, s) \<Rightarrow>
        let c = c\<lparr>c_ssl := s\<rparr> in
        if r = 0 then handle_shutdown E c
        else res_bind (evt__send_pending E c) (\<lambda>(_, c).
          if 0 < r then res_bind (may_call E (c_write c) (OnWrite r) c) (\<lambda>c. Inr (r, c)) else Inr (r, c)))"

definition op_shutdown :: "('s, 'u, 'c) tls_env \<Rightarrow> ('s, 'u, 'c) conn \<Rightarrow> tls_error + int \<times> ('s, 'u, 'c) conn" where
  "op_shutdown E c =
     (case SSL_shutdown E (c_ssl c) of (r, s) \<Rightarrow>
      res_bind (evt__send_pending E (c\<lparr>c_ssl := s\<rparr>)) (\<lambda>(_, c).
      res_bind (may_call E (c_close c) (OnClose r) c) (\<lambda>c. Inr (r, c))))"

definition evt__tls__op :: "('s, 'u, 'c) tls_env \<Rightarrow> tls_op \<Rightarrow> bytes \<Rightarrow> ('s, 'u, 'c) conn \<Rightarrow> tls_error + int \<times> ('s, 'u, 'c) conn" where
  "evt__tls__op E op buf c =
     (case op of EVT_TLS_OP_HANDSHAKE \<Rightarrow> op_handshake E c | EVT_TLS_OP_READ \<Rightarrow> op_read E c
      | EVT_TLS_OP_WRITE \<Rightarrow> op_write E buf c | EVT_TLS_OP_SHUTDOWN \<Rightarrow> op_shutdown E c)"

definition evt_tls_is_handshake_over :: "('s, 'u, 'c) tls_env \<Rightarrow> ('s, 'u, 'c) conn \<Rightarrow> bool" where
  "evt_tls_is_handshake_over E c = SSL_is_init_finished E (c_ssl c)"

text \<open>
  The loop of \<open>evt_tls_feed_data\<close>: the offset advances by whatever \<open>BIO_write\<close> returned, negative
  values included; \<open>data + offset\<close> below the buffer is \<open>ReadOutOfBounds\<close>.
\<close>

fun feed_loop :: "('s, 'u, 'c) tls_env \<Rightarrow> nat \<Rightarrow> bytes \<Rightarrow> int \<Rightarrow> int \<Rightarrow> ('s, 'u, 'c) conn \<Rightarrow> tls_error + int \<times> ('s, 'u, 'c) conn" where
  "feed_loop E f data offset rv c =
     (if \<not> offset < int (length data) then Inr (rv, c)
      else case f of 0 \<Rightarrow> Inl LoopFuel
      | Suc f \<Rightarrow>
        if offset < 0 then Inl ReadOutOfBounds
        else case BIO_write E (drop (nat offset) data) (c_ssl c) of (i, s) \<Rightarrow>
          let c = c\<lparr>c_ssl := s\<rparr> in
          res_bind (evt__tls__op E (if evt_tls_is_handshake_over E c then EVT_TLS_OP_READ else EVT_TLS_OP_HANDSHAKE) [] c)
            (\<lambda>(rv, c). feed_loop E f data (offset + i) rv c))"

declare feed_loop.simps [simp del]

definition evt_tls_feed_data :: "('s, 'u, 'c) tls_env \<Rightarrow> nat \<Rightarrow> bytes \<Rightarrow> ('s, 'u, 'c) conn \<Rightarrow> tls_error + int \<times> ('s, 'u, 'c) conn" where
  "evt_tls_feed_data E f data c = (if data = [] then Inl AssertFailed else feed_loop E f data 0 0 c)"

section \<open>Entry points of a connection\<close>

definition evt_tls_connect :: "('s, 'u, 'c) tls_env \<Rightarrow> 'c option \<Rightarrow> ('s, 'u, 'c) conn \<Rightarrow> tls_error + int \<times> ('s, 'u, 'c) conn" where
  "evt_tls_connect E cb c =
     evt__tls__op E EVT_TLS_OP_HANDSHAKE [] (c\<lparr>c_hshake := cb, c_ssl := SSL_set_connect_state E (c_ssl c)\<rparr>)"

definition evt_tls_accept :: "('s, 'u, 'c) tls_env \<Rightarrow> 'c option \<Rightarrow> ('s, 'u, 'c) conn \<Rightarrow> int \<times> ('s, 'u, 'c) conn" where
  "evt_tls_accept E cb c = (0, c\<lparr>c_ssl := SSL_set_accept_state E (c_ssl c), c_hshake := cb\<rparr>)"

definition evt_tls_write :: "('s, 'u, 'c) tls_env \<Rightarrow> bytes \<Rightarrow> 'c option \<Rightarrow> ('s, 'u, 'c) conn \<Rightarrow> tls_error + int \<times> ('s, 'u, 'c) conn" where
  "evt_tls_write E msg cb c = evt__tls__op E EVT_TLS_OP_WRITE msg (c\<lparr>c_write := cb\<rparr>)"

definition evt_tls_read :: "'c option \<Rightarrow> ('s, 'u, 'c) conn \<Rightarrow> int \<times> ('s, 'u, 'c) conn" where
  "evt_tls_read cb c = (0, c\<lparr>c_read := cb\<rparr>)"

definition evt_tls_close :: "('s, 'u, 'c) tls_env \<Rightarrow> 'c option \<Rightarrow> ('s, 'u, 'c) conn \<Rightarrow> tls_error + int \<times> ('s, 'u, 'c) conn" where
  "evt_tls_close E cb c = evt__tls__op E EVT_TLS_OP_SHUTDOWN [] (c\<lparr>c_close := cb\<rparr>)"

datatype endpt = ENDPT_IS_CLIENT | ENDPT_IS_SERVER

definition evt_tls_get_role :: "('s, 'u, 'c) tls_env \<Rightarrow> ('s, 'u, 'c) conn \<Rightarrow> endpt" where
  "evt_tls_get_role E c = (if SSL_is_server E (c_ssl c) then ENDPT_IS_SERVER else ENDPT_IS_CLIENT)"

definition evt_tls_set_role :: "('s, 'u, 'c) tls_env \<Rightarrow> endpt \<Rightarrow> ('s, 'u, 'c) conn \<Rightarrow> ('s, 'u, 'c) conn" where
  "evt_tls_set_role E role c = c\<lparr>c_ssl := (if role = ENDPT_IS_SERVER then SSL_set_accept_state E (c_ssl c)
     else SSL_set_connect_state E (c_ssl c))\<rparr>"

definition evt_tls_set_writer :: "'c option \<Rightarrow> ('s, 'u, 'c) conn \<Rightarrow> tls_error + ('s, 'u, 'c) conn" where
  "evt_tls_set_writer w c = (if w = None then Inl AssertFailed else Inr (c\<lparr>c_writer := w\<rparr>))"

definition evt_tls_set_reader :: "'c option \<Rightarrow> ('s, 'u, 'c) conn \<Rightarrow> ('s, 'u, 'c) conn" where
  "evt_tls_set_reader r c = c\<lparr>c_reader := r\<rparr>"

section \<open>Contexts\<close>

text \<open>
  A context owns the queue of its live connections; \<open>x_heap\<close> maps the address of a connection to
  its contents until \<open>evt_tls_free\<close> releases it. What the allocator and OpenSSL return is passed in.
\<close>

record ('s, 'u, 'c) tls_ctx =
  x_ctx :: bool
  x_cert_set :: int
  x_key_set :: int
  x_ssl_err :: int
  x_live :: "nat list"
  x_heap :: "nat \<Rightarrow> ('s, 'u, 'c) conn option"
  x_writer :: "'c option"
  x_reader :: "'c option"

definition evt_ctx_init :: "bool \<Rightarrow> ('s, 'u, 'c) tls_ctx \<Rightarrow> int \<times> ('s, 'u, 'c) tls_ctx" where
  "evt_ctx_init ctx_new x =
     (if \<not> ctx_new then (- 1, x\<lparr>x_ctx := False\<rparr>)
      else (0, x\<lparr>x_ctx := True, x_cert_set := 0, x_key_set := 0, x_ssl_err := 0, x_writer := None,
                x_reader := None, x_live := []\<rparr>))"

definition evt_ctx_set_crt_key :: "int \<Rightarrow> int \<Rightarrow> int \<Rightarrow> ('s, 'u, 'c) tls_ctx \<Rightarrow> int \<times> ('s, 'u, 'c) tls_ctx" where
  "evt_ctx_set_crt_key use_crt use_key check_key x =
     (if use_crt \<noteq> 1 then (use_crt, x)
      else let x = x\<lparr>x_cert_set := 1\<rparr> in
        if use_key \<noteq> 1 then (use_key, x)
        else if check_key \<noteq> 1 then (check_key, x)
        else (1, x\<lparr>x_key_set := 1\<rparr>))"

definition evt_ctx_init_ex :: "bool \<Rightarrow> int \<Rightarrow> int \<Rightarrow> int \<Rightarrow> ('s, 'u, 'c) tls_ctx \<Rightarrow> tls_error + int \<times> ('s, 'u, 'c) tls_ctx" where
  "evt_ctx_init_ex ctx_new use_crt use_key check_key x =
     (case evt_ctx_init ctx_new x of (r, x) \<Rightarrow>
      if r \<noteq> 0 then Inl AssertFailed else Inr (evt_ctx_set_crt_key use_crt use_key check_key x))"

definition evt_ctx_is_crtf_set :: "('s, 'u, 'c) tls_ctx \<Rightarrow> int" where
  "evt_ctx_is_crtf_set x = x_cert_set x"

definition evt_ctx_is_key_set :: "('s, 'u, 'c) tls_ctx \<Rightarrow> int" where
  "evt_ctx_is_key_set x = x_key_set x"

definition evt_ctx_set_writer :: "'c option \<Rightarrow> ('s, 'u, 'c) tls_ctx \<Rightarrow> tls_error + ('s, 'u, 'c) tls_ctx" where
  "evt_ctx_set_writer w x = (if w = None then Inl AssertFailed else Inr (x\<lparr>x_writer := w\<rparr>))"

definition evt_ctx_set_reader :: "'c option \<Rightarrow> ('s, 'u, 'c) tls_ctx \<Rightarrow> ('s, 'u, 'c) tls_ctx" where
  "evt_ctx_set_reader r x = x\<lparr>x_reader := r\<rparr>"

definition evt_ctx_set_nio :: "'c option \<Rightarrow> 'c option \<Rightarrow> ('s, 'u, 'c) tls_ctx \<Rightarrow> tls_error + ('s, 'u, 'c) tls_ctx" where
  "evt_ctx_set_nio r w x = (if w = None then Inl AssertFailed else Inr (x\<lparr>x_reader := r, x_writer := w\<rparr>))"

text \<open>
  \<open>evt_ctx_get_tls\<close>: the address \<open>malloc\<close> gave, the \<open>SSL_new\<close> object and the result of
  \<open>BIO_new_bio_pair\<close>. The connection enters the queue only when all three succeed.
\<close>

definition evt_ctx_get_tls :: "nat option \<Rightarrow> 's option \<Rightarrow> int \<Rightarrow> 'u \<Rightarrow> ('s, 'u, 'c) tls_ctx \<Rightarrow> nat option \<times> ('s, 'u, 'c) tls_ctx" where
  "evt_ctx_get_tls mem ssl_new bio_pair null_data x =
     (case mem of None \<Rightarrow> (None, x)
      | Some a \<Rightarrow> (case ssl_new of None \<Rightarrow> (None, x)
        | Some s \<Rightarrow> if bio_pair \<noteq> 1 then (None, x)
          else (Some a, x\<lparr>x_live := x_live x @ [a],
            x_heap := (x_heap x)(a \<mapsto> \<lparr>c_data = null_data, c_ssl = s, c_writer = x_writer x, c_reader = x_reader x,
              c_hshake = None, c_read = None, c_write = None, c_close = None\<rparr>)\<rparr>)))"

definition evt_tls_free :: "nat \<Rightarrow> ('s, 'u, 'c) tls_ctx \<Rightarrow> tls_error + ('s, 'u, 'c) tls_ctx" where
  "evt_tls_free a x =
     (if x_heap x a = None then Inl UseAfterFree
      else Inr (x\<lparr>x_live := remove1 a (x_live x), x_heap := (x_heap x)(a := None)\<rparr>))"

fun shutdown_all :: "('s, 'u, 'c) tls_env \<Rightarrow> nat list \<Rightarrow> ('s, 'u, 'c) tls_ctx \<Rightarrow> tls_error + ('s, 'u, 'c) tls_ctx" where
  "shutdown_all E [] x = Inr x"
| "shutdown_all E (a # as) x =
     (case x_heap x a of None \<Rightarrow> Inl UseAfterFree
      | Some c \<Rightarrow> res_bind (evt__tls__op E EVT_TLS_OP_SHUTDOWN [] c) (\<lambda>(_, c).
          shutdown_all E as (x\<lparr>x_heap := (x_heap x)(a \<mapsto> c)\<rparr>)))"

definition evt_ctx_free :: "('s, 'u, 'c) tls_env \<Rightarrow> ('s, 'u, 'c) tls_ctx \<Rightarrow> tls_error + ('s, 'u, 'c) tls_ctx" where
  "evt_ctx_free E x = res_bind (shutdown_all E (x_live x) x) (\<lambda>x. Inr (x\<lparr>x_ctx := False\<rparr>))"

section \<open>Recognising a TLS stream\<close>

text \<open>\<open>char\<close> is signed: the comparison \<open>bfr[4] < 5\<close> reads the byte as a number from -128 to 127.\<close>

definition evt_is_tls_stream :: "bytes \<Rightarrow> tls_error + int" where
  "evt_is_tls_stream bfr =
     (if length bfr < 11 then Inl AssertFailed
      else Inr (if bfr ! 0 = 0x16 \<and> bfr ! 1 = 0x03 \<and> bfr ! 5 = 1 \<and>
                   ((bfr ! 3 = 0 \<and> sint (bfr ! 4) < 5) \<or> bfr ! 9 = bfr ! 1) then 1
                else if bfr ! 0 AND 0x80 \<noteq> 0 \<and> bfr ! 2 = 1 then 1 else 0))"

section \<open>The invariant of a context\<close>

definition ctx_ok :: "('s, 'u, 'c) tls_ctx \<Rightarrow> bool" where
  "ctx_ok x = (distinct (x_live x) \<and> set (x_live x) = dom (x_heap x))"

lemma get_tls_ok [wf_intros]:
  "ctx_ok x \<Longrightarrow> mem = None \<or> x_heap x (the mem) = None \<Longrightarrow> ctx_ok (snd (evt_ctx_get_tls mem s p u x))"
  by (auto simp: ctx_ok_def evt_ctx_get_tls_def split: option.splits)

lemma tls_free_ok [wf_intros]: "ctx_ok x \<Longrightarrow> evt_tls_free a x = Inr x' \<Longrightarrow> ctx_ok x'"
  by (auto simp: ctx_ok_def evt_tls_free_def split: if_splits)

lemma shutdown_all_live:
  "set as \<subseteq> dom (x_heap x) \<Longrightarrow> shutdown_all E as x = Inr x' \<Longrightarrow>
   x_live x' = x_live x \<and> dom (x_heap x') = dom (x_heap x)"
proof (induction as arbitrary: x)
  case (Cons a as)
  from Cons.prems(1) obtain c where c: "x_heap x a = Some c" by auto
  then obtain c' where s: "shutdown_all E as (x\<lparr>x_heap := (x_heap x)(a \<mapsto> c')\<rparr>) = Inr x'"
    using Cons.prems(2) by (auto simp: res_bind_eq_Inr)
  define h where "h = (x_heap x)(a \<mapsto> c')"
  have d: "dom h = dom (x_heap x)" using c by (auto simp: h_def)
  then have "set as \<subseteq> dom (x_heap (x\<lparr>x_heap := h\<rparr>))" using Cons.prems(1) by auto
  from Cons.IH [OF this s [folded h_def]] d show ?case by simp
qed simp

lemma ctx_free_ok [wf_intros]:
  assumes "ctx_ok x" "evt_ctx_free E x = Inr x'"
  shows "ctx_ok x'"
proof -
  obtain y where y: "shutdown_all E (x_live x) x = Inr y" "x' = y\<lparr>x_ctx := False\<rparr>"
    using assms(2) unfolding evt_ctx_free_def res_bind_eq_Inr by blast
  have "x_live y = x_live x \<and> dom (x_heap y) = dom (x_heap x)"
    by (rule shutdown_all_live [OF _ y(1)]) (use assms(1) in \<open>simp add: ctx_ok_def\<close>)
  with assms(1) y(2) show ?thesis by (simp add: ctx_ok_def)
qed

section \<open>Feeding network data\<close>

text \<open>
  Documented behaviour of \<open>BIO_write\<close> on a pair: it takes between one byte and all of them, or returns
  -1 when the pair is full. \<open>fed\<close> is the byte stream OpenSSL has been given so far; nothing else adds
  to it.
\<close>

definition bio_pair_ok :: "('s, 'u, 'c) tls_env \<Rightarrow> bool" where
  "bio_pair_ok E = (\<forall>d s. d \<noteq> [] \<longrightarrow> fst (BIO_write E d s) = - 1 \<or> 1 \<le> fst (BIO_write E d s) \<and> fst (BIO_write E d s) \<le> int (length d))"

definition feed_log :: "('s, 'u, 'c) tls_env \<Rightarrow> ('s \<Rightarrow> bytes) \<Rightarrow> bool" where
  "feed_log E fed =
     ((\<forall>d s. fed (snd (BIO_write E d s)) = fed s @ take (nat (fst (BIO_write E d s))) d) \<and>
      (\<forall>s. fed (snd (SSL_do_handshake E s)) = fed s \<and> fed (snd (SSL_shutdown E s)) = fed s) \<and>
      (\<forall>n s. fed (snd (snd (SSL_read E n s))) = fed s \<and> fed (snd (snd (BIO_read E n s))) = fed s) \<and>
      (\<forall>f b c. fed (c_ssl (snd (net_write E f b c))) = fed (c_ssl c)) \<and>
      (\<forall>f ev c c'. run_cb E f ev c = Inr c' \<longrightarrow> fed (c_ssl c') = fed (c_ssl c)))"

lemma feed_logD:
  assumes "feed_log E fed"
  shows "SSL_do_handshake E s = (r, s') \<Longrightarrow> fed s' = fed s" "SSL_shutdown E s = (r, s') \<Longrightarrow> fed s' = fed s"
    "SSL_read E n s = (r, b, s') \<Longrightarrow> fed s' = fed s" "BIO_read E n s = (r, b, s') \<Longrightarrow> fed s' = fed s"
    "net_write E f b c = (r, c') \<Longrightarrow> fed (c_ssl c') = fed (c_ssl c)"
    "run_cb E f ev c = Inr c' \<Longrightarrow> fed (c_ssl c') = fed (c_ssl c)"
  using assms unfolding feed_log_def by (metis snd_conv)+

lemma send_pending_fed:
  assumes "feed_log E fed" "evt__send_pending E c = Inr (r, c')"
  shows "fed (c_ssl c') = fed (c_ssl c)"
  using assms(2) by (auto simp: evt__send_pending_def Let_def feed_logD [OF assms(1)]
      dest!: feed_logD(5) [OF assms(1)] feed_logD(4) [OF assms(1)] split: prod.splits if_splits option.splits)

lemma call_fed:
  assumes "feed_log E fed"
  shows "may_call E cb ev c = Inr c' \<Longrightarrow> fed (c_ssl c') = fed (c_ssl c)"
    "must_call E cb ev c = Inr c' \<Longrightarrow> fed (c_ssl c') = fed (c_ssl c)"
  by (auto simp: may_call_def must_call_def dest: feed_logD(6) [OF assms] split: option.splits)

lemma shutdown_fed:
  assumes "feed_log E fed" "handle_shutdown E c = Inr (r, c')"
  shows "fed (c_ssl c') = fed (c_ssl c)"
  using assms(2) by (auto simp: handle_shutdown_def res_bind_eq_Inr split: prod.splits if_splits
      dest!: send_pending_fed [OF assms(1)] call_fed [OF assms(1)] feed_logD(2) [OF assms(1)])

lemma op_fed:
  assumes "feed_log E fed" "evt__tls__op E op [] c = Inr (r, c')"
  shows "fed (c_ssl c') = fed (c_ssl c)"
proof (cases op)
  case EVT_TLS_OP_HANDSHAKE
  with assms(2) show ?thesis
    by (auto simp: evt__tls__op_def op_handshake_def res_bind_eq_Inr split: prod.splits if_splits
      dest!: send_pending_fed [OF assms(1)] call_fed [OF assms(1)] feed_logD(1) [OF assms(1)])
next
  case EVT_TLS_OP_READ
  with assms(2) show ?thesis
    by (auto simp: evt__tls__op_def op_read_def Let_def res_bind_eq_Inr split: prod.splits if_splits
      dest!: send_pending_fed [OF assms(1)] shutdown_fed [OF assms(1)] call_fed [OF assms(1)] feed_logD(3) [OF assms(1)])
next
  case EVT_TLS_OP_WRITE
  with assms(2) show ?thesis by (simp add: evt__tls__op_def op_write_def)
next
  case EVT_TLS_OP_SHUTDOWN
  with assms(2) show ?thesis
    by (auto simp: evt__tls__op_def op_shutdown_def res_bind_eq_Inr split: prod.splits if_splits
      dest!: send_pending_fed [OF assms(1)] call_fed [OF assms(1)] feed_logD(2) [OF assms(1)])
qed

text \<open>One round of the loop in which the pair takes some bytes, and a run of such rounds that ends at a full pair.\<close>

abbreviation feed_op :: "('s, 'u, 'c) tls_env \<Rightarrow> 's \<Rightarrow> ('s, 'u, 'c) conn \<Rightarrow> tls_error + int \<times> ('s, 'u, 'c) conn" where
  "feed_op E s c \<equiv> evt__tls__op E (if evt_tls_is_handshake_over E (c\<lparr>c_ssl := s\<rparr>) then EVT_TLS_OP_READ else EVT_TLS_OP_HANDSHAKE) []
     (c\<lparr>c_ssl := s\<rparr>)"

inductive feed_round :: "('s, 'u, 'c) tls_env \<Rightarrow> bytes \<Rightarrow> nat \<times> ('s, 'u, 'c) conn \<Rightarrow> nat \<times> ('s, 'u, 'c) conn \<Rightarrow> bool" for E data where
  taken: "k < length data \<Longrightarrow> BIO_write E (drop k data) (c_ssl c) = (int i, s) \<Longrightarrow> 0 < i \<Longrightarrow> feed_op E s c = Inr (rv, c') \<Longrightarrow>
    feed_round E data (k, c) (k + i, c')"

definition refused_at :: "('s, 'u, 'c) tls_env \<Rightarrow> bytes \<Rightarrow> nat \<Rightarrow> ('s, 'u, 'c) conn \<Rightarrow> nat \<Rightarrow> ('s, 'u, 'c) conn \<Rightarrow> bool" where
  "refused_at E data m c k c1 \<longleftrightarrow> (feed_round E data)\<^sup>*\<^sup>* (m, c) (k, c1) \<and> k < length data \<and>
     fst (BIO_write E (drop k data) (c_ssl c1)) = - 1"

lemma feed_round_fed:
  assumes "feed_log E fed" "feed_round E data (k, c) (k', c')" "fed (c_ssl c) = pre @ take k data"
  shows "fed (c_ssl c') = pre @ take k' data"
  using assms(2)
proof cases
  case (taken i s rv)
  have "fed (c_ssl c') = fed s" using op_fed [OF assms(1) taken(5)] by simp
  also have "\<dots> = fed (c_ssl c) @ take (nat (int i)) (drop k data)"
    using assms(1) taken(3) unfolding feed_log_def by (metis fst_conv snd_conv)
  finally show ?thesis using assms(3) taken(1) by (simp add: take_add)
qed

lemma feed_rounds_fed:
  assumes "feed_log E fed" "(feed_round E data)\<^sup>*\<^sup>* (0, c) x"
  shows "fed (c_ssl (snd x)) = fed (c_ssl c) @ take (fst x) data"
  using assms(2)
proof (induction rule: rtranclp_induct)
  case (step y z)
  then show ?case using feed_round_fed [OF assms(1), of data "fst y" "snd y" "fst z" "snd z"] by simp
qed simp

text \<open>The loop is a run of such rounds, up to the first write that is refused.\<close>

lemma feed_loop_taken:
  assumes "k < length data" "BIO_write E (drop k data) (c_ssl c) = (int i, s)" "feed_op E s c = Inr (rv1, c1)"
  shows "feed_loop E (Suc f) data (int k) rv c = feed_loop E f data (int (k + i)) rv1 c1"
  using assms by (subst feed_loop.simps) (simp add: Let_def)

lemma feed_write_cases:
  assumes "bio_pair_ok E" "k < length data"
  obtains "fst (BIO_write E (drop k data) s) = - 1"
    | i s' where "BIO_write E (drop k data) s = (int i, s')" "0 < i" "k + i \<le> length data"
proof -
  obtain n s' where b: "BIO_write E (drop k data) s = (n, s')" by fastforce
  have "drop k data \<noteq> []" using assms(2) by simp
  then have "n = - 1 \<or> 1 \<le> n \<and> n \<le> int (length (drop k data))" using assms(1) b unfolding bio_pair_ok_def by (metis fst_conv)
  then show thesis using that(1) that(2) [of "nat n" s'] b assms(2) by (auto simp: nat_le_iff)
qed

lemma refused_step:
  assumes "feed_round E data (m, c) (m', c')" "refused_at E data m' c' k c1"
  shows "refused_at E data m c k c1"
  using assms unfolding refused_at_def by (meson converse_rtranclp_into_rtranclp)

lemma feed_loop_run:
  assumes "bio_pair_ok E"
  shows "m \<le> length data \<Longrightarrow> feed_loop E f data (int m) rv c = Inr (r, c') \<Longrightarrow>
    (feed_round E data)\<^sup>*\<^sup>* (m, c) (length data, c') \<or> (\<exists>k c1. refused_at E data m c k c1)"
proof (induction f arbitrary: m rv c)
  case 0
  then show ?case by (subst (asm) feed_loop.simps) (auto split: if_splits)
next
  case (Suc f)
  show ?case
  proof (cases "m < length data")
    case True
    from assms True show ?thesis
    proof (cases rule: feed_write_cases [where s = "c_ssl c"])
      case 1
      then show ?thesis using True unfolding refused_at_def by blast
    next
      case (2 i s)
      obtain rv1 c1 where o: "feed_op E s c = Inr (rv1, c1)"
        using Suc.prems(2) True 2(1) by (subst (asm) feed_loop.simps) (auto simp: res_bind_eq_Inr Let_def)
      then have "feed_loop E f data (int (m + i)) rv1 c1 = Inr (r, c')"
        using Suc.prems(2) feed_loop_taken [OF True 2(1) o] by simp
      note IH = Suc.IH [OF 2(3) this]
      have "feed_round E data (m, c) (m + i, c1)" by (rule taken [OF True 2(1,2) o])
      with IH show ?thesis by (meson converse_rtranclp_into_rtranclp refused_step)
    qed
  next
    case False
    then show ?thesis using Suc.prems by (subst (asm) feed_loop.simps) auto
  qed
qed

text \<open>Callbacks may fail an assertion of their own, but do not end in the two errors of the loop.\<close>

definition cb_sound :: "('s, 'u, 'c) tls_env \<Rightarrow> bool" where
  "cb_sound E = (\<forall>f ev c. run_cb E f ev c \<noteq> Inl LoopFuel \<and> run_cb E f ev c \<noteq> Inl ReadOutOfBounds)"

lemma op_sound:
  assumes "cb_sound E" "e = LoopFuel \<or> e = ReadOutOfBounds"
  shows "evt__tls__op E op buf c \<noteq> Inl e"
proof -
  have p: "evt__send_pending E c \<noteq> Inl e" for c
    using assms(2) by (auto simp: evt__send_pending_def Let_def split: prod.splits option.splits)
  have m: "may_call E cb ev c \<noteq> Inl e" "must_call E cb ev c \<noteq> Inl e" for cb ev c
    using assms by (auto simp: may_call_def must_call_def cb_sound_def split: option.splits)
  have h: "handle_shutdown E c \<noteq> Inl e" for c
    by (auto simp: handle_shutdown_def res_bind_eq_Inl p m split: prod.splits if_splits)
  show ?thesis using assms(2)
    by (cases op) (auto simp: evt__tls__op_def op_handshake_def op_read_def op_write_def op_shutdown_def
        Let_def res_bind_eq_Inl p m h split: prod.splits if_splits)
qed

lemma feed_loop_ends:
  assumes "bio_pair_ok E" "cb_sound E"
  shows "m \<le> length data \<Longrightarrow> length data \<le> m + f \<Longrightarrow>
    feed_loop E f data (int m) rv c \<noteq> Inl LoopFuel \<and> feed_loop E f data (int m) rv c \<noteq> Inl ReadOutOfBounds \<or>
    (\<exists>k c1. refused_at E data m c k c1)"
proof (induction f arbitrary: m rv c)
  case 0
  then show ?case by (subst (1 2) feed_loop.simps) simp
next
  case (Suc f)
  show ?case
  proof (cases "m < length data")
    case True
    from assms(1) True show ?thesis
    proof (cases rule: feed_write_cases [where s = "c_ssl c"])
      case 1
      then show ?thesis using True unfolding refused_at_def by blast
    next
      case (2 i s)
      show ?thesis
      proof (cases "feed_op E s c")
        case (Inl e)
        have "feed_loop E (Suc f) data (int m) rv c = Inl e"
          using True 2(1) Inl by (subst feed_loop.simps) (simp add: Let_def)
        moreover have "e \<noteq> LoopFuel" "e \<noteq> ReadOutOfBounds" using Inl op_sound [OF assms(2)] by metis+
        ultimately show ?thesis by simp
      next
        case (Inr x)
        obtain rv1 c1 where o: "feed_op E s c = Inr (rv1, c1)" using Inr by (cases x) simp
        have "feed_round E data (m, c) (m + i, c1)" by (rule taken [OF True 2(1,2) o])
        then show ?thesis
          using Suc.IH [OF 2(3), of rv1 c1] Suc.prems(2) 2(2) feed_loop_taken [OF True 2(1) o, of f rv]
          by (auto dest: refused_step)
      qed
    qed
  next
    case False
    then show ?thesis by (subst (1 2) feed_loop.simps) simp
  qed
qed

section \<open>Properties\<close>

text \<open>
  C39: what is received from the network reaches OpenSSL once and in order, as long as the BIO pair has
  room: when \<open>evt_tls_feed_data\<close> returns, either the bytes given to the BIO have grown by exactly the
  data, or the loop has come to a write that the full pair refused with -1, and up to there the BIO
  had been given a prefix of the data. (What the loop does then is to step back one byte.)
\<close>

theorem feed_data_in_order:
  assumes "bio_pair_ok E" "feed_log E fed" "evt_tls_feed_data E f data c = Inr (r, c')"
  shows "fed (c_ssl c') = fed (c_ssl c) @ data \<or>
    (\<exists>k c1. refused_at E data 0 c k c1 \<and> fed (c_ssl c1) = fed (c_ssl c) @ take k data)"
proof -
  have "feed_loop E f data (int 0) 0 c = Inr (r, c')" using assms(3) by (simp add: evt_tls_feed_data_def split: if_splits)
  from feed_loop_run [OF assms(1) _ this] show ?thesis
    using feed_rounds_fed [OF assms(2), of data c] unfolding refused_at_def by fastforce
qed

text \<open>
  unless the BIO pair refuses a write, one round per byte is enough for the loop of
  \<open>evt_tls_feed_data\<close>, and it never reads before the buffer.
\<close>

theorem feed_data_terminates:
  assumes "bio_pair_ok E" "cb_sound E" "length data \<le> f"
  shows "evt_tls_feed_data E f data c \<noteq> Inl LoopFuel \<and> evt_tls_feed_data E f data c \<noteq> Inl ReadOutOfBounds \<or>
    (\<exists>k c1. refused_at E data 0 c k c1)"
  using feed_loop_ends [OF assms(1,2), of 0 data f 0 c] assms(3) by (auto simp: evt_tls_feed_data_def)

text \<open>
  when the BIO is full and \<open>BIO_write\<close> returns -1, the offset becomes negative and the next
  round reads before the buffer: the error condition is not handled.
\<close>

theorem feed_data_full_bio:
  assumes "BIO_write E data (c_ssl c) = (- 1, s)" "data \<noteq> []" "2 \<le> f"
    and "evt__tls__op E (if SSL_is_init_finished E s then EVT_TLS_OP_READ else EVT_TLS_OP_HANDSHAKE) []
      (c\<lparr>c_ssl := s\<rparr>) = Inr (r, c')"
  shows "evt_tls_feed_data E f data c = Inl ReadOutOfBounds"
proof -
  obtain g where "f = Suc (Suc g)" using assms(3) by (metis Suc_le_D numeral_2_eq_2 Suc_le_mono)
  then show ?thesis using assms(1,2,4)
    by (simp add: evt_tls_feed_data_def feed_loop.simps evt_tls_is_handshake_over_def Let_def)
qed

text \<open>
  after a successful \<open>SSL_write\<close> the pending ciphertext is handed to the writer before the write
  callback runs, which runs once, with the number of bytes written.
\<close>

theorem write_flushes_then_calls:
  assumes "SSL_write E msg (c_ssl c) = (r, s)" "0 < r" "msg \<noteq> []"
    and "BIO_pending E s = p" "0 < p" "BIO_read E (nat p) s = (p, out, s')" "c_writer c = Some w"
    and "net_write E w out (c\<lparr>c_write := Some f, c_ssl := s'\<rparr>) = (n, c')" "c_write c' = Some f"
  shows "evt_tls_write E msg (Some f) c = res_bind (run_cb E f (OnWrite r) c') (\<lambda>c. Inr (r, c))"
  using assms by (simp add: evt_tls_write_def evt__tls__op_def op_write_def evt__send_pending_def
      may_call_def Let_def)

text \<open>
  a peer that closes the stream (\<open>SSL_read\<close> returns 0) is answered by \<open>SSL_shutdown\<close>; the close
  callback runs only when the shutdown is complete in both directions.
\<close>

theorem read_eof_shuts_down:
  assumes "SSL_read E (16 * 1024) (c_ssl c) = (0, b, s)" "SSL_shutdown E s = (r, s')" "BIO_pending E s' = 0"
  shows "evt__tls__op E EVT_TLS_OP_READ [] c =
    (if r = 1 then res_bind (may_call E (c_close c) (OnClose 1) (c\<lparr>c_ssl := s'\<rparr>)) (\<lambda>c. Inr (1, c))
     else Inr (r, c\<lparr>c_ssl := s'\<rparr>))"
  using assms by (simp add: evt__tls__op_def op_read_def handle_shutdown_def evt__send_pending_def Let_def)

end
