(* ===== verification/UvTls.thy ===== *)
theory UvTls
  imports EvtTls
begin

text \<open>
  \<open>AsyncIO/TLS/uv_tls.c\<close>: the layer that connects \<open>evt_tls\<close> to a libuv TCP handle. Its static
  functions are the callbacks of the lower layer, so the environment of \<open>evt_tls\<close> is built here;
  libuv and the application's own callbacks are the parameters \<open>uv_env\<close>.
\<close>

datatype uv_cb = On_hd_complete | On_hshake | Evt_on_rd | On_close | On_evt_write | Uv_tls_writer

datatype app_event =
    HandshakeDone int
  | ReadDone int "bytes option"
  | WriteDone int

record ('h, 'n) uv_tls =
  u_rd_cb :: "'h option"
  u_cls_cb :: "'h option"
  u_hsk_cb :: "'h option"
  u_wr_cb :: "'h option"
  u_tcp :: 'n

type_synonym ('s, 'h, 'n) uv_conn = "('s, ('h, 'n) uv_tls, uv_cb) conn"

record ('s, 'h, 'n) uv_env =
  ossl :: "('s, ('h, 'n) uv_tls, uv_cb) tls_env"   \<comment> \<open>the OpenSSL functions; its last two fields are replaced\<close>
  uv_is_writable :: "'n \<Rightarrow> bool"
  uv_try_write :: "bytes \<Rightarrow> 'n \<Rightarrow> int \<times> 'n"
  uv_read_start :: "'n \<Rightarrow> int \<times> 'n"
  uv_read_stop :: "'n \<Rightarrow> 'n"
  uv_is_closing :: "'n \<Rightarrow> bool"
  uv_close :: "'n \<Rightarrow> 'n"
  run_app :: "'h \<Rightarrow> app_event \<Rightarrow> ('s, ('h, 'n) uv_tls, uv_cb) conn \<Rightarrow> tls_error + ('s, ('h, 'n) uv_tls, uv_cb) conn"

definition upd_data :: "(('h, 'n) uv_tls \<Rightarrow> ('h, 'n) uv_tls) \<Rightarrow> ('s, 'h, 'n) uv_conn \<Rightarrow> ('s, 'h, 'n) uv_conn" where
  "upd_data f c = c\<lparr>c_data := f (c_data c)\<rparr>"

definition upd_tcp :: "('n \<Rightarrow> 'n) \<Rightarrow> ('s, 'h, 'n) uv_conn \<Rightarrow> ('s, 'h, 'n) uv_conn" where
  "upd_tcp f = upd_data (\<lambda>u. u\<lparr>u_tcp := f (u_tcp u)\<rparr>)"

definition tcp_hdl :: "('s, 'h, 'n) uv_conn \<Rightarrow> 'n" where
  "tcp_hdl c = u_tcp (c_data c)"

definition app_call :: "('s, 'h, 'n) uv_env \<Rightarrow> 'h option \<Rightarrow> app_event \<Rightarrow> ('s, 'h, 'n) uv_conn \<Rightarrow> tls_error + ('s, 'h, 'n) uv_conn" where
  "app_call U cb ev c = (case cb of None \<Rightarrow> Inl AssertFailed | Some h \<Rightarrow> run_app U h ev c)"

section \<open>Callbacks of the lower layer\<close>

definition uv_tls_writer :: "('s, 'h, 'n) uv_env \<Rightarrow> bytes \<Rightarrow> ('s, 'h, 'n) uv_conn \<Rightarrow> int \<times> ('s, 'h, 'n) uv_conn" where
  "uv_tls_writer U b c =
     (if uv_is_writable U (tcp_hdl c)
      then case uv_try_write U b (tcp_hdl c) of (rv, n) \<Rightarrow> (rv, upd_tcp (\<lambda>_. n) c)
      else (0, c))"

definition on_hd_complete :: "('s, 'h, 'n) uv_env \<Rightarrow> int \<Rightarrow> ('s, 'h, 'n) uv_conn \<Rightarrow> tls_error + ('s, 'h, 'n) uv_conn" where
  "on_hd_complete U status c =
     (if u_hsk_cb (c_data c) = None then Inl AssertFailed
      else let c = upd_tcp (uv_read_stop U) c
        in app_call U (u_hsk_cb (c_data c)) (HandshakeDone (status - 1)) c)"

definition on_hshake :: "('s, 'h, 'n) uv_env \<Rightarrow> int \<Rightarrow> ('s, 'h, 'n) uv_conn \<Rightarrow> tls_error + ('s, 'h, 'n) uv_conn" where
  "on_hshake U status c =
     (if u_hsk_cb (c_data c) = None then Inl AssertFailed
      else let c = upd_tcp (uv_read_stop U) c
        in app_call U (u_hsk_cb (c_data c)) (HandshakeDone (status - 1)) c)"

definition evt_on_rd :: "('s, 'h, 'n) uv_env \<Rightarrow> bytes option \<Rightarrow> int \<Rightarrow> ('s, 'h, 'n) uv_conn \<Rightarrow> tls_error + ('s, 'h, 'n) uv_conn" where
  "evt_on_rd U bfr sz c = app_call U (u_rd_cb (c_data c)) (ReadDone sz bfr) c"

definition on_close :: "('s, 'h, 'n) uv_env \<Rightarrow> ('s, 'h, 'n) uv_conn \<Rightarrow> tls_error + ('s, 'h, 'n) uv_conn" where
  "on_close U c =
     (if u_cls_cb (c_data c) = None then Inl AssertFailed
      else if uv_is_closing U (tcp_hdl c) then Inr c else Inr (upd_tcp (uv_close U) c))"

definition on_evt_write :: "('s, 'h, 'n) uv_env \<Rightarrow> int \<Rightarrow> ('s, 'h, 'n) uv_conn \<Rightarrow> tls_error + ('s, 'h, 'n) uv_conn" where
  "on_evt_write U status c = app_call U (u_wr_cb (c_data c)) (WriteDone status) c"

text \<open>Calling a function pointer of this layer; a mismatch of kinds cannot happen in C.\<close>

fun dispatch :: "('s, 'h, 'n) uv_env \<Rightarrow> uv_cb \<Rightarrow> tls_event \<Rightarrow> ('s, 'h, 'n) uv_conn \<Rightarrow> tls_error + ('s, 'h, 'n) uv_conn" where
  "dispatch U On_hd_complete (OnHandshake r) c = on_hd_complete U r c"
| "dispatch U On_hshake (OnHandshake r) c = on_hshake U r c"
| "dispatch U Evt_on_rd (OnRead b n) c = evt_on_rd U b n c"
| "dispatch U On_close (OnClose r) c = on_close U c"
| "dispatch U On_evt_write (OnWrite r) c = on_evt_write U r c"
| "dispatch U _ _ c = Inl AssertFailed"

definition uv_tls_env :: "('s, 'h, 'n) uv_env \<Rightarrow> ('s, ('h, 'n) uv_tls, uv_cb) tls_env" where
  "uv_tls_env U = (ossl U)\<lparr>net_write := (\<lambda>_ b c. uv_tls_writer U b c), run_cb := dispatch U\<rparr>"

section \<open>Entry points\<close>

definition ERR_TLS_GET_TLS_SESSION :: int where "ERR_TLS_GET_TLS_SESSION = - 5001"

definition uv_tls_init :: "nat option \<Rightarrow> 's option \<Rightarrow> int \<Rightarrow> 'n \<Rightarrow> ('s, ('h, 'n) uv_tls, uv_cb) tls_ctx
    \<Rightarrow> int \<times> nat option \<times> ('s, ('h, 'n) uv_tls, uv_cb) tls_ctx" where
  "uv_tls_init mem ssl_new bio_pair hdl x =
     (case evt_ctx_get_tls mem ssl_new bio_pair \<lparr>u_rd_cb = None, u_cls_cb = None, u_hsk_cb = None, u_wr_cb = None, u_tcp = hdl\<rparr> x of
        (None, x) \<Rightarrow> (ERR_TLS_GET_TLS_SESSION, None, x) | (Some a, x) \<Rightarrow> (0, Some a, x))"

definition on_tcp_read :: "('s, 'h, 'n) uv_env \<Rightarrow> nat \<Rightarrow> int \<Rightarrow> bytes \<Rightarrow> ('s, 'h, 'n) uv_conn \<Rightarrow> tls_error + ('s, 'h, 'n) uv_conn" where
  "on_tcp_read U f nrd data c =
     (if 0 < nrd then res_bind (evt_tls_feed_data (uv_tls_env U) f (take (nat nrd) data) c) (\<lambda>(_, c). Inr c)
      else may_call (uv_tls_env U) (c_read c) (OnRead None nrd) c)"

definition start_reading :: "('s, 'h, 'n) uv_env \<Rightarrow> ('s, 'h, 'n) uv_conn \<Rightarrow> int \<times> ('s, 'h, 'n) uv_conn" where
  "start_reading U c = (case uv_read_start U (tcp_hdl c) of (r, n) \<Rightarrow> (r, upd_tcp (\<lambda>_. n) c))"

definition uv_tls_accept :: "('s, 'h, 'n) uv_env \<Rightarrow> 'h option \<Rightarrow> ('s, 'h, 'n) uv_conn \<Rightarrow> int \<times> ('s, 'h, 'n) uv_conn" where
  "uv_tls_accept U cb c =
     (let c = upd_data (\<lambda>u. u\<lparr>u_hsk_cb := cb\<rparr>) c in
      case evt_tls_accept (uv_tls_env U) (Some On_hd_complete) c of (rv, c) \<Rightarrow>
      case start_reading U c of (_, c) \<Rightarrow> (rv, c))"

definition uv_tls_connect :: "('s, 'h, 'n) uv_env \<Rightarrow> 'h option \<Rightarrow> ('s, 'h, 'n) uv_conn \<Rightarrow> tls_error + int \<times> ('s, 'h, 'n) uv_conn" where
  "uv_tls_connect U cb c =
     res_bind (evt_tls_connect (uv_tls_env U) (Some On_hshake) (upd_data (\<lambda>u. u\<lparr>u_hsk_cb := cb\<rparr>) c))
       (\<lambda>(_, c). Inr (start_reading U c))"

definition uv_tls_read :: "('s, 'h, 'n) uv_env \<Rightarrow> 'h option \<Rightarrow> ('s, 'h, 'n) uv_conn \<Rightarrow> int \<times> ('s, 'h, 'n) uv_conn" where
  "uv_tls_read U cb c =
     (case start_reading U (upd_data (\<lambda>u. u\<lparr>u_rd_cb := cb\<rparr>) c) of (res, c) \<Rightarrow>
      (res, snd (evt_tls_read (Some Evt_on_rd) c)))"

definition uv_tls_write :: "('s, 'h, 'n) uv_env \<Rightarrow> bytes \<Rightarrow> 'h option \<Rightarrow> ('s, 'h, 'n) uv_conn \<Rightarrow> tls_error + int \<times> ('s, 'h, 'n) uv_conn" where
  "uv_tls_write U buf cb c =
     evt_tls_write (uv_tls_env U) buf (Some On_evt_write) (upd_data (\<lambda>u. u\<lparr>u_wr_cb := cb\<rparr>) c)"

definition uv_tls_close :: "('s, 'h, 'n) uv_env \<Rightarrow> 'h option \<Rightarrow> ('s, 'h, 'n) uv_conn \<Rightarrow> tls_error + int \<times> ('s, 'h, 'n) uv_conn" where
  "uv_tls_close U cb c = evt_tls_close (uv_tls_env U) (Some On_close) (upd_data (\<lambda>u. u\<lparr>u_cls_cb := cb\<rparr>) c)"

text \<open>
  When the handle is closed, libuv calls \<open>my_uclose_cb\<close>, which frees the connection and then calls
  the application; the result names the callback to run.
\<close>

definition my_uclose_cb :: "nat \<Rightarrow> ('s, ('h, 'n) uv_tls, uv_cb) tls_ctx \<Rightarrow> tls_error + 'h \<times> ('s, ('h, 'n) uv_tls, uv_cb) tls_ctx" where
  "my_uclose_cb a x =
     (case x_heap x a of None \<Rightarrow> Inl UseAfterFree
      | Some c \<Rightarrow> (case u_cls_cb (c_data c) of None \<Rightarrow> Inl AssertFailed
        | Some h \<Rightarrow> res_bind (evt_tls_free a x) (\<lambda>x. Inr (h, x))))"

definition on_tcp_eof :: "nat \<Rightarrow> ('s, ('h, 'n) uv_tls, uv_cb) tls_ctx \<Rightarrow> tls_error + ('s, ('h, 'n) uv_tls, uv_cb) tls_ctx" where
  "on_tcp_eof a x = evt_tls_free a x"

section \<open>Properties\<close>

lemma conn_fields_upd [simp]:
  "c_ssl (upd_data g c) = c_ssl c" "c_writer (upd_data g c) = c_writer c" "c_hshake (upd_data g c) = c_hshake c"
  "c_read (upd_data g c) = c_read c" "c_write (upd_data g c) = c_write c" "c_close (upd_data g c) = c_close c"
  "c_data (upd_data g c) = g (c_data c)"
  by (simp_all add: upd_data_def)

lemma uv_env_sel [simp]:
  "run_cb (uv_tls_env U) = dispatch U" "net_write (uv_tls_env U) w b c = uv_tls_writer U b c"
  "SSL_do_handshake (uv_tls_env U) = SSL_do_handshake (ossl U)" "SSL_read (uv_tls_env U) = SSL_read (ossl U)"
  "SSL_write (uv_tls_env U) = SSL_write (ossl U)" "SSL_shutdown (uv_tls_env U) = SSL_shutdown (ossl U)"
  "SSL_is_init_finished (uv_tls_env U) = SSL_is_init_finished (ossl U)"
  "SSL_set_connect_state (uv_tls_env U) = SSL_set_connect_state (ossl U)"
  "SSL_set_accept_state (uv_tls_env U) = SSL_set_accept_state (ossl U)"
  "BIO_pending (uv_tls_env U) = BIO_pending (ossl U)" "BIO_read (uv_tls_env U) = BIO_read (ossl U)"
  "BIO_write (uv_tls_env U) = BIO_write (ossl U)"
  by (simp_all add: uv_tls_env_def)

text \<open>
  a finished handshake stops the reading of the handle before the application is told, with
  status 0 for success and -1 for failure, and exactly the application's callback is called.
\<close>

theorem handshake_reports:
  assumes "SSL_do_handshake (ossl U) (SSL_set_connect_state (ossl U) (c_ssl c)) = (r, s)" "r = 0 \<or> r = 1"
    and "BIO_pending (ossl U) s = 0"
  shows "uv_tls_connect U (Some h) c =
    res_bind (run_app U h (HandshakeDone (r - 1))
        (c\<lparr>c_hshake := Some On_hshake, c_ssl := s,
           c_data := c_data c\<lparr>u_hsk_cb := Some h, u_tcp := uv_read_stop U (tcp_hdl c)\<rparr>\<rparr>))
      (\<lambda>c. Inr (start_reading U c))"
  using assms
  by (auto simp: uv_tls_connect_def evt_tls_connect_def evt__tls__op_def op_handshake_def evt__send_pending_def
      must_call_def on_hshake_def app_call_def upd_tcp_def upd_data_def tcp_hdl_def Let_def res_bind_assoc)

text \<open>
  however often a connection is closed, its TCP handle is closed once: \<open>on_close\<close> leaves a
  handle alone that libuv already reports as closing.
\<close>

theorem close_once:
  assumes "\<And>n. uv_is_closing U (uv_close U n)" "on_close U c = Inr c1"
  shows "on_close U c1 = Inr c1 \<and> uv_is_closing U (tcp_hdl c1)"
  using assms by (auto simp: on_close_def upd_tcp_def upd_data_def tcp_hdl_def split: if_splits)

text \<open>
  the close notification of libuv takes the connection out of its context and keeps the
  context consistent; a second notification finds it gone.
\<close>

theorem uclose_frees:
  assumes "ctx_ok x" "my_uclose_cb a x = Inr (h, x')"
  shows "ctx_ok x' \<and> a \<notin> set (x_live x') \<and> my_uclose_cb a x' = Inl UseAfterFree"
  using assms
  by (auto simp: my_uclose_cb_def evt_tls_free_def ctx_ok_def split: option.splits if_splits)

section \<open>A concrete environment\<close>

text \<open>
  An SSL state that keeps the bytes it was given and the ciphertext it owes, a handle that counts
  how often it was closed, and an application that keeps quiet.
\<close>

type_synonym toy_ssl = "bytes \<times> bytes"

definition toy_ossl :: "(toy_ssl, (nat, nat) uv_tls, uv_cb) tls_env" where
  "toy_ossl = \<lparr>SSL_do_handshake = (\<lambda>s. (1, s)), SSL_read = (\<lambda>n s. (- 1, [], s)),
     SSL_write = (\<lambda>b (f, p). (int (length b), (f, p @ b))), SSL_shutdown = (\<lambda>s. (1, s)),
     SSL_is_init_finished = (\<lambda>s. True), SSL_is_server = (\<lambda>s. False),
     SSL_set_accept_state = (\<lambda>s. s), SSL_set_connect_state = (\<lambda>s. s),
     BIO_pending = (\<lambda>(f, p). int (length p)), BIO_read = (\<lambda>n (f, p). (int (length (take n p)), take n p, (f, drop n p))),
     BIO_write = (\<lambda>d (f, p). (int (length d), (f @ d, p))),
     net_write = (\<lambda>w b c. (int (length b), c)), run_cb = (\<lambda>f ev c. Inr c)\<rparr>"

definition toy_uv :: "(toy_ssl, nat, nat) uv_env" where
  "toy_uv = \<lparr>ossl = toy_ossl, uv_is_writable = (\<lambda>n. True), uv_try_write = (\<lambda>b n. (int (length b), n)),
     uv_read_start = (\<lambda>n. (0, n)), uv_read_stop = (\<lambda>n. n), uv_is_closing = (\<lambda>n. 0 < n),
     uv_close = (\<lambda>n. n + 1), run_app = (\<lambda>h ev c. Inr c)\<rparr>"

definition toy_conn :: "(toy_ssl, nat, nat) uv_conn" where
  "toy_conn = \<lparr>c_data = \<lparr>u_rd_cb = None, u_cls_cb = Some 3, u_hsk_cb = None, u_wr_cb = Some 4, u_tcp = 0\<rparr>,
     c_ssl = ([], []), c_writer = Some Uv_tls_writer, c_reader = None, c_hshake = None, c_read = None,
     c_write = None, c_close = None\<rparr>"

lemma toy_sel:
  "BIO_write toy_ossl d (f, p) = (int (length d), (f @ d, p))" "SSL_do_handshake toy_ossl s = (1, s)"
  "SSL_read toy_ossl n s = (- 1, [], s)" "SSL_is_init_finished toy_ossl s" "run_cb toy_ossl f' ev c = Inr c"
  "SSL_shutdown toy_ossl s = (1, s)" "BIO_pending toy_ossl (f, p) = int (length p)"
  "BIO_read toy_ossl n (f, p) = (int (length (take n p)), take n p, (f, drop n p))"
  "SSL_write toy_ossl b (f, p) = (int (length b), (f, p @ b))" "net_write toy_ossl w b c = (int (length b), c)"
  "SSL_set_connect_state toy_ossl s = s"
  by (simp_all add: toy_ossl_def)

text \<open>The same with a pair that holds four bytes, which OpenSSL does not read.\<close>

definition small_ossl :: "(toy_ssl, (nat, nat) uv_tls, uv_cb) tls_env" where
  "small_ossl = toy_ossl\<lparr>BIO_write := (\<lambda>d (f, p). if 4 \<le> length f then (- 1, (f, p))
     else (int (min (length d) (4 - length f)), (f @ take (4 - length f) d, p)))\<rparr>"

lemma small_sel:
  "BIO_write small_ossl d (f, p) = (if 4 \<le> length f then (- 1, (f, p))
     else (int (min (length d) (4 - length f)), (f @ take (4 - length f) d, p)))"
  "SSL_do_handshake small_ossl s = (1, s)" "SSL_read small_ossl n s = (- 1, [], s)" "SSL_is_init_finished small_ossl s"
  "run_cb small_ossl f' ev c = Inr c" "SSL_shutdown small_ossl s = (1, s)" "BIO_pending small_ossl (f, p) = int (length p)"
  "BIO_read small_ossl n (f, p) = (int (length (take n p)), take n p, (f, drop n p))" "net_write small_ossl w b c = (int (length b), c)"
  by (simp_all add: small_ossl_def toy_ossl_def)

lemma small_pair: "bio_pair_ok small_ossl"
  by (auto simp: bio_pair_ok_def small_sel Suc_le_eq)

lemma small_log: "feed_log small_ossl fst"
  by (auto simp: feed_log_def small_sel min_def)

lemma small_sound: "cb_sound small_ossl"
  by (simp add: cb_sound_def small_sel)

lemma toy_conn_sel [simp]: "c_ssl toy_conn = ([], [])" "c_writer toy_conn = Some Uv_tls_writer"
  "c_read toy_conn = None" "c_close toy_conn = None" "u_cls_cb (c_data toy_conn) = Some 3" "tcp_hdl toy_conn = 0"
  by (simp_all add: toy_conn_def tcp_hdl_def)

lemma small_feed: "evt_tls_feed_data small_ossl 3 [1, 2, 3] toy_conn = Inr (- 1, toy_conn\<lparr>c_ssl := ([1, 2, 3], [])\<rparr>)"
  by (simp add: evt_tls_feed_data_def feed_loop.simps small_sel evt_tls_is_handshake_over_def evt__tls__op_def
      op_read_def evt__send_pending_def may_call_def Let_def numeral_3_eq_3)

lemma small_accepts: "\<not> refused_at small_ossl [1, 2, 3] 0 toy_conn k c1"
proof
  assume "refused_at small_ossl [1, 2, 3] 0 toy_conn k c1"
  then have r: "(feed_round small_ossl [1, 2, 3])\<^sup>*\<^sup>* (0, toy_conn) (k, c1)" "k < 3"
    "fst (BIO_write small_ossl (drop k [1, 2, 3]) (c_ssl c1)) = - 1" by (auto simp: refused_at_def)
  then have "fst (c_ssl c1) = take k [1, 2, 3]" using feed_rounds_fed [OF small_log r(1)] by simp
  then show False using r(2,3) by (cases "c_ssl c1") (simp add: small_sel split: if_splits)
qed

lemma feed_data_in_order_witness:
  "evt_tls_feed_data small_ossl 3 [1, 2, 3] toy_conn = Inr (- 1, toy_conn\<lparr>c_ssl := ([1, 2, 3], [])\<rparr>) \<and>
   fst (c_ssl (toy_conn\<lparr>c_ssl := ([1, 2, 3], [])\<rparr>)) = fst (c_ssl toy_conn) @ [1, 2, 3 :: byte]"
  using feed_data_in_order [OF small_pair small_log small_feed] small_feed small_accepts by blast

lemma feed_data_terminates_witness:
  "evt_tls_feed_data small_ossl 4 [1, 2, 3] toy_conn \<noteq> Inl LoopFuel \<and>
   evt_tls_feed_data small_ossl 4 [1, 2, 3] toy_conn \<noteq> Inl ReadOutOfBounds"
  using feed_data_terminates [OF small_pair small_sound, of "[1, 2, 3]" 4 toy_conn] small_accepts by simp

lemma feed_data_full_bio_witness:
  "evt_tls_feed_data (toy_ossl\<lparr>BIO_write := (\<lambda>d s. (- 1, s))\<rparr>) 2 [1, 2, 3] toy_conn = Inl ReadOutOfBounds"
  by (rule feed_data_full_bio [where s = "([], [])"])
    (simp_all add: toy_ossl_def evt__tls__op_def op_read_def evt__send_pending_def may_call_def Let_def)

lemma write_flushes_witness:
  "evt_tls_write toy_ossl [7, 8] (Some On_evt_write) toy_conn =
     Inr (2, toy_conn\<lparr>c_write := Some On_evt_write, c_ssl := ([], [])\<rparr>)"
  by (subst write_flushes_then_calls [where r = 2 and s = "([], [7, 8])" and p = 2 and out = "[7, 8]"
        and s' = "([], [])" and w = Uv_tls_writer and n = 2
        and c' = "toy_conn\<lparr>c_write := Some On_evt_write, c_ssl := ([], [])\<rparr>"])
    (simp_all add: toy_sel)

lemma read_eof_witness:
  "evt__tls__op (toy_ossl\<lparr>SSL_read := (\<lambda>n s. (0, [], s))\<rparr>) EVT_TLS_OP_READ [] toy_conn = Inr (1, toy_conn\<lparr>c_ssl := ([], [])\<rparr>)"
  by (subst read_eof_shuts_down [where b = "[]" and s = "([], [])" and r = 1 and s' = "([], [])"])
    (simp_all add: toy_ossl_def may_call_def)

lemma handshake_reports_witness:
  "uv_tls_connect toy_uv (Some 9) toy_conn = res_bind
     (run_app toy_uv 9 (HandshakeDone 0)
        (toy_conn\<lparr>c_hshake := Some On_hshake, c_ssl := ([], []),
           c_data := c_data toy_conn\<lparr>u_hsk_cb := Some 9, u_tcp := uv_read_stop toy_uv (tcp_hdl toy_conn)\<rparr>\<rparr>))
     (\<lambda>c. Inr (start_reading toy_uv c))"
  by (subst handshake_reports [where r = 1 and s = "([], [])"]) (simp_all add: toy_uv_def toy_sel)

lemma close_once_witness:
  "on_close toy_uv toy_conn = Inr (upd_tcp (\<lambda>n. n + 1) toy_conn) \<and>
   on_close toy_uv (upd_tcp (\<lambda>n. n + 1) toy_conn) = Inr (upd_tcp (\<lambda>n. n + 1) toy_conn)"
proof -
  have first: "on_close toy_uv toy_conn = Inr (upd_tcp (\<lambda>n. n + 1) toy_conn)"
    by (simp add: on_close_def) (simp add: toy_uv_def)
  from close_once [OF _ this] first show ?thesis by (simp add: toy_uv_def)
qed

definition toy_ctx :: "(toy_ssl, (nat, nat) uv_tls, uv_cb) tls_ctx" where
  "toy_ctx = \<lparr>x_ctx = True, x_cert_set = 1, x_key_set = 1, x_ssl_err = 0, x_live = [5],
     x_heap = [5 \<mapsto> toy_conn], x_writer = Some Uv_tls_writer, x_reader = None\<rparr>"

lemma uclose_frees_witness:
  "my_uclose_cb 5 toy_ctx = Inr (3, toy_ctx\<lparr>x_live := [], x_heap := Map.empty\<rparr>) \<and>
   my_uclose_cb 5 (toy_ctx\<lparr>x_live := [], x_heap := Map.empty\<rparr>) = Inl UseAfterFree"
proof -
  have ok: "ctx_ok toy_ctx" by (simp add: ctx_ok_def toy_ctx_def)
  have run: "my_uclose_cb 5 toy_ctx = Inr (3, toy_ctx\<lparr>x_live := [], x_heap := Map.empty\<rparr>)"
    by (simp add: my_uclose_cb_def toy_ctx_def evt_tls_free_def)
  with uclose_frees [OF ok run] show ?thesis by blast
qed

text \<open>
  The signed comparison in \<open>evt_is_tls_stream\<close>: for a record of 128 to 255 bytes the byte
  \<open>bfr[4]\<close> is negative, so the check of the client version \<open>bfr[9]\<close> never applies.
\<close>

lemma tls_stream_signed_length:
  assumes "11 \<le> length bfr" "bfr ! 0 = 0x16" "bfr ! 1 = 0x03" "bfr ! 5 = 1" "bfr ! 3 = 0" "0x80 \<le> bfr ! 4"
  shows "evt_is_tls_stream bfr = Inr 1"
proof -
  have neg: "sint (bfr ! 4) < 0" by (rule sint_neg_byte [OF assms(6)])
  show ?thesis using assms(1-5) neg by (simp add: evt_is_tls_stream_def)
qed

end
