(* ===== verification/MgBase64.thy ===== *)
theory MgBase64
  imports Prelude
begin

text \<open>
  \<open>common/cs_base64.c\<close> in \<open>network/mongoose/mongoose.c\<close>: the streaming encoder, whose output
  callback is a list that grows, the batch encoder and the decoder. All intermediate values fit a
  byte, so \<open>int\<close> arithmetic on them is byte arithmetic.
\<close>

section \<open>Streaming encoder\<close>

record base64_ctx =
  b64_chunk :: bytes
  b64_size :: nat
  b64_out :: bytes

definition b64_putc :: "byte \<Rightarrow> base64_ctx \<Rightarrow> base64_ctx" where
  "b64_putc ch ctx = ctx\<lparr>b64_out := b64_out ctx @ [ch]\<rparr>"

definition b64_code :: "byte \<Rightarrow> byte" where
  "b64_code v =
     (if v < 26 then v + chr CHR ''A''
      else if v < 52 then v - 26 + chr CHR ''a''
      else if v < 62 then v - 52 + chr CHR ''0''
      else if v - 52 - 10 = 0 then chr CHR ''+'' else chr CHR ''/'')"

definition cs_base64_emit_code :: "byte \<Rightarrow> base64_ctx \<Rightarrow> base64_ctx" where
  "cs_base64_emit_code v ctx = b64_putc (b64_code v) ctx"

definition cs_base64_emit_chunk :: "base64_ctx \<Rightarrow> base64_ctx" where
  "cs_base64_emit_chunk ctx =
     (let a = b64_chunk ctx ! 0; b = b64_chunk ctx ! 1; c = b64_chunk ctx ! 2;
          ctx = cs_base64_emit_code (drop_bit 2 a) ctx;
          ctx = cs_base64_emit_code (push_bit 4 (a AND 3) OR drop_bit 4 b) ctx;
          ctx = (if 1 < b64_size ctx then cs_base64_emit_code (push_bit 2 (b AND 15) OR drop_bit 6 c) ctx else ctx)
      in if 2 < b64_size ctx then cs_base64_emit_code (c AND 63) ctx else ctx)"

definition cs_base64_init :: "bytes \<Rightarrow> bytes \<Rightarrow> base64_ctx" where
  "cs_base64_init garbage out = \<lparr>b64_chunk = garbage, b64_size = 0, b64_out = out\<rparr>"

fun cs_base64_update :: "base64_ctx \<Rightarrow> bytes \<Rightarrow> base64_ctx" where
  "cs_base64_update ctx [] = ctx"
| "cs_base64_update ctx (x # src) =
     (let ctx = ctx\<lparr>b64_chunk := (b64_chunk ctx)[b64_size ctx := x], b64_size := b64_size ctx + 1\<rparr>;
          ctx = (if b64_size ctx = 3 then (cs_base64_emit_chunk ctx)\<lparr>b64_size := 0\<rparr> else ctx)
      in cs_base64_update ctx src)"

definition cs_base64_finish :: "base64_ctx \<Rightarrow> base64_ctx" where
  "cs_base64_finish ctx =
     (if 0 < b64_size ctx
      then let n = b64_size ctx;
               ctx = cs_base64_emit_chunk (ctx\<lparr>b64_chunk := take n (b64_chunk ctx) @ replicate (3 - n) 0\<rparr>)
        in ((\<lambda>c. b64_putc (chr CHR ''='') c) ^^ (3 - n)) ctx
      else ctx)"

section \<open>Batch encoder\<close>

definition b64_alphabet :: bytes where
  "b64_alphabet = cstr ''ABCDEFGHIJKLMNOPQRSTUVWXYZabcdefghijklmnopqrstuvwxyz0123456789+/''"

definition b64_at :: "byte \<Rightarrow> byte" where
  "b64_at v = b64_alphabet ! unat v"

text \<open>The \<open>for\<close> loop of \<open>BASE64_ENCODE_BODY\<close>, one group of up to three bytes at a time.\<close>

fun b64_groups :: "bytes \<Rightarrow> bytes" where
  "b64_groups [] = []"
| "b64_groups [a] = [b64_at (drop_bit 2 a), b64_at (push_bit 4 (a AND 3) OR drop_bit 4 0)]"
| "b64_groups [a, b] = [b64_at (drop_bit 2 a), b64_at (push_bit 4 (a AND 3) OR drop_bit 4 b),
     b64_at (push_bit 2 (b AND 15) OR drop_bit 6 0)]"
| "b64_groups (a # b # c # src) = b64_at (drop_bit 2 a) # b64_at (push_bit 4 (a AND 3) OR drop_bit 4 b) #
     b64_at (push_bit 2 (b AND 15) OR drop_bit 6 c) # b64_at (c AND 63) # b64_groups src"

definition b64_pad :: "bytes \<Rightarrow> bytes" where
  "b64_pad dst = dst @ replicate ((4 - length dst mod 4) mod 4) (chr CHR ''='')"

text \<open>
  The batch encoder counts the characters it stores with an \<open>int\<close>: when there are \<open>2^31\<close> or more, the
  count would overflow, which is \<open>None\<close> (what is stored until then is not modelled).
\<close>

definition cs_base64_encode :: "bytes \<Rightarrow> bytes option" where
  "cs_base64_encode src =
     (let dst = b64_pad (b64_groups src) in if length dst < 2 ^ 31 then Some (dst @ [0]) else None)"

lemma b64_pad_length: "length (b64_pad (b64_groups src)) = 4 * ((length src + 2) div 3)"
proof (induction src rule: b64_groups.induct)
  case (4 a b c src)
  have "(length (a # b # c # src) + 2) div 3 = Suc ((length src + 2) div 3)" by simp
  moreover have "length (b64_pad (b64_groups (a # b # c # src))) = 4 + length (b64_pad (b64_groups src))"
    by (simp add: b64_pad_def)
  ultimately show ?case using 4 by simp
qed (simp_all add: b64_pad_def)

lemma cs_base64_encode_fits: "4 * ((length src + 2) div 3) < 2 ^ 31 \<Longrightarrow> cs_base64_encode src = Some (b64_pad (b64_groups src) @ [0])"
  by (simp add: cs_base64_encode_def b64_pad_length)

section \<open>Decoder\<close>

definition b64_tab :: "nat list" where
  "b64_tab =
     [255, 255, 255, 255, 255, 255, 255, 255, 255, 255, 255, 255, 255, 255, 255, 255,
      255, 255, 255, 255, 255, 255, 255, 255, 255, 255, 255, 255, 255, 255, 255, 255,
      255, 255, 255, 255, 255, 255, 255, 255, 255, 255, 255, 62, 255, 255, 255, 63,
      52, 53, 54, 55, 56, 57, 58, 59, 60, 61, 255, 255, 255, 200, 255, 255,
      255, 0, 1, 2, 3, 4, 5, 6, 7, 8, 9, 10, 11, 12, 13, 14,
      15, 16, 17, 18, 19, 20, 21, 22, 23, 24, 25, 255, 255, 255, 255, 255,
      255, 26, 27, 28, 29, 30, 31, 32, 33, 34, 35, 36, 37, 38, 39, 40,
      41, 42, 43, 44, 45, 46, 47, 48, 49, 50, 51, 255, 255, 255, 255, 255]"

definition from_b64 :: "byte \<Rightarrow> byte" where
  "from_b64 ch = of_nat (b64_tab ! unat (ch AND 127))"

text \<open>
  The loop of \<open>cs_base64_decode\<close> on the \<open>len\<close> bytes that are left: the number of bytes consumed and
  the bytes stored.
\<close>

fun b64_decode_loop :: "bytes \<Rightarrow> nat \<times> bytes" where
  "b64_decode_loop (s0 # s1 # s2 # s3 # s) =
     (let a = from_b64 s0; b = from_b64 s1; c = from_b64 s2; d = from_b64 s3 in
      if a = 255 \<or> b = 255 \<or> c = 255 \<or> d = 255 then (0, [])
      else if a = 200 \<or> b = 200 then (4, [])
      else let x = push_bit 2 a OR drop_bit 4 b in
        if c = 200 then (4, [x])
        else let y = push_bit 4 b OR drop_bit 2 c in
          if d = 200 then (4, [x, y])
          else let z = push_bit 6 c OR d; (n, out) = b64_decode_loop s in (n + 4, x # y # z # out))"
| "b64_decode_loop s = (0, [])"

definition cs_base64_decode :: "bytes \<Rightarrow> nat \<times> nat \<times> bytes" where
  "cs_base64_decode s = (let (n, out) = b64_decode_loop s in (n, length out, out @ [0]))"

section \<open>Codes\<close>


lemma alphabet_codes: "b64_alphabet = [65,66,67,68,69,70,71,72,73,74,75,76,77,78,79,80,81,82,83,84,85,86,87,88,89,90,
  97,98,99,100,101,102,103,104,105,106,107,108,109,110,111,112,113,114,115,116,117,118,119,120,121,122,
  48,49,50,51,52,53,54,55,56,57,43,47]"
  by (simp add: b64_alphabet_def)

lemma upt_64: "[0..<64] = [0,1,2,3,4,5,6,7,8,9,10,11,12,13,14,15,16,17,18,19,20,21,22,23,24,25,26,27,28,29,30,31,
  32,33,34,35,36,37,38,39,40,41,42,43,44,45,46,47,48,49,50,51,52,53,54,55,56,57,58,59,60,61,62,63]"
  by (simp add: upt_rec)

lemma all_decoded: "\<forall>n \<in> set [0..<64]. from_b64 (b64_at (of_nat n)) = of_nat n"
  by (simp add: upt_64 b64_at_def alphabet_codes from_b64_def b64_tab_def)

lemma all_coded: "\<forall>n \<in> set [0..<64]. b64_code (of_nat n) = b64_at (of_nat n)"
  by (simp add: upt_64 b64_at_def alphabet_codes b64_code_def word_less_nat_alt)

lemma unat_and_64: "unat (take_bit 6 (v :: byte)) = unat v mod 64"
  by (simp only: unsigned_take_bit_eq) (simp add: take_bit_eq_mod)

lemma code_at:
  assumes "take_bit 6 v = (v :: byte)"
  shows "b64_code v = b64_at v" "from_b64 (b64_at v) = v" "v < 64"
proof -
  have "unat v = unat v mod 64"
    using assms unat_and_64 [of v] by simp
  then have lt: "unat v < 64" by (metis mod_less_divisor zero_less_numeral)
  then have m: "unat v \<in> set [0..<64]" by simp
  show "b64_code v = b64_at v" using bspec [OF all_coded m] by simp
  show "from_b64 (b64_at v) = v" using bspec [OF all_decoded m] by simp
  show "v < 64" using lt by (simp add: word_less_nat_alt)
qed

lemma byte_masks:
  "(a :: byte) AND 3 = take_bit 2 a" "a AND 15 = take_bit 4 a" "a AND 63 = take_bit 6 a"
  by (simp_all add: take_bit_eq_mask mask_eq_exp_minus_1)

lemmas bit_iffs = bit_take_bit_iff bit_push_bit_iff bit_drop_bit_eq bit_or_iff bit_and_iff

lemma sextets:
  "take_bit 6 (drop_bit 2 (a :: byte)) = drop_bit 2 a"
  "take_bit 6 (push_bit 4 (take_bit 2 a) OR drop_bit 4 b) = push_bit 4 (take_bit 2 a) OR drop_bit 4 (b :: byte)"
  "take_bit 6 (push_bit 2 (take_bit 4 a) OR drop_bit 6 b) = push_bit 2 (take_bit 4 a) OR drop_bit 6 (b :: byte)"
  "take_bit 6 (take_bit 6 (a :: byte)) = take_bit 6 a"
  by (rule byte_bitsI; simp add: bit_iffs)+

lemma sextets_join:
  "push_bit 2 (drop_bit 2 a) OR drop_bit 4 (push_bit 4 (take_bit 2 a) OR drop_bit 4 b) = (a :: byte)"
  "push_bit 4 (push_bit 4 (take_bit 2 a) OR drop_bit 4 b) OR drop_bit 2 (push_bit 2 (take_bit 4 b) OR drop_bit 6 c) = (b :: byte)"
  "push_bit 6 (push_bit 2 (take_bit 4 b) OR drop_bit 6 c) OR take_bit 6 c = (c :: byte)"
  by (rule byte_bitsI; simp add: bit_iffs)+

section \<open>Decoding what was encoded\<close>

lemma from_b64_pad: "from_b64 (chr CHR ''='') = 200"
  by (simp add: from_b64_def b64_tab_def)

lemma decoded_sextet:
  assumes "take_bit 6 v = (v :: byte)"
  shows "from_b64 (b64_at v) = v" "v \<noteq> 255" "v \<noteq> 200"
  using code_at [OF assms] by (auto simp: word_less_nat_alt)

text \<open>The four sextets of a group, kept folded in proofs.\<close>

definition sx0 :: "byte \<Rightarrow> byte" where "sx0 a = drop_bit 2 a"
definition sx1 :: "byte \<Rightarrow> byte \<Rightarrow> byte" where "sx1 a b = push_bit 4 (a AND 3) OR drop_bit 4 b"
definition sx2 :: "byte \<Rightarrow> byte \<Rightarrow> byte" where "sx2 b c = push_bit 2 (b AND 15) OR drop_bit 6 c"
definition sx3 :: "byte \<Rightarrow> byte" where "sx3 c = c AND 63"

lemmas sx_defs = sx0_def sx1_def sx2_def sx3_def

lemma sx_bounds: "take_bit 6 (sx0 a) = sx0 a" "take_bit 6 (sx1 a b) = sx1 a b" "take_bit 6 (sx2 b c) = sx2 b c"
  "take_bit 6 (sx3 c) = sx3 c"
  unfolding sx_defs byte_masks by (rule sextets)+

lemmas sx_decoded [simp] = decoded_sextet [OF sx_bounds(1)] decoded_sextet [OF sx_bounds(2)]
  decoded_sextet [OF sx_bounds(3)] decoded_sextet [OF sx_bounds(4)]

lemmas sx_coded [simp] = code_at(1) [OF sx_bounds(1)] code_at(1) [OF sx_bounds(2)]
  code_at(1) [OF sx_bounds(3)] code_at(1) [OF sx_bounds(4)]

lemma sx_join [simp]: "push_bit 2 (sx0 a) OR drop_bit 4 (sx1 a b) = a"
  "push_bit 4 (sx1 a b) OR drop_bit 2 (sx2 b c) = b" "push_bit 6 (sx2 b c) OR sx3 c = c"
  unfolding sx_defs byte_masks by (rule sextets_join)+

lemma groups_sx:
  "b64_groups [a] = [b64_at (sx0 a), b64_at (sx1 a 0)]"
  "b64_groups [a, b] = [b64_at (sx0 a), b64_at (sx1 a b), b64_at (sx2 b 0)]"
  "b64_groups (a # b # c # src) = b64_at (sx0 a) # b64_at (sx1 a b) # b64_at (sx2 b c) # b64_at (sx3 c) # b64_groups src"
  by (simp_all only: b64_groups.simps sx_defs)

declare b64_groups.simps(2-4) [simp del] groups_sx [simp]

lemma replicate_2: "replicate 2 x = [x, x]"
  and funpow_2: "f ^^ 2 = (\<lambda>x. f (f x))"
  by (simp_all add: numeral_2_eq_2 fun_eq_iff)

lemma b64_pad_cons4: "b64_pad (w # x # y # z # g) = w # x # y # z # b64_pad g"
  by (simp add: b64_pad_def mod_Suc)

lemma decode_loop_encoded: "b64_decode_loop (b64_pad (b64_groups src)) = (length (b64_pad (b64_groups src)), src)"
proof (induction src rule: b64_groups.induct)
  case 1
  then show ?case by (simp add: b64_pad_def)
next
  case (2 a)
  then show ?case by (simp add: b64_pad_def from_b64_pad [simplified] Let_def replicate_2)
next
  case (3 a b)
  then show ?case by (simp add: b64_pad_def from_b64_pad [simplified] Let_def)
next
  case (4 a b c src)
  then show ?case by (simp add: b64_pad_cons4 Let_def)
qed

section \<open>Streaming and batch encoding agree\<close>

lemma emit_chunk_sx: "cs_base64_emit_chunk \<lparr>b64_chunk = [a, b, c], b64_size = n, b64_out = out\<rparr> =
   \<lparr>b64_chunk = [a, b, c], b64_size = n, b64_out = out @ b64_at (sx0 a) # b64_at (sx1 a b) #
     (if 1 < n then [b64_at (sx2 b c)] else []) @ (if 2 < n then [b64_at (sx3 c)] else [])\<rparr>"
  unfolding cs_base64_emit_chunk_def sx_defs [symmetric] cs_base64_emit_code_def b64_putc_def Let_def
  by simp

lemma length_3_conv: "length ch = 3 \<longleftrightarrow> (\<exists>x y z. ch = [x, y, z])"
  by (auto simp: numeral_3_eq_3 length_Suc_conv)

lemma update_1:
  "cs_base64_update \<lparr>b64_chunk = [x, y, z], b64_size = 0, b64_out = out\<rparr> (a # src) =
   cs_base64_update \<lparr>b64_chunk = [a, y, z], b64_size = 1, b64_out = out\<rparr> src"
  "cs_base64_update \<lparr>b64_chunk = [x, y, z], b64_size = 1, b64_out = out\<rparr> (a # src) =
   cs_base64_update \<lparr>b64_chunk = [x, a, z], b64_size = 2, b64_out = out\<rparr> src"
  "cs_base64_update \<lparr>b64_chunk = [x, y, z], b64_size = 2, b64_out = out\<rparr> (a # src) =
   cs_base64_update \<lparr>b64_chunk = [x, y, a], b64_size = 0, b64_out = out @ b64_groups [x, y, a]\<rparr> src"
  by (simp_all add: emit_chunk_sx numeral_2_eq_2 [symmetric] del: numeral_2_eq_2)

lemma finish_cases:
  "cs_base64_finish \<lparr>b64_chunk = ch, b64_size = 0, b64_out = out\<rparr> = \<lparr>b64_chunk = ch, b64_size = 0, b64_out = out\<rparr>"
  "b64_out (cs_base64_finish \<lparr>b64_chunk = [a, y, z], b64_size = 1, b64_out = out\<rparr>) = out @ b64_pad (b64_groups [a])"
  "b64_out (cs_base64_finish \<lparr>b64_chunk = [a, b, z], b64_size = 2, b64_out = out\<rparr>) = out @ b64_pad (b64_groups [a, b])"
  by (simp_all add: cs_base64_finish_def emit_chunk_sx b64_putc_def b64_pad_def replicate_2 funpow_2 Let_def)

lemma stream_all:
  "length ch = 3 \<Longrightarrow> b64_out (cs_base64_finish (cs_base64_update \<lparr>b64_chunk = ch, b64_size = 0, b64_out = out\<rparr> src)) =
    out @ b64_pad (b64_groups src)"
proof (induction src arbitrary: ch out rule: b64_groups.induct)
  case 1
  then show ?case by (simp add: finish_cases b64_pad_def)
next
  case (2 a)
  then obtain x y z where "ch = [x, y, z]" by (auto simp: length_3_conv)
  then show ?case by (simp only: update_1 cs_base64_update.simps(1) finish_cases)
next
  case (3 a b)
  then obtain x y z where "ch = [x, y, z]" by (auto simp: length_3_conv)
  then show ?case by (simp only: update_1 cs_base64_update.simps(1) finish_cases)
next
  case (4 a b c src)
  then obtain x y z where ch: "ch = [x, y, z]" by (auto simp: length_3_conv)
  have "length [a, b, c] = 3" by simp
  from "4.IH" [OF this] show ?case
    by (simp only: ch update_1) (simp add: b64_pad_cons4)
qed

lemma update_append: "cs_base64_update ctx (xs @ ys) = cs_base64_update (cs_base64_update ctx xs) ys"
  by (induction ctx xs rule: cs_base64_update.induct) (auto simp: Let_def)

text \<open>
  \<open>cs_base64_decode\<close> of the characters that \<open>cs_base64_encode\<close> stores, without the terminating
  NUL, consumes them all and gives the data back.
\<close>

theorem mg_base64_roundtrip:
  "cs_base64_encode src = Some dst \<Longrightarrow> cs_base64_decode (butlast dst) = (length (butlast dst), length src, src @ [0])"
  by (auto simp: cs_base64_decode_def cs_base64_encode_def decode_loop_encoded Let_def split: if_splits)

lemma mg_base64_roundtrip_witness: "cs_base64_decode (b64_pad (b64_groups [77, 97])) = (length (b64_pad (b64_groups [77, 97])), 2, [77, 97, 0])"
  using mg_base64_roundtrip [OF cs_base64_encode_fits [of "[77, 97]"]] by simp

text \<open>
  the streaming encoder emits exactly the characters of the batch encoder, however the data is
  cut into pieces.
\<close>

theorem mg_base64_stream_equals_batch:
  assumes "length garbage = 3" "cs_base64_encode (xs @ ys) = Some dst"
  shows "b64_out (cs_base64_finish (cs_base64_update (cs_base64_update (cs_base64_init garbage []) xs) ys)) @ [0] = dst"
  using stream_all [OF assms(1), of "[]" "xs @ ys"] assms(2)
  by (auto simp: cs_base64_init_def cs_base64_encode_def update_append Let_def split: if_splits)

lemma mg_base64_stream_witness:
  "Some (b64_out (cs_base64_finish (cs_base64_update (cs_base64_update (cs_base64_init [7, 7, 7] []) [77, 97]) [110, 33])) @ [0]) =
    cs_base64_encode [77, 97, 110, 33]"
  using mg_base64_stream_equals_batch [of "[7, 7, 7]" "[77, 97]" "[110, 33]"] cs_base64_encode_fits [of "[77, 97, 110, 33]"] by simp

end
