(* ===== verification/MgBuf.thy ===== *)
theory MgBuf
  imports Prelude
begin

text \<open>
  \<open>common/mbuf.c\<close> in \<open>mongoose.c\<close>: the growing buffers behind every connection. \<open>mb_buf\<close> is the
  allocated block (its length is the C field \<open>size\<close>), \<open>mb_len\<close> the bytes in use. Whether
  \<open>realloc\<close> of a given size succeeds, the contents of fresh memory, the address of a block and
  \<open>MBUF_SIZE_MAX_HEADROOM\<close> are the record \<open>alloc\<close>.
\<close>

record alloc =
  can_alloc :: "nat \<Rightarrow> bool"
  fresh_byte :: byte
  address :: nat
  max_headroom :: nat

record mbuf =
  mb_buf :: bytes
  mb_len :: nat

definition mb_size :: "mbuf \<Rightarrow> nat" where
  "mb_size m = length (mb_buf m)"

definition realloc_bytes :: "alloc \<Rightarrow> bytes \<Rightarrow> nat \<Rightarrow> bytes option" where
  "realloc_bytes A old n =
     (if n = 0 then Some [] else if can_alloc A n then Some (take n old @ replicate (n - length old) (fresh_byte A)) else None)"

text \<open>\<open>memcpy\<close> of \<open>data\<close> to position \<open>off\<close>; positions outside the block are an error of the caller.\<close>

definition store_at :: "bytes \<Rightarrow> nat \<Rightarrow> bytes \<Rightarrow> bytes" where
  "store_at buf off data = take off buf @ data @ drop (off + length data) buf"

definition mbuf_resize :: "alloc \<Rightarrow> nat \<Rightarrow> mbuf \<Rightarrow> mbuf" where
  "mbuf_resize A new_size a =
     (if mb_size a < new_size \<or> (new_size < mb_size a \<and> mb_len a \<le> new_size)
      then (case realloc_bytes A (mb_buf a) new_size of None \<Rightarrow> a | Some buf \<Rightarrow> a\<lparr>mb_buf := buf\<rparr>)
      else a)"

definition mbuf_init :: "alloc \<Rightarrow> nat \<Rightarrow> mbuf" where
  "mbuf_init A initial_size = mbuf_resize A initial_size \<lparr>mb_buf = [], mb_len = 0\<rparr>"

definition mbuf_free :: "alloc \<Rightarrow> mbuf \<Rightarrow> mbuf" where
  "mbuf_free A m = (if mb_buf m \<noteq> [] then mbuf_init A 0 else m)"

definition mbuf_trim :: "alloc \<Rightarrow> mbuf \<Rightarrow> mbuf" where
  "mbuf_trim A m = mbuf_resize A (mb_len m) m"

text \<open>\<open>(size_t) (min_size * MBUF_SIZE_MULTIPLIER)\<close> with the multiplier 1.5, capped by the headroom.\<close>

definition grown_size :: "alloc \<Rightarrow> nat \<Rightarrow> nat" where
  "grown_size A min_size =
     (let new_size = min_size * 3 div 2 in
      if max_headroom A < new_size - min_size then min_size + max_headroom A else new_size)"

definition mbuf_insert :: "alloc \<Rightarrow> nat \<Rightarrow> bytes option \<Rightarrow> nat \<Rightarrow> mbuf \<Rightarrow> nat \<times> mbuf" where
  "mbuf_insert A off data len a =
     (if 2 ^ 64 - 1 - address A < len then (0, a)
      else if mb_len a + len \<le> mb_size a
      then let buf = store_at (mb_buf a) (off + len) (take (mb_len a - off) (drop off (mb_buf a)));
               buf = (case data of None \<Rightarrow> buf | Some d \<Rightarrow> store_at buf off d)
        in (len, a\<lparr>mb_buf := buf, mb_len := mb_len a + len\<rparr>)
      else let min_size = mb_len a + len; new_size = grown_size A min_size;
               p = realloc_bytes A (mb_buf a) new_size;
               (p, new_size) = (if p = None \<and> new_size \<noteq> min_size then (realloc_bytes A (mb_buf a) min_size, min_size)
                                else (p, new_size))
        in case p of None \<Rightarrow> (0, a)
           | Some buf \<Rightarrow>
             let buf = (if off \<noteq> mb_len a then store_at buf (off + len) (take (mb_len a - off) (drop off buf)) else buf);
                 buf = (case data of None \<Rightarrow> buf | Some d \<Rightarrow> store_at buf off d)
             in (len, a\<lparr>mb_buf := buf, mb_len := mb_len a + len\<rparr>))"

definition mbuf_append :: "alloc \<Rightarrow> bytes option \<Rightarrow> nat \<Rightarrow> mbuf \<Rightarrow> nat \<times> mbuf" where
  "mbuf_append A data len a = mbuf_insert A (mb_len a) data len a"

definition mbuf_append_and_free :: "alloc \<Rightarrow> bytes \<Rightarrow> mbuf \<Rightarrow> nat \<times> mbuf" where
  "mbuf_append_and_free A data a =
     (if mb_len a = 0 then (length data, \<lparr>mb_buf = data, mb_len = length data\<rparr>)
      else mbuf_insert A (mb_len a) (Some data) (length data) a)"

definition mbuf_remove :: "nat \<Rightarrow> mbuf \<Rightarrow> mbuf" where
  "mbuf_remove n m =
     (if 0 < n \<and> n \<le> mb_len m
      then m\<lparr>mb_buf := store_at (mb_buf m) 0 (take (mb_len m - n) (drop n (mb_buf m))), mb_len := mb_len m - n\<rparr>
      else m)"

definition mbuf_clear :: "mbuf \<Rightarrow> mbuf" where
  "mbuf_clear m = m\<lparr>mb_len := 0\<rparr>"

definition mbuf_move :: "mbuf \<Rightarrow> mbuf \<times> mbuf" where
  "mbuf_move from = (\<lparr>mb_buf = [], mb_len = 0\<rparr>, from)"

section \<open>The queue of bytes it implements\<close>

definition mbuf_ok :: "mbuf \<Rightarrow> bool" where
  "mbuf_ok m = (mb_len m \<le> mb_size m)"

definition contents :: "mbuf \<Rightarrow> bytes" where
  "contents m = take (mb_len m) (mb_buf m)"

lemma length_contents: "mbuf_ok m \<Longrightarrow> length (contents m) = mb_len m"
  by (simp add: mbuf_ok_def contents_def mb_size_def)

lemma length_store_at: "off + length d \<le> length buf \<Longrightarrow> length (store_at buf off d) = length buf"
  by (simp add: store_at_def)

lemma realloc_bytes_Some:
  "realloc_bytes A old n = Some buf \<Longrightarrow> length buf = n \<and> take (min n (length old)) buf = take n old"
  by (auto simp: realloc_bytes_def min_def split: if_splits)

lemma mbuf_resize_ok [wf_intros]: "mbuf_ok m \<Longrightarrow> mbuf_ok (mbuf_resize A n m)"
  by (auto simp: mbuf_ok_def mbuf_resize_def mb_size_def split: option.splits dest: realloc_bytes_Some)

lemma mbuf_resize_contents: "mbuf_ok m \<Longrightarrow> contents (mbuf_resize A n m) = contents m"
proof (cases "realloc_bytes A (mb_buf m) n")
  case (Some buf)
  assume ok: "mbuf_ok m"
  from realloc_bytes_Some [OF Some] have b: "take (min n (length (mb_buf m))) buf = take n (mb_buf m)" by blast
  show ?thesis
  proof (cases "mb_len m \<le> n")
    case True
    then have "take (mb_len m) buf = take (mb_len m) (mb_buf m)"
      using arg_cong [OF b, of "take (mb_len m)"] ok by (simp add: mbuf_ok_def mb_size_def min_absorb1)
    then show ?thesis by (simp add: contents_def mbuf_resize_def Some)
  next
    case False
    then show ?thesis using ok by (simp add: contents_def mbuf_resize_def Some mbuf_ok_def)
  qed
qed (simp add: mbuf_resize_def)

lemma mbuf_init_ok [wf_intros]: "mbuf_ok (mbuf_init A n)"
  unfolding mbuf_init_def by (rule mbuf_resize_ok) (simp add: mbuf_ok_def)

lemma mbuf_init_contents: "contents (mbuf_init A n) = []"
  unfolding mbuf_init_def by (subst mbuf_resize_contents) (simp_all add: mbuf_ok_def contents_def)

text \<open>Making room and copying, on any block that is large enough and starts with the contents.\<close>

lemma insert_block:
  assumes "take n buf = c" "length c = n" "off \<le> n" "n + length d \<le> length buf"
  shows "take (n + length d) (store_at (store_at buf (off + length d) (take (n - off) (drop off buf))) off d)
    = take off c @ d @ drop off c"
proof -
  have t: "take off buf = take off c" "take (n - off) (drop off buf) = drop off c"
    using assms(1-3) by (auto simp: take_drop min_absorb1)
  have l: "length (drop off c) = n - off" using assms(2) by simp
  let ?b1 = "store_at buf (off + length d) (take (n - off) (drop off buf))"
  have b1: "?b1 = take (off + length d) buf @ drop off c @ drop (n + length d) buf"
    using assms(3) l by (simp add: store_at_def t(2) add.commute add.left_commute)
  have "take off ?b1 = take off c"
    using assms(3,4) by (simp add: b1 t(1) [symmetric] min_absorb1)
  moreover have "drop (off + length d) ?b1 = drop off c @ drop (n + length d) buf"
    using assms(3,4) by (simp add: b1)
  ultimately have "store_at ?b1 off d = take off c @ d @ drop off c @ drop (n + length d) buf"
    by (simp add: store_at_def)
  then show ?thesis using assms(2,3) by simp
qed

lemma append_block:
  assumes "take n buf = c" "length c = n" "n + length d \<le> length buf"
  shows "take (n + length d) (store_at buf n d) = c @ d"
  using assms by (simp add: store_at_def)

definition data_fits :: "bytes option \<Rightarrow> nat \<Rightarrow> bool" where
  "data_fits data len = (\<forall>d. data = Some d \<longrightarrow> length d = len)"

lemma insert_ok [wf_intros]:
  assumes "mbuf_ok a" "off \<le> mb_len a" "data_fits data len"
  shows "mbuf_ok (snd (mbuf_insert A off data len a))"
proof -
  have room: "mbuf_ok (a\<lparr>mb_buf := (case data of None \<Rightarrow> b | Some d \<Rightarrow> store_at b off d), mb_len := mb_len a + len\<rparr>)"
    if "mb_len a + len \<le> length b" for b
    using that assms(2,3) by (cases data) (auto simp: mbuf_ok_def mb_size_def data_fits_def length_store_at)
  have mv: "length (store_at b (off + len) (take (mb_len a - off) (drop off b))) = length b"
    if "mb_len a + len \<le> length b" for b
    using that assms(2) by (intro length_store_at) auto
  have g: "mb_len a + len \<le> grown_size A (mb_len a + len)"
    by (auto simp: grown_size_def Let_def)
  show ?thesis
    using assms(1) room mv g
    by (auto simp: mbuf_insert_def Let_def mb_size_def dest!: realloc_bytes_Some split: option.splits prod.splits if_splits)
qed

lemma insert_contents:
  assumes "mbuf_ok a" "off \<le> mb_len a" "mbuf_insert A off (Some d) (length d) a = (length d, a')" "d \<noteq> []"
  shows "contents a' = take off (contents a) @ d @ drop off (contents a)"
proof -
  let ?n = "mb_len a" and ?c = "contents a"
  have c: "take ?n (mb_buf a) = ?c" "length ?c = ?n"
    using assms(1) by (simp_all add: contents_def mbuf_ok_def mb_size_def)
  have ins: "take (?n + length d) (store_at (store_at b (off + length d) (take (?n - off) (drop off b))) off d)
      = take off ?c @ d @ drop off ?c" if "take ?n b = ?c" "?n + length d \<le> length b" for b
    using insert_block [OF that(1) c(2) assms(2) that(2)] .
  have app: "take (?n + length d) (store_at b ?n d) = ?c @ d" if "take ?n b = ?c" "?n + length d \<le> length b" for b
    using append_block [OF that(1) c(2) that(2)] .
  have real: "take ?n b = ?c" if "realloc_bytes A (mb_buf a) k = Some b" "?n \<le> k" for b k
  proof -
    have "take (min k (length (mb_buf a))) b = take k (mb_buf a)" using realloc_bytes_Some [OF that(1)] by blast
    then have "take ?n (take (min k (length (mb_buf a))) b) = take ?n (take k (mb_buf a))" by simp
    then show ?thesis using that(2) assms(1) c by (simp add: mbuf_ok_def mb_size_def min_absorb1)
  qed
  have g: "?n + length d \<le> grown_size A (?n + length d)" by (auto simp: grown_size_def Let_def)
  let ?fin = "\<lambda>b. a\<lparr>mb_buf := store_at (if off \<noteq> ?n then store_at b (off + length d) (take (?n - off) (drop off b)) else b) off d,
              mb_len := ?n + length d\<rparr>"
  have cases: "(?n + length d \<le> length (mb_buf a) \<and>
      a' = a\<lparr>mb_buf := store_at (store_at (mb_buf a) (off + length d) (take (?n - off) (drop off (mb_buf a)))) off d,
              mb_len := ?n + length d\<rparr>) \<or>
    (\<exists>b k. realloc_bytes A (mb_buf a) k = Some b \<and> ?n + length d \<le> k \<and> a' = ?fin b)"
  proof (cases "?n + length d \<le> mb_size a")
    case True
    then show ?thesis using assms(3,4) by (simp add: mbuf_insert_def Let_def mb_size_def split: if_splits)
  next
    case False
    let ?k = "grown_size A (?n + length d)"
    show ?thesis
    proof (cases "realloc_bytes A (mb_buf a) ?k")
      case (Some b)
      then have "a' = ?fin b" using False assms(3,4) by (simp add: mbuf_insert_def split: if_splits)
      with Some g show ?thesis by blast
    next
      case None
      then obtain b where b: "realloc_bytes A (mb_buf a) (?n + length d) = Some b"
        using False assms(3,4)
        by (cases "realloc_bytes A (mb_buf a) (?n + length d)"; cases "?k = ?n + length d")
          (simp_all add: mbuf_insert_def split: if_splits)
      then have "?k \<noteq> ?n + length d" using None by auto
      with None b False assms(3,4) have "a' = ?fin b" by (simp add: mbuf_insert_def split: if_splits)
      with b show ?thesis by blast
    qed
  qed
  then consider (room) "?n + length d \<le> length (mb_buf a)"
      "a' = a\<lparr>mb_buf := store_at (store_at (mb_buf a) (off + length d) (take (?n - off) (drop off (mb_buf a)))) off d,
              mb_len := ?n + length d\<rparr>"
    | (grown) b k where "realloc_bytes A (mb_buf a) k = Some b" "?n + length d \<le> k" "a' = ?fin b"
    by blast
  then show ?thesis
  proof cases
    case room
    have ca: "contents a' = take (?n + length d) (mb_buf a')" by (simp add: contents_def room(2))
    show ?thesis unfolding ca using ins [OF c(1) room(1)] by (simp add: room(2))
  next
    case grown
    have l: "length b = k" using realloc_bytes_Some [OF grown(1)] by blast
    have t: "take ?n b = ?c" using real [OF grown(1)] grown(2) by simp
    have b: "?n + length d \<le> length b" using l grown(2) by simp
    have ca: "contents a' = take (?n + length d) (mb_buf a')" by (simp add: contents_def grown(3))
    show ?thesis
    proof (cases "off = ?n")
      case True
      have "contents a' = ?c @ d" unfolding ca using app [OF t b] True by (simp add: grown(3))
      then show ?thesis using True c(2) by simp
    next
      case False
      then show ?thesis unfolding ca using ins [OF t b] by (simp add: grown(3))
    qed
  qed
qed

lemma insert_cases: "fst (mbuf_insert A off data len a) = len \<or> mbuf_insert A off data len a = (0, a)"
  by (auto simp: mbuf_insert_def Let_def split: option.splits prod.splits)

lemma remove_ok [wf_intros]: "mbuf_ok m \<Longrightarrow> mbuf_ok (mbuf_remove n m)"
  by (auto simp: mbuf_ok_def mbuf_remove_def mb_size_def length_store_at)

lemma remove_contents: "mbuf_ok m \<Longrightarrow> n \<le> mb_len m \<Longrightarrow> contents (mbuf_remove n m) = drop n (contents m)"
  by (auto simp: mbuf_ok_def mbuf_remove_def mb_size_def contents_def store_at_def take_drop)

section \<open>The interface of a byte queue\<close>

text \<open>
  What connections rely on: a byte string is appended whole or not at all, bytes leave from the
  front, and both keep an invariant.
\<close>

locale byte_queue =
  fixes cont :: "'q \<Rightarrow> bytes"
    and app :: "bytes \<Rightarrow> 'q \<Rightarrow> nat \<times> 'q"
    and rem :: "nat \<Rightarrow> 'q \<Rightarrow> 'q"
    and ok :: "'q \<Rightarrow> bool"
  assumes app_ok: "ok q \<Longrightarrow> ok (snd (app d q))"
    and rem_ok: "ok q \<Longrightarrow> ok (rem n q)"
    and app_whole: "ok q \<Longrightarrow> fst (app d q) \<noteq> 0 \<Longrightarrow> cont (snd (app d q)) = cont q @ d"
    and app_nothing: "ok q \<Longrightarrow> fst (app d q) = 0 \<Longrightarrow> cont (snd (app d q)) = cont q"
    and rem_front: "ok q \<Longrightarrow> n \<le> length (cont q) \<Longrightarrow> cont (rem n q) = drop n (cont q)"
begin

text \<open>A run of appends and removals: the bytes accepted, the bytes taken out, the queue left.\<close>

fun run :: "(bytes + nat) list \<Rightarrow> 'q \<Rightarrow> bytes \<times> bytes \<times> 'q" where
  "run [] q = ([], [], q)"
| "run (Inl d # ops) q = (case app d q of (n, q) \<Rightarrow> case run ops q of (a, r, q) \<Rightarrow>
     ((if n = 0 then [] else d) @ a, r, q))"
| "run (Inr n # ops) q = (if n \<le> length (cont q) then case run ops (rem n q) of (a, r, q') \<Rightarrow>
     (a, take n (cont q) @ r, q') else run ops q)"

lemma run_ok: "ok q \<Longrightarrow> ok (snd (snd (run ops q)))"
proof (induction ops q rule: run.induct)
  case (2 d ops q)
  then show ?case using app_ok [of q d] by (auto split: prod.splits)
next
  case (3 n ops q)
  then show ?case using rem_ok [of q n] by (auto split: prod.splits)
qed simp

lemma run_fifo:
  "ok q \<Longrightarrow> run ops q = (accepted, taken, q') \<Longrightarrow> cont q @ accepted = taken @ cont q'"
proof (induction ops q arbitrary: accepted taken q' rule: run.induct)
  case (2 d ops q)
  obtain n q1 where a: "app d q = (n, q1)" by fastforce
  obtain acc r q2 where r: "run ops q1 = (acc, r, q2)" by (metis prod.exhaust)
  have ok: "ok q1" using app_ok [OF "2.prems"(1), of d] a by simp
  have "cont q1 @ acc = r @ cont q2" using "2.IH" [OF a [symmetric] ok r] .
  moreover have "cont q1 = (if n = 0 then cont q else cont q @ d)"
    using app_whole [OF "2.prems"(1), of d] app_nothing [OF "2.prems"(1), of d] a by auto
  ultimately show ?case using "2.prems"(2) a r by (auto split: if_splits)
next
  case (3 n ops q)
  show ?case
  proof (cases "n \<le> length (cont q)")
    case True
    obtain acc r q2 where r: "run ops (rem n q) = (acc, r, q2)" by (metis prod.exhaust)
    have "cont (rem n q) @ acc = r @ cont q2"
      using "3.IH"(1) [OF True rem_ok [OF "3.prems"(1)] r] .
    then have "drop n (cont q) @ acc = r @ cont q2" using rem_front [OF "3.prems"(1) True] by simp
    then have "cont q @ acc = take n (cont q) @ r @ cont q2" by (metis append_assoc append_take_drop_id)
    then show ?thesis using "3.prems"(2) r True by auto
  next
    case False
    then show ?thesis using "3.IH"(2) "3.prems" by auto
  qed
qed auto

end

definition mbuf_app :: "alloc \<Rightarrow> bytes \<Rightarrow> mbuf \<Rightarrow> nat \<times> mbuf" where
  "mbuf_app A d m = mbuf_append A (Some d) (length d) m"

interpretation mbuf_queue: byte_queue contents "mbuf_app A" mbuf_remove mbuf_ok for A
proof unfold_locales
  fix q d n
  show "mbuf_ok q \<Longrightarrow> mbuf_ok (snd (mbuf_app A d q))"
    by (simp add: mbuf_app_def mbuf_append_def insert_ok data_fits_def)
  show "mbuf_ok q \<Longrightarrow> mbuf_ok (mbuf_remove n q)" by (rule remove_ok)
  show "mbuf_ok q \<Longrightarrow> n \<le> length (contents q) \<Longrightarrow> contents (mbuf_remove n q) = drop n (contents q)"
    by (simp add: remove_contents length_contents)
  have c: "mbuf_app A d q = (0, q) \<or> fst (mbuf_app A d q) = length d"
    using insert_cases [of A "mb_len q" "Some d" "length d" q] by (auto simp: mbuf_app_def mbuf_append_def)
  show "contents (snd (mbuf_app A d q)) = contents q @ d" if "mbuf_ok q" "fst (mbuf_app A d q) \<noteq> 0"
  proof -
    from c that have n: "fst (mbuf_app A d q) = length d" "d \<noteq> []" by auto
    then have "mbuf_insert A (mb_len q) (Some d) (length d) q = (length d, snd (mbuf_app A d q))"
      by (simp add: mbuf_app_def mbuf_append_def prod_eq_iff)
    from insert_contents [OF that(1) le_refl this n(2)] show ?thesis
      using that(1) by (simp add: length_contents)
  qed
  show "contents (snd (mbuf_app A d q)) = contents q" if "mbuf_ok q" "fst (mbuf_app A d q) = 0"
  proof (cases "d = []")
    case True
    then show ?thesis using that
      by (auto simp: mbuf_app_def mbuf_append_def mbuf_insert_def Let_def mbuf_ok_def store_at_def contents_def)
  next
    case False
    with c that(2) have "mbuf_app A d q = (0, q)" by auto
    then show ?thesis by simp
  qed
qed

section \<open>Properties\<close>

text \<open>A run of \<open>mbuf_append\<close> (\<open>Inl\<close>) and \<open>mbuf_remove\<close> (\<open>Inr\<close>, where the bytes are there).\<close>

fun mbuf_run :: "alloc \<Rightarrow> (bytes + nat) list \<Rightarrow> mbuf \<Rightarrow> bytes \<times> bytes \<times> mbuf" where
  "mbuf_run A [] m = ([], [], m)"
| "mbuf_run A (Inl d # ops) m = (case mbuf_append A (Some d) (length d) m of (n, m) \<Rightarrow>
     case mbuf_run A ops m of (a, r, m) \<Rightarrow> ((if n = 0 then [] else d) @ a, r, m))"
| "mbuf_run A (Inr n # ops) m = (if n \<le> length (contents m) then case mbuf_run A ops (mbuf_remove n m) of (a, r, m') \<Rightarrow>
     (a, take n (contents m) @ r, m') else mbuf_run A ops m)"

lemma mbuf_run_queue: "mbuf_run A ops m = mbuf_queue.run A ops m"
  by (induction A ops m rule: mbuf_run.induct) (auto simp: mbuf_app_def [symmetric] split: prod.splits)

text \<open>
  for any run of appends and removals on a buffer, however often the block is moved and
  whichever allocations fail, the bytes taken out followed by those left are the initial contents
  followed by the bytes accepted.
\<close>

theorem mbuf_fifo:
  assumes "mbuf_ok m" "mbuf_run A ops m = (accepted, taken, m')"
  shows "contents m @ accepted = taken @ contents m'"
  using mbuf_queue.run_fifo [OF assms(1)] assms(2) by (simp add: mbuf_run_queue)

text \<open>
  \<open>mbuf_insert\<close> either reports 0 and leaves the buffer alone, or puts the data at the offset and
  reports its length; the length in use never exceeds the size of the block.
\<close>

theorem mbuf_insert_spec:
  assumes "mbuf_ok a" "off \<le> mb_len a" "d \<noteq> []"
  shows "case mbuf_insert A off (Some d) (length d) a of (n, a') \<Rightarrow>
    mbuf_ok a' \<and> (n = 0 \<and> a' = a \<or>
      n = length d \<and> contents a' = take off (contents a) @ d @ drop off (contents a))"
proof -
  obtain n a' where r: "mbuf_insert A off (Some d) (length d) a = (n, a')" by fastforce
  have "mbuf_ok a'" using insert_ok [OF assms(1,2), of "Some d" "length d" A] r by (simp add: data_fits_def)
  moreover have "n = 0 \<and> a' = a \<or> n = length d"
    using insert_cases [of A off "Some d" "length d" a] r by auto
  moreover have "n = length d \<Longrightarrow> contents a' = take off (contents a) @ d @ drop off (contents a)"
    using insert_contents [OF assms(1,2) _ assms(3)] r by simp
  ultimately show ?thesis using r by auto
qed

definition small_alloc :: alloc where
  "small_alloc = \<lparr>can_alloc = (\<lambda>n. n \<le> 8), fresh_byte = 0xCC, address = 4096, max_headroom = 1024\<rparr>"

lemma replicate_twice: "replicate 2 x = [x, x]"
  by (simp add: numeral_2_eq_2)

lemma small_run:
  "mbuf_run small_alloc [Inl [1, 2, 3], Inr 2, Inl [4, 5, 6, 7], Inl [8, 9, 10, 11], Inr 4] \<lparr>mb_buf = [], mb_len = 0\<rparr> =
     ([1, 2, 3, 4, 5, 6, 7], [1, 2, 3, 4, 5, 6], \<lparr>mb_buf = [7, 4, 5, 6, 7, 0xCC, 0xCC], mb_len = 1\<rparr>)"
  by (simp add: small_alloc_def mbuf_append_def mbuf_insert_def mbuf_remove_def realloc_bytes_def grown_size_def
      mb_size_def contents_def store_at_def Let_def replicate_twice)

lemma mbuf_fifo_witness:
  "contents \<lparr>mb_buf = [], mb_len = 0\<rparr> @ [1, 2, 3, 4, 5, 6, 7] =
     [1, 2, 3, 4, 5, 6] @ contents \<lparr>mb_buf = [7, 4, 5, 6, 7, 0xCC, 0xCC], mb_len = 1\<rparr>"
  by (rule mbuf_fifo [OF _ small_run]) (simp add: mbuf_ok_def)

lemma mbuf_insert_spec_witness:
  "case mbuf_insert small_alloc 1 (Some [7, 8]) (length [7, 8 :: byte]) \<lparr>mb_buf = [1, 2, 3], mb_len = 3\<rparr> of (n, a') \<Rightarrow>
    mbuf_ok a' \<and> (n = 0 \<and> a' = \<lparr>mb_buf = [1, 2, 3], mb_len = 3\<rparr> \<or>
      n = length [7, 8 :: byte] \<and> contents a' = take 1 (contents \<lparr>mb_buf = [1, 2, 3], mb_len = 3\<rparr>) @ [7, 8] @
        drop 1 (contents \<lparr>mb_buf = [1, 2, 3], mb_len = 3\<rparr>))"
  by (rule mbuf_insert_spec) (simp_all add: mbuf_ok_def mb_size_def)

end
