(* ===== verification/MgStr.thy ===== *)
theory MgStr
  imports Prelude
begin

text \<open>
  \<open>common/mg_str.c\<close> and \<open>common/str_util.c\<close> in \<open>mongoose.c\<close>. A counted string is its bytes (a
  pointer into it is an offset, \<open>NULL\<close> is \<open>None\<close>); a C string is the list of its bytes before the
  NUL, and reading one from a larger array stops at the first NUL or at the end of the list.
  \<open>char\<close> is signed.
\<close>

section \<open>The C library on bytes\<close>

definition isspace :: "byte \<Rightarrow> bool" where
  "isspace b = (b = 32 \<or> (9 \<le> b \<and> b \<le> 13))"

definition isdigit :: "byte \<Rightarrow> bool" where
  "isdigit b = (48 \<le> b \<and> b \<le> 57)"

definition tolower :: "byte \<Rightarrow> byte" where
  "tolower b = (if 65 \<le> b \<and> b \<le> 90 then b + 32 else b)"

text \<open>The byte at an offset of a C string; the NUL is where the list ends.\<close>

definition c_at :: "bytes \<Rightarrow> nat \<Rightarrow> byte" where
  "c_at s i = (if i < length s then s ! i else 0)"

fun c_str :: "bytes \<Rightarrow> bytes" where
  "c_str [] = []"
| "c_str (x # xs) = (if x = 0 then [] else x # c_str xs)"

fun strncmp :: "bytes \<Rightarrow> bytes \<Rightarrow> nat \<Rightarrow> int" where
  "strncmp s t 0 = 0"
| "strncmp s t (Suc n) =
     (let a = c_at s 0; b = c_at t 0 in
      if a \<noteq> b then uint a - uint b else if a = 0 then 0 else strncmp (drop 1 s) (drop 1 t) n)"

fun index_from :: "byte \<Rightarrow> nat \<Rightarrow> bytes \<Rightarrow> nat option" where
  "index_from c i [] = None"
| "index_from c i (x # xs) = (if x = c then Some i else index_from c (i + 1) xs)"

definition memchr :: "bytes \<Rightarrow> byte \<Rightarrow> nat option" where
  "memchr s c = index_from c 0 s"

section \<open>Counted strings\<close>

definition mg_vcmp :: "bytes \<Rightarrow> bytes \<Rightarrow> int" where
  "mg_vcmp str1 str2 =
     (let n2 = length str2; n1 = length str1; r = strncmp str1 str2 (if n1 < n2 then n1 else n2)
      in if r = 0 then sint (of_nat n1 - of_nat n2 :: 32 word) else r)"

definition str_util_lowercase :: "byte \<Rightarrow> int" where
  "str_util_lowercase b = uint (tolower b)"

text \<open>The \<open>do ... while\<close> of \<open>mg_ncasecmp\<close>; the count may be \<open>~0\<close>.\<close>

fun mg_ncasecmp :: "bytes \<Rightarrow> bytes \<Rightarrow> nat \<Rightarrow> int" where
  "mg_ncasecmp s1 s2 0 = 0"
| "mg_ncasecmp s1 s2 (Suc len) =
     (let diff = str_util_lowercase (c_at s1 0) - str_util_lowercase (c_at s2 0) in
      if diff = 0 \<and> c_at s1 0 \<noteq> 0 \<and> 0 < len then mg_ncasecmp (drop 1 s1) (drop 1 s2) len else diff)"

definition mg_casecmp :: "bytes \<Rightarrow> bytes \<Rightarrow> int" where
  "mg_casecmp s1 s2 = mg_ncasecmp s1 s2 (max (length s1) (length s2) + 1)"

definition mg_vcasecmp :: "bytes \<Rightarrow> bytes \<Rightarrow> int" where
  "mg_vcasecmp str1 str2 =
     (let n2 = length str2; n1 = length str1; r = mg_ncasecmp str1 str2 (if n1 < n2 then n1 else n2)
      in if r = 0 then sint (of_nat n1 - of_nat n2 :: 32 word) else r)"

definition mg_strdup_common :: "bool \<Rightarrow> bytes \<Rightarrow> bool \<Rightarrow> bytes option \<times> nat" where
  "mg_strdup_common malloc_ok s nul_terminate =
     (if 0 < length s \<and> malloc_ok then (Some (s @ (if nul_terminate then [0] else [])), length s) else (None, 0))"

definition mg_strchr :: "bytes \<Rightarrow> byte \<Rightarrow> nat option" where
  "mg_strchr s c = index_from c 0 s"

fun mg_strcmp :: "bytes \<Rightarrow> bytes \<Rightarrow> int" where
  "mg_strcmp (x # xs) (y # ys) =
     (if sint x < sint y then - 1 else if sint y < sint x then 1 else mg_strcmp xs ys)"
| "mg_strcmp (x # xs) [] = 1"
| "mg_strcmp [] (y # ys) = - 1"
| "mg_strcmp [] [] = 0"

definition mg_strncmp :: "bytes \<Rightarrow> bytes \<Rightarrow> nat \<Rightarrow> int" where
  "mg_strncmp s1 s2 n = mg_strcmp (take n s1) (take n s2)"

text \<open>The search loop: \<open>i\<close> counts up while \<open>k\<close> positions remain.\<close>

fun strstr_loop :: "bytes \<Rightarrow> bytes \<Rightarrow> nat \<Rightarrow> nat \<Rightarrow> nat option" where
  "strstr_loop h n i 0 = None"
| "strstr_loop h n i (Suc k) = (if take (length n) (drop i h) = n then Some i else strstr_loop h n (i + 1) k)"

definition mg_strstr :: "bytes \<Rightarrow> bytes \<Rightarrow> nat option" where
  "mg_strstr haystack needle =
     (if length haystack < length needle then None
      else strstr_loop haystack needle 0 (length haystack - length needle + 1))"

definition mg_strstrip :: "bytes \<Rightarrow> bytes" where
  "mg_strstrip s = rev (dropWhile isspace (rev (dropWhile isspace s)))"

definition mg_str_starts_with :: "bytes \<Rightarrow> bytes \<Rightarrow> bool" where
  "mg_str_starts_with s prefix = (length prefix \<le> length s \<and> mg_strcmp (take (length prefix) s) prefix = 0)"

section \<open>\<open>str_util.c\<close>\<close>

fun c_strnlen :: "bytes \<Rightarrow> nat \<Rightarrow> nat" where
  "c_strnlen s 0 = 0"
| "c_strnlen s (Suc m) = (if c_at s 0 \<noteq> 0 then Suc (c_strnlen (drop 1 s) m) else 0)"

fun strnstr_loop :: "bytes \<Rightarrow> bytes \<Rightarrow> nat \<Rightarrow> nat \<Rightarrow> nat \<Rightarrow> nat option" where
  "strnstr_loop s pat slen i 0 = None"
| "strnstr_loop s pat slen i (Suc k) =
     (if slen < i + length pat then None
      else if strncmp (drop i s) pat (length pat) = 0 then Some i
      else strnstr_loop s pat slen (i + 1) k)"

definition c_strnstr :: "bytes \<Rightarrow> bytes \<Rightarrow> nat \<Rightarrow> nat option" where
  "c_strnstr s pat slen = strnstr_loop s pat slen 0 slen"

definition hex_digits :: bytes where
  "hex_digits = cstr ''0123456789abcdef''"

definition cs_to_hex :: "bytes \<Rightarrow> bytes" where
  "cs_to_hex p = concat (map (\<lambda>b. [hex_digits ! unat (drop_bit 4 b), hex_digits ! unat (b AND 0x0f)]) p) @ [0]"

definition fourbit :: "byte \<Rightarrow> byte" where
  "fourbit ch =
     (if 48 \<le> ch \<and> ch \<le> 57 then ch - 48
      else if 97 \<le> ch \<and> ch \<le> 102 then ch - 97 + 10
      else if 65 \<le> ch \<and> ch \<le> 70 then ch - 65 + 10
      else 0)"

text \<open>The loop steps by two and reads \<open>p[i + 1]\<close> even when the length is odd.\<close>

fun from_hex_loop :: "bytes \<Rightarrow> nat \<Rightarrow> bytes" where
  "from_hex_loop p 0 = []"
| "from_hex_loop p (Suc len) = (push_bit 4 (fourbit (c_at p 0)) + fourbit (c_at p 1)) # from_hex_loop (drop 2 p) (len - 1)"

definition cs_from_hex :: "bytes \<Rightarrow> nat \<Rightarrow> bytes" where
  "cs_from_hex p len = from_hex_loop p len @ [0]"

fun to64_digits :: "bytes \<Rightarrow> 64 word \<Rightarrow> 64 word" where
  "to64_digits (c # s) r = (if isdigit c then to64_digits s (r * 10 + (ucast c - 48)) else r)"
| "to64_digits [] r = r"

definition cs_to64 :: "bytes \<Rightarrow> 64 word" where
  "cs_to64 s =
     (let s = dropWhile isspace s in
      case s of [] \<Rightarrow> 0
      | c # s' \<Rightarrow> if c = chr CHR ''-'' then to64_digits s' 0 * - 1 else to64_digits s 0)"

section \<open>Comma-separated lists\<close>

text \<open>
  \<open>mg_next_comma_list_entry_n\<close>: the rest of the list, \<open>None\<close> for the \<open>NULL\<close> that ends it, the
  entry and the value after its \<open>=\<close>; the entry is unchanged (\<open>None\<close>) at the end.
\<close>

definition mg_next_comma_list_entry_n :: "bytes \<Rightarrow> bytes option \<times> (bytes \<times> bytes option) option" where
  "mg_next_comma_list_entry_n list =
     (if list = [] then (None, None)
      else let (val, rest) = (case mg_strchr list (chr CHR '','') of
                 Some k \<Rightarrow> (take k list, drop (k + 1) list) | None \<Rightarrow> (list, []))
        in (Some rest, Some (case memchr val (chr CHR ''='') of
              None \<Rightarrow> (val, None) | Some e \<Rightarrow> (take e val, Some (drop (e + 1) val)))))"

lemma index_from_Some: "index_from c i s = Some k \<Longrightarrow> i \<le> k \<and> k - i < length s \<and> s ! (k - i) = c \<and> c \<notin> set (take (k - i) s)"
proof (induction s arbitrary: i)
  case (Cons x s)
  show ?case
  proof (cases "x = c")
    case False
    with Cons have h: "i + 1 \<le> k \<and> k - (i + 1) < length s \<and> s ! (k - (i + 1)) = c \<and> c \<notin> set (take (k - (i + 1)) s)"
      by simp
    then have "k - i = Suc (k - (i + 1))" by arith
    with h False show ?thesis by (simp del: diff_diff_left)
  qed (use Cons in auto)
qed simp

lemma index_from_None: "index_from c i s = None \<longleftrightarrow> c \<notin> set s"
  by (induction s arbitrary: i) auto

lemma memchr_Some: "memchr s c = Some k \<Longrightarrow> k < length s \<and> s ! k = c \<and> c \<notin> set (take k s)"
  unfolding memchr_def using index_from_Some by fastforce

section \<open>Shell-like patterns\<close>

text \<open>
  \<open>mg_match_prefix_n\<close>: the alternation is tried first, then the \<open>for\<close> loop (\<open>j\<close> counts the bytes
  already matched, pattern and string are what is left), and at a star the \<open>do ... while\<close> that
  gives back one byte at a time. The result is the length of the matched prefix, 0 for none.
\<close>

function (sequential) match_prefix_n :: "bytes \<Rightarrow> bytes \<Rightarrow> nat"
  and match_loop :: "bytes \<Rightarrow> bytes \<Rightarrow> nat \<Rightarrow> nat"
  and match_star :: "bytes \<Rightarrow> bytes \<Rightarrow> nat \<Rightarrow> nat \<Rightarrow> nat"
where
  "match_prefix_n p s =
     (case memchr p (chr CHR ''|'') of
        Some k \<Rightarrow> (let r = match_prefix_n (take k p) s in if 0 < r then r else match_prefix_n (drop (k + 1) p) s)
      | None \<Rightarrow>
     (case memchr p (chr CHR '','') of
        Some k \<Rightarrow> (let r = match_prefix_n (take k p) s in if 0 < r then r else match_prefix_n (drop (k + 1) p) s)
      | None \<Rightarrow> match_loop p s 0))"
| "match_loop [] s j = j"
| "match_loop (c # p) [] j = (if c = chr CHR ''$'' then j else 0)"
| "match_loop (c # p) (x # s) j =
     (if c = chr CHR ''?'' then match_loop p s (j + 1)
      else if c = chr CHR ''*'' then
        (let twice = (p \<noteq> [] \<and> hd p = chr CHR ''*'');
             p' = (if twice then tl p else p);
             len = (if twice then length (x # s) else length (takeWhile (\<lambda>y. y \<noteq> chr CHR ''/'') (x # s)))
         in if p' = [] \<or> p' = [chr CHR ''$''] then j + len else match_star p' (x # s) j len)
      else if str_util_lowercase c \<noteq> str_util_lowercase x then 0
      else match_loop p s (j + 1))"
| "match_star p s j len =
     (let r = match_prefix_n p (drop len s)
      in if r = 0 \<and> len \<noteq> 0 then match_star p s j (len - 1) else if r = 0 then 0 else j + r + len)"
  by pat_completeness auto

termination
proof (relation "measures [\<lambda>x. case x of Inl (p, s) \<Rightarrow> length p | Inr (Inl (p, s, j)) \<Rightarrow> length p | Inr (Inr (p, s, j, len)) \<Rightarrow> length p,
    \<lambda>x. case x of Inl _ \<Rightarrow> 1 | Inr (Inl _) \<Rightarrow> 0 | Inr (Inr _) \<Rightarrow> 2,
    \<lambda>x. case x of Inl _ \<Rightarrow> 0 | Inr (Inl _) \<Rightarrow> 0 | Inr (Inr (p, s, j, len)) \<Rightarrow> len]", goal_cases)
qed (auto dest!: memchr_Some)

declare match_prefix_n.simps [simp del] match_star.simps [simp del]

lemmas match_prefix_eq = match_prefix_n.simps match_star.simps

section \<open>Lemmas\<close>

lemma mg_strcmp_refl: "mg_strcmp s s = 0"
  by (induction s) auto

lemma sint_inj: "sint (a :: byte) = sint b \<longleftrightarrow> a = b"
  by (auto dest: signed_word_eqI)

lemma mg_strcmp_0: "mg_strcmp s t = 0 \<longleftrightarrow> s = t"
  by (induction s t rule: mg_strcmp.induct) (auto simp: mg_strcmp_refl sint_inj [symmetric] not_less)

lemma strstr_loop_Some:
  "strstr_loop h n i k = Some j \<Longrightarrow> i \<le> j \<and> j < i + k \<and> take (length n) (drop j h) = n \<and>
     (\<forall>m. i \<le> m \<and> m < j \<longrightarrow> take (length n) (drop m h) \<noteq> n)"
proof (induction h n i k rule: strstr_loop.induct)
  case (2 h n i k)
  show ?case
  proof (cases "take (length n) (drop i h) = n")
    case False
    with 2 have "i + 1 \<le> j \<and> j < i + 1 + k \<and> take (length n) (drop j h) = n \<and>
        (\<forall>m. i + 1 \<le> m \<and> m < j \<longrightarrow> take (length n) (drop m h) \<noteq> n)" by simp
    with False show ?thesis by (metis Suc_eq_plus1 Suc_leI add.commute add_Suc_right le_neq_implies_less less_or_eq_imp_le Suc_le_lessD add_Suc)
  qed (use 2 in auto)
qed simp

lemma strstr_loop_None: "strstr_loop h n i k = None \<longleftrightarrow> (\<forall>j. i \<le> j \<and> j < i + k \<longrightarrow> take (length n) (drop j h) \<noteq> n)"
proof (induction h n i k rule: strstr_loop.induct)
  case (2 h n i k)
  have "(\<forall>j. i \<le> j \<and> j < i + Suc k \<longrightarrow> P j) \<longleftrightarrow> P i \<and> (\<forall>j. i + 1 \<le> j \<and> j < i + 1 + k \<longrightarrow> P j)" for P
    by (metis Suc_eq_plus1 Suc_leI Suc_leD add_Suc_right add_Suc le_add1 le_neq_implies_less le_refl less_add_Suc1)
  with 2 show ?case by (auto simp del: add_Suc_right)
qed auto


section \<open>Hexadecimal\<close>

lemma hex_digit_nibble: "fourbit (hex_digits ! unat (drop_bit 4 b)) = drop_bit 4 b \<and> fourbit (hex_digits ! unat (b AND 0x0f)) = b AND 0x0f"
proof -
  have hex: "n < 16 \<Longrightarrow> unat (fourbit (hex_digits ! n)) = n" for n
  proof -
    assume "n < 16"
    then have "n \<in> set [0..<16]" by simp
    moreover have "\<forall>n \<in> set [0..<16]. unat (fourbit (hex_digits ! n)) = n" by code_simp
    ultimately show ?thesis by blast
  qed
  have "unat (drop_bit 4 b) = unat b div 16" by (simp add: unat_drop_bit_div)
  moreover have "unat b < 256" by simp
  ultimately have 1: "unat (drop_bit 4 b) < 16" by linarith
  have "b AND 0x0f = take_bit 4 b" by (simp add: take_bit_eq_mask mask_eq_exp_minus_1)
  then have "unat (b AND 0x0f) = take_bit 4 (unat b)" by (simp only: unsigned_take_bit_eq)
  then have "unat (b AND 0x0f) = unat b mod 16" by (simp add: take_bit_eq_mod)
  then have 2: "unat (b AND 0x0f) < 16" by simp
  show ?thesis using hex [OF 1] hex [OF 2] by (auto intro: byte_eqI)
qed

lemma nibbles_add: "push_bit 4 (drop_bit 4 b) + (b AND 0x0f) = (b :: byte)"
proof -
  have "push_bit 4 (drop_bit 4 b) = b AND NOT (mask 4)"
    by (rule bit_word_eqI) (auto simp: bit_simps)
  then have "push_bit 4 (drop_bit 4 b) + (b AND 0x0f) = (b AND NOT (mask 4)) + (b AND mask 4)"
    by (simp add: mask_eq_exp_minus_1)
  also have "\<dots> = (b AND NOT (mask 4)) OR (b AND mask 4)"
    by (rule disjunctive_add_eq_or) (auto intro!: bit_word_eqI simp: bit_simps)
  also have "\<dots> = b" by (rule bit_word_eqI) (auto simp: bit_simps)
  finally show ?thesis .
qed

lemma from_hex_to_hex:
  "from_hex_loop (concat (map (\<lambda>b. [hex_digits ! unat (drop_bit 4 b), hex_digits ! unat (b AND 0x0f)]) p) @ r) (2 * length p) = p"
  by (induction p) (simp_all add: c_at_def hex_digit_nibble nibbles_add)

text \<open>Decoding the text that \<open>cs_to_hex\<close> writes for any bytes gives the bytes back, with the
  terminating NUL both functions write.\<close>

theorem hex_roundtrip: "cs_from_hex (cs_to_hex p) (2 * length p) = p @ [0]"
  by (simp add: cs_from_hex_def cs_to_hex_def from_hex_to_hex)

section \<open>Searching\<close>

text \<open>\<open>mg_strstr\<close> returns the first position at which the needle occurs in the haystack, and
  nothing exactly when it occurs at no position.\<close>

theorem mg_strstr_first:
  "case mg_strstr h n of
     Some j \<Rightarrow> take (length n) (drop j h) = n \<and> \<not> (\<exists>m < j. take (length n) (drop m h) = n)
   | None \<Rightarrow> \<not> (\<exists>m \<le> length h. take (length n) (drop m h) = n)"
proof (cases "mg_strstr h n")
  case None
  have "take (length n) (drop m h) \<noteq> n" if "m \<le> length h" for m
  proof (cases "m + length n \<le> length h")
    case True
    then have "strstr_loop h n 0 (length h - length n + 1) = None" "m < 0 + (length h - length n + 1)"
      using None by (auto simp: mg_strstr_def)
    then show ?thesis unfolding strstr_loop_None by blast
  next
    case False
    then have "length (take (length n) (drop m h)) \<noteq> length n" using that by simp
    then show ?thesis by metis
  qed
  then show ?thesis using None by auto
next
  case (Some j)
  then have "strstr_loop h n 0 (length h - length n + 1) = Some j" by (auto simp: mg_strstr_def split: if_splits)
  from strstr_loop_Some [OF this] Some show ?thesis by auto
qed

section \<open>Patterns\<close>

text \<open>What a pattern means, without alternation: \<open>glob p t\<close> says that the whole of \<open>t\<close> matches.\<close>

inductive glob :: "bytes \<Rightarrow> bytes \<Rightarrow> bool" where
  glob_nil: "glob [] []"
| glob_any: "glob p t \<Longrightarrow> glob (chr CHR ''?'' # p) (x # t)"
| glob_star: "chr CHR ''/'' \<notin> set u \<Longrightarrow> glob p t \<Longrightarrow> glob (chr CHR ''*'' # p) (u @ t)"
| glob_stars: "glob p t \<Longrightarrow> glob (chr CHR ''*'' # chr CHR ''*'' # p) (u @ t)"
| glob_char: "str_util_lowercase c = str_util_lowercase x \<Longrightarrow> glob p t \<Longrightarrow> glob (c # p) (x # t)"

lemmas glob_simplified = glob_any [simplified] glob_star [simplified] glob_stars [simplified]

text \<open>A pattern with alternatives matches when one of them does.\<close>

inductive pattern :: "bytes \<Rightarrow> bytes \<Rightarrow> bool" where
  pattern_glob: "glob p t \<Longrightarrow> pattern p t"
| pattern_left: "c \<in> {chr CHR ''|'', chr CHR '',''} \<Longrightarrow> pattern p t \<Longrightarrow> pattern (p @ c # q) t"
| pattern_right: "c \<in> {chr CHR ''|'', chr CHR '',''} \<Longrightarrow> pattern q t \<Longrightarrow> pattern (p @ c # q) t"

definition separators :: "byte set" where
  "separators = {chr CHR ''|'', chr CHR '',''}"

lemma memchr_split: "memchr s c = Some k \<Longrightarrow> s = take k s @ c # drop (k + 1) s"
  by (drule memchr_Some) (metis Suc_eq_plus1 id_take_nth_drop)

lemma pattern_no_sep: "pattern p t \<Longrightarrow> set p \<inter> separators = {} \<Longrightarrow> glob p t"
  by (induction rule: pattern.induct) (auto simp: separators_def)

lemma take_within_takeWhile: "l \<le> length (takeWhile P xs) \<Longrightarrow> y \<in> set (take l xs) \<Longrightarrow> P y"
proof (induction xs arbitrary: l)
  case (Cons a xs)
  then show ?case by (cases l) (auto split: if_splits)
qed simp

lemma star_glob:
  assumes star: "c = chr CHR ''*''" and nodollar: "chr CHR ''$'' \<notin> set p"
    and twice: "twice = (p \<noteq> [] \<and> hd p = chr CHR ''*'')" and p': "p' = (if twice then tl p else p)"
    and len: "len = (if twice then length (x # s) else length (takeWhile (\<lambda>y. y \<noteq> chr CHR ''/'') (x # s)))"
  shows "l \<le> len \<Longrightarrow> glob p' t \<Longrightarrow> glob (c # p) (take l (x # s) @ t)"
    and "match_loop (c # p) (x # s) j = (if p' = [] then j + len else match_star p' (x # s) j len)"
proof -
  assume that: "l \<le> len" "glob p' t"
  show "glob (c # p) (take l (x # s) @ t)"
  proof (cases twice)
    case True
    then obtain q where "p = chr CHR ''*'' # q" using twice by (cases p) auto
    with that star True show ?thesis by (simp add: p' glob_simplified)
  next
    case False
    then have "l \<le> length (takeWhile (\<lambda>y. y \<noteq> chr CHR ''/'') (x # s))" using that(1) by (simp only: len if_False)
    then have "chr CHR ''/'' \<notin> set (take l (x # s))" using take_within_takeWhile [of l "\<lambda>y. y \<noteq> chr CHR ''/''" "x # s"] by blast
    with that star False show ?thesis by (simp add: p' glob_simplified)
  qed
next
  have "set p' \<subseteq> set p" by (cases p) (auto simp: p')
  then have "p' \<noteq> [chr CHR ''$'']" using nodollar by auto
  moreover have "match_loop (c # p) (x # s) j = (if p' = [] \<or> p' = [chr CHR ''$''] then j + len else match_star p' (x # s) j len)"
    unfolding match_loop.simps(3) Let_def twice [symmetric] p' [symmetric] len [symmetric] using star by simp
  ultimately show "match_loop (c # p) (x # s) j = (if p' = [] then j + len else match_star p' (x # s) j len)" by simp
qed

lemma match_sound:
  "chr CHR ''$'' \<notin> set p \<Longrightarrow> match_prefix_n p s \<le> length s \<and> (0 < match_prefix_n p s \<longrightarrow> pattern p (take (match_prefix_n p s) s))"
  "chr CHR ''$'' \<notin> set p \<Longrightarrow> set p \<inter> separators = {} \<Longrightarrow> match_loop p s j = 0 \<or>
     (\<exists>m \<le> length s. match_loop p s j = j + m \<and> glob p (take m s))"
  "chr CHR ''$'' \<notin> set p \<Longrightarrow> set p \<inter> separators = {} \<Longrightarrow> len \<le> length s \<Longrightarrow> match_star p s j len = 0 \<or>
     (\<exists>m \<le> length s. \<exists>l \<le> len. l \<le> m \<and> match_star p s j len = j + m \<and> glob p (take (m - l) (drop l s)))"
proof (induction p s and p s j and p s j len rule: match_prefix_n_match_loop_match_star.induct)
  case (1 p s)
  show ?case
  proof (cases "memchr p (chr CHR ''|'')")
    case (Some k)
    note sp = memchr_split [OF Some]
    have "chr CHR ''$'' \<notin> set (take k p)" "chr CHR ''$'' \<notin> set (drop (k + 1) p)"
      using 1(6) by (auto dest: in_set_takeD in_set_dropD)
    with 1(4) [OF Some] 1(5) [OF Some refl] show ?thesis
      using sp pattern_left [of "chr CHR ''|''" "take k p" _ "drop (k + 1) p"]
        pattern_right [of "chr CHR ''|''" "drop (k + 1) p" _ "take k p"] Some
      by (simp add: Let_def match_prefix_n.simps [of p s])
  next
    case N: None
    show ?thesis
    proof (cases "memchr p (chr CHR '','')")
      case (Some k)
      note sp = memchr_split [OF Some]
      have "chr CHR ''$'' \<notin> set (take k p)" "chr CHR ''$'' \<notin> set (drop (k + 1) p)"
        using 1(6) by (auto dest: in_set_takeD in_set_dropD)
      with 1(2) [OF N Some] 1(3) [OF N Some refl] show ?thesis
        using sp pattern_left [of "chr CHR '',''" "take k p" _ "drop (k + 1) p"]
          pattern_right [of "chr CHR '',''" "drop (k + 1) p" _ "take k p"] Some N
        by (simp add: Let_def match_prefix_n.simps [of p s])
    next
      case None
      then have "set p \<inter> separators = {}" using N by (auto simp: separators_def memchr_def index_from_None)
      with 1(1) [OF N None] 1(6) show ?thesis using N None by (auto intro: pattern_glob simp: match_prefix_n.simps [of p s])
    qed
  qed
next
  case (2 s j)
  show ?case by (auto intro!: exI [of _ 0] glob_nil)
next
  case (3 c p j)
  then show ?case by auto
next
  case (4 c p x s j)
  note prem = 4(4) 4(5)
  have sub: "chr CHR ''$'' \<notin> set p" "set p \<inter> separators = {}" using prem by auto
  have rec: "match_loop p s (j + 1) = 0 \<or> (\<exists>m \<le> length (x # s). match_loop p s (j + 1) = j + m \<and> glob (c # p) (take m (x # s)))"
    if "match_loop p s (j + 1) = 0 \<or> (\<exists>m \<le> length s. match_loop p s (j + 1) = j + 1 + m \<and> glob p (take m s))"
      "\<And>t. glob p t \<Longrightarrow> glob (c # p) (x # t)"
    using that(1)
  proof (elim disjE exE conjE)
    fix m assume "m \<le> length s" "match_loop p s (j + 1) = j + 1 + m" "glob p (take m s)"
    with that(2) show ?thesis by (intro disjI2 exI [of _ "Suc m"]) simp
  qed simp
  consider (any) "c = chr CHR ''?''" | (star) "c = chr CHR ''*''" | (char) "c \<noteq> chr CHR ''?''" "c \<noteq> chr CHR ''*''" by blast
  then show ?case
  proof cases
    case any
    have "match_loop (c # p) (x # s) j = match_loop p s (j + 1)" using any by simp
    moreover have "glob p t \<Longrightarrow> glob (c # p) (x # t)" for t using any by (simp add: glob_simplified)
    ultimately show ?thesis using 4(1) [OF any sub] rec by simp
  next
    case char
    show ?thesis
    proof (cases "str_util_lowercase c = str_util_lowercase x")
      case True
      have "match_loop (c # p) (x # s) j = match_loop p s (j + 1)" using char True by simp
      moreover have "glob p t \<Longrightarrow> glob (c # p) (x # t)" for t using True by (simp add: glob_char)
      ultimately show ?thesis using 4(3) [OF char(1,2) _ sub] True rec by simp
    qed (use char in simp)
  next
    case star
    define twice where "twice = (p \<noteq> [] \<and> hd p = chr CHR ''*'')"
    define p' where "p' = (if twice then tl p else p)"
    define len where "len = (if twice then length (x # s) else length (takeWhile (\<lambda>y. y \<noteq> chr CHR ''/'') (x # s)))"
    note glob = star_glob(1) [OF star sub(1) twice_def p'_def len_def]
    note eq = star_glob(2) [OF star sub(1) twice_def p'_def len_def]
    have len: "len \<le> length (x # s)" by (auto simp: len_def intro: le_trans [OF length_takeWhile_le])
    have sp: "set p' \<subseteq> set p" by (cases p) (auto simp: p'_def)
    have p': "chr CHR ''$'' \<notin> set p'" "set p' \<inter> separators = {}"
      using sub sp by auto
    show ?thesis
    proof (cases "p' = []")
      case True
      then have "glob (c # p) (take len (x # s) @ [])" by (intro glob) (auto simp: glob_nil)
      then show ?thesis using eq True len by auto
    next
      case False
      have "\<not> (p' = [] \<or> p' = [chr CHR ''$''])" using False p' by auto
      have "c \<noteq> chr CHR ''?''" using star by simp
      from 4(2) [OF this star twice_def p'_def len_def \<open>\<not> (p' = [] \<or> p' = [chr CHR ''$''])\<close> p' len]
      show ?thesis
      proof (elim disjE exE conjE)
        fix m l assume h: "m \<le> length (x # s)" "l \<le> len" "l \<le> m" "match_star p' (x # s) j len = j + m"
          "glob p' (take (m - l) (drop l (x # s)))"
        have "take m (x # s) = take l (x # s) @ take (m - l) (drop l (x # s))"
          using h(3) by (metis le_add_diff_inverse take_add)
        with glob [OF h(2) h(5)] have "glob (c # p) (take m (x # s))" by simp
        with h(1,4) eq False show ?thesis by auto
      qed (use eq False in simp_all)
    qed
  qed
next
  case (5 p s j len)
  define r where "r = match_prefix_n p (drop len s)"
  have r: "r \<le> length (drop len s)" "0 < r \<Longrightarrow> glob p (take r (drop len s))"
    using 5(1) 5(3,4) pattern_no_sep by (auto simp: r_def)
  show ?case
  proof (cases "r = 0 \<and> len \<noteq> 0")
    case True
    then have "match_star p s j len = match_star p s j (len - 1)" by (simp add: r_def Let_def match_star.simps [of p s j len] del: One_nat_def)
    moreover have "len - 1 \<le> length s" using 5(5) by simp
    from 5(2) [OF r_def True 5(3,4) this] have "match_star p s j (len - 1) = 0 \<or>
     (\<exists>m \<le> length s. \<exists>l \<le> len - 1. l \<le> m \<and> match_star p s j (len - 1) = j + m \<and> glob p (take (m - l) (drop l s)))"
      .
    ultimately show ?thesis by (metis diff_le_self le_trans)
  next
    case False
    show ?thesis
    proof (cases "r = 0")
      case True
      with False show ?thesis by (auto simp: r_def match_star.simps [of p s j])
    next
      case nz: False
      then have "match_star p s j len = j + (len + r)" by (simp add: r_def match_star.simps [of p s j len])
      then show ?thesis using r nz 5(5) by (intro disjI2 exI [of _ "len + r"]) auto
    qed
  qed
qed

text \<open>The length \<open>mg_match_prefix_n\<close> returns never exceeds the string, and when it is not zero,
  that prefix of the string does match one of the pattern's alternatives: \<open>*\<close> stands for bytes
  without a slash, \<open>**\<close> for any bytes, \<open>?\<close> for one byte and another byte for itself up to case. The
  pattern holds no \<open>$\<close>.\<close>

theorem match_prefix_sound:
  assumes "chr CHR ''$'' \<notin> set p"
  shows "match_prefix_n p s \<le> length s \<and> (0 < match_prefix_n p s \<longrightarrow> pattern p (take (match_prefix_n p s) s))"
  by (rule match_sound(1) [OF assms])

lemma match_prefix_sound_witness: "pattern (cstr ''a*f|de*'') (cstr ''abcdef'')"
proof -
  have "match_prefix_n (cstr ''a*f|de*'') (cstr ''abcdefgh'') = 6" by code_simp
  with match_prefix_sound [of "cstr ''a*f|de*''" "cstr ''abcdefgh''"] show ?thesis by simp
qed

text \<open>The documentation says that \<open>?\<close> does not match a slash; the code lets it, and a \<open>$\<close> after a star
  does not anchor the match to the end of the string.\<close>

lemma match_question_slash: "match_prefix_n (cstr ''a?b'') (cstr ''a/b'') = 3"
  by code_simp

lemma match_star_dollar: "match_prefix_n (cstr ''*$'') (cstr ''ab/c'') = 2"
  by code_simp

end
