(* ===== verification/MgPrintf.thy ===== *)
theory MgPrintf
  imports MgStr
begin

text \<open>
  The formatted printing of \<open>common/str_util.c\<close> in \<open>mongoose.c\<close>: \<open>c_itoa\<close>, \<open>c_vsnprintf\<close> and
  \<open>c_snprintf\<close>. The state of a call is the destination buffer and the count \<open>i\<close> of the bytes
  produced so far. A variable argument is a value of its C type; taking an argument of another
  type, a call of \<open>abort\<close> and the overflow of \<open>-num\<close> are \<open>None\<close>.
\<close>

datatype vararg =
    VInt u32              \<comment> \<open>int and unsigned\<close>
  | VLong u64             \<comment> \<open>long, int64_t and size_t\<close>
  | VStr "bytes option"   \<comment> \<open>char pointer, None for NULL\<close>
  | VPtr u64

type_synonym out = "bytes \<times> nat"

text \<open>\<open>C_SNPRINTF_APPEND_CHAR\<close>\<close>

definition append_char :: "nat \<Rightarrow> byte \<Rightarrow> out \<Rightarrow> out" where
  "append_char buf_size ch bi = (case bi of (buf, i) \<Rightarrow> (if i < buf_size then buf[i := ch] else buf, i + 1))"

definition append_chars :: "nat \<Rightarrow> bytes \<Rightarrow> out \<Rightarrow> out" where
  "append_chars buf_size s bi = fold (append_char buf_size) s bi"

text \<open>The digits of a number, the last one first.\<close>

function itoa_digits :: "nat \<Rightarrow> nat \<Rightarrow> bytes" where
  "itoa_digits base num =
     (if base < 2 then []
      else let r = num mod base; c = (if r < 10 then 48 + of_nat r else 97 + (of_nat r - 10))
      in if num div base = 0 then [c] else c # itoa_digits base (num div base))"
  by pat_completeness auto

termination
  by (relation "measure snd") (auto simp: div_greater_zero_iff)

declare itoa_digits.simps [simp del]

definition c_itoa :: "u64 \<Rightarrow> nat \<Rightarrow> bool \<Rightarrow> int \<Rightarrow> bytes option" where
  "c_itoa num base zero field_width =
     (let neg = sint num < 0; n = (if neg then - num else num) in
      if sint n < 0 then None
      else let tmp = itoa_digits base (unat n);
               pad = (if zero then nat (min field_width 39) - length tmp else 0)
           in Some (rev (tmp @ replicate pad 48 @ (if neg then [chr CHR ''-''] else []))))"

record conv =
  c_zero :: bool
  c_width :: int
  c_prec :: int
  c_mod :: byte
  c_char :: byte

definition digits_value :: "bytes \<Rightarrow> int" where
  "digits_value ds = foldl (\<lambda>v d. v * 10 + (uint d - 48)) 0 ds"

text \<open>A dynamic width or precision takes an \<open>int\<close> argument.\<close>

definition take_int :: "vararg list \<Rightarrow> (int \<times> vararg list) option" where
  "take_int ap = (case ap of VInt w # ap' \<Rightarrow> Some (sint w, ap') | _ \<Rightarrow> None)"

definition parse_width :: "bytes \<Rightarrow> vararg list \<Rightarrow> (int \<times> bytes \<times> vararg list) option" where
  "parse_width fmt ap =
     (let w = digits_value (takeWhile isdigit fmt); fmt = dropWhile isdigit fmt in
      if c_at fmt 0 = chr CHR ''*'' then map_option (\<lambda>(v, ap). (v, drop 1 fmt, ap)) (take_int ap)
      else Some (w, fmt, ap))"

definition parse_precision :: "bytes \<Rightarrow> vararg list \<Rightarrow> (int \<times> bytes \<times> vararg list) option" where
  "parse_precision fmt ap =
     (if c_at fmt 0 = chr CHR ''.'' then
        (let fmt = drop 1 fmt in
         if c_at fmt 0 = chr CHR ''*'' then map_option (\<lambda>(v, ap). (v, drop 1 fmt, ap)) (take_int ap)
         else Some (digits_value (takeWhile isdigit fmt), dropWhile isdigit fmt, ap))
      else Some (0, fmt, ap))"

definition parse_length :: "bytes \<Rightarrow> byte \<times> bytes" where
  "parse_length fmt =
     (if fmt \<noteq> [] \<and> hd fmt \<in> set (cstr ''hlLIqjzt'') then
        (let m = hd fmt; fmt = drop 1 fmt;
             (m, fmt) = (if c_at fmt 0 = chr CHR ''h'' then (chr CHR ''H'', drop 1 fmt) else (m, fmt))
         in if c_at fmt 0 = chr CHR ''l'' then (chr CHR ''q'', drop 1 fmt) else (m, fmt))
      else (0, fmt))"

definition parse_conv :: "bytes \<Rightarrow> vararg list \<Rightarrow> (conv \<times> bytes \<times> vararg list) option" where
  "parse_conv fmt ap =
     Option.bind (parse_width fmt ap) (\<lambda>(w, fmt1, ap1).
     Option.bind (parse_precision fmt1 ap1) (\<lambda>(p, fmt2, ap2).
     case parse_length fmt2 of (m, fmt3) \<Rightarrow>
       Some (\<lparr>c_zero = (c_at fmt 0 = chr CHR ''0''), c_width = w, c_prec = p, c_mod = m, c_char = c_at fmt3 0\<rparr>,
             drop 1 fmt3, ap2)))"

text \<open>\<open>%s\<close>: the padding is computed from the precision alone, and \<open>c_strnlen\<close> reads the string when
  the precision is positive, even a NULL one.\<close>

definition conv_string :: "conv \<Rightarrow> bytes option \<Rightarrow> bytes option" where
  "conv_string c s =
     (case s of
        None \<Rightarrow> if 0 < c_prec c then None else Some (replicate (nat (c_width c)) 32)
      | Some s \<Rightarrow>
        (let s = c_str s; pad = nat (c_width c - (if 0 \<le> c_prec c then int (c_strnlen s (nat (c_prec c))) else 0))
         in Some (replicate pad 32 @ (if c_prec c \<le> 0 then s else take (nat (c_prec c)) s))))"

definition conv_signed :: "conv \<Rightarrow> vararg \<Rightarrow> bytes option" where
  "conv_signed c a =
     (case a of
        VInt w \<Rightarrow> if c_mod c = 0 then c_itoa (scast w) 10 (c_zero c) (c_width c) else None
      | VLong w \<Rightarrow> if c_mod c \<in> {chr CHR ''l'', chr CHR ''z'', chr CHR ''q''}
                  then c_itoa w 10 (c_zero c) (c_width c) else None
      | _ \<Rightarrow> None)"

definition conv_unsigned :: "conv \<Rightarrow> vararg \<Rightarrow> bytes option" where
  "conv_unsigned c a =
     (let base = (if c_char c = chr CHR ''x'' then 16 else 10) in
      case a of
        VInt w \<Rightarrow> if c_mod c = 0 then c_itoa (ucast w) base (c_zero c) (c_width c) else None
      | VLong w \<Rightarrow> if c_mod c \<in> {chr CHR ''l'', chr CHR ''z''}
                  then c_itoa w base (c_zero c) (c_width c) else None
      | _ \<Rightarrow> None)"

text \<open>What one conversion produces; an unknown one calls \<open>abort\<close>.\<close>

definition convert :: "conv \<Rightarrow> vararg list \<Rightarrow> (bytes \<times> vararg list) option" where
  "convert c ap =
     (case ap of [] \<Rightarrow> None
      | a # ap' \<Rightarrow> map_option (\<lambda>s. (s, ap'))
         (if c_char c = chr CHR ''s'' then (case a of VStr s \<Rightarrow> conv_string c s | _ \<Rightarrow> None)
          else if c_char c = chr CHR ''c'' then (case a of VInt w \<Rightarrow> Some [ucast w] | _ \<Rightarrow> None)
          else if c_char c = chr CHR ''d'' then conv_signed c a
          else if c_char c = chr CHR ''x'' \<or> c_char c = chr CHR ''u'' then conv_unsigned c a
          else if c_char c = chr CHR ''p'' then
            (case a of VPtr w \<Rightarrow> map_option (\<lambda>d. cstr ''0x'' @ d) (c_itoa w 16 (c_zero c) 0) | _ \<Rightarrow> None)
          else None))"

lemma parse_width_length: "parse_width fmt ap = Some (w, fmt', ap') \<Longrightarrow> length fmt' \<le> length fmt"
  using length_dropWhile_le [of isdigit fmt]
  by (auto simp: parse_width_def Let_def split: if_splits)

lemma parse_precision_length: "parse_precision fmt ap = Some (w, fmt', ap') \<Longrightarrow> length fmt' \<le> length fmt"
  using length_dropWhile_le [of isdigit "drop 1 fmt"]
  by (auto simp: parse_precision_def Let_def split: if_splits)

lemma parse_length_length: "parse_length fmt = (m, fmt') \<Longrightarrow> length fmt' \<le> length fmt"
  by (auto simp: parse_length_def Let_def split: if_splits prod.splits)

lemma parse_conv_length: "parse_conv fmt ap = Some (c, fmt', ap') \<Longrightarrow> length fmt' \<le> length fmt"
  by (cases "parse_length (fst (snd (the (parse_precision (fst (snd (the (parse_width fmt ap)))) (snd (snd (the (parse_width fmt ap))))))))")
    (fastforce simp: parse_conv_def bind_eq_Some_conv
      dest: parse_width_length parse_precision_length parse_length_length)

lemma bind_option_cong [fundef_cong]:
  "m = m' \<Longrightarrow> (\<And>x. m' = Some x \<Longrightarrow> f x = g x) \<Longrightarrow> Option.bind m f = Option.bind m' g"
  by (cases m') auto

function (sequential) vsnprintf_loop :: "nat \<Rightarrow> bytes \<Rightarrow> vararg list \<Rightarrow> out \<Rightarrow> out option" where
  "vsnprintf_loop buf_size [] ap st = Some st"
| "vsnprintf_loop buf_size (ch # fmt) ap st =
     (if ch \<noteq> chr CHR ''%'' then vsnprintf_loop buf_size fmt ap (append_char buf_size ch st)
      else Option.bind (parse_conv fmt ap) (\<lambda>(c, fmt', ap').
           Option.bind (convert c ap') (\<lambda>(s, ap'').
             vsnprintf_loop buf_size fmt' ap'' (append_chars buf_size s st))))"
  by pat_completeness auto

termination
  by (relation "measure (\<lambda>(n, fmt, ap, st). length fmt)") (auto dest: parse_conv_length)

text \<open>The buffer is below 2 GiB, so that its size is an \<open>int\<close>.\<close>

definition c_vsnprintf :: "bytes \<Rightarrow> nat \<Rightarrow> bytes \<Rightarrow> vararg list \<Rightarrow> out option" where
  "c_vsnprintf buf buf_size fmt ap =
     map_option (\<lambda>(buf, i). (if 0 < buf_size then buf[(if i < buf_size then i else buf_size - 1) := 0] else buf, i))
       (vsnprintf_loop buf_size fmt ap (buf, 0))"

definition c_snprintf :: "bytes \<Rightarrow> nat \<Rightarrow> bytes \<Rightarrow> vararg list \<Rightarrow> out option" where
  "c_snprintf buf buf_size fmt ap = c_vsnprintf buf buf_size fmt ap"

section \<open>What a call writes\<close>

lemma append_chars_append: "append_chars n (s @ t) st = append_chars n t (append_chars n s st)"
  by (simp add: append_chars_def)

lemma append_chars_Cons: "append_chars n (c # t) st = append_chars n t (append_char n c st)"
  by (simp add: append_chars_def)

lemma append_chars_eq:
  "length buf = n \<Longrightarrow> append_chars n s (buf, i) = (take i buf @ take (n - i) s @ drop (i + length s) buf, i + length s)"
proof (induction s arbitrary: buf i)
  case (Cons c s)
  show ?case
  proof (cases "i < n")
    case True
    then have "take (n - i) (c # s) = c # take (n - Suc i) s" by (simp add: take_Cons')
    with Cons True show ?thesis
      by (simp add: append_chars_Cons append_char_def take_Suc_conv_app_nth take_update_swap list_update_append Cons.IH)
  qed (use Cons in \<open>simp add: append_chars_Cons append_char_def Cons.IH\<close>)
qed (simp add: append_chars_def)

text \<open>The bytes produced do not depend on the buffer.\<close>

lemma vsnprintf_produces: "\<exists>r. \<forall>n st. vsnprintf_loop n fmt ap st = map_option (\<lambda>s. append_chars n s st) r"
proof (induction "length fmt" arbitrary: fmt ap rule: less_induct)
  case less
  show ?case
  proof (cases fmt)
    case Nil
    then show ?thesis by (intro exI [of _ "Some []"]) (simp add: append_chars_def)
  next
    case (Cons ch fmt')
    show ?thesis
    proof (cases "ch = chr CHR ''%''")
      case False
      from less [of fmt' ap] Cons obtain r where
        "\<forall>n st. vsnprintf_loop n fmt' ap st = map_option (\<lambda>s. append_chars n s st) r" by auto
      then show ?thesis using Cons False
        by (intro exI [of _ "map_option (\<lambda>s. ch # s) r"]) (cases r; simp add: append_chars_Cons del: split_paired_All)
    next
      case True
      have step: "vsnprintf_loop n fmt ap st = Option.bind (parse_conv fmt' ap) (\<lambda>(c, fmt', ap').
           Option.bind (convert c ap') (\<lambda>(s, ap''). vsnprintf_loop n fmt' ap'' (append_chars n s st)))" for n st
        using Cons True by simp
      show ?thesis
      proof (cases "\<exists>c fmt1 ap1 s ap2. parse_conv fmt' ap = Some (c, fmt1, ap1) \<and> convert c ap1 = Some (s, ap2)")
        case False
        then have "vsnprintf_loop n fmt ap st = None" for n st
          by (cases "parse_conv fmt' ap"; cases "convert (fst (the (parse_conv fmt' ap))) (snd (snd (the (parse_conv fmt' ap))))")
            (auto simp: step)
        then show ?thesis by (intro exI [of _ None]) simp
      next
        case True
        then obtain c fmt1 ap1 s ap2 where h: "parse_conv fmt' ap = Some (c, fmt1, ap1)" "convert c ap1 = Some (s, ap2)"
          by blast
        from less [of fmt1 ap2] Cons parse_conv_length [OF h(1)] obtain r where
          "\<forall>n st. vsnprintf_loop n fmt1 ap2 st = map_option (\<lambda>s. append_chars n s st) r" by auto
        with h show ?thesis
          by (intro exI [of _ "map_option (\<lambda>t. s @ t) r"]) (cases r; simp add: step append_chars_append del: split_paired_All)
      qed
    qed
  qed
qed

lemma vsnprintf_eq:
  "\<exists>r. \<forall>n buf. length buf = n \<longrightarrow> vsnprintf_loop n fmt ap (buf, 0) =
     map_option (\<lambda>s. (take n s @ drop (length s) buf, length s)) r"
  using vsnprintf_produces [of fmt ap] by (auto simp: append_chars_eq)

text \<open>Printing into a buffer of \<open>n\<close> bytes returns the same count as printing into a larger one, stays
  within the \<open>n\<close> bytes, ends the text with a NUL and stores the prefix of the longer text that
  fits before it.\<close>

theorem snprintf_truncates:
  assumes "length b = n" "length b' = m" "0 < n" "n \<le> m" "c_snprintf b' m fmt ap = Some (s', i)"
  shows "\<exists>s. c_snprintf b n fmt ap = Some (s, i) \<and> length s = n \<and> s ! min i (n - 1) = 0 \<and>
     take (min i (n - 1)) s = take (min i (n - 1)) s'"
proof -
  from vsnprintf_eq obtain r where r: "\<And>n buf. length buf = n \<Longrightarrow> vsnprintf_loop n fmt ap (buf, 0) =
     map_option (\<lambda>s. (take n s @ drop (length s) buf, length s)) r" by blast
  with assms obtain t where t: "r = Some t" "length t = i" by (auto simp: c_snprintf_def c_vsnprintf_def)
  let ?k = "min i (n - 1)"
  have s': "s' = (take m t @ drop i b')[(if i < m then i else m - 1) := 0]"
    using assms t r by (auto simp: c_snprintf_def c_vsnprintf_def)
  have k: "(if i < n then i else n - 1) = ?k" using assms by simp
  have j: "?k \<le> (if i < m then i else m - 1)" using assms by auto
  show ?thesis
  proof (intro exI conjI)
    show "c_snprintf b n fmt ap = Some ((take n t @ drop i b)[?k := 0], i)"
      using assms r [of b n] t k by (simp add: c_snprintf_def c_vsnprintf_def)
    show "(take n t @ drop i b)[?k := 0] ! ?k = 0" using assms t by (intro nth_list_update_eq) auto
    show "take ?k ((take n t @ drop i b)[?k := 0]) = take ?k s'"
      using assms t j unfolding s' by (simp add: min_def)
  qed (use assms t in auto)
qed

lemma snprintf_truncates_witness:
  "\<exists>s. c_snprintf (replicate 6 1) 6 (cstr ''%s is %05d'') [VStr (Some (cstr ''x'')), VInt 42] = Some (s, 10) \<and>
     take 5 s = cstr ''x is ''"
proof -
  have "c_snprintf (replicate 16 1) 16 (cstr ''%s is %05d'') [VStr (Some (cstr ''x'')), VInt 42] =
      Some (cstr ''x is 00042'' @ [0, 1, 1, 1, 1, 1], 10)"
    by code_simp
  from snprintf_truncates [OF _ _ _ _ this, of "replicate 6 1" 6] show ?thesis by auto
qed

text \<open>An unsigned argument of 64 bits with its top bit set is printed as a negative number.\<close>

lemma snprintf_unsigned_negative:
  "c_snprintf (replicate 4 1) 4 (cstr ''%lu'') [VLong (- 5)] = Some (cstr ''-5'' @ [0, 1], 2)"
  by code_simp

section \<open>Decimal numbers\<close>

lemma to64_digits_foldl:
  "list_all isdigit s \<Longrightarrow> to64_digits s r = foldl (\<lambda>r c. r * 10 + (ucast c - 48)) r s"
  by (induction s arbitrary: r) auto

lemma digit_value: "d < 10 \<Longrightarrow> isdigit (48 + of_nat d) \<and> (ucast (48 + of_nat d :: byte) - 48 :: u64) = of_nat d"
proof -
  assume "d < 10"
  then have "d \<in> set [0..<10]" by simp
  moreover have "\<forall>d \<in> set [0..<10]. isdigit (48 + of_nat d) \<and> (ucast (48 + of_nat d :: byte) - 48 :: u64) = of_nat d" by code_simp
  ultimately show ?thesis by blast
qed

lemma itoa_digits_decimal:
  "list_all isdigit (itoa_digits 10 n) \<and> itoa_digits 10 n \<noteq> [] \<and>
   foldl (\<lambda>r c. r * 10 + (ucast c - 48)) (0 :: u64) (rev (itoa_digits 10 n)) = of_nat n"
proof (induction n rule: less_induct)
  case (less n)
  have m: "n mod 10 < 10" by simp
  show ?case
  proof (cases "n div 10 = 0")
    case True
    then show ?thesis using digit_value [OF m] by (simp add: itoa_digits.simps [of 10 n] Let_def div_eq_0_iff)
  next
    case False
    then have "n div 10 < n" by (simp add: div_greater_zero_iff)
    from less [OF this] have ih: "list_all isdigit (itoa_digits 10 (n div 10))"
      "foldl (\<lambda>r c. r * 10 + (ucast c - 48)) (0 :: u64) (rev (itoa_digits 10 (n div 10))) = of_nat (n div 10)" by auto
    have "(of_nat (n div 10) * 10 + of_nat (n mod 10) :: u64) = of_nat (n div 10 * 10 + n mod 10)" by (simp only: of_nat_add of_nat_mult of_nat_numeral)
    also have "n div 10 * 10 + n mod 10 = n" by simp
    finally have "(of_nat (n div 10) * 10 + of_nat (n mod 10) :: u64) = of_nat n" .
    then show ?thesis using False digit_value [OF m] ih by (simp add: itoa_digits.simps [of 10 n] Let_def)
  qed
qed

lemma isdigit_not_space: "isdigit c \<Longrightarrow> \<not> isspace c \<and> c \<noteq> 45"
  by (auto simp: isdigit_def isspace_def word_le_nat_alt)

lemma neg_not_negative:
  fixes v :: u64
  assumes "v \<noteq> 0x8000000000000000"
  shows "\<not> sint (if sint v < 0 then - v else v) < 0"
proof (cases "sint v < 0")
  case True
  then have "0x8000000000000000 \<le> unat v" by (simp add: sint_neg_iff)
  moreover have neq: "unat v \<noteq> 0x8000000000000000"
    using assms unsigned_word_eqI [of v "0x8000000000000000 :: u64"] by auto
  moreover have "uint v mod 18446744073709551616 = uint v" using uint_bounded [of v] by simp
  then have "uint (- v) = 0x10000000000000000 - uint v"
    using True by (cases "v = 0") (simp_all add: uint_word_ariths zmod_zminus1_eq_if uint_0_iff)
  then have "int (unat (- v)) = 0x10000000000000000 - int (unat v)" by simp
  ultimately have "\<not> 0x8000000000000000 \<le> unat (- v)" by linarith
  then show ?thesis using True by (simp add: sint_neg_iff)
qed simp

lemma isspace_minus: "\<not> isspace 45"
  by code_simp

text \<open>Any 64-bit number but the least one, printed in decimal by \<open>c_itoa\<close>, is read back by
  \<open>cs_to64\<close>.\<close>

theorem itoa_to64:
  assumes "v \<noteq> 0x8000000000000000"
  shows "\<exists>s. c_itoa v 10 False 0 = Some s \<and> cs_to64 s = v"
proof -
  define n where "n = (if sint v < 0 then - v else v)"
  define d where "d = rev (itoa_digits 10 (unat n))"
  have n: "\<not> sint n < 0" unfolding n_def using assms by (rule neg_not_negative)
  have d: "list_all isdigit d" "d \<noteq> []" "to64_digits d 0 = n"
    using itoa_digits_decimal [of "unat n"] by (auto simp: d_def to64_digits_foldl)
  then obtain c d' where cd: "d = c # d'" by (cases d) auto
  then have c: "\<not> isspace c" "c \<noteq> 45" using isdigit_not_space d(1) by auto
  have "c_itoa v 10 False 0 = Some ((if sint v < 0 then [45] else []) @ d)"
    using n by (simp add: c_itoa_def n_def [symmetric] d_def Let_def)
  moreover have "cs_to64 ((if sint v < 0 then [45] else []) @ d) = v"
    using d c by (simp add: cs_to64_def cd n_def c isspace_minus Let_def)
  ultimately show ?thesis by blast
qed

lemma itoa_to64_witness: "\<exists>s. c_itoa (- 42) 10 False 0 = Some s \<and> cs_to64 s = - 42"
  by (rule itoa_to64) simp

end
