(* ===== verification/HashStream.thy ===== *)
theory HashStream
  imports Prelude
begin

text \<open>
  What the two hash functions of \<open>mongoose.c\<close> share: messages cut into blocks of 64 bytes, the
  64-bit count of bits kept as two 32-bit words, and the contract of an incremental digest, stated
  as a locale whose clients feed a message in any pieces.
\<close>

section \<open>Blocks of 64 bytes\<close>

function run_blocks :: "('s \<Rightarrow> bytes \<Rightarrow> 's) \<Rightarrow> 's \<Rightarrow> bytes \<Rightarrow> 's" where
  "run_blocks step s m = (if length m < 64 then s else run_blocks step (step s (take 64 m)) (drop 64 m))"
  by pat_completeness auto

termination
  by (relation "measure (\<lambda>(step, s, m). length m)") auto

declare run_blocks.simps [simp del]

definition tail :: "bytes \<Rightarrow> bytes" where
  "tail m = drop (length m - length m mod 64) m"

lemma run_blocks_short [simp]: "length m < 64 \<Longrightarrow> run_blocks step s m = s"
  by (simp add: run_blocks.simps)

lemma run_blocks_block [simp]: "length b = 64 \<Longrightarrow> run_blocks step s (b @ m) = run_blocks step (step s b) m"
  by (simp add: run_blocks.simps [of step s "b @ m"])

lemma run_blocks_append:
  "length m mod 64 = 0 \<Longrightarrow> run_blocks step s (m @ d) = run_blocks step (run_blocks step s m) d"
proof (induction step s m rule: run_blocks.induct)
  case (1 step s m)
  show ?case
  proof (cases "length m < 64")
    case False
    then have "length (drop 64 m) mod 64 = 0" using 1(2) by (simp add: le_mod_geq)
    with 1(1) [OF False] have
      "run_blocks step (step s (take 64 m)) (drop 64 m @ d) = run_blocks step (run_blocks step (step s (take 64 m)) (drop 64 m)) d"
      by simp
    then show ?thesis using False by (simp add: run_blocks.simps [of step s m] run_blocks.simps [of step s "m @ d"])
  qed (use 1 in simp)
qed

lemma length_tail [simp]: "length (tail m) = length m mod 64"
  by (simp add: tail_def)

lemma block_split: obtains k where "k @ tail m = m" "length k mod 64 = 0"
proof
  show "take (length m - length m mod 64) m @ tail m = m" by (simp add: tail_def)
  have "length (take (length m - length m mod 64) m) = length m - length m mod 64" by simp
  also have "\<dots> = 64 * (length m div 64)" by (rule minus_mod_eq_mult_div)
  finally show "length (take (length m - length m mod 64) m) mod 64 = 0" by (simp only: mod_mult_self1_is_0)
qed

lemma run_blocks_tail: "run_blocks step s (m @ d) = run_blocks step (run_blocks step s m) (tail m @ d)"
proof -
  obtain k where k: "k @ tail m = m" "length k mod 64 = 0" by (rule block_split)
  note app = run_blocks_append [OF k(2)]
  have "m @ d = k @ (tail m @ d)" using k(1) by (simp flip: append_assoc)
  then have "run_blocks step s (m @ d) = run_blocks step s (k @ (tail m @ d))" by (rule arg_cong)
  also have "\<dots> = run_blocks step (run_blocks step s k) (tail m @ d)" by (rule app)
  also have "run_blocks step s k = run_blocks step s m"
    using app [of step s "tail m"] k(1) by (simp add: mod_less_divisor)
  finally show ?thesis .
qed

lemma tail_append: "tail (m @ d) = tail (tail m @ d)"
proof -
  obtain k where k: "k @ tail m = m" "length k mod 64 = 0" by (rule block_split)
  have "tail (k @ e) = tail e" for e
  proof -
    have "(length k + length e) mod 64 = length e mod 64"
      using k(2) mod_add_left_eq [of "length k" 64 "length e"] by simp
    moreover have "length e mod 64 \<le> length e" by simp
    ultimately show ?thesis by (simp add: tail_def)
  qed
  then have "tail (k @ (tail m @ d)) = tail (tail m @ d)" .
  moreover have "m @ d = k @ (tail m @ d)" using k(1) by (simp flip: append_assoc)
  ultimately show ?thesis by (rule trans [OF arg_cong, rotated])
qed

lemma tail_short [simp]: "length m < 64 \<Longrightarrow> tail m = m"
  by (simp add: tail_def)

lemma tail_block [simp]: "length b = 64 \<Longrightarrow> tail (b @ m) = tail m"
  by (simp add: tail_def)

section \<open>The count of bits\<close>

definition counts :: "u32 \<Rightarrow> u32 \<Rightarrow> nat \<Rightarrow> bool" where
  "counts lo hi n = (lo = of_nat (8 * n) \<and> hi = of_nat (8 * n div 2 ^ 32))"

lemma counts_0: "counts 0 0 0"
  by (simp add: counts_def)

lemma u32_carry: "a + b < a \<longleftrightarrow> 2 ^ 32 \<le> unat a + unat b" for a b :: u32
proof -
  have "unat (a + b) = (unat a + unat b) mod 2 ^ 32" by (simp add: unat_word_ariths)
  moreover have "unat a < 2 ^ 32" "unat b < 2 ^ 32" using unsigned_less [of a] unsigned_less [of b] by simp_all
  ultimately show ?thesis
    by (cases "unat a + unat b < 2 ^ 32") (simp_all add: word_less_nat_alt le_mod_geq)
qed

lemma carry_div: "x < c \<Longrightarrow> y < c \<Longrightarrow> (x + y) div c = (if c \<le> x + y then 1 else 0)" for c :: nat
  by (auto intro: div_nat_eqI)

text \<open>The update of the count, with its carry, for a piece of less than 4 GiB.\<close>

lemma counts_add:
  assumes "counts lo hi n" "len < 2 ^ 32" "lo' = lo + push_bit 3 (of_nat len)"
  shows "counts lo' ((if lo' < lo then hi + 1 else hi) + drop_bit 29 (of_nat len)) (n + len)"
proof -
  let ?c = "2 ^ 32 :: nat"
  have lo: "unat lo = 8 * n mod ?c" using assms by (simp only: counts_def unat_of_nat) simp
  have b: "unat (push_bit 3 (of_nat len) :: u32) = 8 * len mod ?c"
    using assms by (simp add: unat_push_bit unat_of_nat mult.commute)
  have "push_bit 3 (of_nat len) = (of_nat (8 * len) :: u32)" by (simp add: push_bit_eq_mult)
  then have lo': "lo' = of_nat (8 * (n + len))" using assms by (simp add: counts_def distrib_left)
  have d: "drop_bit 29 (of_nat len) = (of_nat (8 * len div ?c) :: u32)"
  proof -
    have "unat (drop_bit 29 (of_nat len) :: u32) = len div 2 ^ 29"
      using assms by (simp add: unat_drop_bit_div unat_of_nat)
    moreover have "8 * len div ?c = len div 2 ^ 29" by simp
    moreover have "len div 2 ^ 29 < ?c" using assms(2) by simp
    ultimately have "unat (drop_bit 29 (of_nat len) :: u32) = unat (of_nat (8 * len div ?c) :: u32)" by (simp add: unat_of_nat)
    then show ?thesis by (rule unsigned_word_eqI)
  qed
  have "8 * (n + len) div ?c = 8 * n div ?c + 8 * len div ?c + (8 * n mod ?c + 8 * len mod ?c) div ?c"
    unfolding distrib_left by (rule div_add1_eq)
  moreover have "lo' < lo \<longleftrightarrow> ?c \<le> 8 * n mod ?c + 8 * len mod ?c"
    by (simp only: assms(3) u32_carry lo b)
  moreover have "(8 * n mod ?c + 8 * len mod ?c) div ?c = (if ?c \<le> 8 * n mod ?c + 8 * len mod ?c then 1 else 0)"
    by (rule carry_div; rule mod_less_divisor; simp only: zero_less_power zero_less_numeral)
  ultimately have q: "8 * (n + len) div ?c = 8 * n div ?c + 8 * len div ?c + (if lo' < lo then 1 else 0)" by simp
  have hi: "hi = of_nat (8 * n div ?c)" using assms(1) by (simp only: counts_def)
  show ?thesis unfolding counts_def q lo' [symmetric] d hi by (simp only: of_nat_add if_distrib) simp
qed

lemma counts_fill: "counts lo hi n \<Longrightarrow> unat (drop_bit 3 lo AND 0x3f) = n mod 64"
proof -
  assume "counts lo hi n"
  then have lo: "unat lo = 8 * n mod 2 ^ 32" by (simp only: counts_def unat_of_nat) simp
  have "drop_bit 3 lo AND 0x3f = take_bit 6 (drop_bit 3 lo)" by (simp add: take_bit_eq_mask mask_eq_exp_minus_1)
  then have "unat (drop_bit 3 lo AND 0x3f) = take_bit 6 (unat (drop_bit 3 lo))" by (simp only: unsigned_take_bit_eq)
  also have "\<dots> = 8 * n mod 2 ^ 32 div 8 mod 64" by (simp add: take_bit_eq_mod unat_drop_bit_div lo)
  also have "8 * n mod 2 ^ 32 div 8 = n mod 2 ^ 29" using mult_mod_right [of 8 n "2 ^ 29"] by simp
  also have "n mod 2 ^ 29 mod 64 = n mod 64" using mod_mod_cancel [of 64 "2 ^ 29" n] by simp
  finally show ?thesis .
qed

section \<open>Padding\<close>

text \<open>The zero bytes between the byte \<open>0x80\<close> after the message and the eight bytes of its length.\<close>

definition pad_zeros :: "nat \<Rightarrow> nat" where
  "pad_zeros n = (if n mod 64 < 56 then 55 - n mod 64 else 119 - n mod 64)"

definition padded :: "bytes \<Rightarrow> bytes \<Rightarrow> bytes" where
  "padded m len8 = m @ [0x80] @ replicate (pad_zeros (length m)) 0 @ len8"

lemma run_one_block: "length b = 64 \<Longrightarrow> run_blocks step s b = step s b"
  using run_blocks_block [of b step s "[]"] by simp

lemma run_padded:
  assumes "length len8 = 8"
  shows "run_blocks step s (padded m len8) =
     (let r = length m mod 64; st = run_blocks step s m
      in if r < 56 then step st (tail m @ [0x80] @ replicate (55 - r) 0 @ len8)
         else step (step st (tail m @ [0x80] @ replicate (63 - r) 0)) (replicate 56 0 @ len8))"
proof -
  define r where "r = length m mod 64"
  have r: "r < 64" "length (tail m) = r" by (simp_all add: r_def)
  have "run_blocks step s (padded m len8) = run_blocks step (run_blocks step s m) (tail m @ [0x80] @ replicate (pad_zeros (length m)) 0 @ len8)"
    unfolding padded_def by (rule run_blocks_tail)
  also have "\<dots> = (if r < 56 then step (run_blocks step s m) (tail m @ [0x80] @ replicate (55 - r) 0 @ len8)
         else step (step (run_blocks step s m) (tail m @ [0x80] @ replicate (63 - r) 0)) (replicate 56 0 @ len8))"
  proof (cases "r < 56")
    case True
    then show ?thesis using r assms by (simp add: pad_zeros_def r_def [symmetric] run_one_block)
  next
    case False
    then have "119 - r = (63 - r) + 56" using r by simp
    then have "replicate (119 - r) (0 :: byte) = replicate (63 - r) 0 @ replicate 56 0" by (simp only: replicate_add)
    then have eq: "tail m @ [0x80] @ replicate (119 - r) 0 @ len8 = (tail m @ [0x80] @ replicate (63 - r) 0) @ (replicate 56 0 @ len8)"
      by (simp only: append_assoc)
    have b1: "length (tail m @ [0x80] @ replicate (63 - r) 0) = 64" using r by simp
    have b2: "length (replicate 56 0 @ len8) = 64" using assms by simp
    have "pad_zeros (length m) = 119 - r" using False by (simp add: pad_zeros_def r_def)
    then show ?thesis using False by (simp only: eq run_blocks_block [OF b1] run_one_block [OF b2] if_False)
  qed
  finally show ?thesis by (simp add: Let_def r_def)
qed

section \<open>The contract of an incremental digest\<close>

text \<open>
  \<open>holds c m\<close>: the context \<open>c\<close> has absorbed the message \<open>m\<close>. One update takes less than \<open>limit\<close>
  bytes. The client may cut its message anywhere.
\<close>

locale hash_stream =
  fixes init :: 'c and update :: "'c \<Rightarrow> bytes \<Rightarrow> 'c" and finish :: "'c \<Rightarrow> bytes"
    and digest :: "bytes \<Rightarrow> bytes" and holds :: "'c \<Rightarrow> bytes \<Rightarrow> bool" and limit :: nat
  assumes holds_init: "holds init []"
    and holds_update: "holds c m \<Longrightarrow> length d < limit \<Longrightarrow> holds (update c d) (m @ d)"
    and holds_finish: "holds c m \<Longrightarrow> finish c = digest m"
begin

lemma holds_foldl: "holds c m \<Longrightarrow> \<forall>d \<in> set ds. length d < limit \<Longrightarrow> holds (foldl update c ds) (m @ concat ds)"
proof (induction ds arbitrary: c m)
  case (Cons d ds)
  have "holds (update c d) (m @ d)" using Cons.prems by (intro holds_update) simp_all
  from Cons.IH [OF this] Cons.prems show ?case by simp
qed simp

lemma pieces: "\<forall>d \<in> set ds. length d < limit \<Longrightarrow> finish (foldl update init ds) = digest (concat ds)"
  using holds_foldl [OF holds_init, of ds] by (simp add: holds_finish)

lemma pieces_irrelevant:
  "\<forall>d \<in> set ds. length d < limit \<Longrightarrow> \<forall>d \<in> set es. length d < limit \<Longrightarrow> concat ds = concat es \<Longrightarrow>
   finish (foldl update init ds) = finish (foldl update init es)"
  by (simp add: pieces)

end

end
