(* ===== verification/MgMd5.thy ===== *)
theory MgMd5
  imports HashStream
begin

text \<open>
  \<open>common/cs_md5.c\<close> in \<open>mongoose.c\<close> on a little-endian machine (\<open>byteReverse\<close> does nothing), and the
  proof that it computes RFC 1321's digest of the padded message, whatever the pieces.
\<close>

section \<open>The code\<close>

type_synonym md5_state = "u32 \<times> u32 \<times> u32 \<times> u32"

record md5_ctx =
  md5_buf :: md5_state
  md5_bits0 :: u32
  md5_bits1 :: u32
  md5_in :: bytes

definition rotl32 :: "nat \<Rightarrow> u32 \<Rightarrow> u32" where
  "rotl32 n w = push_bit n w OR drop_bit (32 - n) w"

text \<open>A 32-bit word of the block, as the machine reads it, and the bytes of a word.\<close>

definition le_word :: "bytes \<Rightarrow> nat \<Rightarrow> u32" where
  "le_word b i = ucast (b ! (4 * i)) OR push_bit 8 (ucast (b ! (4 * i + 1)))
     OR push_bit 16 (ucast (b ! (4 * i + 2))) OR push_bit 24 (ucast (b ! (4 * i + 3)))"

definition le_bytes :: "u32 \<Rightarrow> bytes" where
  "le_bytes w = [ucast w, ucast (drop_bit 8 w), ucast (drop_bit 16 w), ucast (drop_bit 24 w)]"

definition F1 :: "u32 \<Rightarrow> u32 \<Rightarrow> u32 \<Rightarrow> u32" where "F1 x y z = z XOR (x AND (y XOR z))"
definition F2 :: "u32 \<Rightarrow> u32 \<Rightarrow> u32 \<Rightarrow> u32" where "F2 x y z = F1 z x y"
definition F3 :: "u32 \<Rightarrow> u32 \<Rightarrow> u32 \<Rightarrow> u32" where "F3 x y z = x XOR y XOR z"
definition F4 :: "u32 \<Rightarrow> u32 \<Rightarrow> u32 \<Rightarrow> u32" where "F4 x y z = y XOR (x OR NOT z)"

text \<open>
  One \<open>MD5STEP\<close>: the step writes its first register, and the next line of the code names the
  registers rotated by one, which the result order expresses.
\<close>

definition md5_step :: "(u32 \<Rightarrow> u32 \<Rightarrow> u32 \<Rightarrow> u32) \<Rightarrow> bytes \<Rightarrow> md5_state \<Rightarrow> nat \<times> u32 \<times> nat \<Rightarrow> md5_state" where
  "md5_step f blk st row =
     (case st of (w, x, y, z) \<Rightarrow> case row of (i, k, s) \<Rightarrow>
        (let w = w + (f x y z + (le_word blk i + k)); w = rotl32 s w; w = w + x in (z, w, x, y)))"

text \<open>The four rounds of sixteen steps: index of the data word, constant, shift.\<close>

definition md5_round1 :: "(nat \<times> u32 \<times> nat) list" where
  "md5_round1 =
    [(0, 0xd76aa478, 7), (1, 0xe8c7b756, 12), (2, 0x242070db, 17), (3, 0xc1bdceee, 22),
     (4, 0xf57c0faf, 7), (5, 0x4787c62a, 12), (6, 0xa8304613, 17), (7, 0xfd469501, 22),
     (8, 0x698098d8, 7), (9, 0x8b44f7af, 12), (10, 0xffff5bb1, 17), (11, 0x895cd7be, 22),
     (12, 0x6b901122, 7), (13, 0xfd987193, 12), (14, 0xa679438e, 17), (15, 0x49b40821, 22)]"

definition md5_round2 :: "(nat \<times> u32 \<times> nat) list" where
  "md5_round2 =
    [(1, 0xf61e2562, 5), (6, 0xc040b340, 9), (11, 0x265e5a51, 14), (0, 0xe9b6c7aa, 20),
     (5, 0xd62f105d, 5), (10, 0x02441453, 9), (15, 0xd8a1e681, 14), (4, 0xe7d3fbc8, 20),
     (9, 0x21e1cde6, 5), (14, 0xc33707d6, 9), (3, 0xf4d50d87, 14), (8, 0x455a14ed, 20),
     (13, 0xa9e3e905, 5), (2, 0xfcefa3f8, 9), (7, 0x676f02d9, 14), (12, 0x8d2a4c8a, 20)]"

definition md5_round3 :: "(nat \<times> u32 \<times> nat) list" where
  "md5_round3 =
    [(5, 0xfffa3942, 4), (8, 0x8771f681, 11), (11, 0x6d9d6122, 16), (14, 0xfde5380c, 23),
     (1, 0xa4beea44, 4), (4, 0x4bdecfa9, 11), (7, 0xf6bb4b60, 16), (10, 0xbebfbc70, 23),
     (13, 0x289b7ec6, 4), (0, 0xeaa127fa, 11), (3, 0xd4ef3085, 16), (6, 0x04881d05, 23),
     (9, 0xd9d4d039, 4), (12, 0xe6db99e5, 11), (15, 0x1fa27cf8, 16), (2, 0xc4ac5665, 23)]"

definition md5_round4 :: "(nat \<times> u32 \<times> nat) list" where
  "md5_round4 =
    [(0, 0xf4292244, 6), (7, 0x432aff97, 10), (14, 0xab9423a7, 15), (5, 0xfc93a039, 21),
     (12, 0x655b59c3, 6), (3, 0x8f0ccc92, 10), (10, 0xffeff47d, 15), (1, 0x85845dd1, 21),
     (8, 0x6fa87e4f, 6), (15, 0xfe2ce6e0, 10), (6, 0xa3014314, 15), (13, 0x4e0811a1, 21),
     (4, 0xf7537e82, 6), (11, 0xbd3af235, 10), (2, 0x2ad7d2bb, 15), (9, 0xeb86d391, 21)]"

definition cs_md5_transform :: "md5_state \<Rightarrow> bytes \<Rightarrow> md5_state" where
  "cs_md5_transform st blk =
     (let s1 = foldl (md5_step F1 blk) st md5_round1;
          s2 = foldl (md5_step F2 blk) s1 md5_round2;
          s3 = foldl (md5_step F3 blk) s2 md5_round3
      in case (st, foldl (md5_step F4 blk) s3 md5_round4) of
           ((p, q, r, s), (a, b, c, d)) \<Rightarrow> (p + a, q + b, r + c, s + d))"

definition md5_init_state :: md5_state where
  "md5_init_state = (0x67452301, 0xefcdab89, 0x98badcfe, 0x10325476)"

definition cs_md5_init :: md5_ctx where
  "cs_md5_init = \<lparr>md5_buf = md5_init_state, md5_bits0 = 0, md5_bits1 = 0, md5_in = replicate 64 0\<rparr>"

definition memcpy_at :: "nat \<Rightarrow> bytes \<Rightarrow> bytes \<Rightarrow> bytes" where
  "memcpy_at i src dst = take i dst @ src @ drop (i + length src) dst"

text \<open>The \<open>while\<close> over whole blocks and the copy of what remains.\<close>

function md5_update_blocks :: "md5_ctx \<Rightarrow> bytes \<Rightarrow> md5_ctx" where
  "md5_update_blocks c buf =
     (if 64 \<le> length buf then
        md5_update_blocks (c\<lparr>md5_in := take 64 buf, md5_buf := cs_md5_transform (md5_buf c) (take 64 buf)\<rparr>) (drop 64 buf)
      else c\<lparr>md5_in := memcpy_at 0 buf (md5_in c)\<rparr>)"
  by pat_completeness auto

termination
  by (relation "measure (\<lambda>(c, buf). length buf)") auto

declare md5_update_blocks.simps [simp del]

definition cs_md5_update :: "md5_ctx \<Rightarrow> bytes \<Rightarrow> md5_ctx" where
  "cs_md5_update ctx buf =
     (let t = md5_bits0 ctx;
          lo = t + push_bit 3 (of_nat (length buf));
          hi = (if lo < t then md5_bits1 ctx + 1 else md5_bits1 ctx) + drop_bit 29 (of_nat (length buf));
          ctx = ctx\<lparr>md5_bits0 := lo, md5_bits1 := hi\<rparr>;
          p = unat (drop_bit 3 t AND 0x3f)
      in if p \<noteq> 0 then
           (if length buf < 64 - p then ctx\<lparr>md5_in := memcpy_at p buf (md5_in ctx)\<rparr>
            else let blk = memcpy_at p (take (64 - p) buf) (md5_in ctx)
                 in md5_update_blocks (ctx\<lparr>md5_in := blk, md5_buf := cs_md5_transform (md5_buf ctx) blk\<rparr>)
                      (drop (64 - p) buf))
         else md5_update_blocks ctx buf)"

definition md5_digest_bytes :: "md5_state \<Rightarrow> bytes" where
  "md5_digest_bytes st = (case st of (a, b, c, d) \<Rightarrow> le_bytes a @ le_bytes b @ le_bytes c @ le_bytes d)"

definition cs_md5_final :: "md5_ctx \<Rightarrow> bytes" where
  "cs_md5_final ctx =
     (let p = unat (drop_bit 3 (md5_bits0 ctx) AND 0x3f);
          blk = (md5_in ctx)[p := 0x80];
          count = 64 - 1 - p;
          (st, blk) =
            (if count < 8 then
               (let blk = memcpy_at (p + 1) (replicate count 0) blk
                in (cs_md5_transform (md5_buf ctx) blk, memcpy_at 0 (replicate 56 0) blk))
             else (md5_buf ctx, memcpy_at (p + 1) (replicate (count - 8) 0) blk));
          blk = memcpy_at 56 (le_bytes (md5_bits0 ctx) @ le_bytes (md5_bits1 ctx)) blk
      in md5_digest_bytes (cs_md5_transform st blk))"

section \<open>The digest\<close>

text \<open>RFC 1321: pad with \<open>0x80\<close> and zeros, append the length in bits, run the blocks.\<close>

definition md5_digest :: "bytes \<Rightarrow> bytes" where
  "md5_digest m = md5_digest_bytes (run_blocks cs_md5_transform md5_init_state
     (padded m (le_bytes (of_nat (8 * length m)) @ le_bytes (of_nat (8 * length m div 2 ^ 32)))))"

definition md5_holds :: "md5_ctx \<Rightarrow> bytes \<Rightarrow> bool" where
  "md5_holds c m =
     (counts (md5_bits0 c) (md5_bits1 c) (length m) \<and> md5_buf c = run_blocks cs_md5_transform md5_init_state m \<and>
      length (md5_in c) = 64 \<and> take (length m mod 64) (md5_in c) = tail m)"

lemma length_memcpy_at [simp]: "i + length src \<le> length dst \<Longrightarrow> length (memcpy_at i src dst) = length dst"
  by (simp add: memcpy_at_def)

lemma take_memcpy_0 [simp]: "take (length src) (memcpy_at 0 src dst) = src"
  by (simp add: memcpy_at_def)

lemma md5_update_blocks:
  "length (md5_in c) = 64 \<Longrightarrow>
   md5_buf (md5_update_blocks c d) = run_blocks cs_md5_transform (md5_buf c) d \<and>
   md5_bits0 (md5_update_blocks c d) = md5_bits0 c \<and> md5_bits1 (md5_update_blocks c d) = md5_bits1 c \<and>
   length (md5_in (md5_update_blocks c d)) = 64 \<and>
   take (length d mod 64) (md5_in (md5_update_blocks c d)) = tail d"
proof (induction c d rule: md5_update_blocks.induct)
  case (1 c d)
  show ?case
  proof (cases "64 \<le> length d")
    case True
    then have "tail d = tail (drop 64 d)" using tail_block [of "take 64 d" "drop 64 d"] by simp
    moreover have "length (drop 64 d) mod 64 = length d mod 64" using True by (simp add: le_mod_geq)
    ultimately show ?thesis using 1(1) [OF True] True
      by (simp add: md5_update_blocks.simps [of c d] run_blocks.simps [of _ _ d])
  next
    case False
    then show ?thesis using 1(2) take_memcpy_0 [of d "md5_in c"] by (simp add: md5_update_blocks.simps [of c d])
  qed
qed

lemma memcpy_after: "take p inb = t \<Longrightarrow> length t = p \<Longrightarrow> memcpy_at p src inb = t @ src @ drop (p + length src) inb"
  by (auto simp: memcpy_at_def)

lemma md5_update_holds:
  assumes "md5_holds c m" "length d < 2 ^ 32"
  shows "md5_holds (cs_md5_update c d) (m @ d)"
proof -
  define p where "p = length m mod 64"
  define lo where "lo = md5_bits0 c + push_bit 3 (of_nat (length d))"
  define hi where "hi = (if lo < md5_bits0 c then md5_bits1 c + 1 else md5_bits1 c) + drop_bit 29 (of_nat (length d))"
  define c' where "c' = c\<lparr>md5_bits0 := lo, md5_bits1 := hi\<rparr>"
  note h = assms(1) [unfolded md5_holds_def]
  have p: "p < 64" "unat (drop_bit 3 (md5_bits0 c) AND 0x3f) = p"
    using h counts_fill [of "md5_bits0 c" "md5_bits1 c" "length m"] by (simp_all add: p_def)
  have cnt: "counts lo hi (length (m @ d))" using counts_add [OF _ assms(2) lo_def, of "md5_bits1 c" "length m"] h by (simp add: hi_def)
  have t: "length (tail m) = p" "take p (md5_in c) = tail m" "length (md5_in c) = 64" using h by (simp_all add: p_def)
  have len: "length (tail m @ d) mod 64 = length (m @ d) mod 64" by (simp add: mod_simps)
  have blocks: "run_blocks cs_md5_transform md5_init_state (m @ d) = run_blocks cs_md5_transform (md5_buf c) (tail m @ d)"
    using h run_blocks_tail by simp
  consider (small) "p \<noteq> 0" "length d < 64 - p" | (fill) "p \<noteq> 0" "64 - p \<le> length d" | (zero) "p = 0" by linarith
  then show ?thesis
  proof cases
    case small
    then have e: "cs_md5_update c d = c'\<lparr>md5_in := memcpy_at p d (md5_in c)\<rparr>"
      by (simp add: cs_md5_update_def Let_def p c'_def lo_def hi_def)
    have s: "length (tail m @ d) < 64" using small t by simp
    have "tail (m @ d) = tail m @ d" using s tail_append [of m d] by simp
    moreover have "length (m @ d) mod 64 = p + length d" using s len t by simp
    moreover have "take (p + length d) (memcpy_at p d (md5_in c)) = tail m @ d"
      using t by (simp add: memcpy_after)
    ultimately show ?thesis using e cnt blocks s t small by (simp add: md5_holds_def c'_def)
  next
    case fill
    define blk where "blk = memcpy_at p (take (64 - p) d) (md5_in c)"
    have blk: "blk = tail m @ take (64 - p) d" "length blk = 64" using t fill p by (simp_all add: blk_def memcpy_after)
    have e: "cs_md5_update c d = md5_update_blocks (c'\<lparr>md5_in := blk, md5_buf := cs_md5_transform (md5_buf c) blk\<rparr>) (drop (64 - p) d)"
      using fill by (simp add: cs_md5_update_def Let_def p c'_def lo_def hi_def blk_def)
    have split: "tail m @ d = blk @ drop (64 - p) d" using blk by simp
    have "tail (m @ d) = tail (drop (64 - p) d)" using tail_append [of m d] tail_block [OF blk(2)] split by simp
    moreover have "length (m @ d) mod 64 = length (drop (64 - p) d) mod 64"
      using len unfolding split by (simp add: blk(2))
    moreover have "run_blocks cs_md5_transform md5_init_state (m @ d) =
        run_blocks cs_md5_transform (cs_md5_transform (md5_buf c) blk) (drop (64 - p) d)"
      unfolding blocks split by (rule run_blocks_block [OF blk(2)])
    ultimately show ?thesis
      using md5_update_blocks [of "c'\<lparr>md5_in := blk, md5_buf := cs_md5_transform (md5_buf c) blk\<rparr>" "drop (64 - p) d"]
        e cnt blk(2) by (simp add: md5_holds_def c'_def)
  next
    case zero
    then have e: "cs_md5_update c d = md5_update_blocks c' d"
      by (simp add: cs_md5_update_def Let_def p c'_def lo_def hi_def)
    have "tail m = []" using t zero by simp
    then show ?thesis using md5_update_blocks [of c' d] e cnt blocks t tail_append [of m d] len
      by (simp add: md5_holds_def c'_def)
  qed
qed

lemma md5_holds_init: "md5_holds cs_md5_init []"
  by (simp add: md5_holds_def cs_md5_init_def counts_0)

lemma memcpy_append: "length a = i \<Longrightarrow> memcpy_at i src (a @ r) = a @ src @ drop (length src) r"
  by (simp add: memcpy_at_def)

lemma md5_final_holds:
  assumes "md5_holds c m"
  shows "cs_md5_final c = md5_digest m"
proof -
  define p where "p = length m mod 64"
  define len8 where "len8 = le_bytes (md5_bits0 c) @ le_bytes (md5_bits1 c)"
  note h = assms [unfolded md5_holds_def]
  have p: "p < 64" "unat (drop_bit 3 (md5_bits0 c) AND 0x3f) = p"
    using h counts_fill [of "md5_bits0 c" "md5_bits1 c" "length m"] by (simp_all add: p_def)
  have len8: "length len8 = 8" by (simp add: len8_def le_bytes_def)
  have t: "length (tail m) = p" "take p (md5_in c) = tail m" "length (md5_in c) = 64" using h by (simp_all add: p_def)
  define st where "st = run_blocks cs_md5_transform md5_init_state m"
  have st: "md5_buf c = st" using h by (simp add: st_def)
  have blk: "(md5_in c)[p := 0x80] = (tail m @ [0x80]) @ drop (p + 1) (md5_in c)"
    using t p by (simp add: upd_conv_take_nth_drop)
  have "cs_md5_final c = md5_digest_bytes
     (if p < 56 then cs_md5_transform st (tail m @ [0x80] @ replicate (55 - p) 0 @ len8)
      else cs_md5_transform (cs_md5_transform st (tail m @ [0x80] @ replicate (63 - p) 0)) (replicate 56 0 @ len8))"
  proof (cases "p < 56")
    case True
    have "memcpy_at (p + 1) (replicate (55 - p) 0) ((md5_in c)[p := 0x80]) =
        (tail m @ [0x80] @ replicate (55 - p) 0) @ drop (55 - p) (drop (p + 1) (md5_in c))"
      unfolding blk by (subst memcpy_append) (use t in simp_all)
    moreover have "memcpy_at 56 len8 ((tail m @ [0x80] @ replicate (55 - p) 0) @ drop (55 - p) (drop (p + 1) (md5_in c))) =
        tail m @ [0x80] @ replicate (55 - p) 0 @ len8"
      by (subst memcpy_append) (use t True len8 in simp_all)
    moreover have "\<not> 63 - p < 8" using True by arith
    ultimately show ?thesis using p True st by (simp add: cs_md5_final_def Let_def len8_def)
  next
    case False
    have "memcpy_at (p + 1) (replicate (63 - p) 0) ((md5_in c)[p := 0x80]) = tail m @ [0x80] @ replicate (63 - p) 0"
      unfolding blk by (subst memcpy_append) (use t in simp_all)
    moreover have "memcpy_at 56 len8 (memcpy_at 0 (replicate 56 0) (tail m @ [0x80] @ replicate (63 - p) 0)) = replicate 56 0 @ len8"
      using t len8 p(1) by (simp add: memcpy_at_def)
    moreover have "63 - p < 8" using False by arith
    ultimately show ?thesis using p False st by (simp add: cs_md5_final_def Let_def len8_def)
  qed
  also have "\<dots> = md5_digest m"
    using h run_padded [OF len8, of cs_md5_transform md5_init_state m]
    by (simp add: md5_digest_def counts_def len8_def p_def st_def Let_def)
  finally show ?thesis .
qed

interpretation md5: hash_stream cs_md5_init cs_md5_update cs_md5_final md5_digest md5_holds "2 ^ 32"
  by unfold_locales (fact md5_holds_init md5_update_holds md5_final_holds)+

text \<open>A message given to \<open>cs_md5_update\<close> in any pieces of less than 4 GiB has, after \<open>cs_md5_final\<close>,
  the digest that RFC 1321 defines on the padded message.\<close>

theorem md5_pieces:
  assumes "\<forall>d \<in> set ds. length d < 2 ^ 32"
  shows "cs_md5_final (foldl cs_md5_update cs_md5_init ds) = md5_digest (concat ds)"
  by (rule md5.pieces [OF assms])

lemma md5_pieces_witness:
  "cs_md5_final (foldl cs_md5_update cs_md5_init [cstr ''a'', cstr ''bc'']) = md5_digest (cstr ''abc'')"
  using md5_pieces [of "[cstr ''a'', cstr ''bc'']"] by simp

end
