(* ===== verification/MgSha1.thy ===== *)
theory MgSha1
  imports MgMd5
begin

text \<open>
  \<open>common/cs_sha1.c\<close> in \<open>mongoose.c\<close> on a little-endian machine: SHA-1 and HMAC-SHA-1, with the
  proofs that they compute the digests of FIPS 180 and RFC 2104, whatever the pieces.
\<close>

section \<open>The code\<close>

type_synonym sha1_state = "u32 \<times> u32 \<times> u32 \<times> u32 \<times> u32"

record sha1_ctx =
  sha_state :: sha1_state
  sha_count0 :: u32
  sha_count1 :: u32
  sha_buffer :: bytes

text \<open>\<open>blk0\<close> swaps the bytes of a word of the block in place; \<open>blk\<close> extends the block in place.\<close>

definition blk0 :: "u32 list \<Rightarrow> nat \<Rightarrow> u32 list" where
  "blk0 l i = l[i := (rotl32 24 (l ! i) AND 0xFF00FF00) OR (rotl32 8 (l ! i) AND 0x00FF00FF)]"

definition blk :: "u32 list \<Rightarrow> nat \<Rightarrow> u32 list" where
  "blk l i = l[i mod 16 := rotl32 1 (l ! ((i + 13) mod 16) XOR l ! ((i + 8) mod 16) XOR l ! ((i + 2) mod 16) XOR l ! (i mod 16))]"

text \<open>The round macros \<open>R0\<close> to \<open>R4\<close>: what is added to \<open>z\<close> besides the block word and \<open>rol(v, 5)\<close>.\<close>

definition sha1_mix :: "nat \<Rightarrow> u32 \<Rightarrow> u32 \<Rightarrow> u32 \<Rightarrow> u32" where
  "sha1_mix i w x y =
     (if i < 20 then ((w AND (x XOR y)) XOR y) + 0x5A827999
      else if i < 40 then (w XOR x XOR y) + 0x6ED9EBA1
      else if i < 60 then (((w OR x) AND y) OR (w AND x)) + 0x8F1BBCDC
      else (w XOR x XOR y) + 0xCA62C1D6)"

text \<open>The next line of the code names the registers rotated by one, which the result order expresses.\<close>

definition sha1_step :: "sha1_state \<times> u32 list \<Rightarrow> nat \<Rightarrow> sha1_state \<times> u32 list" where
  "sha1_step st i =
     (case st of ((v, w, x, y, z), l) \<Rightarrow>
        (let l = (if i < 16 then blk0 l i else blk l i);
             z = z + (sha1_mix i w x y + l ! (i mod 16) + rotl32 5 v);
             w = rotl32 30 w
         in ((z, v, w, x, y), l)))"

definition cs_sha1_transform :: "sha1_state \<Rightarrow> bytes \<Rightarrow> sha1_state" where
  "cs_sha1_transform st buffer =
     (let l = map (le_word buffer) [0..<16] in
      case (st, foldl sha1_step (st, l) [0..<80]) of
        ((p, q, r, s, t), ((a, b, c, d, e), _)) \<Rightarrow> (p + a, q + b, r + c, s + d, t + e))"

definition sha1_init_state :: sha1_state where
  "sha1_init_state = (0x67452301, 0xEFCDAB89, 0x98BADCFE, 0x10325476, 0xC3D2E1F0)"

definition cs_sha1_init :: sha1_ctx where
  "cs_sha1_init = \<lparr>sha_state = sha1_init_state, sha_count0 = 0, sha_count1 = 0, sha_buffer = replicate 64 0\<rparr>"

text \<open>The \<open>for\<close> over whole blocks of the input, with what is left of it.\<close>

function sha1_update_blocks :: "sha1_state \<Rightarrow> bytes \<Rightarrow> sha1_state \<times> bytes" where
  "sha1_update_blocks st data =
     (if 63 < length data then sha1_update_blocks (cs_sha1_transform st (take 64 data)) (drop 64 data) else (st, data))"
  by pat_completeness auto

termination
  by (relation "measure (\<lambda>(st, data). length data)") auto

declare sha1_update_blocks.simps [simp del]

text \<open>\<open>j + len\<close> is a 32-bit sum.\<close>

definition cs_sha1_update :: "sha1_ctx \<Rightarrow> bytes \<Rightarrow> sha1_ctx" where
  "cs_sha1_update ctx data =
     (let j = sha_count0 ctx;
          lo = j + push_bit 3 (of_nat (length data));
          hi = (if lo < j then sha_count1 ctx + 1 else sha_count1 ctx) + drop_bit 29 (of_nat (length data));
          ctx = ctx\<lparr>sha_count0 := lo, sha_count1 := hi\<rparr>;
          j = drop_bit 3 j AND 63
      in if 63 < j + of_nat (length data) then
           (let p = unat j;
                buf = memcpy_at p (take (64 - p) data) (sha_buffer ctx);
                (st, rest) = sha1_update_blocks (cs_sha1_transform (sha_state ctx) buf) (drop (64 - p) data)
            in ctx\<lparr>sha_state := st, sha_buffer := memcpy_at 0 rest buf\<rparr>)
         else ctx\<lparr>sha_buffer := memcpy_at (unat j) data (sha_buffer ctx)\<rparr>)"

definition be_bytes :: "u32 \<Rightarrow> bytes" where
  "be_bytes w = [ucast (drop_bit 24 w), ucast (drop_bit 16 w), ucast (drop_bit 8 w), ucast w]"

text \<open>The zero bytes of the padding, one update each. The measure counts the bytes still to come.\<close>

definition pad_left :: "u32 \<Rightarrow> nat" where
  "pad_left w = (120 - unat w div 8 mod 64) mod 64"

lemma and_504: "w AND 504 = 448 \<longleftrightarrow> unat w div 8 mod 64 = 56" for w :: u32
proof -
  have e: "(504 :: u32) = push_bit 3 (mask 6)" by (simp add: mask_eq_exp_minus_1 push_bit_eq_mult)
  have "w AND 504 = push_bit 3 (take_bit 6 (drop_bit 3 w))"
    unfolding e by (auto intro!: bit_word_eqI simp: bit_simps)
  moreover have "(448 :: u32) = push_bit 3 56" by (simp add: push_bit_eq_mult)
  moreover have "push_bit 3 (take_bit 6 (drop_bit 3 w)) = push_bit 3 56 \<longleftrightarrow> take_bit 6 (drop_bit 3 w) = 56"
  proof
    assume "push_bit 3 (take_bit 6 (drop_bit 3 w)) = push_bit 3 56"
    then have "drop_bit 3 (push_bit 3 (take_bit 6 (drop_bit 3 w))) = drop_bit 3 (push_bit 3 (56 :: u32))" by (rule arg_cong)
    moreover have "drop_bit 3 (push_bit 3 (take_bit 6 (drop_bit 3 w))) = take_bit 6 (drop_bit 3 w)"
      by (auto intro!: bit_word_eqI simp: bit_simps)
    moreover have "drop_bit 3 (push_bit 3 (56 :: u32)) = 56" by code_simp
    ultimately show "take_bit 6 (drop_bit 3 w) = 56" by (simp only:)
  qed simp
  moreover have "unat (take_bit 6 (drop_bit 3 w)) = take_bit 6 (unat (drop_bit 3 w))" by (rule unsigned_take_bit_eq)
  then have "take_bit 6 (drop_bit 3 w) = 56 \<longleftrightarrow> unat w div 8 mod 64 = 56"
    using unsigned_word_eqI [of "take_bit 6 (drop_bit 3 w)" 56]
    by (auto simp: take_bit_eq_mod unat_drop_bit_div)
  ultimately show ?thesis by (simp only:)
qed

lemma pad_left_end: "w AND 504 = 448 \<longleftrightarrow> pad_left w = 0" for w :: u32
proof -
  have "(120 - q) mod 64 = 0 \<longleftrightarrow> q = 56" if "q < 64" for q :: nat
    using that by (cases "q \<le> 56") (auto simp: le_mod_geq mod_if)
  from this [of "unat w div 8 mod 64"] show ?thesis by (simp add: and_504 pad_left_def)
qed

lemma word_add_8_div: "unat (w + 8) div 8 mod 64 = (unat w div 8 mod 64 + 1) mod 64" for w :: u32
proof -
  have "unat (w + 8) = (unat w + 8) mod (8 * 2 ^ 29)" by (simp add: unat_word_ariths)
  also have "\<dots> div 8 = (unat w + 8) div 8 mod 2 ^ 29" by (subst mod_mult2_eq) simp
  finally have "unat (w + 8) div 8 mod 64 = (unat w + 8) div 8 mod 2 ^ 29 mod 64" by simp
  also have "\<dots> = (unat w + 8) div 8 mod 64" using mod_mod_cancel [of 64 "2 ^ 29" "(unat w + 8) div 8"] by simp
  also have "(unat w + 8) div 8 = unat w div 8 + 1" by simp
  finally show ?thesis by (simp add: mod_simps)
qed

lemma pad_left_step: "pad_left w \<noteq> 0 \<Longrightarrow> pad_left (w + 8) = pad_left w - 1" for w :: u32
proof -
  have "(120 - q) mod 64 \<noteq> 0 \<Longrightarrow> (120 - (q + 1) mod 64) mod 64 = (120 - q) mod 64 - 1" if "q < 64" for q :: nat
  proof -
    have "q \<in> set [0..<64]" using that by simp
    moreover have "\<forall>q \<in> set [0..<64]. (120 - q) mod 64 \<noteq> 0 \<longrightarrow> (120 - (q + 1) mod 64) mod 64 = (120 - q) mod (64 :: nat) - 1" by code_simp
    ultimately show "(120 - q) mod 64 \<noteq> 0 \<Longrightarrow> ?thesis" by blast
  qed
  from this [of "unat w div 8 mod 64"] show "pad_left w \<noteq> 0 \<Longrightarrow> ?thesis" by (simp add: pad_left_def word_add_8_div)
qed

lemma count0_update: "sha_count0 (cs_sha1_update ctx [b]) = sha_count0 ctx + 8"
  by (simp add: cs_sha1_update_def Let_def split: prod.split)

function sha1_pad :: "sha1_ctx \<Rightarrow> sha1_ctx" where
  "sha1_pad ctx = (if sha_count0 ctx AND 504 \<noteq> 448 then sha1_pad (cs_sha1_update ctx [0]) else ctx)"
  by pat_completeness auto

termination
  by (relation "measure (\<lambda>ctx. pad_left (sha_count0 ctx))") (auto simp: count0_update pad_left_end pad_left_step)

declare sha1_pad.simps [simp del]

definition sha1_digest_bytes :: "sha1_state \<Rightarrow> bytes" where
  "sha1_digest_bytes st = (case st of (a, b, c, d, e) \<Rightarrow> be_bytes a @ be_bytes b @ be_bytes c @ be_bytes d @ be_bytes e)"

definition cs_sha1_final :: "sha1_ctx \<Rightarrow> bytes" where
  "cs_sha1_final ctx =
     (let finalcount = be_bytes (sha_count1 ctx) @ be_bytes (sha_count0 ctx);
          ctx = cs_sha1_update ctx [0x80];
          ctx = sha1_pad ctx;
          ctx = cs_sha1_update ctx finalcount
      in sha1_digest_bytes (sha_state ctx))"

definition cs_hmac_sha1 :: "bytes \<Rightarrow> bytes \<Rightarrow> bytes" where
  "cs_hmac_sha1 key data =
     (let key = (if 64 < length key then cs_sha1_final (cs_sha1_update cs_sha1_init key) else key);
          buf1 = memcpy_at 0 key (replicate 64 0);
          buf2 = memcpy_at 0 key (replicate 64 0);
          buf1 = map (\<lambda>b. b XOR 0x36) buf1;
          buf2 = map (\<lambda>b. b XOR 0x5c) buf2;
          out = cs_sha1_final (cs_sha1_update (cs_sha1_update cs_sha1_init buf1) data)
      in cs_sha1_final (cs_sha1_update (cs_sha1_update cs_sha1_init buf2) out))"

section \<open>The digests\<close>

definition sha1_digest :: "bytes \<Rightarrow> bytes" where
  "sha1_digest m = sha1_digest_bytes (run_blocks cs_sha1_transform sha1_init_state
     (padded m (be_bytes (of_nat (8 * length m div 2 ^ 32)) @ be_bytes (of_nat (8 * length m)))))"

definition sha1_holds :: "sha1_ctx \<Rightarrow> bytes \<Rightarrow> bool" where
  "sha1_holds c m =
     (counts (sha_count0 c) (sha_count1 c) (length m) \<and> sha_state c = run_blocks cs_sha1_transform sha1_init_state m \<and>
      length (sha_buffer c) = 64 \<and> take (length m mod 64) (sha_buffer c) = tail m)"

lemma sha1_update_blocks: "sha1_update_blocks st d = (run_blocks cs_sha1_transform st d, tail d)"
proof (induction st d rule: sha1_update_blocks.induct)
  case (1 st d)
  show ?case
  proof (cases "63 < length d")
    case True
    then have "tail d = tail (drop 64 d)" using tail_block [of "take 64 d" "drop 64 d"] by simp
    then show ?thesis using 1 True by (simp add: sha1_update_blocks.simps [of st d] run_blocks.simps [of _ _ d])
  qed (simp add: sha1_update_blocks.simps [of st d])
qed

lemma sha1_update_holds:
  assumes "sha1_holds c m" "length d < 2 ^ 32 - 64"
  shows "sha1_holds (cs_sha1_update c d) (m @ d)"
proof -
  define p where "p = length m mod 64"
  define j where "j = drop_bit 3 (sha_count0 c) AND 63"
  define lo where "lo = sha_count0 c + push_bit 3 (of_nat (length d))"
  define hi where "hi = (if lo < sha_count0 c then sha_count1 c + 1 else sha_count1 c) + drop_bit 29 (of_nat (length d))"
  define c' where "c' = c\<lparr>sha_count0 := lo, sha_count1 := hi\<rparr>"
  note h = assms(1) [unfolded sha1_holds_def]
  have j: "unat j = p" using h counts_fill [of "sha_count0 c" "sha_count1 c" "length m"] by (simp add: p_def j_def)
  have p: "p < 64" by (simp add: p_def)
  have lt: "length d < 2 ^ 32" using assms(2) by simp
  have cnt: "counts lo hi (length (m @ d))" using counts_add [OF _ lt lo_def, of "sha_count1 c" "length m"] h by (simp add: hi_def)
  have t: "length (tail m) = p" "take p (sha_buffer c) = tail m" "length (sha_buffer c) = 64" using h by (simp_all add: p_def)
  have len: "length (tail m @ d) mod 64 = length (m @ d) mod 64" by (simp add: mod_simps)
  have blocks: "run_blocks cs_sha1_transform sha1_init_state (m @ d) = run_blocks cs_sha1_transform (sha_state c) (tail m @ d)"
    using h run_blocks_tail by simp
  have "unat (j + of_nat (length d)) = p + length d"
    using assms(2) j p by (simp add: unat_word_ariths unat_of_nat)
  then have test: "63 < j + of_nat (length d) \<longleftrightarrow> 63 < p + length d" by (simp add: word_less_nat_alt)
  show ?thesis
  proof (cases "63 < p + length d")
    case False
    then have e: "cs_sha1_update c d = c'\<lparr>sha_buffer := memcpy_at p d (sha_buffer c)\<rparr>"
      by (simp add: cs_sha1_update_def Let_def j_def [symmetric] test j c'_def lo_def hi_def)
    have s: "length (tail m @ d) < 64" using False t by simp
    have "tail (m @ d) = tail m @ d" using s tail_append [of m d] by simp
    moreover have "length (m @ d) mod 64 = p + length d" using s len t by simp
    moreover have "take (p + length d) (memcpy_at p d (sha_buffer c)) = tail m @ d"
      using t by (simp add: memcpy_after)
    ultimately show ?thesis using e cnt blocks s t by (simp add: sha1_holds_def c'_def)
  next
    case True
    define buf where "buf = memcpy_at p (take (64 - p) d) (sha_buffer c)"
    have buf: "buf = tail m @ take (64 - p) d" "length buf = 64" using t True p by (simp_all add: buf_def memcpy_after)
    have e: "cs_sha1_update c d = c'\<lparr>sha_state := run_blocks cs_sha1_transform (cs_sha1_transform (sha_state c) buf) (drop (64 - p) d),
         sha_buffer := memcpy_at 0 (tail (drop (64 - p) d)) buf\<rparr>"
      using True by (simp add: cs_sha1_update_def Let_def j_def [symmetric] test j c'_def lo_def hi_def buf_def sha1_update_blocks)
    have split: "tail m @ d = buf @ drop (64 - p) d" using buf by simp
    have tl: "tail (m @ d) = tail (drop (64 - p) d)" using tail_append [of m d] tail_block [OF buf(2)] split by simp
    have "length (tail (m @ d)) = length (m @ d) mod 64" by (rule length_tail)
    moreover have "length (tail (drop (64 - p) d)) < 64" by (simp del: length_drop)
    moreover have "run_blocks cs_sha1_transform sha1_init_state (m @ d) =
        run_blocks cs_sha1_transform (cs_sha1_transform (sha_state c) buf) (drop (64 - p) d)"
      unfolding blocks split by (rule run_blocks_block [OF buf(2)])
    ultimately show ?thesis
      using e cnt buf(2) take_memcpy_0 [of "tail (drop (64 - p) d)" buf] unfolding tl
      by (simp add: sha1_holds_def c'_def tl del: length_tail)
  qed
qed

lemma sha1_holds_init: "sha1_holds cs_sha1_init []"
  by (simp add: sha1_holds_def cs_sha1_init_def counts_0)

lemma sha1_pad_holds:
  "sha1_holds c m \<Longrightarrow> sha1_holds (sha1_pad c) (m @ replicate (pad_left (sha_count0 c)) 0)"
proof (induction c arbitrary: m rule: sha1_pad.induct)
  case (1 c)
  show ?case
  proof (cases "sha_count0 c AND 504 = 448")
    case True
    then show ?thesis using 1 by (simp add: sha1_pad.simps [of c] pad_left_end)
  next
    case False
    then have n: "pad_left (sha_count0 c) = Suc (pad_left (sha_count0 c + 8))"
      by (simp add: pad_left_end pad_left_step)
    have "sha1_holds (cs_sha1_update c [0]) (m @ [0])" by (rule sha1_update_holds [OF 1(2)]) simp
    from 1(1) [OF False this] show ?thesis using False n by (simp add: sha1_pad.simps [of c] count0_update)
  qed
qed

lemma sha1_final_holds:
  assumes "sha1_holds c m"
  shows "cs_sha1_final c = sha1_digest m"
proof -
  define fc where "fc = be_bytes (sha_count1 c) @ be_bytes (sha_count0 c)"
  define c1 where "c1 = cs_sha1_update c [0x80]"
  note h = assms [unfolded sha1_holds_def]
  have h1: "sha1_holds c1 (m @ [0x80])" unfolding c1_def by (rule sha1_update_holds [OF assms]) simp
  have "pad_left (sha_count0 c1) = pad_zeros (length m)"
  proof -
    have "counts (sha_count0 c1) (sha_count1 c1) (length m + 1)" using h1 by (simp add: sha1_holds_def)
    from counts_fill [OF this] have "unat (drop_bit 3 (sha_count0 c1) AND 63) = (length m + 1) mod 64" .
    moreover have "unat (drop_bit 3 (sha_count0 c1) AND 63) = unat (sha_count0 c1) div 8 mod 64"
    proof -
      have "drop_bit 3 (sha_count0 c1) AND 63 = take_bit 6 (drop_bit 3 (sha_count0 c1))"
        by (simp add: take_bit_eq_mask mask_eq_exp_minus_1)
      then have "unat (drop_bit 3 (sha_count0 c1) AND 63) = take_bit 6 (unat (drop_bit 3 (sha_count0 c1)))"
        by (simp only: unsigned_take_bit_eq)
      then show ?thesis by (simp add: take_bit_eq_mod unat_drop_bit_div)
    qed
    moreover have "(120 - (r + 1) mod 64) mod 64 = (if r < 56 then 55 - r else 119 - r)" if "r < 64" for r :: nat
    proof -
      have "\<forall>r \<in> set [0..<64]. (120 - (r + 1) mod 64) mod 64 = (if r < 56 then 55 - r else 119 - (r :: nat))" by code_simp
      then show ?thesis using that by simp
    qed
    from this [of "length m mod 64"] have "(120 - (length m + 1) mod 64) mod 64 = pad_zeros (length m)"
      by (simp add: pad_zeros_def mod_simps)
    ultimately show ?thesis by (simp add: pad_left_def)
  qed
  then have "sha1_holds (sha1_pad c1) ((m @ [0x80]) @ replicate (pad_zeros (length m)) 0)"
    using sha1_pad_holds [OF h1] by simp
  moreover have "length fc < 2 ^ 32 - 64" by (simp add: fc_def be_bytes_def)
  ultimately have "sha1_holds (cs_sha1_update (sha1_pad c1) fc) (((m @ [0x80]) @ replicate (pad_zeros (length m)) 0) @ fc)"
    by (rule sha1_update_holds)
  then have "sha_state (cs_sha1_update (sha1_pad c1) fc) = run_blocks cs_sha1_transform sha1_init_state (padded m fc)"
    by (simp add: sha1_holds_def padded_def)
  moreover have "cs_sha1_final c = sha1_digest_bytes (sha_state (cs_sha1_update (sha1_pad c1) fc))"
    by (simp add: cs_sha1_final_def Let_def fc_def c1_def)
  ultimately show ?thesis using h by (simp add: sha1_digest_def fc_def counts_def)
qed

interpretation sha1: hash_stream cs_sha1_init cs_sha1_update cs_sha1_final sha1_digest sha1_holds "2 ^ 32 - 64"
  by unfold_locales (fact sha1_holds_init sha1_update_holds sha1_final_holds)+

text \<open>A message given to \<open>cs_sha1_update\<close> in any pieces of less than 4 GiB - 64 bytes has, after
  \<open>cs_sha1_final\<close>, the digest that FIPS 180 defines on the padded message.\<close>

theorem sha1_pieces:
  assumes "\<forall>d \<in> set ds. length d < 2 ^ 32 - 64"
  shows "cs_sha1_final (foldl cs_sha1_update cs_sha1_init ds) = sha1_digest (concat ds)"
  by (rule sha1.pieces [OF assms])

lemma sha1_pieces_witness:
  "cs_sha1_final (foldl cs_sha1_update cs_sha1_init [cstr ''a'', cstr ''bc'']) = sha1_digest (cstr ''abc'')"
  using sha1_pieces [of "[cstr ''a'', cstr ''bc'']"] by simp

section \<open>HMAC\<close>

lemma sha1_two_pieces:
  "length a < 2 ^ 32 - 64 \<Longrightarrow> length b < 2 ^ 32 - 64 \<Longrightarrow>
   cs_sha1_final (cs_sha1_update (cs_sha1_update cs_sha1_init a) b) = sha1_digest (a @ b)"
  using sha1.pieces [of "[a, b]"] by simp

lemma length_sha1_digest [simp]: "length (sha1_digest m) = 20"
  by (simp add: sha1_digest_def sha1_digest_bytes_def be_bytes_def split: prod.split)

text \<open>RFC 2104 with blocks of 64 bytes.\<close>

definition hmac_key :: "bytes \<Rightarrow> bytes" where
  "hmac_key key = (let k = (if 64 < length key then sha1_digest key else key) in k @ replicate (64 - length k) 0)"

definition hmac_sha1 :: "bytes \<Rightarrow> bytes \<Rightarrow> bytes" where
  "hmac_sha1 key data =
     sha1_digest (map (\<lambda>b. b XOR 0x5c) (hmac_key key) @ sha1_digest (map (\<lambda>b. b XOR 0x36) (hmac_key key) @ data))"

text \<open>C40: \<open>cs_hmac_sha1\<close> computes RFC 2104's HMAC of the key and the data, for keys and data of any length
  below 4 GiB - 64 bytes.\<close>

theorem hmac_rfc2104:
  assumes "length key < 2 ^ 32 - 64" "length data < 2 ^ 32 - 64"
  shows "cs_hmac_sha1 key data = hmac_sha1 key data"
proof -
  define k where "k = (if 64 < length key then sha1_digest key else key)"
  have "cs_sha1_final (cs_sha1_update cs_sha1_init key) = sha1_digest key" using sha1.pieces [of "[key]"] assms by simp
  then have k: "(if 64 < length key then cs_sha1_final (cs_sha1_update cs_sha1_init key) else key) = k" by (simp add: k_def)
  have "length k \<le> 64" by (simp add: k_def)
  then have buf: "memcpy_at 0 k (replicate 64 0) = hmac_key key" "length (hmac_key key) = 64"
    by (simp_all add: memcpy_at_def hmac_key_def Let_def k_def [symmetric])
  show ?thesis using assms buf
    by (simp add: cs_hmac_sha1_def Let_def k hmac_sha1_def sha1_two_pieces)
qed

lemma hmac_rfc2104_witness: "cs_hmac_sha1 (cstr ''Jefe'') (cstr ''what do ya want for nothing?'') =
    hmac_sha1 (cstr ''Jefe'') (cstr ''what do ya want for nothing?'')"
  by (rule hmac_rfc2104) simp_all

end
