(* ===== verification/SymKey.thy ===== *)
theory SymKey
  imports Prelude
begin

text \<open>
  \<open>crypto/CTRTransformerAES.cpp\<close> and \<open>crypto/SymmetricKey.cpp\<close>: AES in counter mode and the
  encrypt-then-authenticate format \<open>IV, ciphertext, HMAC\<close>. The block cipher and HMAC-SHA256 of
  LibTomCrypt are the parameters \<open>ciphers\<close>; the random IV and the random key are arguments. An
  exception is \<open>Inl\<close>.
\<close>

datatype crypto_error = SourceTooShort | InputTooSmall | BadHmac

record ciphers =
  aes_ecb :: "bytes \<Rightarrow> bytes \<Rightarrow> bytes"      \<comment> \<open>key, block\<close>
  hmac_sha256 :: "bytes \<Rightarrow> bytes \<Rightarrow> bytes"  \<comment> \<open>key, message\<close>

section \<open>Counter mode\<close>

record ctr =
  ct_key :: bytes
  ct_counter :: u32
  ct_index :: nat
  ct_source :: bytes
  ct_nonce :: bytes

definition blockSize :: nat where "blockSize = 16"

text \<open>The \<open>do ... while\<close> of \<open>applyXor\<close>; the mask is never empty.\<close>

fun xor_prefix :: "bytes \<Rightarrow> bytes \<Rightarrow> bytes" where
  "xor_prefix (s # ss) (m # ms) = (s XOR m) # xor_prefix ss ms"
| "xor_prefix ss _ = ss"

definition applyXor :: "bytes \<Rightarrow> nat \<Rightarrow> bytes \<Rightarrow> crypto_error + bytes" where
  "applyXor source offset msk =
     (if length source < offset + length msk then Inl SourceTooShort
      else Inr (take offset source @ xor_prefix (drop offset source) msk))"

definition counterBytes :: "u32 \<Rightarrow> bytes" where
  "counterBytes c = [ucast (drop_bit 24 c), ucast (drop_bit 16 c), ucast (drop_bit 8 c), ucast c]"

definition prepareBlock :: "ciphers \<Rightarrow> ctr \<Rightarrow> crypto_error + ctr" where
  "prepareBlock C t =
     res_bind (applyXor (take blockSize (ct_nonce t)) (blockSize - 4) (counterBytes (ct_counter t))) (\<lambda>src.
       Inr (t\<lparr>ct_source := aes_ecb C (ct_key t) src, ct_counter := ct_counter t + 1, ct_index := 0\<rparr>))"

definition new_ctr :: "ciphers \<Rightarrow> bytes \<Rightarrow> bytes \<Rightarrow> crypto_error + ctr" where
  "new_ctr C key iv =
     prepareBlock C \<lparr>ct_key = key, ct_counter = 0, ct_index = 0, ct_source = replicate blockSize 0, ct_nonce = iv\<rparr>"

definition nextByte :: "ciphers \<Rightarrow> ctr \<Rightarrow> crypto_error + byte \<times> ctr" where
  "nextByte C t =
     res_bind (if blockSize \<le> ct_index t then prepareBlock C t else Inr t) (\<lambda>t.
       Inr (ct_source t ! ct_index t, t\<lparr>ct_index := ct_index t + 1\<rparr>))"

definition transformByte :: "ciphers \<Rightarrow> byte \<Rightarrow> ctr \<Rightarrow> crypto_error + byte \<times> ctr" where
  "transformByte C b t = res_bind (nextByte C t) (\<lambda>(k, t). Inr (b XOR k, t))"

fun transform_all :: "ciphers \<Rightarrow> bytes \<Rightarrow> ctr \<Rightarrow> crypto_error + bytes \<times> ctr" where
  "transform_all C [] t = Inr ([], t)"
| "transform_all C (b # bs) t = res_bind (transformByte C b t) (\<lambda>(c, t).
     res_bind (transform_all C bs t) (\<lambda>(cs, t). Inr (c # cs, t)))"

section \<open>Symmetric keys\<close>

definition etaEncrypt :: "ciphers \<Rightarrow> bytes \<Rightarrow> bytes \<Rightarrow> bytes \<Rightarrow> crypto_error + bytes" where
  "etaEncrypt C key iv data =
     res_bind (new_ctr C key iv) (\<lambda>t.
     res_bind (transform_all C data t) (\<lambda>(enc, _).
       Inr (iv @ enc @ hmac_sha256 C key enc)))"

text \<open>
  The loop of \<open>etaDecrypt\<close>: every byte read enters the ring, and the byte that leaves it is
  ciphertext. The result is what left the ring and what is still in it.
\<close>

fun ring_loop :: "bytes \<Rightarrow> bytes \<Rightarrow> bytes \<times> bytes" where
  "ring_loop ring [] = ([], ring)"
| "ring_loop ring (b # bs) =
     (case ring @ [b] of e # ring' \<Rightarrow> (case ring_loop ring' bs of (es, r) \<Rightarrow> (e # es, r)) | [] \<Rightarrow> ([], []))"

definition hashsize :: nat where "hashsize = 32"

definition etaDecrypt :: "ciphers \<Rightarrow> bytes \<Rightarrow> bytes \<Rightarrow> crypto_error + bytes" where
  "etaDecrypt C key data =
     (if length data < blockSize + hashsize then Inl InputTooSmall
      else let iv = take blockSize data;
               ring = take hashsize (drop blockSize data);
               (encrypted, ring) = ring_loop ring (drop (blockSize + hashsize) data)
        in res_bind (new_ctr C key iv) (\<lambda>t.
           res_bind (transform_all C encrypted t) (\<lambda>(output, _).
             if length ring \<noteq> hashsize then Inl BadHmac
             else if hmac_sha256 C key encrypted \<noteq> ring then Inl BadHmac
             else Inr output)))"

definition sk_encrypt :: "ciphers \<Rightarrow> bytes \<Rightarrow> bytes \<Rightarrow> bytes \<Rightarrow> crypto_error + bytes" where
  "sk_encrypt C key iv data =
     res_bind (new_ctr C key iv) (\<lambda>t.
     res_bind (transform_all C data t) (\<lambda>(enc, _). Inr (iv @ enc)))"

definition sk_decrypt :: "ciphers \<Rightarrow> bytes \<Rightarrow> bytes \<Rightarrow> crypto_error + bytes" where
  "sk_decrypt C key data =
     (if length data < blockSize then Inl InputTooSmall
      else res_bind (new_ctr C key (take blockSize data)) (\<lambda>t.
           res_bind (transform_all C (drop blockSize data) t) (\<lambda>(dec, _). Inr dec)))"

section \<open>The key stream\<close>

text \<open>A transformer whose nonce is a whole block never fails, and its stream ignores the data.\<close>

definition ctr_ok :: "ctr \<Rightarrow> bool" where
  "ctr_ok t = (blockSize \<le> length (ct_nonce t))"

lemma prepareBlock_total: "ctr_ok t \<Longrightarrow> \<exists>t'. prepareBlock C t = Inr t' \<and> ctr_ok t'"
  by (simp add: prepareBlock_def applyXor_def ctr_ok_def counterBytes_def blockSize_def)

lemma nextByte_total: "ctr_ok t \<Longrightarrow> \<exists>k t'. nextByte C t = Inr (k, t') \<and> ctr_ok t'"
  using prepareBlock_total [of t C] by (auto simp: nextByte_def ctr_ok_def)

lemma new_ctr_total: "length iv = blockSize \<Longrightarrow> \<exists>t. new_ctr C key iv = Inr t \<and> ctr_ok t"
  unfolding new_ctr_def by (rule prepareBlock_total) (simp add: ctr_ok_def)

lemma transform_all_total: "ctr_ok t \<Longrightarrow> \<exists>cs t'. transform_all C bs t = Inr (cs, t') \<and> length cs = length bs"
proof (induction bs arbitrary: t)
  case (Cons b bs)
  obtain k t1 where t1: "nextByte C t = Inr (k, t1)" "ctr_ok t1" using nextByte_total [OF Cons.prems] by blast
  from Cons.IH [OF t1(2)] t1(1) show ?case by (auto simp: transformByte_def)
qed simp

lemma transform_all_twice: "transform_all C bs t = Inr (cs, t') \<Longrightarrow> transform_all C cs t = Inr (bs, t')"
proof (induction bs arbitrary: t cs)
  case (Cons b bs)
  from Cons.prems obtain k t1 cs' where h: "nextByte C t = Inr (k, t1)" "transform_all C bs t1 = Inr (cs', t')"
    "cs = (b XOR k) # cs'"
    by (auto simp: transformByte_def res_bind_eq_Inr)
  from Cons.IH [OF h(2)] h(1,3) show ?case by (simp add: transformByte_def xor.assoc)
qed simp

lemma ring_loop_eq: "ring \<noteq> [] \<Longrightarrow> ring_loop ring bs = (take (length bs) (ring @ bs), drop (length bs) (ring @ bs))"
proof (induction bs arbitrary: ring)
  case (Cons b bs)
  then obtain x xs where "ring = x # xs" by (cases ring) auto
  with Cons.IH [of "xs @ [b]"] show ?case by simp
qed simp

lemma etaDecrypt_parts:
  assumes "length iv = blockSize" "length mac = hashsize"
  shows "etaDecrypt C key (iv @ enc @ mac) =
    (if hmac_sha256 C key enc = mac
     then res_bind (new_ctr C key iv) (\<lambda>t. res_bind (transform_all C enc t) (\<lambda>(m, _). Inr m))
     else Inl BadHmac)"
proof -
  let ?d = "iv @ enc @ mac"
  have ring: "ring_loop (take hashsize (drop blockSize ?d)) (drop (blockSize + hashsize) ?d) = (enc, mac)"
  proof -
    have e: "drop blockSize ?d = enc @ mac" using assms by simp
    have "length (drop (blockSize + hashsize) ?d) = length enc" using assms by simp
    moreover have "take hashsize (drop blockSize ?d) @ drop (blockSize + hashsize) ?d = enc @ mac"
      by (metis e append_take_drop_id drop_drop add.commute)
    moreover have "take hashsize (drop blockSize ?d) \<noteq> []" using assms by (auto simp: hashsize_def)
    ultimately show ?thesis by (simp add: ring_loop_eq)
  qed
  obtain t where t: "new_ctr C key iv = Inr t" "ctr_ok t" using new_ctr_total [OF assms(1)] by blast
  obtain m t' where m: "transform_all C enc t = Inr (m, t')" using transform_all_total [OF t(2)] by blast
  have "take blockSize ?d = iv" "\<not> length ?d < blockSize + hashsize" using assms by simp_all
  with t m assms(2) show ?thesis unfolding etaDecrypt_def Let_def ring by (simp only: if_False) simp
qed

lemma etaEncrypt_total:
  assumes "length iv = blockSize"
  shows "\<exists>enc. etaEncrypt C key iv m = Inr (iv @ enc @ hmac_sha256 C key enc) \<and> length enc = length m"
proof -
  obtain t where t: "new_ctr C key iv = Inr t" "ctr_ok t" using new_ctr_total [OF assms] by blast
  obtain enc t' where "transform_all C m t = Inr (enc, t')" "length enc = length m" using transform_all_total [OF t(2)] by blast
  with t show ?thesis by (auto simp: etaEncrypt_def)
qed

lemma etaDecrypt_etaEncrypt:
  assumes "\<And>k m. length (hmac_sha256 C k m) = 32" "length iv = 16" "etaEncrypt C key iv m = Inr d"
  shows "etaDecrypt C key d = Inr m"
proof -
  have iv: "length iv = blockSize" using assms(2) by (simp add: blockSize_def)
  obtain t where t: "new_ctr C key iv = Inr t" "ctr_ok t" using new_ctr_total [OF iv] by blast
  obtain enc t' where e: "transform_all C m t = Inr (enc, t')" using transform_all_total [OF t(2)] by blast
  then have "d = iv @ enc @ hmac_sha256 C key enc" using assms(3) t by (simp add: etaEncrypt_def)
  with iv assms(1) t transform_all_twice [OF e] show ?thesis by (simp add: etaDecrypt_parts hashsize_def)
qed

lemma etaDecrypt_Inr:
  assumes "etaDecrypt C key d = Inr m"
  shows "\<exists>iv enc. d = iv @ enc @ hmac_sha256 C key enc \<and> length iv = 16 \<and> length (hmac_sha256 C key enc) = 32 \<and>
    length m = length enc"
proof -
  have len: "blockSize + hashsize \<le> length d" using assms by (auto simp: etaDecrypt_def split: if_splits)
  define iv where "iv = take blockSize d"
  define enc where "enc = take (length d - (blockSize + hashsize)) (drop blockSize d)"
  define mac where "mac = drop (length d - (blockSize + hashsize)) (drop blockSize d)"
  have "enc @ mac = drop blockSize d" unfolding enc_def mac_def by (rule append_take_drop_id)
  then have d: "d = iv @ enc @ mac" by (simp add: iv_def)
  have l: "length iv = blockSize" "length mac = hashsize" using len by (simp_all add: iv_def mac_def)
  have "etaDecrypt C key (iv @ enc @ mac) = Inr m" using assms d by simp
  then have h: "hmac_sha256 C key enc = mac" by (simp add: etaDecrypt_parts [OF l] split: if_splits)
  obtain t where t: "new_ctr C key iv = Inr t" "ctr_ok t" using new_ctr_total [OF l(1)] by blast
  obtain m' t' where "transform_all C enc t = Inr (m', t')" "length m' = length enc" using transform_all_total [OF t(2)] by blast
  with \<open>etaDecrypt C key (iv @ enc @ mac) = Inr m\<close> h t have "length m = length enc"
    by (simp add: etaDecrypt_parts [OF l])
  with d h l show ?thesis by (intro exI [of _ iv] exI [of _ enc]) (simp add: blockSize_def hashsize_def)
qed

text \<open>\<open>etaDecrypt\<close> gives back what \<open>etaEncrypt\<close> encrypted under the same key, for any random IV of
  one block, if HMAC-SHA256 yields 32 bytes.\<close>

theorem eta_roundtrip:
  assumes "\<And>k m. length (hmac_sha256 C k m) = 32" "length iv = 16" "etaEncrypt C key iv m = Inr d"
  shows "etaDecrypt C key d = Inr m"
  by (rule etaDecrypt_etaEncrypt [OF assms])

text \<open>What \<open>etaDecrypt\<close> accepts carries the HMAC of its ciphertext under the key: data that fails the
  check is rejected, and so is anything shorter than an IV and an HMAC.\<close>

theorem eta_authentic:
  assumes "etaDecrypt C key d = Inr m"
  shows "\<exists>iv enc. d = iv @ enc @ hmac_sha256 C key enc \<and> length iv = 16 \<and> length (hmac_sha256 C key enc) = 32 \<and>
    length m = length enc"
  by (rule etaDecrypt_Inr [OF assms])

text \<open>The HMAC does not cover the IV: a message whose IV is replaced by any other one is accepted too,
  and decrypts to a text of the same length.\<close>

theorem eta_iv_unauthenticated:
  assumes "etaDecrypt C key (iv @ d) = Inr m" "length iv = 16" "length iv' = 16"
  shows "\<exists>m'. etaDecrypt C key (iv' @ d) = Inr m' \<and> length m' = length m"
proof -
  obtain iv0 enc where h: "iv @ d = iv0 @ enc @ hmac_sha256 C key enc" "length iv0 = 16"
    "length (hmac_sha256 C key enc) = 32" "length m = length enc"
    using etaDecrypt_Inr [OF assms(1)] by blast
  then have d: "d = enc @ hmac_sha256 C key enc" using assms(2) by simp
  have l: "length iv' = blockSize" "length (hmac_sha256 C key enc) = hashsize"
    using assms(3) h(3) by (simp_all add: blockSize_def hashsize_def)
  obtain t where t: "new_ctr C key iv' = Inr t" "ctr_ok t" using new_ctr_total [OF l(1)] by blast
  obtain m' t' where "transform_all C enc t = Inr (m', t')" "length m' = length enc" using transform_all_total [OF t(2)] by blast
  with t h(4) show ?thesis unfolding d by (simp add: etaDecrypt_parts [OF l])
qed

section \<open>A concrete cipher\<close>

text \<open>A block cipher that adds the key, and a MAC that pads key and message to 32 bytes.\<close>

definition toy_ciphers :: ciphers where
  "toy_ciphers = \<lparr>aes_ecb = (\<lambda>k b. map2 (+) k b), hmac_sha256 = (\<lambda>k m. take 32 (k @ m @ replicate 32 0))\<rparr>"

definition toy_iv :: bytes where "toy_iv = replicate 16 7"
definition toy_key :: bytes where "toy_key = replicate 16 3"

definition toy_sealed :: bytes where
  "toy_sealed = toy_iv @ [0x62, 0x63] @ toy_key @ [0x62, 0x63] @ replicate 14 0"

lemma toy_sealed: "etaEncrypt toy_ciphers toy_key toy_iv (cstr ''hi'') = Inr toy_sealed"
  by code_simp

lemma toy_hmac_length: "length (hmac_sha256 toy_ciphers k m) = 32"
  by (simp add: toy_ciphers_def)

lemma eta_roundtrip_witness: "etaDecrypt toy_ciphers toy_key toy_sealed = Inr (cstr ''hi'')"
  by (rule eta_roundtrip [OF toy_hmac_length _ toy_sealed]) (simp add: toy_iv_def)

lemma toy_opened: "etaDecrypt toy_ciphers toy_key toy_sealed = Inr (cstr ''hi'')"
  by code_simp

lemma eta_authentic_witness:
  "\<exists>iv enc. toy_sealed = iv @ enc @ hmac_sha256 toy_ciphers toy_key enc \<and> length iv = 16 \<and>
     length (hmac_sha256 toy_ciphers toy_key enc) = 32 \<and> length (cstr ''hi'') = length enc"
  by (rule eta_authentic [OF toy_opened])

lemma eta_iv_unauthenticated_witness:
  "\<exists>m'. etaDecrypt toy_ciphers toy_key (replicate 16 9 @ drop 16 toy_sealed) = Inr m' \<and> length m' = 2"
proof -
  have "toy_iv @ drop 16 toy_sealed = toy_sealed" by (simp add: toy_sealed_def toy_iv_def)
  then have "etaDecrypt toy_ciphers toy_key (toy_iv @ drop 16 toy_sealed) = Inr (cstr ''hi'')" using toy_opened by simp
  from eta_iv_unauthenticated [OF this, of "replicate 16 9"] show ?thesis by (simp add: toy_iv_def numeral_2_eq_2)
qed

end
