(* ===== verification/Safe58.thy ===== *)
theory Safe58
  imports Prelude
begin

text \<open>
  \<open>crypto/Safe58.cpp\<close>: numbers in base 58 with an alphabet that is safe to read aloud. The array
  \<open>temp\<close> is filled from its end: \<open>out\<close> is the part written so far. It is not initialised; what the
  stack holds there is the argument \<open>stack\<close> of the decoder. A write before the start of \<open>temp\<close> is \<open>Underflow\<close>.
\<close>

datatype safe58_error = NotBase58 | Underflow

definition ALPHABET :: bytes where
  "ALPHABET = cstr ''123456789ABCDEFGHJKLMNPQRSTUVWXYZabcdefghijkmnopqrstuvwxyz''"

definition BASE_58 :: nat where "BASE_58 = 58"
definition BASE_256 :: nat where "BASE_256 = 256"

fun alpha_index :: "byte \<Rightarrow> bytes \<Rightarrow> int \<Rightarrow> int" where
  "alpha_index c [] i = -1"
| "alpha_index c (a # as) i = (if a = c then i else alpha_index c as (i + 1))"

definition INDEXES :: "byte \<Rightarrow> int" where
  "INDEXES c = alpha_index c ALPHABET 0"

text \<open>\<open>divmod58\<close> and \<open>divmod256\<close>: the digits from \<open>startAt\<close> on, of base \<open>b\<close>, are divided by \<open>d\<close>.\<close>

fun divmod_loop :: "nat \<Rightarrow> nat \<Rightarrow> nat \<Rightarrow> bytes \<Rightarrow> bytes \<times> nat" where
  "divmod_loop b d remainder [] = ([], remainder)"
| "divmod_loop b d remainder (x # xs) =
     (let temp = remainder * b + unat x in
      case divmod_loop b d (temp mod d) xs of (ys, r) \<Rightarrow> (of_nat (temp div d) # ys, r))"

definition divmod_digits :: "nat \<Rightarrow> nat \<Rightarrow> bytes \<Rightarrow> nat \<Rightarrow> bytes \<times> byte" where
  "divmod_digits b d number startAt =
     (case divmod_loop b d 0 (drop startAt number) of (ys, r) \<Rightarrow> (take startAt number @ ys, of_nat r))"

definition divmod58 :: "bytes \<Rightarrow> nat \<Rightarrow> bytes \<times> byte" where
  "divmod58 = divmod_digits BASE_256 BASE_58"

definition divmod256 :: "bytes \<Rightarrow> nat \<Rightarrow> bytes \<times> byte" where
  "divmod256 = divmod_digits BASE_58 BASE_256"

definition count_zeroes :: "bytes \<Rightarrow> nat" where
  "count_zeroes xs = length (takeWhile (\<lambda>b. b = 0) xs)"

lemma divmod_loop_length [simp]: "length (fst (divmod_loop b d r xs)) = length xs"
  by (induction b d r xs rule: divmod_loop.induct) (simp_all add: Let_def case_prod_unfold)

lemma divmod_loop_snd: "divmod_loop b d r xs = (ys, q) \<Longrightarrow> length ys = length xs"
  using divmod_loop_length [of b d r xs] by simp

lemma divmod_head:
  assumes "startAt < length number" "1 < d"
  shows "fst (divmod_digits b d number startAt) ! startAt = of_nat (unat (number ! startAt) div d)"
    "length (fst (divmod_digits b d number startAt)) = length number"
proof -
  obtain x xs where x: "drop startAt number = x # xs" "x = number ! startAt"
    using assms(1) by (metis Cons_nth_drop_Suc)
  show "fst (divmod_digits b d number startAt) ! startAt = of_nat (unat (number ! startAt) div d)"
    using assms by (auto simp: divmod_digits_def x nth_append Let_def split: prod.splits)
  show "length (fst (divmod_digits b d number startAt)) = length number"
    using assms divmod_loop_length [of b d 0 "drop startAt number"]
    by (auto simp: divmod_digits_def simp del: divmod_loop_length split: prod.splits)
qed

lemma convert_step:
  assumes "startAt < length number" "1 < d" "divmod_digits b d number startAt = (number', r)"
  shows "length number' = length number" "number' ! startAt \<noteq> 0 \<Longrightarrow> unat (number' ! startAt) < unat (number ! startAt)"
proof -
  have hd: "number' ! startAt = of_nat (unat (number ! startAt) div d)" and "length number' = length number"
    using divmod_head [OF assms(1,2), of b] assms(3) by simp_all
  then show "length number' = length number" by simp
  have "unat (number ! startAt) div d < 256"
    using unat_byte_lt [of "number ! startAt"] by (meson div_le_dividend le_less_trans)
  then have u: "unat (number' ! startAt) = unat (number ! startAt) div d" by (simp add: hd unat_of_nat)
  show "unat (number' ! startAt) < unat (number ! startAt)" if "number' ! startAt \<noteq> 0"
  proof -
    have "unat (number ! startAt) div d \<noteq> 0" using that u by (metis unsigned_0 unsigned_word_eqI)
    then show ?thesis using u assms(2) by (metis div_0 div_less_dividend gr_zeroI)
  qed
qed

lemma convert_step': "(number', r) = divmod_digits b d number startAt \<Longrightarrow> startAt < length number \<Longrightarrow> Suc 0 < d \<Longrightarrow>
    length number' = length number \<and> (number' ! startAt = 0 \<or> unat (number' ! startAt) < unat (number ! startAt))"
  using convert_step [of startAt number d b number' r] by auto

text \<open>
  The loop of \<open>encode\<close> and of \<open>doDecode\<close>, with the division \<open>dm\<close> and what is stored for a remainder.
\<close>

function convert_loop :: "nat \<Rightarrow> nat \<Rightarrow> (byte \<Rightarrow> byte) \<Rightarrow> nat \<Rightarrow> bytes \<Rightarrow> nat \<Rightarrow> bytes \<Rightarrow> safe58_error + bytes" where
  "convert_loop b d store tempLength number startAt out =
     (if startAt < length number \<and> 1 < d then
        (case divmod_digits b d number startAt of (number', r) \<Rightarrow>
           if tempLength \<le> length out then Inl Underflow
           else convert_loop b d store tempLength number' (if number' ! startAt = 0 then startAt + 1 else startAt)
                  (store r # out))
      else Inr out)"
  by pat_completeness auto
termination
  by (relation "measures [\<lambda>(b, d, st, t, number, startAt, out). length number - startAt,
      \<lambda>(b, d, st, t, number, startAt, out). unat (number ! startAt)]")
    (auto dest: convert_step')

declare convert_loop.simps [simp del]

lemma convert_loop_done [simp]: "length number \<le> s \<Longrightarrow> convert_loop b d store t number s out = Inr out"
  by (simp add: convert_loop.simps)

lemma convert_loop_step:
  assumes "s < length number" "1 < d" "divmod_digits b d number s = (number', r)" "length out < t"
  shows "convert_loop b d store t number s out =
    convert_loop b d store t number' (if number' ! s = 0 then s + 1 else s) (store r # out)"
  using assms by (subst convert_loop.simps) simp

text \<open>
  \<open>encode\<close>. The bytes from \<open>temp[j]\<close> on are the list \<open>out\<close>; moving \<open>j\<close> forward drops its head.
\<close>

definition encode_store :: "byte \<Rightarrow> byte" where
  "encode_store r = ALPHABET ! unat r"

fun put_ones :: "nat \<Rightarrow> nat \<Rightarrow> bytes \<Rightarrow> safe58_error + bytes" where
  "put_ones tempLength 0 out = Inr out"
| "put_ones tempLength (Suc zeroCount) out =
     (if tempLength \<le> length out then Inl Underflow
      else put_ones tempLength zeroCount (ALPHABET ! 0 # out))"

definition encode :: "bytes \<Rightarrow> safe58_error + bytes" where
  "encode input =
     (if input = [] then Inr []
      else let zeroCount = count_zeroes input;
               tempLength = length input * 2 in
        res_bind (convert_loop BASE_256 BASE_58 encode_store tempLength input zeroCount []) (\<lambda>out.
          put_ones tempLength zeroCount (dropWhile (\<lambda>b. b = ALPHABET ! 0) out)))"

text \<open>
  \<open>doDecode\<close>. A \<open>char\<close> of 128 or more is negative. \<open>temp\<close> is \<open>stack\<close> before \<open>j\<close> and \<open>out\<close> from \<open>j\<close> on; the
  result is copied from \<open>j - zeroCount\<close>.
\<close>

fun digits58 :: "bytes \<Rightarrow> safe58_error + bytes" where
  "digits58 [] = Inr []"
| "digits58 (c # cs) =
     (let digit58 = (if unat c < 128 then INDEXES c else -1) in
      if digit58 < 0 then Inl NotBase58
      else res_bind (digits58 cs) (\<lambda>ds. Inr (of_int digit58 # ds)))"

definition doDecode :: "(nat \<Rightarrow> byte) \<Rightarrow> bytes \<Rightarrow> safe58_error + bytes" where
  "doDecode stack input =
     (if input = [] then Inr []
      else res_bind (digits58 input) (\<lambda>input58.
        let zeroCount = count_zeroes input58;
            tempLength = length input in
        res_bind (convert_loop BASE_58 BASE_256 id tempLength input58 zeroCount []) (\<lambda>out.
          let temp = map stack [0..<tempLength - length out] @ out;
              j = tempLength - length (dropWhile (\<lambda>b. b = 0) out) in
          if j < zeroCount then Inl Underflow else Inr (drop (j - zeroCount) temp))))"

definition lax_char :: "byte \<Rightarrow> byte" where
  "lax_char c =
     (if c = chr CHR ''I'' \<or> c = chr CHR ''!'' \<or> c = chr CHR ''|'' \<or> c = chr CHR ''l'' then chr CHR ''1''
      else if c = chr CHR ''O'' \<or> c = chr CHR ''0'' then chr CHR ''o'' else c)"

definition decode :: "(nat \<Rightarrow> byte) \<Rightarrow> bytes \<Rightarrow> bool \<Rightarrow> safe58_error + bytes" where
  "decode stack input strict = doDecode stack (if strict then input else map lax_char input)"

section \<open>The number a list of digits stands for\<close>

definition digits_val :: "nat \<Rightarrow> bytes \<Rightarrow> nat" where
  "digits_val b xs = foldl (\<lambda>a x. a * b + unat x) 0 xs"

definition digits_ok :: "nat \<Rightarrow> bytes \<Rightarrow> bool" where
  "digits_ok b xs = (\<forall>x \<in> set xs. unat x < b)"

lemma foldl_digits: "foldl (\<lambda>a x. a * b + unat x) r xs = r * b ^ length xs + digits_val b xs"
proof (induction xs arbitrary: r)
  case (Cons x xs)
  show ?case
    using Cons.IH [of "r * b + unat x"] Cons.IH [of "unat x"]
    by (simp add: digits_val_def algebra_simps)
qed (simp add: digits_val_def)

lemma digits_val_Nil [simp]: "digits_val b [] = 0"
  by (simp add: digits_val_def)

lemma digits_val_Cons [simp]: "digits_val b (x # xs) = unat x * b ^ length xs + digits_val b xs"
  using foldl_digits [of b "unat x" xs] by (simp add: digits_val_def)

lemma digits_val_snoc: "digits_val b (xs @ [x]) = digits_val b xs * b + unat x"
  by (simp add: digits_val_def)

lemma digits_ok_simps [simp]:
  "digits_ok b []" "digits_ok b (x # xs) \<longleftrightarrow> unat x < b \<and> digits_ok b xs"
  "digits_ok b (xs @ ys) \<longleftrightarrow> digits_ok b xs \<and> digits_ok b ys"
  by (auto simp: digits_ok_def)

lemma digits_ok_dropWhile [simp]: "digits_ok b xs \<Longrightarrow> digits_ok b (dropWhile P xs)"
  by (auto simp: digits_ok_def dest: set_dropWhileD)

lemma digits_ok_256 [simp]: "digits_ok 256 xs"
  by (simp add: digits_ok_def)

lemma digits_val_lt: "digits_ok b xs \<Longrightarrow> digits_val b xs < b ^ length xs"
proof (induction xs)
  case (Cons x xs)
  then have "unat x + 1 \<le> b" by simp
  then have "(unat x + 1) * b ^ length xs \<le> b * b ^ length xs" by (rule mult_le_mono1)
  with Cons show ?case by simp
qed simp

lemma digits_val_strip [simp]: "digits_val b (dropWhile (\<lambda>x. x = 0) xs) = digits_val b xs"
  by (induction xs) auto

text \<open>A list of digits without leading zeroes is determined by its number.\<close>

definition no_lead :: "bytes \<Rightarrow> bool" where
  "no_lead xs = (case xs of [] \<Rightarrow> True | x # _ \<Rightarrow> x \<noteq> 0)"

lemma no_lead_strip [simp]: "no_lead (dropWhile (\<lambda>x. x = 0) xs)"
  by (induction xs) (auto simp: no_lead_def)

lemma no_lead_ge:
  assumes "no_lead xs" "xs \<noteq> []"
  shows "b ^ (length xs - 1) \<le> digits_val b xs"
proof -
  obtain x ys where xs: "xs = x # ys" "x \<noteq> 0" using assms by (cases xs) (auto simp: no_lead_def)
  then have "0 < unat x" by (simp add: unat_gt_0)
  then have "1 * b ^ length ys \<le> unat x * b ^ length ys" by (intro mult_le_mono1) simp
  then show ?thesis unfolding xs(1) digits_val_Cons by (simp only: length_Cons diff_Suc_1 mult_1 trans_le_add1)
qed

lemma digit_split: "u * p + r = v * p + s \<Longrightarrow> r < p \<Longrightarrow> s < p \<Longrightarrow> u = v \<and> r = s" for p :: nat
proof -
  assume eq: "u * p + r = v * p + s" and r: "r < p" and s: "s < p"
  have "(u * p + r) div p = u" "(v * p + s) div p = v" using r s by simp_all
  with eq show "u = v \<and> r = s" by simp
qed

lemma digits_inj_length:
  assumes "digits_ok b xs" "digits_ok b ys" "length xs = length ys" "digits_val b xs = digits_val b ys"
  shows "xs = ys"
  using assms
proof (induction xs arbitrary: ys)
  case (Cons x xs)
  obtain y zs where ys: "ys = y # zs" using Cons.prems(3) by (cases ys) auto
  have lt: "digits_val b xs < b ^ length xs" "digits_val b zs < b ^ length xs"
    using digits_val_lt [of b xs] digits_val_lt [of b zs] Cons.prems ys by simp_all
  have eq: "unat x * b ^ length xs + digits_val b xs = unat y * b ^ length xs + digits_val b zs"
    using Cons.prems ys by simp
  have "unat x = unat y \<and> digits_val b xs = digits_val b zs" by (rule digit_split [OF eq lt])
  then show ?case using Cons.IH [of zs] Cons.prems ys by (simp add: byte_eqI)
qed simp

lemma digits_length_le:
  assumes "no_lead xs" "digits_ok b ys" "digits_val b xs = digits_val b ys" "1 < b"
  shows "length xs \<le> length ys"
proof (cases "xs = []")
  case False
  have "b ^ (length xs - 1) < b ^ length ys"
    using no_lead_ge [OF assms(1) False, of b] digits_val_lt [OF assms(2)] assms(3) by simp
  then have "length xs - 1 < length ys" using assms(4) by (metis power_less_imp_less_exp)
  then show ?thesis by simp
qed simp

lemma digits_unique:
  assumes "no_lead xs" "no_lead ys" "digits_ok b xs" "digits_ok b ys" "digits_val b xs = digits_val b ys" "1 < b"
  shows "xs = ys"
proof (rule digits_inj_length)
  show "length xs = length ys"
    using digits_length_le [OF assms(1,4,5,6)] digits_length_le [OF assms(2,3) assms(5)[symmetric] assms(6)] by simp
qed (fact assms)+

section \<open>One division\<close>

lemma divmod_loop_value:
  assumes "digits_ok b xs" "r < d" "b \<le> 256" "divmod_loop b d r xs = (ys, q)"
  shows "r * b ^ length xs + digits_val b xs = d * digits_val b ys + q \<and> digits_ok b ys \<and> q < d"
  using assms
proof (induction b d r xs arbitrary: ys q rule: divmod_loop.induct)
  case (2 b d r x xs)
  define t where "t = r * b + unat x"
  obtain zs where z: "divmod_loop b d (t mod d) xs = (zs, q)" "ys = of_nat (t div d) # zs"
    using "2.prems"(4) by (auto simp: Let_def t_def split: prod.splits)
  have d: "0 < d" and x: "unat x < b" using "2.prems" by simp_all
  have "(r + 1) * b \<le> d * b" using "2.prems"(2) by (intro mult_le_mono1) simp
  then have "t < d * b" using x by (simp add: t_def)
  then have tb: "t div d < b" using d by (simp add: less_mult_imp_div_less mult.commute)
  then have u: "unat (of_nat (t div d) :: byte) = t div d" using "2.prems"(3) by (simp add: unat_of_nat)
  have len: "length zs = length xs" using divmod_loop_snd [OF z(1)] .
  have IH: "(t mod d) * b ^ length xs + digits_val b xs = d * digits_val b zs + q \<and> digits_ok b zs \<and> q < d"
    using "2.IH" [OF t_def] z(1) "2.prems"(1,3) d by simp
  have "r * b ^ length (x # xs) + digits_val b (x # xs) = t * b ^ length xs + digits_val b xs"
    by (simp add: t_def algebra_simps)
  also have "\<dots> = (d * (t div d) + t mod d) * b ^ length xs + digits_val b xs" by simp
  also have "\<dots> = d * (t div d * b ^ length xs) + ((t mod d) * b ^ length xs + digits_val b xs)"
    by (simp only: add_mult_distrib mult.assoc add.assoc)
  also have "\<dots> = d * (t div d * b ^ length xs) + (d * digits_val b zs + q)" using IH by simp
  also have "\<dots> = d * digits_val b ys + q" by (simp add: z(2) u len algebra_simps)
  finally show ?case using IH tb u z(2) by simp
qed simp

lemma divmod_digits_val:
  assumes "digits_ok b (drop s number)" "0 < d" "d \<le> 256" "b \<le> 256" "divmod_digits b d number s = (number', r)"
  shows "digits_val b (drop s number) = d * digits_val b (drop s number') + unat r"
    "digits_ok b (drop s number')" "unat r < d"
proof -
  obtain ys q where y: "divmod_loop b d 0 (drop s number) = (ys, q)" by (cases "divmod_loop b d 0 (drop s number)")
  have v: "0 * b ^ length (drop s number) + digits_val b (drop s number) = d * digits_val b ys + q \<and> digits_ok b ys \<and> q < d"
    by (rule divmod_loop_value [OF assms(1,2,4) y])
  have n: "number' = take s number @ ys" "r = of_nat q" using assms(5) y by (auto simp: divmod_digits_def)
  have q: "unat r = q" using v assms(3) by (simp add: n unat_of_nat)
  have "drop s number' = ys"
  proof (cases "s \<le> length number")
    case False
    then have "ys = []" using divmod_loop_snd [OF y] by simp
    with False show ?thesis by (simp add: n)
  qed (simp add: n)
  then show "digits_val b (drop s number) = d * digits_val b (drop s number') + unat r"
    "digits_ok b (drop s number')" "unat r < d" using v q by simp_all
qed

section \<open>The whole conversion\<close>

lemma strip_digit: "s < length number \<Longrightarrow> number ! s = 0 \<Longrightarrow>
    digits_val b (drop (Suc s) number) = digits_val b (drop s number) \<and>
    (digits_ok b (drop s number) \<longrightarrow> digits_ok b (drop (Suc s) number))"
  by (simp flip: Cons_nth_drop_Suc)

lemma convert_loop_value:
  assumes "convert_loop b d store t number s out = Inr out'" "digits_ok b (drop s number)" "1 < d" "d \<le> 256" "b \<le> 256"
  shows "\<exists>ds. out' = map store ds @ out \<and> digits_ok d ds \<and> digits_val d ds = digits_val b (drop s number)"
  using assms
proof (induction b d store t number s out rule: convert_loop.induct)
  case (1 b d store t number s out)
  show ?case
  proof (cases "s < length number")
    case False
    then show ?thesis using "1.prems"(1) by (auto simp: convert_loop.simps intro: exI [of _ "[]"])
  next
    case True
    obtain number' r where dm: "divmod_digits b d number s = (number', r)" by fastforce
    note v = divmod_digits_val [OF "1.prems"(2) _ "1.prems"(4,5) dm]
    have len: "length number' = length number" using convert_step(1) [OF True "1.prems"(3) dm] .
    let ?s' = "if number' ! s = 0 then s + 1 else s"
    have t: "\<not> t \<le> length out" and rec: "convert_loop b d store t number' ?s' (store r # out) = Inr out'"
      using "1.prems"(1,3) True dm by (subst (asm) convert_loop.simps, simp split: if_splits)+
    have st: "digits_val b (drop ?s' number') = digits_val b (drop s number')" "digits_ok b (drop ?s' number')"
      using strip_digit [of s number' b] True len v(2) "1.prems"(3) by auto
    obtain ds where ds: "out' = map store ds @ store r # out" "digits_ok d ds"
        "digits_val d ds = digits_val b (drop s number')"
      using "1.IH" [OF _ dm[symmetric] t rec st(2) "1.prems"(3-5)] True "1.prems"(3) st(1) by auto
    then show ?thesis using v(1,3) "1.prems"(3)
      by (intro exI [of _ "ds @ [r]"]) (simp add: digits_val_snoc mult.commute)
  qed
qed

text \<open>The leading digit is divided by \<open>d\<close>, so the loop runs once or twice for each position.\<close>

lemma divmod_lead:
  assumes "s < length number" "1 < d" "divmod_digits b d number s = (number', r)"
  shows "unat (number' ! s) = unat (number ! s) div d"
proof -
  have "unat (number ! s) div d < 256"
    using unat_byte_lt [of "number ! s"] by (meson div_le_dividend le_less_trans)
  moreover have "number' ! s = of_nat (unat (number ! s) div d)"
    using divmod_head(1) [OF assms(1,2), of b] assms(3) by simp
  ultimately show ?thesis by (simp add: unat_of_nat)
qed

lemma convert_loop_length:
  assumes "length number - s + length out \<le> t" "digits_ok b (drop s number)" "1 < d" "d \<le> 256" "b \<le> d"
  shows "\<exists>out'. convert_loop b d store t number s out = Inr out' \<and> length out' = length number - s + length out"
  using assms
proof (induction b d store t number s out rule: convert_loop.induct)
  case (1 b d store t number s out)
  show ?case
  proof (cases "s < length number")
    case True
    obtain number' r where dm: "divmod_digits b d number s = (number', r)" by fastforce
    have len: "length number' = length number" using convert_step(1) [OF True "1.prems"(3) dm] .
    have "unat (number ! s) < d" using "1.prems"(2,5) True by (simp flip: Cons_nth_drop_Suc)
    then have z: "number' ! s = 0" using divmod_lead [OF True "1.prems"(3) dm] by (simp add: unsigned_word_eqI)
    have "digits_ok b (drop s number')"
      using divmod_digits_val(2) [OF "1.prems"(2) _ "1.prems"(4) _ dm] "1.prems" by simp
    then have ok: "digits_ok b (drop (if number' ! s = 0 then s + 1 else s) number')"
      using strip_digit [of s number' b] z True len by simp
    have t: "\<not> t \<le> length out" using "1.prems"(1) True by simp
    have le: "length number' - (if number' ! s = 0 then s + 1 else s) + length (store r # out) \<le> t"
      using "1.prems"(1) True len z by simp
    show ?thesis
      using "1.IH" [OF _ dm[symmetric] t le ok "1.prems"(3-5)] True "1.prems"(3) t dm z len
      by (subst convert_loop.simps) auto
  qed (subst convert_loop.simps, simp)
qed

lemma convert_loop_fits:
  assumes "2 * (length number - s) + length out \<le> m + (if s < length number \<and> unat (number ! s) < d then 1 else 0)"
    "digits_ok b (drop s number)" "1 < d" "d \<le> 256" "b \<le> d * d" "b \<le> 256" "m \<le> t"
  shows "\<exists>out'. convert_loop b d store t number s out = Inr out' \<and> length out' \<le> m"
  using assms
proof (induction b d store t number s out rule: convert_loop.induct)
  case (1 b d store t number s out)
  show ?case
  proof (cases "s < length number")
    case True
    obtain number' r where dm: "divmod_digits b d number s = (number', r)" by fastforce
    have len: "length number' = length number" using convert_step(1) [OF True "1.prems"(3) dm] .
    note lead = divmod_lead [OF True "1.prems"(3) dm]
    have "unat (number ! s) < d * d" using "1.prems"(2,5) True by (simp flip: Cons_nth_drop_Suc)
    then have small: "unat (number' ! s) < d" using lead by (simp add: less_mult_imp_div_less)
    have zero: "number' ! s = 0" if "unat (number ! s) < d" using lead that by (simp add: unsigned_word_eqI)
    have "digits_ok b (drop s number')"
      using divmod_digits_val(2) [OF "1.prems"(2) _ "1.prems"(4) _ dm] "1.prems" by simp
    then have ok: "digits_ok b (drop (if number' ! s = 0 then s + 1 else s) number')"
      using strip_digit [of s number' b] True len by simp
    let ?s = "if number' ! s = 0 then s + 1 else s"
    have t: "\<not> t \<le> length out" using "1.prems"(1,7) True by (simp split: if_splits)
    have le: "2 * (length number' - ?s) + length (store r # out)
        \<le> m + (if ?s < length number' \<and> unat (number' ! ?s) < d then 1 else 0)"
      using "1.prems"(1) True len small zero by (auto split: if_splits)
    show ?thesis
      using "1.IH" [OF _ dm[symmetric] t le ok "1.prems"(3-7)] True "1.prems"(3) t dm
      by (subst convert_loop.simps) auto
  qed (use "1.prems"(1) in \<open>subst convert_loop.simps, simp\<close>)
qed

section \<open>The alphabet\<close>

lemma alphabet_length [simp]: "length ALPHABET = 58"
  by (simp add: ALPHABET_def)

lemma alphabet_distinct: "distinct ALPHABET"
  by (simp add: ALPHABET_def)

lemma alphabet_chars: "list_all (\<lambda>c. unat c < 128 \<and> lax_char c = c) ALPHABET"
  by (simp add: ALPHABET_def lax_char_def)

lemma alpha_index_nth: "distinct as \<Longrightarrow> k < length as \<Longrightarrow> alpha_index (as ! k) as i = i + int k"
proof (induction as arbitrary: k i)
  case (Cons a as)
  then show ?case by (cases k) auto
qed simp

lemma alphabet_at:
  assumes "k < 58"
  shows "INDEXES (ALPHABET ! k) = int k" "unat (ALPHABET ! k) < 128" "lax_char (ALPHABET ! k) = ALPHABET ! k"
  using alpha_index_nth [OF alphabet_distinct, of k 0] alphabet_chars assms by (auto simp: INDEXES_def list_all_length)

lemma alphabet_zero: "k < 58 \<Longrightarrow> ALPHABET ! k = ALPHABET ! 0 \<longleftrightarrow> k = 0"
  using alphabet_at(1) [of k] alphabet_at(1) [of 0] by auto

lemma encode_store_zero [simp]: "unat r < 58 \<Longrightarrow> encode_store r = ALPHABET ! 0 \<longleftrightarrow> r = 0"
  using alphabet_zero [of "unat r"] by (auto simp: encode_store_def unsigned_eq_0_iff)

lemma alpha_index_range: "alpha_index c as i = -1 \<or> (\<exists>k < length as. as ! k = c \<and> alpha_index c as i = i + int k)"
proof (induction c as i rule: alpha_index.induct)
  case (2 c a as i)
  show ?case
  proof (cases "a = c")
    case False
    with 2 show ?thesis by (auto intro: exI [of _ "Suc k" for k])
  qed (auto intro: exI [of _ 0])
qed simp

lemma indexes_inv: "0 \<le> INDEXES c \<Longrightarrow> INDEXES c < 58 \<and> ALPHABET ! nat (INDEXES c) = c"
  using alpha_index_range [of c ALPHABET 0] by (auto simp: INDEXES_def)

lemma digits58_encode: "digits_ok 58 ds \<Longrightarrow> digits58 (map encode_store ds) = Inr ds"
proof (induction ds)
  case (Cons d ds)
  then show ?case using alphabet_at(1,2) [of "unat d"] by (simp add: encode_store_def Let_def)
qed simp

lemma digits58_inv: "digits58 s = Inr ds \<Longrightarrow> s = map encode_store ds \<and> digits_ok 58 ds"
proof (induction s arbitrary: ds)
  case (Cons c s)
  then obtain es where es: "unat c < 128" "0 \<le> INDEXES c" "digits58 s = Inr es" "ds = of_int (INDEXES c) # es"
    by (auto simp: Let_def res_bind_eq_Inr split: if_splits)
  have "unat (of_int (INDEXES c) :: byte) = nat (INDEXES c)"
    using indexes_inv [OF es(2)] es(2) by (simp add: unsigned_of_int nat_mod_distrib take_bit_eq_mod)
  moreover have "nat (INDEXES c) < 58" using indexes_inv [OF es(2)] es(2) by (simp add: nat_less_iff)
  ultimately show ?case using indexes_inv [OF es(2)] Cons.IH [OF es(3)] es(4) by (simp add: encode_store_def)
qed simp

lemma lax_encoded [simp]: "digits_ok 58 ds \<Longrightarrow> map lax_char (map encode_store ds) = map encode_store ds"
  by (auto simp: digits_ok_def encode_store_def alphabet_at(3))

section \<open>Encoding and decoding\<close>

lemma drop_zeroes: "drop (count_zeroes xs) xs = dropWhile (\<lambda>b. b = 0) xs"
  by (induction xs) (auto simp: count_zeroes_def)

lemma zeroes_split: "xs = replicate (count_zeroes xs) 0 @ dropWhile (\<lambda>b. b = 0) xs"
  by (induction xs) (auto simp: count_zeroes_def)

lemma count_zeroes_le: "count_zeroes xs \<le> length xs"
  by (simp add: count_zeroes_def length_takeWhile_le)

lemma count_zeroes_app: "no_lead ds \<Longrightarrow> count_zeroes (replicate n 0 @ ds) = n"
  by (induction n) (auto simp: count_zeroes_def no_lead_def split: list.splits)

lemma strip_app: "no_lead ds \<Longrightarrow> dropWhile (\<lambda>b. b = 0) (replicate n 0 @ ds) = ds"
  by (induction n) (auto simp: no_lead_def split: list.splits)

lemma put_ones_ok: "n + length out \<le> t \<Longrightarrow> put_ones t n out = Inr (replicate n (ALPHABET ! 0) @ out)"
  by (induction t n out rule: put_ones.induct) (simp_all add: replicate_app_Cons_same)

lemma dropWhile_store:
  "digits_ok 58 ds \<Longrightarrow> dropWhile (\<lambda>b. b = ALPHABET ! 0) (map encode_store ds) = map encode_store (dropWhile (\<lambda>b. b = 0) ds)"
  by (induction ds) auto

lemma encode_form:
  assumes "input \<noteq> []"
  shows "\<exists>ds. encode input = Inr (map encode_store (replicate (count_zeroes input) 0 @ ds)) \<and> no_lead ds
    \<and> digits_ok 58 ds \<and> digits_val 58 ds = digits_val 256 input"
proof -
  let ?z = "count_zeroes input" and ?t = "length input * 2"
  have z: "?z \<le> length input" by (rule count_zeroes_le)
  have "\<exists>out. convert_loop 256 58 encode_store ?t input ?z [] = Inr out \<and> length out \<le> ?t - ?z"
    by (rule convert_loop_fits) (use z in simp_all)
  then obtain out where out: "convert_loop 256 58 encode_store ?t input ?z [] = Inr out" "length out \<le> ?t - ?z" by blast
  obtain ds where ds: "out = map encode_store ds" "digits_ok 58 ds" "digits_val 58 ds = digits_val 256 input"
    using convert_loop_value [OF out(1)] by (auto simp: drop_zeroes)
  let ?ds = "dropWhile (\<lambda>b. b = 0) ds"
  have "length ?ds \<le> length out" by (simp add: ds(1) length_dropWhile_le)
  then have "?z + length (map encode_store ?ds) \<le> ?t" using out(2) z by simp
  then have "encode input = Inr (replicate ?z (ALPHABET ! 0) @ map encode_store ?ds)"
    using put_ones_ok [of ?z "map encode_store ?ds" ?t] out(1) assms
    by (simp add: encode_def BASE_58_def BASE_256_def Let_def ds(1) dropWhile_store [OF ds(2)])
  moreover have "encode_store 0 = ALPHABET ! 0" by (simp add: encode_store_def)
  ultimately show ?thesis using ds(2,3) by (intro exI [of _ ?ds]) (simp del: encode_store_zero)
qed

text \<open>What the decoder makes of a string of base 58 digits: the first bytes are those of the stack.\<close>

lemma doDecode_form:
  assumes "digits_ok 58 ds" "no_lead ds"
  shows "\<exists>out. doDecode stack (map encode_store (replicate z 0 @ ds)) =
      Inr (drop (count_zeroes out) (map stack [0..<z] @ out)) \<and> length out = length ds \<and> digits_val 256 out = digits_val 58 ds"
proof (cases "replicate z 0 @ ds = []")
  case False
  let ?n = "replicate z 0 @ ds"
  have ok: "digits_ok 58 ?n" using assms(1) by (induction z) simp_all
  have cz: "count_zeroes ?n = z" by (rule count_zeroes_app [OF assms(2)])
  have "\<exists>out. convert_loop 58 256 id (length ?n) ?n z [] = Inr out \<and> length out = length ?n - z + length ([] :: bytes)"
    by (rule convert_loop_length) (use assms(1) in simp_all)
  then obtain out where out: "convert_loop 58 256 id (length ?n) ?n z [] = Inr out" "length out = length ds" by auto
  have v: "digits_val 256 out = digits_val 58 ds"
    using convert_loop_value [OF out(1)] assms(1) by auto
  have l: "length out = count_zeroes out + length (dropWhile (\<lambda>b. b = 0) out)"
    using arg_cong [OF zeroes_split [of out], of length] by simp
  have l': "length ds - length (dropWhile (\<lambda>b. b = 0) out) = count_zeroes out"
    "length ds - (length (dropWhile (\<lambda>b. b = 0) out) + z) = count_zeroes out - z"
    "\<not> z + length ds - length (dropWhile (\<lambda>b. b = 0) out) < z"
    using l out(2) by simp_all
  have "doDecode stack (map encode_store ?n) = Inr (drop (count_zeroes out) (map stack [0..<z] @ out))"
    unfolding doDecode_def digits58_encode [OF ok]
    using False out cz l' by (simp add: BASE_58_def BASE_256_def Let_def)
  with out(2) v show ?thesis by blast
qed (simp add: doDecode_def)

lemma decode_encoded:
  assumes "digits_ok 58 ds"
  shows "decode stack (map encode_store ds) strict = doDecode stack (map encode_store ds)"
  using lax_encoded [OF assms] by (simp add: decode_def del: map_map)

lemma decode_encode_general:
  shows "\<exists>s k. encode input = Inr s \<and>
    decode stack s strict = Inr (drop k (map stack [0..<count_zeroes input]) @
      replicate (min k (count_zeroes input)) 0 @ dropWhile (\<lambda>b. b = 0) input)"
proof (cases "input = []")
  case False
  let ?z = "count_zeroes input" and ?rest = "dropWhile (\<lambda>b. b = 0) input"
  obtain ds where ds: "encode input = Inr (map encode_store (replicate ?z 0 @ ds))" "no_lead ds" "digits_ok 58 ds"
      "digits_val 58 ds = digits_val 256 input"
    using encode_form [OF False] by blast
  obtain out where out: "doDecode stack (map encode_store (replicate ?z 0 @ ds)) =
      Inr (drop (count_zeroes out) (map stack [0..<?z] @ out))" "digits_val 256 out = digits_val 58 ds"
    using doDecode_form [OF ds(3,2), of stack ?z] by blast
  have rest: "dropWhile (\<lambda>b. b = 0) out = ?rest"
    by (rule digits_unique [of _ _ 256]) (simp_all add: out(2) ds(4))
  let ?k = "count_zeroes out"
  have "drop (?k - ?z) out = replicate (min ?k ?z) 0 @ ?rest"
    using arg_cong [OF zeroes_split [of out], of "drop (?k - ?z)"] by (simp add: rest)
  moreover have "digits_ok 58 (replicate ?z 0 @ ds)" using ds(3) by (auto simp: digits_ok_def)
  ultimately show ?thesis using ds(1) out(1) decode_encoded [of "replicate ?z 0 @ ds" stack strict] by simp metis
qed (simp add: encode_def decode_def doDecode_def count_zeroes_def)

lemma decode_encode_exact:
  assumes "count_zeroes input = 0 \<or> (\<forall>i. stack i = 0)"
  shows "res_bind (encode input) (\<lambda>s. decode stack s strict) = Inr input"
proof -
  obtain s k where sk: "encode input = Inr s" "decode stack s strict = Inr (drop k (map stack [0..<count_zeroes input]) @
      replicate (min k (count_zeroes input)) 0 @ dropWhile (\<lambda>b. b = 0) input)"
    using decode_encode_general by blast
  have "drop k (map stack [0..<count_zeroes input]) @ replicate (min k (count_zeroes input)) 0 = replicate (count_zeroes input) 0"
  proof (cases "count_zeroes input = 0")
    case False
    then have "map stack [0..<count_zeroes input] = replicate (count_zeroes input) 0"
      using assms by (intro replicate_eqI) auto
    then show ?thesis by (simp flip: replicate_add)
  qed simp
  then have "decode stack s strict = Inr (replicate (count_zeroes input) 0 @ dropWhile (\<lambda>b. b = 0) input)"
    using sk(2) by (simp flip: append_assoc)
  then show ?thesis using sk(1) zeroes_split [of input] by simp
qed

lemma encode_decode_exact:
  assumes "decode stack s True = Inr data" "s = [] \<or> s ! 0 \<noteq> ALPHABET ! 0"
  shows "encode data = Inr s"
proof (cases "s = []")
  case False
  then obtain ds where "digits58 s = Inr ds"
    using assms(1) by (auto simp: decode_def doDecode_def res_bind_eq_Inr)
  then have ds: "s = map encode_store ds" "digits_ok 58 ds" using digits58_inv by blast+
  have nl: "no_lead ds" using assms(2) False ds by (cases ds) (auto simp: no_lead_def)
  obtain out where out: "doDecode stack s = Inr (drop (count_zeroes out) out)" "digits_val 256 out = digits_val 58 ds"
    using doDecode_form [OF ds(2) nl, of stack 0] ds(1) by auto
  have data: "data = dropWhile (\<lambda>b. b = 0) out" using out(1) assms(1) by (simp add: decode_def drop_zeroes)
  have "ds \<noteq> []" using False ds(1) by auto
  then have "0 < digits_val 58 ds" using no_lead_ge [OF nl, of 58] by (simp add: less_le_trans [of 0 "58 ^ n" for n])
  then have ne: "data \<noteq> []" using data out(2) digits_val_strip [of 256 out] by (metis digits_val_Nil less_irrefl)
  have "takeWhile (\<lambda>b. b = 0) data = []" unfolding data by (induction out) auto
  then have cz: "count_zeroes data = 0" by (simp add: count_zeroes_def)
  obtain es where es: "encode data = Inr (map encode_store es)" "no_lead es" "digits_ok 58 es"
      "digits_val 58 es = digits_val 256 data"
    using encode_form [OF ne] cz by auto
  have "es = ds" by (rule digits_unique [OF es(2) nl es(3) ds(2)]) (simp_all add: es(4) out(2) data)
  with es(1) ds(1) show ?thesis by simp
next
  case True
  then show ?thesis using assms(1) by (simp add: decode_def doDecode_def encode_def)
qed

lemma encode_set: "\<exists>s. encode input = Inr s \<and> set s \<subseteq> set ALPHABET"
proof (cases "input = []")
  case False
  then obtain ds where ds: "encode input = Inr (map encode_store (replicate (count_zeroes input) 0 @ ds))" "digits_ok 58 ds"
    using encode_form by blast
  have "encode_store d \<in> set ALPHABET" if "unat d < 58" for d
    using that by (simp add: encode_store_def)
  then have "set (map encode_store (replicate (count_zeroes input) 0 @ ds)) \<subseteq> set ALPHABET"
    using ds(2) by (auto simp: digits_ok_def)
  with ds(1) show ?thesis by blast
qed (simp add: encode_def)

lemma digits58_error: "digits58 s = Inl e \<longleftrightarrow> e = NotBase58 \<and> \<not> set s \<subseteq> set ALPHABET"
proof (induction s arbitrary: e)
  case (Cons c s)
  have "c \<in> set ALPHABET \<longleftrightarrow> unat c < 128 \<and> 0 \<le> INDEXES c"
  proof
    assume "c \<in> set ALPHABET"
    then show "unat c < 128 \<and> 0 \<le> INDEXES c" using alphabet_at by (auto simp: in_set_conv_nth)
  next
    assume "unat c < 128 \<and> 0 \<le> INDEXES c"
    then have "nat (INDEXES c) < length ALPHABET" "ALPHABET ! nat (INDEXES c) = c"
      using indexes_inv [of c] by (simp_all add: nat_less_iff)
    then show "c \<in> set ALPHABET" by (metis nth_mem)
  qed
  then show ?case using Cons.IH by (auto simp: Let_def res_bind_eq_Inl)
qed simp

lemma decode_error: "decode stack s True = Inl e \<longleftrightarrow> e = NotBase58 \<and> \<not> set s \<subseteq> set ALPHABET"
proof (cases "digits58 s")
  case (Inl f)
  then have "s \<noteq> []" "f = NotBase58 \<and> \<not> set s \<subseteq> set ALPHABET" using digits58_error [of s f] by auto
  with Inl show ?thesis by (auto simp: decode_def doDecode_def)
next
  case (Inr ds)
  then have ds: "s = map encode_store ds" "digits_ok 58 ds" using digits58_inv by blast+
  obtain z es where z: "ds = replicate z 0 @ es" "no_lead es"
    using zeroes_split [of ds] no_lead_strip by metis
  then have "digits_ok 58 es" using ds(2) by simp
  then have "\<exists>d. decode stack s True = Inr d"
    using doDecode_form [OF _ z(2), of stack z] unfolding ds(1) z(1) by (auto simp: decode_def)
  then obtain d where d: "decode stack s True = Inr d" ..
  have "set s \<subseteq> set ALPHABET" using digits58_error [of s NotBase58] Inr by simp
  with d show ?thesis by simp
qed

section \<open>Properties\<close>

text \<open>
  C37: Decoding what \<open>encode\<close> produced gives the bytes back, in both modes of \<open>decode\<close>, whenever the input has no
  leading zero byte (or the memory of \<open>temp\<close> happens to be zero).
\<close>

theorem safe58_roundtrip:
  assumes "count_zeroes input = 0 \<or> (\<forall>i. stack i = 0)"
  shows "res_bind (encode input) (\<lambda>s. decode stack s strict) = Inr input"
  using assms by (rule decode_encode_exact)

theorem safe58_roundtrip_witness:
  "res_bind (encode [17, 0, 255]) (\<lambda>s. decode (\<lambda>i. 204) s False) = Inr [17, 0, 255]"
  by (rule safe58_roundtrip) (simp add: count_zeroes_def)

text \<open>
  A string is the only encoding of its value: encoding what strict decoding of a string returns gives the
  string, when it does not start with the digit zero (the character 1).
\<close>

theorem safe58_canonical:
  assumes "decode stack s True = Inr data" "s = [] \<or> s ! 0 \<noteq> ALPHABET ! 0"
  shows "encode data = Inr s"
  using assms by (rule encode_decode_exact)

theorem safe58_canonical_witness: "encode [2] = Inr (cstr ''3'')"
proof -
  have z: "cstr ''3'' = map encode_store [2]" by (simp add: encode_store_def ALPHABET_def)
  have "digits58 (cstr ''3'') = Inr [2]" unfolding z by (rule digits58_encode) simp
  moreover have "divmod_digits 58 256 [2] 0 = ([0], 2)" by (simp add: divmod_digits_def Let_def)
  ultimately have "decode (\<lambda>i. 0) (cstr ''3'') True = Inr [2]"
    by (simp add: decode_def doDecode_def count_zeroes_def BASE_58_def BASE_256_def convert_loop_step del: digits58.simps)
  then show ?thesis by (rule safe58_canonical) (simp add: ALPHABET_def)
qed

text \<open>
  Every byte sequence is encoded, never writing outside the buffer \<open>temp\<close>, and the result is made of
  letters of the alphabet only.
\<close>

theorem safe58_encode_type: "\<exists>s. encode input = Inr s \<and> set s \<subseteq> set ALPHABET"
  by (rule encode_set)

text \<open>
  Strict decoding fails exactly on the strings with a character outside the alphabet, with the
  exception; the other strings are decoded inside the buffer.
\<close>

theorem safe58_rejects: "decode stack s True = Inl e \<longleftrightarrow> e = NotBase58 \<and> \<not> set s \<subseteq> set ALPHABET"
  by (rule decode_error)

text \<open>
  The leading zero bytes that the digits 1 at the start of a string stand for are copied from \<open>temp\<close>, which
  nothing wrote: the string of \<open>n\<close> digits 1 decodes to whatever the first \<open>n\<close> bytes of the stack array are.
\<close>

theorem safe58_leading_ones: "decode stack (replicate n (chr CHR ''1'')) strict = Inr (map stack [0..<n])"
proof -
  have one: "chr CHR ''1'' = encode_store 0" by (simp add: encode_store_def ALPHABET_def)
  have "digits_ok 58 (replicate n 0)" by (simp add: digits_ok_def)
  then have "decode stack (map encode_store (replicate n 0)) strict = doDecode stack (map encode_store (replicate n 0))"
    by (rule decode_encoded)
  moreover have "doDecode stack (map encode_store (replicate n 0)) = Inr (map stack [0..<n])"
    using doDecode_form [of "[]" stack n] by (simp add: no_lead_def count_zeroes_def)
  ultimately show ?thesis by (simp only: one map_replicate)
qed

end
