(* ===== verification/CryptoCommon.thy ===== *)
theory CryptoCommon
  imports BossTheorems Safe58
begin

text \<open>
  What the key classes share (\<open>crypto/cryptoCommon.cpp\<close>): the hash types and the \<open>Digest\<close> class, and the
  libraries below them as parameters. LibTomCrypt is the record \<open>ltc\<close>, GMP the record \<open>gmp\<close>; \<open>ltc_ok\<close> and \<open>gmp_ok\<close>
  are their documented behaviour. A number is an \<open>int\<close>. Exceptions, and the undefined operations of the code, are
  the errors \<open>key_error\<close>.
\<close>

datatype HashType = HT_MIN | SHA1 | SHA256 | SHA512 | SHA3_256 | SHA3_384 | SHA3_512 | HT_MAX

datatype key_error =
    Boss boss_error        \<comment> \<open>thrown by the reader or the writer\<close>
  | EtaFailed              \<comment> \<open>thrown by \<open>SymmetricKey\<close>\<close>
  | OutOfRange             \<comment> \<open>\<open>std::out_of_range\<close> of \<open>UArray::at\<close>\<close>
  | ParseFailed            \<comment> \<open>failed to parse a key\<close>
  | WrongKeyKind           \<comment> \<open>private instead of public, password protected, or unknown\<close>
  | UnknownHashType | UnknownPrfName | UnknownPbkdf
  | RsaPassword | TooFewRounds | KeyTooShort | NotPrf | WrongPassword
  | TypeMarkRange | NoMask | ZeroMask | BadControlCode | BadBase58
  | LengthNegative         \<comment> \<open>\<open>std::length_error\<close> from a negative size\<close>
  | IntOverflow            \<comment> \<open>the code would overflow an \<open>int\<close>\<close>
  | NullSalt               \<comment> \<open>the code would dereference a null pointer\<close>
  | ReadPastEnd            \<comment> \<open>the code would read behind the end of a vector\<close>
  | GmpUndefined           \<comment> \<open>the code would divide by zero\<close>

definition boss :: "boss_error + 'a \<Rightarrow> key_error + 'a" where
  "boss m = (case m of Inl e \<Rightarrow> Inl (Boss e) | Inr x \<Rightarrow> Inr x)"

definition catch :: "key_error \<Rightarrow> key_error + 'a \<Rightarrow> key_error + 'a" where
  "catch e' m = (case m of
       Inl (Boss e) \<Rightarrow> Inl (if boss_undefined e then Boss e else e')
     | Inl GmpUndefined \<Rightarrow> Inl GmpUndefined
     | Inl _ \<Rightarrow> Inl e'
     | Inr x \<Rightarrow> Inr x)"

lemma boss_Inr [simp]: "boss (Inr x) = Inr x"
  by (simp add: boss_def)

lemma boss_eq_Inr [simp]: "boss m = Inr x \<longleftrightarrow> m = Inr x"
  by (cases m) (simp_all add: boss_def)

lemma catch_Inr [simp]: "catch e (Inr x) = Inr x"
  by (simp add: catch_def)

lemma catch_eq_Inr [simp]: "catch e m = Inr x \<longleftrightarrow> m = Inr x"
  by (simp add: catch_def split: sum.splits key_error.splits)

section \<open>LibTomCrypt and GMP\<close>

record ltc =
  hash_size :: "HashType \<Rightarrow> nat"
  hash_memory :: "HashType \<Rightarrow> bytes \<Rightarrow> bytes"
  hmac_memory :: "HashType \<Rightarrow> bytes \<Rightarrow> bytes \<Rightarrow> bytes"  \<comment> \<open>key, message\<close>
  crc32 :: "bytes \<Rightarrow> bytes"

definition ltc_ok :: "ltc \<Rightarrow> bool" where
  "ltc_ok L \<longleftrightarrow>
     hash_size L SHA1 = 20 \<and> hash_size L SHA256 = 32 \<and> hash_size L SHA512 = 64 \<and> hash_size L SHA3_256 = 32 \<and>
     hash_size L SHA3_384 = 48 \<and> hash_size L SHA3_512 = 64 \<and>
     (\<forall>t m. length (hash_memory L t m) = hash_size L t) \<and>
     (\<forall>t k m. length (hmac_memory L t k m) = hash_size L t) \<and>
     (\<forall>m. length (crc32 L m) = 4)"

record gmp =
  mpz_sizeinbase2 :: "int \<Rightarrow> nat"
  mpz_export :: "int \<Rightarrow> bytes"
  mpz_import :: "bytes \<Rightarrow> int"
  mpz_get_str :: "nat \<Rightarrow> int \<Rightarrow> bytes"
  mpz_set_str :: "nat \<Rightarrow> bytes \<Rightarrow> int"
  mpz_invert :: "int \<Rightarrow> int \<Rightarrow> int"

definition gmp_ok :: "gmp \<Rightarrow> bool" where
  "gmp_ok G \<longleftrightarrow>
     (\<forall>n > 0. length (mpz_export G n) = (mpz_sizeinbase2 G n + 7) div 8 \<and> mpz_import G (mpz_export G n) = n \<and>
        int (digits_val 256 (mpz_export G n)) = n \<and>
        mpz_set_str G 10 (mpz_get_str G 10 n) = n \<and> mpz_set_str G 16 (mpz_get_str G 16 n) = n)"

text \<open>
  \<open>mpz_to_unsigned_bin\<close> writes into an array of \<open>mpz_unsigned_bin_size\<close> bytes that holds what the stack held
  (\<open>stack\<close>); for the number zero nothing is written.
\<close>

definition mpz_unsigned_bin_size :: "gmp \<Rightarrow> int \<Rightarrow> nat" where
  "mpz_unsigned_bin_size G p = (mpz_sizeinbase2 G p + 7) div 8"

definition mpz_to_unsigned_bin :: "gmp \<Rightarrow> int \<Rightarrow> bytes \<Rightarrow> bytes" where
  "mpz_to_unsigned_bin G p buf = mpz_export G p @ drop (length (mpz_export G p)) buf"

definition unsigned_bin :: "gmp \<Rightarrow> (nat \<Rightarrow> byte) \<Rightarrow> int \<Rightarrow> bytes" where
  "unsigned_bin G stack p = mpz_to_unsigned_bin G p (map stack [0..<mpz_unsigned_bin_size G p])"

lemma unsigned_bin_pos: "gmp_ok G \<Longrightarrow> 0 < n \<Longrightarrow> unsigned_bin G stack n = mpz_export G n"
  by (simp add: unsigned_bin_def mpz_to_unsigned_bin_def mpz_unsigned_bin_size_def gmp_ok_def)

lemma import_export: "gmp_ok G \<Longrightarrow> 0 < n \<Longrightarrow> mpz_import G (mpz_export G n) = n"
  by (simp add: gmp_ok_def)

section \<open>Hash types and digests\<close>

definition getJavaHashName :: "HashType \<Rightarrow> key_error + bytes" where
  "getJavaHashName hashType = (case hashType of
       SHA1 \<Rightarrow> Inr (cstr ''SHA-1'')
     | SHA256 \<Rightarrow> Inr (cstr ''SHA-256'')
     | SHA512 \<Rightarrow> Inr (cstr ''SHA-512'')
     | SHA3_256 \<Rightarrow> Inr (cstr ''SHA3-256'')
     | SHA3_384 \<Rightarrow> Inr (cstr ''SHA3-384'')
     | SHA3_512 \<Rightarrow> Inr (cstr ''SHA3-512'')
     | _ \<Rightarrow> Inl UnknownHashType)"

text \<open>The hash state of \<open>Digest\<close> is represented by the bytes processed since \<open>init\<close>.\<close>

record digest =
  dg_type :: HashType
  dg_md :: bytes
  dg_out :: bytes

definition new_digest :: "HashType \<Rightarrow> digest" where
  "new_digest hashType = \<lparr>dg_type = hashType, dg_md = [], dg_out = []\<rparr>"

definition dg_update :: "bytes \<Rightarrow> digest \<Rightarrow> digest" where
  "dg_update data d = d\<lparr>dg_md := dg_md d @ data\<rparr>"

definition dg_doFinal :: "ltc \<Rightarrow> digest \<Rightarrow> digest" where
  "dg_doFinal L d = d\<lparr>dg_out := hash_memory L (dg_type d) (dg_md d), dg_md := []\<rparr>"

definition digest_of :: "ltc \<Rightarrow> HashType \<Rightarrow> bytes \<Rightarrow> digest" where
  "digest_of L hashType data = dg_doFinal L (dg_update data (new_digest hashType))"

definition getDigestSize :: "ltc \<Rightarrow> digest \<Rightarrow> nat" where
  "getDigestSize L d = hash_size L (dg_type d)"

definition getDigest :: "digest \<Rightarrow> bytes" where
  "getDigest d = dg_out d"

lemma java_names_distinct:
  "getJavaHashName s = Inr n \<Longrightarrow> getJavaHashName t = Inr n \<Longrightarrow> s = t"
  by (cases s; cases t) (auto simp: getJavaHashName_def)

lemma digest_chunks: "dg_out (dg_doFinal L (fold dg_update chunks (new_digest t))) = hash_memory L t (concat chunks)"
proof -
  have "fold dg_update chunks d = d\<lparr>dg_md := dg_md d @ concat chunks\<rparr>" for d
    by (induction chunks arbitrary: d) (simp_all add: dg_update_def)
  then show ?thesis by (simp add: dg_doFinal_def new_digest_def)
qed

lemma digest_reusable: "dg_md (dg_doFinal L d) = []"
  by (simp add: dg_doFinal_def)

section \<open>Reading packed objects one by one\<close>

definition obj_at :: "uobj list \<Rightarrow> nat \<Rightarrow> key_error + uobj" where
  "obj_at xs k = (if k < length xs then Inr (xs ! k) else Inl OutOfRange)"

definition read_int :: "key_parser \<Rightarrow> bytes \<Rightarrow> reader \<Rightarrow> key_error + u64 \<times> reader" where
  "read_int kp bs r = res_bind (boss (readObject kp bs r)) (\<lambda>(u, r). res_bind (boss (int_asInstance u)) (\<lambda>i. Inr (i, r)))"

lemma objects_read_back:
  assumes "\<forall>u \<in> set us. uobj_wf kp u \<and> short_stream (base_serialize u)" "res_bind (writeObjects us (new_writer True)) (\<lambda>w. Inr (wr_buf w)) = Inr bs"
    "length bs < 2 ^ 32"
  shows "\<exists>r'. readObjects kp bs (length us) new_reader = Inr (map canon us, r')"
proof -
  from read_written_list [OF assms(1), of "new_writer True" new_reader] sync_new
  obtain enc w' r' where e: "writeObjects us (new_writer True) = Inr w'" "wr_buf w' = enc"
    "\<And>bs post. drop (rd_pos new_reader) bs = enc @ post \<Longrightarrow> length bs < U32 \<Longrightarrow>
       readObjects kp bs (length us) new_reader = Inr (map canon us, r')"
    by (auto simp: new_writer_def)
  then show ?thesis using e(3) [of enc "[]"] assms(2,3) by (auto simp: new_reader_def U32_def)
qed

lemma readObjects_Cons:
  "readObjects kp bs (Suc n) r = Inr (v # vs, r') \<Longrightarrow>
   \<exists>r1. readObject kp bs r = Inr (v, r1) \<and> readObjects kp bs n r1 = Inr (vs, r')"
  by (auto simp: res_bind_eq_Inr)

text \<open>A format that packs and unpacks: what the packed bytes promise, for every pair of the two operations.\<close>

locale packed_format =
  fixes pack_fmt :: "'k \<Rightarrow> key_error + bytes"
    and unpack_fmt :: "bytes \<Rightarrow> key_error + 'k"
    and fmt_ok :: "'k \<Rightarrow> bool"
  assumes unpack_packed: "fmt_ok k \<Longrightarrow> pack_fmt k = Inr bs \<Longrightarrow> length bs < 2 ^ 32 \<Longrightarrow> unpack_fmt bs = Inr k"
begin

lemma packed_inj: "fmt_ok k \<Longrightarrow> fmt_ok k' \<Longrightarrow> pack_fmt k = Inr bs \<Longrightarrow> pack_fmt k' = Inr bs \<Longrightarrow> length bs < 2 ^ 32 \<Longrightarrow> k = k'"
  using unpack_packed [of k bs] unpack_packed [of k' bs] by simp

lemma repacked:
  "fmt_ok k \<Longrightarrow> pack_fmt k = Inr bs \<Longrightarrow> length bs < 2 ^ 32 \<Longrightarrow> res_bind (unpack_fmt bs) pack_fmt = Inr bs"
  using unpack_packed [of k bs] by simp

end

section \<open>Concrete libraries\<close>

text \<open>
  A LibTomCrypt whose hash pads or cuts its input, and a GMP on the digits of base 256: both behave as
  \<open>ltc_ok\<close> and \<open>gmp_ok\<close> ask.
\<close>

definition pad_to :: "nat \<Rightarrow> bytes \<Rightarrow> bytes" where
  "pad_to n bs = take n (bs @ replicate n 0)"

fun toy_size :: "HashType \<Rightarrow> nat" where
  "toy_size SHA1 = 20"
| "toy_size SHA256 = 32"
| "toy_size SHA512 = 64"
| "toy_size SHA3_256 = 32"
| "toy_size SHA3_384 = 48"
| "toy_size _ = 64"

definition toy_ltc :: ltc where
  "toy_ltc = \<lparr>hash_size = toy_size, hash_memory = (\<lambda>t. pad_to (toy_size t)),
     hmac_memory = (\<lambda>t k m. pad_to (toy_size t) (k @ m)), crc32 = pad_to 4\<rparr>"

lemma pad_to_length [simp]: "length (pad_to n bs) = n"
  by (simp add: pad_to_def)

lemma toy_ltc_ok: "ltc_ok toy_ltc"
  by (simp add: ltc_ok_def toy_ltc_def)

fun big_endian :: "nat \<Rightarrow> bytes" where
  "big_endian n = (if n = 0 then [] else big_endian (n div 256) @ [of_nat n])"

declare big_endian.simps [simp del]

lemma big_endian_value: "digits_val 256 (big_endian n) = n"
proof (induction n rule: big_endian.induct)
  case (1 n)
  then show ?case
    by (subst big_endian.simps) (auto simp: digits_val_snoc unat_of_nat)
qed

definition toy_gmp :: gmp where
  "toy_gmp = \<lparr>mpz_sizeinbase2 = (\<lambda>n. 8 * length (big_endian (nat n))), mpz_export = big_endian \<circ> nat,
     mpz_import = int \<circ> digits_val 256, mpz_get_str = (\<lambda>base. big_endian \<circ> nat),
     mpz_set_str = (\<lambda>base. int \<circ> digits_val 256), mpz_invert = (\<lambda>a m. a)\<rparr>"

lemma toy_gmp_ok: "gmp_ok toy_gmp"
  by (simp add: gmp_ok_def toy_gmp_def big_endian_value)

end
