(* ===== verification/KeyInfo.thy ===== *)
theory KeyInfo
  imports CryptoCommon SymKey
begin

text \<open>
  Keys from passwords: \<open>crypto/PBKDF2.cpp\<close>, the derivation of RFC 8018 over the HMAC of LibTomCrypt, and
  \<open>crypto/KeyInfo.cpp\<close>, its parameters with their packed form. The enumerations and the \<open>int\<close> fields of \<open>KeyInfo\<close>
  are 32 bit words, for the casts from the 64 bit integers that were read.
\<close>

section \<open>PBKDF2\<close>

text \<open>The rounds of \<open>F\<close> after the first: \<open>k\<close> counts those left.\<close>

fun f_rounds :: "ltc \<Rightarrow> HashType \<Rightarrow> bytes \<Rightarrow> nat \<Rightarrow> bytes \<Rightarrow> bytes \<Rightarrow> bytes" where
  "f_rounds L t password 0 u1 block = block"
| "f_rounds L t password (Suc k) u1 block =
     (let u2 = hmac_memory L t password u1 in f_rounds L t password k u2 (map2 (XOR) block u2))"

definition int_be :: "u32 \<Rightarrow> bytes" where
  "int_be i = [ucast (drop_bit 24 i AND 0xFF), ucast (drop_bit 16 i AND 0xFF), ucast (drop_bit 8 i AND 0xFF), ucast (i AND 0xFF)]"

definition pbkdf2_F :: "ltc \<Rightarrow> HashType \<Rightarrow> bytes \<Rightarrow> bytes \<Rightarrow> int \<Rightarrow> u32 \<Rightarrow> bytes" where
  "pbkdf2_F L t password salt c i =
     (let block = hmac_memory L t password (salt @ int_be i) in f_rounds L t password (nat (c - 1)) block block)"

definition derive :: "ltc \<Rightarrow> HashType \<Rightarrow> bytes \<Rightarrow> bytes \<Rightarrow> int \<Rightarrow> int \<Rightarrow> key_error + bytes" where
  "derive L t password salt c dkLen =
     (let hLen = hash_size L t in
      if dkLen < 0 then Inl LengthNegative
      else if 2 ^ 31 \<le> dkLen + int hLen then Inl IntOverflow
      else let nBlocks = (nat dkLen + hLen - 1) div hLen;
               result = concat (map (\<lambda>i. pbkdf2_F L t password salt c (of_nat (i + 1))) [0..<nBlocks]) in
           Inr (take (nat dkLen) result))"

text \<open>The derivation of RFC 8018: \<open>rfc_U\<close> is the sequence of the HMACs, \<open>rfc_T\<close> a block, the XOR of \<open>c\<close> of them.\<close>

definition rfc_U :: "ltc \<Rightarrow> HashType \<Rightarrow> bytes \<Rightarrow> bytes \<Rightarrow> u32 \<Rightarrow> nat \<Rightarrow> bytes" where
  "rfc_U L t password salt i j = (hmac_memory L t password ^^ j) (salt @ int_be i)"

definition xor_all :: "byte list \<Rightarrow> byte" where
  "xor_all bs = foldr (XOR) bs 0"

lemma f_rounds_length: "ltc_ok L \<Longrightarrow> length block = hash_size L t \<Longrightarrow> length (f_rounds L t pw k u block) = hash_size L t"
  by (induction L t pw k u block rule: f_rounds.induct) (simp_all add: Let_def ltc_ok_def)

lemma upt_head: "[Suc 0..<Suc (Suc k)] = Suc 0 # map Suc [Suc 0..<Suc k]"
  by (simp add: map_Suc_upt upt_conv_Cons del: upt_Suc)

lemma f_rounds_nth:
  assumes "ltc_ok L" "length block = hash_size L t" "n < hash_size L t"
  shows "f_rounds L t pw k u block ! n =
    block ! n XOR xor_all (map (\<lambda>j. (hmac_memory L t pw ^^ j) u ! n) [1..<Suc k])"
  using assms
proof (induction L t pw k u block rule: f_rounds.induct)
  case (1 L t pw u block)
  then show ?case by (simp add: xor_all_def)
next
  case (2 L t pw k u block)
  let ?h = "hmac_memory L t pw" and ?X = "\<lambda>u k. xor_all (map (\<lambda>j. (hmac_memory L t pw ^^ j) u ! n) [1..<Suc k])"
  have l: "length (?h u) = hash_size L t" using "2.prems" by (simp add: ltc_ok_def)
  have X: "?X u (Suc k) = ?h u ! n XOR ?X (?h u) k"
    by (simp add: upt_head xor_all_def comp_def funpow_swap1 del: upt_Suc)
  have "f_rounds L t pw (Suc k) u block ! n = (block ! n XOR ?h u ! n) XOR ?X (?h u) k"
    using "2.IH" [OF refl] "2.prems" l by (simp add: Let_def)
  then show ?case by (simp only: X xor.assoc)
qed

lemma pbkdf2_F_length: "ltc_ok L \<Longrightarrow> length (pbkdf2_F L t pw salt c i) = hash_size L t"
  by (simp add: pbkdf2_F_def Let_def f_rounds_length ltc_ok_def)

lemma pbkdf2_F_nth:
  assumes "ltc_ok L" "n < hash_size L t" "1 \<le> c"
  shows "pbkdf2_F L t pw salt c i ! n = xor_all (map (\<lambda>j. rfc_U L t pw salt i j ! n) [1..<Suc (nat c)])"
proof -
  let ?h = "hmac_memory L t pw" and ?s = "salt @ int_be i"
  obtain k where k: "nat c = Suc k" "nat (c - 1) = k" using assms(3) by (cases "nat c") auto
  have l: "length (?h ?s) = hash_size L t" using assms(1) by (simp add: ltc_ok_def)
  have "xor_all (map (\<lambda>j. rfc_U L t pw salt i j ! n) [1..<Suc (nat c)]) =
      ?h ?s ! n XOR xor_all (map (\<lambda>j. (?h ^^ j) (?h ?s) ! n) [1..<Suc k])"
    by (simp add: k(1) upt_head xor_all_def comp_def rfc_U_def funpow_swap1 del: upt_Suc)
  then show ?thesis using f_rounds_nth [OF assms(1) l assms(2), of pw k "?h ?s"] k(2)
    by (simp add: pbkdf2_F_def Let_def)
qed

lemma concat_blocks_nth:
  assumes "\<And>i. i < m \<Longrightarrow> length (f i) = h" "n < m * h"
  shows "concat (map f [0..<m]) ! n = f (n div h) ! (n mod h)"
  using assms
proof (induction m)
  case (Suc m)
  have l: "length (concat (map f [0..<m])) = m * h"
  proof -
    have "map (length \<circ> f) [0..<m] = replicate m h" using Suc.prems(1) by (intro replicate_eqI) auto
    then show ?thesis by (simp add: length_concat sum_list_replicate)
  qed
  show ?case
  proof (cases "n < m * h")
    case True
    then show ?thesis using Suc l by (simp add: nth_append)
  next
    case False
    then obtain r where r: "n = r + m * h" "r < h" using Suc.prems(2)
      by (metis add.commute add_less_cancel_right le_Suc_ex mult_Suc not_le)
    then have "n div h = m" "n mod h = n - m * h" by simp_all
    then show ?thesis using False l by (simp add: nth_append)
  qed
qed simp

lemma derive_nth:
  assumes "ltc_ok L" "0 < hash_size L t" "1 \<le> c" "0 \<le> dkLen" "dkLen + int (hash_size L t) < 2 ^ 31"
  shows "\<exists>key. derive L t pw salt c dkLen = Inr key \<and> length key = nat dkLen \<and>
    (\<forall>n < nat dkLen. key ! n =
       xor_all (map (\<lambda>j. rfc_U L t pw salt (of_nat (n div hash_size L t + 1)) j ! (n mod hash_size L t)) [1..<Suc (nat c)]))"
proof -
  define h where "h = hash_size L t"
  define m where "m = (nat dkLen + h - 1) div h"
  let ?f = "\<lambda>i. pbkdf2_F L t pw salt c (of_nat (i + 1))"
  let ?r = "concat (map ?f [0..<m])"
  have h: "0 < h" using assms(2) by (simp add: h_def)
  have lf: "length (?f i) = h" for i using pbkdf2_F_length [OF assms(1)] by (simp add: h_def)
  have "map (length \<circ> ?f) [0..<m] = replicate m h" using lf by (intro replicate_eqI) auto
  then have lr: "length ?r = m * h" by (simp add: length_concat sum_list_replicate)
  have "nat dkLen + h - 1 < m * h + h" unfolding m_def
    using h mod_less_divisor [OF h, of "nat dkLen + h - 1"] div_mult_mod_eq [of "nat dkLen + h - 1" h] by linarith
  then have le: "nat dkLen \<le> m * h" using h by simp
  have d: "derive L t pw salt c dkLen = Inr (take (nat dkLen) ?r)"
    using assms(4,5) by (simp add: derive_def Let_def m_def h_def)
  have "?r ! n = xor_all (map (\<lambda>j. rfc_U L t pw salt (of_nat (n div h + 1)) j ! (n mod h)) [1..<Suc (nat c)])"
    if "n < nat dkLen" for n
  proof -
    have "n < m * h" using that le by simp
    then have "?r ! n = ?f (n div h) ! (n mod h)" using concat_blocks_nth [of m ?f h n] lf by simp
    also have "\<dots> = xor_all (map (\<lambda>j. rfc_U L t pw salt (of_nat (n div h + 1)) j ! (n mod h)) [1..<Suc (nat c)])"
      by (rule pbkdf2_F_nth) (use assms(1,3) h in \<open>simp_all flip: h_def\<close>)
    finally show ?thesis .
  qed
  with d lr le show ?thesis by (simp add: h_def)
qed

section \<open>KeyInfo\<close>

record key_info =
  ki_salt :: "bytes option"
  ki_tag :: "bytes option"
  ki_rounds :: u32
  ki_algorythm :: u32
  ki_prf :: u32
  ki_keyLength :: u32

definition ALG_RSAPublic :: u32 where "ALG_RSAPublic = 1"
definition ALG_RSAPrivate :: u32 where "ALG_RSAPrivate = 2"
definition ALG_AES256 :: u32 where "ALG_AES256 = 3"
definition PRF_None :: u32 where "PRF_None = 0"
definition PRF_HMAC_SHA1 :: u32 where "PRF_HMAC_SHA1 = 1"
definition PRF_HMAC_SHA256 :: u32 where "PRF_HMAC_SHA256 = 2"
definition PRF_HMAC_SHA512 :: u32 where "PRF_HMAC_SHA512 = 3"

lemmas key_codes = ALG_RSAPublic_def ALG_RSAPrivate_def ALG_AES256_def PRF_None_def PRF_HMAC_SHA1_def
  PRF_HMAC_SHA256_def PRF_HMAC_SHA512_def

definition PRFFromName :: "bytes \<Rightarrow> key_error + u32" where
  "PRFFromName name =
     (if name = cstr ''HMAC_SHA256'' then Inr PRF_HMAC_SHA256
      else if name = cstr ''HMAC_SHA512'' then Inr PRF_HMAC_SHA512
      else if name = cstr ''HMAC_SHA1'' then Inr PRF_HMAC_SHA1
      else if name = cstr ''None'' then Inr PRF_None
      else Inl UnknownPrfName)"

definition isPassword :: "key_info \<Rightarrow> bool" where
  "isPassword k = (ki_prf k \<noteq> PRF_None)"

definition checkSanity :: "key_info \<Rightarrow> key_error + key_info" where
  "checkSanity k =
     res_bind (if ki_algorythm k = ALG_RSAPrivate \<or> ki_algorythm k = ALG_RSAPublic then
                 (if isPassword k then Inl RsaPassword else Inr k)
               else if ki_algorythm k = ALG_AES256 then Inr (k\<lparr>ki_keyLength := 32\<rparr>)
               else Inr k) (\<lambda>k.
     if isPassword k then
       (if sint (ki_rounds k) < 100 then Inl TooFewRounds
        else if sint (ki_keyLength k) < 16 then Inl KeyTooShort
        else if ki_salt k = None then Inr (k\<lparr>ki_salt := Some (cstr ''attesta'')\<rparr>)
        else Inr k)
     else Inr k)"

text \<open>The two constructors; the field \<open>keyLength\<close> that the second one does not set is an argument.\<close>

definition unpack_info :: "key_parser \<Rightarrow> bytes \<Rightarrow> key_error + key_info" where
  "unpack_info kp packed =
     res_bind (read_int kp packed new_reader) (\<lambda>(algorythm, r).
     res_bind (boss (readObject kp packed r)) (\<lambda>(uobj, r).
     res_bind (if uobj = UNull then Inr None
               else res_bind (boss (bytes_asInstance uobj)) (\<lambda>b. Inr (Some b))) (\<lambda>tag.
     res_bind (read_int kp packed r) (\<lambda>(prf, r).
     res_bind (read_int kp packed r) (\<lambda>(keyLength, r).
     let k = \<lparr>ki_salt = None, ki_tag = tag, ki_rounds = 0, ki_algorythm = ucast algorythm, ki_prf = ucast prf,
              ki_keyLength = ucast keyLength\<rparr> in
     res_bind (if isPassword k then
                 res_bind (read_int kp packed r) (\<lambda>(pbkdf, r).
                   if pbkdf \<noteq> 0 then Inl UnknownPbkdf
                   else res_bind (read_int kp packed r) (\<lambda>(rounds, r). Inr (k\<lparr>ki_rounds := ucast rounds\<rparr>, r)))
               else Inr (k, r)) (\<lambda>(k, r).
     res_bind (case res_bind (boss (readObject kp packed r)) (\<lambda>(u, _). boss (bytes_asInstance u)) of
         Inr b \<Rightarrow> Inr (Some b)
       | Inl (Boss e) \<Rightarrow> if boss_undefined e then Inl (Boss e) else Inr None
       | Inl _ \<Rightarrow> Inr None) (\<lambda>salt.
     checkSanity (k\<lparr>ki_salt := salt\<rparr>))))))))"

definition new_info :: "u32 \<Rightarrow> u32 \<Rightarrow> u32 \<Rightarrow> bytes \<Rightarrow> bytes option \<Rightarrow> key_error + key_info" where
  "new_info keyLength prf rounds salt tag =
     checkSanity \<lparr>ki_salt = Some salt, ki_tag = tag, ki_rounds = rounds, ki_algorythm = ALG_AES256, ki_prf = prf,
       ki_keyLength = keyLength\<rparr>"

definition derivePassword :: "ltc \<Rightarrow> bytes \<Rightarrow> key_info \<Rightarrow> key_error + bytes" where
  "derivePassword L pswd k =
     (if \<not> isPassword k then Inl NotPrf
      else res_bind (if ki_prf k = PRF_HMAC_SHA1 then Inr SHA1
                     else if ki_prf k = PRF_HMAC_SHA256 then Inr SHA256
                     else if ki_prf k = PRF_HMAC_SHA512 then Inr SHA512
                     else Inl UnknownHashType) (\<lambda>hashType.
        case ki_salt k of None \<Rightarrow> Inl NullSalt
        | Some salt \<Rightarrow> derive L hashType pswd salt (sint (ki_rounds k)) (sint (ki_keyLength k))))"

definition info_objects :: "key_info \<Rightarrow> bytes \<Rightarrow> uobj list" where
  "info_objects k salt =
     [UInt (scast (ki_algorythm k)), (case ki_tag k of Some b \<Rightarrow> UBytes b | None \<Rightarrow> UNull),
      UInt (scast (ki_prf k)), UInt (scast (ki_keyLength k))] @
     (if isPassword k then [UInt 0, UInt (scast (ki_rounds k))] else []) @ [UBytes salt]"

definition pack_info :: "key_info \<Rightarrow> key_error + bytes" where
  "pack_info k = (case ki_salt k of None \<Rightarrow> Inl NullSalt
     | Some salt \<Rightarrow> boss (res_bind (writeObjects (info_objects k salt) (new_writer True)) (\<lambda>w. Inr (wr_buf w))))"

section \<open>What is packed is read back\<close>

lemma ucast_scast32 [simp]: "ucast (scast (x :: u32) :: u64) = x"
proof (rule bit_word_eqI)
  fix n assume "n < LENGTH(32)"
  then have "n = 31 \<or> n < 31" by auto
  then show "bit (ucast (scast x :: u64) :: u32) n = bit x n" by (auto simp: bit_unsigned_iff bit_signed_iff)
qed

text \<open>A \<open>KeyInfo\<close> as the constructors leave it, with a salt; the rounds are only packed for a password.\<close>

definition info_ok :: "key_info \<Rightarrow> bool" where
  "info_ok k \<longleftrightarrow> checkSanity k = Inr k \<and> (\<exists>s. ki_salt k = Some s \<and> sized s) \<and>
     (case ki_tag k of None \<Rightarrow> True | Some b \<Rightarrow> sized b) \<and> (isPassword k \<or> ki_rounds k = 0)"

lemma unpack_pack_info:
  assumes "info_ok k" "pack_info k = Inr bs" "length bs < 2 ^ 32"
  shows "unpack_info kp bs = Inr k"
proof -
  obtain salt where salt: "ki_salt k = Some salt" "sized salt" using assms(1) by (auto simp: info_ok_def)
  let ?us = "info_objects k salt" and ?tag = "case ki_tag k of Some b \<Rightarrow> UBytes b | None \<Rightarrow> UNull"
  have wf: "\<forall>u \<in> set ?us. uobj_wf kp u \<and> short_stream (base_serialize u)"
    using assms(1) salt(2) by (auto simp: info_objects_def info_ok_def split: option.splits)
  have "map canon ?us = ?us" by (auto simp: info_objects_def split: option.splits)
  moreover have "res_bind (writeObjects ?us (new_writer True)) (\<lambda>w. Inr (wr_buf w)) = Inr bs"
    using assms(2) salt(1) by (simp add: pack_info_def)
  ultimately obtain r' where rd: "readObjects kp bs (length ?us) new_reader = Inr (?us, r')"
    using objects_read_back [OF wf _ assms(3)] by auto
  have sane: "checkSanity k = Inr k" using assms(1) by (simp add: info_ok_def)
  have tag: "(if ?tag = UNull then Inr None else res_bind (boss (bytes_asInstance ?tag)) (\<lambda>b. Inr (Some b))) = Inr (ki_tag k)"
    by (simp add: bytes_asInstance_def split: option.splits)
  let ?rest = "(if isPassword k then [UInt 0, UInt (scast (ki_rounds k))] else []) @ [UBytes salt]"
  obtain r1 r2 r3 r4 where h: "readObject kp bs new_reader = Inr (UInt (scast (ki_algorythm k)), r1)"
    "readObject kp bs r1 = Inr (?tag, r2)" "readObject kp bs r2 = Inr (UInt (scast (ki_prf k)), r3)"
    "readObject kp bs r3 = Inr (UInt (scast (ki_keyLength k)), r4)" "readObjects kp bs (length ?rest) r4 = Inr (?rest, r')"
    using rd unfolding info_objects_def by (simp only: append_Cons append_Nil list.size add_Suc_right add_Suc add_0 add_0_right)
      (drule readObjects_Cons, elim exE conjE)+
  note step = unpack_info_def read_int_def int_asInstance_def h tag Let_def isPassword_def
  show ?thesis
  proof (cases "isPassword k")
    case False
    with h(5) obtain r5 where "readObject kp bs r4 = Inr (UBytes salt, r5)" by (auto simp: res_bind_eq_Inr)
    moreover have "\<lparr>ki_salt = Some salt, ki_tag = ki_tag k, ki_rounds = 0, ki_algorythm = ki_algorythm k,
      ki_prf = PRF_None, ki_keyLength = ki_keyLength k\<rparr> = k"
      using assms(1) False salt(1) by (intro key_info.equality) (simp_all add: info_ok_def isPassword_def)
    ultimately show ?thesis
      using False sane by (simp add: step bytes_asInstance_def)
  next
    case True
    with h(5) obtain r5 r6 r7 where "readObject kp bs r4 = Inr (UInt 0, r5)"
      "readObject kp bs r5 = Inr (UInt (scast (ki_rounds k)), r6)" "readObject kp bs r6 = Inr (UBytes salt, r7)"
      by (auto simp: res_bind_eq_Inr)
    moreover have "\<lparr>ki_salt = Some salt, ki_tag = ki_tag k, ki_rounds = ki_rounds k, ki_algorythm = ki_algorythm k,
      ki_prf = ki_prf k, ki_keyLength = ki_keyLength k\<rparr> = k" using salt(1) by simp
    ultimately show ?thesis
      using True sane by (simp add: step bytes_asInstance_def)
  qed
qed

interpretation info: packed_format pack_info "unpack_info kp" info_ok for kp
  by unfold_locales (rule unpack_pack_info)

text \<open>The checks, with the fields they fill in.\<close>

definition sane_info :: "key_info \<Rightarrow> key_info" where
  "sane_info k = k\<lparr>ki_keyLength := (if ki_algorythm k = ALG_AES256 then 32 else ki_keyLength k),
     ki_salt := (if isPassword k \<and> ki_salt k = None then Some (cstr ''attesta'') else ki_salt k)\<rparr>"

definition acceptable :: "key_info \<Rightarrow> bool" where
  "acceptable k \<longleftrightarrow> (isPassword k \<longrightarrow> ki_algorythm k \<noteq> ALG_RSAPrivate \<and> ki_algorythm k \<noteq> ALG_RSAPublic \<and>
     100 \<le> sint (ki_rounds k) \<and> (ki_algorythm k = ALG_AES256 \<or> 16 \<le> sint (ki_keyLength k)))"

lemma codes_distinct: "ALG_AES256 \<noteq> ALG_RSAPrivate" "ALG_AES256 \<noteq> ALG_RSAPublic"
  by (simp_all add: key_codes)

lemma checkSanity_iff: "checkSanity k = Inr k' \<longleftrightarrow> acceptable k \<and> k' = sane_info k"
proof (cases "ki_algorythm k = ALG_AES256")
  case True
  then show ?thesis using codes_distinct
    by (cases k) (auto simp: checkSanity_def acceptable_def sane_info_def isPassword_def not_less)
next
  case False
  then show ?thesis
    by (cases k) (auto simp: checkSanity_def acceptable_def sane_info_def isPassword_def not_less)
qed

lemma sane_fields [simp]:
  "ki_algorythm (sane_info k) = ki_algorythm k" "ki_prf (sane_info k) = ki_prf k" "ki_tag (sane_info k) = ki_tag k"
  "ki_rounds (sane_info k) = ki_rounds k" "isPassword (sane_info k) = isPassword k"
  "ki_keyLength (sane_info k) = (if ki_algorythm k = ALG_AES256 then 32 else ki_keyLength k)"
  "ki_salt (sane_info k) = (if isPassword k \<and> ki_salt k = None then Some (cstr ''attesta'') else ki_salt k)"
  by (simp_all add: sane_info_def isPassword_def)

lemma sane_acceptable: "acceptable (sane_info k) = acceptable k"
  by (simp add: acceptable_def)

lemma sane_idem: "sane_info (sane_info k) = sane_info k"
  by (rule key_info.equality) simp_all

lemma unpack_info_sane: "unpack_info kp bs = Inr k \<Longrightarrow> \<exists>k0. checkSanity k0 = Inr k"
  unfolding unpack_info_def by (auto simp: res_bind_eq_Inr Let_def)

section \<open>Properties\<close>

text \<open>
  C35: \<open>PBKDF2\<close> is the derivation of RFC 8018: byte \<open>n\<close> of the key is the XOR, over the \<open>c\<close> rounds, of byte
  \<open>n mod hLen\<close> of the HMAC sequence of block \<open>n div hLen + 1\<close>; the key has the length asked for.
\<close>

theorem pbkdf2_rfc8018:
  assumes "ltc_ok L" "0 < hash_size L t" "1 \<le> c" "0 \<le> dkLen" "dkLen + int (hash_size L t) < 2 ^ 31"
  shows "\<exists>key. derive L t password salt c dkLen = Inr key \<and> length key = nat dkLen \<and>
    (\<forall>n < nat dkLen. key ! n =
       xor_all (map (\<lambda>j. rfc_U L t password salt (of_nat (n div hash_size L t + 1)) j ! (n mod hash_size L t)) [1..<Suc (nat c)]))"
  using assms by (rule derive_nth)

theorem pbkdf2_rfc8018_witness:
  "\<exists>key. derive toy_ltc SHA256 (cstr ''pw'') [1, 2] 3 40 = Inr key \<and> length key = nat 40 \<and>
    (\<forall>n < nat 40. key ! n = xor_all (map (\<lambda>j. rfc_U toy_ltc SHA256 (cstr ''pw'') [1, 2]
       (of_nat (n div hash_size toy_ltc SHA256 + 1)) j ! (n mod hash_size toy_ltc SHA256)) [1..<Suc (nat 3)]))"
  by (rule pbkdf2_rfc8018) (simp_all add: toy_ltc_ok, simp_all add: toy_ltc_def)

text \<open>
  The packed form of a \<open>KeyInfo\<close> with a salt is read back, with every field: algorithm, tag, function, key
  length, the rounds of a password key, and the salt.
\<close>

theorem keyinfo_roundtrip:
  assumes "info_ok k" "pack_info k = Inr bs" "length bs < 2 ^ 32"
  shows "unpack_info kp bs = Inr k"
  using assms by (rule info.unpack_packed)

definition sample_info :: key_info where
  "sample_info = \<lparr>ki_salt = Some [1, 2, 3], ki_tag = None, ki_rounds = 100, ki_algorythm = ALG_AES256,
     ki_prf = PRF_HMAC_SHA256, ki_keyLength = 32\<rparr>"

definition sample_info_packed :: bytes where
  "sample_info_packed = [24, 5, 16, 184, 32, 0, 184, 100, 28, 1, 2, 3]"

theorem keyinfo_roundtrip_witness: "unpack_info no_keys sample_info_packed = Inr sample_info"
proof (rule keyinfo_roundtrip)
  show "info_ok sample_info"
    by (simp add: sample_info_def info_ok_def checkSanity_def isPassword_def key_codes sized_def)
  show "pack_info sample_info = Inr sample_info_packed" by code_simp
qed (simp add: sample_info_packed_def)

text \<open>
  What either constructor accepts as a password key derives its key without ever missing the salt: fewer than
  100 rounds or a key of fewer than 16 bytes are refused, and an absent salt has been replaced.
\<close>

theorem password_info_ready:
  assumes "unpack_info kp bs = Inr k \<or> new_info len prf rounds salt tag = Inr k" "isPassword k"
  shows "100 \<le> sint (ki_rounds k) \<and> 16 \<le> sint (ki_keyLength k) \<and> ki_salt k \<noteq> None \<and>
    derivePassword L pswd k \<noteq> Inl NullSalt"
proof -
  obtain k0 where k: "acceptable k0" "k = sane_info k0"
    using assms(1) unpack_info_sane [of kp bs k] by (auto simp: new_info_def checkSanity_iff)
  have "100 \<le> sint (ki_rounds k) \<and> 16 \<le> sint (ki_keyLength k)" and salt: "ki_salt k \<noteq> None"
    using k assms(2) by (auto simp: acceptable_def)
  moreover have "derive L t pw s c n \<noteq> Inl NullSalt" for t pw s c n by (simp add: derive_def Let_def)
  then have "derivePassword L pswd k \<noteq> Inl NullSalt"
    using salt by (auto simp: derivePassword_def res_bind_eq_Inl split: if_splits)
  ultimately show ?thesis by simp
qed

theorem password_info_ready_witness: "ki_salt sample_info \<noteq> None"
  using password_info_ready [of no_keys "[]" sample_info 0 PRF_HMAC_SHA256 100 "[1, 2, 3]" None toy_ltc "[]"]
  by (simp add: sample_info_def new_info_def checkSanity_def isPassword_def key_codes)

text \<open>
  A packed \<open>KeyInfo\<close> without a salt and without a password function is accepted, and packing it again
  dereferences the null salt.
\<close>

theorem keyinfo_null_salt: "\<exists>bs k. unpack_info kp bs = Inr k \<and> pack_info k = Inl NullSalt"
proof -
  let ?us = "[UInt 1, UNull, UInt 0, UInt 32, UNull]"
  let ?k = "\<lparr>ki_salt = None, ki_tag = None, ki_rounds = 0, ki_algorythm = 1, ki_prf = 0, ki_keyLength = 32\<rparr>"
  have "res_bind (writeObjects ?us (new_writer True)) (\<lambda>w. Inr (wr_buf w)) = Inr [8, 5, 0, 184, 32, 5]" by code_simp
  then obtain r' where "readObjects kp [8, 5, 0, 184, 32, 5] (length ?us) new_reader = Inr (map canon ?us, r')"
    using objects_read_back [of ?us kp] by fastforce
  then have "unpack_info kp [8, 5, 0, 184, 32, 5] = checkSanity ?k"
    by (auto simp: unpack_info_def read_int_def int_asInstance_def bytes_asInstance_def isPassword_def key_codes
      boss_undefined_def boss_def res_bind_eq_Inr)
  moreover have "checkSanity ?k = Inr ?k" by (simp add: checkSanity_def isPassword_def key_codes)
  ultimately show ?thesis by (metis pack_info_def key_info.select_convs(1) option.simps(4))
qed

end
