(* ===== verification/RsaKeys.thy ===== *)
theory RsaKeys
  imports KeyInfo
begin

text \<open>
  \<open>crypto/PublicKey.cpp\<close> and \<open>crypto/PrivateKey.cpp\<close>: RSA keys with their packed forms, also under a password,
  and the signatures and encryptions the keys delegate to LibTomCrypt (the parameter \<open>rsa_lib\<close>). The numbers of a
  key are read into GMP integers; what an uninitialised array holds is an argument (\<open>stack\<close>, \<open>junk\<close>).
\<close>

section \<open>Keys\<close>

record rsa_key =
  rk_e :: int
  rk_d :: int
  rk_N :: int
  rk_p :: int
  rk_q :: int
  rk_qP :: int
  rk_dP :: int
  rk_dQ :: int

record public_key =
  pk_e :: int
  pk_N :: int

text \<open>\<open>rsa_set_key\<close> reads the big-endian bytes into the key.\<close>

definition public_of_numbers :: "gmp \<Rightarrow> (nat \<Rightarrow> byte) \<Rightarrow> int \<Rightarrow> int \<Rightarrow> public_key" where
  "public_of_numbers G stack N e =
     \<lparr>pk_e = mpz_import G (unsigned_bin G stack e), pk_N = mpz_import G (unsigned_bin G stack N)\<rparr>"

definition public_of_bytes :: "gmp \<Rightarrow> (nat \<Rightarrow> byte) \<Rightarrow> bytes \<Rightarrow> bytes \<Rightarrow> public_key" where
  "public_of_bytes G stack eValue nValue = public_of_numbers G stack (mpz_import G nValue) (mpz_import G eValue)"

definition public_of_strings :: "gmp \<Rightarrow> (nat \<Rightarrow> byte) \<Rightarrow> bytes \<Rightarrow> bytes \<Rightarrow> public_key" where
  "public_of_strings G stack strE strN = public_of_numbers G stack (mpz_set_str G 10 strN) (mpz_set_str G 10 strE)"

definition public_of_private :: "gmp \<Rightarrow> (nat \<Rightarrow> byte) \<Rightarrow> rsa_key \<Rightarrow> public_key" where
  "public_of_private G stack k = public_of_numbers G stack (rk_N k) (rk_e k)"

definition read_array :: "key_parser \<Rightarrow> bytes \<Rightarrow> key_error + uobj list" where
  "read_array kp data = res_bind (boss (readObject kp data new_reader)) (\<lambda>(uObj, _). boss (array_asInstance uObj))"

definition key_int_at :: "uobj list \<Rightarrow> nat \<Rightarrow> key_error + u64" where
  "key_int_at xs k = res_bind (obj_at xs k) (\<lambda>u. boss (int_asInstance u))"

definition key_bytes_at :: "uobj list \<Rightarrow> nat \<Rightarrow> key_error + bytes" where
  "key_bytes_at xs k = res_bind (obj_at xs k) (\<lambda>u. boss (bytes_asInstance u))"

definition unpack_public :: "gmp \<Rightarrow> (nat \<Rightarrow> byte) \<Rightarrow> key_parser \<Rightarrow> bytes \<Rightarrow> key_error + public_key" where
  "unpack_public G stack kp data = catch ParseFailed
     (res_bind (read_array kp data) (\<lambda>uArr.
      res_bind (key_int_at uArr 0) (\<lambda>i.
      if i = 1 then
        res_bind (key_bytes_at uArr 1) (\<lambda>e.
        res_bind (key_bytes_at uArr 2) (\<lambda>n. Inr (public_of_bytes G stack e n)))
      else Inl WrongKeyKind)))"

definition pack_public :: "gmp \<Rightarrow> (nat \<Rightarrow> byte) \<Rightarrow> public_key \<Rightarrow> key_error + bytes" where
  "pack_public G stack k =
     boss (serialize (UArray [UInt 1, UBytes (unsigned_bin G stack (pk_e k)), UBytes (unsigned_bin G stack (pk_N k))]))"

text \<open>\<open>getPublicExponent\<close> collects the bytes in a \<open>long\<close>.\<close>

definition getPublicExponent :: "gmp \<Rightarrow> (nat \<Rightarrow> byte) \<Rightarrow> public_key \<Rightarrow> u64" where
  "getPublicExponent G stack k = foldl (\<lambda>e b. push_bit 8 e OR ucast b) 0 (unsigned_bin G stack (pk_e k))"

definition getBitStrength :: "gmp \<Rightarrow> public_key \<Rightarrow> nat" where
  "getBitStrength G k = mpz_sizeinbase2 G (pk_N k)"

definition getKeyComponentsAsBytes :: "gmp \<Rightarrow> (nat \<Rightarrow> byte) \<Rightarrow> public_key \<Rightarrow> bytes" where
  "getKeyComponentsAsBytes G stack k = unsigned_bin G stack (pk_e k) @ unsigned_bin G stack (pk_N k)"

definition FINGERPRINT_SHA256 :: byte where "FINGERPRINT_SHA256 = 7"

definition fingerprint :: "ltc \<Rightarrow> gmp \<Rightarrow> (nat \<Rightarrow> byte) \<Rightarrow> public_key \<Rightarrow> bytes" where
  "fingerprint L G stack k =
     FINGERPRINT_SHA256 # take 32 (getDigest (digest_of L SHA256 (getKeyComponentsAsBytes G stack k)))"

text \<open>The strings of \<open>get_e\<close>, \<open>get_n\<close>, \<open>get_p\<close> and \<open>get_q\<close>: hexadecimal, cut to a buffer of 2048 bytes.\<close>

definition snprintf2048 :: "gmp \<Rightarrow> nat \<Rightarrow> int \<Rightarrow> bytes" where
  "snprintf2048 G base n = take 2047 (mpz_get_str G base n)"

definition get_e :: "gmp \<Rightarrow> public_key \<Rightarrow> bytes" where "get_e G k = snprintf2048 G 16 (pk_e k)"
definition get_n :: "gmp \<Rightarrow> public_key \<Rightarrow> bytes" where "get_n G k = snprintf2048 G 16 (pk_N k)"

section \<open>Private keys\<close>

text \<open>
  \<open>initFromDecimalStrings\<close>: the other numbers of the key are computed from the exponent and the primes. GMP does
  not define \<open>mpz_invert\<close> and \<open>mpz_mod\<close> for a modulus zero.
\<close>

definition private_of_strings :: "gmp \<Rightarrow> (nat \<Rightarrow> byte) \<Rightarrow> bytes \<Rightarrow> bytes \<Rightarrow> bytes \<Rightarrow> nat \<Rightarrow> key_error + rsa_key" where
  "private_of_strings G stack strE strP strQ base =
     (let e = mpz_set_str G base strE; p = mpz_set_str G base strP; q = mpz_set_str G base strQ;
          N = p * q; t1 = p - 1; t2 = q - 1; t3 = t1 * t2 in
      if t3 = 0 \<or> p = 0 then Inl GmpUndefined
      else let d = mpz_invert G e t3; dP = d mod \<bar>t1\<bar>; dQ = d mod \<bar>t2\<bar>; qP = mpz_invert G q p;
               get = \<lambda>n. mpz_import G (unsigned_bin G stack n) in
        Inr \<lparr>rk_e = get e, rk_d = get d, rk_N = get N, rk_p = get p, rk_q = get q, rk_qP = get qP, rk_dP = get dP,
             rk_dQ = get dQ\<rparr>)"

definition private_of_bytes :: "gmp \<Rightarrow> (nat \<Rightarrow> byte) \<Rightarrow> bytes \<Rightarrow> bytes \<Rightarrow> bytes \<Rightarrow> key_error + rsa_key" where
  "private_of_bytes G stack eValue pValue qValue =
     private_of_strings G stack (snprintf2048 G 10 (mpz_import G eValue)) (snprintf2048 G 10 (mpz_import G pValue))
       (snprintf2048 G 10 (mpz_import G qValue)) 10"

definition unpackFromHexStrings :: "gmp \<Rightarrow> (nat \<Rightarrow> byte) \<Rightarrow> bytes \<Rightarrow> bytes \<Rightarrow> bytes \<Rightarrow> key_error + rsa_key" where
  "unpackFromHexStrings G stack strE strP strQ = private_of_strings G stack strE strP strQ 16"

definition unpack_private :: "gmp \<Rightarrow> (nat \<Rightarrow> byte) \<Rightarrow> key_parser \<Rightarrow> bytes \<Rightarrow> key_error + rsa_key" where
  "unpack_private G stack kp data = catch ParseFailed
     (res_bind (read_array kp data) (\<lambda>uArr.
      res_bind (key_int_at uArr 0) (\<lambda>i.
      if i = 0 then
        res_bind (key_bytes_at uArr 1) (\<lambda>e.
        res_bind (key_bytes_at uArr 2) (\<lambda>p.
        res_bind (key_bytes_at uArr 3) (\<lambda>q. private_of_bytes G stack e p q)))
      else Inl WrongKeyKind)))"

definition pack_private :: "gmp \<Rightarrow> (nat \<Rightarrow> byte) \<Rightarrow> rsa_key \<Rightarrow> key_error + bytes" where
  "pack_private G stack k =
     boss (serialize (UArray [UInt 0, UBytes (unsigned_bin G stack (rk_e k)), UBytes (unsigned_bin G stack (rk_p k)),
       UBytes (unsigned_bin G stack (rk_q k))]))"

definition priv_get_e :: "gmp \<Rightarrow> rsa_key \<Rightarrow> bytes" where "priv_get_e G k = snprintf2048 G 16 (rk_e k)"
definition priv_get_p :: "gmp \<Rightarrow> rsa_key \<Rightarrow> bytes" where "priv_get_p G k = snprintf2048 G 16 (rk_p k)"
definition priv_get_q :: "gmp \<Rightarrow> rsa_key \<Rightarrow> bytes" where "priv_get_q G k = snprintf2048 G 16 (rk_q k)"

section \<open>Keys under a password\<close>

definition eta :: "crypto_error + 'a \<Rightarrow> key_error + 'a" where
  "eta m = (case m of Inl _ \<Rightarrow> Inl EtaFailed | Inr x \<Rightarrow> Inr x)"

lemma eta_eq_Inr [simp]: "eta m = Inr x \<longleftrightarrow> m = Inr x"
  by (cases m) (simp_all add: eta_def)

text \<open>The random salt of 12 bytes and the random IV are arguments.\<close>

definition packWithPassword :: "ltc \<Rightarrow> ciphers \<Rightarrow> gmp \<Rightarrow> (nat \<Rightarrow> byte) \<Rightarrow> u32 \<Rightarrow> bytes \<Rightarrow> bytes \<Rightarrow> bytes \<Rightarrow> u32 \<Rightarrow> rsa_key \<Rightarrow>
    key_error + bytes" where
  "packWithPassword L C G stack junk salt iv passwordString rounds k =
     res_bind (new_info junk PRF_HMAC_SHA256 rounds salt None) (\<lambda>keyInfo.
     res_bind (derivePassword L passwordString keyInfo) (\<lambda>symmKey.
     res_bind (pack_private G stack k) (\<lambda>packedKey.
     res_bind (pack_info keyInfo) (\<lambda>info.
     res_bind (eta (etaEncrypt C symmKey iv packedKey)) (\<lambda>enc.
     boss (serialize (UArray [UInt 3, UBytes info, UBytes enc])))))))"

definition unpackWithPassword :: "ltc \<Rightarrow> ciphers \<Rightarrow> gmp \<Rightarrow> (nat \<Rightarrow> byte) \<Rightarrow> u32 \<Rightarrow> key_parser \<Rightarrow> bytes \<Rightarrow> bytes \<Rightarrow>
    key_error + rsa_key" where
  "unpackWithPassword L C G stack junk kp packedBinary passwordString =
     res_bind (read_array kp packedBinary) (\<lambda>params.
     res_bind (key_int_at params 0) (\<lambda>keyType.
     if keyType = 0 then unpack_private G stack kp packedBinary
     else if keyType = 1 then Inl WrongKeyKind
     else if keyType = 2 then
       res_bind (key_int_at params 1) (\<lambda>rounds.
       res_bind (key_bytes_at params 2) (\<lambda>salt.
       res_bind (obj_at params 3) (\<lambda>u.
       res_bind (boss (case u of UString s \<Rightarrow> Inr s | _ \<Rightarrow> Inl NotInstance)) (\<lambda>functionName.
       res_bind (key_bytes_at params 4) (\<lambda>packedEncryptedKey.
       res_bind (key_bytes_at params 5) (\<lambda>digest.
       res_bind (PRFFromName functionName) (\<lambda>prf.
       res_bind (new_info junk prf (ucast rounds) salt None) (\<lambda>keyInfo.
       res_bind (derivePassword L passwordString keyInfo) (\<lambda>symmKey.
       res_bind (eta (sk_decrypt C symmKey packedEncryptedKey)) (\<lambda>packedKey.
       if digest \<noteq> crc32 L packedKey then Inl WrongPassword
       else unpack_private G stack kp packedKey))))))))))
     else if keyType = 3 then
       res_bind (key_bytes_at params 1) (\<lambda>keyInfoBin.
       res_bind (key_bytes_at params 2) (\<lambda>encryptedBin.
       res_bind (unpack_info kp keyInfoBin) (\<lambda>keyInfo.
       res_bind (derivePassword L passwordString keyInfo) (\<lambda>symmKey.
       res_bind (eta (etaDecrypt C symmKey encryptedBin)) (\<lambda>packedKey.
       unpack_private G stack kp packedKey)))))
     else Inl WrongKeyKind))"

section \<open>Reading back what was packed\<close>

lemma array_read_back:
  assumes "\<forall>u \<in> set us. uobj_wf kp u \<and> short_stream (base_serialize u)" "map canon us = us" "length us < 2 ^ 31" "serialize (UArray us) = Inr bs" "length bs < 2 ^ 32"
  shows "read_array kp bs = Inr us"
proof -
  have "uobj_wf kp (UArray us)" using assms(1,3) by simp
  then have "deserialize kp bs = Inr (UArray us)"
    using serialize_reads [of kp "UArray us"] assms(2,4,5) by auto
  then show ?thesis
    by (auto simp: deserialize_def read_array_def array_asInstance_def res_bind_eq_Inr)
qed

lemma at_simps [simp]:
  "obj_at (u # us) 0 = Inr u" "obj_at (u # us) (Suc n) = obj_at us n"
  "key_int_at (u # us) 0 = boss (int_asInstance u)" "key_int_at (u # us) (Suc n) = key_int_at us n"
  "key_bytes_at (u # us) 0 = boss (bytes_asInstance u)" "key_bytes_at (u # us) (Suc n) = key_bytes_at us n"
  "obj_at (u # us) (numeral v) = obj_at us (pred_numeral v)" "key_bytes_at (u # us) (numeral v) = key_bytes_at us (pred_numeral v)"
  "key_int_at (u # us) (numeral v) = key_int_at us (pred_numeral v)"
  by (simp_all add: obj_at_def key_int_at_def key_bytes_at_def numeral_eq_Suc)

lemma asInstance_simps [simp]: "int_asInstance (UInt i) = Inr i" "bytes_asInstance (UBytes b) = Inr b"
  by (simp_all add: int_asInstance_def bytes_asInstance_def)

definition number_ok :: "gmp \<Rightarrow> int \<Rightarrow> bool" where
  "number_ok G n \<longleftrightarrow> 0 < n \<and> sized (mpz_export G n) \<and> length (mpz_get_str G 10 n) \<le> 2047"

lemma number_back: "gmp_ok G \<Longrightarrow> number_ok G n \<Longrightarrow> mpz_import G (unsigned_bin G stack n) = n"
  by (simp add: number_ok_def unsigned_bin_pos import_export)

lemma number_wf: "gmp_ok G \<Longrightarrow> number_ok G n \<Longrightarrow> uobj_wf kp (UBytes (unsigned_bin G stack n))"
  by (simp add: number_ok_def unsigned_bin_pos)

lemma number_string: "gmp_ok G \<Longrightarrow> number_ok G n \<Longrightarrow> mpz_set_str G 10 (snprintf2048 G 10 n) = n"
  by (simp add: number_ok_def snprintf2048_def gmp_ok_def)

definition public_ok :: "gmp \<Rightarrow> public_key \<Rightarrow> bool" where
  "public_ok G k \<longleftrightarrow> gmp_ok G \<and> number_ok G (pk_e k) \<and> number_ok G (pk_N k)"

lemma unpack_pack_public:
  assumes "public_ok G k" "pack_public G stack k = Inr bs" "length bs < 2 ^ 32"
  shows "unpack_public G stack' kp bs = Inr k"
proof -
  let ?us = "[UInt 1, UBytes (unsigned_bin G stack (pk_e k)), UBytes (unsigned_bin G stack (pk_N k))]"
  have ok: "gmp_ok G" "number_ok G (pk_e k)" "number_ok G (pk_N k)" using assms(1) by (simp_all add: public_ok_def)
  have "read_array kp bs = Inr ?us"
    by (rule array_read_back) (use assms ok number_wf in \<open>auto simp: pack_public_def sized_def\<close>)
  then show ?thesis using ok
    by (simp add: unpack_public_def public_of_bytes_def public_of_numbers_def number_back)
qed

interpretation pub: packed_format "pack_public G stack" "unpack_public G stack' kp" "public_ok G" for G stack stack' kp
  by unfold_locales (rule unpack_pack_public)

text \<open>A private key is determined by its exponent and its primes.\<close>

definition private_ok :: "gmp \<Rightarrow> (nat \<Rightarrow> byte) \<Rightarrow> rsa_key \<Rightarrow> bool" where
  "private_ok G stack k \<longleftrightarrow> gmp_ok G \<and> number_ok G (rk_e k) \<and> number_ok G (rk_p k) \<and> number_ok G (rk_q k) \<and>
     private_of_strings G stack (mpz_get_str G 10 (rk_e k)) (mpz_get_str G 10 (rk_p k)) (mpz_get_str G 10 (rk_q k)) 10 = Inr k"

lemma unpack_pack_private:
  assumes "private_ok G stack k" "pack_private G stack k = Inr bs" "length bs < 2 ^ 32"
  shows "unpack_private G stack kp bs = Inr k"
proof -
  let ?us = "[UInt 0, UBytes (unsigned_bin G stack (rk_e k)), UBytes (unsigned_bin G stack (rk_p k)),
    UBytes (unsigned_bin G stack (rk_q k))]"
  have ok: "gmp_ok G" "number_ok G (rk_e k)" "number_ok G (rk_p k)" "number_ok G (rk_q k)"
    using assms(1) by (simp_all add: private_ok_def)
  have "read_array kp bs = Inr ?us"
    by (rule array_read_back) (use assms ok number_wf in \<open>auto simp: pack_private_def sized_def\<close>)
  moreover have "snprintf2048 G 10 n = mpz_get_str G 10 n" if "number_ok G n" for n
    using that by (simp add: snprintf2048_def number_ok_def)
  ultimately show ?thesis using ok assms(1)
    by (simp add: unpack_private_def private_of_bytes_def number_back private_ok_def)
qed

interpretation priv: packed_format "pack_private G stack" "unpack_private G stack kp" "private_ok G stack" for G stack kp
  by unfold_locales (rule unpack_pack_private)

section \<open>Password protected keys\<close>

lemma new_info_sha256:
  assumes "new_info junk PRF_HMAC_SHA256 rounds salt None = Inr k" "sized salt"
  shows "info_ok k" "isPassword k" "100 \<le> sint rounds" "ki_rounds k = rounds" "ki_salt k = Some salt" "ki_keyLength k = 32"
    "ki_prf k = PRF_HMAC_SHA256"
proof -
  let ?k = "\<lparr>ki_salt = Some salt, ki_tag = None, ki_rounds = rounds, ki_algorythm = ALG_AES256, ki_prf = PRF_HMAC_SHA256,
       ki_keyLength = junk\<rparr>"
  have k: "acceptable ?k" "k = sane_info ?k" using assms(1) by (simp_all add: new_info_def checkSanity_iff)
  have p: "isPassword ?k" by (simp add: isPassword_def key_codes)
  show "isPassword k" "100 \<le> sint rounds" "ki_rounds k = rounds" "ki_salt k = Some salt" "ki_keyLength k = 32"
    "ki_prf k = PRF_HMAC_SHA256"
    using k p by (auto simp: acceptable_def)
  show "info_ok k" using k p assms(2) by (simp add: info_ok_def checkSanity_iff sane_acceptable sane_idem)
qed

text \<open>Whatever the cache does, the packed array is no shorter than the byte strings in it.\<close>

definition covers :: "writer \<Rightarrow> bool" where
  "covers w \<longleftrightarrow> (\<forall>b i. ((CT_BIN, b), i) \<in> set (wr_cache w) \<longrightarrow> length b \<le> length (wr_buf w))"

fun flat_leaf :: "uobj \<Rightarrow> bool" where
  "flat_leaf (UInt i) = True"
| "flat_leaf (UBytes b) = True"
| "flat_leaf _ = False"

lemma put_covers:
  assumes "put u w = Inr w'" "flat_leaf u" "covers w"
  shows "covers w' \<and> length (wr_buf w) \<le> length (wr_buf w') \<and> (\<forall>b. u = UBytes b \<longrightarrow> length b \<le> length (wr_buf w'))"
proof -
  have c: "((CT_BIN, b), i) \<in> set (wr_cache w) \<Longrightarrow> length b \<le> length (wr_buf w) + n" for b i n
    using assms(3) by (auto simp: covers_def intro: trans_le_add1)
  have c0: "((CT_BIN, b), i) \<in> set (wr_cache w) \<Longrightarrow> length b \<le> length (wr_buf w)" for b i
    using c [of b i 0] by simp
  show ?thesis
  proof (cases u)
    case (UBytes b)
    show ?thesis using assms(1,2) UBytes
      by (auto simp: put_flat_def tryWriteFlat_def tryWriteRef_def writeHeader_def push_bytes_def covers_def TYPE_BIN_def
        TYPE_CREF_def split: if_splits option.splits dest!: map_of_SomeD intro: c c0)
  qed (use assms(1,2) in \<open>auto simp: writeHeader_def push_bytes_def covers_def split: if_splits intro: c\<close>)
qed

lemma put_list_covers:
  assumes "put_list us w = Inr w'" "\<forall>u \<in> set us. flat_leaf u" "covers w" "UBytes b \<in> set us"
  shows "length b \<le> length (wr_buf w')"
proof -
  have "covers w' \<and> length (wr_buf w) \<le> length (wr_buf w') \<and> (\<forall>b. UBytes b \<in> set us \<longrightarrow> length b \<le> length (wr_buf w'))"
    using assms(1-3)
  proof (induction us arbitrary: w)
    case (Cons u us)
    then obtain w1 where w1: "put u w = Inr w1" "put_list us w1 = Inr w'" by (auto simp: res_bind_eq_Inr)
    then show ?case using put_covers [OF w1(1)] Cons.IH [OF w1(2)] Cons.prems by force
  qed simp
  with assms(4) show ?thesis by blast
qed

lemma serialize_covers:
  assumes "serialize (UArray us) = Inr bs" "\<forall>u \<in> set us. flat_leaf u" "UBytes b \<in> set us"
  shows "length b \<le> length bs"
proof -
  have "base_serialize u = u" if "flat_leaf u" for u using that by (cases u) auto
  then have "map base_serialize us = us" using assms(2) by (simp add: map_idI)
  then have "res_bind (put (UArray us) (new_writer True)) (\<lambda>w. Inr (wr_buf w)) = Inr bs"
    using assms(1) by (simp add: serialize_def writeObject_def)
  then have "\<exists>ab w. put_list us (push_bytes (header_bytes TYPE_LIST (of_nat (length us)))
      \<lparr>wr_cache = [((CT_ARRAY, ab), 1)], wr_buf = [], wr_tree = True\<rparr>) = Inr w \<and> bs = wr_buf w"
    by (auto simp: res_bind_eq_Inr skips_cache_def new_writer_def tryWriteRef_def writeHeader_def TYPE_LIST_def)
      blast
  then show ?thesis using put_list_covers [OF _ assms(2) _ assms(3)] by (auto simp: covers_def push_bytes_def)
qed

lemma unpack_pack_password:
  assumes "private_ok G stack k" "length iv = 16" "\<And>k m. length (hmac_sha256 C k m) = 32" "sized salt"
    "packWithPassword L C G stack junk salt iv pw rounds k = Inr bs" "length bs < 2 ^ 32"
  shows "unpackWithPassword L C G stack junk' kp bs pw = Inr k"
proof -
  obtain ki key packed info enc where h: "new_info junk PRF_HMAC_SHA256 rounds salt None = Inr ki"
    "derivePassword L pw ki = Inr key" "pack_private G stack k = Inr packed" "pack_info ki = Inr info"
    "etaEncrypt C key iv packed = Inr enc" "serialize (UArray [UInt 3, UBytes info, UBytes enc]) = Inr bs"
    using assms(5) by (auto simp: packWithPassword_def res_bind_eq_Inr)
  have dec: "etaDecrypt C key enc = Inr packed" by (rule etaDecrypt_etaEncrypt [OF assms(3,2) h(5)])
  have "length packed \<le> length enc" using etaDecrypt_Inr [OF dec] by auto
  moreover have "length info \<le> length bs" "length enc \<le> length bs" by (rule serialize_covers [OF h(6)]; simp)+
  ultimately have len: "length packed < 2 ^ 32" "length info < 2 ^ 32" "length enc < 2 ^ 32" using assms(6) by simp_all
  have "read_array kp bs = Inr [UInt 3, UBytes info, UBytes enc]"
    by (rule array_read_back [OF _ _ _ h(6) assms(6)]) (use len in \<open>auto simp: sized_def\<close>)
  moreover have "unpack_info kp info = Inr ki"
    by (rule info.unpack_packed [OF new_info_sha256(1) [OF h(1) assms(4)] h(4) len(2)])
  moreover have "unpack_private G stack kp packed = Inr k" by (rule priv.unpack_packed [OF assms(1) h(3) len(1)])
  ultimately show ?thesis using h(2) dec by (simp add: unpackWithPassword_def eta_def)
qed

section \<open>The exponent as a long\<close>

lemma shift_or_byte: "push_bit 8 (e :: u64) OR ucast (b :: byte) = e * 256 + ucast b"
proof -
  have u: "unat (ucast b :: u64) = unat b"
    using unat_byte_lt [of b] by (simp add: unsigned_ucast_eq take_bit_nat_eq_self del: unat_byte_lt)
  have "ucast b OR push_bit 8 e = ucast b + push_bit 8 e"
    by (rule or_push_bit_add) (simp add: u)
  then show ?thesis by (simp add: or.commute push_bit_eq_mult)
qed

lemma exponent_fold: "foldl (\<lambda>e b. e * 256 + ucast b) (acc :: u64) bs = acc * 256 ^ length bs + of_nat (digits_val 256 bs)"
proof (induction bs arbitrary: acc)
  case (Cons b bs)
  show ?case using Cons.IH [of "acc * 256 + ucast b"] by (simp add: algebra_simps)
qed simp

lemma exponent_value:
  assumes "gmp_ok G" "0 < pk_e k"
  shows "getPublicExponent G stack k = of_int (pk_e k)"
proof -
  let ?b = "unsigned_bin G stack (pk_e k)"
  have "int (digits_val 256 ?b) = pk_e k" using assms by (simp add: unsigned_bin_pos gmp_ok_def)
  then have "(of_nat (digits_val 256 ?b) :: u64) = of_int (pk_e k)" by (metis of_int_of_nat_eq)
  then show ?thesis by (simp add: getPublicExponent_def shift_or_byte exponent_fold)
qed

section \<open>A sample key\<close>

definition sample_rsa :: rsa_key where
  "sample_rsa = \<lparr>rk_e = 3, rk_d = 3, rk_N = 33, rk_p = 3, rk_q = 11, rk_qP = 11, rk_dP = 1, rk_dQ = 3\<rparr>"

lemma toy_bytes: "0 < n \<Longrightarrow> n < 256 \<Longrightarrow> big_endian n = [of_nat n]"
  by (subst big_endian.simps) (simp add: big_endian.simps [of 0])

lemma toy_number: "0 < n \<Longrightarrow> n < 256 \<Longrightarrow> number_ok toy_gmp n"
  by (simp add: number_ok_def toy_gmp_def toy_bytes sized_def)

lemma toy_bin: "0 < n \<Longrightarrow> n < 256 \<Longrightarrow> unsigned_bin toy_gmp stack n = [of_nat (nat n)]"
  using unsigned_bin_pos [OF toy_gmp_ok, of n stack] toy_bytes [of "nat n"] by (simp add: toy_gmp_def nat_less_iff)

lemma sample_private_ok: "private_ok toy_gmp stack sample_rsa"
proof -
  have s: "mpz_set_str toy_gmp 10 (mpz_get_str toy_gmp 10 n) = n" if "0 < n" for n
    using toy_gmp_ok that by (simp add: gmp_ok_def)
  have i: "mpz_import toy_gmp (unsigned_bin toy_gmp stack n) = n" if "0 < n" "n < 256" for n
    using that by (rule number_back [OF toy_gmp_ok toy_number])
  have v: "mpz_invert toy_gmp a m = a" for a m by (simp add: toy_gmp_def)
  show ?thesis
    by (simp add: private_ok_def toy_gmp_ok toy_number sample_rsa_def private_of_strings_def s i v Let_def)
qed

section \<open>Properties\<close>

text \<open>
  C34: A private key packed under a password is unpacked with the same password to the same key: the derived
  key, the sealed container, the packed parameters and the packed key all fit together, for any salt and IV.
\<close>

theorem password_roundtrip:
  assumes "private_ok G stack k" "length iv = 16" "\<And>k m. length (hmac_sha256 C k m) = 32" "sized salt"
    "packWithPassword L C G stack junk salt iv pw rounds k = Inr bs" "length bs < 2 ^ 32"
  shows "unpackWithPassword L C G stack junk' kp bs pw = Inr k"
  using assms by (rule unpack_pack_password)

definition password_packed :: bytes where
  "password_packed = [30, 24, 100, 24, 5, 16, 184, 32, 0, 184, 100, 28, 1, 2, 3, 188, 55, 7,
      7, 7, 7, 7, 7, 7, 7, 7, 7, 7, 7, 7, 7, 7, 7, 33, 7, 116, 127, 28, 5,
      114, 0, 0, 113, 117, 2, 2, 114, 117, 3, 2, 115, 117, 3, 2, 115, 117,
      3, 2, 115, 117, 3, 2, 115, 117, 3, 2, 115, 117, 3, 2, 115, 117]"

theorem password_roundtrip_witness:
  "unpackWithPassword toy_ltc toy_ciphers toy_gmp (\<lambda>i. 0) 9 no_keys password_packed (cstr ''pw'') = Inr sample_rsa"
proof (rule password_roundtrip [OF sample_private_ok, where iv = toy_iv and salt = "[1, 2, 3]" and junk = 0 and rounds = 100])
  show "packWithPassword toy_ltc toy_ciphers toy_gmp (\<lambda>i. 0) 0 [1, 2, 3] toy_iv (cstr ''pw'') 100 sample_rsa = Inr password_packed"
    by code_simp
qed (simp_all add: toy_iv_def toy_hmac_length sized_def password_packed_def)

text \<open>The packed form of a public key is read back to the same exponent and modulus.\<close>

theorem public_key_roundtrip:
  assumes "public_ok G k" "pack_public G stack k = Inr bs" "length bs < 2 ^ 32"
  shows "unpack_public G stack' kp bs = Inr k"
  using assms by (rule pub.unpack_packed)

theorem public_key_roundtrip_witness: "unpack_public toy_gmp (\<lambda>i. 1) no_keys [30, 8, 12, 5, 12, 33] = Inr \<lparr>pk_e = 5, pk_N = 33\<rparr>"
proof (rule public_key_roundtrip [where stack = "\<lambda>i. 0"])
  show "public_ok toy_gmp \<lparr>pk_e = 5, pk_N = 33\<rparr>" by (simp add: public_ok_def toy_gmp_ok toy_number)
  have "serialize (UArray [UInt 1, UBytes [5], UBytes [33]]) = Inr [30, 8, 12, 5, 12, 33]" by code_simp
  then show "pack_public toy_gmp (\<lambda>i. 0) \<lparr>pk_e = 5, pk_N = 33\<rparr> = Inr [30, 8, 12, 5, 12, 33]"
    by (simp add: pack_public_def toy_bin)
qed simp

text \<open>
  The packed form of a private key holds its exponent and primes only; reading it back recomputes the modulus,
  the private exponent and the CRT parameters, and gives the whole key.
\<close>

theorem private_key_roundtrip:
  assumes "private_ok G stack k" "pack_private G stack k = Inr bs" "length bs < 2 ^ 32"
  shows "unpack_private G stack kp bs = Inr k"
  using assms by (rule priv.unpack_packed)

theorem private_key_roundtrip_witness: "unpack_private toy_gmp (\<lambda>i. 0) no_keys [38, 0, 12, 3, 21, 12, 11] = Inr sample_rsa"
proof (rule private_key_roundtrip [OF sample_private_ok])
  have "serialize (UArray [UInt 0, UBytes [3], UBytes [3], UBytes [11]]) = Inr [38, 0, 12, 3, 21, 12, 11]" by code_simp
  then show "pack_private toy_gmp (\<lambda>i. 0) sample_rsa = Inr [38, 0, 12, 3, 21, 12, 11]"
    by (simp add: pack_private_def toy_bin sample_rsa_def)
qed simp

text \<open>
  \<open>getPublicExponent\<close> is the exponent modulo \<open>2 ^ 64\<close>: the exponent itself when that fits a \<open>long\<close>.
\<close>

theorem public_exponent:
  assumes "gmp_ok G" "0 < pk_e k"
  shows "getPublicExponent G stack k = of_int (pk_e k) \<and> (pk_e k < 2 ^ 63 \<longrightarrow> sint (getPublicExponent G stack k) = pk_e k)"
  using exponent_value [OF assms] assms(2) by (simp add: signed_of_int signed_take_bit_int_eq_self)

theorem public_exponent_witness: "getPublicExponent toy_gmp (\<lambda>i. 0) \<lparr>pk_e = 65537, pk_N = 33\<rparr> = 65537"
  using public_exponent [OF toy_gmp_ok, of "\<lparr>pk_e = 65537, pk_N = 33\<rparr>" "\<lambda>i. 0"] by simp

text \<open>
  A packed private key with a prime 1 makes GMP divide by zero: the exception handler of the constructor does
  not see it.
\<close>

theorem private_key_prime_one:
  assumes "gmp_ok G" "number_ok G 1" "serialize (UArray [UInt 0, UBytes (mpz_export G 1), UBytes (mpz_export G 1),
    UBytes (mpz_export G 1)]) = Inr bs" "length bs < 2 ^ 32"
  shows "unpack_private G stack kp bs = Inl GmpUndefined"
proof -
  let ?one = "mpz_export G 1"
  have "read_array kp bs = Inr [UInt 0, UBytes ?one, UBytes ?one, UBytes ?one]"
    by (rule array_read_back [OF _ _ _ assms(3,4)]) (use assms(2) in \<open>auto simp: number_ok_def sized_def\<close>)
  moreover have "private_of_bytes G stack ?one ?one ?one = Inl GmpUndefined"
    using number_string [OF assms(1,2)] import_export [OF assms(1), of 1]
    by (simp add: private_of_bytes_def private_of_strings_def Let_def)
  ultimately show ?thesis by (simp add: unpack_private_def catch_def)
qed

theorem private_key_prime_one_witness: "unpack_private toy_gmp (\<lambda>i. 0) no_keys [38, 0, 12, 1, 21, 21] = Inl GmpUndefined"
proof (rule private_key_prime_one [OF toy_gmp_ok])
  have "mpz_export toy_gmp 1 = [1]" by (simp add: toy_gmp_def toy_bytes)
  moreover have "serialize (UArray [UInt 0, UBytes [1], UBytes [1], UBytes [1]]) = Inr [38, 0, 12, 1, 21, 21]" by code_simp
  ultimately show "serialize (UArray [UInt 0, UBytes (mpz_export toy_gmp 1), UBytes (mpz_export toy_gmp 1),
    UBytes (mpz_export toy_gmp 1)]) = Inr [38, 0, 12, 1, 21, 21]" by simp
qed (simp_all add: toy_number)

end
