(* ===== verification/KeyAddress.thy ===== *)
theory KeyAddress
  imports RsaKeys
begin

text \<open>
  \<open>crypto/KeyAddress.cpp\<close>: the address of a public key is a byte with the key mask and the type mark, the hash of
  the key's components, and a CRC. The addresses that \<open>PublicKey\<close> keeps are here too. A read behind the end of the
  packed bytes is \<open>ReadPastEnd\<close>.
\<close>

record key_address =
  ka_keyMask :: u32
  ka_keyDigest :: bytes
  ka_isLong :: bool
  ka_packed :: bytes
  ka_typeMark :: u32

definition key_mask :: "gmp \<Rightarrow> (nat \<Rightarrow> byte) \<Rightarrow> public_key \<Rightarrow> key_error + u32" where
  "key_mask G stack key =
     (if getPublicExponent G stack key = 0x10001 then
        (let l = getBitStrength G key div 8 in
         if l = 2048 div 8 then Inr 1
         else if l = 4096 div 8 then Inr 2
         else if l = 8192 div 8 then Inr 3
         else Inl NoMask)
      else Inl NoMask)"

definition addr_hash :: "bool \<Rightarrow> HashType" where
  "addr_hash long = (if long then SHA3_384 else SHA3_256)"

definition new_address :: "ltc \<Rightarrow> gmp \<Rightarrow> (nat \<Rightarrow> byte) \<Rightarrow> public_key \<Rightarrow> u32 \<Rightarrow> bool \<Rightarrow> key_error + key_address" where
  "new_address L G stack key typeMark useSha3_384 =
     (if typeMark AND 0xF0 \<noteq> 0 then Inl TypeMarkRange
      else res_bind (key_mask G stack key) (\<lambda>keyMask.
        let keyDigest = hash_memory L (addr_hash useSha3_384) (getKeyComponentsAsBytes G stack key);
            body = ucast ((push_bit 4 keyMask OR typeMark) AND 0xFF) # keyDigest in
        Inr \<lparr>ka_keyMask = keyMask, ka_keyDigest = keyDigest, ka_isLong = useSha3_384, ka_packed = body @ crc32 L body,
             ka_typeMark = typeMark\<rparr>))"

definition address_of_packed :: "ltc \<Rightarrow> bytes \<Rightarrow> key_error + key_address" where
  "address_of_packed L packed =
     (case packed of [] \<Rightarrow> Inl ReadPastEnd
      | b # _ \<Rightarrow>
        let typeMark = ucast b AND 0x0F; keyMask = drop_bit 4 (ucast b AND 0xFF);
            long = (length packed = 53); size = hash_size L (addr_hash long); digestLength1 = size + 1 in
        if keyMask = 0 then Inl ZeroMask
        else if length packed < digestLength1 + 4 then Inl ReadPastEnd
        else if crc32 L (take digestLength1 packed) \<noteq> take 4 (drop digestLength1 packed) then Inl BadControlCode
        else Inr \<lparr>ka_keyMask = keyMask, ka_keyDigest = take size (drop 1 packed), ka_isLong = long, ka_packed = packed,
                  ka_typeMark = typeMark\<rparr>)"

definition address_of_string :: "ltc \<Rightarrow> (nat \<Rightarrow> byte) \<Rightarrow> bytes \<Rightarrow> key_error + key_address" where
  "address_of_string L stack packedString =
     (case decode stack packedString False of Inl _ \<Rightarrow> Inl BadBase58 | Inr bs \<Rightarrow> address_of_packed L bs)"

definition address_toString :: "key_address \<Rightarrow> safe58_error + bytes" where
  "address_toString a = encode (ka_packed a)"

definition address_eq :: "key_address \<Rightarrow> key_address \<Rightarrow> bool" where
  "address_eq a b = (ka_packed a = ka_packed b)"

definition isMatchingKeyAddress :: "key_address \<Rightarrow> key_address \<Rightarrow> bool" where
  "isMatchingKeyAddress a other = address_eq a other"

definition isMatchingKey :: "ltc \<Rightarrow> gmp \<Rightarrow> (nat \<Rightarrow> byte) \<Rightarrow> key_address \<Rightarrow> public_key \<Rightarrow> key_error + bool" where
  "isMatchingKey L G stack a key =
     res_bind (new_address L G stack key 0 (ka_isLong a)) (\<lambda>other. Inr (isMatchingKeyAddress a other))"

text \<open>The addresses \<open>PublicKey\<close> computes once; an empty one is not initialised.\<close>

record cached_key =
  ck_key :: public_key
  ck_short :: "key_address option"
  ck_long :: "key_address option"

definition getShortAddress :: "ltc \<Rightarrow> gmp \<Rightarrow> (nat \<Rightarrow> byte) \<Rightarrow> cached_key \<Rightarrow> key_error + key_address \<times> cached_key" where
  "getShortAddress L G stack k = (case ck_short k of Some a \<Rightarrow> Inr (a, k)
     | None \<Rightarrow> res_bind (new_address L G stack (ck_key k) 0 False) (\<lambda>a. Inr (a, k\<lparr>ck_short := Some a\<rparr>)))"

definition getLongAddress :: "ltc \<Rightarrow> gmp \<Rightarrow> (nat \<Rightarrow> byte) \<Rightarrow> cached_key \<Rightarrow> key_error + key_address \<times> cached_key" where
  "getLongAddress L G stack k = (case ck_long k of Some a \<Rightarrow> Inr (a, k)
     | None \<Rightarrow> res_bind (new_address L G stack (ck_key k) 0 True) (\<lambda>a. Inr (a, k\<lparr>ck_long := Some a\<rparr>)))"

definition key_isMatchingKeyAddress :: "ltc \<Rightarrow> gmp \<Rightarrow> (nat \<Rightarrow> byte) \<Rightarrow> key_address \<Rightarrow> cached_key \<Rightarrow>
    key_error + bool \<times> cached_key" where
  "key_isMatchingKeyAddress L G stack other k =
     res_bind (if ka_isLong other then getLongAddress L G stack k else getShortAddress L G stack k) (\<lambda>(a, k).
       Inr (isMatchingKeyAddress a other, k))"

section \<open>Addresses of keys\<close>

lemma key_mask_range: "key_mask G stack key = Inr m \<Longrightarrow> m \<in> {1, 2, 3}"
  by (auto simp: key_mask_def Let_def split: if_splits)

lemma small_u32: "list_all (\<lambda>k. P (of_nat k :: u32)) [0..<16] \<Longrightarrow> t < 16 \<Longrightarrow> P t"
proof -
  assume P: "list_all (\<lambda>k. P (of_nat k :: u32)) [0..<16]" and "t < 16"
  then have "unat t \<in> set [0..<16]" by (simp add: word_less_nat_alt)
  with P have "P (of_nat (unat t))" unfolding list_all_iff by blast
  then show "P t" by simp
qed

lemma mark_small: "t < 16 \<Longrightarrow> (t :: u32) AND 0xF0 = 0"
  by (rule small_u32 [where P = "\<lambda>t. t AND 0xF0 = 0"]) code_simp

text \<open>The first byte holds the mask in its high half and the mark in its low half.\<close>

definition head_byte :: "u32 \<Rightarrow> u32 \<Rightarrow> byte" where
  "head_byte m t = ucast ((push_bit 4 m OR t) AND 0xFF)"

definition head_ok :: "u32 \<Rightarrow> u32 \<Rightarrow> bool" where
  "head_ok m t \<longleftrightarrow> ucast (head_byte m t) AND (0x0F :: u32) = t \<and> drop_bit 4 (ucast (head_byte m t) AND (0xFF :: u32)) = m \<and>
     head_byte m t \<noteq> 0"

lemma first_byte:
  assumes "m \<in> {1, 2, 3}" "t < 16"
  shows "head_ok m t"
proof -
  have "head_ok 1 t" by (rule small_u32 [where P = "head_ok 1", OF _ assms(2)]) code_simp
  moreover have "head_ok 2 t" by (rule small_u32 [where P = "head_ok 2", OF _ assms(2)]) code_simp
  moreover have "head_ok 3 t" by (rule small_u32 [where P = "head_ok 3", OF _ assms(2)]) code_simp
  ultimately show ?thesis using assms(1) by blast
qed

lemma hash_lengths:
  assumes "ltc_ok L"
  shows "length (hash_memory L (addr_hash long) x) = (if long then 48 else 32)" "length (crc32 L x) = 4"
    "hash_size L (addr_hash long) = (if long then 48 else 32)"
  using assms by (simp_all add: ltc_ok_def addr_hash_def)

definition address_parts :: "ltc \<Rightarrow> u32 \<Rightarrow> bool \<Rightarrow> bytes \<Rightarrow> u32 \<Rightarrow> key_address" where
  "address_parts L m long h t =
     \<lparr>ka_keyMask = m, ka_keyDigest = h, ka_isLong = long, ka_packed = (head_byte m t # h) @ crc32 L (head_byte m t # h),
      ka_typeMark = t\<rparr>"

lemma new_address_form:
  assumes "new_address L G stack key t long = Inr a"
  shows "\<exists>m \<in> {1, 2, 3}. key_mask G stack key = Inr m \<and>
    a = address_parts L m long (hash_memory L (addr_hash long) (getKeyComponentsAsBytes G stack key)) t"
  using assms key_mask_range [of G stack key]
  by (auto simp: new_address_def Let_def res_bind_eq_Inr address_parts_def head_byte_def split: if_splits)

lemma new_address_parts:
  assumes "key_mask G stack key = Inr m" "t < 16"
  shows "new_address L G stack key t long =
    Inr (address_parts L m long (hash_memory L (addr_hash long) (getKeyComponentsAsBytes G stack key)) t)"
  using assms mark_small [of t] by (simp add: new_address_def Let_def address_parts_def head_byte_def)

lemma parts_read_back:
  assumes "ltc_ok L" "m \<in> {1, 2, 3}" "t < 16" "length h = (if long then 48 else 32)"
  shows "address_of_packed L (ka_packed (address_parts L m long h t)) = Inr (address_parts L m long h t)"
proof -
  have f: "ucast (head_byte m t) AND (0x0F :: u32) = t" "drop_bit 4 (ucast (head_byte m t) AND (0xFF :: u32)) = m"
    using first_byte [OF assms(2,3)] by (simp_all add: head_ok_def)
  have "m \<noteq> 0" using assms(2) by auto
  then show ?thesis
    using assms(4) f hash_lengths [OF assms(1)] unfolding address_of_packed_def address_parts_def
    by (cases long) (simp_all add: Let_def del: f)
qed

lemma packed_read_back:
  assumes "ltc_ok L" "new_address L G stack key t long = Inr a" "t < 16"
  shows "address_of_packed L (ka_packed a) = Inr a"
  using new_address_form [OF assms(2)] parts_read_back [OF assms(1) _ assms(3)] hash_lengths(1) [OF assms(1)] by auto

lemma packed_no_zero:
  assumes "new_address L G stack key t long = Inr a" "t < 16"
  shows "count_zeroes (ka_packed a) = 0"
proof -
  obtain m h where m: "m \<in> {1, 2, 3}" and a: "a = address_parts L m long h t"
    using new_address_form [OF assms(1)] by blast
  have "head_byte m t \<noteq> 0" using first_byte [OF m assms(2)] by (simp add: head_ok_def)
  then show ?thesis unfolding a by (simp add: count_zeroes_def address_parts_def)
qed

lemma string_read_back:
  assumes "ltc_ok L" "new_address L G stack key t long = Inr a" "t < 16" "address_toString a = Inr s"
  shows "address_of_string L stack' s = Inr a"
proof -
  have "decode stack' s False = Inr (ka_packed a)"
    using decode_encode_exact [of "ka_packed a" stack' False] packed_no_zero [OF assms(2,3)] assms(4)
    by (simp add: address_toString_def)
  then show ?thesis using packed_read_back [OF assms(1-3)] by (simp add: address_of_string_def)
qed

lemma accepted_packed:
  assumes "ltc_ok L" "address_of_packed L bs = Inr a"
  shows "\<exists>body rest. bs = body @ crc32 L body @ rest \<and> length body = (if ka_isLong a then 49 else 33) \<and>
    ka_isLong a = (length bs = 53) \<and> ka_keyDigest a = drop 1 body \<and> ka_packed a = bs \<and> ka_keyMask a \<noteq> 0"
proof -
  define n where "n = Suc (hash_size L (addr_hash (length bs = 53)))"
  have n: "n = (if length bs = 53 then 49 else 33)" by (simp add: n_def hash_lengths [OF assms(1)])
  obtain b xs where bs: "bs = b # xs" using assms(2) by (cases bs) (auto simp: address_of_packed_def)
  have le: "n + 4 \<le> length bs" and crc: "take 4 (drop n bs) = crc32 L (take n bs)"
    and a: "ka_isLong a = (length bs = 53)" "ka_packed a = bs" "ka_keyMask a \<noteq> 0" "ka_keyDigest a = take (n - 1) (drop 1 bs)"
    using assms(2) by (auto simp: address_of_packed_def bs Let_def n_def split: if_splits)
  have "bs = take n bs @ take 4 (drop n bs) @ drop 4 (drop n bs)" by (metis append_take_drop_id)
  then have "bs = take n bs @ crc32 L (take n bs) @ drop 4 (drop n bs)" by (simp only: crc)
  moreover have "length (take n bs) = (if ka_isLong a then 49 else 33)" using le n a(1) by simp
  moreover have "ka_keyDigest a = drop 1 (take n bs)" using a(4) by (simp add: drop_take)
  ultimately show ?thesis using a by blast
qed

lemma own_key_matches:
  assumes "new_address L G stack key t long = Inr a" "t < 16"
  shows "isMatchingKey L G stack a key = Inr (t = 0)"
proof -
  obtain m where m: "m \<in> {1, 2, 3}" "key_mask G stack key = Inr m"
    "a = address_parts L m long (hash_memory L (addr_hash long) (getKeyComponentsAsBytes G stack key)) t"
    using new_address_form [OF assms(1)] by blast
  have "head_byte m t = head_byte m 0 \<longleftrightarrow> t = 0"
    using first_byte [OF m(1) assms(2)] first_byte [OF m(1), of 0] by (auto simp: head_ok_def)
  then show ?thesis using m new_address_parts [OF m(2), of 0 L long]
    by (auto simp: isMatchingKey_def isMatchingKeyAddress_def address_eq_def address_parts_def)
qed

section \<open>A sample key\<close>

lemma big_endian_length: "256 ^ k \<le> n \<Longrightarrow> n < 256 ^ Suc k \<Longrightarrow> length (big_endian n) = Suc k"
proof (induction k arbitrary: n)
  case 0
  then show ?case by (simp add: toy_bytes)
next
  case (Suc k)
  have "256 ^ k \<le> n div 256" using Suc.prems(1) div_le_mono [of "256 ^ Suc k" n 256] by simp
  moreover have "n div 256 < 256 ^ Suc k" using Suc.prems(2) by (simp add: less_mult_imp_div_less mult.commute)
  moreover have "n \<noteq> 0" using Suc.prems(1) less_le_trans [of 0 "256 ^ Suc k" n] by simp
  ultimately show ?case using Suc.IH by (subst big_endian.simps) simp
qed

definition big_key :: public_key where
  "big_key = \<lparr>pk_e = 0x10001, pk_N = 2 ^ 2047\<rparr>"

lemma big_key_mask: "key_mask toy_gmp stack big_key = Inr 1"
proof -
  have "nat (pk_N big_key) = 128 * 256 ^ 255" by (simp add: big_key_def nat_power_eq)
  then have "length (big_endian (nat (pk_N big_key))) = 256" using big_endian_length [of 255 "128 * 256 ^ 255"] by simp
  then have "getBitStrength toy_gmp big_key = 2048" by (simp add: getBitStrength_def toy_gmp_def)
  moreover have "getPublicExponent toy_gmp stack big_key = 0x10001"
    using exponent_value [OF toy_gmp_ok, of big_key] by (simp add: big_key_def)
  ultimately show ?thesis by (simp add: key_mask_def Let_def)
qed

abbreviation big_address :: "u32 \<Rightarrow> key_address" where
  "big_address t \<equiv> address_parts toy_ltc 1 False
     (hash_memory toy_ltc (addr_hash False) (getKeyComponentsAsBytes toy_gmp (\<lambda>i. 0) big_key)) t"

lemma big_address: "t < 16 \<Longrightarrow> new_address toy_ltc toy_gmp (\<lambda>i. 0) big_key t False = Inr (big_address t)"
  by (rule new_address_parts [OF big_key_mask])

section \<open>Properties\<close>

text \<open>
  C36: The text of an address of a key reads back to the address: mark, mask, digest, kind and packed bytes.
\<close>

theorem address_roundtrip:
  assumes "ltc_ok L" "new_address L G stack key t long = Inr a" "t < 16"
  shows "\<exists>s. address_toString a = Inr s \<and> address_of_string L stack' s = Inr a"
proof -
  obtain s where "address_toString a = Inr s" using encode_set [of "ka_packed a"] by (auto simp: address_toString_def)
  with string_read_back [OF assms] show ?thesis by blast
qed

theorem address_roundtrip_witness:
  "\<exists>s. address_toString (big_address 5) = Inr s \<and> address_of_string toy_ltc (\<lambda>i. 77) s = Inr (big_address 5)"
  by (rule address_roundtrip [OF toy_ltc_ok big_address]) simp_all

text \<open>
  Packed bytes that are accepted consist of a head with a mask, a digest of 48 or 32 bytes, and the CRC of both.
\<close>

theorem address_integrity:
  assumes "ltc_ok L" "address_of_packed L bs = Inr a"
  shows "\<exists>body rest. bs = body @ crc32 L body @ rest \<and> length body = (if ka_isLong a then 49 else 33) \<and>
    ka_isLong a = (length bs = 53) \<and> ka_keyDigest a = drop 1 body \<and> ka_packed a = bs \<and> ka_keyMask a \<noteq> 0"
  using assms by (rule accepted_packed)

theorem address_integrity_witness:
  "\<exists>body rest. ka_packed (big_address 0) = body @ crc32 toy_ltc body @ rest \<and> length body = 33"
proof -
  have "address_of_packed toy_ltc (ka_packed (big_address 0)) = Inr (big_address 0)"
    by (rule packed_read_back [OF toy_ltc_ok big_address]) simp_all
  moreover have "ka_isLong (big_address 0) = False" by (simp add: address_parts_def)
  ultimately show ?thesis using address_integrity [OF toy_ltc_ok, of "ka_packed (big_address 0)" "big_address 0"] by auto
qed

text \<open>
  An address with a type mark other than zero never matches the key it was made from: \<open>isMatchingKey\<close> compares
  with the address whose mark is zero.
\<close>

theorem address_mark_mismatch:
  assumes "new_address L G stack key t long = Inr a" "t < 16"
  shows "isMatchingKey L G stack a key = Inr (t = 0)"
  using assms by (rule own_key_matches)

theorem address_mark_mismatch_witness: "isMatchingKey toy_ltc toy_gmp (\<lambda>i. 0) (big_address 7) big_key = Inr False"
  using address_mark_mismatch [OF big_address [of 7]] by simp

text \<open>
  Packed bytes that are too short for their digest and CRC, but start with a mask, are read behind their end.
\<close>

theorem address_short_read:
  assumes "ltc_ok L" "drop_bit 4 (ucast b AND (0xFF :: u32)) \<noteq> 0" "length bs < 36"
  shows "address_of_packed L (b # bs) = Inl ReadPastEnd"
  using assms(2,3) hash_lengths(3) [OF assms(1), of False] by (simp add: address_of_packed_def Let_def)

theorem address_short_read_witness: "address_of_packed toy_ltc [0x10, 1, 2] = Inl ReadPastEnd"
  by (rule address_short_read [OF toy_ltc_ok]) simp_all

end
