(* ===== verification/RsaOps.thy ===== *)
theory RsaOps
  imports KeyAddress
begin

text \<open>
  The signatures and encryptions of \<open>crypto/PrivateKey.cpp\<close> and \<open>crypto/PublicKey.cpp\<close>, which prepare the arguments of
  LibTomCrypt's RSA functions (the parameter \<open>rsa_lib\<close>) and copy what they leave, and the generator of
  \<open>crypto/no_prng.cpp\<close> that replays given bytes. A PRNG is the function from the length of a request to the
  bytes it stores. An RSA function that fails leaves the length \<open>Inl n\<close> in its output argument.
\<close>

section \<open>no_prng\<close>

record no_prng =
  np_entropy :: bytes
  np_len :: nat
  np_offset :: nat

datatype prng_error = ArgCheck

definition no_prng_start :: "no_prng \<Rightarrow> no_prng" where
  "no_prng_start p = p\<lparr>np_len := 0, np_offset := 0\<rparr>"

definition no_prng_add_entropy :: "bytes \<Rightarrow> no_prng \<Rightarrow> prng_error + no_prng" where
  "no_prng_add_entropy inp p =
     (if length (np_entropy p) < length inp then Inl ArgCheck
      else let n = min (length inp) (length (np_entropy p)) in
        Inr (p\<lparr>np_len := n, np_entropy := take n inp @ drop n (np_entropy p), np_offset := 0\<rparr>))"

definition no_prng_read :: "nat \<Rightarrow> no_prng \<Rightarrow> bytes \<times> no_prng" where
  "no_prng_read outlen p =
     (let n = min outlen (np_len p - np_offset p) in
      (take n (drop (np_offset p) (np_entropy p)), p\<lparr>np_offset := np_offset p + n\<rparr>))"

definition no_prng_ok :: "no_prng \<Rightarrow> bool" where
  "no_prng_ok p \<longleftrightarrow> np_offset p \<le> np_len p \<and> np_len p \<le> length (np_entropy p)"

fun no_prng_reads :: "nat list \<Rightarrow> no_prng \<Rightarrow> bytes list \<times> no_prng" where
  "no_prng_reads [] p = ([], p)"
| "no_prng_reads (n # ns) p =
     (let (out, p) = no_prng_read n p; (outs, p) = no_prng_reads ns p in (out # outs, p))"

lemma no_prng_ok_start: "no_prng_ok (no_prng_start p)"
  by (simp add: no_prng_ok_def no_prng_start_def)

lemma no_prng_ok_add: "no_prng_add_entropy inp p = Inr p' \<Longrightarrow> no_prng_ok p'"
  by (auto simp: no_prng_ok_def no_prng_add_entropy_def Let_def split: if_splits)

lemma no_prng_ok_read: "no_prng_ok p \<Longrightarrow> no_prng_ok (snd (no_prng_read n p))"
  by (auto simp: no_prng_ok_def no_prng_read_def Let_def)

text \<open>What is left to read.\<close>

definition np_rest :: "no_prng \<Rightarrow> bytes" where
  "np_rest p = drop (np_offset p) (take (np_len p) (np_entropy p))"

lemma read_rest:
  assumes "no_prng_ok p"
  shows "fst (no_prng_read n p) = take n (np_rest p)" "np_rest (snd (no_prng_read n p)) = drop n (np_rest p)"
proof -
  have l: "np_offset p \<le> np_len p" "np_len p \<le> length (np_entropy p)" using assms by (simp_all add: no_prng_ok_def)
  show "fst (no_prng_read n p) = take n (np_rest p)"
    by (simp add: no_prng_read_def np_rest_def Let_def drop_take)
  have "drop (min n (length (np_rest p))) (np_rest p) = drop n (np_rest p)" by (simp add: min_def)
  then show "np_rest (snd (no_prng_read n p)) = drop n (np_rest p)"
    using l by (simp add: no_prng_read_def np_rest_def Let_def add.commute)
qed

lemma reads_rest: "no_prng_ok p \<Longrightarrow> concat (fst (no_prng_reads ns p)) = take (sum_list ns) (np_rest p)"
proof (induction ns arbitrary: p)
  case (Cons n ns)
  have "concat (fst (no_prng_reads (n # ns) p)) =
      fst (no_prng_read n p) @ concat (fst (no_prng_reads ns (snd (no_prng_read n p))))"
    by (simp add: Let_def case_prod_unfold)
  also have "\<dots> = take n (np_rest p) @ take (sum_list ns) (drop n (np_rest p))"
    using Cons.IH [OF no_prng_ok_read [OF Cons.prems]] read_rest [OF Cons.prems] by simp
  finally show ?case by (simp add: take_add)
qed simp

section \<open>The library\<close>

type_synonym prng = "nat \<Rightarrow> bytes"

record rsa_lib =
  rsa_saltlen_max :: "HashType \<Rightarrow> int \<Rightarrow> int"   \<comment> \<open>hash, modulus\<close>
  rsa_sign_hash_ex :: "bytes \<Rightarrow> HashType \<Rightarrow> prng \<Rightarrow> HashType \<Rightarrow> int \<Rightarrow> rsa_key \<Rightarrow> nat + bytes"
  rsa_verify_hash_ex :: "bytes \<Rightarrow> bytes \<Rightarrow> HashType \<Rightarrow> HashType \<Rightarrow> int \<Rightarrow> public_key \<Rightarrow> int option"
  rsa_encrypt_key_ex :: "bytes \<Rightarrow> prng \<Rightarrow> HashType \<Rightarrow> public_key \<Rightarrow> nat + bytes"
  rsa_decrypt_key_ex :: "bytes \<Rightarrow> HashType \<Rightarrow> rsa_key \<Rightarrow> nat + bytes"

datatype rsa_error = DecryptError | ReadBehindBuffer | RsaPrngArg

text \<open>\<open>output.insert(output.begin(), buf, buf + bufLen)\<close> from an array of 1024 bytes that held \<open>junk\<close>.\<close>

definition copy_out :: "(nat \<Rightarrow> byte) \<Rightarrow> nat + bytes \<Rightarrow> rsa_error + bytes" where
  "copy_out junk r = (case r of Inr out \<Rightarrow> Inr out
     | Inl bufLen \<Rightarrow> if 1024 < bufLen then Inl ReadBehindBuffer else Inr (map junk [0..<bufLen]))"

section \<open>Signatures\<close>

definition hashed :: "ltc \<Rightarrow> HashType \<Rightarrow> bytes \<Rightarrow> bytes" where
  "hashed L hashType body = hash_memory L hashType body"

definition sign :: "ltc \<Rightarrow> rsa_lib \<Rightarrow> (nat \<Rightarrow> byte) \<Rightarrow> prng \<Rightarrow> rsa_key \<Rightarrow> bytes \<Rightarrow> HashType \<Rightarrow> rsa_error + bytes" where
  "sign L R junk sprng k body hashType =
     (let saltLen = rsa_saltlen_max R hashType (rk_N k) in
      copy_out junk (rsa_sign_hash_ex R (hashed L hashType body) hashType sprng SHA1 saltLen k))"

definition signEx :: "ltc \<Rightarrow> rsa_lib \<Rightarrow> (nat \<Rightarrow> byte) \<Rightarrow> prng \<Rightarrow> rsa_key \<Rightarrow> bytes \<Rightarrow> HashType \<Rightarrow> HashType \<Rightarrow> int \<Rightarrow>
    rsa_error + bytes" where
  "signEx L R junk sprng k body hashType mgf1HashType saltLen =
     (let saltLen = (if saltLen = -1 then rsa_saltlen_max R hashType (rk_N k) else saltLen) in
      copy_out junk (rsa_sign_hash_ex R (hashed L hashType body) hashType sprng mgf1HashType saltLen k))"

definition signExWithCustomSalt :: "ltc \<Rightarrow> rsa_lib \<Rightarrow> (nat \<Rightarrow> byte) \<Rightarrow> no_prng \<Rightarrow> rsa_key \<Rightarrow> bytes \<Rightarrow> HashType \<Rightarrow> HashType \<Rightarrow>
    bytes \<Rightarrow> rsa_error + bytes" where
  "signExWithCustomSalt L R junk p k body hashType mgf1HashType saltData =
     (case (if 0 < length saltData then no_prng_add_entropy saltData p else Inr p) of
        Inl _ \<Rightarrow> Inl RsaPrngArg
      | Inr p \<Rightarrow> copy_out junk (rsa_sign_hash_ex R (hashed L hashType body) hashType (\<lambda>n. fst (no_prng_read n p)) mgf1HashType
          (int (length saltData)) k))"

definition verify :: "ltc \<Rightarrow> rsa_lib \<Rightarrow> public_key \<Rightarrow> bytes \<Rightarrow> bytes \<Rightarrow> HashType \<Rightarrow> bool" where
  "verify L R k sig body hashType =
     (let saltLen = rsa_saltlen_max R hashType (pk_N k) in
      case rsa_verify_hash_ex R sig (hashed L hashType body) hashType SHA1 saltLen k of None \<Rightarrow> -1 \<noteq> (0 :: int) | Some stat \<Rightarrow> stat \<noteq> 0)"

definition verifyEx :: "ltc \<Rightarrow> rsa_lib \<Rightarrow> public_key \<Rightarrow> bytes \<Rightarrow> bytes \<Rightarrow> HashType \<Rightarrow> HashType \<Rightarrow> int \<Rightarrow> bool" where
  "verifyEx L R k sig body pssHashType mgf1HashType saltLen =
     (let saltLen = (if saltLen = -1 then rsa_saltlen_max R pssHashType (pk_N k) else saltLen) in
      case rsa_verify_hash_ex R sig (hashed L pssHashType body) pssHashType mgf1HashType saltLen k of
        None \<Rightarrow> -1 \<noteq> (0 :: int) | Some stat \<Rightarrow> stat \<noteq> 0)"

section \<open>Encryption\<close>

definition rsa_encrypt :: "rsa_lib \<Rightarrow> (nat \<Rightarrow> byte) \<Rightarrow> prng \<Rightarrow> public_key \<Rightarrow> bytes \<Rightarrow> rsa_error + bytes" where
  "rsa_encrypt R junk sprng k body = copy_out junk (rsa_encrypt_key_ex R body sprng SHA1 k)"

definition rsa_encryptEx :: "rsa_lib \<Rightarrow> (nat \<Rightarrow> byte) \<Rightarrow> prng \<Rightarrow> public_key \<Rightarrow> bytes \<Rightarrow> HashType \<Rightarrow> rsa_error + bytes" where
  "rsa_encryptEx R junk sprng k body oaepHashType = copy_out junk (rsa_encrypt_key_ex R body sprng oaepHashType k)"

definition encryptExWithSeed :: "rsa_lib \<Rightarrow> (nat \<Rightarrow> byte) \<Rightarrow> no_prng \<Rightarrow> public_key \<Rightarrow> bytes \<Rightarrow> HashType \<Rightarrow> bytes \<Rightarrow>
    rsa_error + bytes" where
  "encryptExWithSeed R junk p k body oaepHashType seed =
     (case no_prng_add_entropy seed p of
        Inl _ \<Rightarrow> Inl RsaPrngArg
      | Inr p \<Rightarrow> copy_out junk (rsa_encrypt_key_ex R body (\<lambda>n. fst (no_prng_read n p)) oaepHashType k))"

definition rsa_decrypt :: "rsa_lib \<Rightarrow> rsa_key \<Rightarrow> bytes \<Rightarrow> rsa_error + bytes" where
  "rsa_decrypt R k body = (case rsa_decrypt_key_ex R body SHA1 k of Inl _ \<Rightarrow> Inl DecryptError | Inr out \<Rightarrow> Inr out)"

definition rsa_decryptEx :: "rsa_lib \<Rightarrow> rsa_key \<Rightarrow> bytes \<Rightarrow> HashType \<Rightarrow> rsa_error + bytes" where
  "rsa_decryptEx R k body oaepHashType =
     (case rsa_decrypt_key_ex R body oaepHashType k of Inl _ \<Rightarrow> Inl DecryptError | Inr out \<Rightarrow> Inr out)"

text \<open>What LibTomCrypt documents of a key pair: signatures verify, and decryption undoes encryption.\<close>

definition rsa_lib_ok :: "rsa_lib \<Rightarrow> rsa_key \<Rightarrow> public_key \<Rightarrow> bool" where
  "rsa_lib_ok R k pub \<longleftrightarrow>
     (\<forall>h t rnd g s sig. rsa_sign_hash_ex R h t rnd g s k = Inr sig \<longrightarrow> rsa_verify_hash_ex R sig h t g s pub = Some 1) \<and>
     (\<forall>m rnd t c. rsa_encrypt_key_ex R m rnd t pub = Inr c \<longrightarrow> rsa_decrypt_key_ex R c t k = Inr m)"

text \<open>
  The calls of \<open>sign\<close> and \<open>encrypt\<close> succeed for a key: a signature with MGF1 over SHA-1 and the longest salt of the
  key, as LibTomCrypt makes it of any digest when the key has room for digest and salt and the PRNG \<open>rnd\<close> delivers; OAEP
  over SHA-1 of up to 128 bytes, which has room in a modulus of 170 bytes or more.
\<close>

definition signs_body :: "ltc \<Rightarrow> rsa_lib \<Rightarrow> prng \<Rightarrow> rsa_key \<Rightarrow> HashType \<Rightarrow> bytes \<Rightarrow> bool" where
  "signs_body L R rnd k t body \<longleftrightarrow>
     (\<exists>sig. rsa_sign_hash_ex R (hashed L t body) t rnd SHA1 (rsa_saltlen_max R t (rk_N k)) k = Inr sig \<and> length sig < 65536)"

definition encrypts_short :: "rsa_lib \<Rightarrow> prng \<Rightarrow> public_key \<Rightarrow> bool" where
  "encrypts_short R rnd pub \<longleftrightarrow>
     (\<forall>m. length m \<le> 128 \<longrightarrow> (\<exists>c. rsa_encrypt_key_ex R m rnd SHA1 pub = Inr c \<and> length c < 65536))"

lemma sign_is_signEx: "sign L R junk sprng k body t = signEx L R junk sprng k body t SHA1 (-1)"
  and verify_is_verifyEx: "verify L R pub sig body t = verifyEx L R pub sig body t SHA1 (-1)"
  by (simp_all add: sign_def signEx_def verify_def verifyEx_def)

lemma signEx_verifyEx:
  assumes "rsa_lib_ok R k pub" "pk_N pub = rk_N k"
    "rsa_sign_hash_ex R (hashed L t body) t sprng g (if s = -1 then rsa_saltlen_max R t (rk_N k) else s) k = Inr sig"
  shows "signEx L R junk sprng k body t g s = Inr sig" "verifyEx L R pub sig body t g s"
  using assms by (auto simp: signEx_def verifyEx_def copy_out_def rsa_lib_ok_def Let_def)

lemma signs_verifies:
  assumes "rsa_lib_ok R k pub" "pk_N pub = rk_N k" "signs_body L R rnd k t body"
  obtains sig where "sign L R junk rnd k body t = Inr sig" "length sig < 65536" "verify L R pub sig body t"
proof -
  obtain sig where h: "rsa_sign_hash_ex R (hashed L t body) t rnd SHA1
      (if -1 = (-1 :: int) then rsa_saltlen_max R t (rk_N k) else -1) k = Inr sig" "length sig < 65536"
    using assms(3) by (auto simp: signs_body_def)
  show thesis
    by (rule that [OF _ h(2)]; unfold sign_is_signEx verify_is_verifyEx; rule signEx_verifyEx [OF assms(1,2) h(1)])
qed

lemma encrypts_decrypts:
  assumes "rsa_lib_ok R k pub" "encrypts_short R rnd pub" "length m \<le> 128"
  shows "\<exists>c. rsa_encrypt R junk rnd pub m = Inr c \<and> length c < 65536 \<and> rsa_decrypt R k c = Inr m"
proof -
  obtain c where "rsa_encrypt_key_ex R m rnd SHA1 pub = Inr c" "length c < 65536" using assms(2,3) unfolding encrypts_short_def by blast
  then show ?thesis using assms(1) by (auto simp: rsa_lib_ok_def rsa_encrypt_def rsa_decrypt_def copy_out_def)
qed

section \<open>Properties\<close>

text \<open>
  After \<open>add_entropy\<close>, the reads of the replaying generator return its bytes in order, never more than there are
  and never behind the entropy buffer, however they are cut.
\<close>

theorem no_prng_replays:
  assumes "no_prng_add_entropy seed p = Inr p'"
  shows "concat (fst (no_prng_reads ns p')) = take (sum_list ns) seed"
proof -
  have "np_rest p' = seed" using assms by (auto simp: no_prng_add_entropy_def np_rest_def Let_def split: if_splits)
  then show ?thesis using reads_rest [OF no_prng_ok_add [OF assms]] by simp
qed

theorem no_prng_replays_witness: "concat (fst (no_prng_reads [1, 5] \<lparr>np_entropy = [1, 2, 3, 9], np_len = 3, np_offset = 0\<rparr>)) = [1, 2, 3]"
  using no_prng_replays [of "[1, 2, 3]" "\<lparr>np_entropy = [8, 8, 8, 9], np_len = 0, np_offset = 0\<rparr>" _ "[1, 5]"]
  by (simp add: no_prng_add_entropy_def numeral_3_eq_3 del: no_prng_reads.simps)

text \<open>
  When LibTomCrypt refuses to sign or to encrypt, the code prints a message and returns the bytes of the buffer,
  which nothing has written, as if they were the result.
\<close>

theorem rsa_failure_returns_buffer:
  assumes "rsa_encrypt_key_ex R body sprng SHA1 k = Inl n" "n \<le> 1024"
  shows "rsa_encrypt R junk sprng k body = Inr (map junk [0..<n])"
  using assms by (simp add: rsa_encrypt_def copy_out_def)

definition failing_lib :: rsa_lib where
  "failing_lib = \<lparr>rsa_saltlen_max = (\<lambda>t n. 32), rsa_sign_hash_ex = (\<lambda>h t r g s k. Inl 1024),
     rsa_verify_hash_ex = (\<lambda>sig h t g s k. Some 0), rsa_encrypt_key_ex = (\<lambda>m r t k. if 190 < length m then Inl 1024 else Inr m),
     rsa_decrypt_key_ex = (\<lambda>m t k. Inr m)\<rparr>"

theorem rsa_failure_returns_buffer_witness:
  "rsa_encrypt failing_lib (\<lambda>i. 7) (\<lambda>n. []) big_key (replicate 200 0) = Inr (map (\<lambda>i. 7) [0..<1024])"
  by (rule rsa_failure_returns_buffer) (simp_all add: failing_lib_def)

end
