(* ===== verification/HashId.thy ===== *)
theory HashId
  imports MgBase64 Safe58
begin

text \<open>
  \<open>crypto/HashId.cpp\<close> and the base64 functions of \<open>crypto/base64.cpp\<close> it prints with. The three hashes of a
  \<open>HashId\<close> are the parameter \<open>hashes\<close>; the uninitialised arrays of the base64 functions are arguments.
\<close>

section \<open>base64.cpp\<close>

definition is_base64 :: "byte \<Rightarrow> bool" where
  "is_base64 c = ((chr CHR ''0'' \<le> c \<and> c \<le> chr CHR ''9'') \<or> (chr CHR ''A'' \<le> c \<and> c \<le> chr CHR ''Z'') \<or>
     (chr CHR ''a'' \<le> c \<and> c \<le> chr CHR ''z'') \<or> c = chr CHR ''+'' \<or> c = chr CHR ''/'')"

definition encode_quad :: "bytes \<Rightarrow> bytes" where
  "encode_quad char_array_3 =
     (let a = char_array_3 ! 0; b = char_array_3 ! 1; c = char_array_3 ! 2 in
      [b64_at (drop_bit 2 (a AND 0xFC)), b64_at (push_bit 4 (a AND 0x03) + drop_bit 4 (b AND 0xF0)),
       b64_at (push_bit 2 (b AND 0x0F) + drop_bit 6 (c AND 0xC0)), b64_at (c AND 0x3F)])"

fun encode_loop :: "bytes \<Rightarrow> nat \<Rightarrow> bytes \<Rightarrow> bytes \<Rightarrow> bytes \<times> nat \<times> bytes" where
  "encode_loop char_array_3 i ret [] = (char_array_3, i, ret)"
| "encode_loop char_array_3 i ret (x # xs) =
     (let char_array_3 = char_array_3[i := x]; i = i + 1 in
      if i = 3 then encode_loop char_array_3 0 (ret @ encode_quad char_array_3) xs
      else encode_loop char_array_3 i ret xs)"

text \<open>
  The encoder of a pointer and a length, and that of a vector, which passes its size as an
  \<open>unsigned int\<close>.
\<close>

definition base64_encode_ptr :: "bytes \<Rightarrow> bytes \<Rightarrow> bytes" where
  "base64_encode_ptr junk xs =
     (case encode_loop junk 0 [] xs of (char_array_3, i, ret) \<Rightarrow>
        if i \<noteq> 0 then ret @ take (i + 1) (encode_quad (take i char_array_3 @ replicate (3 - i) 0)) @
          replicate (3 - i) (chr CHR ''='')
        else ret)"

definition base64_encode :: "bytes \<Rightarrow> bytes \<Rightarrow> bytes" where
  "base64_encode junk v = base64_encode_ptr junk (take (length v mod 2 ^ 32) v)"

definition b64_find :: "byte \<Rightarrow> byte" where
  "b64_find c = of_nat (length (takeWhile (\<lambda>x. x \<noteq> c) b64_alphabet))"

definition decode_quad :: "bytes \<Rightarrow> bytes" where
  "decode_quad char_array_4 =
     (let a = char_array_4 ! 0; b = char_array_4 ! 1; c = char_array_4 ! 2; d = char_array_4 ! 3 in
      [push_bit 2 a + drop_bit 4 (b AND 0x30), push_bit 4 (b AND 0xF) + drop_bit 2 (c AND 0x3C), push_bit 6 (c AND 0x3) + d])"

fun decode_loop :: "bytes \<Rightarrow> nat \<Rightarrow> bytes \<Rightarrow> bytes \<Rightarrow> bytes \<times> nat \<times> bytes" where
  "decode_loop char_array_4 i ret [] = (char_array_4, i, ret)"
| "decode_loop char_array_4 i ret (c # s) =
     (if c \<noteq> chr CHR ''='' \<and> is_base64 c then
        (let char_array_4 = char_array_4[i := c]; i = i + 1 in
         if i = 4 then let char_array_4 = map b64_find char_array_4 in decode_loop char_array_4 0 (ret @ decode_quad char_array_4) s
         else decode_loop char_array_4 i ret s)
      else (char_array_4, i, ret))"

text \<open>The decoder, for strings below \<open>2^31\<close> characters, whose size the code keeps in an \<open>int\<close>.\<close>

definition base64_decode :: "bytes \<Rightarrow> bytes \<Rightarrow> bytes" where
  "base64_decode junk s =
     (case decode_loop junk 0 [] s of (char_array_4, i, ret) \<Rightarrow>
        if i \<noteq> 0 then ret @ take (i - 1) (decode_quad (map b64_find (take i char_array_4) @ drop i char_array_4))
        else ret)"

subsection \<open>The same encoding as mongoose\<close>

lemma plus_or: "a AND b = 0 \<Longrightarrow> a + b = a OR (b :: byte)"
  by (rule disjunctive_add_eq_or)

lemma quad_sx: "encode_quad [a, b, c] = [b64_at (sx0 a), b64_at (sx1 a b), b64_at (sx2 b c), b64_at (sx3 c)]"
proof -
  have "drop_bit 2 (a AND 0xFC) = sx0 a" unfolding sx_defs
    by (rule byte_bitsI; simp add: bit_iffs)
  moreover have "push_bit 4 (a AND 3) + drop_bit 4 (b AND 0xF0) = sx1 a b" unfolding sx_defs
    by (subst plus_or; (rule byte_bitsI; simp add: bit_iffs)?)
  moreover have "push_bit 2 (b AND 0xF) + drop_bit 6 (c AND 0xC0) = sx2 b c" unfolding sx_defs
    by (subst plus_or; (rule byte_bitsI; simp add: bit_iffs)?)
  ultimately show ?thesis by (simp add: encode_quad_def Let_def sx3_def)
qed

lemma join_sx:
  "push_bit 2 (sx0 a) + drop_bit 4 (sx1 a b AND 0x30) = a"
  "push_bit 4 (sx1 a b AND 0xF) + drop_bit 2 (sx2 b c AND 0x3C) = b"
  "push_bit 6 (sx2 b c AND 3) + sx3 c = c"
  unfolding sx_defs by (subst plus_or; (rule byte_bitsI; simp add: bit_iffs)?)+

lemma encode_loop_groups:
  assumes "length arr = 3"
  shows "(case encode_loop arr 0 ret xs of (arr, i, ret) \<Rightarrow>
     if i \<noteq> 0 then ret @ take (i + 1) (encode_quad (take i arr @ replicate (3 - i) 0)) @ replicate (3 - i) (chr CHR ''='')
     else ret) = ret @ b64_pad (b64_groups xs)"
  using assms
proof (induction xs arbitrary: arr ret rule: b64_groups.induct)
  case 1
  then show ?case by (simp add: b64_pad_def)
next
  case (2 a)
  then obtain x y z where "arr = [x, y, z]" by (auto simp: length_3_conv)
  then show ?case by (simp add: Let_def quad_sx b64_pad_def replicate_2)
next
  case (3 a b)
  then obtain x y z where "arr = [x, y, z]" by (auto simp: length_3_conv)
  then show ?case by (simp add: Let_def quad_sx b64_pad_def)
next
  case (4 a b c src)
  then obtain x y z where arr: "arr = [x, y, z]" by (auto simp: length_3_conv)
  have "length [a, b, c] = 3" by simp
  from "4.IH" [OF this, of "ret @ encode_quad [a, b, c]"] show ?case
    by (simp add: arr Let_def quad_sx b64_pad_cons4)
qed

lemma base64_encode_groups: "length junk = 3 \<Longrightarrow> length xs < 2 ^ 32 \<Longrightarrow> base64_encode junk xs = b64_pad (b64_groups xs)"
  using encode_loop_groups [of junk "[]" xs] by (simp add: base64_encode_def base64_encode_ptr_def)

subsection \<open>Decoding\<close>

definition b64_ok :: "byte \<Rightarrow> bool" where
  "b64_ok v \<longleftrightarrow> is_base64 (b64_at v) \<and> b64_at v \<noteq> chr CHR ''='' \<and> b64_find (b64_at v) = v"

lemma b64_at_ok:
  assumes "take_bit 6 v = v"
  shows "b64_ok v"
proof -
  have "\<forall>n \<in> set [0..<64]. b64_ok (of_nat n)"
    by (simp add: upt_64 b64_ok_def b64_at_def alphabet_codes b64_find_def is_base64_def)
  moreover have "unat v \<in> set [0..<64]" using code_at(3) [OF assms] by (simp add: word_less_nat_alt)
  ultimately have "b64_ok (of_nat (unat v))" by blast
  then show ?thesis by simp
qed

lemmas sx_ok = sx_bounds [THEN b64_at_ok]

lemma decode_four:
  assumes "length arr = 4" "b64_ok p" "b64_ok q" "b64_ok u" "b64_ok v"
  shows "decode_loop arr 0 ret (b64_at p # b64_at q # b64_at u # b64_at v # s) =
    decode_loop [p, q, u, v] 0 (ret @ decode_quad [p, q, u, v]) s"
proof -
  obtain w x y z where "arr = [w, x, y, z]" using assms(1) by (auto simp: eval_nat_numeral length_Suc_conv)
  with assms(2-5) show ?thesis by (simp add: b64_ok_def Let_def eval_nat_numeral)
qed

lemma decode_encoded_groups:
  assumes "length arr = 4"
  shows "(case decode_loop arr 0 ret (b64_pad (b64_groups xs)) of (arr, i, ret) \<Rightarrow>
     if i \<noteq> 0 then ret @ take (i - 1) (decode_quad (map b64_find (take i arr) @ drop i arr)) else ret) = ret @ xs"
  using assms
proof (induction xs arbitrary: arr ret rule: b64_groups.induct)
  case 1
  then show ?case by (simp add: b64_pad_def)
next
  case (2 a)
  obtain w x y z where arr: "arr = [w, x, y, z]" using 2 by (auto simp: eval_nat_numeral length_Suc_conv)
  have q: "decode_quad [sx0 a, sx1 a 0, y, z] = [a, push_bit 4 (sx1 a 0 AND 0xF) + drop_bit 2 (y AND 0x3C), push_bit 6 (y AND 3) + z]"
    by (simp add: decode_quad_def Let_def join_sx join_sx [simplified])
  show ?case using sx_ok [of a] sx_ok(2) [of a 0]
    by (simp add: arr b64_ok_def b64_pad_def replicate_2 Let_def q)
next
  case (3 a b)
  obtain w x y z where arr: "arr = [w, x, y, z]" using 3 by (auto simp: eval_nat_numeral length_Suc_conv)
  have q: "decode_quad [sx0 a, sx1 a b, sx2 b 0, z] = [a, b, push_bit 6 (sx2 b 0 AND 3) + z]"
    by (simp add: decode_quad_def Let_def join_sx join_sx [simplified])
  show ?case using sx_ok(1) [of a] sx_ok(2) [of a b] sx_ok(3) [of b 0]
    by (simp add: arr b64_ok_def b64_pad_def Let_def q)
next
  case (4 a b c src)
  have q: "decode_quad [sx0 a, sx1 a b, sx2 b c, sx3 c] = [a, b, c]"
    by (simp add: decode_quad_def Let_def join_sx join_sx [simplified])
  have l: "length [sx0 a, sx1 a b, sx2 b c, sx3 c] = 4" by simp
  show ?case
    using "4.IH" [OF l, of "ret @ [a, b, c]"] decode_four [OF "4.prems" sx_ok(1) sx_ok(2) sx_ok(3) sx_ok(4)]
    by (simp add: b64_pad_cons4 q)
qed

lemma base64_decode_encode: "length junk = 3 \<Longrightarrow> length junk' = 4 \<Longrightarrow> length xs < 2 ^ 32 \<Longrightarrow> base64_decode junk' (base64_encode junk xs) = xs"
  using decode_encoded_groups [of junk' "[]" xs] by (simp add: base64_decode_def base64_encode_groups)

lemma decode_stops: "c = chr CHR ''='' \<or> \<not> is_base64 c \<Longrightarrow> decode_loop arr i ret (s @ c # t) = decode_loop arr i ret s"
  by (induction arr i ret s rule: decode_loop.induct) (auto simp: Let_def)

section \<open>HashId\<close>

record hashes =
  sha512_256 :: "bytes \<Rightarrow> bytes"
  sha3_256 :: "bytes \<Rightarrow> bytes"
  gost_256 :: "bytes \<Rightarrow> bytes"

datatype hashid_error = AlreadyInitialized

definition initWith :: "hashes \<Rightarrow> bytes \<Rightarrow> bytes \<Rightarrow> hashid_error + bytes" where
  "initWith H digest data =
     (if length digest = 0 then Inr (sha512_256 H data @ sha3_256 H data @ gost_256 H data) else Inl AlreadyInitialized)"

definition hashid_of :: "hashes \<Rightarrow> bytes \<Rightarrow> hashid_error + bytes" where
  "hashid_of H data = initWith H [] data"

definition withDigest :: "bytes \<Rightarrow> bytes" where
  "withDigest digestData = digestData"

definition toBase64 :: "bytes \<Rightarrow> bytes \<Rightarrow> bytes" where
  "toBase64 junk digest = base64_encode junk digest"

fun hashid_less_loop :: "bytes \<Rightarrow> bytes \<Rightarrow> bool" where
  "hashid_less_loop (a # as) (b # bs) = (if a < b then True else if b < a then False else hashid_less_loop as bs)"
| "hashid_less_loop _ _ = False"

definition hashid_less :: "bytes \<Rightarrow> bytes \<Rightarrow> bool" where
  "hashid_less x y = (if length x \<noteq> length y then False else hashid_less_loop x y)"

definition hashid_eq :: "bytes \<Rightarrow> bytes \<Rightarrow> bool" where
  "hashid_eq x y = (if length x \<noteq> length y then False else list_all2 (=) x y)"

lemma hashid_eq_iff: "hashid_eq x y \<longleftrightarrow> x = y"
  by (auto simp: hashid_eq_def list_all2_eq [symmetric])

lemma lead_less:
  assumes "(a :: nat) < b" "x < p"
  shows "a * p + x < b * p + (y :: nat)"
proof -
  have "(a + 1) * p \<le> b * p" using assms(1) by (intro mult_le_mono1) simp
  with assms(2) show ?thesis by simp
qed

lemma hashid_less_value: "length x = length y \<Longrightarrow> hashid_less_loop x y \<longleftrightarrow> digits_val 256 x < digits_val 256 y"
proof (induction x y rule: hashid_less_loop.induct)
  case (1 a as b bs)
  have l: "length as = length bs" using "1.prems" by simp
  have lt: "digits_val 256 as < 256 ^ length bs" "digits_val 256 bs < 256 ^ length bs"
    using digits_val_lt [of 256 as] digits_val_lt [of 256 bs] l by simp_all
  show ?case
  proof (cases a b rule: linorder_cases)
    case less
    then show ?thesis using lead_less [of "unat a" "unat b", OF _ lt(1)] by (simp add: l word_less_nat_alt)
  next
    case greater
    then show ?thesis using lead_less [of "unat b" "unat a", OF _ lt(2)]
      by (simp add: l word_less_nat_alt not_less less_imp_le)
  next
    case equal
    then show ?thesis using "1.IH" l by simp
  qed
qed auto

text \<open>A strict total order on the digests of one length, which is what an ordered map of \<open>HashId\<close> needs.\<close>

locale strict_order =
  fixes less_op :: "'a \<Rightarrow> 'a \<Rightarrow> bool"
    and comparable :: "'a \<Rightarrow> 'a \<Rightarrow> bool"
  assumes irreflexive: "\<not> less_op x x"
    and transitive: "less_op x y \<Longrightarrow> less_op y z \<Longrightarrow> less_op x z"
    and total: "comparable x y \<Longrightarrow> less_op x y \<or> x = y \<or> less_op y x"
begin

lemma asymmetric: "less_op x y \<Longrightarrow> \<not> less_op y x"
  using transitive [of x y x] irreflexive by blast

lemma equivalent_iff: "comparable x y \<Longrightarrow> (\<not> less_op x y \<and> \<not> less_op y x) \<longleftrightarrow> x = y"
  using total [of x y] irreflexive by blast

end

interpretation hid: strict_order hashid_less "\<lambda>x y. length x = length y"
proof unfold_locales
  fix x y z :: bytes
  show "\<not> hashid_less x x" by (simp add: hashid_less_def hashid_less_value)
  show "hashid_less x y \<Longrightarrow> hashid_less y z \<Longrightarrow> hashid_less x z"
    by (auto simp: hashid_less_def hashid_less_value split: if_splits)
  show "length x = length y \<Longrightarrow> hashid_less x y \<or> x = y \<or> hashid_less y x"
    using digits_inj_length [of 256 x y] by (auto simp: hashid_less_def hashid_less_value)
qed

section \<open>Properties\<close>

text \<open>\<open>base64_decode\<close> gives back what \<open>base64_encode\<close> encoded below \<open>2^31\<close> characters, whatever the arrays of both held.\<close>

theorem base64_roundtrip:
  assumes "length junk = 3" "length junk' = 4" "4 * ((length xs + 2) div 3) < 2 ^ 31"
  shows "base64_decode junk' (base64_encode junk xs) = xs"
  by (rule base64_decode_encode [OF assms(1,2)]) (use assms(3) in simp)

theorem base64_roundtrip_witness: "base64_decode [9, 9, 9, 9] (base64_encode [1, 2, 3] (cstr ''any'')) = cstr ''any''"
  by (rule base64_roundtrip) simp_all

text \<open>C38: The two base64 encoders of the program agree on all data whose encoding has fewer than \<open>2^31\<close> characters (about
  1.6 GB of data): what \<open>cs_base64_encode\<close> of mongoose stores is what \<open>crypto/base64.cpp\<close> returns, and a NUL.\<close>

theorem base64_same_as_mongoose:
  assumes "length junk = 3" "4 * ((length xs + 2) div 3) < 2 ^ 31"
  shows "cs_base64_encode xs = Some (base64_encode junk xs @ [0])"
proof -
  have "length xs < 2 ^ 32" using assms(2) by simp
  then show ?thesis using base64_encode_groups [OF assms(1)] cs_base64_encode_fits [OF assms(2)] by simp
qed

theorem base64_same_as_mongoose_witness: "cs_base64_encode [77, 97] = Some (base64_encode [1, 2, 3] [77, 97] @ [0])"
  by (rule base64_same_as_mongoose) simp_all

text \<open>\<open>base64_decode\<close> stops without an error at the first character outside the alphabet.\<close>

theorem base64_decode_stops:
  assumes "c = chr CHR ''='' \<or> \<not> is_base64 c"
  shows "base64_decode junk (s @ c # t) = base64_decode junk s"
  using decode_stops [OF assms] by (simp add: base64_decode_def)

theorem base64_decode_stops_witness: "base64_decode [0, 0, 0, 0] (cstr ''QU'' @ 10 # cstr ''JD'') = base64_decode [0, 0, 0, 0] (cstr ''QU'')"
  by (rule base64_decode_stops) (simp add: is_base64_def)

text \<open>
  \<open>operator<\<close> orders the digests of one length strictly and totally, as the numbers they are, and two of
  them are equal for \<open>operator==\<close> exactly when neither is less.
\<close>

theorem hashid_total_order:
  assumes "length x = length y"
  shows "(hashid_less x y \<longleftrightarrow> digits_val 256 x < digits_val 256 y) \<and>
    (hashid_eq x y \<longleftrightarrow> \<not> hashid_less x y \<and> \<not> hashid_less y x)"
  using hid.equivalent_iff [OF assms] hashid_less_value [OF assms] assms by (simp add: hashid_eq_iff hashid_less_def)

theorem hashid_total_order_witness: "hashid_less [1, 200, 3] [2, 0, 0]"
  using hashid_total_order [of "[1, 200, 3]" "[2, 0, 0]"] by simp

end
