(* ===== verification/UdpTypes.thy ===== *)
theory UdpTypes
  imports BossTheorems SymKey
begin

text \<open>
  \<open>network/NodeInfo.cpp\<close>, \<open>NetConfig.cpp\<close> and \<open>UDPAdapterPrivate.cpp\<close>: node descriptions, the
  network configuration, packets, the protection from duplicates, and the retransmission of
  packets. A C++ \<open>int\<close> or \<open>long\<close> is an \<open>int\<close> kept in range where it is converted; an
  \<open>unordered_map\<close> is an association list in its iteration order, an \<open>unordered_set\<close> a set.
\<close>

datatype udp_exc =
    NodeNotFound | NodePresent | BadNode | ReaderNotFound
  | BossExc boss_error | IndexOutOfRange | CryptoExc crypto_error | RsaExc
  | UdpErr   \<comment> \<open>what \<open>writeErr\<close> throws\<close>

text \<open>
  \<open>OutOfBoundsRead\<close> and its like stand for undefined behaviour: what the process does then is no
  exception, and no \<open>catch\<close> clause ends it.
\<close>

fun udp_undefined :: "udp_exc \<Rightarrow> bool" where
  "udp_undefined (BossExc e) = boss_undefined e"
| "udp_undefined _ = False"

section \<open>Nodes\<close>

record 'p node =
  n_key :: 'p
  n_number :: int
  n_name :: bytes
  n_host :: bytes
  n_hostV6 :: bytes
  n_publicHost :: bytes
  n_datagramPort :: int
  n_clientPort :: int
  n_publicPort :: int

definition new_node :: "'p \<Rightarrow> int \<Rightarrow> bytes \<Rightarrow> bytes \<Rightarrow> bytes \<Rightarrow> bytes \<Rightarrow> int \<Rightarrow> int \<Rightarrow> int \<Rightarrow> udp_exc + 'p node" where
  "new_node key number name host hostV6 publicHost datagramPort clientPort publicPort =
     (if number < 0 then Inl BadNode
      else if datagramPort \<le> 0 then Inl BadNode
      else if clientPort \<le> 0 then Inl BadNode
      else Inr \<lparr>n_key = key, n_number = number, n_name = name, n_host = host, n_hostV6 = hostV6,
        n_publicHost = publicHost, n_datagramPort = datagramPort, n_clientPort = clientPort, n_publicPort = publicPort\<rparr>)"

text \<open>The maps of the adapter: \<open>find\<close>, \<open>insert\<close> (an existing key wins), \<open>erase\<close>, update in place.\<close>

definition um_insert :: "int \<Rightarrow> 'v \<Rightarrow> (int \<times> 'v) list \<Rightarrow> (int \<times> 'v) list" where
  "um_insert k v m = (if map_of m k = None then m @ [(k, v)] else m)"

definition um_erase :: "int \<Rightarrow> (int \<times> 'v) list \<Rightarrow> (int \<times> 'v) list" where
  "um_erase k m = filter (\<lambda>p. fst p \<noteq> k) m"

definition um_update :: "int \<Rightarrow> ('v \<Rightarrow> 'v) \<Rightarrow> (int \<times> 'v) list \<Rightarrow> (int \<times> 'v) list" where
  "um_update k f m = map (\<lambda>p. if fst p = k then (k, f (snd p)) else p) m"

type_synonym 'p netconf = "(int \<times> 'p node) list"

definition addNode :: "'p node \<Rightarrow> 'p netconf \<Rightarrow> udp_exc + 'p netconf" where
  "addNode n c = (if map_of c (n_number n) \<noteq> None then Inl NodePresent else Inr (um_insert (n_number n) n c))"

definition getInfo :: "'p netconf \<Rightarrow> int \<Rightarrow> udp_exc + 'p node" where
  "getInfo c i = (case map_of c i of None \<Rightarrow> Inl NodeNotFound | Some n \<Rightarrow> Inr n)"

definition conf_find :: "'p netconf \<Rightarrow> int \<Rightarrow> bool" where
  "conf_find c i = (map_of c i \<noteq> None)"

definition toList :: "'p netconf \<Rightarrow> 'p node list" where
  "toList c = map snd c"

definition getSize :: "'p netconf \<Rightarrow> nat" where
  "getSize c = length c"

section \<open>Packets\<close>

datatype ptype = DATA | ACK | NACK | HELLO | WELCOME | KEY_REQ_PART1 | KEY_REQ_PART2 | SESSION_PART1 | SESSION_PART2 | SESSION_ACK

fun type_code :: "ptype \<Rightarrow> int" where
  "type_code DATA = 0"
| "type_code ACK = 1"
| "type_code NACK = 2"
| "type_code HELLO = 3"
| "type_code WELCOME = 4"
| "type_code KEY_REQ_PART1 = 5"
| "type_code KEY_REQ_PART2 = 6"
| "type_code SESSION_PART1 = 7"
| "type_code SESSION_PART2 = 8"
| "type_code SESSION_ACK = 9"

text \<open>The type is the \<open>int\<close> that was received, known or not.\<close>

record packet =
  pk_sender :: int
  pk_receiver :: int
  pk_id :: int
  pk_type :: int
  pk_payload :: bytes

definition new_packet :: "int \<Rightarrow> int \<Rightarrow> int \<Rightarrow> ptype \<Rightarrow> bytes \<Rightarrow> packet" where
  "new_packet i sender receiver ty payload =
     \<lparr>pk_sender = sender, pk_receiver = receiver, pk_id = i, pk_type = type_code ty, pk_payload = payload\<rparr>"

definition UInt_of :: "int \<Rightarrow> uobj" where
  "UInt_of i = UInt (word_of_int i)"

text \<open>The conversion of a \<open>long\<close> to \<open>int\<close>.\<close>

definition int32 :: "u64 \<Rightarrow> int" where
  "int32 w = sint (ucast w :: u32)"

definition lift_boss :: "boss_error + 'a \<Rightarrow> udp_exc + 'a" where
  "lift_boss m = (case m of Inl e \<Rightarrow> Inl (BossExc e) | Inr x \<Rightarrow> Inr x)"

definition lift_crypto :: "crypto_error + 'a \<Rightarrow> udp_exc + 'a" where
  "lift_crypto m = (case m of Inl e \<Rightarrow> Inl (CryptoExc e) | Inr x \<Rightarrow> Inr x)"

definition bossDumpArray :: "uobj list \<Rightarrow> udp_exc + bytes" where
  "bossDumpArray xs = lift_boss (serialize (UArray xs))"

definition bossLoadArray :: "key_parser \<Rightarrow> bytes \<Rightarrow> udp_exc + uobj list" where
  "bossLoadArray kp b = res_bind (lift_boss (deserialize kp b)) (\<lambda>u. lift_boss (array_asInstance u))"

definition array_at :: "uobj list \<Rightarrow> nat \<Rightarrow> udp_exc + uobj" where
  "array_at xs i = (if i < length xs then Inr (xs ! i) else Inl IndexOutOfRange)"

definition int_at :: "uobj list \<Rightarrow> nat \<Rightarrow> udp_exc + int" where
  "int_at xs i = res_bind (array_at xs i) (\<lambda>u. res_bind (lift_boss (int_asInstance u)) (\<lambda>w. Inr (int32 w)))"

definition bytes_at :: "uobj list \<Rightarrow> nat \<Rightarrow> udp_exc + bytes" where
  "bytes_at xs i = res_bind (array_at xs i) (\<lambda>u. lift_boss (bytes_asInstance u))"

definition parse_packet :: "key_parser \<Rightarrow> bytes \<Rightarrow> udp_exc + packet" where
  "parse_packet kp b =
     res_bind (bossLoadArray kp b) (\<lambda>xs.
     res_bind (int_at xs 0) (\<lambda>i.
     res_bind (int_at xs 1) (\<lambda>s.
     res_bind (int_at xs 2) (\<lambda>r.
     res_bind (int_at xs 3) (\<lambda>t.
     res_bind (bytes_at xs 4) (\<lambda>p.
       Inr \<lparr>pk_sender = s, pk_receiver = r, pk_id = i, pk_type = t, pk_payload = p\<rparr>))))))"

definition makeByteArray :: "packet \<Rightarrow> udp_exc + bytes" where
  "makeByteArray p =
     bossDumpArray [UInt_of (pk_id p), UInt_of (pk_sender p), UInt_of (pk_receiver p), UInt_of (pk_type p), UBytes (pk_payload p)]"

section \<open>Protection from duplicates\<close>

record dupes =
  buffer0 :: "int set"
  buffer1 :: "int set"

definition no_dupes :: dupes where
  "no_dupes = \<lparr>buffer0 = {}, buffer1 = {}\<rparr>"

definition protectFromDuples :: "int \<Rightarrow> dupes \<Rightarrow> bool \<times> dupes" where
  "protectFromDuples i d =
     (if i \<notin> buffer0 d \<and> i \<notin> buffer1 d then (True, d\<lparr>buffer0 := insert i (buffer0 d)\<rparr>) else (False, d))"

definition clearOldestBuffer :: "dupes \<Rightarrow> dupes" where
  "clearOldestBuffer d = d\<lparr>buffer1 := buffer0 d, buffer0 := {}\<rparr>"

section \<open>Constants of the adapter\<close>

definition MAX_PACKET_SIZE :: nat where "MAX_PACKET_SIZE = 512"
definition RETRANSMIT_TIME :: int where "RETRANSMIT_TIME = 250"
definition GROW_FACTOR :: int where "GROW_FACTOR = 4"
definition MAX_ATTEMPTS :: int where "MAX_ATTEMPTS = 20"
definition MAX_RETRANSMIT_QUEUE_SIZE :: int where "MAX_RETRANSMIT_QUEUE_SIZE = 5000"
definition MAX_QUEUE_SIZE :: int where "MAX_QUEUE_SIZE = 50000"
definition HANDSHAKE_TIMEOUT :: int where "HANDSHAKE_TIMEOUT = 10000"

section \<open>Retransmission\<close>

record ritem =
  ri_packet :: packet
  ri_counter :: int
  ri_source :: bytes
  ri_receiver :: int
  ri_id :: int
  ri_type :: int
  ri_next :: int

definition retransmit_delay :: "int \<Rightarrow> int \<Rightarrow> int" where
  "retransmit_delay counter randomValue =
     (let d = GROW_FACTOR * counter + MAX_ATTEMPTS;
          d = d div MAX_ATTEMPTS;
          d = d * RETRANSMIT_TIME;
          d = d + RETRANSMIT_TIME div 2;
          d = randomValue mod d
      in max RETRANSMIT_TIME d)"

definition updateNextRetransmitTime :: "int \<Rightarrow> int \<Rightarrow> ritem \<Rightarrow> ritem" where
  "updateNextRetransmitTime now randomValue it = it\<lparr>ri_next := now + retransmit_delay (ri_counter it) randomValue\<rparr>"

definition new_ritem :: "int \<Rightarrow> packet \<Rightarrow> bytes \<Rightarrow> int \<Rightarrow> ritem" where
  "new_ritem now p source randomValue =
     updateNextRetransmitTime now randomValue
       \<lparr>ri_packet = p, ri_counter = 0, ri_source = source, ri_receiver = pk_receiver p, ri_id = pk_id p,
        ri_type = pk_type p, ri_next = 0\<rparr>"

record 'p retr =
  rt_dupes :: dupes
  rt_map :: "(int \<times> ritem) list"
  rt_size :: int
  rt_node :: "'p node"
  rt_key :: bytes

definition removeHandshakePackets :: "'p retr \<Rightarrow> 'p retr" where
  "removeHandshakePackets r =
     (let m = filter (\<lambda>p. ri_type (snd p) = type_code DATA) (rt_map r) in r\<lparr>rt_map := m, rt_size := int (length m)\<rparr>)"

definition addPacketToMap :: "int \<Rightarrow> int \<Rightarrow> packet \<Rightarrow> bytes \<Rightarrow> 'p retr \<Rightarrow> 'p retr" where
  "addPacketToMap now rnd p source r =
     (let m = um_insert (pk_id p) (new_ritem now p source rnd) (rt_map r) in r\<lparr>rt_map := m, rt_size := int (length m)\<rparr>)"

definition removePacketFromMap :: "int \<Rightarrow> 'p retr \<Rightarrow> 'p retr" where
  "removePacketFromMap i r = (let m = um_erase i (rt_map r) in r\<lparr>rt_map := m, rt_size := int (length m)\<rparr>)"

section \<open>Sessions\<close>

datatype session_state = STATE_HANDSHAKE | STATE_EXCHANGING
datatype handshake_step = STEP_INIT | STEP_WAIT_FOR_WELCOME | STEP_WAIT_FOR_SESSION

record 'p session =
  s_base :: "'p retr"
  s_localNonce :: bytes
  s_remoteNonce :: bytes
  s_queue :: "('p node \<times> bytes) list"
  s_state :: session_state
  s_step :: handshake_step
  s_expires :: int
  s_part1 :: bytes
  s_part2 :: bytes
  s_lastRestart :: int

record 'p sreader =
  r_base :: "'p retr"
  r_localNonce :: bytes
  r_nextNonceTime :: int
  r_remoteNonce :: bytes
  r_part1 :: bytes
  r_part2 :: bytes

definition new_retr :: "'p node \<Rightarrow> bytes \<Rightarrow> 'p retr" where
  "new_retr n key = \<lparr>rt_dupes = no_dupes, rt_map = [], rt_size = 0, rt_node = n, rt_key = key\<rparr>"

definition new_session :: "int \<Rightarrow> 'p node \<Rightarrow> bytes \<Rightarrow> bytes \<Rightarrow> 'p session" where
  "new_session now n key nonce =
     \<lparr>s_base = new_retr n key, s_localNonce = nonce, s_remoteNonce = [], s_queue = [], s_state = STATE_HANDSHAKE,
      s_step = STEP_INIT, s_expires = now - HANDSHAKE_TIMEOUT, s_part1 = [], s_part2 = [], s_lastRestart = now\<rparr>"

definition new_sreader :: "int \<Rightarrow> 'p node \<Rightarrow> bytes \<Rightarrow> 'p sreader" where
  "new_sreader now n key =
     \<lparr>r_base = new_retr n key, r_localNonce = [], r_nextNonceTime = now - HANDSHAKE_TIMEOUT, r_remoteNonce = [],
      r_part1 = [], r_part2 = []\<rparr>"

definition addPayloadToOutputQueue :: "'p node \<Rightarrow> bytes \<Rightarrow> 'p session \<Rightarrow> 'p session" where
  "addPayloadToOutputQueue dest payload s =
     s\<lparr>s_queue := (if MAX_QUEUE_SIZE \<le> int (length (s_queue s)) then tl (s_queue s) else s_queue s) @ [(dest, payload)]\<rparr>"

text \<open>
  The loop of \<open>sendAllFromOutputQueue\<close>: what is taken from the queue, in order, and what stays.
  \<open>i++ > maxOutputs\<close> is tested after each item.
\<close>

fun drain_queue :: "int \<Rightarrow> int \<Rightarrow> ('p node \<times> bytes) list \<Rightarrow> ('p node \<times> bytes) list \<times> ('p node \<times> bytes) list" where
  "drain_queue maxOutputs i [] = ([], [])"
| "drain_queue maxOutputs i (q # qs) =
     (if maxOutputs < i then ([q], qs)
      else case drain_queue maxOutputs (i + 1) qs of (sent, rest) \<Rightarrow> (q # sent, rest))"

definition sendAllFromOutputQueue :: "'p session \<Rightarrow> ('p node \<times> bytes) list \<times> 'p session" where
  "sendAllFromOutputQueue s =
     (if s_state s \<noteq> STATE_HANDSHAKE then
        (case drain_queue (MAX_RETRANSMIT_QUEUE_SIZE - int (length (rt_map (s_base s)))) 0 (s_queue s) of
           (sent, rest) \<Rightarrow> (sent, s\<lparr>s_queue := rest\<rparr>))
      else ([], s))"

definition nullify_item :: "int \<Rightarrow> ritem \<Rightarrow> ritem" where
  "nullify_item now it = it\<lparr>ri_counter := 0, ri_packet := (ri_packet it)\<lparr>pk_payload := []\<rparr>, ri_next := now\<rparr>"

definition startHandshake :: "int \<Rightarrow> 'p session \<Rightarrow> 'p session" where
  "startHandshake now s =
     (if s_lastRestart s + HANDSHAKE_TIMEOUT \<le> now then
        s\<lparr>s_base := removeHandshakePackets ((s_base s)\<lparr>rt_map := map (\<lambda>(k, it). (k, nullify_item now it)) (rt_map (s_base s))\<rparr>),
          s_step := STEP_INIT, s_expires := now - HANDSHAKE_TIMEOUT, s_state := STATE_HANDSHAKE, s_lastRestart := now\<rparr>
      else s)"

end
