(* ===== verification/UdpAdapter.thy ===== *)
theory UdpAdapter
  imports UdpTypes
begin

text \<open>
  \<open>network/UDPAdapter.cpp\<close>: the handlers of the adapter, each a function from the state to a result
  or an exception and the state left behind (an exception keeps what was done before it). The keys
  of the nodes, the random sources and CRC-32 are the parameters \<open>udp_env\<close>: \<open>draw\<close> numbers the
  reads of a random source. \<open>try_catch\<close> hands exceptions to the \<open>catch\<close> clause, undefined behaviour
  goes past it. The clock stands still within a handler; \<open>tick\<close> advances it.
\<close>

record 'p udp_env =
  u_ciphers :: ciphers
  u_keys :: key_parser
  u_crc32 :: "bytes \<Rightarrow> bytes"
  pub_encrypt :: "'p \<Rightarrow> nat \<Rightarrow> bytes \<Rightarrow> udp_exc + bytes"     \<comment> \<open>\<open>PublicKey::encrypt\<close>, randomised\<close>
  pub_verify :: "'p \<Rightarrow> bytes \<Rightarrow> bytes \<Rightarrow> bool"                \<comment> \<open>signature, data\<close>
  own_decrypt :: "bytes \<Rightarrow> udp_exc + bytes"
  own_sign :: "nat \<Rightarrow> bytes \<Rightarrow> bytes"
  sprng :: "nat \<Rightarrow> nat \<Rightarrow> bytes"                              \<comment> \<open>draw, count\<close>
  minstd :: "nat \<Rightarrow> int"

record 'p adapter =
  a_own :: "'p node"
  a_conf :: "'p netconf"
  a_sessions :: "(int \<times> 'p session) list"
  a_readers :: "(int \<times> 'p sreader) list"
  a_candidates :: "(int \<times> 'p sreader) list"
  a_nextId :: int
  a_closed :: bool
  a_test :: bool
  a_throw :: bool
  a_now :: int
  a_draw :: nat
  a_prevClear :: int
  a_sent :: "(bytes \<times> int \<times> bytes) list"      \<comment> \<open>datagrams given to the socket: host, port, data\<close>
  a_received :: "(bytes \<times> int) list"           \<comment> \<open>calls of the receive callback: payload, sender\<close>
  a_tasks :: "(int \<times> bytes) list"              \<comment> \<open>calls of \<open>send\<close> waiting in the sender pool\<close>

section \<open>State and exceptions\<close>

type_synonym ('p, 'a) act = "'p adapter \<Rightarrow> (udp_exc + 'a) \<times> 'p adapter"

definition ret :: "'a \<Rightarrow> ('p, 'a) act" where
  "ret x a = (Inr x, a)"

definition bnd :: "('p, 'a) act \<Rightarrow> ('a \<Rightarrow> ('p, 'b) act) \<Rightarrow> ('p, 'b) act" where
  "bnd m f a = (case m a of (Inl e, a) \<Rightarrow> (Inl e, a) | (Inr x, a) \<Rightarrow> f x a)"

definition sq :: "('p, unit) act \<Rightarrow> ('p, 'b) act \<Rightarrow> ('p, 'b) act" where
  "sq m n = bnd m (\<lambda>_. n)"

definition gets :: "('p adapter \<Rightarrow> 'a) \<Rightarrow> ('p, 'a) act" where
  "gets f a = (Inr (f a), a)"

definition modify :: "('p adapter \<Rightarrow> 'p adapter) \<Rightarrow> ('p, unit) act" where
  "modify f a = (Inr (), f a)"

definition lift :: "udp_exc + 'a \<Rightarrow> ('p, 'a) act" where
  "lift m a = (m, a)"

definition try_catch :: "('p, 'a) act \<Rightarrow> ('p, 'a) act \<Rightarrow> ('p, 'a) act" where
  "try_catch m h a = (case m a of (Inl e, a) \<Rightarrow> if udp_undefined e then (Inl e, a) else h a | (Inr x, a) \<Rightarrow> (Inr x, a))"

definition skip :: "('p, unit) act" where
  "skip = ret ()"

lemmas act_defs = ret_def bnd_def sq_def gets_def modify_def lift_def try_catch_def skip_def

definition writeErr :: "('p, unit) act" where
  "writeErr a = (if a_throw a then (Inl UdpErr, a) else (Inr (), a))"

text \<open>One read of a random source.\<close>

definition next_draw :: "('p, nat) act" where
  "next_draw a = (Inr (a_draw a), a\<lparr>a_draw := a_draw a + 1\<rparr>)"

definition random_bytes :: "'p udp_env \<Rightarrow> nat \<Rightarrow> ('p, bytes) act" where
  "random_bytes E n = bnd next_draw (\<lambda>d. ret (sprng E d n))"

definition random_int :: "'p udp_env \<Rightarrow> ('p, int) act" where
  "random_int E = bnd next_draw (\<lambda>d. ret (minstd E d))"

section \<open>Sessions and readers of the adapter\<close>

text \<open>References into the maps are the keys; an access to a missing key cannot happen in the code.\<close>

datatype party = Sess int | Reader int | Candidate int

definition upd_session :: "int \<Rightarrow> ('p session \<Rightarrow> 'p session) \<Rightarrow> ('p, unit) act" where
  "upd_session i f = modify (\<lambda>a. a\<lparr>a_sessions := um_update i f (a_sessions a)\<rparr>)"

definition upd_candidate :: "int \<Rightarrow> ('p sreader \<Rightarrow> 'p sreader) \<Rightarrow> ('p, unit) act" where
  "upd_candidate i f = modify (\<lambda>a. a\<lparr>a_candidates := um_update i f (a_candidates a)\<rparr>)"

definition upd_reader :: "int \<Rightarrow> ('p sreader \<Rightarrow> 'p sreader) \<Rightarrow> ('p, unit) act" where
  "upd_reader i f = modify (\<lambda>a. a\<lparr>a_readers := um_update i f (a_readers a)\<rparr>)"

fun upd_base :: "party \<Rightarrow> ('p retr \<Rightarrow> 'p retr) \<Rightarrow> ('p, unit) act" where
  "upd_base (Sess i) f = upd_session i (\<lambda>s. s\<lparr>s_base := f (s_base s)\<rparr>)"
| "upd_base (Reader i) f = upd_reader i (\<lambda>r. r\<lparr>r_base := f (r_base r)\<rparr>)"
| "upd_base (Candidate i) f = upd_candidate i (\<lambda>r. r\<lparr>r_base := f (r_base r)\<rparr>)"

definition lookup_or :: "(int \<times> 'v) list \<Rightarrow> int \<Rightarrow> udp_exc + 'v" where
  "lookup_or m i = (case map_of m i of None \<Rightarrow> Inl ReaderNotFound | Some v \<Rightarrow> Inr v)"

definition session_at :: "int \<Rightarrow> ('p, 'p session) act" where
  "session_at i a = (lookup_or (a_sessions a) i, a)"

definition candidate_at :: "int \<Rightarrow> ('p, 'p sreader) act" where
  "candidate_at i a = (lookup_or (a_candidates a) i, a)"

text \<open>\<open>getSessionReader\<close>\<close>

definition getSessionReader :: "int \<Rightarrow> ('p, 'p sreader) act" where
  "getSessionReader i a = (lookup_or (a_readers a) i, a)"

fun base_at :: "party \<Rightarrow> ('p, 'p retr) act" where
  "base_at (Sess i) = bnd (session_at i) (\<lambda>s. ret (s_base s))"
| "base_at (Reader i) = bnd (getSessionReader i) (\<lambda>r. ret (r_base r))"
| "base_at (Candidate i) = bnd (candidate_at i) (\<lambda>r. ret (r_base r))"

definition conf_info :: "int \<Rightarrow> ('p, 'p node) act" where
  "conf_info i a = (getInfo (a_conf a) i, a)"

text \<open>A new session draws its default key and its nonce; a new reader its default key.\<close>

definition getOrCreateSession :: "'p udp_env \<Rightarrow> 'p node \<Rightarrow> ('p, int) act" where
  "getOrCreateSession E n =
     bnd (gets (\<lambda>a. map_of (a_sessions a) (n_number n))) (\<lambda>found.
     if found = None then
       bnd (random_bytes E 32) (\<lambda>key.
       bnd (random_bytes E 64) (\<lambda>nonce.
       sq (modify (\<lambda>a. a\<lparr>a_sessions := um_insert (n_number n) (new_session (a_now a) n key nonce) (a_sessions a)\<rparr>))
          (ret (n_number n))))
     else ret (n_number n))"

definition getOrCreateSessionById :: "'p udp_env \<Rightarrow> int \<Rightarrow> ('p, int) act" where
  "getOrCreateSessionById E i = bnd (conf_info i) (\<lambda>n. getOrCreateSession E n)"

definition getOrCreateCandidate :: "'p udp_env \<Rightarrow> int \<Rightarrow> ('p, int) act" where
  "getOrCreateCandidate E i =
     bnd (conf_info i) (\<lambda>n.
     bnd (gets (\<lambda>a. map_of (a_candidates a) (n_number n))) (\<lambda>found.
     if found = None then
       bnd (random_bytes E 32) (\<lambda>key.
       sq (modify (\<lambda>a. a\<lparr>a_candidates := um_insert (n_number n) (new_sreader (a_now a) n key) (a_candidates a)\<rparr>))
          (ret (n_number n)))
     else ret (n_number n)))"

text \<open>The accepted candidate replaces the reader of its node.\<close>

definition acceptCandidate :: "'p sreader \<Rightarrow> ('p, unit) act" where
  "acceptCandidate r =
     (let i = n_number (rt_node (r_base r)) in
      sq (modify (\<lambda>a. a\<lparr>a_readers := um_erase i (a_readers a)\<rparr>))
      (sq (modify (\<lambda>a. a\<lparr>a_readers := um_insert i r (a_readers a)\<rparr>))
          (modify (\<lambda>a. a\<lparr>a_candidates := um_erase i (a_candidates a)\<rparr>))))"

section \<open>Sending\<close>

definition getNextPacketId :: "('p, int) act" where
  "getNextPacketId a =
     (Inr (a_nextId a), a\<lparr>a_nextId := (if 2147483647 \<le> a_nextId a then 1 else a_nextId a + 1)\<rparr>)"

definition node_host :: "'p node \<Rightarrow> bytes" where
  "node_host n = (if n_hostV6 n = cstr ''null'' then n_host n else n_hostV6 n)"

definition sendPacket :: "'p udp_env \<Rightarrow> 'p node \<Rightarrow> bytes \<Rightarrow> ('p, unit) act" where
  "sendPacket E dest data =
     sq (if MAX_PACKET_SIZE < length data then writeErr else skip)
     (bnd (gets a_test) (\<lambda>test.
      bnd (if test then bnd (random_int E) (\<lambda>v. ret (v mod 1000 < 500)) else ret False) (\<lambda>drop.
      if drop then skip
      else modify (\<lambda>a. a\<lparr>a_sent := a_sent a @ [(node_host dest, n_datagramPort dest, data)]\<rparr>))))"

definition sendPacketTo :: "'p udp_env \<Rightarrow> 'p node \<Rightarrow> packet \<Rightarrow> ('p, unit) act" where
  "sendPacketTo E dest p = bnd (lift (makeByteArray p)) (\<lambda>b. sendPacket E dest b)"

definition remember :: "'p udp_env \<Rightarrow> party \<Rightarrow> packet \<Rightarrow> bytes \<Rightarrow> ('p, unit) act" where
  "remember E w p source = bnd (random_int E) (\<lambda>v. bnd (gets a_now) (\<lambda>now. upd_base w (addPacketToMap now v p source)))"

text \<open>A new packet from this node; \<open>dest\<close> is the receiver.\<close>

definition make_packet :: "'p node \<Rightarrow> ptype \<Rightarrow> bytes \<Rightarrow> ('p, packet) act" where
  "make_packet dest ty payload =
     bnd getNextPacketId (\<lambda>i. bnd (gets a_own) (\<lambda>own. ret (new_packet i (n_number own) (n_number dest) ty payload)))"

definition pub_encrypt_act :: "'p udp_env \<Rightarrow> 'p \<Rightarrow> bytes \<Rightarrow> ('p, bytes) act" where
  "pub_encrypt_act E k m = bnd next_draw (\<lambda>d. lift (pub_encrypt E k d m))"

definition sign_act :: "'p udp_env \<Rightarrow> bytes \<Rightarrow> ('p, bytes) act" where
  "sign_act E m = bnd next_draw (\<lambda>d. ret (own_sign E d m))"

definition eta_encrypt_act :: "'p udp_env \<Rightarrow> bytes \<Rightarrow> bytes \<Rightarrow> ('p, bytes) act" where
  "eta_encrypt_act E key m = bnd (random_bytes E 16) (\<lambda>iv. lift (lift_crypto (etaEncrypt (u_ciphers E) key iv m)))"

definition sendHello :: "'p udp_env \<Rightarrow> int \<Rightarrow> ('p, unit) act" where
  "sendHello E i =
     bnd (session_at i) (\<lambda>s. let n = rt_node (s_base s) in
     bnd (random_bytes E 64) (\<lambda>helloNonce.
     bnd (pub_encrypt_act E (n_key n) helloNonce) (\<lambda>enc.
     bnd (make_packet n HELLO enc) (\<lambda>p.
     sq (sendPacketTo E n p)
        (remember E (Sess i) p helloNonce)))))"

definition sendWelcome :: "'p udp_env \<Rightarrow> int \<Rightarrow> ('p, unit) act" where
  "sendWelcome E i =
     bnd (candidate_at i) (\<lambda>r. let n = rt_node (r_base r) in
     bnd (sign_act E (r_localNonce r)) (\<lambda>sign.
     bnd (lift (bossDumpArray [UBytes (r_localNonce r), UBytes sign])) (\<lambda>payload.
     bnd (make_packet n WELCOME payload) (\<lambda>p.
     sq (sendPacketTo E n p)
     (sq (upd_base (Candidate i) removeHandshakePackets)
         (remember E (Candidate i) p (r_localNonce r)))))))"

definition sendKeyReq :: "'p udp_env \<Rightarrow> int \<Rightarrow> ('p, unit) act" where
  "sendKeyReq E i =
     bnd (random_bytes E 64) (\<lambda>nonce.
     sq (upd_session i (\<lambda>s. s\<lparr>s_localNonce := nonce\<rparr>))
     (bnd (session_at i) (\<lambda>s. let n = rt_node (s_base s) in
      bnd (lift (bossDumpArray [UBytes (s_localNonce s), UBytes (s_remoteNonce s)])) (\<lambda>packed.
      bnd (pub_encrypt_act E (n_key n) packed) (\<lambda>enc.
      bnd (sign_act E enc) (\<lambda>sign.
      sq (upd_session i (\<lambda>s. s\<lparr>s_step := STEP_WAIT_FOR_SESSION, s_part1 := [], s_part2 := []\<rparr>))
      (bnd (make_packet n KEY_REQ_PART1 enc) (\<lambda>p1.
       bnd (make_packet n KEY_REQ_PART2 sign) (\<lambda>p2.
       sq (sendPacketTo E n p1)
       (sq (sendPacketTo E n p2)
       (sq (remember E (Sess i) p1 enc)
           (remember E (Sess i) p2 sign))))))))))))"

definition sendSessionKey :: "'p udp_env \<Rightarrow> int \<Rightarrow> ('p, unit) act" where
  "sendSessionKey E i =
     bnd (getSessionReader i) (\<lambda>r. let n = rt_node (r_base r) in
     bnd (lift (bossDumpArray [UBytes (rt_key (r_base r)), UBytes (r_remoteNonce r)])) (\<lambda>packed.
     bnd (pub_encrypt_act E (n_key n) packed) (\<lambda>enc.
     bnd (sign_act E enc) (\<lambda>sign.
     bnd (make_packet n SESSION_PART1 enc) (\<lambda>p1.
     bnd (make_packet n SESSION_PART2 sign) (\<lambda>p2.
     sq (sendPacketTo E n p1)
     (sq (sendPacketTo E n p2)
     (sq (remember E (Reader i) p1 enc)
         (remember E (Reader i) p2 sign)))))))))"

definition sendSessionAck :: "'p udp_env \<Rightarrow> int \<Rightarrow> ('p, unit) act" where
  "sendSessionAck E i =
     bnd (random_bytes E 32) (\<lambda>payload.
     bnd (session_at i) (\<lambda>s. let n = rt_node (s_base s) in
     bnd getNextPacketId (\<lambda>pid.
     bnd (eta_encrypt_act E (rt_key (s_base s)) payload) (\<lambda>enc.
     bnd (gets a_own) (\<lambda>own.
       sendPacketTo E n (new_packet pid (n_number own) (n_number n) SESSION_ACK enc))))))"

definition sendAck :: "'p udp_env \<Rightarrow> int \<Rightarrow> int \<Rightarrow> ('p, unit) act" where
  "sendAck E i packetId =
     bnd (getSessionReader i) (\<lambda>r. let n = rt_node (r_base r) in
     bnd (lift (lift_boss (serialize (UInt_of packetId)))) (\<lambda>b.
     bnd (eta_encrypt_act E (rt_key (r_base r)) b) (\<lambda>enc.
     bnd (gets a_own) (\<lambda>own.
       sendPacketTo E n (new_packet 0 (n_number own) (n_number n) ACK enc)))))"

definition sendNack :: "'p udp_env \<Rightarrow> int \<Rightarrow> int \<Rightarrow> ('p, unit) act" where
  "sendNack E nodeId packetId =
     bnd (gets (\<lambda>a. conf_find (a_conf a) nodeId)) (\<lambda>known.
     if \<not> known then skip
     else bnd (conf_info nodeId) (\<lambda>dest.
       bnd (random_bytes E 64) (\<lambda>seed.
       bnd (lift (bossDumpArray [UInt_of packetId, UBytes seed])) (\<lambda>data.
       bnd (sign_act E data) (\<lambda>sign.
       bnd (lift (bossDumpArray [UBytes data, UBytes sign])) (\<lambda>payload.
       bnd (gets a_own) (\<lambda>own.
         sendPacketTo E dest (new_packet 0 (n_number own) nodeId NACK payload))))))))"

end
