(* ===== verification/UdpHandlers.thy ===== *)
theory UdpHandlers
  imports UdpAdapter
begin

text \<open>
  The handlers of \<open>network/UDPAdapter.cpp\<close> that receive packets, the timer, and the task that
  \<open>send\<close> puts into the sender pool. The receiver pool and the timer hold \<open>socketMutex_\<close> for a whole
  handler; the sender task is a sequence of critical sections, one step each.
\<close>

section \<open>Retransmission\<close>

text \<open>\<open>preparePayloadForSession\<close>: two random bytes, encrypt, append the CRC-32 of the ciphertext.\<close>

definition preparePayload :: "'p udp_env \<Rightarrow> bytes \<Rightarrow> bytes \<Rightarrow> ('p, bytes) act" where
  "preparePayload E key payload =
     bnd (random_bytes E 2) (\<lambda>chunk.
     bnd (eta_encrypt_act E key (payload @ chunk)) (\<lambda>enc. ret (enc @ u_crc32 E enc)))"

definition upd_item :: "party \<Rightarrow> int \<Rightarrow> (ritem \<Rightarrow> ritem) \<Rightarrow> ('p, unit) act" where
  "upd_item w k f = upd_base w (\<lambda>r. r\<lparr>rt_map := um_update k f (rt_map r)\<rparr>)"

definition item_at :: "party \<Rightarrow> int \<Rightarrow> ('p, ritem) act" where
  "item_at w k = bnd (base_at w) (\<lambda>b. lift (lookup_or (rt_map b) k))"

text \<open>\<open>retransmitCounter++ >= RETRANSMIT_MAX_ATTEMPTS\<close>: whether the item is to be erased.\<close>

definition bump_item :: "party \<Rightarrow> int \<Rightarrow> ('p, bool) act" where
  "bump_item w k =
     bnd (item_at w k) (\<lambda>it.
     sq (upd_item w k (\<lambda>it. it\<lparr>ri_counter := ri_counter it + 1\<rparr>))
        (ret (MAX_ATTEMPTS \<le> ri_counter it)))"

definition pulse_exchanging :: "'p udp_env \<Rightarrow> party \<Rightarrow> int \<Rightarrow> ritem \<Rightarrow> ('p, bool) act" where
  "pulse_exchanging E w k it =
     sq (if ri_type it = type_code DATA then
           sq (if pk_payload (ri_packet it) = [] then
                 bnd (base_at w) (\<lambda>b.
                 bnd (preparePayload E (rt_key b) (ri_source it)) (\<lambda>d.
                   upd_item w k (\<lambda>it. it\<lparr>ri_packet := (ri_packet it)\<lparr>pk_payload := d\<rparr>\<rparr>)))
               else skip)
              (bnd (base_at w) (\<lambda>b. bnd (item_at w k) (\<lambda>it. sendPacketTo E (rt_node b) (ri_packet it))))
         else skip)
        (bump_item w k)"

definition pulse_handshake :: "'p udp_env \<Rightarrow> party \<Rightarrow> int \<Rightarrow> ritem \<Rightarrow> ('p, bool) act" where
  "pulse_handshake E w k it =
     (if ri_type it \<noteq> type_code DATA then
        sq (if pk_payload (ri_packet it) \<noteq> [] then bnd (base_at w) (\<lambda>b. sendPacketTo E (rt_node b) (ri_packet it)) else skip)
           (bump_item w k)
      else ret False)"

definition pulse_item :: "'p udp_env \<Rightarrow> party \<Rightarrow> session_state \<Rightarrow> int \<Rightarrow> ('p, bool) act" where
  "pulse_item E w st k =
     bnd (item_at w k) (\<lambda>it.
     bnd (gets a_now) (\<lambda>now.
     if ri_next it < now then
       bnd (random_int E) (\<lambda>v.
       sq (upd_item w k (updateNextRetransmitTime now v))
          (if st = STATE_EXCHANGING then pulse_exchanging E w k it else pulse_handshake E w k it))
     else ret False))"

fun pulse_items :: "'p udp_env \<Rightarrow> party \<Rightarrow> session_state \<Rightarrow> int list \<Rightarrow> ('p, int list) act" where
  "pulse_items E w st [] = ret []"
| "pulse_items E w st (k # ks) =
     bnd (pulse_item E w st k) (\<lambda>erase.
     bnd (pulse_items E w st ks) (\<lambda>es. ret (if erase then k # es else es)))"

definition erase_items :: "int list \<Rightarrow> 'p retr \<Rightarrow> 'p retr" where
  "erase_items ks r = (let m = fold um_erase ks (rt_map r) in r\<lparr>rt_map := m, rt_size := int (length m)\<rparr>)"

text \<open>\<open>getState\<close> is virtual: a session has its own state, a reader is always in the handshake.\<close>

fun party_state :: "party \<Rightarrow> ('p, session_state) act" where
  "party_state (Sess i) = bnd (session_at i) (\<lambda>s. ret (s_state s))"
| "party_state _ = ret STATE_HANDSHAKE"

definition pulse_party :: "'p udp_env \<Rightarrow> party \<Rightarrow> ('p, unit) act" where
  "pulse_party E w =
     bnd (party_state w) (\<lambda>st.
     bnd (base_at w) (\<lambda>b.
     bnd (pulse_items E w st (map fst (rt_map b))) (\<lambda>es.
       upd_base w (erase_items es))))"

fun for_each :: "('i \<Rightarrow> ('p, unit) act) \<Rightarrow> 'i list \<Rightarrow> ('p, unit) act" where
  "for_each f [] = skip"
| "for_each f (i # is) = sq (f i) (for_each f is)"

text \<open>\<open>send\<close> hands a task to the sender pool.\<close>

definition send :: "int \<Rightarrow> bytes \<Rightarrow> ('p, unit) act" where
  "send dest payload = modify (\<lambda>a. a\<lparr>a_tasks := a_tasks a @ [(dest, payload)]\<rparr>)"

definition drain_session :: "int \<Rightarrow> ('p, unit) act" where
  "drain_session i =
     bnd (session_at i) (\<lambda>s.
     sq (upd_session i (\<lambda>s. snd (sendAllFromOutputQueue s)))
        (for_each (\<lambda>(n, d). send (n_number n) d) (fst (sendAllFromOutputQueue s))))"

definition pulseRetransmit :: "'p udp_env \<Rightarrow> ('p, unit) act" where
  "pulseRetransmit E =
     bnd (gets (\<lambda>a. (map fst (a_sessions a), map fst (a_readers a), map fst (a_candidates a)))) (\<lambda>(ss, rs, cs).
     sq (for_each (\<lambda>i. pulse_party E (Sess i)) ss)
     (sq (for_each (\<lambda>i. pulse_party E (Reader i)) rs)
     (sq (for_each (\<lambda>i. pulse_party E (Candidate i)) cs)
         (for_each drain_session ss))))"

section \<open>The handshake of a session\<close>

definition restartSession :: "'p udp_env \<Rightarrow> int \<Rightarrow> int \<Rightarrow> ('p, unit) act" where
  "restartSession E i now =
     bnd (session_at i) (\<lambda>s.
     if s_state s = STATE_HANDSHAKE \<and> s_expires s < now then
       sq (upd_session i (\<lambda>s. s\<lparr>s_step := STEP_WAIT_FOR_WELCOME, s_expires := now + HANDSHAKE_TIMEOUT\<rparr>))
          (sendHello E i)
     else skip)"

definition restartHandshakeIfNeeded :: "'p udp_env \<Rightarrow> ('p, unit) act" where
  "restartHandshakeIfNeeded E =
     bnd (gets a_now) (\<lambda>now. bnd (gets (\<lambda>a. map fst (a_sessions a))) (\<lambda>ss. for_each (\<lambda>i. restartSession E i now) ss))"

text \<open>\<open>protectFromDuples\<close> of a party, and \<open>removeHandshakePacketsFromRetransmitMap\<close>.\<close>

definition is_new :: "party \<Rightarrow> int \<Rightarrow> ('p, bool) act" where
  "is_new w pid =
     bnd (base_at w) (\<lambda>b.
     sq (upd_base w (\<lambda>b. b\<lparr>rt_dupes := snd (protectFromDuples pid (rt_dupes b))\<rparr>))
        (ret (fst (protectFromDuples pid (rt_dupes b)))))"

definition guarded :: "bool \<Rightarrow> ('p, unit) act \<Rightarrow> ('p, unit) act" where
  "guarded c m = (if c then m else skip)"

definition onReceiveHello :: "'p udp_env \<Rightarrow> packet \<Rightarrow> ('p, unit) act" where
  "onReceiveHello E p =
     bnd (conf_info (pk_sender p)) (\<lambda>_.
     bnd (getOrCreateCandidate E (pk_sender p)) (\<lambda>i.
     bnd (is_new (Candidate i) (pk_id p)) (\<lambda>ok.
     guarded ok
       (bnd (candidate_at i) (\<lambda>r. bnd (gets a_now) (\<lambda>now.
        sq (guarded (r_nextNonceTime r < now)
              (bnd (random_bytes E 64) (\<lambda>nonce.
                 upd_candidate i (\<lambda>r. r\<lparr>r_localNonce := nonce, r_nextNonceTime := now + HANDSHAKE_TIMEOUT\<rparr>))))
        (sq (upd_candidate i (\<lambda>r. r\<lparr>r_part1 := [], r_part2 := []\<rparr>))
            (sendWelcome E i))))))))"

definition onReceiveWelcome :: "'p udp_env \<Rightarrow> packet \<Rightarrow> ('p, unit) act" where
  "onReceiveWelcome E p =
     bnd (conf_info (pk_sender p)) (\<lambda>n.
     bnd (getOrCreateSession E n) (\<lambda>i.
     bnd (is_new (Sess i) (pk_id p)) (\<lambda>ok.
     bnd (session_at i) (\<lambda>s.
     guarded (ok \<and> s_state s = STATE_HANDSHAKE \<and> s_step s = STEP_WAIT_FOR_WELCOME)
       (try_catch
          (bnd (lift (bossLoadArray (u_keys E) (pk_payload p))) (\<lambda>xs.
           bnd (lift (bytes_at xs 0)) (\<lambda>remoteNonce.
           bnd (lift (bytes_at xs 1)) (\<lambda>sign.
           guarded (pub_verify E (n_key (rt_node (s_base s))) sign remoteNonce)
             (sq (upd_base (Sess i) removeHandshakePackets)
             (sq (upd_session i (\<lambda>s. s\<lparr>s_remoteNonce := remoteNonce\<rparr>))
                 (sendKeyReq E i)))))))
          writeErr)))))"

definition onReceiveKeyReq :: "'p udp_env \<Rightarrow> int \<Rightarrow> ('p, unit) act" where
  "onReceiveKeyReq E i =
     bnd (candidate_at i) (\<lambda>r.
     guarded (r_part1 r \<noteq> [] \<and> r_part2 r \<noteq> [])
       (try_catch
          (bnd (lift (res_bind (own_decrypt E (r_part1 r)) (bossLoadArray (u_keys E)))) (\<lambda>xs.
           bnd (lift (bytes_at xs 0)) (\<lambda>senderNonce.
           bnd (lift (bytes_at xs 1)) (\<lambda>remoteNonce.
           guarded (remoteNonce = r_localNonce r)
             (if pub_verify E (n_key (rt_node (r_base r))) (r_part2 r) (r_part1 r) then
                sq (upd_candidate i (\<lambda>r. r\<lparr>r_remoteNonce := senderNonce\<rparr>))
                (bnd (random_bytes E 32) (\<lambda>key.
                 sq (upd_base (Candidate i) (\<lambda>b. b\<lparr>rt_key := key\<rparr>))
                 (bnd (candidate_at i) (\<lambda>r.
                  sq (acceptCandidate r)
                     (sendSessionKey E (n_number (rt_node (r_base r))))))))
              else writeErr)))))
          writeErr))"

definition onReceiveKeyReqPart1 :: "'p udp_env \<Rightarrow> packet \<Rightarrow> ('p, unit) act" where
  "onReceiveKeyReqPart1 E p =
     bnd (getOrCreateCandidate E (pk_sender p)) (\<lambda>i.
     bnd (is_new (Candidate i) (pk_id p)) (\<lambda>ok.
     guarded ok
       (sq (upd_base (Candidate i) removeHandshakePackets)
       (sq (upd_candidate i (\<lambda>r. r\<lparr>r_part1 := pk_payload p\<rparr>))
           (onReceiveKeyReq E i)))))"

definition onReceiveKeyReqPart2 :: "'p udp_env \<Rightarrow> packet \<Rightarrow> ('p, unit) act" where
  "onReceiveKeyReqPart2 E p =
     bnd (getOrCreateCandidate E (pk_sender p)) (\<lambda>i.
     bnd (is_new (Candidate i) (pk_id p)) (\<lambda>ok.
     guarded ok
       (sq (upd_base (Candidate i) removeHandshakePackets)
       (sq (upd_candidate i (\<lambda>r. r\<lparr>r_part2 := pk_payload p\<rparr>))
           (onReceiveKeyReq E i)))))"

text \<open>The acknowledgement is sent before the new session key is installed.\<close>

definition onReceiveSession :: "'p udp_env \<Rightarrow> int \<Rightarrow> ('p, unit) act" where
  "onReceiveSession E i =
     bnd (session_at i) (\<lambda>s.
     guarded (s_part1 s \<noteq> [] \<and> s_part2 s \<noteq> [])
       (if pub_verify E (n_key (rt_node (s_base s))) (s_part2 s) (s_part1 s) then
          try_catch
            (bnd (lift (res_bind (own_decrypt E (s_part1 s)) (bossLoadArray (u_keys E)))) (\<lambda>xs.
             bnd (lift (bytes_at xs 0)) (\<lambda>key.
             bnd (lift (bytes_at xs 1)) (\<lambda>nonce.
             guarded (nonce = s_localNonce s)
               (sq (sendSessionAck E i)
               (sq (upd_base (Sess i) (\<lambda>b. b\<lparr>rt_key := key\<rparr>))
               (sq (upd_session i (\<lambda>s. s\<lparr>s_state := STATE_EXCHANGING\<rparr>))
                   (pulse_party E (Sess i)))))))))
            writeErr
        else writeErr))"

definition onReceiveSessionPart1 :: "'p udp_env \<Rightarrow> packet \<Rightarrow> ('p, unit) act" where
  "onReceiveSessionPart1 E p =
     bnd (conf_info (pk_sender p)) (\<lambda>n.
     bnd (getOrCreateSession E n) (\<lambda>i.
     bnd (is_new (Sess i) (pk_id p)) (\<lambda>ok.
     guarded ok
       (sq (upd_base (Sess i) removeHandshakePackets)
       (bnd (session_at i) (\<lambda>s.
        guarded (s_state s = STATE_HANDSHAKE \<and> s_step s = STEP_WAIT_FOR_SESSION)
          (sq (upd_session i (\<lambda>s. s\<lparr>s_part1 := pk_payload p\<rparr>)) (onReceiveSession E i))))))))"

definition onReceiveSessionPart2 :: "'p udp_env \<Rightarrow> packet \<Rightarrow> ('p, unit) act" where
  "onReceiveSessionPart2 E p =
     bnd (conf_info (pk_sender p)) (\<lambda>n.
     bnd (getOrCreateSession E n) (\<lambda>i.
     bnd (is_new (Sess i) (pk_id p)) (\<lambda>ok.
     guarded ok
       (sq (upd_base (Sess i) removeHandshakePackets)
       (bnd (session_at i) (\<lambda>s.
        guarded (s_state s = STATE_HANDSHAKE \<and> s_step s = STEP_WAIT_FOR_SESSION)
          (sq (upd_session i (\<lambda>s. s\<lparr>s_part2 := pk_payload p\<rparr>)) (onReceiveSession E i))))))))"

definition onReceiveSessionAck :: "packet \<Rightarrow> ('p, unit) act" where
  "onReceiveSessionAck p =
     try_catch (bnd (getSessionReader (pk_sender p)) (\<lambda>_. upd_base (Reader (pk_sender p)) removeHandshakePackets)) writeErr"

section \<open>Data\<close>

definition accept_data :: "'p udp_env \<Rightarrow> packet \<Rightarrow> bytes \<Rightarrow> ('p, unit) act" where
  "accept_data E p encrypted =
     (let i = pk_sender p in
      bnd (getSessionReader i) (\<lambda>r.
      try_catch
        (bnd (lift (lift_crypto (etaDecrypt (u_ciphers E) (rt_key (r_base r)) encrypted))) (\<lambda>dec.
         if 2 < length dec then
           sq (sendAck E i (pk_id p))
           (bnd (is_new (Reader i) (pk_id p)) (\<lambda>ok.
            guarded ok (modify (\<lambda>a. a\<lparr>a_received := a_received a @ [(take (length dec - 2) dec, n_number (rt_node (r_base r)))]\<rparr>))))
         else sq writeErr (sendNack E i (pk_id p))))
        (sq writeErr (sendNack E i (pk_id p)))))"

definition onReceiveData :: "'p udp_env \<Rightarrow> packet \<Rightarrow> ('p, unit) act" where
  "onReceiveData E p =
     (let payload = pk_payload p; n = length payload in
      if n \<le> 4 then writeErr
      else let crc = drop (n - 4) payload; encrypted = take (n - 4) payload in
        bnd (gets (\<lambda>a. map_of (a_readers a) (pk_sender p))) (\<lambda>found.
        if found = None then sendNack E (pk_sender p) (pk_id p)
        else if crc = u_crc32 E encrypted then accept_data E p encrypted
        else writeErr))"

definition onReceiveAck :: "'p udp_env \<Rightarrow> packet \<Rightarrow> ('p, unit) act" where
  "onReceiveAck E p =
     bnd (conf_info (pk_sender p)) (\<lambda>n.
     bnd (getOrCreateSession E n) (\<lambda>i.
     bnd (session_at i) (\<lambda>s.
     guarded (s_state s = STATE_EXCHANGING)
       (try_catch
          (bnd (lift (lift_crypto (etaDecrypt (u_ciphers E) (rt_key (s_base s)) (pk_payload p)))) (\<lambda>dec.
           bnd (lift (lift_boss (res_bind (deserialize (u_keys E) dec) int_asInstance))) (\<lambda>w.
             upd_base (Sess i) (removePacketFromMap (int32 w)))))
          writeErr))))"

definition onReceiveNack :: "'p udp_env \<Rightarrow> packet \<Rightarrow> ('p, unit) act" where
  "onReceiveNack E p =
     bnd (conf_info (pk_sender p)) (\<lambda>n.
     bnd (getOrCreateSession E n) (\<lambda>i.
     bnd (session_at i) (\<lambda>s.
     guarded (s_state s = STATE_EXCHANGING)
       (try_catch
          (bnd (lift (bossLoadArray (u_keys E) (pk_payload p))) (\<lambda>xs.
           bnd (lift (bytes_at xs 0)) (\<lambda>data.
           bnd (lift (bytes_at xs 1)) (\<lambda>sign.
           guarded (pub_verify E (n_key (rt_node (s_base s))) sign data)
             (bnd (lift (bossLoadArray (u_keys E) data)) (\<lambda>ys.
              bnd (lift (int_at ys 0)) (\<lambda>pid.
              guarded (map_of (rt_map (s_base s)) pid \<noteq> None)
                (bnd (gets a_now) (\<lambda>now.
                 sq (upd_session i (startHandshake now))
                    (restartSession E i now))))))))))
          skip))))"

text \<open>The \<open>switch\<close> of \<open>onReceive\<close>.\<close>

definition dispatch_packet :: "'p udp_env \<Rightarrow> packet \<Rightarrow> ('p, unit) act" where
  "dispatch_packet E p =
     (let t = pk_type p in
      if t = type_code HELLO then onReceiveHello E p
      else if t = type_code WELCOME then onReceiveWelcome E p
      else if t = type_code KEY_REQ_PART1 then onReceiveKeyReqPart1 E p
      else if t = type_code KEY_REQ_PART2 then onReceiveKeyReqPart2 E p
      else if t = type_code SESSION_PART1 then onReceiveSessionPart1 E p
      else if t = type_code SESSION_PART2 then onReceiveSessionPart2 E p
      else if t = type_code SESSION_ACK then onReceiveSessionAck p
      else if t = type_code DATA then onReceiveData E p
      else if t = type_code ACK then onReceiveAck E p
      else if t = type_code NACK then onReceiveNack E p
      else writeErr)"

definition onReceive :: "'p udp_env \<Rightarrow> bytes \<Rightarrow> ('p, unit) act" where
  "onReceive E data =
     bnd (gets a_closed) (\<lambda>closed.
     if closed then skip
     else try_catch (bnd (lift (parse_packet (u_keys E) data)) (dispatch_packet E)) writeErr)"

section \<open>The timer\<close>

definition clearBuffers :: "('p, unit) act" where
  "clearBuffers = modify (\<lambda>a. a\<lparr>
     a_readers := map (\<lambda>(i, r). (i, r\<lparr>r_base := (r_base r)\<lparr>rt_dupes := clearOldestBuffer (rt_dupes (r_base r))\<rparr>\<rparr>)) (a_readers a),
     a_candidates := map (\<lambda>(i, r). (i, r\<lparr>r_base := (r_base r)\<lparr>rt_dupes := clearOldestBuffer (rt_dupes (r_base r))\<rparr>\<rparr>)) (a_candidates a),
     a_sessions := map (\<lambda>(i, s). (i, s\<lparr>s_base := (s_base s)\<lparr>rt_dupes := clearOldestBuffer (rt_dupes (s_base s))\<rparr>\<rparr>)) (a_sessions a)\<rparr>)"

definition dupleProtectionPeriod :: int where
  "dupleProtectionPeriod = 2 * GROW_FACTOR * RETRANSMIT_TIME * MAX_ATTEMPTS"

definition on_timer :: "'p udp_env \<Rightarrow> ('p, unit) act" where
  "on_timer E =
     sq (restartHandshakeIfNeeded E)
     (sq (pulseRetransmit E)
     (bnd (gets (\<lambda>a. a_now a - a_prevClear a)) (\<lambda>d.
      guarded (dupleProtectionPeriod \<le> d)
        (sq clearBuffers (modify (\<lambda>a. a\<lparr>a_prevClear := a_now a\<rparr>))))))"

section \<open>The sender pool\<close>

datatype task =
    T_start int bytes
  | T_found int bytes
  | T_state int bytes session_state
  | T_now int bytes
  | T_packet int bytes packet
  | T_done

text \<open>\<open>sendPayload\<close>: the packet is made before the mutex is taken, and sent under it.\<close>

definition payload_packet :: "'p udp_env \<Rightarrow> int \<Rightarrow> bytes \<Rightarrow> ('p, packet) act" where
  "payload_packet E i payload =
     bnd (session_at i) (\<lambda>s.
     bnd (preparePayload E (rt_key (s_base s)) payload) (\<lambda>d.
       make_packet (rt_node (s_base s)) DATA d))"

definition payload_send :: "'p udp_env \<Rightarrow> int \<Rightarrow> bytes \<Rightarrow> packet \<Rightarrow> ('p, unit) act" where
  "payload_send E i payload p =
     bnd (session_at i) (\<lambda>s.
     sq (sendPacketTo E (rt_node (s_base s)) p)
        (remember E (Sess i) p payload))"

fun sender_step :: "'p udp_env \<Rightarrow> task \<Rightarrow> ('p, task) act" where
  "sender_step E (T_start dest payload) = bnd (getOrCreateSessionById E dest) (\<lambda>i. ret (T_found i payload))"
| "sender_step E (T_found i payload) =
     bnd (gets a_closed) (\<lambda>closed.
     if closed then ret T_done else bnd (session_at i) (\<lambda>s. ret (T_state i payload (s_state s))))"
| "sender_step E (T_state i payload STATE_HANDSHAKE) =
     sq (upd_session i (\<lambda>s. addPayloadToOutputQueue (rt_node (s_base s)) payload s)) (ret T_done)"
| "sender_step E (T_state i payload STATE_EXCHANGING) =
     bnd (session_at i) (\<lambda>s.
     if MAX_RETRANSMIT_QUEUE_SIZE < rt_size (s_base s)
     then sq (upd_session i (\<lambda>s. addPayloadToOutputQueue (rt_node (s_base s)) payload s)) (ret T_done)
     else sq (upd_base (Sess i) (\<lambda>b. b\<lparr>rt_size := rt_size b + 1\<rparr>)) (ret (T_now i payload)))"
| "sender_step E (T_now i payload) = bnd (payload_packet E i payload) (\<lambda>p. ret (T_packet i payload p))"
| "sender_step E (T_packet i payload p) = sq (payload_send E i payload p) (ret T_done)"
| "sender_step E T_done = ret T_done"

text \<open>The task run without interruption: five steps are enough.\<close>

fun run_task :: "nat \<Rightarrow> 'p udp_env \<Rightarrow> task \<Rightarrow> ('p, task) act" where
  "run_task 0 E t = ret t"
| "run_task (Suc k) E t = bnd (sender_step E t) (\<lambda>t. run_task k E t)"

text \<open>The constructor: the first packet number is random.\<close>

definition new_adapter :: "'p udp_env \<Rightarrow> 'p netconf \<Rightarrow> int \<Rightarrow> int \<Rightarrow> bool \<Rightarrow> udp_exc + 'p adapter" where
  "new_adapter E conf own now throw =
     res_bind (getInfo conf own) (\<lambda>n. Inr
       \<lparr>a_own = n, a_conf = conf, a_sessions = [], a_readers = [], a_candidates = [], a_nextId = minstd E 0,
        a_closed = False, a_test = False, a_throw = throw, a_now = now, a_draw = 1, a_prevClear = now,
        a_sent = [], a_received = [], a_tasks = []\<rparr>)"

definition close_adapter :: "('p, unit) act" where
  "close_adapter = modify (\<lambda>a. a\<lparr>a_closed := True\<rparr>)"

end
