(* ===== verification/UdpFrame.thy ===== *)
theory UdpFrame
  imports UdpHandlers
begin

text \<open>
  What every handler of the adapter leaves alone or keeps. A predicate on the state that survives
  the elementary changes a handler is made of (the assumptions of the locales below) survives every
  handler; each use of the locale names the changes it allows.
\<close>

definition keeps :: "('p adapter \<Rightarrow> bool) \<Rightarrow> ('p, 'a) act \<Rightarrow> bool" where
  "keeps P m = (\<forall>a. P a \<longrightarrow> P (snd (m a)))"

named_theorems keeps_rules \<open>preservation, one rule per operation\<close>

lemma keepsD: "keeps P m \<Longrightarrow> P a \<Longrightarrow> P (snd (m a))"
  by (simp add: keeps_def)

lemma keeps_result: "keeps P m \<Longrightarrow> P a \<Longrightarrow> m a = (r, a') \<Longrightarrow> P a'"
  by (metis keepsD snd_conv)

lemma bnd_run: "m a = (Inr x, b) \<Longrightarrow> bnd m f a = f x b"
  by (simp add: bnd_def)

lemma sq_run: "m a = (Inr (), b) \<Longrightarrow> sq m n a = n b"
  by (simp add: sq_def bnd_def)

lemma lift_run: "m = Inr x \<Longrightarrow> bnd (lift m) f a = f x a"
  by (simp add: bnd_def lift_def)

lemma session_at_run: "map_of (a_sessions a) i = Some s \<Longrightarrow> bnd (session_at i) f a = f s a"
  by (simp add: session_at_def lookup_or_def bnd_def)

lemma candidate_at_run: "map_of (a_candidates a) i = Some r \<Longrightarrow> bnd (candidate_at i) f a = f r a"
  by (simp add: candidate_at_def lookup_or_def bnd_def)

lemma conf_info_run: "getInfo (a_conf a) i = Inr n \<Longrightarrow> bnd (conf_info i) f a = f n a"
  by (simp add: conf_info_def bnd_def)

lemma keeps_bnd [keeps_rules]: "keeps P m \<Longrightarrow> (\<And>x. keeps P (f x)) \<Longrightarrow> keeps P (bnd m f)"
  unfolding keeps_def bnd_def by (auto split: prod.splits sum.splits)

lemma keeps_bnd_post:
  assumes "keeps P m" "\<And>a x a'. P a \<Longrightarrow> m a = (Inr x, a') \<Longrightarrow> Q x" "\<And>x. Q x \<Longrightarrow> keeps P (f x)"
  shows "keeps P (bnd m f)"
  unfolding keeps_def
proof (intro allI impI)
  fix a assume a: "P a"
  show "P (snd (bnd m f a))"
  proof (cases "m a")
    case (Pair r a')
    then have "P a'" using keeps_result [OF assms(1) a] by blast
    then show ?thesis using Pair assms(2) [OF a] assms(3) by (cases r) (auto simp: bnd_def keeps_def)
  qed
qed

lemma keeps_sq [keeps_rules]: "keeps P m \<Longrightarrow> keeps P n \<Longrightarrow> keeps P (sq m n)"
  unfolding sq_def by (rule keeps_bnd)

lemma keeps_try [keeps_rules]: "keeps P m \<Longrightarrow> keeps P h \<Longrightarrow> keeps P (try_catch m h)"
  unfolding keeps_def try_catch_def by (auto split: prod.splits sum.splits)

lemma keeps_pure [keeps_rules]: "keeps P (ret x)" "keeps P skip" "keeps P (gets f)" "keeps P (lift m)" "keeps P writeErr"
  "keeps P (conf_info i)" "keeps P (session_at i)" "keeps P (candidate_at i)" "keeps P (getSessionReader i)"
  by (simp_all add: keeps_def act_defs writeErr_def conf_info_def session_at_def candidate_at_def getSessionReader_def)

lemma keeps_base_at [keeps_rules]: "keeps P (base_at w)"
  by (cases w) (auto intro!: keeps_rules)

lemma keeps_item_at [keeps_rules]: "keeps P (item_at w k)"
  unfolding item_at_def by (intro keeps_rules)

lemma keeps_modify: "(\<And>a. P a \<Longrightarrow> P (f a)) \<Longrightarrow> keeps P (modify f)"
  by (simp add: keeps_def modify_def)

lemma keeps_if [keeps_rules]: "keeps P m \<Longrightarrow> keeps P n \<Longrightarrow> keeps P (if c then m else n)"
  by simp

lemma keeps_guarded [keeps_rules]: "keeps P m \<Longrightarrow> keeps P (guarded c m)"
  by (simp add: guarded_def keeps_rules)

lemma keeps_for_each [keeps_rules]: "(\<And>i. keeps P (f i)) \<Longrightarrow> keeps P (for_each f is)"
  by (induction "is") (auto intro!: keeps_rules)

lemma keeps_Let [keeps_rules]: "(\<And>x. keeps P (f x)) \<Longrightarrow> keeps P (Let x f)"
  by simp

section \<open>Predicates that survive sending\<close>

locale send_frame =
  fixes P :: "'p adapter \<Rightarrow> bool"
  assumes P_draw: "P a \<Longrightarrow> P (a\<lparr>a_draw := d\<rparr>)"
    and P_sent: "P a \<Longrightarrow> P (a\<lparr>a_sent := ds\<rparr>)"
    and P_next: "P a \<Longrightarrow> P (a\<lparr>a_nextId := (if 2147483647 \<le> a_nextId a then 1 else a_nextId a + 1)\<rparr>)"
begin

lemma keeps_next_draw: "keeps P next_draw"
  by (simp add: keeps_def next_draw_def P_draw)

lemma keeps_random: "keeps P (random_bytes E n)" "keeps P (random_int E)"
  unfolding random_bytes_def random_int_def by (intro keeps_rules keeps_next_draw)+

lemma keeps_next_id: "keeps P getNextPacketId"
  unfolding keeps_def getNextPacketId_def using P_next by simp

lemma keeps_sendPacket: "keeps P (sendPacket E n d)"
  unfolding sendPacket_def by (intro keeps_rules keeps_random keeps_modify P_sent)

lemmas keeps_basic = keeps_next_draw keeps_random keeps_next_id keeps_sendPacket

lemma keeps_sendPacketTo: "keeps P (sendPacketTo E n p)"
  unfolding sendPacketTo_def by (intro keeps_rules keeps_basic)

lemma keeps_make: "keeps P (make_packet n ty b)" "keeps P (pub_encrypt_act E k m)" "keeps P (sign_act E m)"
    "keeps P (eta_encrypt_act E key m)" "keeps P (preparePayload E key m)"
  unfolding make_packet_def pub_encrypt_act_def sign_act_def eta_encrypt_act_def preparePayload_def
  by (intro keeps_rules keeps_basic)+

lemmas keeps_send = keeps_basic keeps_sendPacketTo keeps_make

lemma keeps_sendAck: "keeps P (sendAck E i pid)"
  unfolding sendAck_def by (intro keeps_rules keeps_send)

lemma keeps_sendNack: "keeps P (sendNack E i pid)"
  unfolding sendNack_def by (intro keeps_rules keeps_send)

lemma keeps_sendSessionAck: "keeps P (sendSessionAck E i)"
  unfolding sendSessionAck_def by (intro keeps_rules keeps_send)

end

section \<open>Predicates that survive the handlers\<close>

locale core_frame = send_frame P for P :: "'p adapter \<Rightarrow> bool" +
  fixes GS :: "('p session \<Rightarrow> 'p session) \<Rightarrow> bool" and GR :: "('p sreader \<Rightarrow> 'p sreader) \<Rightarrow> bool"
    and GB :: "('p retr \<Rightarrow> 'p retr) \<Rightarrow> bool"
  assumes P_sessions: "P a \<Longrightarrow> GS f \<Longrightarrow> P (a\<lparr>a_sessions := um_update i f (a_sessions a)\<rparr>)"
    and P_readers: "P a \<Longrightarrow> GR g \<Longrightarrow> P (a\<lparr>a_readers := um_update i g (a_readers a)\<rparr>)"
    and P_candidates: "P a \<Longrightarrow> GR g \<Longrightarrow> P (a\<lparr>a_candidates := um_update i g (a_candidates a)\<rparr>)"
    and P_new_session: "P a \<Longrightarrow> P (a\<lparr>a_sessions := um_insert (n_number n) (new_session (a_now a) n key nonce) (a_sessions a)\<rparr>)"
    and P_new_candidate: "P a \<Longrightarrow> P (a\<lparr>a_candidates := um_insert (n_number n) (new_sreader (a_now a) n key) (a_candidates a)\<rparr>)"
    and GS_base: "GB h \<Longrightarrow> GS (\<lambda>s. s\<lparr>s_base := h (s_base s)\<rparr>)"
    and GR_base: "GB h \<Longrightarrow> GR (\<lambda>r. r\<lparr>r_base := h (r_base r)\<rparr>)"
    and GS_fields: "(\<And>s. s_base (f s) = s_base s \<and> s_queue (f s) = s_queue s \<and> s_state (f s) = s_state s) \<Longrightarrow> GS f"
    and GR_fields: "(\<And>r. r_base (g r) = r_base r) \<Longrightarrow> GR g"
    and GB_map: "GB (addPacketToMap now v p src)" "GB removeHandshakePackets" "GB (removePacketFromMap pid)"
      "GB (erase_items ks)"
    and GB_item: "(\<And>it. ri_id (u it) = ri_id it \<and> pk_id (ri_packet (u it)) = pk_id (ri_packet it)) \<Longrightarrow>
      GB (\<lambda>b. b\<lparr>rt_map := um_update k u (rt_map b)\<rparr>)"
    and GB_dupes: "GB (\<lambda>b. b\<lparr>rt_dupes := snd (protectFromDuples pid (rt_dupes b))\<rparr>)"
begin

lemma keeps_upd_session: "GS f \<Longrightarrow> keeps P (upd_session i f)"
  unfolding upd_session_def by (rule keeps_modify) (rule P_sessions)

lemma keeps_upd_candidate: "GR g \<Longrightarrow> keeps P (upd_candidate i g)"
  unfolding upd_candidate_def by (rule keeps_modify) (rule P_candidates)

lemma keeps_upd_base: "GB h \<Longrightarrow> keeps P (upd_base w h)"
  by (cases w) (auto intro: keeps_upd_session keeps_upd_candidate GS_base GR_base keeps_modify P_readers simp: upd_reader_def)

lemma keeps_session_fields: "(\<And>s. s_base (f s) = s_base s \<and> s_queue (f s) = s_queue s \<and> s_state (f s) = s_state s) \<Longrightarrow> keeps P (upd_session i f)"
  by (intro keeps_upd_session GS_fields)

lemma keeps_candidate_fields: "(\<And>r. r_base (g r) = r_base r) \<Longrightarrow> keeps P (upd_candidate i g)"
  by (intro keeps_upd_candidate GR_fields)

lemma keeps_upd_map: "keeps P (upd_base w removeHandshakePackets)" "keeps P (upd_base w (removePacketFromMap pid))"
    "keeps P (upd_base w (erase_items ks))" "keeps P (upd_base w (\<lambda>b. b\<lparr>rt_dupes := snd (protectFromDuples pid (rt_dupes b))\<rparr>))"
    "keeps P (upd_base w (addPacketToMap now v p src))"
  by (intro keeps_upd_base GB_map GB_dupes)+

lemma keeps_upd_item:
  "(\<And>it. ri_id (u it) = ri_id it \<and> pk_id (ri_packet (u it)) = pk_id (ri_packet it)) \<Longrightarrow> keeps P (upd_item w k u)"
  unfolding upd_item_def by (intro keeps_upd_base GB_item)

lemma keeps_remember: "keeps P (remember E w p src)"
  unfolding remember_def by (intro keeps_rules keeps_send keeps_upd_map)

lemmas keeps_ops = keeps_rules keeps_send keeps_upd_map keeps_remember

lemma keeps_is_new: "keeps P (is_new w pid)"
  unfolding is_new_def by (simp add: case_prod_unfold keeps_ops)

lemma keeps_getOrCreateSession: "keeps P (getOrCreateSession E n)"
  unfolding getOrCreateSession_def by (intro keeps_ops keeps_modify P_new_session)

lemma keeps_getOrCreateCandidate: "keeps P (getOrCreateCandidate E i)"
  unfolding getOrCreateCandidate_def by (intro keeps_ops keeps_modify P_new_candidate)

lemma keeps_sendHello: "keeps P (sendHello E i)"
  unfolding sendHello_def by (intro keeps_ops)

lemma keeps_sendWelcome: "keeps P (sendWelcome E i)"
  unfolding sendWelcome_def by (intro keeps_ops)

lemma keeps_sendKeyReq: "keeps P (sendKeyReq E i)"
  unfolding sendKeyReq_def by (intro keeps_ops keeps_session_fields) simp_all

lemma keeps_sendSessionKey: "keeps P (sendSessionKey E i)"
  unfolding sendSessionKey_def by (intro keeps_ops)

lemmas keeps_steps = keeps_ops keeps_is_new keeps_getOrCreateSession keeps_getOrCreateCandidate keeps_sendHello
  keeps_sendWelcome keeps_sendKeyReq keeps_sendSessionKey keeps_sendSessionAck keeps_sendAck keeps_sendNack

lemma keeps_pulse_item: "keeps P (pulse_item E w st k)"
  unfolding pulse_item_def pulse_exchanging_def pulse_handshake_def bump_item_def
  by (intro keeps_steps keeps_upd_item) (simp_all add: updateNextRetransmitTime_def)

lemma keeps_pulse_items: "keeps P (pulse_items E w st ks)"
  by (induction ks) (auto intro!: keeps_steps keeps_pulse_item)

lemma keeps_party_state: "keeps P (party_state w)"
  by (cases w) (auto intro!: keeps_steps)

lemma keeps_pulse_party: "keeps P (pulse_party E w)"
  unfolding pulse_party_def by (intro keeps_steps keeps_pulse_items keeps_party_state)

lemma keeps_restartSession: "keeps P (restartSession E i now)"
  unfolding restartSession_def by (intro keeps_steps keeps_session_fields) simp

lemma keeps_onReceiveHello: "keeps P (onReceiveHello E p)"
  unfolding onReceiveHello_def by (intro keeps_steps keeps_candidate_fields) simp_all

lemma keeps_onReceiveWelcome: "keeps P (onReceiveWelcome E p)"
  unfolding onReceiveWelcome_def by (intro keeps_steps keeps_session_fields) simp

lemma keeps_onReceiveSessionAck: "keeps P (onReceiveSessionAck p)"
  unfolding onReceiveSessionAck_def by (intro keeps_steps)

lemma keeps_onReceiveAck: "keeps P (onReceiveAck E p)"
  unfolding onReceiveAck_def by (intro keeps_steps)

end

text \<open>The handler that takes a session back to the handshake.\<close>

locale nack_frame = core_frame P GS GR GB
  for P :: "'p adapter \<Rightarrow> bool" and GS :: "('p session \<Rightarrow> 'p session) \<Rightarrow> bool"
    and GR :: "('p sreader \<Rightarrow> 'p sreader) \<Rightarrow> bool" and GB :: "('p retr \<Rightarrow> 'p retr) \<Rightarrow> bool" +
  assumes GS_restart: "GS (startHandshake now)"
begin

lemma keeps_onReceiveNack: "keeps P (onReceiveNack E p)"
  unfolding onReceiveNack_def by (intro keeps_steps keeps_upd_session GS_restart keeps_restartSession)

end

text \<open>Handlers that set a session key: those that establish a session, and those that accept a candidate.\<close>

locale session_frame = core_frame P GS GR GB
  for P :: "'p adapter \<Rightarrow> bool" and GS :: "('p session \<Rightarrow> 'p session) \<Rightarrow> bool"
    and GR :: "('p sreader \<Rightarrow> 'p sreader) \<Rightarrow> bool" and GB :: "('p retr \<Rightarrow> 'p retr) \<Rightarrow> bool" +
  assumes GS_exchange: "GS (\<lambda>s. s\<lparr>s_state := STATE_EXCHANGING\<rparr>)"
    and GS_key: "GS (\<lambda>s. s\<lparr>s_base := (s_base s)\<lparr>rt_key := key\<rparr>\<rparr>)"
begin

lemma keeps_session_key: "keeps P (upd_base (Sess i) (\<lambda>b. b\<lparr>rt_key := key\<rparr>))"
  by (simp add: keeps_upd_session [OF GS_key])

lemma keeps_exchange: "keeps P (upd_session i (\<lambda>s. s\<lparr>s_state := STATE_EXCHANGING\<rparr>))"
  by (rule keeps_upd_session [OF GS_exchange])

lemma keeps_onReceiveSession: "keeps P (onReceiveSession E i)"
  unfolding onReceiveSession_def by (intro keeps_exchange keeps_session_key keeps_steps keeps_pulse_party)

lemma keeps_onReceiveSessionParts: "keeps P (onReceiveSessionPart1 E p)" "keeps P (onReceiveSessionPart2 E p)"
  unfolding onReceiveSessionPart1_def onReceiveSessionPart2_def
  by (intro keeps_steps keeps_session_fields keeps_onReceiveSession; simp)+

end

locale reader_frame = core_frame P GS GR GB
  for P :: "'p adapter \<Rightarrow> bool" and GS :: "('p session \<Rightarrow> 'p session) \<Rightarrow> bool"
    and GR :: "('p sreader \<Rightarrow> 'p sreader) \<Rightarrow> bool" and GB :: "('p retr \<Rightarrow> 'p retr) \<Rightarrow> bool" +
  fixes OKR :: "'p sreader \<Rightarrow> bool"
  assumes P_candidate_ok: "P a \<Longrightarrow> map_of (a_candidates a) i = Some r \<Longrightarrow> OKR r"
    and P_accept: "P a \<Longrightarrow> OKR r \<Longrightarrow> P (snd (acceptCandidate r a))"
    and GB_key: "GB (\<lambda>b. b\<lparr>rt_key := key\<rparr>)"
begin

lemma keeps_key: "keeps P (upd_base w (\<lambda>b. b\<lparr>rt_key := key\<rparr>))"
  by (rule keeps_upd_base [OF GB_key])

lemma keeps_accept: "keeps P (bnd (candidate_at i) (\<lambda>r. sq (acceptCandidate r) (sendSessionKey E (f r))))"
proof (rule keeps_bnd_post [where Q = OKR])
  show "OKR x" if "P a" "candidate_at i a = (Inr x, a')" for a x a'
    using that P_candidate_ok by (auto simp: candidate_at_def lookup_or_def split: option.splits)
  show "keeps P (sq (acceptCandidate x) (sendSessionKey E (f x)))" if "OKR x" for x
    using that P_accept by (intro keeps_steps) (simp add: keeps_def)
qed (intro keeps_rules)

lemma keeps_onReceiveKeyReq: "keeps P (onReceiveKeyReq E i)"
  unfolding onReceiveKeyReq_def by (intro keeps_accept keeps_key keeps_steps keeps_candidate_fields) simp

lemma keeps_onReceiveKeyReqParts: "keeps P (onReceiveKeyReqPart1 E p)" "keeps P (onReceiveKeyReqPart2 E p)"
  unfolding onReceiveKeyReqPart1_def onReceiveKeyReqPart2_def
  by (intro keeps_steps keeps_candidate_fields keeps_onReceiveKeyReq; simp)+

end

text \<open>Handlers that deliver data, then everything that arrives, but for the key requests.\<close>

locale data_frame = core_frame P GS GR GB
  for P :: "'p adapter \<Rightarrow> bool" and GS :: "('p session \<Rightarrow> 'p session) \<Rightarrow> bool"
    and GR :: "('p sreader \<Rightarrow> 'p sreader) \<Rightarrow> bool" and GB :: "('p retr \<Rightarrow> 'p retr) \<Rightarrow> bool" +
  assumes P_received: "P a \<Longrightarrow> P (a\<lparr>a_received := ms\<rparr>)"
begin

lemma keeps_accept_data: "keeps P (accept_data E p enc)"
  unfolding accept_data_def by (intro keeps_steps keeps_modify P_received)

lemma keeps_onReceiveData: "keeps P (onReceiveData E p)"
  unfolding onReceiveData_def by (intro keeps_steps keeps_accept_data)

end

locale delivery_frame = session_frame P GS GR GB + nack_frame P GS GR GB + data_frame P GS GR GB
  for P :: "'p adapter \<Rightarrow> bool" and GS :: "('p session \<Rightarrow> 'p session) \<Rightarrow> bool"
    and GR :: "('p sreader \<Rightarrow> 'p sreader) \<Rightarrow> bool" and GB :: "('p retr \<Rightarrow> 'p retr) \<Rightarrow> bool"
begin

lemmas keeps_handlers = keeps_onReceiveHello keeps_onReceiveWelcome keeps_onReceiveSessionParts keeps_onReceiveSessionAck
  keeps_onReceiveAck keeps_onReceiveNack keeps_onReceiveData

lemma keeps_dispatch_other:
  "pk_type p \<noteq> type_code KEY_REQ_PART1 \<Longrightarrow> pk_type p \<noteq> type_code KEY_REQ_PART2 \<Longrightarrow> keeps P (dispatch_packet E p)"
  unfolding dispatch_packet_def Let_def by (simp only: if_False) (intro keeps_handlers keeps_rules)

end

text \<open>The sender pool, and the timer up to the clearing of the duplicate buffers.\<close>

locale sender_frame = delivery_frame P GS GR GB
  for P :: "'p adapter \<Rightarrow> bool" and GS :: "('p session \<Rightarrow> 'p session) \<Rightarrow> bool"
    and GR :: "('p sreader \<Rightarrow> 'p sreader) \<Rightarrow> bool" and GB :: "('p retr \<Rightarrow> 'p retr) \<Rightarrow> bool" +
  assumes P_tasks: "P a \<Longrightarrow> P (a\<lparr>a_tasks := ts\<rparr>)"
    and GS_queue: "GS (\<lambda>s. addPayloadToOutputQueue (rt_node (s_base s)) payload s)" "GS (\<lambda>s. snd (sendAllFromOutputQueue s))"
    and GB_size: "GB (\<lambda>b. b\<lparr>rt_size := rt_size b + 1\<rparr>)"
begin

lemma keeps_drain: "keeps P (drain_session i)"
  unfolding drain_session_def send_def case_prod_unfold by (intro keeps_steps keeps_upd_session GS_queue keeps_modify P_tasks)

lemma keeps_pulseRetransmit: "keeps P (pulseRetransmit E)"
  unfolding pulseRetransmit_def case_prod_unfold by (intro keeps_rules keeps_pulse_party keeps_drain)

lemma keeps_restartHandshake: "keeps P (restartHandshakeIfNeeded E)"
  unfolding restartHandshakeIfNeeded_def by (intro keeps_rules keeps_restartSession)

lemma keeps_sender_step: "keeps P (sender_step E t)"
proof (cases t)
  case (T_state i m st)
  then show ?thesis by (cases st) (auto intro!: keeps_steps keeps_upd_session GS_queue keeps_upd_base GB_size)
qed (auto simp: getOrCreateSessionById_def payload_packet_def payload_send_def intro!: keeps_steps)

end

text \<open>All that happens to an adapter.\<close>

locale adapter_frame = sender_frame P GS GR GB + reader_frame P GS GR GB OKR
  for P :: "'p adapter \<Rightarrow> bool" and GS :: "('p session \<Rightarrow> 'p session) \<Rightarrow> bool"
    and GR :: "('p sreader \<Rightarrow> 'p sreader) \<Rightarrow> bool" and GB :: "('p retr \<Rightarrow> 'p retr) \<Rightarrow> bool" and OKR :: "'p sreader \<Rightarrow> bool" +
  assumes P_prev: "P a \<Longrightarrow> P (a\<lparr>a_prevClear := t\<rparr>)"
    and P_clear: "P a \<Longrightarrow> P (snd (clearBuffers a))"
begin

lemma keeps_dispatch: "keeps P (dispatch_packet E p)"
  unfolding dispatch_packet_def Let_def by (intro keeps_handlers keeps_onReceiveKeyReqParts keeps_rules)

lemma keeps_onReceive: "keeps P (onReceive E d)"
  unfolding onReceive_def by (intro keeps_rules keeps_dispatch)

lemma keeps_clear: "keeps P clearBuffers"
  using P_clear by (simp add: keeps_def)

lemma keeps_on_timer: "keeps P (on_timer E)"
  unfolding on_timer_def by (intro keeps_rules keeps_restartHandshake keeps_pulseRetransmit keeps_clear keeps_modify P_prev)

end

section \<open>The tables\<close>

lemma map_of_um_update: "map_of (um_update k f m) i = (if i = k then map_option f (map_of m i) else map_of m i)"
  by (induction m) (auto simp: um_update_def)

lemma map_of_um_insert: "map_of (um_insert k v m) i = (if i = k \<and> map_of m k = None then Some v else map_of m i)"
  by (auto simp: um_insert_def map_add_def split: option.splits)

lemma map_of_um_erase: "map_of (um_erase k m) i = (if i = k then None else map_of m i)"
  by (induction m) (auto simp: um_erase_def)

lemmas map_of_um = map_of_um_update map_of_um_insert map_of_um_erase

lemma acceptCandidate_eq: "acceptCandidate r a =
    (let i = n_number (rt_node (r_base r)) in (Inr (), a\<lparr>a_readers := um_insert i r (um_erase i (a_readers a)),
       a_candidates := um_erase i (a_candidates a)\<rparr>))"
  by (simp add: acceptCandidate_def act_defs Let_def)

lemma clearBuffers_snd: "snd (clearBuffers a) = a\<lparr>
     a_readers := map (\<lambda>(i, r). (i, r\<lparr>r_base := (r_base r)\<lparr>rt_dupes := clearOldestBuffer (rt_dupes (r_base r))\<rparr>\<rparr>)) (a_readers a),
     a_candidates := map (\<lambda>(i, r). (i, r\<lparr>r_base := (r_base r)\<lparr>rt_dupes := clearOldestBuffer (rt_dupes (r_base r))\<rparr>\<rparr>)) (a_candidates a),
     a_sessions := map (\<lambda>(i, s). (i, s\<lparr>s_base := (s_base s)\<lparr>rt_dupes := clearOldestBuffer (rt_dupes (s_base s))\<rparr>\<rparr>)) (a_sessions a)\<rparr>"
  by (simp add: clearBuffers_def modify_def)

end
