(* ===== verification/UdpWire.thy ===== *)
theory UdpWire
  imports UdpFrame
begin

text \<open>
  Packets on the wire, and sending: what is put on the wire is read back, and sending never fails on
  an adapter that does not throw its errors.
\<close>

section \<open>Packets\<close>

definition in_int32 :: "int \<Rightarrow> bool" where
  "in_int32 i = (- 2147483648 \<le> i \<and> i < 2147483648)"

definition packet_wf :: "packet \<Rightarrow> bool" where
  "packet_wf p = (in_int32 (pk_id p) \<and> in_int32 (pk_sender p) \<and> in_int32 (pk_receiver p) \<and> in_int32 (pk_type p) \<and>
     length (pk_payload p) < 2 ^ 32)"

lemma int32_of_int: "in_int32 i \<Longrightarrow> int32 (word_of_int i) = i"
proof -
  assume i: "in_int32 i"
  have "(ucast (word_of_int i :: u64) :: u32) = word_of_int i"
    by (rule bit_word_eqI) (auto simp: bit_ucast_iff bit_word_of_int_iff)
  moreover have "signed_take_bit 31 i = i"
    using i by (subst signed_take_bit_int_eq_self_iff) (simp add: in_int32_def)
  ultimately show ?thesis by (simp add: int32_def signed_of_int)
qed

lemma makeByteArray_parse:
  assumes "packet_wf p"
  shows "\<exists>bs. makeByteArray p = Inr bs \<and> (length bs < 2 ^ 32 \<longrightarrow> parse_packet kp bs = Inr p)"
proof -
  let ?u = "UArray [UInt_of (pk_id p), UInt_of (pk_sender p), UInt_of (pk_receiver p), UInt_of (pk_type p), UBytes (pk_payload p)]"
  have "uobj_wf kp ?u" using assms by (simp add: packet_wf_def sized_def UInt_of_def)
  from serialize_reads [OF this] obtain bs where bs: "serialize ?u = Inr bs"
    "length bs < 2 ^ 32 \<longrightarrow> deserialize kp bs = Inr (canon ?u)" by blast
  have "parse_packet kp bs = Inr p" if "length bs < 2 ^ 32"
    using bs that assms
    by (simp add: parse_packet_def bossLoadArray_def lift_boss_def int_at_def bytes_at_def array_at_def UInt_of_def
      array_asInstance_def int_asInstance_def bytes_asInstance_def packet_wf_def int32_of_int)
  with bs(1) show ?thesis by (simp add: makeByteArray_def bossDumpArray_def lift_boss_def)
qed

lemma bossLoad_dump:
  assumes "\<forall>u \<in> set us. (\<exists>i. u = UInt i) \<or> (\<exists>b. u = UBytes b \<and> length b < 2 ^ 32)" "bossDumpArray us = Inr b"
    "length us < 2 ^ 31" "length b < 2 ^ 32"
  shows "bossLoadArray kp b = Inr us"
proof -
  have "map canon us = us" using assms(1) by (intro map_idI) auto
  moreover have "uobj_wf kp (UArray us)" using assms(1,3) by (auto simp: sized_def)
  ultimately show ?thesis using serialize_reads [of kp "UArray us"] assms(2,4)
    by (auto simp: bossDumpArray_def bossLoadArray_def lift_boss_def array_asInstance_def split: sum.splits)
qed

text \<open>a packet with 32-bit numbers is read back from the datagram it was written to.\<close>

theorem packet_roundtrip:
  assumes "packet_wf p" "makeByteArray p = Inr bs" "length bs < 2 ^ 32"
  shows "parse_packet kp bs = Inr p"
  using makeByteArray_parse [OF assms(1)] assms(2,3) by auto

section \<open>Sending\<close>

text \<open>Sending touches the socket, the random sources and the packet counter only.\<close>

definition same_tables :: "'p adapter \<Rightarrow> 'p adapter \<Rightarrow> bool" where
  "same_tables a b =
     (a_own b = a_own a \<and> a_conf b = a_conf a \<and> a_sessions b = a_sessions a \<and> a_readers b = a_readers a \<and>
      a_candidates b = a_candidates a \<and> a_closed b = a_closed a \<and> a_throw b = a_throw a \<and> a_test b = a_test a \<and>
      a_now b = a_now a \<and> a_received b = a_received a \<and> a_tasks b = a_tasks a)"

lemma same_tables_refl [simp]: "same_tables a a"
  by (simp add: same_tables_def)

interpretation wire: send_frame "same_tables a" for a
  by unfold_locales (simp_all add: same_tables_def)

text \<open>What the code relies on: the lengths the random source, HMAC-SHA256 and CRC-32 give.\<close>

definition env_ok :: "'p udp_env \<Rightarrow> bool" where
  "env_ok E = ((\<forall>d n. length (sprng E d n) = n) \<and> (\<forall>k m. length (hmac_sha256 (u_ciphers E) k m) = 32) \<and>
     (\<forall>m. length (u_crc32 E m) = 4))"

fun wire_leaf :: "uobj \<Rightarrow> bool" where
  "wire_leaf (UInt _) = True"
| "wire_leaf (UBytes _) = True"
| "wire_leaf _ = False"

lemma wire_leaf_iff: "wire_leaf u \<longleftrightarrow> (\<exists>i. u = UInt i) \<or> (\<exists>b. u = UBytes b)"
  by (cases u) auto

lemma tryWriteRef_total: "\<exists>d w'. tryWriteRef key w = Inr (d, w')"
  by (auto simp: tryWriteRef_def writeHeader_def type_codes split: option.split)

lemma put_flat_total: "code \<le> 7 \<Longrightarrow> \<exists>w'. put_flat ct code b w = Inr w'"
proof -
  assume c: "code \<le> 7"
  obtain d w1 where "tryWriteFlat ct b w = Inr (d, w1)"
    using tryWriteRef_total [of "(ct, b)" w] by (cases "skips_cache w") (auto simp: tryWriteFlat_def)
  with c show ?thesis by (cases d) (simp_all add: put_flat_def writeHeader_def)
qed

lemma put_leaf_total: "wire_leaf u \<Longrightarrow> \<exists>w'. put u w = Inr w'"
  using put_flat_total [of TYPE_BIN] by (auto simp: wire_leaf_iff writeHeader_def type_codes)

lemma put_list_total: "\<forall>u \<in> set us. wire_leaf u \<Longrightarrow> \<exists>w'. put_list us w = Inr w'"
proof (induction us arbitrary: w)
  case (Cons u us)
  then obtain w1 where "put u w = Inr w1" using put_leaf_total by force
  with Cons show ?case by simp
qed simp

lemma bossDumpArray_total: "\<forall>u \<in> set us. wire_leaf u \<Longrightarrow> \<exists>b. bossDumpArray us = Inr b"
proof -
  assume us: "\<forall>u \<in> set us. wire_leaf u"
  have id: "map base_serialize us = us"
    using us by (intro map_idI) (auto simp: wire_leaf_iff)
  obtain w1 where w1: "put_list us (push_bytes (header_bytes TYPE_LIST (of_nat (length us))) (new_writer False)) = Inr w1"
    using put_list_total [OF us] by blast
  have ser: "put (base_serialize (UArray us)) (new_writer False) = Inr w1"
    using w1 by (simp add: id writeHeader_def type_codes skips_cache_def new_writer_def)
  obtain d w2 where w2: "tryWriteRef (CT_ARRAY, stream_key w1) (new_writer True) = Inr (d, w2)" using tryWriteRef_total by blast
  obtain w3 where w3: "put_list us (push_bytes (header_bytes TYPE_LIST (of_nat (length us))) w2) = Inr w3"
    using put_list_total [OF us] by blast
  have "\<not> skips_cache (new_writer True)" by (simp add: skips_cache_def new_writer_def)
  with ser w2 w3 show ?thesis
    by (cases d) (auto simp: bossDumpArray_def lift_boss_def serialize_def writeObject_put id writeHeader_def type_codes)
qed

lemma eta_encrypt_act_ok:
  assumes "env_ok E"
  shows "\<exists>enc. eta_encrypt_act E key m a = (Inr enc, a\<lparr>a_draw := a_draw a + 1\<rparr>) \<and>
    etaDecrypt (u_ciphers E) key enc = Inr m"
proof -
  have iv: "length (sprng E (a_draw a) 16) = blockSize" using assms by (simp add: env_ok_def blockSize_def)
  obtain enc where enc: "etaEncrypt (u_ciphers E) key (sprng E (a_draw a) 16) m = Inr enc"
    using etaEncrypt_total [OF iv] by blast
  have "etaDecrypt (u_ciphers E) key enc = Inr m"
    by (rule etaDecrypt_etaEncrypt [OF _ _ enc]) (use assms in \<open>simp_all add: env_ok_def\<close>)
  with enc show ?thesis by (simp add: eta_encrypt_act_def random_bytes_def next_draw_def bnd_def ret_def lift_def lift_crypto_def)
qed

lemma sendPacketTo_ok: "\<not> a_throw a \<Longrightarrow> \<exists>a'. sendPacketTo E n p a = (Inr (), a')"
proof -
  assume t: "\<not> a_throw a"
  obtain bs where "makeByteArray p = Inr bs"
    unfolding makeByteArray_def using bossDumpArray_total by (metis UInt_of_def list.set_intros wire_leaf.simps(1,2) empty_iff list.set(1) set_ConsD)
  with t show ?thesis
    by (simp add: sendPacketTo_def sendPacket_def bnd_def lift_def sq_def writeErr_def skip_def ret_def gets_def modify_def
      random_int_def next_draw_def)
qed

section \<open>Protection from duplicates\<close>

definition remembered :: "int \<Rightarrow> dupes \<Rightarrow> bool" where
  "remembered pid d = (pid \<in> buffer0 d \<or> pid \<in> buffer1 d)"

lemma protect_fresh: "fst (protectFromDuples pid d) \<longleftrightarrow> \<not> remembered pid d"
  by (simp add: protectFromDuples_def remembered_def)

lemma protect_remembers: "remembered pid (snd (protectFromDuples pid d))"
    "remembered q d \<Longrightarrow> remembered q (snd (protectFromDuples pid d))"
  by (auto simp: protectFromDuples_def remembered_def)

lemma protect_iff: "remembered q (snd (protectFromDuples pid d)) \<longleftrightarrow> q = pid \<or> remembered q d"
  by (auto simp: protectFromDuples_def remembered_def)

end
