(* ===== verification/UdpSample.thy ===== *)
theory UdpSample
  imports UdpWire
begin

text \<open>
  Two nodes with transparent cryptography, on which the theorems are applied: encryption with a key
  prepends it, a signature is the key before the data.
\<close>

definition toy_env :: "byte \<Rightarrow> byte udp_env" where
  "toy_env own = \<lparr>u_ciphers = toy_ciphers, u_keys = no_keys, u_crc32 = (\<lambda>m. [fold (+) m 0, 1, 2, 3]),
    pub_encrypt = (\<lambda>k d m. Inr (k # m)), pub_verify = (\<lambda>k s m. s = k # m),
    own_decrypt = (\<lambda>m. case m of k # m' \<Rightarrow> if k = own then Inr m' else Inl RsaExc | [] \<Rightarrow> Inl RsaExc),
    own_sign = (\<lambda>d m. own # m), sprng = (\<lambda>d n. replicate n (of_nat d)), minstd = (\<lambda>d. int d * 1000 + 7)\<rparr>"

definition toy_node :: "int \<Rightarrow> byte node" where
  "toy_node i = \<lparr>n_key = of_int i, n_number = i, n_name = [], n_host = [], n_hostV6 = [], n_publicHost = [],
     n_datagramPort = i, n_clientPort = 1, n_publicPort = 1\<rparr>"

definition toy_conf :: "byte netconf" where
  "toy_conf = [(1, toy_node 1), (2, toy_node 2)]"

definition toy_adapter :: "int \<Rightarrow> byte adapter" where
  "toy_adapter i = \<lparr>a_own = toy_node i, a_conf = toy_conf, a_sessions = [], a_readers = [], a_candidates = [], a_nextId = 7,
     a_closed = False, a_test = False, a_throw = False, a_now = 1, a_draw = nat (20 * i), a_prevClear = 0,
     a_sent = [], a_received = [], a_tasks = []\<rparr>"

text \<open>Node 2 with a reader for node 1, and a data packet of node 1.\<close>

definition toy_receiver :: "byte adapter" where
  "toy_receiver = (toy_adapter 2)\<lparr>a_readers := [(1, new_sreader 0 (toy_node 1) toy_key)]\<rparr>"

definition toy_payload :: bytes where
  "toy_payload = replicate 16 21 @ [112, 113, 12, 12] @ replicate 16 3 @ [112, 113, 12, 12] @ replicate 12 0 @ [114, 1, 2, 3]"

definition toy_datagram :: bytes where
  "toy_datagram = [46, 56, 8, 16, 0, 188, 56] @ toy_payload"

lemma toy_prepared: "fst (preparePayload (toy_env 1) toy_key (cstr ''hi'') (toy_adapter 1)) = Inr toy_payload"
  by code_simp

lemma toy_written: "makeByteArray (new_packet 7 1 2 DATA toy_payload) = Inr toy_datagram"
  by code_simp

text \<open>Node 1, waiting for the session message of node 2 and holding its second part, and the first part.\<close>

definition toy_packed :: bytes where
  "toy_packed = [22, 132] @ toy_key @ [20, 9, 9]"

definition toy_part1 :: bytes where
  "toy_part1 = 1 # toy_packed"

definition toy_session :: "byte session" where
  "toy_session = (new_session 0 (toy_node 2) toy_iv [9, 9])\<lparr>s_step := STEP_WAIT_FOR_SESSION, s_part2 := 2 # toy_part1\<rparr>"

definition toy_initiator :: "byte adapter" where
  "toy_initiator = (toy_adapter 1)\<lparr>a_sessions := [(2, toy_session)]\<rparr>"

definition toy_message :: bytes where
  "toy_message = [46, 40, 16, 8, 56, 180] @ toy_part1"

lemma toy_message_written: "makeByteArray (new_packet 5 2 1 SESSION_PART1 toy_part1) = Inr toy_message"
  by code_simp

lemma toy_message: "parse_packet (u_keys (toy_env 1)) toy_message = Inr (new_packet 5 2 1 SESSION_PART1 toy_part1)"
proof -
  have "packet_wf (new_packet 5 2 1 SESSION_PART1 toy_part1)"
    by (simp add: packet_wf_def in_int32_def new_packet_def toy_part1_def toy_packed_def toy_key_def)
  then show ?thesis
    using makeByteArray_parse toy_message_written by (fastforce simp: toy_message_def toy_part1_def toy_packed_def toy_key_def)
qed

lemma toy_packed_written: "bossDumpArray [UBytes toy_key, UBytes [9, 9]] = Inr toy_packed"
  by code_simp

lemma toy_packed: "bossLoadArray (u_keys (toy_env 1)) toy_packed = Inr [UBytes toy_key, UBytes [9, 9]]"
  by (rule bossLoad_dump [OF _ toy_packed_written]) (simp_all add: toy_packed_def toy_key_def)

lemma toy_parts: "own_decrypt (toy_env 1) toy_part1 = Inr toy_packed" "pub_verify (toy_env 1) 2 (2 # toy_part1) toy_part1"
  by (simp_all add: toy_env_def toy_part1_def)

lemma toy_known: "getInfo (a_conf toy_initiator) 2 = Inr (toy_node 2)"
  by (simp add: toy_initiator_def toy_adapter_def toy_conf_def getInfo_def)

lemma toy_initiator_simps [simp]:
  "\<not> a_throw toy_initiator" "\<not> a_closed toy_initiator" "a_sessions toy_initiator = [(2, toy_session)]"
  by (simp_all add: toy_initiator_def toy_adapter_def)

lemma toy_session_simps [simp]:
  "s_state toy_session = STATE_HANDSHAKE" "s_step toy_session = STEP_WAIT_FOR_SESSION" "s_part2 toy_session = 2 # toy_part1"
  "s_localNonce toy_session = [9, 9]" "rt_node (s_base toy_session) = toy_node 2" "rt_dupes (s_base toy_session) = no_dupes"
  by (simp_all add: toy_session_def new_session_def new_retr_def)

lemma toy_node_simps [simp]: "n_number (toy_node i) = i" "n_key (toy_node i) = of_int i"
  by (simp_all add: toy_node_def)

lemma toy_receiver_simps [simp]:
  "\<not> a_throw toy_receiver" "\<not> a_closed toy_receiver" "a_received toy_receiver = []"
  "a_readers toy_receiver = [(1, new_sreader 0 (toy_node 1) toy_key)]"
  by (simp_all add: toy_receiver_def toy_adapter_def)

lemma toy_env_ok: "env_ok (toy_env k)"
  by (auto simp: env_ok_def toy_env_def toy_ciphers_def min_def)

lemma toy_data_wf: "packet_wf (new_packet 7 1 2 DATA toy_payload)" "length toy_datagram < 4294967296"
  by (simp_all add: packet_wf_def in_int32_def new_packet_def toy_payload_def toy_datagram_def)

lemma packet_roundtrip_witness: "parse_packet no_keys toy_datagram = Inr (new_packet 7 1 2 DATA toy_payload)"
  by (rule packet_roundtrip [OF toy_data_wf(1) toy_written]) (use toy_data_wf(2) in simp)

text \<open>Node 1 as the responder: a candidate for node 2 that holds the second part of a key request.\<close>

definition toy_candidate :: "byte sreader" where
  "toy_candidate = (new_sreader 0 (toy_node 2) toy_iv)\<lparr>r_localNonce := [9, 9], r_part2 := 2 # toy_part1\<rparr>"

definition toy_responder :: "byte adapter" where
  "toy_responder = (toy_adapter 1)\<lparr>a_candidates := [(2, toy_candidate)]\<rparr>"

definition toy_request :: bytes where
  "toy_request = [46, 40, 16, 8, 40, 180] @ toy_part1"

lemma toy_request_written: "makeByteArray (new_packet 5 2 1 KEY_REQ_PART1 toy_part1) = Inr toy_request"
  by code_simp

lemma toy_request: "parse_packet (u_keys (toy_env 1)) toy_request = Inr (new_packet 5 2 1 KEY_REQ_PART1 toy_part1)"
proof -
  have "packet_wf (new_packet 5 2 1 KEY_REQ_PART1 toy_part1)"
    by (simp add: packet_wf_def in_int32_def new_packet_def toy_part1_def toy_packed_def toy_key_def)
  then show ?thesis
    using makeByteArray_parse toy_request_written by (fastforce simp: toy_request_def toy_part1_def toy_packed_def toy_key_def)
qed

lemma toy_responder_simps [simp]:
  "\<not> a_closed toy_responder" "a_candidates toy_responder = [(2, toy_candidate)]" "a_readers toy_responder = []"
  "getInfo (a_conf toy_responder) 2 = Inr (toy_node 2)"
  by (simp_all add: toy_responder_def toy_adapter_def toy_conf_def getInfo_def)

lemma toy_candidate_simps [simp]:
  "r_part2 toy_candidate = 2 # toy_part1" "r_localNonce toy_candidate = [9, 9]" "rt_node (r_base toy_candidate) = toy_node 2"
  "rt_dupes (r_base toy_candidate) = no_dupes"
  by (simp_all add: toy_candidate_def new_sreader_def new_retr_def)

text \<open>A data packet without payload, and a session acknowledgement with a payload of one byte.\<close>

definition toy_empty_payload :: bytes where
  "toy_empty_payload = replicate 16 21 @ [12, 12] @ replicate 16 3 @ [12, 12] @ replicate 14 0 @ [176, 1, 2, 3]"

definition toy_empty_datagram :: bytes where
  "toy_empty_datagram = [46, 56, 8, 16, 0, 188, 54] @ toy_empty_payload"

lemma toy_empty_prepared: "fst (preparePayload (toy_env 1) toy_key [] (toy_adapter 1)) = Inr toy_empty_payload"
  by code_simp

lemma toy_empty_written: "makeByteArray (new_packet 7 1 2 DATA toy_empty_payload) = Inr toy_empty_datagram"
  by code_simp

lemma toy_empty_wf: "packet_wf (new_packet 7 1 2 DATA toy_empty_payload)" "length toy_empty_datagram < 4294967296"
  by (simp_all add: packet_wf_def in_int32_def new_packet_def toy_empty_payload_def toy_empty_datagram_def)

definition toy_ack :: bytes where
  "toy_ack = [46, 48, 8, 16, 72, 12, 0]"

lemma toy_ack_written: "makeByteArray (new_packet 6 1 2 SESSION_ACK [0]) = Inr toy_ack"
  by code_simp

lemma toy_ack_parsed: "parse_packet (u_keys (toy_env 2)) toy_ack = Inr (new_packet 6 1 2 SESSION_ACK [0])"
proof -
  have "packet_wf (new_packet 6 1 2 SESSION_ACK [0])" by (simp add: packet_wf_def in_int32_def new_packet_def)
  then show ?thesis using makeByteArray_parse toy_ack_written by (fastforce simp: toy_ack_def)
qed

end
