(* ===== verification/UdpData.thy ===== *)
theory UdpData
  imports BossSafety UdpSample
begin

text \<open>
  Delivery of data by the UDP adapter: unchanged, at most once, and only what the session key has
  sealed; and errors stay inside \<open>onReceive\<close>.
\<close>

section \<open>The interpretations of the frames\<close>

text \<open>No handler but \<open>onReceiveData\<close> delivers.\<close>

definition received_is :: "(bytes \<times> int) list \<Rightarrow> 'p adapter \<Rightarrow> bool" where
  "received_is ms a = (a_received a = ms)"

interpretation quiet_session: session_frame "received_is ms" "\<lambda>_. True" "\<lambda>_. True" "\<lambda>_. True" for ms
  by unfold_locales (simp_all add: received_is_def)

interpretation quiet_nack: nack_frame "received_is ms" "\<lambda>_. True" "\<lambda>_. True" "\<lambda>_. True" for ms
  by unfold_locales (simp_all add: received_is_def)

interpretation quiet_reader: reader_frame "received_is ms" "\<lambda>_. True" "\<lambda>_. True" "\<lambda>_. True" "\<lambda>_. True" for ms
  by unfold_locales (simp_all add: received_is_def acceptCandidate_eq Let_def)

lemma received_unchanged: "keeps (received_is (a_received a)) m \<Longrightarrow> a_received (snd (m a)) = a_received a"
  by (simp add: keeps_def received_is_def)

text \<open>Whether errors are thrown, the adapter is closed, and the time are fixed within a step.\<close>

definition mode_is :: "bool \<Rightarrow> bool \<Rightarrow> int \<Rightarrow> 'p adapter \<Rightarrow> bool" where
  "mode_is t c n a = (a_throw a = t \<and> a_closed a = c \<and> a_now a = n)"

interpretation mode: adapter_frame "mode_is t c n" "\<lambda>_. True" "\<lambda>_. True" "\<lambda>_. True" "\<lambda>_. True" for t c n
  by unfold_locales (simp_all add: mode_is_def acceptCandidate_eq clearBuffers_snd Let_def)

section \<open>Errors\<close>

text \<open>
  An adapter that was not made to throw its errors lets no exception out of \<open>onReceive\<close>; what is left
  is the undefined behaviour of the packet reader, and one datagram is enough for it.
\<close>

lemma onReceive_catches:
  assumes "\<not> a_throw a" "fst (onReceive E d a) = Inl e"
  shows "udp_undefined e"
proof (cases "a_closed a")
  case False
  obtain r a' where m: "bnd (lift (parse_packet (u_keys E) d)) (dispatch_packet E) a = (r, a')" by fastforce
  have "keeps (mode_is False False (a_now a)) (bnd (lift (parse_packet (u_keys E) d)) (dispatch_packet E))"
    by (intro keeps_rules mode.keeps_dispatch)
  from keeps_result [OF this _ m] have "\<not> a_throw a'" using assms(1) False by (simp add: mode_is_def)
  with False m assms(2) show ?thesis
    by (cases r) (auto simp: onReceive_def bnd_def gets_def try_catch_def writeErr_def split: if_splits)
qed (use assms(2) in \<open>simp add: onReceive_def act_defs\<close>)

text \<open>
  C12: one datagram crashes an open adapter, whoever sends it and before any key is looked at: the
  packed header of a binary whose announced length lies within its own end of \<open>2^64\<close> passes the bound
  check of the reader, which then copies from outside the datagram. This is no exception, so the
  \<open>catch\<close> clause of \<open>onReceive\<close> does not help.
\<close>

theorem datagram_overread:
  assumes "\<not> a_closed a" "length d < 2 ^ 32" "readHeader d 0 = Inr ((TYPE_BIN, v), p)" "2 ^ 64 \<le> p + unat v"
  shows "onReceive E d a = (Inl (BossExc OutOfBoundsRead), a)"
proof -
  have "parse_packet (u_keys E) d = Inl (BossExc OutOfBoundsRead)"
    by (simp add: parse_packet_def bossLoadArray_def lift_boss_def deserialize_wraps [OF assms(2-4)])
  then show ?thesis using assms(1) by (simp add: onReceive_def act_defs boss_undefined_def)
qed

section \<open>Data\<close>

lemma is_new_reader:
  assumes "map_of (a_readers a) i = Some r"
  shows "is_new (Reader i) pid a =
    (case protectFromDuples pid (rt_dupes (r_base r)) of (fresh, d) \<Rightarrow>
      (Inr fresh, a\<lparr>a_readers := um_update i (\<lambda>r. r\<lparr>r_base := (r_base r)\<lparr>rt_dupes := snd (protectFromDuples pid (rt_dupes (r_base r)))\<rparr>\<rparr>) (a_readers a)\<rparr>))"
  using assms by (simp add: is_new_def act_defs upd_reader_def getSessionReader_def lookup_or_def case_prod_unfold)

text \<open>The reader of a node, and whether it remembers a packet.\<close>

definition reader_knows :: "int \<Rightarrow> int \<Rightarrow> 'p adapter \<Rightarrow> bool" where
  "reader_knows i pid a = (\<exists>r. map_of (a_readers a) i = Some r \<and> remembered pid (rt_dupes (r_base r)))"

lemma accept_data_delivers:
  assumes "map_of (a_readers a) (pk_sender p) = Some r" "sendAck E (pk_sender p) (pk_id p) a = (Inr (), a1)"
    "etaDecrypt (u_ciphers E) (rt_key (r_base r)) enc = Inr dec" "2 < length dec"
  shows "\<exists>a'. accept_data E p enc a = (Inr (), a') \<and> reader_knows (pk_sender p) (pk_id p) a' \<and>
    a_received a' = a_received a @
      (if remembered (pk_id p) (rt_dupes (r_base r)) then [] else [(take (length dec - 2) dec, n_number (rt_node (r_base r)))])"
proof -
  have "same_tables a a1" using keeps_result [OF wire.keeps_sendAck _ assms(2)] by simp
  then have a1: "a_readers a1 = a_readers a" "a_received a1 = a_received a" by (simp_all add: same_tables_def)
  have r1: "map_of (a_readers a1) (pk_sender p) = Some r" using a1(1) assms(1) by simp
  show ?thesis
    using assms a1 protect_remembers(1) [of "pk_id p" "rt_dupes (r_base r)"]
    by (simp add: accept_data_def Let_def bnd_def getSessionReader_def lookup_or_def try_catch_def lift_def lift_crypto_def
      sq_def is_new_reader [OF r1] case_prod_unfold guarded_def protect_fresh modify_def skip_def ret_def reader_knows_def
      map_of_um)
qed

lemma accept_data_only:
  assumes "accept_data E p enc a = (res, a')" "a_received a' \<noteq> a_received a"
  shows "\<exists>r dec. map_of (a_readers a) (pk_sender p) = Some r \<and> etaDecrypt (u_ciphers E) (rt_key (r_base r)) enc = Inr dec \<and>
    2 < length dec \<and> \<not> remembered (pk_id p) (rt_dupes (r_base r)) \<and> reader_knows (pk_sender p) (pk_id p) a' \<and>
    a_received a' = a_received a @ [(take (length dec - 2) dec, n_number (rt_node (r_base r)))]"
proof -
  have nack: "a_received b' = a_received b" if "sq writeErr (sendNack E i q) b = (x, b')" for i q b b' x
    using keeps_result [OF keeps_sq [OF keeps_pure(5) quiet_session.keeps_sendNack] _ that] by (simp add: received_is_def)
  have ack: "a_received b' = a_received b" if "sendAck E i q b = (x, b')" for i q b b' x
    using keeps_result [OF quiet_session.keeps_sendAck _ that] by (simp add: received_is_def)
  note step = accept_data_def Let_def bnd_def getSessionReader_def lookup_or_def try_catch_def lift_def lift_crypto_def
  obtain r where r: "map_of (a_readers a) (pk_sender p) = Some r"
    using assms by (cases "map_of (a_readers a) (pk_sender p)") (simp_all add: step)
  obtain dec where dec: "etaDecrypt (u_ciphers E) (rt_key (r_base r)) enc = Inr dec"
    using assms r by (cases "etaDecrypt (u_ciphers E) (rt_key (r_base r)) enc") (auto simp: step dest: nack)
  have len: "2 < length dec"
  proof (rule ccontr)
    assume "\<not> 2 < length dec"
    then have "bnd (lift (Inr dec)) (\<lambda>dec. if 2 < length dec then m dec else sq writeErr (sendNack E i q)) a =
        sq writeErr (sendNack E i q) a" for m i q by (simp add: bnd_def lift_def)
    then show False using assms r dec
      by (auto simp: accept_data_def Let_def bnd_def [of "getSessionReader _"] getSessionReader_def lookup_or_def lift_crypto_def
        try_catch_def split: prod.splits sum.splits if_splits dest!: nack)
  qed
  obtain x a1 where x: "sendAck E (pk_sender p) (pk_id p) a = (x, a1)" by fastforce
  have "\<exists>u. x = Inr u"
    using assms r dec len x by (cases x) (auto simp: step sq_def split: if_splits dest!: nack [unfolded sq_def bnd_def] ack)
  with x have "sendAck E (pk_sender p) (pk_id p) a = (Inr (), a1)" by auto
  from accept_data_delivers [OF r this dec len] assms r dec len show ?thesis
    by (auto split: if_splits)
qed

text \<open>What can be delivered: a data packet from a node that has a reader.\<close>

lemma onReceive_open:
  assumes "onReceive E bs a = (res, a')" "a_received a' \<noteq> a_received a"
  shows "\<not> a_closed a \<and> (\<exists>p r. parse_packet (u_keys E) bs = Inr p \<and> dispatch_packet E p a = (r, a'))"
proof -
  have "\<not> a_closed a" using assms by (auto simp: onReceive_def act_defs)
  moreover obtain p where p: "parse_packet (u_keys E) bs = Inr p"
    using assms by (cases "parse_packet (u_keys E) bs") (auto simp: onReceive_def act_defs writeErr_def split: if_splits)
  moreover obtain r b where d: "dispatch_packet E p a = (r, b)" by fastforce
  moreover have "b = a'"
    using assms(1) calculation by (cases r) (auto simp: onReceive_def act_defs writeErr_def split: if_splits)
  ultimately show ?thesis by blast
qed

lemma dispatch_data: "pk_type p = type_code DATA \<Longrightarrow> dispatch_packet E p = onReceiveData E p"
  by (simp add: dispatch_packet_def)

lemma dispatch_quiet:
  assumes "pk_type p \<noteq> type_code DATA"
  shows "keeps (received_is ms) (dispatch_packet E p)"
  unfolding dispatch_packet_def Let_def if_not_P [OF assms]
  by (intro keeps_rules quiet_session.keeps_onReceiveHello quiet_session.keeps_onReceiveWelcome
    quiet_session.keeps_onReceiveSessionParts quiet_session.keeps_onReceiveSessionAck quiet_session.keeps_onReceiveAck
    quiet_nack.keeps_onReceiveNack quiet_reader.keeps_onReceiveKeyReqParts)

lemma onReceiveData_only:
  assumes "onReceiveData E p a = (res, a')" "a_received a' \<noteq> a_received a"
  shows "\<exists>enc. pk_payload p = enc @ u_crc32 E enc \<and> accept_data E p enc a = (res, a')"
proof -
  define n where "n = length (pk_payload p) - 4"
  have nack: "a_received b' = a_received b" if "sendNack E i q b = (x, b')" for i q b b' x
    using keeps_result [OF quiet_session.keeps_sendNack _ that] by (simp add: received_is_def)
  have "drop n (pk_payload p) = u_crc32 E (take n (pk_payload p))" "accept_data E p (take n (pk_payload p)) a = (res, a')"
    using assms by (auto simp: onReceiveData_def n_def Let_def bnd_def gets_def writeErr_def split: if_splits dest: nack)
  then show ?thesis by (metis append_take_drop_id)
qed

lemma delivered_parts:
  assumes "onReceive E bs a = (res, a')" "a_received a' \<noteq> a_received a"
  shows "\<exists>p r iv ct dec enc. parse_packet (u_keys E) bs = Inr p \<and> pk_type p = type_code DATA \<and>
    map_of (a_readers a) (pk_sender p) = Some r \<and> enc = iv @ ct @ hmac_sha256 (u_ciphers E) (rt_key (r_base r)) ct \<and>
    length iv = 16 \<and> pk_payload p = enc @ u_crc32 E enc \<and> etaDecrypt (u_ciphers E) (rt_key (r_base r)) enc = Inr dec \<and>
    \<not> remembered (pk_id p) (rt_dupes (r_base r)) \<and> reader_knows (pk_sender p) (pk_id p) a' \<and> 2 < length dec \<and>
    a_received a' = a_received a @ [(take (length dec - 2) dec, n_number (rt_node (r_base r)))]"
proof -
  obtain p x where p: "parse_packet (u_keys E) bs = Inr p" "dispatch_packet E p a = (x, a')"
    using onReceive_open [OF assms] by blast
  have t: "pk_type p = type_code DATA"
    using keeps_result [OF dispatch_quiet _ p(2)] assms(2) by (auto simp: received_is_def)
  then obtain enc where enc: "pk_payload p = enc @ u_crc32 E enc" "accept_data E p enc a = (x, a')"
    using onReceiveData_only p(2) assms(2) dispatch_data by metis
  from accept_data_only [OF enc(2) assms(2)] obtain r dec where r: "map_of (a_readers a) (pk_sender p) = Some r"
    "etaDecrypt (u_ciphers E) (rt_key (r_base r)) enc = Inr dec" "2 < length dec" "\<not> remembered (pk_id p) (rt_dupes (r_base r))"
    "reader_knows (pk_sender p) (pk_id p) a'"
    "a_received a' = a_received a @ [(take (length dec - 2) dec, n_number (rt_node (r_base r)))]" by blast
  from etaDecrypt_Inr [OF r(2)] p(1) t enc(1) r show ?thesis by blast
qed


lemma sendAck_ok:
  assumes "env_ok E" "\<not> a_throw a" "map_of (a_readers a) i = Some r"
  shows "\<exists>a1. sendAck E i pid a = (Inr (), a1)"
proof -
  obtain w where "put (UInt_of pid) (new_writer True) = Inr w"
    using put_leaf_total [of "UInt_of pid" "new_writer True"] by (auto simp: UInt_of_def)
  then have b: "lift_boss (serialize (UInt_of pid)) = Inr (wr_buf w)"
    by (simp add: lift_boss_def serialize_def writeObject_def UInt_of_def)
  obtain enc where enc: "eta_encrypt_act E (rt_key (r_base r)) (wr_buf w) a = (Inr enc, a\<lparr>a_draw := a_draw a + 1\<rparr>)"
    using eta_encrypt_act_ok [OF assms(1)] by blast
  have "\<not> a_throw (a\<lparr>a_draw := a_draw a + 1\<rparr>)" using assms(2) by simp
  from sendPacketTo_ok [OF this] obtain a1 where "sendPacketTo E (rt_node (r_base r)) (new_packet 0 (n_number (a_own a))
      (n_number (rt_node (r_base r))) ACK enc) (a\<lparr>a_draw := a_draw a + 1\<rparr>) = (Inr (), a1)" by blast
  with enc b assms(3) show ?thesis
    by (simp add: sendAck_def bnd_def lift_def getSessionReader_def lookup_or_def Let_def gets_def)
qed

lemma preparePayload_ok:
  assumes "preparePayload E key payload a = (Inr d, a')"
  shows "\<exists>enc iv. etaEncrypt (u_ciphers E) key iv (payload @ sprng E (a_draw a) 2) = Inr enc \<and>
    iv = sprng E (a_draw a + 1) 16 \<and> d = enc @ u_crc32 E enc"
  using assms by (auto simp: preparePayload_def eta_encrypt_act_def random_bytes_def next_draw_def bnd_def ret_def lift_def
    lift_crypto_def split: sum.splits)

lemma sealed_delivered:
  assumes "env_ok E" "env_ok F" "u_ciphers F = u_ciphers E" "u_crc32 F = u_crc32 E"
    "preparePayload E key payload a = (Inr d, a')" "payload \<noteq> []"
    "p = new_packet pid own dest DATA d" "packet_wf p" "makeByteArray p = Inr bs" "length bs < 2 ^ 32"
    "\<not> a_closed b" "\<not> a_throw b" "map_of (a_readers b) own = Some r" "rt_key (r_base r) = key"
    "\<not> remembered pid (rt_dupes (r_base r))"
  shows "\<exists>b'. onReceive F bs b = (Inr (), b') \<and> a_received b' = a_received b @ [(payload, n_number (rt_node (r_base r)))]"
proof -
  obtain enc iv where enc: "etaEncrypt (u_ciphers E) key iv (payload @ sprng E (a_draw a) 2) = Inr enc"
    "iv = sprng E (a_draw a + 1) 16" "d = enc @ u_crc32 E enc" using preparePayload_ok [OF assms(5)] by blast
  have dec: "etaDecrypt (u_ciphers F) (rt_key (r_base r)) enc = Inr (payload @ sprng E (a_draw a) 2)"
    unfolding assms(3,14) by (rule etaDecrypt_etaEncrypt [OF _ _ enc(1)]) (use assms(1) enc(2) in \<open>simp_all add: env_ok_def\<close>)
  have len: "length (sprng E (a_draw a) 2) = 2" using assms(1) by (simp add: env_ok_def)
  have pk: "pk_sender p = own" "pk_id p = pid" "pk_payload p = d" "pk_type p = type_code DATA"
    using assms(7) by (simp_all add: new_packet_def)
  have parse: "parse_packet (u_keys F) bs = Inr p"
    using makeByteArray_parse [OF assms(8)] assms(9,10) by auto
  obtain b1 where ack: "sendAck F (pk_sender p) (pk_id p) b = (Inr (), b1)"
    using sendAck_ok [OF assms(2,12)] assms(13) pk by blast
  have "2 < length (payload @ sprng E (a_draw a) 2)" using len assms(6) by simp
  from accept_data_delivers [OF _ ack dec this] assms(13,15) len pk(1,2)
  obtain b' where b': "accept_data F p enc b = (Inr (), b')"
    "a_received b' = a_received b @ [(payload, n_number (rt_node (r_base r)))]" by auto
  have "enc \<noteq> []"
    using etaDecrypt_Inr [OF dec] by auto
  then have "onReceiveData F p b = accept_data F p enc b"
    using assms(2,4,13) enc(3) pk by (simp add: onReceiveData_def Let_def bnd_def gets_def env_ok_def)
  with b' parse assms(11) pk(4) show ?thesis
    by (simp add: onReceive_def bnd_def gets_def try_catch_def lift_def dispatch_data)
qed

text \<open>
  C9: end to end: a payload of at least one byte that one node prepares for its session key, wraps into
  a data packet and puts on the wire, as a datagram below 4 GiB, is delivered unchanged by an open node
  with the same ciphers and CRC-32 whose reader of the sender has that key, if it does not remember the
  number of the packet and was not made to throw its errors.
\<close>

theorem data_delivered:
  assumes "env_ok E" "env_ok F" "u_ciphers F = u_ciphers E" "u_crc32 F = u_crc32 E"
    "preparePayload E key payload a = (Inr d, a')" "payload \<noteq> []"
    "p = new_packet pid own dest DATA d" "packet_wf p" "makeByteArray p = Inr bs" "length bs < 2 ^ 32"
    "\<not> a_closed b" "\<not> a_throw b" "map_of (a_readers b) own = Some r" "rt_key (r_base r) = key"
    "\<not> remembered pid (rt_dupes (r_base r))"
  shows "\<exists>b'. onReceive F bs b = (Inr (), b') \<and> a_received b' = a_received b @ [(payload, n_number (rt_node (r_base r)))]"
  using assms by (rule sealed_delivered)

section \<open>Duplicates\<close>

text \<open>What changes the duplicate buffers of a reader, but for the timer and an accepted key request, adds to the younger one.\<close>

definition adds_dupes :: "('p retr \<Rightarrow> 'p retr) \<Rightarrow> bool" where
  "adds_dupes h = (\<forall>b. buffer0 (rt_dupes b) \<subseteq> buffer0 (rt_dupes (h b)) \<and> buffer1 (rt_dupes (h b)) = buffer1 (rt_dupes b))"

definition adds_reader_dupes :: "('p sreader \<Rightarrow> 'p sreader) \<Rightarrow> bool" where
  "adds_reader_dupes g = (\<forall>r. buffer0 (rt_dupes (r_base r)) \<subseteq> buffer0 (rt_dupes (r_base (g r))) \<and>
     buffer1 (rt_dupes (r_base (g r))) = buffer1 (rt_dupes (r_base r)))"

lemma adds_base:
  "adds_dupes h \<Longrightarrow> adds_reader_dupes (\<lambda>r. r\<lparr>r_base := h (r_base r)\<rparr>)"
  "adds_dupes (addPacketToMap now v p src)" "adds_dupes removeHandshakePackets" "adds_dupes (removePacketFromMap pid)"
  "adds_dupes (erase_items ks)" "adds_dupes (\<lambda>b. b\<lparr>rt_map := um_update k u (rt_map b)\<rparr>)"
  "adds_dupes (\<lambda>b. b\<lparr>rt_dupes := snd (protectFromDuples pid (rt_dupes b))\<rparr>)"
  "adds_dupes (\<lambda>b. b\<lparr>rt_size := rt_size b + 1\<rparr>)"
  by (auto simp: adds_dupes_def adds_reader_dupes_def addPacketToMap_def removeHandshakePackets_def removePacketFromMap_def
      erase_items_def protectFromDuples_def Let_def)

text \<open>
  A reader holds a packet that arrived at the time \<open>t\<close> until the protection period has passed: it is
  in the younger buffer, or, since a clearing at \<open>t\<close> or later, in the older one.
\<close>

definition in_reader :: "int \<Rightarrow> (dupes \<Rightarrow> bool) \<Rightarrow> 'p adapter \<Rightarrow> bool" where
  "in_reader i Q a = (\<exists>r. map_of (a_readers a) i = Some r \<and> Q (rt_dupes (r_base r)))"

lemma in_reader_update:
  assumes "in_reader i Q a" "\<And>r. Q (rt_dupes (r_base r)) \<Longrightarrow> Q (rt_dupes (r_base (g r)))"
  shows "in_reader i Q (a\<lparr>a_readers := um_update k g (a_readers a)\<rparr>)"
  using assms by (auto simp: in_reader_def map_of_um)

definition held :: "int \<Rightarrow> int \<Rightarrow> int \<Rightarrow> 'p adapter \<Rightarrow> bool" where
  "held i pid t a = (t \<le> a_now a \<and> (a_now a < t + dupleProtectionPeriod \<longrightarrow>
     in_reader i (\<lambda>d. pid \<in> buffer0 d \<or> pid \<in> buffer1 d \<and> t \<le> a_prevClear a) a))"

interpretation young: delivery_frame "in_reader i (\<lambda>d. pid \<notin> buffer1 d)" "\<lambda>_. True" adds_reader_dupes adds_dupes for i pid
proof (unfold_locales, goal_cases)
  case (5 a g k)
  then show ?case by (auto intro: in_reader_update simp: adds_reader_dupes_def)
qed (simp_all add: adds_base, simp_all add: in_reader_def adds_reader_dupes_def)

interpretation memory: sender_frame "held i pid t" "\<lambda>_. True" adds_reader_dupes adds_dupes for i pid t
proof (unfold_locales, goal_cases)
  case (5 a g k)
  then show ?case by (auto intro!: in_reader_update simp: held_def adds_reader_dupes_def)
qed (simp_all add: adds_base, simp_all add: held_def in_reader_def adds_reader_dupes_def)

lemma held_clear:
  "keeps (held i pid t) (bnd (gets (\<lambda>a. a_now a - a_prevClear a)) (\<lambda>d.
     guarded (dupleProtectionPeriod \<le> d) (sq clearBuffers (modify (\<lambda>a. a\<lparr>a_prevClear := a_now a\<rparr>)))))"
  by (auto simp: keeps_def held_def in_reader_def bnd_def gets_def guarded_def sq_def modify_def skip_def ret_def
      clearBuffers_def clearOldestBuffer_def map_of_map)

lemma held_timer: "keeps (held i pid t) (on_timer E)"
  unfolding on_timer_def
  by (intro keeps_sq held_clear memory.keeps_restartHandshake memory.keeps_pulseRetransmit)

text \<open>
  What happens between two arrivals: anything, in any order, but for the arrival of a key request
  (which may give its sender a new reader with a new key).
\<close>

definition key_request :: "'p udp_env \<Rightarrow> bytes \<Rightarrow> bool" where
  "key_request E d = (case parse_packet (u_keys E) d of
     Inr q \<Rightarrow> pk_type q = type_code KEY_REQ_PART1 \<or> pk_type q = type_code KEY_REQ_PART2
   | Inl _ \<Rightarrow> False)"

inductive udp_between :: "'p udp_env \<Rightarrow> 'p adapter \<Rightarrow> 'p adapter \<Rightarrow> bool" for E a where
  nothing: "udp_between E a a"
| receive: "udp_between E a b \<Longrightarrow> \<not> key_request E d \<Longrightarrow> udp_between E a (snd (onReceive E d b))"
| timer: "udp_between E a b \<Longrightarrow> udp_between E a (snd (on_timer E b))"
| task: "udp_between E a b \<Longrightarrow> udp_between E a (snd (sender_step E t b))"
| send: "udp_between E a b \<Longrightarrow> udp_between E a (snd (send dest payload b))"
| close: "udp_between E a b \<Longrightarrow> udp_between E a (snd (close_adapter b))"
| clock: "udp_between E a b \<Longrightarrow> a_now b \<le> now \<Longrightarrow> udp_between E a (b\<lparr>a_now := now\<rparr>)"
| test_mode: "udp_between E a b \<Longrightarrow> udp_between E a (b\<lparr>a_test := on\<rparr>)"

lemma keeps_onReceive_parsed:
  assumes "\<And>q. parse_packet (u_keys E) d = Inr q \<Longrightarrow> keeps P (dispatch_packet E q)"
  shows "keeps P (onReceive E d)"
proof -
  have "keeps P (bnd (lift (parse_packet (u_keys E) d)) (dispatch_packet E))"
    using assms by (cases "parse_packet (u_keys E) d") (auto simp: keeps_def bnd_def lift_def)
  then have "keeps P (try_catch (bnd (lift (parse_packet (u_keys E) d)) (dispatch_packet E)) writeErr)"
    by (rule keeps_try [OF _ keeps_pure(5)])
  then show ?thesis unfolding onReceive_def by (intro keeps_bnd [OF keeps_pure(3)] keeps_if keeps_pure(2))
qed

lemma held_between: "udp_between E a b \<Longrightarrow> held i pid t a \<Longrightarrow> held i pid t b"
proof (induction rule: udp_between.induct)
  case (receive b d)
  have "keeps (held i pid t) (onReceive E d)"
    by (rule keeps_onReceive_parsed, rule memory.keeps_dispatch_other) (use receive.hyps(2) in \<open>auto simp: key_request_def\<close>)
  then show ?case by (rule keepsD) (rule receive.IH [OF receive.prems])
next
  case (timer b)
  show ?case by (rule keepsD [OF held_timer]) (rule timer.IH [OF timer.prems])
next
  case (task b t')
  show ?case by (rule keepsD [OF memory.keeps_sender_step]) (rule task.IH [OF task.prems])
qed (auto simp: held_def in_reader_def send_def close_adapter_def modify_def)

lemma delivered_held:
  assumes "a_received (snd (onReceive E bs a)) \<noteq> a_received a"
  obtains p where "parse_packet (u_keys E) bs = Inr p" "held (pk_sender p) (pk_id p) (a_now a) (snd (onReceive E bs a))"
proof -
  let ?a = "snd (onReceive E bs a)"
  obtain p r where p: "parse_packet (u_keys E) bs = Inr p" "pk_type p = type_code DATA" "map_of (a_readers a) (pk_sender p) = Some r"
    "\<not> remembered (pk_id p) (rt_dupes (r_base r))" "reader_knows (pk_sender p) (pk_id p) ?a"
    using delivered_parts [OF _ assms] by (metis prod.collapse)
  have "in_reader (pk_sender p) (\<lambda>d. pk_id p \<notin> buffer1 d) a" using p(3,4) by (simp add: in_reader_def remembered_def)
  moreover have "keeps (in_reader (pk_sender p) (\<lambda>d. pk_id p \<notin> buffer1 d)) (onReceive E bs)"
    by (rule keeps_onReceive_parsed, rule young.keeps_dispatch_other) (use p(1,2) in auto)
  ultimately have "in_reader (pk_sender p) (\<lambda>d. pk_id p \<notin> buffer1 d) ?a" by (rule keepsD [rotated])
  then have "in_reader (pk_sender p) (\<lambda>d. pk_id p \<in> buffer0 d) ?a" using p(5) by (auto simp: in_reader_def reader_knows_def remembered_def)
  moreover have "mode_is (a_throw a) (a_closed a) (a_now a) ?a" by (rule keepsD [OF mode.keeps_onReceive]) (simp add: mode_is_def)
  ultimately have "held (pk_sender p) (pk_id p) (a_now a) ?a" by (auto simp: held_def mode_is_def in_reader_def)
  with p(1) show thesis by (rule that)
qed

text \<open>
  C5: a delivered datagram that arrives again within the protection period of 40 seconds is not
  delivered again, whatever happens in between (datagrams, the timer and its clearing of the duplicate
  buffers, the sender pool, calls of \<open>send\<close>, the passing of time), as long as no key request arrives.
\<close>

theorem data_at_most_once:
  assumes "a_received (snd (onReceive E bs a)) \<noteq> a_received a"
    "udp_between E (snd (onReceive E bs a)) b" "a_now b < a_now a + dupleProtectionPeriod"
  shows "a_received (snd (onReceive E bs b)) = a_received b"
proof (rule ccontr)
  assume again: "a_received (snd (onReceive E bs b)) \<noteq> a_received b"
  obtain p where p: "parse_packet (u_keys E) bs = Inr p" "held (pk_sender p) (pk_id p) (a_now a) (snd (onReceive E bs a))"
    by (rule delivered_held [OF assms(1)])
  have "held (pk_sender p) (pk_id p) (a_now a) b" by (rule held_between [OF assms(2) p(2)])
  moreover obtain q r where "parse_packet (u_keys E) bs = Inr q" "map_of (a_readers b) (pk_sender q) = Some r"
    "\<not> remembered (pk_id q) (rt_dupes (r_base r))"
    using delivered_parts [OF _ again] by (metis prod.collapse)
  ultimately show False using p(1) assms(3) by (auto simp: held_def in_reader_def remembered_def)
qed

section \<open>What is not delivered\<close>

lemma sendNack_ok:
  assumes "\<not> a_throw a"
  shows "\<exists>b. sendNack E i pid a = (Inr (), b)"
proof (cases "map_of (a_conf a) i")
  case None
  then show ?thesis by (simp add: sendNack_def bnd_def gets_def conf_find_def skip_def ret_def)
next
  case (Some n)
  define a1 where "a1 = a\<lparr>a_draw := a_draw a + 1\<rparr>"
  define a2 where "a2 = a1\<lparr>a_draw := a_draw a1 + 1\<rparr>"
  obtain d1 where d1: "bossDumpArray [UInt_of pid, UBytes (sprng E (a_draw a) 64)] = Inr d1"
    using bossDumpArray_total [of "[UInt_of pid, UBytes (sprng E (a_draw a) 64)]"] by (auto simp: UInt_of_def)
  obtain d2 where d2: "bossDumpArray [UBytes d1, UBytes (own_sign E (a_draw a1) d1)] = Inr d2"
    using bossDumpArray_total [of "[UBytes d1, UBytes (own_sign E (a_draw a1) d1)]"] by auto
  have "\<not> a_throw a2" using assms by (simp add: a1_def a2_def)
  from sendPacketTo_ok [OF this] obtain b
    where "sendPacketTo E n (new_packet 0 (n_number (a_own a)) i NACK d2) a2 = (Inr (), b)" by blast
  with Some d1 d2 show ?thesis
    by (simp add: sendNack_def bnd_def gets_def conf_find_def conf_info_def getInfo_def random_bytes_def next_draw_def ret_def
      lift_def sign_act_def a1_def a2_def)
qed

text \<open>
  an empty payload is never delivered: the receiver takes the data packet that carries it, although
  it is sealed with the session key, for a broken one and answers with a NACK.
\<close>

theorem empty_payload_refused:
  assumes "env_ok E" "env_ok F" "u_ciphers F = u_ciphers E" "u_crc32 F = u_crc32 E"
    "preparePayload E key [] a = (Inr d, a')"
    "p = new_packet pid own dest DATA d" "packet_wf p" "makeByteArray p = Inr bs" "length bs < 2 ^ 32"
    "\<not> a_closed b" "\<not> a_throw b" "map_of (a_readers b) own = Some r" "rt_key (r_base r) = key"
  shows "onReceive F bs b = sendNack F own pid b \<and> a_received (snd (onReceive F bs b)) = a_received b"
proof -
  obtain enc iv where enc: "etaEncrypt (u_ciphers E) key iv (sprng E (a_draw a) 2) = Inr enc"
    "iv = sprng E (a_draw a + 1) 16" "d = enc @ u_crc32 E enc" using preparePayload_ok [OF assms(5)] by auto
  have dec: "etaDecrypt (u_ciphers F) (rt_key (r_base r)) enc = Inr (sprng E (a_draw a) 2)"
    unfolding assms(3,13) by (rule etaDecrypt_etaEncrypt [OF _ _ enc(1)]) (use assms(1) enc(2) in \<open>simp_all add: env_ok_def\<close>)
  have len: "length (sprng E (a_draw a) 2) = 2" using assms(1) by (simp add: env_ok_def)
  have pk: "pk_sender p = own" "pk_id p = pid" "pk_payload p = d" "pk_type p = type_code DATA"
    using assms(6) by (simp_all add: new_packet_def)
  have parse: "parse_packet (u_keys F) bs = Inr p"
    using makeByteArray_parse [OF assms(7)] assms(8,9) by auto
  obtain c where nack: "sendNack F own pid b = (Inr (), c)" using sendNack_ok [OF assms(11)] by blast
  have "accept_data F p enc b = (Inr (), c)"
    using assms(11,12) pk dec len nack by (simp add: accept_data_def Let_def bnd_def getSessionReader_def lookup_or_def try_catch_def
      lift_def lift_crypto_def sq_def writeErr_def)
  moreover have "enc \<noteq> []" using etaDecrypt_Inr [OF dec] by auto
  then have "onReceiveData F p b = accept_data F p enc b"
    using assms(2,4,12) enc(3) pk by (simp add: onReceiveData_def Let_def bnd_def gets_def env_ok_def)
  ultimately have "onReceive F bs b = (Inr (), c)"
    using parse assms(10) pk(4) by (simp add: onReceive_def bnd_def gets_def try_catch_def lift_def dispatch_data)
  moreover have "a_received c = a_received b"
    using keeps_result [OF quiet_session.keeps_sendNack _ nack] by (simp add: received_is_def)
  ultimately show ?thesis using nack by simp
qed

text \<open>
  a session acknowledgement is believed whatever it carries: its payload is not decrypted, and the
  retransmission of the handshake to its sender stops.
\<close>

theorem session_ack_unchecked:
  assumes "\<not> a_closed a" "parse_packet (u_keys E) bs = Inr p" "pk_type p = type_code SESSION_ACK"
    "map_of (a_readers a) (pk_sender p) = Some r"
  shows "onReceive E bs a =
    (Inr (), a\<lparr>a_readers := um_update (pk_sender p) (\<lambda>r. r\<lparr>r_base := removeHandshakePackets (r_base r)\<rparr>) (a_readers a)\<rparr>)"
  using assms by (simp add: onReceive_def act_defs dispatch_packet_def onReceiveSessionAck_def getSessionReader_def lookup_or_def
    upd_reader_def)

section \<open>Applied to two nodes\<close>

lemma toy_shared: "u_ciphers (toy_env 2) = u_ciphers (toy_env 1)" "u_crc32 (toy_env 2) = u_crc32 (toy_env 1)"
  by (simp_all add: toy_env_def)

lemma toy_reader:
  "rt_key (r_base (new_sreader 0 (toy_node 1) toy_key)) = toy_key" "rt_node (r_base (new_sreader 0 (toy_node 1) toy_key)) = toy_node 1"
  "rt_dupes (r_base (new_sreader 0 (toy_node 1) toy_key)) = no_dupes"
  by (simp_all add: new_sreader_def new_retr_def)

lemma toy_prepared_pair: "preparePayload (toy_env 1) toy_key (cstr ''hi'') (toy_adapter 1) =
    (Inr toy_payload, snd (preparePayload (toy_env 1) toy_key (cstr ''hi'') (toy_adapter 1)))"
  by (metis toy_prepared prod.collapse)

lemmas toy_data_applies = toy_reader toy_data_wf remembered_def no_dupes_def

lemma data_delivered_witness:
  "\<exists>b. onReceive (toy_env 2) toy_datagram toy_receiver = (Inr (), b) \<and> a_received b = [(cstr ''hi'', 1)]"
  using data_delivered [OF toy_env_ok toy_env_ok toy_shared toy_prepared_pair _ refl _ toy_written, of toy_receiver "new_sreader 0 (toy_node 1) toy_key"]
  by (simp add: toy_data_applies)

lemma toy_received: "\<exists>b. onReceive (toy_env 2) toy_datagram toy_receiver = (Inr (), b) \<and> a_received b = [(cstr ''hi'', 1)]"
  using sealed_delivered [OF toy_env_ok toy_env_ok toy_shared toy_prepared_pair _ refl _ toy_written, of toy_receiver "new_sreader 0 (toy_node 1) toy_key"]
  by (simp add: toy_data_applies)

lemma datagram_overread_witness:
  "onReceive (toy_env 2) huge_bin toy_receiver = (Inl (BossExc OutOfBoundsRead), toy_receiver)"
proof -
  have "unat (- 1 :: u64) = 2 ^ 64 - 1" by (simp add: unsigned_minus_1_eq_mask mask_eq_exp_minus_1)
  then show ?thesis by (intro datagram_overread [OF _ _ huge_bin_header]) simp_all
qed


lemma data_at_most_once_witness:
  "\<exists>b c. c = snd (onReceive (toy_env 2) toy_message (snd (on_timer (toy_env 2) (b\<lparr>a_now := 40000\<rparr>)))) \<and>
     b = snd (onReceive (toy_env 2) toy_datagram toy_receiver) \<and> a_received b = [(cstr ''hi'', 1)] \<and>
     a_received (snd (onReceive (toy_env 2) toy_datagram c)) = a_received c"
proof -
  let ?b = "snd (onReceive (toy_env 2) toy_datagram toy_receiver)"
  let ?c = "snd (onReceive (toy_env 2) toy_message (snd (on_timer (toy_env 2) (?b\<lparr>a_now := 40000\<rparr>))))"
  have m: "mode_is t x n a \<Longrightarrow> mode_is t x n (snd (onReceive E d a))" "mode_is t x n a \<Longrightarrow> mode_is t x n (snd (on_timer E a))"
    for t x n d and E :: "byte udp_env" and a by (auto intro: keepsD mode.keeps_onReceive mode.keeps_on_timer)
  have b: "mode_is False False 1 ?b" by (rule m(1)) (simp add: mode_is_def toy_receiver_def toy_adapter_def)
  then have "mode_is False False 40000 ?c" by (intro m) (simp add: mode_is_def)
  then have now: "a_now ?c < a_now toy_receiver + dupleProtectionPeriod"
    by (simp add: mode_is_def toy_receiver_def toy_adapter_def dupleProtectionPeriod_def GROW_FACTOR_def RETRANSMIT_TIME_def MAX_ATTEMPTS_def)
  have "\<not> key_request (toy_env 2) toy_message"
    using toy_message by (simp add: key_request_def toy_env_def new_packet_def)
  moreover have "a_now ?b \<le> 40000" using b by (simp add: mode_is_def)
  ultimately have "udp_between (toy_env 2) ?b ?c" by (intro udp_between.intros)
  moreover have r: "a_received ?b = [(cstr ''hi'', 1)]" using toy_received by auto
  ultimately show ?thesis using data_at_most_once [OF _ _ now] r by auto
qed

lemma empty_payload_refused_witness:
  "onReceive (toy_env 2) toy_empty_datagram toy_receiver = sendNack (toy_env 2) 1 7 toy_receiver \<and>
    a_received (snd (onReceive (toy_env 2) toy_empty_datagram toy_receiver)) = a_received toy_receiver"
proof -
  have prep: "preparePayload (toy_env 1) toy_key [] (toy_adapter 1) =
      (Inr toy_empty_payload, snd (preparePayload (toy_env 1) toy_key [] (toy_adapter 1)))"
    by (metis toy_empty_prepared prod.collapse)
  show ?thesis
    by (rule empty_payload_refused [OF toy_env_ok toy_env_ok toy_shared prep refl toy_empty_wf(1) toy_empty_written,
        where r = "new_sreader 0 (toy_node 1) toy_key"])
      (use toy_empty_wf(2) in \<open>simp_all add: toy_reader\<close>)
qed

lemma session_ack_unchecked_witness:
  "onReceive (toy_env 2) toy_ack toy_receiver =
    (Inr (), toy_receiver\<lparr>a_readers := um_update 1 (\<lambda>r. r\<lparr>r_base := removeHandshakePackets (r_base r)\<rparr>) (a_readers toy_receiver)\<rparr>)"
  using session_ack_unchecked [OF _ toy_ack_parsed, of toy_receiver] by (simp add: new_packet_def)

end
