(* ===== verification/UdpSession.thy ===== *)
theory UdpSession
  imports UdpWire UdpSample
begin

text \<open>
  When a session reaches \<open>STATE_EXCHANGING\<close>: only when both parts of the session message are there,
  the peer of the session has signed them, and they decrypt to the nonce this node sent last.
\<close>

definition handshaking :: "int \<Rightarrow> 'p adapter \<Rightarrow> bool" where
  "handshaking i a = (\<forall>s. map_of (a_sessions a) i = Some s \<longrightarrow> s_state s = STATE_HANDSHAKE)"

definition stays_out :: "('p session \<Rightarrow> 'p session) \<Rightarrow> bool" where
  "stays_out f = (\<forall>s. s_state s = STATE_HANDSHAKE \<longrightarrow> s_state (f s) = STATE_HANDSHAKE)"

interpretation hs_data: data_frame "handshaking i" stays_out "\<lambda>_. True" "\<lambda>_. True" for i
  by unfold_locales (auto simp: handshaking_def stays_out_def map_of_um new_session_def startHandshake_def split: if_splits)

interpretation hs_nack: nack_frame "handshaking i" stays_out "\<lambda>_. True" "\<lambda>_. True" for i
  by unfold_locales (simp add: stays_out_def startHandshake_def)

interpretation hs_reader: reader_frame "handshaking i" stays_out "\<lambda>_. True" "\<lambda>_. True" "\<lambda>_. True" for i
  by unfold_locales (simp_all add: handshaking_def acceptCandidate_eq Let_def)

lemma keeps_other_session: "j \<noteq> i \<Longrightarrow> keeps (handshaking i) (upd_session j f)"
  by (simp add: keeps_def upd_session_def modify_def handshaking_def map_of_um)

lemma onReceiveSession_other: "j \<noteq> i \<Longrightarrow> keeps (handshaking i) (onReceiveSession E j)"
  unfolding onReceiveSession_def by (intro keeps_other_session hs_data.keeps_steps hs_data.keeps_upd_base hs_data.keeps_pulse_party TrueI)

text \<open>What a peer has to prove.\<close>

definition proven :: "'p udp_env \<Rightarrow> 'p session \<Rightarrow> bytes \<Rightarrow> bytes \<Rightarrow> bool" where
  "proven E s part1 part2 =
     (part1 \<noteq> [] \<and> part2 \<noteq> [] \<and> pub_verify E (n_key (rt_node (s_base s))) part2 part1 \<and>
      (\<exists>plain xs key. own_decrypt E part1 = Inr plain \<and> bossLoadArray (u_keys E) plain = Inr xs \<and>
         bytes_at xs 0 = Inr key \<and> bytes_at xs 1 = Inr (s_localNonce s)))"

lemma onReceiveSession_only:
  assumes "handshaking i a" "onReceiveSession E j a = (res, a')" "\<not> handshaking i a'"
  shows "j = i \<and> (\<exists>s. map_of (a_sessions a) i = Some s \<and> proven E s (s_part1 s) (s_part2 s))"
proof -
  have j: "j = i" using keeps_result [OF onReceiveSession_other assms(1,2)] assms(3) by blast
  obtain s where s: "map_of (a_sessions a) i = Some s"
    using assms j by (cases "map_of (a_sessions a) i") (auto simp: onReceiveSession_def bnd_def session_at_def lookup_or_def)
  note run = assms(2) [unfolded j onReceiveSession_def bnd_def [of "session_at i"] session_at_def lookup_or_def s, simplified]
  have err: "a' = a" if "writeErr a = (x, a')" for x
    using that by (auto simp: writeErr_def split: if_splits)
  have parts: "s_part1 s \<noteq> []" "s_part2 s \<noteq> []" "pub_verify E (n_key (rt_node (s_base s))) (s_part2 s) (s_part1 s)"
    using run assms(1,3) by (auto simp: guarded_def skip_def ret_def dest: err split: if_splits)
  note run = run [unfolded guarded_def [of "_ \<and> _"], simplified parts, simplified, unfolded try_catch_def]
  obtain plain where plain: "own_decrypt E (s_part1 s) = Inr plain"
    using run assms(1,3) by (cases "own_decrypt E (s_part1 s)") (auto simp: lift_def bnd_def dest: err split: if_splits)
  obtain xs where xs: "bossLoadArray (u_keys E) plain = Inr xs"
    using run assms(1,3) by (cases "bossLoadArray (u_keys E) plain") (auto simp: lift_def bnd_def plain dest: err split: if_splits)
  obtain key where key: "bytes_at xs 0 = Inr key"
    using run assms(1,3) by (cases "bytes_at xs 0") (auto simp: lift_def bnd_def plain xs dest: err split: if_splits)
  obtain nonce where nonce: "bytes_at xs 1 = Inr nonce"
    using run assms(1,3) by (cases "bytes_at xs 1") (auto simp: lift_def bnd_def plain xs key dest: err split: if_splits)
  have "nonce = s_localNonce s"
    using run assms(1,3) by (cases "nonce = s_localNonce s")
      (auto simp: lift_def bnd_def plain xs key nonce [simplified] guarded_def skip_def ret_def)
  with parts plain xs key nonce s j show ?thesis by (auto simp: proven_def)
qed

section \<open>The handlers of the two parts\<close>

text \<open>Both handlers are this one, up to the part they store.\<close>

definition part_handler :: "'p udp_env \<Rightarrow> packet \<Rightarrow> ('p session \<Rightarrow> 'p session) \<Rightarrow> ('p, unit) act" where
  "part_handler E p f =
     bnd (conf_info (pk_sender p)) (\<lambda>n.
     bnd (getOrCreateSession E n) (\<lambda>i.
     bnd (is_new (Sess i) (pk_id p)) (\<lambda>ok.
     guarded ok
       (sq (upd_base (Sess i) removeHandshakePackets)
       (bnd (session_at i) (\<lambda>s.
        guarded (s_state s = STATE_HANDSHAKE \<and> s_step s = STEP_WAIT_FOR_SESSION)
          (sq (upd_session i f) (onReceiveSession E i))))))))"

lemma getOrCreateSession_run:
  "\<exists>a1 s. getOrCreateSession E n a = (Inr (n_number n), a1) \<and> map_of (a_sessions a1) (n_number n) = Some s \<and>
    (map_of (a_sessions a) (n_number n) = Some s \<or> s_step s = STEP_INIT)"
  by (cases "map_of (a_sessions a) (n_number n)")
    (auto simp: getOrCreateSession_def act_defs random_bytes_def next_draw_def map_of_um new_session_def)

lemma is_new_session:
  assumes "map_of (a_sessions a) i = Some s"
  shows "\<exists>b. is_new (Sess i) pid a = (Inr (fst (protectFromDuples pid (rt_dupes (s_base s)))),
      a\<lparr>a_sessions := um_update i (\<lambda>s. s\<lparr>s_base := (s_base s)\<lparr>rt_dupes := snd (protectFromDuples pid (rt_dupes (s_base s)))\<rparr>\<rparr>) (a_sessions a)\<rparr>)"
  using assms by (simp add: is_new_def act_defs upd_session_def session_at_def lookup_or_def)

lemma remove_keeps_node: "rt_node (removeHandshakePackets b) = rt_node b"
  by (simp add: removeHandshakePackets_def Let_def)

lemma part_handler_only:
  assumes "handshaking i a" "part_handler E p f a = (res, a')" "\<not> handshaking i a'"
    and f: "\<And>s. s_base (f s) = s_base s \<and> s_state (f s) = s_state s \<and> s_localNonce (f s) = s_localNonce s"
      "\<And>s b. s_part1 (f (s\<lparr>s_base := b\<rparr>)) = s_part1 (f s) \<and> s_part2 (f (s\<lparr>s_base := b\<rparr>)) = s_part2 (f s)"
  shows "\<exists>n s. getInfo (a_conf a) (pk_sender p) = Inr n \<and> n_number n = i \<and> map_of (a_sessions a) i = Some s \<and>
    s_step s = STEP_WAIT_FOR_SESSION \<and> proven E s (s_part1 (f s)) (s_part2 (f s))"
proof -
  obtain n where n: "getInfo (a_conf a) (pk_sender p) = Inr n"
    using assms(1-3) by (cases "getInfo (a_conf a) (pk_sender p)") (auto simp: part_handler_def bnd_def conf_info_def)
  let ?j = "n_number n"
  obtain a1 s where a1: "getOrCreateSession E n a = (Inr ?j, a1)" "map_of (a_sessions a1) ?j = Some s"
    "map_of (a_sessions a) ?j = Some s \<or> s_step s = STEP_INIT" using getOrCreateSession_run by blast
  let ?fresh = "fst (protectFromDuples (pk_id p) (rt_dupes (s_base s)))"
  obtain a2 where a2: "is_new (Sess ?j) (pk_id p) a1 = (Inr ?fresh, a2)" by (rule exE [OF is_new_session [OF a1(2)]])
  have s2: "map_of (a_sessions a2) ?j = Some (s\<lparr>s_base := (s_base s)\<lparr>rt_dupes := snd (protectFromDuples (pk_id p) (rt_dupes (s_base s)))\<rparr>\<rparr>)"
    using a2 is_new_session [OF a1(2), of "pk_id p"] a1(2) by (auto simp: map_of_um)
  have h1: "handshaking i a1" by (rule keeps_result [OF hs_data.keeps_getOrCreateSession assms(1) a1(1)])
  have h2: "handshaking i a2" by (rule keeps_result [OF hs_data.keeps_is_new h1 a2])
  define b where "b = removeHandshakePackets ((s_base s)\<lparr>rt_dupes := snd (protectFromDuples (pk_id p) (rt_dupes (s_base s)))\<rparr>)"
  obtain a3 where a3: "upd_base (Sess ?j) removeHandshakePackets a2 = (Inr (), a3)" by (simp add: upd_session_def modify_def)
  have s3: "map_of (a_sessions a3) ?j = Some (s\<lparr>s_base := b\<rparr>)"
    using a3 s2 by (auto simp: upd_session_def modify_def map_of_um b_def)
  have h3: "handshaking i a3" by (rule keeps_result [OF hs_data.keeps_upd_map(1) h2 a3])
  let ?body = "bnd (session_at ?j) (\<lambda>s. guarded (s_state s = STATE_HANDSHAKE \<and> s_step s = STEP_WAIT_FOR_SESSION)
      (sq (upd_session ?j f) (onReceiveSession E ?j)))"
  have run2: "guarded ?fresh (sq (upd_base (Sess ?j) removeHandshakePackets) ?body) a2 = (res, a')"
    using assms(2) unfolding part_handler_def conf_info_run [where a = a, OF n] bnd_run [where m = "getOrCreateSession E n" and a = a, OF a1(1)]
      bnd_run [where m = "is_new (Sess ?j) (pk_id p)" and a = a1, OF a2] .
  have fresh: "?fresh"
    using run2 h2 assms(3) by (auto simp: guarded_def skip_def ret_def split: if_splits)
  have run3: "guarded (s_state s = STATE_HANDSHAKE \<and> s_step s = STEP_WAIT_FOR_SESSION) (sq (upd_session ?j f) (onReceiveSession E ?j)) a3 = (res, a')"
    using run2 fresh by (simp only: guarded_def if_True sq_run [where m = "upd_base (Sess ?j) removeHandshakePackets" and a = a2, OF a3]
        session_at_run [where a = a3, OF s3]) simp
  have step: "s_state s = STATE_HANDSHAKE" "s_step s = STEP_WAIT_FOR_SESSION"
    using run3 h3 assms(3) by (auto simp: guarded_def skip_def ret_def split: if_splits)
  obtain a4 where a4: "upd_session ?j f a3 = (Inr (), a4)" by (simp add: upd_session_def modify_def)
  have s4: "map_of (a_sessions a4) ?j = Some (f (s\<lparr>s_base := b\<rparr>))"
    using a4 s3 by (auto simp: upd_session_def modify_def map_of_um)
  have "stays_out f" using f(1) by (simp add: stays_out_def)
  from keeps_result [OF hs_data.keeps_upd_session [OF this] h3 a4] have h4: "handshaking i a4" .
  have "onReceiveSession E ?j a4 = (res, a')"
    using run3 step by (simp add: guarded_def sq_run [where m = "upd_session ?j f" and a = a3, OF a4])
  from onReceiveSession_only [OF h4 this assms(3)] s4
  have "?j = i" "proven E (f (s\<lparr>s_base := b\<rparr>)) (s_part1 (f s)) (s_part2 (f s))" using f(2) by auto
  moreover have "rt_node b = rt_node (s_base s)" by (simp add: b_def remove_keeps_node)
  ultimately have "proven E s (s_part1 (f s)) (s_part2 (f s))"
    using f(1) [of s] f(1) [of "s\<lparr>s_base := b\<rparr>"] by (simp add: proven_def)
  with n \<open>?j = i\<close> step a1(3) show ?thesis by auto
qed

text \<open>
  C6: a session is established only by a session message of its peer: a part of it arrives while
  the session waits for it, with the part stored earlier it is signed with the key of the peer, and
  it decrypts with the key of this node to a new session key and the nonce that this node last sent.
\<close>

theorem session_established:
  assumes "onReceive E bs a = (res, a')" "handshaking i a" "\<not> handshaking i a'"
  shows "\<exists>p n s. parse_packet (u_keys E) bs = Inr p \<and> getInfo (a_conf a) (pk_sender p) = Inr n \<and> n_number n = i \<and>
    map_of (a_sessions a) i = Some s \<and> s_step s = STEP_WAIT_FOR_SESSION \<and>
    (pk_type p = type_code SESSION_PART1 \<and> proven E s (pk_payload p) (s_part2 s) \<or>
     pk_type p = type_code SESSION_PART2 \<and> proven E s (s_part1 s) (pk_payload p))"
proof -
  have open': "\<not> a_closed a" using assms by (auto simp: onReceive_def act_defs)
  obtain p where p: "parse_packet (u_keys E) bs = Inr p"
    using assms by (cases "parse_packet (u_keys E) bs") (auto simp: onReceive_def act_defs writeErr_def split: if_splits)
  obtain r b where d: "dispatch_packet E p a = (r, b)" by fastforce
  have "b = a'"
    using assms(1) p d open' by (cases r) (auto simp: onReceive_def act_defs writeErr_def split: if_splits)
  note d = d [unfolded this]
  show ?thesis
  proof (cases "pk_type p = type_code SESSION_PART1 \<or> pk_type p = type_code SESSION_PART2")
    case False
    then have "keeps (handshaking i) (dispatch_packet E p)"
      unfolding dispatch_packet_def Let_def
      by (simp only: de_Morgan_disj if_False) (intro keeps_rules hs_data.keeps_onReceiveHello hs_data.keeps_onReceiveWelcome
        hs_data.keeps_onReceiveSessionAck hs_data.keeps_onReceiveAck hs_nack.keeps_onReceiveNack hs_data.keeps_onReceiveData
        hs_reader.keeps_onReceiveKeyReqParts)
    from keeps_result [OF this assms(2) d] assms(3) show ?thesis by blast
  next
    case True
    then obtain f where f: "part_handler E p f a = (r, a')"
      "pk_type p = type_code SESSION_PART1 \<and> f = (\<lambda>s. s\<lparr>s_part1 := pk_payload p\<rparr>) \<or>
       pk_type p = type_code SESSION_PART2 \<and> f = (\<lambda>s. s\<lparr>s_part2 := pk_payload p\<rparr>)"
      using d by (auto simp: dispatch_packet_def part_handler_def onReceiveSessionPart1_def onReceiveSessionPart2_def)
    from part_handler_only [OF assms(2) f(1) assms(3)] f(2) p show ?thesis by fastforce
  qed
qed

section \<open>A proven session is established\<close>

definition exchanging_with :: "int \<Rightarrow> bytes \<Rightarrow> 'p adapter \<Rightarrow> bool" where
  "exchanging_with i key a = (\<exists>s. map_of (a_sessions a) i = Some s \<and> s_state s = STATE_EXCHANGING \<and> rt_key (s_base s) = key)"

definition keeps_exchange :: "('p session \<Rightarrow> 'p session) \<Rightarrow> bool" where
  "keeps_exchange f = (\<forall>s. s_state (f s) = s_state s \<and> rt_key (s_base (f s)) = rt_key (s_base s))"

lemma exchanging_update: "exchanging_with i key a \<Longrightarrow> keeps_exchange f \<Longrightarrow> a_sessions b = um_update j f (a_sessions a) \<Longrightarrow>
    exchanging_with i key b"
  by (auto simp: exchanging_with_def keeps_exchange_def map_of_um)

definition keeps_base_key :: "('p retr \<Rightarrow> 'p retr) \<Rightarrow> bool" where
  "keeps_base_key h = (\<forall>b. rt_key (h b) = rt_key b)"

interpretation exch: core_frame "exchanging_with i key" keeps_exchange "\<lambda>_. True" keeps_base_key for i key
proof (unfold_locales, goal_cases)
  case (4 a f j)
  then show ?case by (rule exchanging_update) simp
next
  case (7 a n key' nonce)
  then show ?case by (auto simp: exchanging_with_def map_of_um)
qed (simp_all add: exchanging_with_def keeps_exchange_def keeps_base_key_def addPacketToMap_def removeHandshakePackets_def
    removePacketFromMap_def erase_items_def Let_def)

text \<open>The session key that a proven session message carries.\<close>

definition carries :: "'p udp_env \<Rightarrow> bytes \<Rightarrow> bytes \<Rightarrow> bytes \<Rightarrow> bool" where
  "carries E part1 key nonce =
     (\<exists>plain xs. own_decrypt E part1 = Inr plain \<and> bossLoadArray (u_keys E) plain = Inr xs \<and> bytes_at xs 0 = Inr key \<and>
        bytes_at xs 1 = Inr nonce)"

lemma sendSessionAck_ok:
  assumes "env_ok E" "\<not> a_throw a" "map_of (a_sessions a) i = Some s"
  shows "\<exists>a1. sendSessionAck E i a = (Inr (), a1) \<and> same_tables a a1"
proof -
  define b where "b = a\<lparr>a_draw := a_draw a + 1\<rparr>"
  obtain pid c where c: "getNextPacketId b = (Inr pid, c)" by (simp add: getNextPacketId_def)
  obtain enc where enc: "eta_encrypt_act E (rt_key (s_base s)) (sprng E (a_draw a) 32) c = (Inr enc, c\<lparr>a_draw := a_draw c + 1\<rparr>)"
    using eta_encrypt_act_ok [OF assms(1)] by blast
  have "\<not> a_throw (c\<lparr>a_draw := a_draw c + 1\<rparr>)" using c assms(2) by (auto simp: getNextPacketId_def b_def)
  from sendPacketTo_ok [OF this] obtain a1 where a1: "sendPacketTo E (rt_node (s_base s))
      (new_packet pid (n_number (a_own c)) (n_number (rt_node (s_base s))) SESSION_ACK enc) (c\<lparr>a_draw := a_draw c + 1\<rparr>) = (Inr (), a1)"
    by blast
  have "bnd (random_bytes E 32) f a = f (sprng E (a_draw a) 32) b" for f :: "bytes \<Rightarrow> ('a, unit) act"
    by (simp add: random_bytes_def next_draw_def bnd_def ret_def b_def)
  moreover have "map_of (a_sessions b) i = Some s" using assms(3) by (simp add: b_def)
  ultimately have run: "sendSessionAck E i a = (Inr (), a1)"
    using c enc a1 by (simp add: sendSessionAck_def session_at_run Let_def bnd_run [where m = getNextPacketId]
      bnd_run [where m = "eta_encrypt_act E _ _"]) (simp add: bnd_def gets_def)
  with keeps_result [OF wire.keeps_sendSessionAck _ run] show ?thesis by simp
qed

lemma onReceiveSession_completes:
  assumes "env_ok E" "\<not> a_throw a" "map_of (a_sessions a) i = Some s" "proven E s (s_part1 s) (s_part2 s)"
    "carries E (s_part1 s) key (s_localNonce s)" "onReceiveSession E i a = (res, a')"
  shows "exchanging_with i key a'"
proof -
  obtain plain xs where m: "own_decrypt E (s_part1 s) = Inr plain" "bossLoadArray (u_keys E) plain = Inr xs"
    "bytes_at xs 0 = Inr key" "bytes_at xs 1 = Inr (s_localNonce s)" using assms(5) by (auto simp: carries_def)
  obtain a1 where a1: "sendSessionAck E i a = (Inr (), a1)" "same_tables a a1"
    using sendSessionAck_ok [OF assms(1-3)] by blast
  obtain a2 where a2: "upd_base (Sess i) (\<lambda>b. b\<lparr>rt_key := key\<rparr>) a1 = (Inr (), a2)" by (simp add: upd_session_def modify_def)
  obtain a3 where a3: "upd_session i (\<lambda>s. s\<lparr>s_state := STATE_EXCHANGING\<rparr>) a2 = (Inr (), a3)" by (simp add: upd_session_def modify_def)
  have ex: "exchanging_with i key a3"
    using a1(2) a2 a3 assms(3) by (auto simp: upd_session_def modify_def exchanging_with_def map_of_um same_tables_def)
  obtain r b where pulse: "pulse_party E (Sess i) a3 = (r, b)" by fastforce
  have b: "exchanging_with i key b" by (rule keeps_result [OF exch.keeps_pulse_party ex pulse])
  let ?tail = "sq (sendSessionAck E i) (sq (upd_base (Sess i) (\<lambda>b. b\<lparr>rt_key := key\<rparr>))
      (sq (upd_session i (\<lambda>s. s\<lparr>s_state := STATE_EXCHANGING\<rparr>)) (pulse_party E (Sess i))))"
  have tail: "?tail a = (r, b)"
    unfolding sq_run [where m = "sendSessionAck E i" and a = a, OF a1(1)] sq_run [where m = "upd_base _ _" and a = a1, OF a2]
      sq_run [where m = "upd_session _ _" and a = a2, OF a3] by (rule pulse)
  have "onReceiveSession E i a = try_catch ?tail writeErr a"
    using assms(4) m by (simp add: onReceiveSession_def session_at_run [OF assms(3)] proven_def guarded_def try_catch_def
      lift_run del: upd_base.simps)
  then have "(res, a') = try_catch ?tail writeErr a" using assms(6) by simp
  then have "a' = b" unfolding try_catch_def tail by (cases r) (auto simp: writeErr_def split: if_splits)
  with b show ?thesis by simp
qed

lemma getOrCreateSession_known: "map_of (a_sessions a) (n_number n) = Some s \<Longrightarrow> getOrCreateSession E n a = (Inr (n_number n), a)"
  by (simp add: getOrCreateSession_def act_defs)

lemma part_handler_completes:
  assumes "env_ok E" "\<not> a_throw a" "getInfo (a_conf a) (pk_sender p) = Inr n" "map_of (a_sessions a) (n_number n) = Some s"
    "s_state s = STATE_HANDSHAKE" "s_step s = STEP_WAIT_FOR_SESSION" "\<not> remembered (pk_id p) (rt_dupes (s_base s))"
    "proven E s (s_part1 (f s)) (s_part2 (f s))" "carries E (s_part1 (f s)) key (s_localNonce s)"
    "part_handler E p f a = (res, a')"
    and f: "\<And>s. s_base (f s) = s_base s \<and> s_state (f s) = s_state s \<and> s_localNonce (f s) = s_localNonce s"
      "\<And>s b. s_part1 (f (s\<lparr>s_base := b\<rparr>)) = s_part1 (f s) \<and> s_part2 (f (s\<lparr>s_base := b\<rparr>)) = s_part2 (f s)"
  shows "exchanging_with (n_number n) key a'"
proof -
  let ?j = "n_number n"
  let ?b = "(s_base s)\<lparr>rt_dupes := snd (protectFromDuples (pk_id p) (rt_dupes (s_base s)))\<rparr>"
  obtain a2 where a2: "is_new (Sess ?j) (pk_id p) a = (Inr True, a2)" "map_of (a_sessions a2) ?j = Some (s\<lparr>s_base := ?b\<rparr>)"
      "a_throw a2 = a_throw a"
    using is_new_session [OF assms(4), of "pk_id p"] assms(4,7) by (auto simp: map_of_um protect_fresh)
  obtain a3 where a3: "upd_base (Sess ?j) removeHandshakePackets a2 = (Inr (), a3)" by (simp add: upd_session_def modify_def)
  define b where "b = removeHandshakePackets ?b"
  have s3: "map_of (a_sessions a3) ?j = Some (s\<lparr>s_base := b\<rparr>)" "a_throw a3 = a_throw a"
    using a3 a2 by (auto simp: upd_session_def modify_def map_of_um b_def)
  obtain a4 where a4: "upd_session ?j f a3 = (Inr (), a4)" by (simp add: upd_session_def modify_def)
  have s4: "map_of (a_sessions a4) ?j = Some (f (s\<lparr>s_base := b\<rparr>))" "\<not> a_throw a4"
    using a4 s3 assms(2) by (auto simp: upd_session_def modify_def map_of_um)
  have step: "s_state (s\<lparr>s_base := b\<rparr>) = STATE_HANDSHAKE \<and> s_step (s\<lparr>s_base := b\<rparr>) = STEP_WAIT_FOR_SESSION"
    using assms(5,6) by simp
  have run: "onReceiveSession E ?j a4 = (res, a')"
    using assms(10) step unfolding part_handler_def conf_info_run [where a = a, OF assms(3)]
      bnd_run [where m = "getOrCreateSession E n" and a = a, OF getOrCreateSession_known [OF assms(4)]]
      bnd_run [where m = "is_new (Sess ?j) (pk_id p)" and a = a, OF a2(1)] guarded_def if_True
      sq_run [where m = "upd_base (Sess ?j) removeHandshakePackets" and a = a2, OF a3] session_at_run [where a = a3, OF s3(1)]
    by (simp add: sq_run [where m = "upd_session ?j f" and a = a3, OF a4])
  have "rt_node b = rt_node (s_base s)" by (simp add: b_def remove_keeps_node)
  then have "proven E (f (s\<lparr>s_base := b\<rparr>)) (s_part1 (f s)) (s_part2 (f s))"
    using assms(8) f(1) [of "s\<lparr>s_base := b\<rparr>"] by (simp add: proven_def)
  with onReceiveSession_completes [OF assms(1) s4(2,1) _ _ run] assms(9) f show ?thesis by simp
qed

lemma onReceive_completes:
  assumes "env_ok E" "\<not> a_throw a" "\<not> a_closed a" "parse_packet (u_keys E) bs = Inr p"
    "getInfo (a_conf a) (pk_sender p) = Inr n" "map_of (a_sessions a) (n_number n) = Some s"
    "s_state s = STATE_HANDSHAKE" "s_step s = STEP_WAIT_FOR_SESSION" "\<not> remembered (pk_id p) (rt_dupes (s_base s))"
    "pk_type p = type_code SESSION_PART1 \<and> part1 = pk_payload p \<and> part2 = s_part2 s \<or>
     pk_type p = type_code SESSION_PART2 \<and> part1 = s_part1 s \<and> part2 = pk_payload p"
    "proven E s part1 part2" "carries E part1 key (s_localNonce s)"
  shows "exchanging_with (n_number n) key (snd (onReceive E bs a))"
proof -
  obtain f where f: "dispatch_packet E p = part_handler E p f" "s_part1 (f s) = part1 \<and> s_part2 (f s) = part2"
    "\<And>s. s_base (f s) = s_base s \<and> s_state (f s) = s_state s \<and> s_localNonce (f s) = s_localNonce s"
    "\<And>s b. s_part1 (f (s\<lparr>s_base := b\<rparr>)) = s_part1 (f s) \<and> s_part2 (f (s\<lparr>s_base := b\<rparr>)) = s_part2 (f s)"
  proof (cases "pk_type p = type_code SESSION_PART1")
    case True
    with assms(10) show ?thesis
      by (intro that [of "\<lambda>s. s\<lparr>s_part1 := pk_payload p\<rparr>"]) (auto simp: dispatch_packet_def part_handler_def onReceiveSessionPart1_def)
  next
    case False
    with assms(10) show ?thesis
      by (intro that [of "\<lambda>s. s\<lparr>s_part2 := pk_payload p\<rparr>"]) (auto simp: dispatch_packet_def part_handler_def onReceiveSessionPart2_def)
  qed
  obtain r b where d: "dispatch_packet E p a = (r, b)" by fastforce
  have "exchanging_with (n_number n) key b"
    using part_handler_completes [OF assms(1,2,5-9) _ _ d [unfolded f(1)] f(3,4)] f(2) assms(11,12) by simp
  then show ?thesis
    using d assms(3,4) by (cases r) (auto simp: onReceive_def act_defs writeErr_def)
qed

text \<open>
  C10: a session that waits for the session message is established with the key the message carries as
  soon as the second of its two parts arrives, in either order, signed by the peer and with the nonce
  this node sent; random sources and HMAC give the lengths they promise and errors are not thrown.
\<close>

theorem session_completes:
  assumes "env_ok E" "\<not> a_throw a" "\<not> a_closed a" "parse_packet (u_keys E) bs = Inr p"
    "getInfo (a_conf a) (pk_sender p) = Inr n" "map_of (a_sessions a) (n_number n) = Some s"
    "s_state s = STATE_HANDSHAKE" "s_step s = STEP_WAIT_FOR_SESSION" "\<not> remembered (pk_id p) (rt_dupes (s_base s))"
    "pk_type p = type_code SESSION_PART1 \<and> part1 = pk_payload p \<and> part2 = s_part2 s \<or>
     pk_type p = type_code SESSION_PART2 \<and> part1 = s_part1 s \<and> part2 = pk_payload p"
    "proven E s part1 part2" "carries E part1 key (s_localNonce s)"
  shows "exchanging_with (n_number n) key (snd (onReceive E bs a))"
  using assms by (rule onReceive_completes)

section \<open>Applied to two nodes\<close>

lemma toy_proven: "proven (toy_env 1) toy_session toy_part1 (2 # toy_part1)" "carries (toy_env 1) toy_part1 toy_key [9, 9]"
  using toy_parts toy_packed
  by (auto simp: proven_def carries_def bytes_at_def array_at_def lift_boss_def bytes_asInstance_def toy_part1_def)

lemmas toy_session_applies = toy_env_ok toy_message toy_known toy_proven remembered_def no_dupes_def new_packet_def

lemma session_completes_witness: "exchanging_with 2 toy_key (snd (onReceive (toy_env 1) toy_message toy_initiator))"
  using session_completes [OF toy_env_ok _ _ toy_message, of toy_initiator "toy_node 2" toy_session toy_part1 "2 # toy_part1" toy_key]
  by (simp add: toy_session_applies)

lemma toy_completes: "exchanging_with 2 toy_key (snd (onReceive (toy_env 1) toy_message toy_initiator))"
  using onReceive_completes [OF toy_env_ok _ _ toy_message, of toy_initiator "toy_node 2" toy_session toy_part1 "2 # toy_part1" toy_key]
  by (simp add: toy_session_applies)

lemma session_established_witness:
  "\<exists>p n s. parse_packet (u_keys (toy_env 1)) toy_message = Inr p \<and> getInfo (a_conf toy_initiator) (pk_sender p) = Inr n \<and>
    n_number n = 2 \<and> map_of (a_sessions toy_initiator) 2 = Some s \<and> s_step s = STEP_WAIT_FOR_SESSION \<and>
    (pk_type p = type_code SESSION_PART1 \<and> proven (toy_env 1) s (pk_payload p) (s_part2 s) \<or>
     pk_type p = type_code SESSION_PART2 \<and> proven (toy_env 1) s (s_part1 s) (pk_payload p))"
proof (rule session_established [OF prod.collapse [symmetric]])
  show "handshaking 2 toy_initiator" by (simp add: handshaking_def)
  show "\<not> handshaking 2 (snd (onReceive (toy_env 1) toy_message toy_initiator))"
    using toy_completes by (auto simp: exchanging_with_def handshaking_def)
qed

end
