(* ===== verification/UdpAccept.thy ===== *)
theory UdpAccept
  imports UdpWire UdpSample
begin

text \<open>
  When the reader of a node gets a new key: only when both parts of a key request are there, the node
  has signed them, and they decrypt to the nonce that this node sent with its welcome.
\<close>

definition reader_key_is :: "int \<Rightarrow> bytes option \<Rightarrow> 'p adapter \<Rightarrow> bool" where
  "reader_key_is i K a = (map_option (\<lambda>r. rt_key (r_base r)) (map_of (a_readers a) i) = K)"

definition candidates_filed :: "'p adapter \<Rightarrow> bool" where
  "candidates_filed a = (\<forall>k r. map_of (a_candidates a) k = Some r \<longrightarrow> n_number (rt_node (r_base r)) = k)"

definition unaccepted :: "int \<Rightarrow> bytes option \<Rightarrow> 'p adapter \<Rightarrow> bool" where
  "unaccepted i K a = (reader_key_is i K a \<and> candidates_filed a)"

definition keeps_key_node :: "('p retr \<Rightarrow> 'p retr) \<Rightarrow> bool" where
  "keeps_key_node h = (\<forall>b. rt_key (h b) = rt_key b \<and> rt_node (h b) = rt_node b)"

definition keeps_reader_key :: "('p sreader \<Rightarrow> 'p sreader) \<Rightarrow> bool" where
  "keeps_reader_key g = (\<forall>r. rt_key (r_base (g r)) = rt_key (r_base r) \<and> rt_node (r_base (g r)) = rt_node (r_base r))"

lemma unaccepted_readers:
  assumes "unaccepted i K a" "keeps_reader_key g"
  shows "unaccepted i K (a\<lparr>a_readers := um_update k g (a_readers a)\<rparr>)"
  using assms by (cases "map_of (a_readers a) k")
    (auto simp: unaccepted_def reader_key_is_def candidates_filed_def keeps_reader_key_def map_of_um)

lemma unaccepted_candidates:
  assumes "unaccepted i K a" "\<And>r. rt_node (r_base (g r)) = rt_node (r_base r)"
  shows "unaccepted i K (a\<lparr>a_candidates := um_update k g (a_candidates a)\<rparr>)"
  using assms by (auto simp: unaccepted_def reader_key_is_def candidates_filed_def map_of_um split: if_splits)

interpretation un: data_frame "unaccepted i K" "\<lambda>_. True" keeps_reader_key keeps_key_node for i K
proof (unfold_locales, goal_cases)
  case (5 a g i)
  then show ?case by (rule unaccepted_readers)
next
  case (6 a g i)
  then show ?case by (intro unaccepted_candidates) (auto simp: keeps_reader_key_def)
next
  case (8 a n key)
  then show ?case
    by (auto simp: unaccepted_def reader_key_is_def candidates_filed_def map_of_um new_sreader_def new_retr_def split: if_splits)
qed (auto simp: unaccepted_def reader_key_is_def candidates_filed_def keeps_reader_key_def keeps_key_node_def addPacketToMap_def
    removeHandshakePackets_def removePacketFromMap_def erase_items_def Let_def)

interpretation un_session: session_frame "unaccepted i K" "\<lambda>_. True" keeps_reader_key keeps_key_node for i K
  by unfold_locales simp_all

interpretation un_nack: nack_frame "unaccepted i K" "\<lambda>_. True" keeps_reader_key keeps_key_node for i K
  by unfold_locales simp

lemma keeps_candidate_key: "keeps (unaccepted i K) (upd_base (Candidate j) (\<lambda>b. b\<lparr>rt_key := key\<rparr>))"
  by (simp add: upd_candidate_def) (intro keeps_modify unaccepted_candidates, simp_all)

lemma keeps_accept_other:
  assumes "j \<noteq> i"
  shows "keeps (unaccepted i K) (bnd (candidate_at j) (\<lambda>r. sq (acceptCandidate r) (sendSessionKey E (f r))))"
proof (rule keeps_bnd_post [where Q = "\<lambda>r. n_number (rt_node (r_base r)) = j"])
  show "n_number (rt_node (r_base x)) = j" if "unaccepted i K a" "candidate_at j a = (Inr x, a')" for a x a'
    using that by (auto simp: candidate_at_def lookup_or_def unaccepted_def candidates_filed_def split: option.splits)
  show "keeps (unaccepted i K) (sq (acceptCandidate x) (sendSessionKey E (f x)))" if "n_number (rt_node (r_base x)) = j" for x
    using that assms by (intro un.keeps_steps)
      (auto simp: keeps_def acceptCandidate_eq Let_def unaccepted_def reader_key_is_def candidates_filed_def map_of_um split: if_splits)
qed (intro keeps_rules)

lemma onReceiveKeyReq_other: "j \<noteq> i \<Longrightarrow> keeps (unaccepted i K) (onReceiveKeyReq E j)"
  unfolding onReceiveKeyReq_def
  by (intro keeps_accept_other keeps_candidate_key un.keeps_steps un.keeps_candidate_fields) simp_all

text \<open>What a node has to prove.\<close>

definition request_proven :: "'p udp_env \<Rightarrow> 'p sreader \<Rightarrow> bytes \<Rightarrow> bytes \<Rightarrow> bool" where
  "request_proven E r part1 part2 =
     (part1 \<noteq> [] \<and> part2 \<noteq> [] \<and> pub_verify E (n_key (rt_node (r_base r))) part2 part1 \<and>
      (\<exists>plain xs nonce. own_decrypt E part1 = Inr plain \<and> bossLoadArray (u_keys E) plain = Inr xs \<and>
         bytes_at xs 0 = Inr nonce \<and> bytes_at xs 1 = Inr (r_localNonce r)))"

lemma onReceiveKeyReq_only:
  assumes "unaccepted i K a" "onReceiveKeyReq E j a = (res, a')" "\<not> unaccepted i K a'"
  shows "j = i \<and> (\<exists>r. map_of (a_candidates a) i = Some r \<and> request_proven E r (r_part1 r) (r_part2 r))"
proof -
  have j: "j = i" using keeps_result [OF onReceiveKeyReq_other assms(1,2)] assms(3) by blast
  obtain r where r: "map_of (a_candidates a) i = Some r"
    using assms j by (cases "map_of (a_candidates a) i") (auto simp: onReceiveKeyReq_def bnd_def candidate_at_def lookup_or_def)
  note run = assms(2) [unfolded j onReceiveKeyReq_def bnd_def [of "candidate_at i"] candidate_at_def [of i a] lookup_or_def r, simplified]
  have err: "a' = a" if "writeErr a = (x, a')" for x
    using that by (auto simp: writeErr_def split: if_splits)
  have parts: "r_part1 r \<noteq> []" "r_part2 r \<noteq> []"
    using run assms(1,3) by (auto simp: guarded_def skip_def ret_def split: if_splits)
  note run = run [unfolded guarded_def [of "_ \<and> _"], simplified parts, simplified, unfolded try_catch_def]
  obtain plain where plain: "own_decrypt E (r_part1 r) = Inr plain"
    using run assms(1,3) by (cases "own_decrypt E (r_part1 r)") (auto simp: lift_def bnd_def dest: err split: if_splits)
  obtain xs where xs: "bossLoadArray (u_keys E) plain = Inr xs"
    using run assms(1,3) by (cases "bossLoadArray (u_keys E) plain") (auto simp: lift_def bnd_def plain dest: err split: if_splits)
  obtain nonce where nonce: "bytes_at xs 0 = Inr nonce"
    using run assms(1,3) by (cases "bytes_at xs 0") (auto simp: lift_def bnd_def plain xs dest: err split: if_splits)
  obtain remote where remote: "bytes_at xs 1 = Inr remote"
    using run assms(1,3) by (cases "bytes_at xs 1") (auto simp: lift_def bnd_def plain xs nonce dest: err split: if_splits)
  have eq: "remote = r_localNonce r"
    using run assms(1,3) by (cases "remote = r_localNonce r")
      (auto simp: lift_def bnd_def plain xs nonce remote [simplified] guarded_def skip_def ret_def)
  have "pub_verify E (n_key (rt_node (r_base r))) (r_part2 r) (r_part1 r)"
    using run assms(1,3) by (cases "pub_verify E (n_key (rt_node (r_base r))) (r_part2 r) (r_part1 r)")
      (auto simp: lift_def bnd_def plain xs nonce remote [simplified] guarded_def eq writeErr_def split: if_splits)
  with parts plain xs nonce remote eq r j show ?thesis by (auto simp: request_proven_def)
qed

section \<open>The handlers of the two parts\<close>

definition request_handler :: "'p udp_env \<Rightarrow> packet \<Rightarrow> ('p sreader \<Rightarrow> 'p sreader) \<Rightarrow> ('p, unit) act" where
  "request_handler E p f =
     bnd (getOrCreateCandidate E (pk_sender p)) (\<lambda>i.
     bnd (is_new (Candidate i) (pk_id p)) (\<lambda>ok.
     guarded ok
       (sq (upd_base (Candidate i) removeHandshakePackets)
       (sq (upd_candidate i f)
           (onReceiveKeyReq E i)))))"

lemma getOrCreateCandidate_run:
  assumes "getOrCreateCandidate E i a = (Inr j, a1)"
  shows "\<exists>n r. getInfo (a_conf a) i = Inr n \<and> n_number n = j \<and> map_of (a_candidates a1) j = Some r \<and>
    (map_of (a_candidates a) j = Some r \<or> r_part1 r = [] \<and> r_part2 r = [])"
proof -
  obtain n where n: "getInfo (a_conf a) i = Inr n"
    using assms by (cases "getInfo (a_conf a) i") (auto simp: getOrCreateCandidate_def bnd_def conf_info_def)
  then show ?thesis
    using assms by (cases "map_of (a_candidates a) (n_number n)")
      (auto simp: getOrCreateCandidate_def act_defs conf_info_def random_bytes_def next_draw_def map_of_um new_sreader_def)
qed

lemma is_new_candidate:
  assumes "map_of (a_candidates a) i = Some r" "is_new (Candidate i) pid a = (x, b)"
  shows "x = Inr (\<not> remembered pid (rt_dupes (r_base r))) \<and>
    map_of (a_candidates b) i = Some (r\<lparr>r_base := (r_base r)\<lparr>rt_dupes := snd (protectFromDuples pid (rt_dupes (r_base r)))\<rparr>\<rparr>)"
  using assms by (auto simp: is_new_def act_defs upd_candidate_def candidate_at_def lookup_or_def map_of_um protect_fresh)

lemma request_handler_only:
  assumes "unaccepted i K a" "request_handler E p f a = (res, a')" "\<not> unaccepted i K a'"
    and f: "\<And>r. r_base (f r) = r_base r \<and> r_localNonce (f r) = r_localNonce r"
      "\<And>r b. r_part1 (f (r\<lparr>r_base := b\<rparr>)) = r_part1 (f r) \<and> r_part2 (f (r\<lparr>r_base := b\<rparr>)) = r_part2 (f r)"
    and other: "\<And>r. r_part1 r = [] \<Longrightarrow> r_part2 r = [] \<Longrightarrow> r_part1 (f r) = [] \<or> r_part2 (f r) = []"
  shows "\<exists>n r. getInfo (a_conf a) (pk_sender p) = Inr n \<and> n_number n = i \<and> map_of (a_candidates a) i = Some r \<and>
    request_proven E r (r_part1 (f r)) (r_part2 (f r))"
proof -
  obtain x a1 where x: "getOrCreateCandidate E (pk_sender p) a = (x, a1)" by fastforce
  have h1: "unaccepted i K a1" by (rule keeps_result [OF un.keeps_getOrCreateCandidate assms(1) x])
  obtain j where j: "x = Inr j"
    using x h1 assms(2,3) by (cases x) (auto simp: request_handler_def bnd_def)
  obtain n r where n: "getInfo (a_conf a) (pk_sender p) = Inr n" "n_number n = j" "map_of (a_candidates a1) j = Some r"
    "map_of (a_candidates a) j = Some r \<or> r_part1 r = [] \<and> r_part2 r = []"
    using getOrCreateCandidate_run x j by blast
  obtain y a2 where y: "is_new (Candidate j) (pk_id p) a1 = (y, a2)" by fastforce
  note new = is_new_candidate [OF n(3) y]
  have h2: "unaccepted i K a2" by (rule keeps_result [OF un.keeps_is_new h1 y])
  let ?ok = "\<not> remembered (pk_id p) (rt_dupes (r_base r))"
  have yr: "is_new (Candidate j) (pk_id p) a1 = (Inr ?ok, a2)" using y new by simp
  obtain a3 where a3: "upd_base (Candidate j) removeHandshakePackets a2 = (Inr (), a3)" by (simp add: upd_candidate_def modify_def)
  obtain a4 where a4: "upd_candidate j f a3 = (Inr (), a4)" by (simp add: upd_candidate_def modify_def)
  have run: "guarded ?ok (sq (upd_base (Candidate j) removeHandshakePackets) (sq (upd_candidate j f) (onReceiveKeyReq E j))) a2 = (res, a')"
    using assms(2) unfolding request_handler_def bnd_run [where m = "getOrCreateCandidate E (pk_sender p)" and a = a, OF x [unfolded j]]
      bnd_run [where m = "is_new (Candidate j) (pk_id p)" and a = a1, OF yr] .
  have ok: ?ok using run h2 assms(3) by (auto simp: guarded_def skip_def ret_def split: if_splits)
  have "sq (upd_base (Candidate j) removeHandshakePackets) (sq (upd_candidate j f) (onReceiveKeyReq E j)) a2 = (res, a')"
    using run ok by (simp add: guarded_def del: upd_base.simps)
  then have run: "onReceiveKeyReq E j a4 = (res, a')"
    unfolding sq_run [where m = "upd_base _ _" and a = a2, OF a3] sq_run [where m = "upd_candidate _ _" and a = a3, OF a4] .
  have h3: "unaccepted i K a3" by (rule keeps_result [OF un.keeps_upd_map(1) h2 a3])
  have "keeps_reader_key f" using f(1) by (simp add: keeps_reader_key_def)
  from keeps_result [OF un.keeps_upd_candidate [OF this] h3 a4] have h4: "unaccepted i K a4" .
  define b where "b = removeHandshakePackets ((r_base r)\<lparr>rt_dupes := snd (protectFromDuples (pk_id p) (rt_dupes (r_base r)))\<rparr>)"
  have r4: "map_of (a_candidates a4) j = Some (f (r\<lparr>r_base := b\<rparr>))"
    using new a3 a4 by (auto simp: upd_candidate_def modify_def map_of_um b_def)
  have node: "rt_node b = rt_node (r_base r)" by (simp add: b_def removeHandshakePackets_def Let_def)
  from onReceiveKeyReq_only [OF h4 run assms(3)] r4 f(2)
  have p: "j = i" "request_proven E (f (r\<lparr>r_base := b\<rparr>)) (r_part1 (f r)) (r_part2 (f r))" by auto
  then have "request_proven E r (r_part1 (f r)) (r_part2 (f r))"
    using f(1) [of "r\<lparr>r_base := b\<rparr>"] node by (simp add: request_proven_def)
  moreover have "map_of (a_candidates a) j = Some r"
    using n(4) other [of r] calculation by (auto simp: request_proven_def)
  ultimately show ?thesis using n p(1) by blast
qed

text \<open>
  C7: the reader of a node appears or gets another key only through a key request of that node: a part
  of it arrives, with the part stored earlier it is signed with the key of the node, and it decrypts
  with the key of this node to a nonce and the nonce of the candidate.
\<close>

theorem reader_accepted:
  assumes "onReceive E bs a = (res, a')" "candidates_filed a"
    "map_option (\<lambda>r. rt_key (r_base r)) (map_of (a_readers a') i) \<noteq> map_option (\<lambda>r. rt_key (r_base r)) (map_of (a_readers a) i)"
  shows "\<exists>p n r. parse_packet (u_keys E) bs = Inr p \<and> getInfo (a_conf a) (pk_sender p) = Inr n \<and> n_number n = i \<and>
    map_of (a_candidates a) i = Some r \<and>
    (pk_type p = type_code KEY_REQ_PART1 \<and> request_proven E r (pk_payload p) (r_part2 r) \<or>
     pk_type p = type_code KEY_REQ_PART2 \<and> request_proven E r (r_part1 r) (pk_payload p))"
proof -
  let ?K = "map_option (\<lambda>r. rt_key (r_base r)) (map_of (a_readers a) i)"
  have before: "unaccepted i ?K a" using assms(2) by (simp add: unaccepted_def reader_key_is_def)
  have after: "\<not> unaccepted i ?K a'" using assms(3) by (simp add: unaccepted_def reader_key_is_def)
  have open': "\<not> a_closed a" using assms(1,3) by (auto simp: onReceive_def act_defs)
  obtain p where p: "parse_packet (u_keys E) bs = Inr p"
    using assms(1,3) by (cases "parse_packet (u_keys E) bs") (auto simp: onReceive_def act_defs writeErr_def split: if_splits)
  obtain x b where d: "dispatch_packet E p a = (x, b)" by fastforce
  have "b = a'"
    using assms(1) p d open' by (cases x) (auto simp: onReceive_def act_defs writeErr_def split: if_splits)
  note d = d [unfolded this]
  show ?thesis
  proof (cases "pk_type p = type_code KEY_REQ_PART1 \<or> pk_type p = type_code KEY_REQ_PART2")
    case False
    then have "keeps (unaccepted i ?K) (dispatch_packet E p)"
      unfolding dispatch_packet_def Let_def
      by (simp only: de_Morgan_disj if_False) (intro keeps_rules un.keeps_onReceiveHello un.keeps_onReceiveWelcome
        un.keeps_onReceiveSessionAck un.keeps_onReceiveAck un_nack.keeps_onReceiveNack un.keeps_onReceiveData
        un_session.keeps_onReceiveSessionParts)
    from keeps_result [OF this before d] after show ?thesis by blast
  next
    case True
    then obtain f where f: "request_handler E p f a = (x, a')"
      "pk_type p = type_code KEY_REQ_PART1 \<and> f = (\<lambda>r. r\<lparr>r_part1 := pk_payload p\<rparr>) \<or>
       pk_type p = type_code KEY_REQ_PART2 \<and> f = (\<lambda>r. r\<lparr>r_part2 := pk_payload p\<rparr>)"
      using d by (auto simp: dispatch_packet_def request_handler_def onReceiveKeyReqPart1_def onReceiveKeyReqPart2_def)
    from request_handler_only [OF before f(1) after] f(2) p show ?thesis by fastforce
  qed
qed

section \<open>A proven request is accepted\<close>

lemma onReceiveKeyReq_completes:
  assumes "candidates_filed a" "map_of (a_candidates a) i = Some r" "request_proven E r (r_part1 r) (r_part2 r)"
    "onReceiveKeyReq E i a = (res, a')"
  shows "unaccepted i (Some (sprng E (a_draw a) 32)) a'"
proof -
  obtain plain xs nonce where m: "own_decrypt E (r_part1 r) = Inr plain" "bossLoadArray (u_keys E) plain = Inr xs"
    "bytes_at xs 0 = Inr nonce" "bytes_at xs 1 = Inr (r_localNonce r)" using assms(3) by (auto simp: request_proven_def)
  define a1 where "a1 = a\<lparr>a_candidates := um_update i (\<lambda>r. r\<lparr>r_remoteNonce := nonce\<rparr>) (a_candidates a)\<rparr>"
  define key where "key = sprng E (a_draw a) 32"
  define a3 where "a3 = a1\<lparr>a_draw := a_draw a + 1, a_candidates := um_update i (\<lambda>r. r\<lparr>r_base := (r_base r)\<lparr>rt_key := key\<rparr>\<rparr>) (a_candidates a1)\<rparr>"
  define r3 where "r3 = r\<lparr>r_remoteNonce := nonce, r_base := (r_base r)\<lparr>rt_key := key\<rparr>\<rparr>"
  have r3: "map_of (a_candidates a3) i = Some r3" using assms(2) by (simp add: a3_def a1_def map_of_um r3_def)
  have node: "n_number (rt_node (r_base r3)) = i" "rt_key (r_base r3) = key"
    using assms(1,2) by (auto simp: candidates_filed_def r3_def)
  define a4 where "a4 = snd (acceptCandidate r3 a3)"
  have a4: "acceptCandidate r3 a3 = (Inr (), a4)" by (simp add: a4_def acceptCandidate_eq Let_def)
  have h4: "unaccepted i (Some key) a4"
    using assms(1) node by (auto simp: a4_def acceptCandidate_eq Let_def unaccepted_def reader_key_is_def candidates_filed_def
      map_of_um a3_def a1_def split: if_splits)
  obtain x b where send: "sendSessionKey E (n_number (rt_node (r_base r3))) a4 = (x, b)" by fastforce
  have b: "unaccepted i (Some key) b" by (rule keeps_result [OF un.keeps_sendSessionKey h4 send])
  let ?tail = "sq (upd_candidate i (\<lambda>r. r\<lparr>r_remoteNonce := nonce\<rparr>)) (bnd (random_bytes E 32) (\<lambda>key.
      sq (upd_base (Candidate i) (\<lambda>b. b\<lparr>rt_key := key\<rparr>)) (bnd (candidate_at i) (\<lambda>r.
      sq (acceptCandidate r) (sendSessionKey E (n_number (rt_node (r_base r))))))))"
  have u1: "upd_candidate i (\<lambda>r. r\<lparr>r_remoteNonce := nonce\<rparr>) a = (Inr (), a1)" by (simp add: upd_candidate_def modify_def a1_def)
  have u2: "random_bytes E 32 a1 = (Inr key, a1\<lparr>a_draw := a_draw a + 1\<rparr>)"
    by (simp add: random_bytes_def next_draw_def bnd_def ret_def key_def a1_def)
  have u3: "upd_base (Candidate i) (\<lambda>b. b\<lparr>rt_key := key\<rparr>) (a1\<lparr>a_draw := a_draw a + 1\<rparr>) = (Inr (), a3)"
    by (simp add: upd_candidate_def modify_def a3_def)
  have tail: "?tail a = (x, b)"
    unfolding sq_run [where m = "upd_candidate _ _" and a = a, OF u1] bnd_run [where m = "random_bytes E 32" and a = a1, OF u2]
      sq_run [where m = "upd_base _ _" and a = "a1\<lparr>a_draw := a_draw a + 1\<rparr>", OF u3] candidate_at_run [where a = a3, OF r3]
      sq_run [where m = "acceptCandidate r3" and a = a3, OF a4] by (rule send)
  have "onReceiveKeyReq E i a = try_catch ?tail writeErr a"
    using assms(3) m by (simp add: onReceiveKeyReq_def candidate_at_run [OF assms(2)] request_proven_def guarded_def try_catch_def
      lift_run del: upd_base.simps)
  then have "(res, a') = try_catch ?tail writeErr a" using assms(4) by simp
  then have "a' = b" unfolding try_catch_def tail by (cases x) (auto simp: writeErr_def split: if_splits)
  with b show ?thesis by (simp add: key_def)
qed

lemma onReceive_accepts:
  assumes "candidates_filed a" "\<not> a_closed a" "parse_packet (u_keys E) bs = Inr p"
    "getInfo (a_conf a) (pk_sender p) = Inr n" "map_of (a_candidates a) (n_number n) = Some r"
    "\<not> remembered (pk_id p) (rt_dupes (r_base r))"
    "pk_type p = type_code KEY_REQ_PART1 \<and> part1 = pk_payload p \<and> part2 = r_part2 r \<or>
     pk_type p = type_code KEY_REQ_PART2 \<and> part1 = r_part1 r \<and> part2 = pk_payload p"
    "request_proven E r part1 part2"
  shows "\<exists>r'. map_of (a_readers (snd (onReceive E bs a))) (n_number n) = Some r' \<and> rt_key (r_base r') = sprng E (a_draw a) 32"
proof -
  let ?j = "n_number n"
  obtain f where f: "dispatch_packet E p = request_handler E p f" "r_part1 (f r) = part1 \<and> r_part2 (f r) = part2"
    "\<And>r. r_base (f r) = r_base r \<and> r_localNonce (f r) = r_localNonce r"
    "\<And>r b. r_part1 (f (r\<lparr>r_base := b\<rparr>)) = r_part1 (f r) \<and> r_part2 (f (r\<lparr>r_base := b\<rparr>)) = r_part2 (f r)"
  proof (cases "pk_type p = type_code KEY_REQ_PART1")
    case True
    with assms(7) show ?thesis
      by (intro that [of "\<lambda>r. r\<lparr>r_part1 := pk_payload p\<rparr>"]) (auto simp: dispatch_packet_def request_handler_def onReceiveKeyReqPart1_def)
  next
    case False
    with assms(7) show ?thesis
      by (intro that [of "\<lambda>r. r\<lparr>r_part2 := pk_payload p\<rparr>"]) (auto simp: dispatch_packet_def request_handler_def onReceiveKeyReqPart2_def)
  qed
  have get: "getOrCreateCandidate E (pk_sender p) a = (Inr ?j, a)"
    using assms(4,5) by (simp add: getOrCreateCandidate_def act_defs conf_info_def)
  obtain y a2 where y: "is_new (Candidate ?j) (pk_id p) a = (y, a2)" by fastforce
  from is_new_candidate [OF assms(5) y] assms(6) y
  have new: "is_new (Candidate ?j) (pk_id p) a = (Inr True, a2)" by simp
  have h2: "a_draw a2 = a_draw a" "candidates_filed a2"
    using new assms(1) by (auto simp: is_new_def act_defs upd_candidate_def candidate_at_def candidates_filed_def map_of_um split: if_splits sum.splits)
  obtain a3 where a3: "upd_base (Candidate ?j) removeHandshakePackets a2 = (Inr (), a3)" by (simp add: upd_candidate_def modify_def)
  obtain a4 where a4: "upd_candidate ?j f a3 = (Inr (), a4)" by (simp add: upd_candidate_def modify_def)
  define b where "b = removeHandshakePackets ((r_base r)\<lparr>rt_dupes := snd (protectFromDuples (pk_id p) (rt_dupes (r_base r)))\<rparr>)"
  have r4: "map_of (a_candidates a4) ?j = Some (f (r\<lparr>r_base := b\<rparr>))"
    using is_new_candidate [OF assms(5) new] a3 a4 by (auto simp: upd_candidate_def modify_def map_of_um b_def)
  have node: "rt_node (removeHandshakePackets x) = rt_node x" for x :: "'a retr" by (simp add: removeHandshakePackets_def Let_def)
  have h4: "candidates_filed a4" "a_draw a4 = a_draw a"
    using h2 a3 a4 f(3) node by (auto simp: upd_candidate_def modify_def candidates_filed_def map_of_um split: if_splits)
  obtain x c where run: "onReceiveKeyReq E ?j a4 = (x, c)" by fastforce
  have "request_proven E (f (r\<lparr>r_base := b\<rparr>)) (r_part1 (f (r\<lparr>r_base := b\<rparr>))) (r_part2 (f (r\<lparr>r_base := b\<rparr>)))"
    using assms(8) f(2,4) f(3) [of "r\<lparr>r_base := b\<rparr>"] node by (simp add: request_proven_def b_def)
  from onReceiveKeyReq_completes [OF h4(1) r4 this run]
  have c: "map_option (\<lambda>r. rt_key (r_base r)) (map_of (a_readers c) ?j) = Some (sprng E (a_draw a) 32)"
    by (simp add: h4(2) unaccepted_def reader_key_is_def)
  have "dispatch_packet E p a = (x, c)"
    unfolding f(1) request_handler_def bnd_run [where m = "getOrCreateCandidate E (pk_sender p)" and a = a, OF get]
      bnd_run [where m = "is_new _ _" and a = a, OF new] guarded_def if_True
      sq_run [where m = "upd_base _ _" and a = a2, OF a3] sq_run [where m = "upd_candidate _ _" and a = a3, OF a4] by (rule run)
  then have "snd (onReceive E bs a) = c"
    using assms(2,3) by (cases x) (auto simp: onReceive_def act_defs writeErr_def)
  with c show ?thesis by auto
qed

text \<open>
  the second part of a key request, in either order, that proves its node makes a reader for it
  with a new random key.
\<close>

theorem reader_completes:
  assumes "candidates_filed a" "\<not> a_closed a" "parse_packet (u_keys E) bs = Inr p"
    "getInfo (a_conf a) (pk_sender p) = Inr n" "map_of (a_candidates a) (n_number n) = Some r"
    "\<not> remembered (pk_id p) (rt_dupes (r_base r))"
    "pk_type p = type_code KEY_REQ_PART1 \<and> part1 = pk_payload p \<and> part2 = r_part2 r \<or>
     pk_type p = type_code KEY_REQ_PART2 \<and> part1 = r_part1 r \<and> part2 = pk_payload p"
    "request_proven E r part1 part2"
  shows "\<exists>r'. map_of (a_readers (snd (onReceive E bs a))) (n_number n) = Some r' \<and> rt_key (r_base r') = sprng E (a_draw a) 32"
  using assms by (rule onReceive_accepts)

section \<open>Applied to two nodes\<close>

lemma toy_request_proven: "request_proven (toy_env 1) toy_candidate toy_part1 (2 # toy_part1)"
  using toy_parts toy_packed
  by (auto simp: request_proven_def bytes_at_def array_at_def lift_boss_def bytes_asInstance_def toy_part1_def)

lemma toy_filed: "candidates_filed toy_responder"
  by (simp add: candidates_filed_def)

lemma toy_random_length: "length (sprng (toy_env k) d n) = n"
  by (simp add: toy_env_def)

lemmas toy_request_applies = toy_request_proven remembered_def no_dupes_def new_packet_def

lemma reader_completes_witness:
  "\<exists>r. map_of (a_readers (snd (onReceive (toy_env 1) toy_request toy_responder))) 2 = Some r \<and> length (rt_key (r_base r)) = 32"
  using reader_completes [OF toy_filed _ toy_request, of "toy_node 2" toy_candidate toy_part1 "2 # toy_part1"]
  by (auto simp: toy_request_applies toy_random_length)

lemma toy_accepts: "map_of (a_readers (snd (onReceive (toy_env 1) toy_request toy_responder))) 2 \<noteq> None"
  using onReceive_accepts [OF toy_filed _ toy_request, of "toy_node 2" toy_candidate toy_part1 "2 # toy_part1"]
  by (auto simp: toy_request_applies)

lemma reader_accepted_witness:
  "\<exists>p n r. parse_packet (u_keys (toy_env 1)) toy_request = Inr p \<and> getInfo (a_conf toy_responder) (pk_sender p) = Inr n \<and>
    n_number n = 2 \<and> map_of (a_candidates toy_responder) 2 = Some r \<and>
    (pk_type p = type_code KEY_REQ_PART1 \<and> request_proven (toy_env 1) r (pk_payload p) (r_part2 r) \<or>
     pk_type p = type_code KEY_REQ_PART2 \<and> request_proven (toy_env 1) r (r_part1 r) (pk_payload p))"
proof (rule reader_accepted [OF prod.collapse [symmetric]])
  show "candidates_filed toy_responder" by (rule toy_filed)
  show "map_option (\<lambda>r. rt_key (r_base r)) (map_of (a_readers (snd (onReceive (toy_env 1) toy_request toy_responder))) 2) \<noteq>
      map_option (\<lambda>r. rt_key (r_base r)) (map_of (a_readers toy_responder) 2)"
    using toy_accepts by auto
qed

end
