(* ===== verification/UdpInvariant.thy ===== *)
theory UdpInvariant
  imports UdpFrame UdpSample
begin

text \<open>
  The tables of the adapter in every state it can reach: keys are unique and are the numbers of the
  nodes they lead to, unacknowledged packets are filed under their own numbers, output queues are
  bounded, and the packet counter is positive.
\<close>

definition keyed :: "('v \<Rightarrow> int) \<Rightarrow> (int \<times> 'v) list \<Rightarrow> bool" where
  "keyed key m = (distinct (map fst m) \<and> (\<forall>(k, v) \<in> set m. key v = k))"

definition all_values :: "('v \<Rightarrow> bool) \<Rightarrow> (int \<times> 'v) list \<Rightarrow> bool" where
  "all_values Q m = (\<forall>(k, v) \<in> set m. Q v)"

lemma keys_update: "map fst (um_update k f m) = map fst m"
  by (induction m) (auto simp: um_update_def)

lemma keys_map: "map fst (map (\<lambda>(k, v). (k, f v)) m) = map fst m"
  by (induction m) auto

lemma keyed_update: "keyed key m \<Longrightarrow> (\<And>v. key (f v) = key v) \<Longrightarrow> keyed key (um_update k f m)"
  unfolding keyed_def keys_update by (auto simp: um_update_def)

lemma keyed_insert: "keyed key m \<Longrightarrow> key v = k \<Longrightarrow> keyed key (um_insert k v m)"
  by (auto simp: keyed_def um_insert_def map_of_eq_None_iff)

lemma keyed_filter: "keyed key m \<Longrightarrow> keyed key (filter Q m)"
  by (auto simp: keyed_def distinct_map_filter)

lemma keyed_map: "keyed key m \<Longrightarrow> (\<And>v. key (f v) = key v) \<Longrightarrow> keyed key (map (\<lambda>(k, v). (k, f v)) m)"
  unfolding keyed_def keys_map by auto

lemma keyed_erase: "keyed key m \<Longrightarrow> keyed key (um_erase k m)"
  unfolding um_erase_def by (rule keyed_filter)

lemma keyed_erases: "keyed key m \<Longrightarrow> keyed key (fold um_erase ks m)"
  by (induction ks arbitrary: m) (auto intro: keyed_erase)

lemmas keyed_ops = keyed_update keyed_insert keyed_filter keyed_map keyed_erase keyed_erases

lemma values_update: "all_values Q m \<Longrightarrow> (\<And>v. Q v \<Longrightarrow> Q (f v)) \<Longrightarrow> all_values Q (um_update k f m)"
  by (fastforce simp: all_values_def um_update_def)

lemma values_insert: "all_values Q m \<Longrightarrow> Q v \<Longrightarrow> all_values Q (um_insert k v m)"
  by (auto simp: all_values_def um_insert_def)

lemma values_filter: "all_values Q m \<Longrightarrow> all_values Q (filter R m)"
  by (auto simp: all_values_def)

lemma values_map: "all_values Q m \<Longrightarrow> (\<And>v. Q v \<Longrightarrow> Q (f v)) \<Longrightarrow> all_values Q (map (\<lambda>(k, v). (k, f v)) m)"
  by (fastforce simp: all_values_def)

lemma values_erase: "all_values Q m \<Longrightarrow> all_values Q (um_erase k m)"
  unfolding um_erase_def by (rule values_filter)

lemma values_erases: "all_values Q m \<Longrightarrow> all_values Q (fold um_erase ks m)"
  by (induction ks arbitrary: m) (auto intro: values_erase)

lemmas values_ops = values_update values_insert values_filter values_map values_erase values_erases

section \<open>The invariant\<close>

definition item_ok :: "ritem \<Rightarrow> bool" where
  "item_ok it = (pk_id (ri_packet it) = ri_id it)"

definition retr_ok :: "'p retr \<Rightarrow> bool" where
  "retr_ok b = (keyed ri_id (rt_map b) \<and> all_values item_ok (rt_map b))"

definition session_ok :: "'p session \<Rightarrow> bool" where
  "session_ok s = (retr_ok (s_base s) \<and> int (length (s_queue s)) \<le> MAX_QUEUE_SIZE)"

definition reader_ok :: "'p sreader \<Rightarrow> bool" where
  "reader_ok r = retr_ok (r_base r)"

definition session_key :: "'p session \<Rightarrow> int" where
  "session_key s = n_number (rt_node (s_base s))"

definition reader_key :: "'p sreader \<Rightarrow> int" where
  "reader_key r = n_number (rt_node (r_base r))"

definition adapter_ok :: "'p adapter \<Rightarrow> bool" where
  "adapter_ok a =
     (keyed session_key (a_sessions a) \<and> all_values session_ok (a_sessions a) \<and>
      keyed reader_key (a_readers a) \<and> all_values reader_ok (a_readers a) \<and>
      keyed reader_key (a_candidates a) \<and> all_values reader_ok (a_candidates a) \<and>
      0 < a_nextId a \<and> a_nextId a < 2147483648)"

definition good_base :: "('p retr \<Rightarrow> 'p retr) \<Rightarrow> bool" where
  "good_base h = (\<forall>b. rt_node (h b) = rt_node b \<and> (retr_ok b \<longrightarrow> retr_ok (h b)))"

definition good_session :: "('p session \<Rightarrow> 'p session) \<Rightarrow> bool" where
  "good_session f = (\<forall>s. session_key (f s) = session_key s \<and> (session_ok s \<longrightarrow> session_ok (f s)))"

definition good_reader :: "('p sreader \<Rightarrow> 'p sreader) \<Rightarrow> bool" where
  "good_reader g = (\<forall>r. reader_key (g r) = reader_key r \<and> (reader_ok r \<longrightarrow> reader_ok (g r)))"

lemmas ok_defs = item_ok_def retr_ok_def session_ok_def reader_ok_def session_key_def reader_key_def

lemma good_base_ops:
  "good_base (addPacketToMap now v p src)" "good_base removeHandshakePackets" "good_base (removePacketFromMap pid)"
  "good_base (erase_items ks)"
  "(\<And>it. ri_id (u it) = ri_id it \<and> pk_id (ri_packet (u it)) = pk_id (ri_packet it)) \<Longrightarrow>
     good_base (\<lambda>b. b\<lparr>rt_map := um_update k u (rt_map b)\<rparr>)"
  by (auto simp: good_base_def retr_ok_def addPacketToMap_def removeHandshakePackets_def removePacketFromMap_def
    erase_items_def Let_def new_ritem_def updateNextRetransmitTime_def item_ok_def intro!: keyed_ops values_ops)

lemma good_restart: "good_session (startHandshake now)"
proof -
  have "retr_ok b \<Longrightarrow> retr_ok (b\<lparr>rt_map := map (\<lambda>(k, it). (k, nullify_item now it)) (rt_map b)\<rparr>)" for b :: "'a retr"
    by (auto simp: retr_ok_def item_ok_def nullify_item_def intro!: keyed_map values_map)
  moreover have "rt_node (removeHandshakePackets b) = rt_node b" "retr_ok b \<Longrightarrow> retr_ok (removeHandshakePackets b)" for b :: "'a retr"
    using good_base_ops(2) by (auto simp: good_base_def)
  ultimately show ?thesis by (auto simp: good_session_def startHandshake_def session_ok_def session_key_def)
qed

lemma good_queue: "good_session (\<lambda>s. addPayloadToOutputQueue (rt_node (s_base s)) payload s)"
  by (auto simp: good_session_def addPayloadToOutputQueue_def session_ok_def session_key_def MAX_QUEUE_SIZE_def)

lemma drain_queue_append: "drain_queue m i q = (sent, rest) \<Longrightarrow> sent @ rest = q"
  by (induction m i q arbitrary: sent rest rule: drain_queue.induct) (auto split: if_splits prod.splits)

lemma good_drain: "good_session (\<lambda>s. snd (sendAllFromOutputQueue s))"
proof -
  have "length rest \<le> length q" if "drain_queue m i q = (sent, rest)" for m i sent rest and q :: "('p node \<times> bytes) list"
    using drain_queue_append [OF that] by auto
  then show ?thesis
    by (fastforce simp: good_session_def sendAllFromOutputQueue_def session_ok_def session_key_def split: prod.splits)
qed

lemma good_clear: "adapter_ok a \<Longrightarrow> adapter_ok (snd (clearBuffers a))"
  unfolding adapter_ok_def clearBuffers_snd
  by (auto intro!: keyed_map values_map simp: session_key_def reader_key_def session_ok_def reader_ok_def retr_ok_def)

lemma new_parties:
  "session_key (new_session now n key nonce) = n_number n" "session_ok (new_session now n key nonce)"
  "reader_key (new_sreader now n key) = n_number n" "reader_ok (new_sreader now n key)"
  by (simp_all add: new_session_def new_sreader_def new_retr_def ok_defs keyed_def all_values_def MAX_QUEUE_SIZE_def)

interpretation tables: adapter_frame adapter_ok good_session good_reader good_base reader_ok
proof (unfold_locales, goal_cases)
  case (4 a f i)
  then show ?case by (simp add: adapter_ok_def good_session_def keyed_ops values_ops)
next
  case (5 a g i)
  then show ?case by (simp add: adapter_ok_def good_reader_def keyed_ops values_ops)
next
  case (6 a g i)
  then show ?case by (simp add: adapter_ok_def good_reader_def keyed_ops values_ops)
next
  case (9 h)
  then show ?case by (simp add: good_base_def good_session_def session_ok_def session_key_def)
next
  case (10 h)
  then show ?case by (simp add: good_base_def good_reader_def reader_ok_def reader_key_def)
next
  case (11 f)
  then show ?case by (simp add: good_session_def session_ok_def session_key_def)
next
  case (12 g)
  then show ?case by (simp add: good_reader_def reader_ok_def reader_key_def)
next
  case (27 a i r)
  then have "(i, r) \<in> set (a_candidates a)" by (simp add: map_of_SomeD)
  with 27(1) show ?case by (auto simp: adapter_ok_def all_values_def)
next
  case (28 a r)
  then show ?case by (simp add: adapter_ok_def acceptCandidate_eq Let_def keyed_ops values_ops reader_key_def)
qed (simp_all add: adapter_ok_def new_parties keyed_ops values_ops good_restart good_base_ops good_queue good_drain
    good_clear [unfolded adapter_ok_def], simp_all add: good_base_def good_session_def session_key_def session_ok_def retr_ok_def)

section \<open>Reachable states\<close>

text \<open>
  What can happen to an adapter: a datagram arrives, the timer fires, a task of the sender pool makes
  a step, the client sends or closes, time passes, packet loss is switched on or off for tests.
\<close>

inductive udp_reach :: "'p udp_env \<Rightarrow> 'p adapter \<Rightarrow> bool" for E where
  start: "new_adapter E conf own now thr = Inr a \<Longrightarrow> udp_reach E a"
| receive: "udp_reach E a \<Longrightarrow> udp_reach E (snd (onReceive E d a))"
| timer: "udp_reach E a \<Longrightarrow> udp_reach E (snd (on_timer E a))"
| task: "udp_reach E a \<Longrightarrow> udp_reach E (snd (sender_step E t a))"
| send: "udp_reach E a \<Longrightarrow> udp_reach E (snd (send dest payload a))"
| close: "udp_reach E a \<Longrightarrow> udp_reach E (snd (close_adapter a))"
| clock: "udp_reach E a \<Longrightarrow> a_now a \<le> now \<Longrightarrow> udp_reach E (a\<lparr>a_now := now\<rparr>)"
| test_mode: "udp_reach E a \<Longrightarrow> udp_reach E (a\<lparr>a_test := on\<rparr>)"

text \<open>
  C8: in every reachable state the sessions, readers and candidates are filed under the numbers of
  their nodes, each at most once, every unacknowledged packet under its own number, no output queue is
  longer than 50000, and the next packet number is a positive \<open>int\<close>, if the first random one is.
\<close>

theorem adapter_invariant:
  assumes "udp_reach E a" "0 < minstd E 0" "minstd E 0 < 2147483648"
  shows "adapter_ok a"
  using assms(1)
proof induction
  case (start conf own now thr a)
  then show ?case using assms(2,3)
    by (auto simp: new_adapter_def res_bind_eq_Inr adapter_ok_def keyed_def all_values_def)
next
  case (receive a d)
  note IH = receive.IH
  show ?case by (rule keepsD [OF tables.keeps_onReceive]) (rule IH)
next
  case (timer a)
  note IH = timer.IH
  show ?case by (rule keepsD [OF tables.keeps_on_timer]) (rule IH)
next
  case (task a t)
  note IH = task.IH
  show ?case by (rule keepsD [OF tables.keeps_sender_step]) (rule IH)
qed (simp_all add: adapter_ok_def send_def close_adapter_def modify_def)

lemma adapter_invariant_witness:
  "\<exists>a. udp_reach (toy_env 1) (snd (on_timer (toy_env 1) (snd (onReceive (toy_env 1) toy_message a)))) \<and>
     adapter_ok (snd (on_timer (toy_env 1) (snd (onReceive (toy_env 1) toy_message a))))"
proof -
  obtain a where "new_adapter (toy_env 1) toy_conf 1 0 False = Inr a"
    by (simp add: new_adapter_def toy_conf_def getInfo_def)
  then have "udp_reach (toy_env 1) (snd (on_timer (toy_env 1) (snd (onReceive (toy_env 1) toy_message a))))"
    by (intro udp_reach.intros)
  with adapter_invariant [OF this] show ?thesis by (auto simp: toy_env_def)
qed

end
