(* ===== verification/UdpQueue.thy ===== *)
theory UdpQueue
  imports UdpWire UdpSample
begin

text \<open>
  Sending through the adapter: the output queue, the task of the sender pool, and the schedule of
  retransmission.
\<close>

section \<open>The output queue\<close>

lemma drain_queue_spec:
  "drain_queue m i q = (take (nat (max 0 (m + 1 - i)) + 1) q, drop (nat (max 0 (m + 1 - i)) + 1) q)"
proof (induction m i q rule: drain_queue.induct)
  case (2 m i x q)
  show ?case
  proof (cases "m < i")
    case False
    then have "nat (max 0 (m + 1 - i)) = Suc (nat (max 0 (m + 1 - (i + 1))))" by auto
    with 2 False show ?thesis by simp
  qed simp
qed simp

text \<open>
  \<open>sendAllFromOutputQueue\<close> takes the oldest payloads from the queue of an established session, in
  order, and leaves the rest: as many as the retransmission map has room for, and two more, but one
  even when it has no room.
\<close>

theorem drain_in_order:
  assumes "s_state s = STATE_EXCHANGING" "room = MAX_RETRANSMIT_QUEUE_SIZE - int (length (rt_map (s_base s)))"
  shows "sendAllFromOutputQueue s =
    (take (nat (max 0 (room + 1)) + 1) (s_queue s), s\<lparr>s_queue := drop (nat (max 0 (room + 1)) + 1) (s_queue s)\<rparr>)"
  using assms by (simp add: sendAllFromOutputQueue_def drain_queue_spec)

lemma drain_in_order_witness: "fst (sendAllFromOutputQueue (toy_session\<lparr>s_state := STATE_EXCHANGING, s_queue := [(toy_node 2, [1]), (toy_node 2, [2])]\<rparr>)) =
    [(toy_node 2, [1]), (toy_node 2, [2])]"
  by (subst drain_in_order [OF _ refl]) (simp_all add: MAX_RETRANSMIT_QUEUE_SIZE_def toy_session_def new_session_def new_retr_def)

section \<open>The schedule\<close>

lemma delay_bounds:
  assumes "0 \<le> counter" "counter \<le> 20" "0 \<le> v"
  shows "250 \<le> retransmit_delay counter v \<and> retransmit_delay counter v < 1375"
proof -
  let ?d = "(4 * counter + 20) div 20 * 250 + 125"
  have "0 \<le> (4 * counter + 20) div 20" "(4 * counter + 20) div 20 \<le> 5" using assms by auto
  then have "0 < ?d" "?d \<le> 1375" by linarith+
  then have "v mod ?d < 1375" using pos_mod_bound [of ?d v] by linarith
  then show ?thesis
    by (simp add: retransmit_delay_def Let_def GROW_FACTOR_def MAX_ATTEMPTS_def RETRANSMIT_TIME_def)
qed

section \<open>The task of the sender pool\<close>

lemma run_task_Suc: "run_task (Suc k) E t a = (case sender_step E t a of (Inl e, b) \<Rightarrow> (Inl e, b) | (Inr t, b) \<Rightarrow> run_task k E t b)"
  by (simp add: bnd_def)

lemma run_task_done: "run_task k E T_done a = (Inr T_done, a)"
  by (induction k) (simp_all add: bnd_def ret_def)

lemma task_packet: "run_task 1 E (T_packet i m p) a = (r, a') \<Longrightarrow> r = Inr T_done \<or> (\<exists>e. r = Inl e)"
  by (auto simp: bnd_def sq_def ret_def split: prod.splits sum.splits)

text \<open>Each step brings the task closer to its end, or fails.\<close>

fun task_rank :: "task \<Rightarrow> nat" where
  "task_rank (T_start _ _) = 5"
| "task_rank (T_found _ _) = 4"
| "task_rank (T_state _ _ _) = 3"
| "task_rank (T_now _ _) = 2"
| "task_rank (T_packet _ _ _) = 1"
| "task_rank T_done = 0"

lemma bnd_Inr: "bnd m f a = (Inr y, b) \<longleftrightarrow> (\<exists>x c. m a = (Inr x, c) \<and> f x c = (Inr y, b))"
  by (auto simp: bnd_def split: prod.splits sum.splits)

lemma sender_step_rank: "sender_step E t a = (Inr t', b) \<Longrightarrow> t \<noteq> T_done \<Longrightarrow> task_rank t' < task_rank t"
proof (cases t)
  case (T_state i m st)
  assume "sender_step E t a = (Inr t', b)"
  with T_state show ?thesis by (cases st) (auto simp: bnd_Inr sq_def ret_def split: if_splits)
qed (auto simp: bnd_Inr sq_def ret_def split: if_splits)

lemma run_task_rank: "task_rank t \<le> k \<Longrightarrow> run_task k E t a = (r, b) \<Longrightarrow> r = Inr T_done \<or> (\<exists>e. r = Inl e)"
proof (induction k arbitrary: t a)
  case 0
  then show ?case by (cases t) (auto simp: ret_def)
next
  case (Suc k)
  show ?case
  proof (cases "t = T_done")
    case True
    with Suc.prems show ?thesis using run_task_done by (metis prod.inject)
  next
    case False
    obtain x c where x: "sender_step E t a = (x, c)" by fastforce
    show ?thesis
    proof (cases x)
      case (Inr t')
      with x False have "task_rank t' \<le> k" using sender_step_rank Suc.prems(1) by fastforce
      from Suc.IH [OF this, of c] Suc.prems(2) x Inr show ?thesis by (simp add: bnd_def)
    qed (use x Suc.prems(2) in \<open>auto simp: bnd_def\<close>)
  qed
qed

text \<open>a task of the sender pool ends after at most five steps, whatever the state: done, or with an exception.\<close>

theorem send_terminates: "\<exists>r b. run_task 5 E t a = (r, b) \<and> (r = Inr T_done \<or> (\<exists>e. r = Inl e))"
  using run_task_rank [of t 5 E a] by (cases t; cases "run_task 5 E t a") auto

text \<open>Where the payload of a running task is.\<close>

definition kept :: "int \<Rightarrow> bytes \<Rightarrow> 'p adapter \<Rightarrow> bool" where
  "kept j payload a = (\<exists>s. map_of (a_sessions a) j = Some s \<and>
     (payload \<in> snd ` set (s_queue s) \<or>
      (\<exists>k it. map_of (rt_map (s_base s)) k = Some it \<and> ri_source it = payload \<and> ri_type it = type_code DATA)))"

definition next_free :: "int \<Rightarrow> 'p adapter \<Rightarrow> bool" where
  "next_free j a = (\<forall>s. map_of (a_sessions a) j = Some s \<longrightarrow> map_of (rt_map (s_base s)) (a_nextId a) = None)"

fun task_inv :: "int \<Rightarrow> bytes \<Rightarrow> task \<Rightarrow> 'p adapter \<Rightarrow> bool" where
  "task_inv j m (T_start i m') a = (m' = m \<and> (\<exists>n. getInfo (a_conf a) i = Inr n \<and> n_number n = j) \<and> \<not> a_closed a \<and> next_free j a)"
| "task_inv j m (T_found i m') a = (m' = m \<and> i = j \<and> \<not> a_closed a \<and> next_free j a)"
| "task_inv j m (T_state i m' st) a = (m' = m \<and> i = j \<and> next_free j a \<and> map_of (a_sessions a) j \<noteq> None)"
| "task_inv j m (T_now i m') a = (m' = m \<and> i = j \<and> next_free j a)"
| "task_inv j m (T_packet i m' p) a = (m' = m \<and> i = j \<and> pk_type p = type_code DATA \<and>
     (\<forall>s. map_of (a_sessions a) j = Some s \<longrightarrow> map_of (rt_map (s_base s)) (pk_id p) = None))"
| "task_inv j m T_done a = kept j m a"

lemma session_at_Inr: "session_at i a = (Inr s, b) \<longleftrightarrow> map_of (a_sessions a) i = Some s \<and> b = a"
  by (auto simp: session_at_def lookup_or_def split: option.splits)

lemma upd_session_run: "upd_session i f a = (r, b) \<longleftrightarrow> r = Inr () \<and> b = a\<lparr>a_sessions := um_update i f (a_sessions a)\<rparr>"
  by (auto simp: upd_session_def modify_def)

lemma step_state:
  assumes "sender_step E (T_state i m' st) a = (Inr t, b)" "task_inv j m (T_state i m' st) a"
  shows "task_inv j m t b"
proof (cases st)
  case STATE_HANDSHAKE
  with assms show ?thesis
    by (cases "map_of (a_sessions a) j")
     (auto simp: sq_def bnd_Inr ret_def upd_session_run kept_def map_of_um addPayloadToOutputQueue_def)
next
  case STATE_EXCHANGING
  with assms show ?thesis
    by (auto simp: sq_def bnd_Inr ret_def upd_session_run session_at_Inr kept_def map_of_um addPayloadToOutputQueue_def next_free_def split: if_splits)
qed

lemma step_start:
  assumes "sender_step E (T_start i m') a = (Inr t, b)" "task_inv j m (T_start i m') a"
  shows "task_inv j m t b"
proof -
  obtain n where n: "getInfo (a_conf a) i = Inr n" "n_number n = j" using assms(2) by auto
  have "getOrCreateSession E n a = (Inr j, b) \<and> t = T_found j m'"
    using assms(1) n by (auto simp: getOrCreateSessionById_def bnd_Inr conf_info_def ret_def getOrCreateSession_def sq_def split: if_splits)
  with assms(2) n show ?thesis
    by (auto simp: getOrCreateSession_def act_defs random_bytes_def next_draw_def next_free_def map_of_um new_session_def
      new_retr_def split: if_splits)
qed

lemma step_found: "sender_step E (T_found i m') a = (Inr t, b) \<Longrightarrow> task_inv j m (T_found i m') a \<Longrightarrow> task_inv j m t b"
  by (auto simp: bnd_Inr gets_def session_at_Inr ret_def)

lemma step_now:
  assumes "sender_step E (T_now i m') a = (Inr t, b)" "task_inv j m (T_now i m') a"
  shows "task_inv j m t b"
  using assms by (auto simp: payload_packet_def bnd_Inr session_at_Inr preparePayload_def random_bytes_def next_draw_def ret_def eta_encrypt_act_def
    lift_def make_packet_def getNextPacketId_def gets_def next_free_def new_packet_def)

lemma step_packet:
  assumes "sender_step E (T_packet i m' p) a = (Inr t, b)" "task_inv j m (T_packet i m' p) a"
  shows "task_inv j m t b"
proof -
  have inv: "m' = m" "i = j" "pk_type p = type_code DATA" using assms(2) by simp_all
  obtain s c where s: "map_of (a_sessions a) j = Some s" "sendPacketTo E (rt_node (s_base s)) p a = (Inr (), c)"
    and r: "remember E (Sess j) p m c = (Inr (), b)" "t = T_done"
    using assms(1) inv by (auto simp: payload_send_def bnd_Inr sq_def session_at_Inr ret_def)
  have "same_tables a c" by (rule keeps_result [OF wire.keeps_sendPacketTo _ s(2)]) simp
  then have c: "map_of (a_sessions c) j = Some s" using s(1) by (simp add: same_tables_def)
  obtain v now where b: "a_sessions b = um_update j (\<lambda>s. s\<lparr>s_base := addPacketToMap now v p m (s_base s)\<rparr>) (a_sessions c)"
    using r(1) by (auto simp: remember_def bnd_Inr random_int_def next_draw_def ret_def gets_def upd_session_run)
  have "map_of (rt_map (s_base s)) (pk_id p) = None" using assms(2) s(1) by simp
  then have "kept j m b"
    using c inv(3) by (auto simp: b kept_def map_of_um addPacketToMap_def Let_def new_ritem_def updateNextRetransmitTime_def
      intro!: exI [of _ "pk_id p"])
  with r(2) show ?thesis by simp
qed

lemma task_inv_step: "sender_step E t a = (Inr t', b) \<Longrightarrow> task_inv j m t a \<Longrightarrow> task_inv j m t' b"
proof (cases t)
  case T_done
  assume "sender_step E t a = (Inr t', b)" "task_inv j m t a"
  with T_done show ?thesis by (simp add: ret_def)
qed (blast intro: step_start step_found step_state step_now step_packet)+

lemma task_inv_run: "run_task k E t a = (Inr t', b) \<Longrightarrow> task_inv j m t a \<Longrightarrow> task_inv j m t' b"
proof (induction k arbitrary: t a)
  case (Suc k)
  then show ?case by (auto simp: bnd_Inr dest: task_inv_step)
qed (simp add: ret_def)

text \<open>
  C11: a payload given to \<open>send\<close> is not lost when its task ends without an exception: it waits in the
  output queue of the session, or its data packet is in the retransmission map with the payload; that
  is, if the adapter is open, the receiver is a known node, and the packet number is not in use.
\<close>

theorem send_not_lost:
  assumes "run_task 5 E (T_start dest payload) a = (Inr t, b)" "getInfo (a_conf a) dest = Inr n"
    "\<not> a_closed a" "next_free (n_number n) a"
  shows "t = T_done \<and> kept (n_number n) payload b"
proof -
  have "t = T_done" using run_task_rank [OF _ assms(1)] by auto
  moreover have "task_inv (n_number n) payload (T_start dest payload) a" using assms by simp
  ultimately show ?thesis using task_inv_run [OF assms(1)] by fastforce
qed

lemma toy_task: "fst (run_task 5 (toy_env 1) (T_start 2 (cstr ''hi'')) (toy_adapter 1)) = Inr T_done"
  by code_simp

lemma send_not_lost_witness: "kept 2 (cstr ''hi'') (snd (run_task 5 (toy_env 1) (T_start 2 (cstr ''hi'')) (toy_adapter 1)))"
proof -
  have "run_task 5 (toy_env 1) (T_start 2 (cstr ''hi'')) (toy_adapter 1) =
      (Inr T_done, snd (run_task 5 (toy_env 1) (T_start 2 (cstr ''hi'')) (toy_adapter 1)))"
    using toy_task by (metis prod.collapse)
  from send_not_lost [OF this, of "toy_node 2"] show ?thesis
    by (simp add: toy_adapter_def toy_conf_def getInfo_def next_free_def)
qed

section \<open>Retransmission of one packet\<close>

definition has_item :: "party \<Rightarrow> int \<Rightarrow> ritem \<Rightarrow> 'p adapter \<Rightarrow> bool" where
  "has_item w k it a = (item_at w k a = (Inr it, a))"

lemma has_item_update:
  assumes "has_item w k it a" "upd_item w k f a = (r, b)"
  shows "r = Inr () \<and> has_item w k (f it) b \<and> a_now b = a_now a"
  using assms by (cases w) (auto simp: has_item_def item_at_def upd_item_def upd_session_def upd_reader_def upd_candidate_def
    modify_def bnd_Inr session_at_def getSessionReader_def candidate_at_def lookup_or_def ret_def lift_def map_of_um
    split: option.splits)

lemma has_item_tables: "has_item w k it a \<Longrightarrow> same_tables a b \<Longrightarrow> has_item w k it b \<and> a_now b = a_now a"
  by (cases w) (auto simp: has_item_def item_at_def bnd_Inr session_at_def getSessionReader_def candidate_at_def lookup_or_def
    ret_def lift_def same_tables_def split: option.splits)

lemma has_item_base: "has_item w k it a \<Longrightarrow> \<exists>x. base_at w a = (Inr x, a)"
  by (cases w) (auto simp: has_item_def item_at_def bnd_Inr session_at_def getSessionReader_def candidate_at_def lookup_or_def
    ret_def split: option.splits)

lemma base_at_same: "base_at w a = (Inr x, b) \<Longrightarrow> b = a"
  by (cases w) (auto simp: bnd_Inr session_at_def getSessionReader_def candidate_at_def ret_def)

lemma item_at_same: "item_at w k a = (Inr x, b) \<Longrightarrow> b = a"
  by (auto simp: item_at_def bnd_Inr lift_def dest: base_at_same)

lemma bump_item_run:
  assumes "has_item w k it a" "bump_item w k a = (Inr erase, b)"
  shows "erase = (MAX_ATTEMPTS \<le> ri_counter it) \<and> has_item w k (it\<lparr>ri_counter := ri_counter it + 1\<rparr>) b"
  using assms has_item_update by (fastforce simp: bump_item_def sq_def bnd_Inr ret_def has_item_def)

lemma sends_item: "has_item w k it a \<Longrightarrow> sendPacketTo E n p a = (Inr (), b) \<Longrightarrow> has_item w k it b"
  using has_item_tables keeps_result [OF wire.keeps_sendPacketTo same_tables_refl] by blast

lemma pulse_handshake_run:
  assumes "has_item w k it a" "pulse_handshake E w k it0 a = (Inr erase, b)" "ri_type it0 \<noteq> type_code DATA"
  shows "erase = (MAX_ATTEMPTS \<le> ri_counter it) \<and> has_item w k (it\<lparr>ri_counter := ri_counter it + 1\<rparr>) b"
proof -
  obtain c where "has_item w k it c" "bump_item w k c = (Inr erase, b)"
    using assms by (auto simp: pulse_handshake_def sq_def bnd_Inr skip_def ret_def split: if_splits dest: sends_item base_at_same)
  then show ?thesis by (rule bump_item_run)
qed

text \<open>What a pulse leaves of an item: one more attempt, and perhaps a payload that was dropped before.\<close>

definition attempted :: "ritem \<Rightarrow> ritem \<Rightarrow> bool" where
  "attempted it it' = (ri_counter it' = ri_counter it + 1 \<and> ri_next it' = ri_next it \<and> ri_source it' = ri_source it \<and>
     ri_type it' = ri_type it \<and> ri_id it' = ri_id it)"

lemma pulse_exchanging_run:
  assumes "has_item w k it a" "pulse_exchanging E w k it0 a = (Inr erase, b)"
  shows "erase = (MAX_ATTEMPTS \<le> ri_counter it) \<and> (\<exists>it'. has_item w k it' b \<and> attempted it it')"
proof -
  have refill: "\<exists>pl. has_item w k (it\<lparr>ri_packet := (ri_packet it)\<lparr>pk_payload := pl\<rparr>\<rparr>) c"
    if run: "bnd (base_at w) (\<lambda>b. bnd (preparePayload E (rt_key b) src) (\<lambda>d.
        upd_item w k (\<lambda>it. it\<lparr>ri_packet := (ri_packet it)\<lparr>pk_payload := d\<rparr>\<rparr>))) a = (Inr (), c)" for src c
  proof -
    obtain key d a1 where x: "preparePayload E key src a = (Inr d, a1)"
      "upd_item w k (\<lambda>it. it\<lparr>ri_packet := (ri_packet it)\<lparr>pk_payload := d\<rparr>\<rparr>) a1 = (Inr (), c)"
      using run by (auto simp: bnd_Inr dest!: base_at_same)
    have "same_tables a a1" by (rule keeps_result [OF wire.keeps_make(5) _ x(1)]) simp
    with has_item_tables assms(1) have "has_item w k it a1" by blast
    from has_item_update [OF this x(2)] show ?thesis by blast
  qed
  obtain c it1 where c: "has_item w k it1 c" "bump_item w k c = (Inr erase, b)" "ri_counter it1 = ri_counter it"
      "ri_next it1 = ri_next it" "ri_source it1 = ri_source it" "ri_type it1 = ri_type it" "ri_id it1 = ri_id it"
  proof (cases "ri_type it0 = type_code DATA")
    case True
    obtain d where d: "(if pk_payload (ri_packet it0) = [] then bnd (base_at w) (\<lambda>b. bnd (preparePayload E (rt_key b) (ri_source it0)) (\<lambda>d.
        upd_item w k (\<lambda>it. it\<lparr>ri_packet := (ri_packet it)\<lparr>pk_payload := d\<rparr>\<rparr>))) else skip) a = (Inr (), d)"
      and rest: "\<exists>e x p. sendPacketTo E x p d = (Inr (), e) \<and> bump_item w k e = (Inr erase, b)"
      using assms(2) True unfolding pulse_exchanging_def
      by (auto simp: sq_def bnd_Inr dest!: base_at_same item_at_same)
    have "\<exists>it1. has_item w k it1 d \<and> ri_counter it1 = ri_counter it \<and> ri_next it1 = ri_next it \<and> ri_source it1 = ri_source it \<and>
        ri_type it1 = ri_type it \<and> ri_id it1 = ri_id it"
    proof (cases "pk_payload (ri_packet it0) = []")
      case True
      with d refill obtain pl where "has_item w k (it\<lparr>ri_packet := (ri_packet it)\<lparr>pk_payload := pl\<rparr>\<rparr>) d" by auto
      then show ?thesis by fastforce
    qed (use d assms(1) in \<open>auto simp: skip_def ret_def\<close>)
    with rest that show ?thesis using sends_item by blast
  next
    case False
    with assms that show ?thesis by (auto simp: pulse_exchanging_def sq_def bnd_Inr skip_def ret_def)
  qed
  from bump_item_run [OF c(1,2)] c(3-7) show ?thesis by (fastforce simp: attempted_def)
qed

text \<open>
  when its time has come, an unacknowledged packet is sent again, is counted, and is next due at
  least 250 and less than 1375 milliseconds later; with the attempt after the twentieth it is given up.
  Data packets are due in an established session only, handshake packets always.
\<close>

theorem retransmit_counted:
  assumes "has_item w k it a" "ri_next it < a_now a" "pulse_item E w st k a = (Inr erase, b)"
    "st = STATE_EXCHANGING \<or> ri_type it \<noteq> type_code DATA"
    "0 \<le> ri_counter it" "ri_counter it \<le> 20" "\<forall>d. 0 \<le> minstd E d"
  shows "erase = (ri_counter it = 20) \<and> (\<exists>it'. has_item w k it' b \<and> ri_counter it' = ri_counter it + 1 \<and>
    ri_source it' = ri_source it \<and> a_now a + 250 \<le> ri_next it' \<and> ri_next it' < a_now a + 1375)"
proof -
  obtain v c d where c: "upd_item w k (updateNextRetransmitTime (a_now a) v) c = (Inr (), d)" "same_tables a c" "0 \<le> v"
    and run: "(if st = STATE_EXCHANGING then pulse_exchanging E w k it else pulse_handshake E w k it) d = (Inr erase, b)"
    using assms(1-3,7) by (auto simp: pulse_item_def bnd_Inr has_item_def gets_def sq_def random_int_def next_draw_def ret_def
      same_tables_def)
  let ?it = "updateNextRetransmitTime (a_now a) v it"
  have it: "has_item w k ?it d" using has_item_tables [OF assms(1) c(2)] has_item_update c(1) by blast
  have next': "a_now a + 250 \<le> ri_next ?it \<and> ri_next ?it < a_now a + 1375"
    using delay_bounds [OF assms(5,6) c(3)] by (simp add: updateNextRetransmitTime_def)
  have same: "ri_counter ?it = ri_counter it" "ri_source ?it = ri_source it" by (simp_all add: updateNextRetransmitTime_def)
  have "erase = (MAX_ATTEMPTS \<le> ri_counter ?it) \<and> (\<exists>it'. has_item w k it' b \<and> attempted ?it it')"
  proof (cases "st = STATE_EXCHANGING")
    case True
    with run pulse_exchanging_run [OF it] show ?thesis by simp
  next
    case False
    with assms(4) run pulse_handshake_run [OF it, of E it] show ?thesis by (fastforce simp: attempted_def)
  qed
  then show ?thesis using next' same assms(6) by (fastforce simp: attempted_def MAX_ATTEMPTS_def)
qed

text \<open>A hello that waits for its answer.\<close>

definition toy_item :: ritem where
  "toy_item = \<lparr>ri_packet = new_packet 9 1 2 HELLO [5], ri_counter = 20, ri_source = [5], ri_receiver = 2, ri_id = 9, ri_type = 3, ri_next = 0\<rparr>"

definition toy_pending :: "byte adapter" where
  "toy_pending = (toy_adapter 1)\<lparr>a_sessions := [(2, toy_session\<lparr>s_base := (s_base toy_session)\<lparr>rt_map := [(9, toy_item)]\<rparr>\<rparr>)]\<rparr>"

lemma toy_pulse: "fst (pulse_item (toy_env 1) (Sess 2) STATE_HANDSHAKE 9 toy_pending) = Inr True"
  by code_simp

lemma retransmit_counted_witness:
  "\<exists>it'. has_item (Sess 2) 9 it' (snd (pulse_item (toy_env 1) (Sess 2) STATE_HANDSHAKE 9 toy_pending)) \<and> ri_counter it' = 21"
proof -
  have item: "has_item (Sess 2) 9 toy_item toy_pending"
    by (simp add: has_item_def item_at_def bnd_def session_at_def lookup_or_def ret_def lift_def toy_pending_def)
  have run: "pulse_item (toy_env 1) (Sess 2) STATE_HANDSHAKE 9 toy_pending =
      (Inr True, snd (pulse_item (toy_env 1) (Sess 2) STATE_HANDSHAKE 9 toy_pending))"
    using toy_pulse by (metis prod.collapse)
  have due: "ri_next toy_item < a_now toy_pending" by (simp add: toy_item_def toy_pending_def toy_adapter_def)
  show ?thesis using retransmit_counted [OF item due run] by (auto simp: toy_item_def toy_env_def)
qed

end
