(* ===== verification/WorkQueue.thy ===== *)
theory WorkQueue
  imports Prelude
begin

text \<open>
  \<open>tools/Queue.h\<close>: the blocking queue the thread pools and the event loops pass tasks through. Every method runs
  under the mutex from its start, or from the moment it is woken, to its end or to the next wait, so a step is one
  such section. The state adds to the fields of \<open>Queue\<close> the threads that wait on the two condition variables, those
  that were woken and have not run yet, and a history of what was stored and taken. A waiting thread may wake up at
  any time (spuriously); \<open>notify_one\<close> wakes any of the waiting threads.
\<close>

section \<open>Interfaces\<close>

text \<open>
  What a condition variable must not lose: while some thread waits for a resource, every available unit of it is
  matched by a woken thread. \<open>inv\<close> collects what else the steps keep.
\<close>

locale no_lost_wakeup =
  fixes init :: "'s \<Rightarrow> bool"
    and step :: "'s \<Rightarrow> 's \<Rightarrow> bool"
    and inv :: "'s \<Rightarrow> bool"
    and waiting :: "'s \<Rightarrow> nat"
    and available :: "'s \<Rightarrow> nat"
    and woken :: "'s \<Rightarrow> nat"
  assumes inv_init: "init s \<Longrightarrow> inv s"
    and inv_step: "inv s \<Longrightarrow> step s s' \<Longrightarrow> inv s'"
    and init_idle: "init s \<Longrightarrow> waiting s = 0"
    and matched_step: "inv s \<Longrightarrow> step s s' \<Longrightarrow> (waiting s \<noteq> 0 \<Longrightarrow> available s \<le> woken s) \<Longrightarrow> waiting s' \<noteq> 0 \<Longrightarrow>
      available s' \<le> woken s'"
begin

lemma inv_reachable: "step\<^sup>*\<^sup>* s0 s \<Longrightarrow> init s0 \<Longrightarrow> inv s"
  by (induction rule: rtranclp_induct) (auto intro: inv_init inv_step)

lemma matched: "step\<^sup>*\<^sup>* s0 s \<Longrightarrow> init s0 \<Longrightarrow> waiting s \<noteq> 0 \<Longrightarrow> available s \<le> woken s"
proof (induction rule: rtranclp_induct)
  case base
  then show ?case using init_idle by simp
next
  case (step y z)
  then show ?case using matched_step [OF inv_reachable] by blast
qed

lemma someone_woken: "step\<^sup>*\<^sup>* s0 s \<Longrightarrow> init s0 \<Longrightarrow> waiting s \<noteq> 0 \<Longrightarrow> available s \<noteq> 0 \<Longrightarrow> woken s \<noteq> 0"
  using matched by fastforce

end

section \<open>The queue\<close>

record 'a tqueue =
  q_items :: "'a list"
  q_capacity :: nat
  q_size :: nat
  q_closed :: bool

definition new_queue :: "nat \<Rightarrow> 'a tqueue" where
  "new_queue capacity = \<lparr>q_items = [], q_capacity = capacity, q_size = 0, q_closed = False\<rparr>"

definition put_waits :: "'a tqueue \<Rightarrow> bool" where
  "put_waits q = (\<not> q_closed q \<and> (q_capacity q \<noteq> 0 \<and> q_capacity q \<le> length (q_items q)))"

definition get_waits :: "'a tqueue \<Rightarrow> bool" where
  "get_waits q = (\<not> q_closed q \<and> q_size q = 0)"

definition q_store :: "'a \<Rightarrow> 'a tqueue \<Rightarrow> 'a tqueue" where
  "q_store value q = q\<lparr>q_items := q_items q @ [value], q_size := q_size q + 1\<rparr>"

definition q_take :: "'a tqueue \<Rightarrow> 'a \<times> 'a tqueue" where
  "q_take q = (hd (q_items q), q\<lparr>q_items := tl (q_items q), q_size := q_size q - 1\<rparr>)"

definition get_notifies :: "'a tqueue \<Rightarrow> bool" where
  "get_notifies q = (q_capacity q \<noteq> 0)"

definition optGet_notifies :: "'a tqueue \<Rightarrow> bool" where
  "optGet_notifies q = (q_capacity q \<noteq> 0 \<and> q_size q = q_capacity q - 1)"

datatype 'a call = Put 'a | Get | OptGet

type_synonym 'a thread = "nat \<times> 'a call"

record 'a qsys =
  s_q :: "'a tqueue"
  s_empty :: "'a thread list"      \<comment> \<open>waiting on \<open>cv_empty\<close>\<close>
  s_full :: "'a thread list"       \<comment> \<open>waiting on \<open>cv_full\<close>\<close>
  s_getters :: "'a thread list"    \<comment> \<open>woken from \<open>cv_empty\<close>\<close>
  s_putters :: "'a thread list"    \<comment> \<open>woken from \<open>cv_full\<close>\<close>
  s_stored :: "'a list"
  s_taken :: "'a list"
  s_threw :: "nat list"            \<comment> \<open>calls that ended with \<open>QueueClosedException\<close>\<close>
  s_none :: "nat list"             \<comment> \<open>calls of \<open>optGet\<close> that returned nothing\<close>

definition init_sys :: "nat \<Rightarrow> 'a qsys" where
  "init_sys capacity = \<lparr>s_q = new_queue capacity, s_empty = [], s_full = [], s_getters = [], s_putters = [], s_stored = [],
     s_taken = [], s_threw = [], s_none = []\<rparr>"

inductive notify_one :: "'w list \<Rightarrow> 'w list \<Rightarrow> 'w list \<Rightarrow> bool" where
  nobody: "notify_one [] [] []"
| somebody: "notify_one (xs @ w # ys) (xs @ ys) [w]"

text \<open>One section of a call of thread \<open>t\<close>.\<close>

inductive q_run :: "nat \<Rightarrow> 'a call \<Rightarrow> 'a qsys \<Rightarrow> 'a qsys \<Rightarrow> bool" where
  put_wait: "put_waits (s_q s) \<Longrightarrow> q_run t (Put v) s (s\<lparr>s_full := s_full s @ [(t, Put v)]\<rparr>)"
| put_store: "\<not> put_waits (s_q s) \<Longrightarrow> \<not> q_closed (s_q s) \<Longrightarrow> notify_one (s_empty s) rest woke \<Longrightarrow>
    q_run t (Put v) s (s\<lparr>s_q := q_store v (s_q s), s_empty := rest, s_getters := s_getters s @ woke, s_stored := s_stored s @ [v]\<rparr>)"
| put_throw: "q_closed (s_q s) \<Longrightarrow> q_run t (Put v) s (s\<lparr>s_threw := s_threw s @ [t]\<rparr>)"
| get_wait: "get_waits (s_q s) \<Longrightarrow> q_run t Get s (s\<lparr>s_empty := s_empty s @ [(t, Get)]\<rparr>)"
| get_take: "\<not> get_waits (s_q s) \<Longrightarrow> \<not> q_closed (s_q s) \<Longrightarrow> q_take (s_q s) = (v, q) \<Longrightarrow>
    (if get_notifies q then notify_one (s_full s) rest woke else rest = s_full s \<and> woke = []) \<Longrightarrow>
    q_run t Get s (s\<lparr>s_q := q, s_full := rest, s_putters := s_putters s @ woke, s_taken := s_taken s @ [v]\<rparr>)"
| get_throw: "q_closed (s_q s) \<Longrightarrow> q_run t Get s (s\<lparr>s_threw := s_threw s @ [t]\<rparr>)"
| optGet_wait: "get_waits (s_q s) \<Longrightarrow> q_run t OptGet s (s\<lparr>s_empty := s_empty s @ [(t, OptGet)]\<rparr>)"
| optGet_take: "\<not> get_waits (s_q s) \<Longrightarrow> \<not> q_closed (s_q s) \<Longrightarrow> q_take (s_q s) = (v, q) \<Longrightarrow>
    (if optGet_notifies q then notify_one (s_full s) rest woke else rest = s_full s \<and> woke = []) \<Longrightarrow>
    q_run t OptGet s (s\<lparr>s_q := q, s_full := rest, s_putters := s_putters s @ woke, s_taken := s_taken s @ [v]\<rparr>)"
| optGet_none: "q_closed (s_q s) \<Longrightarrow> q_run t OptGet s (s\<lparr>s_none := s_none s @ [t]\<rparr>)"

definition q_close :: "'a qsys \<Rightarrow> 'a qsys" where
  "q_close s = (if q_closed (s_q s) then s
     else s\<lparr>s_q := (s_q s)\<lparr>q_closed := True\<rparr>, s_getters := s_getters s @ s_empty s, s_putters := s_putters s @ s_full s,
            s_empty := [], s_full := []\<rparr>)"

text \<open>A step of the threads together; \<open>ok\<close> says which calls the program makes.\<close>

inductive qstep :: "('a call \<Rightarrow> bool) \<Rightarrow> 'a qsys \<Rightarrow> 'a qsys \<Rightarrow> bool" for ok where
  start: "ok c \<Longrightarrow> q_run t c s s' \<Longrightarrow> qstep ok s s'"
| resume_getter: "s_getters s = xs @ (t, c) # ys \<Longrightarrow> q_run t c (s\<lparr>s_getters := xs @ ys\<rparr>) s' \<Longrightarrow> qstep ok s s'"
| resume_putter: "s_putters s = xs @ (t, c) # ys \<Longrightarrow> q_run t c (s\<lparr>s_putters := xs @ ys\<rparr>) s' \<Longrightarrow> qstep ok s s'"
| spurious_empty: "s_empty s = xs @ w # ys \<Longrightarrow> qstep ok s (s\<lparr>s_empty := xs @ ys, s_getters := s_getters s @ [w]\<rparr>)"
| spurious_full: "s_full s = xs @ w # ys \<Longrightarrow> qstep ok s (s\<lparr>s_full := xs @ ys, s_putters := s_putters s @ [w]\<rparr>)"
| close: "qstep ok s (q_close s)"

definition q_init :: "'a qsys \<Rightarrow> bool" where
  "q_init s \<longleftrightarrow> (\<exists>capacity. s = init_sys capacity)"

section \<open>The invariant\<close>

fun is_put :: "'a call \<Rightarrow> bool" where
  "is_put (Put v) = True"
| "is_put _ = False"

definition q_ok :: "('a call \<Rightarrow> bool) \<Rightarrow> 'a qsys \<Rightarrow> bool" where
  "q_ok ok s \<longleftrightarrow>
     q_size (s_q s) = length (q_items (s_q s)) \<and>
     (q_capacity (s_q s) \<noteq> 0 \<longrightarrow> length (q_items (s_q s)) \<le> q_capacity (s_q s)) \<and>
     s_stored s = s_taken s @ q_items (s_q s) \<and>
     (q_closed (s_q s) \<longrightarrow> s_empty s = [] \<and> s_full s = []) \<and>
     (\<forall>w \<in> set (s_empty s) \<union> set (s_getters s). \<not> is_put (snd w) \<and> ok (snd w)) \<and>
     (\<forall>w \<in> set (s_full s) \<union> set (s_putters s). is_put (snd w) \<and> ok (snd w))"

lemma notify_one_set: "notify_one ws rest woke \<Longrightarrow> set ws = set rest \<union> set woke"
  by (induction rule: notify_one.induct) auto

lemma notify_one_length: "notify_one ws rest woke \<Longrightarrow> ws \<noteq> [] \<Longrightarrow> length woke = 1 \<and> length rest = length ws - 1"
  by (induction rule: notify_one.induct) auto

lemma notify_one_Nil: "notify_one [] rest woke \<longleftrightarrow> rest = [] \<and> woke = []"
  by (auto elim: notify_one.cases intro: notify_one.intros)

lemma notify_one_total: "\<exists>rest woke. notify_one ws rest woke"
proof (cases ws)
  case (Cons w ws')
  then show ?thesis using somebody [of "[]" w ws'] by auto
qed (auto intro: nobody)

lemma q_run_ok:
  assumes "q_run t c s s'" "q_ok ok s" "ok c"
  shows "q_ok ok s'"
  using assms
proof (cases rule: q_run.cases)
  case (put_store rest woke v)
  then show ?thesis using assms(2) notify_one_set [OF put_store(5)]
    by (auto simp: q_ok_def q_store_def put_waits_def notify_one_Nil)
next
  case (get_take v q rest woke)
  then have "set (s_full s) = set rest \<union> set woke" using notify_one_set [of "s_full s" rest woke] by (auto split: if_splits)
  with get_take show ?thesis using assms(2)
    by (cases "q_items (s_q s)") (auto simp: q_ok_def q_take_def get_waits_def)
next
  case (optGet_take v q rest woke)
  then have "set (s_full s) = set rest \<union> set woke" using notify_one_set [of "s_full s" rest woke] by (auto split: if_splits)
  with optGet_take show ?thesis using assms(2)
    by (cases "q_items (s_q s)") (auto simp: q_ok_def q_take_def get_waits_def)
qed (use assms(2,3) in \<open>auto simp: q_ok_def put_waits_def get_waits_def\<close>)

lemma q_close_ok: "q_ok ok s \<Longrightarrow> q_ok ok (q_close s)"
  by (cases "q_closed (s_q s)") (auto simp: q_ok_def q_close_def)

lemma qstep_ok: "qstep ok s s' \<Longrightarrow> q_ok ok s \<Longrightarrow> q_ok ok s'"
proof (induction rule: qstep.induct)
  case (start c t s s')
  then show ?case using q_run_ok by blast
next
  case (resume_getter s xs t c ys s')
  then have "q_ok ok (s\<lparr>s_getters := xs @ ys\<rparr>)" "ok c" by (auto simp: q_ok_def)
  with resume_getter show ?case using q_run_ok by blast
next
  case (resume_putter s xs t c ys s')
  then have "q_ok ok (s\<lparr>s_putters := xs @ ys\<rparr>)" "ok c" by (auto simp: q_ok_def)
  with resume_putter show ?case using q_run_ok by blast
next
  case (close s)
  then show ?case by (rule q_close_ok)
qed (auto simp: q_ok_def)

lemma init_ok: "q_init s \<Longrightarrow> q_ok ok s"
  by (auto simp: q_init_def q_ok_def init_sys_def new_queue_def)

section \<open>Woken threads match what is available\<close>

definition items_available :: "'a qsys \<Rightarrow> nat" where
  "items_available s = (if q_closed (s_q s) then 0 else length (q_items (s_q s)))"

definition space_available :: "'a qsys \<Rightarrow> nat" where
  "space_available s = (if q_closed (s_q s) then 0 else q_capacity (s_q s) - length (q_items (s_q s)))"

lemma available_update [simp]:
  "items_available (s\<lparr>s_getters := ws\<rparr>) = items_available s"
  "items_available (s\<lparr>s_putters := ws\<rparr>) = items_available s"
  "space_available (s\<lparr>s_getters := ws\<rparr>) = space_available s"
  "space_available (s\<lparr>s_putters := ws\<rparr>) = space_available s"
  by (simp_all add: items_available_def space_available_def)

definition empty_matched :: "'a qsys \<Rightarrow> bool" where
  "empty_matched s \<longleftrightarrow> (length (s_empty s) \<noteq> 0 \<longrightarrow> items_available s \<le> length (s_getters s))"

definition full_matched :: "'a qsys \<Rightarrow> bool" where
  "full_matched s \<longleftrightarrow> (length (s_full s) \<noteq> 0 \<longrightarrow> space_available s \<le> length (s_putters s))"

text \<open>One section of a call that a waiting thread was woken for, or that was just started, keeps the match, even if the
  thread is one of those counted as woken.\<close>

lemma notify_one_lengths: "notify_one ws rest woke \<Longrightarrow> rest \<noteq> [] \<longrightarrow> ws \<noteq> [] \<and> length woke = 1"
  by (induction rule: notify_one.induct) auto

lemma run_empty_matched:
  assumes "q_run t c s s'" "q_ok ok s" "g \<le> 1"
    and "length (s_empty s) \<noteq> 0 \<longrightarrow> items_available s \<le> length (s_getters s) + (if is_put c then 0 else g)"
  shows "empty_matched s'"
  using assms
proof (cases rule: q_run.cases)
  case (put_store rest woke v)
  then show ?thesis using assms(2,4) notify_one_lengths [OF put_store(5)]
    by (cases "rest = []") (auto simp: empty_matched_def items_available_def q_store_def)
next
  case (get_take v q rest woke)
  then show ?thesis using assms(2-4)
    by (cases "q_items (s_q s)") (auto simp: empty_matched_def items_available_def q_take_def get_waits_def q_ok_def)
next
  case (optGet_take v q rest woke)
  then show ?thesis using assms(2-4)
    by (cases "q_items (s_q s)") (auto simp: empty_matched_def items_available_def q_take_def get_waits_def q_ok_def)
qed (use assms(2-4) in \<open>auto simp: empty_matched_def items_available_def get_waits_def put_waits_def q_ok_def\<close>)

lemma run_full_matched:
  assumes "q_run t c s s'" "q_ok ok s" "p \<le> 1" "c \<noteq> OptGet"
    and "length (s_full s) \<noteq> 0 \<longrightarrow> space_available s \<le> length (s_putters s) + (if is_put c then p else 0)"
  shows "full_matched s'"
  using assms
proof (cases rule: q_run.cases)
  case (put_store rest woke v)
  then show ?thesis using assms(2-5)
    by (auto simp: full_matched_def space_available_def q_store_def put_waits_def q_ok_def)
next
  case (get_take v q rest woke)
  then have "rest \<noteq> [] \<longrightarrow> s_full s \<noteq> [] \<and> (q_capacity (s_q s) = 0 \<or> length woke = 1)"
    using notify_one_lengths [of "s_full s" rest woke] by (auto simp: get_notifies_def q_take_def split: if_splits)
  with get_take show ?thesis using assms(2,5)
    by (cases "q_items (s_q s)"; cases "rest = []")
      (auto simp: full_matched_def space_available_def q_take_def get_waits_def q_ok_def)
qed (use assms(2-5) in \<open>auto simp: full_matched_def space_available_def get_waits_def put_waits_def q_ok_def\<close>)

lemma qstep_empty_matched:
  assumes "qstep ok s s'" "q_ok ok s" "empty_matched s"
  shows "empty_matched s'"
  using assms
proof (induction rule: qstep.induct)
  case (start c t s s')
  then show ?case using run_empty_matched [of t c s s' ok 0] by (simp add: empty_matched_def)
next
  case (resume_getter s xs t c ys s')
  then have "q_ok ok (s\<lparr>s_getters := xs @ ys\<rparr>)" "\<not> is_put c" by (auto simp: q_ok_def)
  with resume_getter show ?case
    using run_empty_matched [of t c "s\<lparr>s_getters := xs @ ys\<rparr>" s' ok 1] by (simp add: empty_matched_def)
next
  case (resume_putter s xs t c ys s')
  then have "q_ok ok (s\<lparr>s_putters := xs @ ys\<rparr>)" by (auto simp: q_ok_def)
  with resume_putter show ?case
    using run_empty_matched [of t c "s\<lparr>s_putters := xs @ ys\<rparr>" s' ok 0] by (simp add: empty_matched_def)
next
  case (close s)
  then show ?case by (cases "q_closed (s_q s)") (auto simp: empty_matched_def q_close_def)
qed (auto simp: empty_matched_def items_available_def)

lemma qstep_full_matched:
  assumes "qstep ok s s'" "q_ok ok s" "\<not> ok OptGet" "full_matched s"
  shows "full_matched s'"
  using assms
proof (induction rule: qstep.induct)
  case (start c t s s')
  then have "c \<noteq> OptGet" by auto
  with start show ?case using run_full_matched [of t c s s' ok 0] by (simp add: full_matched_def)
next
  case (resume_getter s xs t c ys s')
  then have "q_ok ok (s\<lparr>s_getters := xs @ ys\<rparr>)" "c \<noteq> OptGet" by (auto simp: q_ok_def)
  with resume_getter show ?case
    using run_full_matched [of t c "s\<lparr>s_getters := xs @ ys\<rparr>" s' ok 0] by (simp add: full_matched_def)
next
  case (resume_putter s xs t c ys s')
  then have "q_ok ok (s\<lparr>s_putters := xs @ ys\<rparr>)" "is_put c" "c \<noteq> OptGet" by (auto simp: q_ok_def)
  with resume_putter show ?case
    using run_full_matched [of t c "s\<lparr>s_putters := xs @ ys\<rparr>" s' ok 1] by (simp add: full_matched_def)
next
  case (close s)
  then show ?case by (cases "q_closed (s_q s)") (auto simp: full_matched_def q_close_def)
qed (auto simp: full_matched_def space_available_def)

interpretation cv_empty: no_lost_wakeup q_init "qstep ok" "q_ok ok" "\<lambda>s. length (s_empty s)" items_available
  "\<lambda>s. length (s_getters s)" for ok
proof unfold_locales
  show "q_init s \<Longrightarrow> q_ok ok s" for s by (rule init_ok)
  show "q_ok ok s \<Longrightarrow> qstep ok s s' \<Longrightarrow> q_ok ok s'" for s s' by (rule qstep_ok)
  show "q_init s \<Longrightarrow> length (s_empty s) = 0" for s by (auto simp: q_init_def init_sys_def)
  show "items_available s' \<le> length (s_getters s')"
    if "q_ok ok s" "qstep ok s s'" "length (s_empty s) \<noteq> 0 \<Longrightarrow> items_available s \<le> length (s_getters s)"
      "length (s_empty s') \<noteq> 0" for s s'
    using qstep_empty_matched [OF that(2,1)] that(3,4) by (simp add: empty_matched_def)
qed

definition blocking_call :: "'a call \<Rightarrow> bool" where
  "blocking_call c = (case c of OptGet \<Rightarrow> False | _ \<Rightarrow> True)"

interpretation cv_full: no_lost_wakeup q_init "qstep blocking_call" "q_ok blocking_call" "\<lambda>s. length (s_full s)"
  space_available "\<lambda>s. length (s_putters s)"
proof unfold_locales
  show "q_init s \<Longrightarrow> q_ok blocking_call s" for s :: "'a qsys" by (rule init_ok)
  show "q_ok blocking_call s \<Longrightarrow> qstep blocking_call s s' \<Longrightarrow> q_ok blocking_call s'" for s s' :: "'a qsys" by (rule qstep_ok)
  show "q_init s \<Longrightarrow> length (s_full s) = 0" for s :: "'a qsys" by (auto simp: q_init_def init_sys_def)
  show "space_available s' \<le> length (s_putters s')"
    if "q_ok blocking_call s" "qstep blocking_call s s'"
      "length (s_full s) \<noteq> 0 \<Longrightarrow> space_available s \<le> length (s_putters s)" "length (s_full s') \<noteq> 0" for s s' :: "'a qsys"
    using qstep_full_matched [OF that(2,1)] that(3,4) by (simp add: full_matched_def blocking_call_def)
qed

section \<open>What the queue promises\<close>

lemma run_capacity: "q_run t c s s' \<Longrightarrow> q_capacity (s_q s') = q_capacity (s_q s)"
  by (induction rule: q_run.induct) (auto simp: q_store_def q_take_def)

lemma qstep_capacity: "qstep ok s s' \<Longrightarrow> q_capacity (s_q s') = q_capacity (s_q s)"
  by (induction rule: qstep.induct) (auto simp: q_close_def dest: run_capacity)

lemma reachable_capacity: "(qstep ok)\<^sup>*\<^sup>* s s' \<Longrightarrow> q_capacity (s_q s') = q_capacity (s_q s)"
  by (induction rule: rtranclp_induct) (auto dest: qstep_capacity)

lemma init_sys_init: "q_init (init_sys capacity)"
  by (auto simp: q_init_def)

lemma reachable_ok: "(qstep ok)\<^sup>*\<^sup>* (init_sys capacity) s \<Longrightarrow> q_ok ok s"
  using cv_empty.inv_reachable init_sys_init by blast

lemma reachable_fifo:
  assumes "(qstep ok)\<^sup>*\<^sup>* (init_sys capacity) s"
  shows "s_stored s = s_taken s @ q_items (s_q s) \<and> q_size (s_q s) = length (q_items (s_q s)) \<and>
    (capacity \<noteq> 0 \<longrightarrow> length (q_items (s_q s)) \<le> capacity)"
  using reachable_ok [OF assms] reachable_capacity [OF assms] by (simp add: q_ok_def init_sys_def new_queue_def)

text \<open>A getter that was woken, or a new call, takes the oldest item in one step.\<close>

lemma get_takes:
  assumes "c = Get \<or> c = OptGet" "q_ok ok s" "\<not> q_closed (s_q s)" "q_items (s_q s) = x # xs"
  shows "\<exists>s'. q_run t c s s' \<and> s_taken s' = s_taken s @ [x]"
proof -
  obtain v q where q: "q_take (s_q s) = (v, q)" "v = x" using assms(4) by (auto simp: q_take_def)
  obtain r w where "notify_one (s_full s) r w" using notify_one_total by blast
  then have "\<exists>r w. (if b then notify_one (s_full s) r w else r = s_full s \<and> w = [])" for b by (cases b) auto
  then obtain r1 w1 r2 w2 where
    "if get_notifies q then notify_one (s_full s) r1 w1 else r1 = s_full s \<and> w1 = []"
    "if optGet_notifies q then notify_one (s_full s) r2 w2 else r2 = s_full s \<and> w2 = []" by metis
  moreover have "\<not> get_waits (s_q s)" using assms by (simp add: get_waits_def q_ok_def)
  ultimately show ?thesis
    using assms q get_take [of s v q r1 w1 t] optGet_take [of s v q r2 w2 t] by fastforce
qed

lemma waiting_getter_served:
  assumes "(qstep ok)\<^sup>*\<^sup>* (init_sys capacity) s" "s_empty s \<noteq> []" "q_items (s_q s) = x # xs"
  shows "s_getters s \<noteq> [] \<and> (\<exists>s'. qstep ok s s' \<and> s_taken s' = s_taken s @ [x])"
proof -
  have ok: "q_ok ok s" by (rule reachable_ok [OF assms(1)])
  then have open': "\<not> q_closed (s_q s)" using assms(2) by (auto simp: q_ok_def)
  then have woken: "s_getters s \<noteq> []"
    using cv_empty.someone_woken [OF assms(1) init_sys_init] assms(2,3) by (simp add: items_available_def)
  then obtain t c ws where w: "s_getters s = [] @ (t, c) # ws" by (metis append_Nil list.exhaust surj_pair)
  have c: "c = Get \<or> c = OptGet" using ok w by (cases c) (auto simp: q_ok_def)
  obtain s' where "q_run t c (s\<lparr>s_getters := [] @ ws\<rparr>) s'" "s_taken s' = s_taken s @ [x]"
    using get_takes [of c ok "s\<lparr>s_getters := [] @ ws\<rparr>" x xs t] c ok open' assms(3) w by (auto simp: q_ok_def)
  then show ?thesis using resume_getter [OF w] woken by blast
qed

lemma put_stores:
  assumes "q_ok ok s" "\<not> q_closed (s_q s)" "\<not> put_waits (s_q s)"
  shows "\<exists>s'. q_run t (Put v) s s' \<and> s_stored s' = s_stored s @ [v]"
proof -
  obtain r w where "notify_one (s_empty s) r w" using notify_one_total by blast
  then show ?thesis using put_store [of s r w t v] assms by fastforce
qed

lemma waiting_putter_served:
  assumes "(qstep blocking_call)\<^sup>*\<^sup>* (init_sys capacity) s" "s_full s \<noteq> []" "length (q_items (s_q s)) < capacity"
  shows "s_putters s \<noteq> [] \<and> (\<exists>s' v. qstep blocking_call s s' \<and> s_stored s' = s_stored s @ [v])"
proof -
  have ok: "q_ok blocking_call s" by (rule reachable_ok [OF assms(1)])
  have cap: "q_capacity (s_q s) = capacity" using reachable_capacity [OF assms(1)] by (simp add: init_sys_def new_queue_def)
  have open': "\<not> q_closed (s_q s)" using ok assms(2) by (auto simp: q_ok_def)
  then have woken: "s_putters s \<noteq> []"
    using cv_full.someone_woken [OF assms(1) init_sys_init] assms(2,3) cap by (simp add: space_available_def)
  then obtain t c ws where w: "s_putters s = [] @ (t, c) # ws" by (metis append_Nil list.exhaust surj_pair)
  obtain v where c: "c = Put v" using ok w by (cases c) (auto simp: q_ok_def)
  obtain s' where "q_run t (Put v) (s\<lparr>s_putters := [] @ ws\<rparr>) s'" "s_stored s' = s_stored s @ [v]"
    using put_stores [of blocking_call "s\<lparr>s_putters := [] @ ws\<rparr>" t v] ok open' assms(3) w cap
    by (auto simp: q_ok_def put_waits_def)
  then show ?thesis using resume_putter [OF w] woken c by blast
qed

lemma run_closed:
  "q_run t c s s' \<Longrightarrow> q_closed (s_q s) \<Longrightarrow>
    s' = (if c = OptGet then s\<lparr>s_none := s_none s @ [t]\<rparr> else s\<lparr>s_threw := s_threw s @ [t]\<rparr>)"
  by (induction rule: q_run.induct) (auto simp: put_waits_def get_waits_def)

lemma closed_releases:
  assumes "(qstep ok)\<^sup>*\<^sup>* (init_sys capacity) s" "q_closed (s_q s)"
  shows "s_empty s = [] \<and> s_full s = [] \<and>
    (\<forall>t c s'. q_run t c s s' \<longrightarrow>
       s' = (if c = OptGet then s\<lparr>s_none := s_none s @ [t]\<rparr> else s\<lparr>s_threw := s_threw s @ [t]\<rparr>))"
  using reachable_ok [OF assms(1)] assms(2) run_closed [OF _ assms(2)] by (simp add: q_ok_def)

section \<open>Two producers and a consumer\<close>

text \<open>Runs of a queue of capacity 2, with what the witnesses and the counterexample start from.\<close>

definition sample_sys :: "nat list \<Rightarrow> nat list \<Rightarrow> nat thread list \<Rightarrow> nat thread list \<Rightarrow> nat thread list \<Rightarrow>
    nat thread list \<Rightarrow> nat qsys" where
  "sample_sys taken items emp full getters putters =
     \<lparr>s_q = \<lparr>q_items = items, q_capacity = 2, q_size = length items, q_closed = False\<rparr>, s_empty = emp, s_full = full,
      s_getters = getters, s_putters = putters, s_stored = taken @ items, s_taken = taken, s_threw = [], s_none = []\<rparr>"

lemma sample_init: "init_sys 2 = sample_sys [] [] [] [] [] []"
  by (simp add: sample_sys_def init_sys_def new_queue_def)

lemma sample_put:
  assumes "ok (Put v)" "length items < 2" "notify_one emp rest woke"
  shows "qstep ok (sample_sys taken items emp full getters putters)
    (sample_sys taken (items @ [v]) rest full (getters @ woke) putters)"
  using start [of ok "Put v", OF assms(1), OF put_store [of "sample_sys taken items emp full getters putters" rest woke t v]]
    assms(2,3)
  by (simp add: sample_sys_def put_waits_def q_store_def)

lemma sample_put_wait:
  assumes "ok (Put v)" "length items = 2"
  shows "qstep ok (sample_sys taken items emp full getters putters)
    (sample_sys taken items emp (full @ [(t, Put v)]) getters putters)"
  using start [of ok "Put v", OF assms(1), OF put_wait [of "sample_sys taken items emp full getters putters" t v]] assms(2)
  by (simp add: sample_sys_def put_waits_def)

lemma sample_resume_put:
  assumes "length items < 2" "notify_one emp rest woke"
  shows "qstep ok (sample_sys taken items emp full getters ((t, Put v) # putters))
    (sample_sys taken (items @ [v]) rest full (getters @ woke) putters)"
  using resume_putter [of "sample_sys taken items emp full getters ((t, Put v) # putters)" "[]" t "Put v" putters,
      OF _ put_store, of rest woke] assms
  by (simp add: sample_sys_def put_waits_def q_store_def)

lemma sample_get_wait:
  assumes "ok c" "c = Get \<or> c = OptGet"
  shows "qstep ok (sample_sys taken [] emp full getters putters)
    (sample_sys taken [] (emp @ [(t, c)]) full getters putters)"
  using assms(2) start [of ok c t "sample_sys taken [] emp full getters putters", OF assms(1)]
    get_wait [of "sample_sys taken [] emp full getters putters" t]
    optGet_wait [of "sample_sys taken [] emp full getters putters" t]
  by (auto simp: sample_sys_def get_waits_def)

lemma sample_optGet:
  assumes "ok OptGet" "if length items = 1 then notify_one full rest woke else rest = full \<and> woke = []"
  shows "qstep ok (sample_sys taken (v # items) emp full getters putters)
    (sample_sys (taken @ [v]) items emp rest getters (putters @ woke))"
  using start [of ok OptGet, OF assms(1), OF optGet_take [of "sample_sys taken (v # items) emp full getters putters"
      v "\<lparr>q_items = items, q_capacity = 2, q_size = length items, q_closed = False\<rparr>" rest woke t]] assms(2)
  by (simp add: sample_sys_def get_waits_def q_take_def optGet_notifies_def)

lemma lost_wakeup_run:
  "(qstep (\<lambda>c. True))\<^sup>*\<^sup>* (init_sys 2) (sample_sys [1, 2, 3] [] [(4, OptGet)] [(3, Put 4)] [] [])"
proof -
  let ?step = "qstep (\<lambda>c. True) :: nat qsys \<Rightarrow> nat qsys \<Rightarrow> bool"
  have a: "?step (init_sys 2) (sample_sys [] [1] [] [] [] [])"
    using sample_put [of "\<lambda>c. True" 1 "[]" "[]" "[]" "[]" "[]" "[]" "[]" "[]"] by (simp add: sample_init nobody)
  have b: "?step (sample_sys [] [1] [] [] [] []) (sample_sys [] [1, 2] [] [] [] [])"
    using sample_put [of "\<lambda>c. True" 2 "[1]" "[]" "[]" "[]"] by (simp add: nobody)
  have c: "?step (sample_sys [] [1, 2] [] [] [] []) (sample_sys [] [1, 2] [] [(2, Put 3)] [] [])"
    using sample_put_wait [of "\<lambda>c. True" 3 "[1, 2]" "[]" "[]" "[]"] by simp
  have d: "?step (sample_sys [] [1, 2] [] [(2, Put 3)] [] []) (sample_sys [] [1, 2] [] [(2, Put 3), (3, Put 4)] [] [])"
    using sample_put_wait [of "\<lambda>c. True" 4 "[1, 2]" "[]" "[]" "[(2, Put 3)]"] by simp
  have e: "?step (sample_sys [] [1, 2] [] [(2, Put 3), (3, Put 4)] [] [])
      (sample_sys [1] [2] [] [(3, Put 4)] [] [(2, Put 3)])"
    using sample_optGet [of "\<lambda>c. True" "[2]" "[(2, Put 3), (3, Put 4)]" "[(3, Put 4)]" "[(2, Put 3)]" "[]" 1 "[]" "[]" "[]"]
      somebody [of "[]" "(2, Put 3) :: nat thread" "[(3, Put 4)]"] by simp
  have f: "?step (sample_sys [1] [2] [] [(3, Put 4)] [] [(2, Put 3)]) (sample_sys [1, 2] [] [] [(3, Put 4)] [] [(2, Put 3)])"
    using sample_optGet [of "\<lambda>c. True" "[]" "[(3, Put 4)]" "[(3, Put 4)]" "[]" "[1]" 2] by simp
  have g: "?step (sample_sys [1, 2] [] [] [(3, Put 4)] [] [(2, Put 3)]) (sample_sys [1, 2] [3] [] [(3, Put 4)] [] [])"
    using sample_resume_put [of "[]" "[]" "[]" "[]"] by (simp add: nobody)
  have h: "?step (sample_sys [1, 2] [3] [] [(3, Put 4)] [] []) (sample_sys [1, 2, 3] [] [] [(3, Put 4)] [] [])"
    using sample_optGet [of "\<lambda>c. True" "[]" "[(3, Put 4)]" "[(3, Put 4)]" "[]" "[1, 2]" 3] by simp
  have i: "?step (sample_sys [1, 2, 3] [] [] [(3, Put 4)] [] []) (sample_sys [1, 2, 3] [] [(4, OptGet)] [(3, Put 4)] [] [])"
    using sample_get_wait [of "\<lambda>c. True" OptGet "[1, 2, 3]" "[]"] by simp
  show ?thesis
    using a b c d e f g h i by (meson converse_rtranclp_into_rtranclp rtranclp.rtrancl_refl)
qed

text \<open>Two threads wait for an item, one is stored: one of the two was woken and takes it.\<close>

lemma two_getters_run:
  "(qstep blocking_call)\<^sup>*\<^sup>* (init_sys 2) (sample_sys [] [7] [(2, Get)] [] [(1, Get)] [])"
proof -
  let ?step = "qstep blocking_call :: nat qsys \<Rightarrow> nat qsys \<Rightarrow> bool"
  have a: "?step (init_sys 2) (sample_sys [] [] [(1, Get)] [] [] [])"
    using sample_get_wait [of blocking_call Get "[]" "[]"] by (simp add: sample_init blocking_call_def)
  have b: "?step (sample_sys [] [] [(1, Get)] [] [] []) (sample_sys [] [] [(1, Get), (2, Get)] [] [] [])"
    using sample_get_wait [of blocking_call Get "[]" "[(1, Get)]"] by (simp add: blocking_call_def)
  have c: "?step (sample_sys [] [] [(1, Get), (2, Get)] [] [] []) (sample_sys [] [7] [(2, Get)] [] [(1, Get)] [])"
    using sample_put [of blocking_call 7 "[]" "[(1, Get), (2, Get)]" "[(2, Get)]" "[(1, Get)]" "[]" "[]" "[]" "[]"]
      somebody [of "[]" "(1, Get) :: nat thread" "[(2, Get)]"] by (simp add: blocking_call_def)
  show ?thesis using a b c by (meson converse_rtranclp_into_rtranclp rtranclp.rtrancl_refl)
qed

lemma sample_get:
  assumes "ok Get" "notify_one ful rest woke"
  shows "qstep ok (sample_sys taken (v # items) emp ful getters putters)
    (sample_sys (taken @ [v]) items emp rest getters (putters @ woke))"
  using start [of ok Get, OF assms(1), OF get_take [of "sample_sys taken (v # items) emp ful getters putters"
      v "\<lparr>q_items = items, q_capacity = 2, q_size = length items, q_closed = False\<rparr>" rest woke t]] assms(2)
  by (simp add: sample_sys_def get_waits_def q_take_def get_notifies_def)

text \<open>Two threads wait for space, one item is taken: one of the two was woken and stores.\<close>

lemma two_putters_run:
  "(qstep blocking_call)\<^sup>*\<^sup>* (init_sys 2) (sample_sys [1] [2] [] [(3, Put 4)] [] [(2, Put 3)])"
proof -
  let ?step = "qstep blocking_call :: nat qsys \<Rightarrow> nat qsys \<Rightarrow> bool"
  have a: "?step (init_sys 2) (sample_sys [] [1] [] [] [] [])"
    using sample_put [of blocking_call 1 "[]" "[]" "[]" "[]" "[]" "[]" "[]" "[]"]
    by (simp add: sample_init nobody blocking_call_def)
  have b: "?step (sample_sys [] [1] [] [] [] []) (sample_sys [] [1, 2] [] [] [] [])"
    using sample_put [of blocking_call 2 "[1]" "[]" "[]" "[]"] by (simp add: nobody blocking_call_def)
  have c: "?step (sample_sys [] [1, 2] [] [] [] []) (sample_sys [] [1, 2] [] [(2, Put 3)] [] [])"
    using sample_put_wait [of blocking_call 3 "[1, 2]" "[]" "[]" "[]"] by (simp add: blocking_call_def)
  have d: "?step (sample_sys [] [1, 2] [] [(2, Put 3)] [] []) (sample_sys [] [1, 2] [] [(2, Put 3), (3, Put 4)] [] [])"
    using sample_put_wait [of blocking_call 4 "[1, 2]" "[]" "[]" "[(2, Put 3)]"] by (simp add: blocking_call_def)
  have e: "?step (sample_sys [] [1, 2] [] [(2, Put 3), (3, Put 4)] [] [])
      (sample_sys [1] [2] [] [(3, Put 4)] [] [(2, Put 3)])"
    using sample_get [of blocking_call "[(2, Put 3), (3, Put 4)]" "[(3, Put 4)]" "[(2, Put 3)]" "[]" 1 "[2]" "[]" "[]" "[]"]
      somebody [of "[]" "(2, Put 3) :: nat thread" "[(3, Put 4)]"] by (simp add: blocking_call_def)
  show ?thesis using a b c d e by (meson converse_rtranclp_into_rtranclp rtranclp.rtrancl_refl)
qed

section \<open>Properties\<close>

text \<open>C31: in every interleaving of the sections of \<open>put\<close>, \<open>get\<close>, \<open>optGet\<close> and \<open>close\<close>, with wake-ups at any time, what
  was taken followed by what is still in the queue is what was stored, in the order it was stored (nothing is lost,
  doubled or reordered), \<open>_size\<close> is the length of the list, and a bounded queue never holds more than its capacity.\<close>

theorem queue_fifo:
  assumes "(qstep ok)\<^sup>*\<^sup>* (init_sys capacity) s"
  shows "s_stored s = s_taken s @ q_items (s_q s) \<and> q_size (s_q s) = length (q_items (s_q s)) \<and>
    (capacity \<noteq> 0 \<longrightarrow> length (q_items (s_q s)) \<le> capacity)"
  by (rule reachable_fifo [OF assms])

lemma queue_fifo_witness:
  "s_stored (sample_sys [1, 2, 3] [] [(4, OptGet)] [(3, Put 4)] [] []) = [1, 2, 3]"
  using queue_fifo [OF lost_wakeup_run] by (simp add: sample_sys_def)

text \<open>C32: no wake-up of a consumer is lost, whatever calls the threads make: whenever a thread waits in \<open>get\<close> or
  \<open>optGet\<close> while the queue holds an item, some consumer has been woken, and it can take the oldest item in its next
  section.\<close>

theorem queue_getter_served:
  assumes "(qstep ok)\<^sup>*\<^sup>* (init_sys capacity) s" "s_empty s \<noteq> []" "q_items (s_q s) = x # xs"
  shows "s_getters s \<noteq> [] \<and> (\<exists>s'. qstep ok s s' \<and> s_taken s' = s_taken s @ [x])"
  by (rule waiting_getter_served [OF assms])

lemma queue_getter_served_witness:
  "\<exists>s'. qstep blocking_call (sample_sys [] [7] [(2, Get)] [] [(1, Get)] []) s' \<and> s_taken s' = [7]"
  using queue_getter_served [OF two_getters_run, of 7 "[]"] by (simp add: sample_sys_def)

text \<open>as long as values are taken with \<open>get\<close>, no wake-up of a producer is lost either: whenever a thread waits in
  \<open>put\<close> of a bounded queue that has room, some producer has been woken, and it can store in its next section.\<close>

theorem queue_putter_served:
  assumes "(qstep blocking_call)\<^sup>*\<^sup>* (init_sys capacity) s" "s_full s \<noteq> []" "length (q_items (s_q s)) < capacity"
  shows "s_putters s \<noteq> [] \<and> (\<exists>s' v. qstep blocking_call s s' \<and> s_stored s' = s_stored s @ [v])"
  by (rule waiting_putter_served [OF assms])

lemma queue_putter_served_witness:
  "\<exists>s' v. qstep blocking_call (sample_sys [1] [2] [] [(3, Put 4)] [] [(2, Put 3)]) s' \<and> s_stored s' = [1, 2, v]"
  using queue_putter_served [OF two_putters_run] by (simp add: sample_sys_def)

text \<open>With \<open>optGet\<close>, which notifies only when the queue was exactly full, the previous property fails: the queue can be
  empty with a producer and a consumer both waiting and nobody woken.\<close>

theorem optGet_deadlock:
  "\<exists>s :: nat qsys. (qstep (\<lambda>c. True))\<^sup>*\<^sup>* (init_sys 2) s \<and> q_items (s_q s) = [] \<and> s_full s = [(3, Put 4)] \<and>
     s_empty s = [(4, OptGet)] \<and> s_putters s = [] \<and> s_getters s = [] \<and> \<not> q_closed (s_q s)"
  using lost_wakeup_run by (fastforce simp: sample_sys_def)

text \<open>After \<open>close\<close> nobody waits, and every call, woken or new, ends in its next section: \<open>put\<close> and \<open>get\<close> with the
  exception, \<open>optGet\<close> with nothing, whatever the queue still holds.\<close>

theorem queue_closed:
  assumes "(qstep ok)\<^sup>*\<^sup>* (init_sys capacity) s" "q_closed (s_q s)"
  shows "s_empty s = [] \<and> s_full s = [] \<and>
    (\<forall>t c s'. q_run t c s s' \<longrightarrow>
       s' = (if c = OptGet then s\<lparr>s_none := s_none s @ [t]\<rparr> else s\<lparr>s_threw := s_threw s @ [t]\<rparr>))"
  by (rule closed_releases [OF assms])

end
