(* ===== verification/WorkPool.thy ===== *)
theory WorkPool
  imports WorkQueue
begin

text \<open>
  \<open>tools/Semaphore.h\<close> and the parking of workers in \<open>tools/AutoThreadPool.cpp\<close>, as step relations over the sections
  that run under the mutex. The semaphore promises what \<open>no_lost_wakeup\<close> states. The pool keeps one entry per worker
  thread, in the order \<open>createThread\<close> made them; the queue it takes tasks from is \<open>WorkQueue\<close>'s, of which only
  whether it is closed matters here. The counter of the semaphore is an unbounded integer: the code overflows only
  after \<open>2 ^ 31\<close> notifications nobody waits for.
\<close>

section \<open>The semaphore\<close>

record sema =
  m_count :: int
  m_waiting :: "nat list"
  m_woken :: "nat list"
  m_notified :: nat        \<comment> \<open>calls of \<open>notify\<close> so far\<close>
  m_true :: nat            \<comment> \<open>calls of \<open>wait\<close> that returned true\<close>
  m_false :: nat           \<comment> \<open>calls of \<open>wait\<close> that returned false\<close>

definition new_sema :: "int \<Rightarrow> sema" where
  "new_sema count = \<lparr>m_count = count, m_waiting = [], m_woken = [], m_notified = 0, m_true = 0, m_false = 0\<rparr>"

definition sema_wait :: "nat \<Rightarrow> sema \<Rightarrow> sema" where
  "sema_wait t s = (if m_count s = 0 then s\<lparr>m_waiting := m_waiting s @ [t]\<rparr>
     else s\<lparr>m_count := m_count s - 1, m_true := m_true s + 1\<rparr>)"

inductive mstep :: "sema \<Rightarrow> sema \<Rightarrow> bool" where
  sema_notify: "notify_one (m_waiting s) rest woke \<Longrightarrow>
    mstep s (s\<lparr>m_count := m_count s + 1, m_waiting := rest, m_woken := m_woken s @ woke, m_notified := m_notified s + 1\<rparr>)"
| sema_start: "mstep s (sema_wait t s)"
| sema_resume: "m_woken s = xs @ t # ys \<Longrightarrow> mstep s (sema_wait t (s\<lparr>m_woken := xs @ ys\<rparr>))"
| sema_timeout: "m_waiting s = xs @ t # ys \<Longrightarrow> mstep s (s\<lparr>m_waiting := xs @ ys, m_false := m_false s + 1\<rparr>)"
| sema_spurious: "m_waiting s = xs @ t # ys \<Longrightarrow> mstep s (s\<lparr>m_waiting := xs @ ys, m_woken := m_woken s @ [t]\<rparr>)"

definition sema_init :: "int \<Rightarrow> sema \<Rightarrow> bool" where
  "sema_init count s \<longleftrightarrow> 0 \<le> count \<and> s = new_sema count"

definition sema_ok :: "int \<Rightarrow> sema \<Rightarrow> bool" where
  "sema_ok count s \<longleftrightarrow> 0 \<le> m_count s \<and> m_count s + int (m_true s) = count + int (m_notified s)"

lemma mstep_ok: "mstep s s' \<Longrightarrow> sema_ok count s \<Longrightarrow> sema_ok count s'"
  by (induction rule: mstep.induct) (auto simp: sema_ok_def sema_wait_def)

lemma mstep_matched:
  assumes "mstep s s'" "sema_ok count s" "m_waiting s \<noteq> [] \<longrightarrow> m_count s \<le> int (length (m_woken s))" "m_waiting s' \<noteq> []"
  shows "m_count s' \<le> int (length (m_woken s'))"
  using assms
proof (induction rule: mstep.induct)
  case (sema_notify s rest woke)
  then show ?case using notify_one_lengths [OF sema_notify(1)] by auto
qed (auto simp: sema_wait_def sema_ok_def split: if_splits)

interpretation cv_sema: no_lost_wakeup "sema_init count" mstep "sema_ok count" "\<lambda>s. length (m_waiting s)" "\<lambda>s. nat (m_count s)"
  "\<lambda>s. length (m_woken s)" for count
proof unfold_locales
  show "sema_init count s \<Longrightarrow> sema_ok count s" for s by (auto simp: sema_init_def sema_ok_def new_sema_def)
  show "sema_ok count s \<Longrightarrow> mstep s s' \<Longrightarrow> sema_ok count s'" for s s' by (rule mstep_ok)
  show "sema_init count s \<Longrightarrow> length (m_waiting s) = 0" for s by (auto simp: sema_init_def new_sema_def)
  show "nat (m_count s') \<le> length (m_woken s')"
    if "sema_ok count s" "mstep s s'" "length (m_waiting s) \<noteq> 0 \<Longrightarrow> nat (m_count s) \<le> length (m_woken s)"
      "length (m_waiting s') \<noteq> 0" for s s'
    using mstep_matched [OF that(2,1)] that(3,4) by fastforce
qed

text \<open>The semaphore lets through exactly as many waits as it was told: the initial count and the notifications are the
  waits that returned true and the count that is left; a thread that waits while the count is positive has been joined
  by a woken one.\<close>

theorem sema_accounts:
  assumes "mstep\<^sup>*\<^sup>* (new_sema count) s" "0 \<le> count"
  shows "m_count s + int (m_true s) = count + int (m_notified s) \<and> 0 \<le> m_count s \<and>
    (m_waiting s \<noteq> [] \<and> 0 < m_count s \<longrightarrow> m_woken s \<noteq> [])"
proof -
  have i: "sema_init count (new_sema count)" using assms(2) by (simp add: sema_init_def)
  show ?thesis
    using cv_sema.inv_reachable [OF assms(1) i] cv_sema.someone_woken [OF assms(1) i] by (simp add: sema_ok_def)
qed

section \<open>The workers of a pool\<close>

datatype worker = InGet | InTask nat | Parked | Unparked | Exited

record pool =
  p_workers :: "worker list"
  p_core :: nat
  p_max :: nat
  p_required :: nat
  p_active :: nat
  p_parked :: nat
  p_insufficient :: bool
  p_closed :: bool         \<comment> \<open>the destructor has closed the queue\<close>
  p_notified :: bool       \<comment> \<open>the destructor has called \<open>notify_all\<close>\<close>

definition createThread :: "pool \<Rightarrow> pool" where
  "createThread p = p\<lparr>p_active := p_active p + 1, p_workers := p_workers p @ [InGet]\<rparr>"

definition new_pool :: "nat \<Rightarrow> pool" where
  "new_pool core = (createThread ^^ core) \<lparr>p_workers = [], p_core = core, p_max = 1024, p_required = core, p_active = 0,
     p_parked = 0, p_insufficient = False, p_closed = False, p_notified = False\<rparr>"

definition set_worker :: "nat \<Rightarrow> worker \<Rightarrow> pool \<Rightarrow> pool" where
  "set_worker i w p = p\<lparr>p_workers := (p_workers p)[i := w]\<rparr>"

text \<open>\<open>finish_task\<close> is the section after a task, \<open>unpark\<close> what follows \<open>cvPark.wait\<close>.\<close>

definition finish_task :: "nat \<Rightarrow> pool \<Rightarrow> pool" where
  "finish_task i p = (if p_active p > p_required p
     then set_worker i Parked (p\<lparr>p_active := p_active p - 1, p_parked := p_parked p + 1\<rparr>)
     else set_worker i InGet p)"

definition unpark :: "nat \<Rightarrow> pool \<Rightarrow> pool" where
  "unpark i p = set_worker i InGet (p\<lparr>p_parked := p_parked p - 1, p_active := p_active p + 1\<rparr>)"

inductive wake_parked :: "pool \<Rightarrow> pool \<Rightarrow> bool" where
  no_parked: "Parked \<notin> set (p_workers p) \<Longrightarrow> wake_parked p p"
| one_parked: "i < length (p_workers p) \<Longrightarrow> p_workers p ! i = Parked \<Longrightarrow> wake_parked p (set_worker i Unparked p)"

inductive addActiveThread :: "pool \<Rightarrow> pool \<Rightarrow> bool" where
  use_parked: "p_parked p > 0 \<Longrightarrow> wake_parked (p\<lparr>p_required := p_required p + 1\<rparr>) p' \<Longrightarrow> addActiveThread p p'"
| add_thread: "p_parked p = 0 \<Longrightarrow> length (p_workers p) < p_max p \<Longrightarrow>
    addActiveThread p (createThread (p\<lparr>p_required := p_required p + 1\<rparr>))"
| not_allowed: "p_parked p = 0 \<Longrightarrow> \<not> length (p_workers p) < p_max p \<Longrightarrow>
    addActiveThread p (p\<lparr>p_required := p_required p + 1, p_insufficient := True\<rparr>)"

definition removeActiveThread :: "pool \<Rightarrow> pool" where
  "removeActiveThread p = (if p_required p > p_core p then p\<lparr>p_required := p_required p - 1\<rparr> else p)"

definition unpark_all :: "pool \<Rightarrow> pool" where
  "unpark_all p = p\<lparr>p_workers := map (\<lambda>w. if w = Parked then Unparked else w) (p_workers p), p_notified := True\<rparr>"

text \<open>
  A task that throws a \<open>QueueClosedException\<close>, as one does that uses a closed queue of its own, ends its worker although
  the queue of the pool is open: the handler cannot tell whose exception it is (\<open>task_quits\<close>). After any other exception
  the worker goes on as after \<open>end_task\<close>.
\<close>

inductive pstep :: "pool \<Rightarrow> pool \<Rightarrow> bool" where
  take_task: "i < length (p_workers p) \<Longrightarrow> p_workers p ! i = InGet \<Longrightarrow> \<not> p_closed p \<Longrightarrow> pstep p (set_worker i (InTask 0) p)"
| exit_loop: "i < length (p_workers p) \<Longrightarrow> p_workers p ! i = InGet \<Longrightarrow> p_closed p \<Longrightarrow> pstep p (set_worker i Exited p)"
| task_quits: "i < length (p_workers p) \<Longrightarrow> p_workers p ! i = InTask 0 \<Longrightarrow> pstep p (set_worker i Exited p)"
| end_task: "i < length (p_workers p) \<Longrightarrow> p_workers p ! i = InTask 0 \<Longrightarrow> pstep p (finish_task i p)"
| resume_parked: "i < length (p_workers p) \<Longrightarrow> p_workers p ! i = Unparked \<Longrightarrow> pstep p (unpark i p)"
| block_first: "i < length (p_workers p) \<Longrightarrow> p_workers p ! i = InTask 0 \<Longrightarrow>
    addActiveThread (set_worker i (InTask 1) p) p' \<Longrightarrow> pstep p p'"
| block_nested: "i < length (p_workers p) \<Longrightarrow> p_workers p ! i = InTask (Suc n) \<Longrightarrow> pstep p (set_worker i (InTask (n + 2)) p)"
| unblock_nested: "i < length (p_workers p) \<Longrightarrow> p_workers p ! i = InTask (n + 2) \<Longrightarrow> pstep p (set_worker i (InTask (Suc n)) p)"
| unblock_last: "i < length (p_workers p) \<Longrightarrow> p_workers p ! i = InTask 1 \<Longrightarrow>
    pstep p (removeActiveThread (set_worker i (InTask 0) p))"
| destroy_close: "\<not> p_closed p \<Longrightarrow> pstep p (p\<lparr>p_closed := True\<rparr>)"
| destroy_unpark: "p_closed p \<Longrightarrow> \<not> p_notified p \<Longrightarrow> pstep p (unpark_all p)"

text \<open>\<open>cvPark.wait\<close> may also return without a notification.\<close>

inductive pstep_spurious :: "pool \<Rightarrow> pool \<Rightarrow> bool" where
  program: "pstep p p' \<Longrightarrow> pstep_spurious p p'"
| spurious: "i < length (p_workers p) \<Longrightarrow> p_workers p ! i = Parked \<Longrightarrow> pstep_spurious p (set_worker i Unparked p)"

section \<open>The counters\<close>

definition workers :: "(worker \<Rightarrow> bool) \<Rightarrow> pool \<Rightarrow> nat" where
  "workers P p = length (filter P (p_workers p))"

fun is_parked :: "worker \<Rightarrow> bool" where
  "is_parked Parked = True"
| "is_parked Unparked = True"
| "is_parked _ = False"

fun is_blocking :: "worker \<Rightarrow> bool" where
  "is_blocking (InTask (Suc n)) = True"
| "is_blocking _ = False"

definition pool_ok :: "pool \<Rightarrow> bool" where
  "pool_ok p \<longleftrightarrow> p_active p = workers (\<lambda>w. \<not> is_parked w) p \<and> p_parked p = workers is_parked p \<and>
     p_required p = p_core p + workers is_blocking p \<and> p_core p \<le> length (p_workers p) \<and>
     length (p_workers p) \<le> max (p_core p) (p_max p)"

lemma filter_update:
  "i < length xs \<Longrightarrow> length (filter P (xs[i := x])) + (if P (xs ! i) then 1 else 0) =
    length (filter P xs) + (if P x then 1 else 0)"
proof (induction xs arbitrary: i)
  case (Cons y xs)
  then show ?case by (cases i) auto
qed simp

lemma workers_set:
  "i < length (p_workers p) \<Longrightarrow> workers P (set_worker i w p) =
    workers P p + (if P w then 1 else 0) - (if P (p_workers p ! i) then 1 else 0)"
  using filter_update [of i "p_workers p" P w] by (auto simp: workers_def set_worker_def split: if_splits)

lemma workers_pos: "i < length (p_workers p) \<Longrightarrow> P (p_workers p ! i) \<Longrightarrow> 0 < workers P p"
  by (auto simp: workers_def filter_empty_conv)

lemma set_worker_simps [simp]:
  "p_core (set_worker i w p) = p_core p" "p_max (set_worker i w p) = p_max p"
  "p_required (set_worker i w p) = p_required p" "p_active (set_worker i w p) = p_active p"
  "p_parked (set_worker i w p) = p_parked p" "p_closed (set_worker i w p) = p_closed p"
  "p_notified (set_worker i w p) = p_notified p" "p_insufficient (set_worker i w p) = p_insufficient p"
  "length (p_workers (set_worker i w p)) = length (p_workers p)"
  by (simp_all add: set_worker_def)

lemma workers_other [simp]:
  "workers P (p\<lparr>p_active := n\<rparr>) = workers P p" "workers P (p\<lparr>p_parked := n\<rparr>) = workers P p"
  "workers P (p\<lparr>p_required := n\<rparr>) = workers P p" "workers P (p\<lparr>p_closed := b\<rparr>) = workers P p"
  "workers P (p\<lparr>p_insufficient := b\<rparr>) = workers P p"
  by (simp_all add: workers_def)

lemma createThread_simps [simp]:
  "p_core (createThread p) = p_core p" "p_max (createThread p) = p_max p" "p_required (createThread p) = p_required p"
  "p_active (createThread p) = p_active p + 1" "p_parked (createThread p) = p_parked p"
  "length (p_workers (createThread p)) = length (p_workers p) + 1"
  by (simp_all add: createThread_def)

lemma workers_create: "workers P (createThread p) = workers P p + (if P InGet then 1 else 0)"
  by (simp add: workers_def createThread_def)

lemma workers_unpark_all:
  assumes "P Parked = P Unparked"
  shows "workers P (unpark_all p) = workers P p"
proof -
  have "P \<circ> (\<lambda>w. if w = Parked then Unparked else w) = P" using assms by (auto simp: fun_eq_iff)
  then show ?thesis by (simp add: workers_def unpark_all_def filter_map)
qed

lemma wake_parked_ok: "wake_parked p p' \<Longrightarrow> pool_ok p \<Longrightarrow> pool_ok p'"
  by (induction rule: wake_parked.induct) (use workers_pos [where P = is_parked] in \<open>auto simp: pool_ok_def workers_set\<close>)

lemma addActive_ok:
  assumes "addActiveThread p p'" "pool_ok (p\<lparr>p_required := p_required p + 1\<rparr>)"
  shows "pool_ok p'"
  using assms
proof (induction rule: addActiveThread.induct)
  case (use_parked p p')
  then show ?case using wake_parked_ok by blast
qed (auto simp: pool_ok_def workers_create)

lemma pstep_ok: "pstep p p' \<Longrightarrow> pool_ok p \<Longrightarrow> pool_ok p'"
proof (induction rule: pstep.induct)
  case (end_task i p)
  then show ?case using workers_pos [of i p "\<lambda>w. \<not> is_parked w"]
    by (auto simp: pool_ok_def finish_task_def workers_set)
next
  case (resume_parked i p)
  then show ?case using workers_pos [of i p is_parked] by (auto simp: pool_ok_def unpark_def workers_set)
next
  case (block_first i p p')
  then show ?case by (intro addActive_ok [OF block_first(3)]) (auto simp: pool_ok_def workers_set)
next
  case (unblock_last i p)
  then show ?case using workers_pos [of i p is_blocking] by (auto simp: pool_ok_def removeActiveThread_def workers_set)
next
  case (destroy_unpark p)
  have w: "workers P (unpark_all p) = workers P p" if "P Parked = P Unparked" for P by (rule workers_unpark_all [OF that])
  show ?case using destroy_unpark(3) unfolding pool_ok_def by (simp add: w) (simp add: unpark_all_def)
qed (auto simp: pool_ok_def workers_set)

lemma pstep_spurious_ok: "pstep_spurious p p' \<Longrightarrow> pool_ok p \<Longrightarrow> pool_ok p'"
proof (induction rule: pstep_spurious.induct)
  case (spurious i p)
  then show ?case using workers_pos [of i p is_parked] by (auto simp: pool_ok_def workers_set)
qed (rule pstep_ok)

lemma create_many: "n \<le> p_core p \<Longrightarrow> p_workers p = [] \<Longrightarrow>
    (createThread ^^ n) p = p\<lparr>p_active := p_active p + n, p_workers := replicate n InGet\<rparr>"
  by (induction n) (auto simp: createThread_def replicate_append_same)

lemma new_pool_ok: "pool_ok (new_pool core)"
  by (auto simp: new_pool_def create_many pool_ok_def workers_def)

lemma pool_reachable: "pstep_spurious\<^sup>*\<^sup>* (new_pool core) p \<Longrightarrow> pool_ok p"
  by (induction rule: rtranclp_induct) (auto intro: new_pool_ok pstep_spurious_ok)

lemma reachable_limits:
  "pstep_spurious\<^sup>*\<^sup>* (new_pool core) p \<Longrightarrow> p_core p = core \<and> p_max p = 1024"
proof (induction rule: rtranclp_induct)
  case base
  then show ?case by (simp add: new_pool_def create_many)
next
  case (step y z)
  have w: "wake_parked p p' \<Longrightarrow> p_core p' = p_core p \<and> p_max p' = p_max p" for p p'
    by (induction rule: wake_parked.induct) auto
  have a: "addActiveThread p p' \<Longrightarrow> p_core p' = p_core p \<and> p_max p' = p_max p" for p p'
    by (induction rule: addActiveThread.induct) (auto dest: w)
  have "pstep p p' \<Longrightarrow> p_core p' = p_core p \<and> p_max p' = p_max p" for p p'
    by (induction rule: pstep.induct) (auto dest: a simp: finish_task_def unpark_def removeActiveThread_def unpark_all_def)
  then have "pstep_spurious p p' \<Longrightarrow> p_core p' = p_core p \<and> p_max p' = p_max p" for p p'
    by (auto elim!: pstep_spurious.cases)
  with step show ?case by simp
qed

section \<open>Runs that go wrong\<close>

text \<open>A pool with one core: its worker's task blocks, so a second worker is added, which gets a task of its own; the
  first task leaves its blocking scope, and the pool is destroyed while both tasks run.\<close>

definition pool_at :: "nat \<Rightarrow> worker list \<Rightarrow> nat \<Rightarrow> nat \<Rightarrow> nat \<Rightarrow> bool \<Rightarrow> bool \<Rightarrow> pool" where
  "pool_at core ws required active parked closed notified = \<lparr>p_workers = ws, p_core = core, p_max = 1024, p_required = required,
     p_active = active, p_parked = parked, p_insufficient = False, p_closed = closed, p_notified = notified\<rparr>"

lemmas pool_at_simps = pool_at_def set_worker_def createThread_def finish_task_def removeActiveThread_def unpark_all_def

lemma pool_at_new: "new_pool 1 = pool_at 1 [InGet] 1 1 0 False False"
  by (simp add: new_pool_def pool_at_simps)

lemma pool_at_new2: "new_pool 2 = pool_at 2 [InGet, InGet] 2 2 0 False False"
  by (simp add: new_pool_def pool_at_simps numeral_eq_Suc)

lemma grown_run: "pstep\<^sup>*\<^sup>* (new_pool 1) (pool_at 1 [InTask 0, InTask 0] 1 2 0 False False)"
proof -
  have a: "pstep (new_pool 1) (pool_at 1 [InTask 0] 1 1 0 False False)"
    using take_task [of 0 "pool_at 1 [InGet] 1 1 0 False False"] by (simp only: pool_at_new) (simp add: pool_at_simps)
  have b: "pstep (pool_at 1 [InTask 0] 1 1 0 False False) (pool_at 1 [InTask 1, InGet] 2 2 0 False False)"
    using block_first [of 0 "pool_at 1 [InTask 0] 1 1 0 False False", OF _ _ add_thread] by (simp add: pool_at_simps numeral_eq_Suc)
  have c: "pstep (pool_at 1 [InTask 1, InGet] 2 2 0 False False) (pool_at 1 [InTask 1, InTask 0] 2 2 0 False False)"
    using take_task [of 1 "pool_at 1 [InTask 1, InGet] 2 2 0 False False"] by (simp add: pool_at_simps)
  have d: "pstep (pool_at 1 [InTask 1, InTask 0] 2 2 0 False False) (pool_at 1 [InTask 0, InTask 0] 1 2 0 False False)"
    using unblock_last [of 0 "pool_at 1 [InTask 1, InTask 0] 2 2 0 False False"] by (simp add: pool_at_simps)
  show ?thesis using a b c d by (meson converse_rtranclp_into_rtranclp rtranclp.rtrancl_refl)
qed

lemma hang_run: "pstep\<^sup>*\<^sup>* (new_pool 1) (pool_at 1 [Parked, Exited] 1 1 1 True True)"
proof -
  have a: "pstep (pool_at 1 [InTask 0, InTask 0] 1 2 0 False False) (pool_at 1 [InTask 0, InTask 0] 1 2 0 True False)"
    using destroy_close [of "pool_at 1 [InTask 0, InTask 0] 1 2 0 False False"] by (simp add: pool_at_simps)
  have b: "pstep (pool_at 1 [InTask 0, InTask 0] 1 2 0 True False) (pool_at 1 [InTask 0, InTask 0] 1 2 0 True True)"
    using destroy_unpark [of "pool_at 1 [InTask 0, InTask 0] 1 2 0 True False"] by (simp add: pool_at_simps)
  have c: "pstep (pool_at 1 [InTask 0, InTask 0] 1 2 0 True True) (pool_at 1 [Parked, InTask 0] 1 1 1 True True)"
    using end_task [of 0 "pool_at 1 [InTask 0, InTask 0] 1 2 0 True True"] by (simp add: pool_at_simps)
  have d: "pstep (pool_at 1 [Parked, InTask 0] 1 1 1 True True) (pool_at 1 [Parked, InGet] 1 1 1 True True)"
    using end_task [of 1 "pool_at 1 [Parked, InTask 0] 1 1 1 True True"] by (simp add: pool_at_simps)
  have e: "pstep (pool_at 1 [Parked, InGet] 1 1 1 True True) (pool_at 1 [Parked, Exited] 1 1 1 True True)"
    using exit_loop [of 1 "pool_at 1 [Parked, InGet] 1 1 1 True True"] by (simp add: pool_at_simps)
  show ?thesis using a b c d e by (meson grown_run rtranclp.rtrancl_into_rtrancl)
qed

lemma parked_stuck:
  assumes "p_workers p = [Parked, Exited]" "p_closed p" "p_notified p"
  shows "\<not> pstep p p'"
proof
  assume "pstep p p'"
  then show False using assms by (cases rule: pstep.cases) (auto simp: less_Suc_eq)
qed

text \<open>Two tasks enter a blocking scope one after the other while one worker is parked: both notify it.\<close>

lemma lost_run: "pstep\<^sup>*\<^sup>* (new_pool 2) (pool_at 2 [InTask 1, InTask 1, Unparked] 4 2 1 False False)"
proof -
  have a: "pstep (new_pool 2) (pool_at 2 [InTask 0, InGet] 2 2 0 False False)"
    using take_task [of 0 "pool_at 2 [InGet, InGet] 2 2 0 False False"] by (simp only: pool_at_new2) (simp add: pool_at_simps)
  have b: "pstep (pool_at 2 [InTask 0, InGet] 2 2 0 False False) (pool_at 2 [InTask 0, InTask 0] 2 2 0 False False)"
    using take_task [of 1 "pool_at 2 [InTask 0, InGet] 2 2 0 False False"] by (simp add: pool_at_simps)
  have c: "pstep (pool_at 2 [InTask 0, InTask 0] 2 2 0 False False) (pool_at 2 [InTask 1, InTask 0, InGet] 3 3 0 False False)"
    using block_first [of 0 "pool_at 2 [InTask 0, InTask 0] 2 2 0 False False", OF _ _ add_thread]
    by (simp add: pool_at_simps numeral_eq_Suc)
  have d: "pstep (pool_at 2 [InTask 1, InTask 0, InGet] 3 3 0 False False)
      (pool_at 2 [InTask 1, InTask 0, InTask 0] 3 3 0 False False)"
    using take_task [of 2 "pool_at 2 [InTask 1, InTask 0, InGet] 3 3 0 False False"] by (simp add: pool_at_simps)
  have e: "pstep (pool_at 2 [InTask 1, InTask 0, InTask 0] 3 3 0 False False)
      (pool_at 2 [InTask 0, InTask 0, InTask 0] 2 3 0 False False)"
    using unblock_last [of 0 "pool_at 2 [InTask 1, InTask 0, InTask 0] 3 3 0 False False"] by (simp add: pool_at_simps)
  have f: "pstep (pool_at 2 [InTask 0, InTask 0, InTask 0] 2 3 0 False False)
      (pool_at 2 [InTask 0, InTask 0, Parked] 2 2 1 False False)"
    using end_task [of 2 "pool_at 2 [InTask 0, InTask 0, InTask 0] 2 3 0 False False"] by (simp add: pool_at_simps)
  have g: "pstep (pool_at 2 [InTask 0, InTask 0, Parked] 2 2 1 False False)
      (pool_at 2 [InTask 1, InTask 0, Unparked] 3 2 1 False False)"
    using block_first [of 0 "pool_at 2 [InTask 0, InTask 0, Parked] 2 2 1 False False", OF _ _ use_parked [OF _ one_parked [of 2]]]
    by (simp add: pool_at_simps numeral_eq_Suc)
  have h: "pstep (pool_at 2 [InTask 1, InTask 0, Unparked] 3 2 1 False False)
      (pool_at 2 [InTask 1, InTask 1, Unparked] 4 2 1 False False)"
    using block_first [of 1 "pool_at 2 [InTask 1, InTask 0, Unparked] 3 2 1 False False", OF _ _ use_parked [OF _ no_parked]]
    by (simp add: pool_at_simps numeral_eq_Suc)
  show ?thesis using a b c d e f g h by (meson converse_rtranclp_into_rtranclp rtranclp.rtrancl_refl)
qed

lemma with_spurious: "pstep\<^sup>*\<^sup>* p q \<Longrightarrow> pstep_spurious\<^sup>*\<^sup>* p q"
  using mono_rtranclp [of pstep pstep_spurious] program by blast

section \<open>What the pool promises, and what it misses\<close>

text \<open>C33: in every interleaving of the workers, of tasks that enter and leave blocking scopes or throw and of the destructor,
  with wake-ups at any time, the counters of the pool are what they name: \<open>activeThreadCount\<close> the workers not parked,
  \<open>parkedThreadCount\<close> the parked ones (woken but not yet running included), \<open>requiredThreadCount\<close> the core threads and
  one for each task in a blocking scope; and the pool never has more workers than its core or the maximum.\<close>

theorem pool_accounts:
  assumes "pstep_spurious\<^sup>*\<^sup>* (new_pool core) p"
  shows "p_active p = workers (\<lambda>w. \<not> is_parked w) p \<and> p_parked p = workers is_parked p \<and>
    p_required p = core + workers is_blocking p \<and> length (p_workers p) \<in> {core .. max core 1024}"
  using pool_reachable [OF assms] reachable_limits [OF assms] by (simp add: pool_ok_def)

lemma pool_accounts_witness:
  "p_required (pool_at 2 [InTask 1, InTask 1, Unparked] 4 2 1 False False) =
    2 + workers is_blocking (pool_at 2 [InTask 1, InTask 1, Unparked] 4 2 1 False False)"
  using pool_accounts [OF with_spurious [OF lost_run]] by blast

text \<open>The destructor can wait for ever: a worker that finishes its task after \<open>notify_all\<close> while more workers are active
  than required parks itself, and nothing the program does wakes it.\<close>

theorem destructor_hangs:
  "\<exists>p. pstep\<^sup>*\<^sup>* (new_pool 1) p \<and> p_closed p \<and> p_notified p \<and> p_workers p = [Parked, Exited] \<and> (\<forall>p'. \<not> pstep p p')"
  using hang_run parked_stuck by (intro exI [of _ "pool_at 1 [Parked, Exited] 1 1 1 True True"]) (simp add: pool_at_def)

text \<open>An activation can be lost: two tasks that enter blocking scopes before the one parked worker runs again leave one
  worker less than required that can take tasks, although the maximum is far and nothing is reported.\<close>

theorem activation_lost:
  "\<exists>p. pstep\<^sup>*\<^sup>* (new_pool 2) p \<and> p_active p + workers (\<lambda>w. w = Unparked) p < p_required p \<and>
     workers (\<lambda>w. w = Parked) p = 0 \<and> length (p_workers p) < p_max p \<and> \<not> p_insufficient p"
  using lost_run by (intro exI [of _ "pool_at 2 [InTask 1, InTask 1, Unparked] 4 2 1 False False"])
    (simp add: pool_at_def workers_def)

end
