(* ===== verification/U8Trust.thy ===== *)
theory U8Trust
  imports RsaOps HashId
begin

text \<open>
  The part of \<open>modules/U8Module.cpp\<close> that decides whether the key a module is signed with is trusted:
  \<open>checkKeyTrust\<close> with the trust file it reads, the questions it asks and the file it writes, and \<open>checkSigner\<close>.
  The trust file is the tree the code looks at: a node that should be a sequence of strings is absent, a sequence
  (an entry that is no scalar is \<open>None\<close>, its conversion throws), or of another kind. Strings are byte lists. What is
  outside the repository is the record \<open>u8env\<close>: the libraries, the file system, the network, and the script that
  \<open>checkUNS\<close> runs.
\<close>

section \<open>The environment\<close>

datatype mod_error =
    KeyErr key_error
  | BadConversion     \<comment> \<open>thrown by \<open>as<std::string>\<close>\<close>
  | BadPushback       \<comment> \<open>thrown when a node of another kind should become a sequence or a map\<close>
  | YamlError         \<comment> \<open>thrown by \<open>LoadFile\<close> or \<open>Load\<close>\<close>
  | DownloadFailed
  | FileTooShort      \<comment> \<open>the code would read a negative number of bytes\<close>

definition key_res :: "key_error + 'a \<Rightarrow> mod_error + 'a" where
  "key_res m = (case m of Inl e \<Rightarrow> Inl (KeyErr e) | Inr x \<Rightarrow> Inr x)"

text \<open>The errors that are exceptions; the others stand for undefined behaviour.\<close>

fun thrown :: "mod_error \<Rightarrow> bool" where
  "thrown (KeyErr (Boss e)) = (\<not> boss_undefined e)"
| "thrown (KeyErr IntOverflow) = False"
| "thrown (KeyErr NullSalt) = False"
| "thrown (KeyErr ReadPastEnd) = False"
| "thrown (KeyErr GmpUndefined) = False"
| "thrown FileTooShort = False"
| "thrown _ = True"

datatype strings = Absent | Strings "bytes option list" | Other

record trust_scope =
  ts_keys :: strings
  ts_addresses :: strings
  ts_UNS_names :: strings

record trust_entry =
  te_module_names :: strings
  te_scope :: trust_scope

datatype 'a node = NoNode | Node 'a | OtherNode

record trust =
  tr_all :: "trust_scope node"
  tr_modules :: "trust_entry option list node"   \<comment> \<open>\<open>None\<close>: the item is no map\<close>

record zip_info =
  zi_comment :: int                                             \<comment> \<open>the length of the archive comment\<close>
  zi_manifest :: "(mod_error + (bytes \<Rightarrow> bytes option)) option"   \<comment> \<open>the scalars of \<open>manifest.yaml\<close>, if it is there\<close>

record u8env =
  ue_ltc :: ltc
  ue_gmp :: gmp
  ue_rsa :: rsa_lib
  ue_parser :: key_parser
  ue_stack :: "nat \<Rightarrow> byte"
  ue_junk :: bytes                               \<comment> \<open>what \<open>base64_decode\<close> finds in its array\<close>
  ue_exists :: "bytes \<Rightarrow> bool \<Rightarrow> bool"            \<comment> \<open>\<open>file_exists\<close>\<close>
  ue_read :: "bytes \<Rightarrow> bytes option"             \<comment> \<open>the content of a file that can be opened\<close>
  ue_zip :: "bytes \<Rightarrow> zip_info option"           \<comment> \<open>\<open>zip_open\<close>\<close>
  ue_core :: bytes                               \<comment> \<open>\<open>u8core_u8m\<close>\<close>
  ue_core_zip :: "zip_info option"
  ue_get :: "bytes \<Rightarrow> nat \<times> bytes"               \<comment> \<open>response code and body\<close>
  ue_put :: "bytes \<Rightarrow> bool"                      \<comment> \<open>\<open>putFileContentsBin\<close>\<close>
  ue_trust :: "bytes \<Rightarrow> mod_error + trust"       \<comment> \<open>\<open>YAML::LoadFile\<close>\<close>
  ue_uns :: "bytes \<Rightarrow> bytes \<Rightarrow> bool"             \<comment> \<open>\<open>checkUNS\<close>: the script returned 1\<close>

section \<open>Looking a key up\<close>

definition U8_PUBLIC_KEY :: bytes where
  "U8_PUBLIC_KEY = cstr ''HggcAQABxAABuc8tZdvfwUY550JXjg6GkVszQsy5lrao6LX5BpmVCPRq8xBlhqNnZmPz+sv+bFlGHPhydqV1xkSzBxGi+JqPYE+q0NQ9MJ3YVOzd/MRVW+dn7oZ8uUcWp81j/Wmn4mGVHP9bFhaqiu1JpnkJS6We5923IMrGrhxHDdstFFbs0KVHfgX1ekKKZSkXqNOHFb1VcvIyHrWyL4ZBqVlhqoQB7uMz68MlVznCzdF1HVWtwfuTLzVKXLlMNXGRYLaMqsBKH2U9esN6wXbvSfiMRRKKyiHMfYO4Ohg8ZAnnOfUwCqR48LbxY/W6w0aJ+uy4ohA9jKbT+JEp+vv3bM3KV8jt1w==''"

definition U8COREMODULE_NAME :: bytes where "U8COREMODULE_NAME = cstr ''u8core''"

definition U8Key :: "u8env \<Rightarrow> bytes" where
  "U8Key E = base64_decode (ue_junk E) U8_PUBLIC_KEY"

definition erase_spaces :: "bytes \<Rightarrow> bytes" where
  "erase_spaces str = filter (\<lambda>c. c \<noteq> chr CHR '' '') str"

text \<open>\<open>matches\<close> says of one string whether it names the key; the loops return at the first that does.\<close>

fun any_string :: "(bytes \<Rightarrow> mod_error + bool) \<Rightarrow> bytes option list \<Rightarrow> mod_error + bool" where
  "any_string matches [] = Inr False"
| "any_string matches (None # xs) = Inl BadConversion"
| "any_string matches (Some str # xs) = res_bind (matches str) (\<lambda>b. if b then Inr True else any_string matches xs)"

definition any_node :: "(bytes \<Rightarrow> mod_error + bool) \<Rightarrow> strings \<Rightarrow> mod_error + bool" where
  "any_node matches n = (case n of Strings xs \<Rightarrow> any_string matches xs | _ \<Rightarrow> Inr False)"

definition key_matches :: "u8env \<Rightarrow> bytes \<Rightarrow> bytes \<Rightarrow> mod_error + bool" where
  "key_matches E keyData str = Inr (keyData = base64_decode (ue_junk E) (erase_spaces str))"

definition address_matches :: "u8env \<Rightarrow> public_key \<Rightarrow> bytes \<Rightarrow> mod_error + bool" where
  "address_matches E publicKey str =
     res_bind (key_res (address_of_string (ue_ltc E) (ue_stack E) (erase_spaces str))) (\<lambda>ka.
       key_res (isMatchingKey (ue_ltc E) (ue_gmp E) (ue_stack E) ka publicKey))"

definition name_matches :: "bytes \<Rightarrow> bytes \<Rightarrow> mod_error + bool" where
  "name_matches name str = Inr (name = str)"

definition checkSigner :: "u8env \<Rightarrow> bytes \<Rightarrow> bytes \<Rightarrow> mod_error + bool" where
  "checkSigner E keyData signer =
     res_bind (key_res (unpack_public (ue_gmp E) (ue_stack E) (ue_parser E) keyData)) (\<lambda>publicKey.
     res_bind (key_res (address_of_string (ue_ltc E) (ue_stack E) signer)) (\<lambda>ka.
       key_res (isMatchingKey (ue_ltc E) (ue_gmp E) (ue_stack E) ka publicKey)))"

text \<open>The key and the addresses of one scope, then its UNS names.\<close>

definition scope_trusts :: "u8env \<Rightarrow> bytes \<Rightarrow> public_key \<Rightarrow> trust_scope \<Rightarrow> mod_error + bool" where
  "scope_trusts E keyData publicKey sc =
     res_bind (any_node (key_matches E keyData) (ts_keys sc)) (\<lambda>b.
       if b then Inr True else any_node (address_matches E publicKey) (ts_addresses sc))"

definition scope_names :: "bytes \<Rightarrow> trust_scope \<Rightarrow> mod_error + bool" where
  "scope_names UNS_name sc = (if UNS_name = [] then Inr False else any_node (name_matches UNS_name) (ts_UNS_names sc))"

definition single_name :: "strings \<Rightarrow> bool" where
  "single_name n = (case n of Strings xs \<Rightarrow> length xs = 1 | _ \<Rightarrow> False)"

text \<open>
  The loop over \<open>trust_modules\<close>: \<open>Inl\<close> when a key or an address was found, otherwise the first entry for this
  module alone (\<open>moduleTrust\<close>) and whether its UNS contract is trusted.
\<close>

fun check_modules :: "u8env \<Rightarrow> bytes \<Rightarrow> public_key \<Rightarrow> bytes \<Rightarrow> bytes \<Rightarrow> nat \<Rightarrow> trust_entry option list \<Rightarrow>
    nat option \<Rightarrow> bool \<Rightarrow> mod_error + (unit + nat option \<times> bool)" where
  "check_modules E keyData publicKey name UNS_name i [] moduleTrust trustUNS = Inr (Inr (moduleTrust, trustUNS))"
| "check_modules E keyData publicKey name UNS_name i (None # es) moduleTrust trustUNS =
     check_modules E keyData publicKey name UNS_name (i + 1) es moduleTrust trustUNS"
| "check_modules E keyData publicKey name UNS_name i (Some e # es) moduleTrust trustUNS =
     res_bind (any_node (name_matches name) (te_module_names e)) (\<lambda>bModuleFound.
       if bModuleFound then
         (let moduleTrust = (if moduleTrust = None \<and> single_name (te_module_names e) then Some i else moduleTrust) in
          res_bind (scope_trusts E keyData publicKey (te_scope e)) (\<lambda>b.
            if b then Inr (Inl ())
            else res_bind (scope_names UNS_name (te_scope e)) (\<lambda>n.
              check_modules E keyData publicKey name UNS_name (i + 1) es moduleTrust (trustUNS \<or> n))))
       else check_modules E keyData publicKey name UNS_name (i + 1) es moduleTrust trustUNS)"

section \<open>Questions and the trust file\<close>

text \<open>\<open>getline\<close> leaves an empty string when there is no more input.\<close>

definition answer :: "bytes list \<Rightarrow> bool \<times> bytes list" where
  "answer inp = (case inp of [] \<Rightarrow> (False, []) | a # rest \<Rightarrow> (a \<noteq> [] \<and> (hd a = chr CHR ''y'' \<or> hd a = chr CHR ''Y''), rest))"

definition push_string :: "bytes \<Rightarrow> strings \<Rightarrow> mod_error + strings" where
  "push_string v n = (case n of Absent \<Rightarrow> Inr (Strings [Some v]) | Strings xs \<Rightarrow> Inr (Strings (xs @ [Some v])) | Other \<Rightarrow> Inl BadPushback)"

datatype what = Address | UNSName

definition empty_scope :: trust_scope where
  "empty_scope = \<lparr>ts_keys = Absent, ts_addresses = Absent, ts_UNS_names = Absent\<rparr>"

definition push_scope :: "what \<Rightarrow> bytes \<Rightarrow> trust_scope \<Rightarrow> mod_error + trust_scope" where
  "push_scope w v sc = (case w of
     Address \<Rightarrow> res_bind (push_string v (ts_addresses sc)) (\<lambda>n. Inr (sc\<lparr>ts_addresses := n\<rparr>))
   | UNSName \<Rightarrow> res_bind (push_string v (ts_UNS_names sc)) (\<lambda>n. Inr (sc\<lparr>ts_UNS_names := n\<rparr>)))"

definition trust_for_all :: "what \<Rightarrow> bytes \<Rightarrow> trust \<Rightarrow> mod_error + trust" where
  "trust_for_all w v tr = (case tr_all tr of
     OtherNode \<Rightarrow> Inl BadPushback
   | NoNode \<Rightarrow> res_bind (push_scope w v empty_scope) (\<lambda>sc. Inr (tr\<lparr>tr_all := Node sc\<rparr>))
   | Node sc \<Rightarrow> res_bind (push_scope w v sc) (\<lambda>sc. Inr (tr\<lparr>tr_all := Node sc\<rparr>)))"

text \<open>
  Without an entry for the module alone a new one is added; the statement after it then goes through an iterator that
  was never set, which yields a node of its own that belongs to nothing.
\<close>

definition trust_for_module :: "what \<Rightarrow> bytes \<Rightarrow> bytes \<Rightarrow> nat option \<Rightarrow> trust \<Rightarrow> mod_error + trust" where
  "trust_for_module w v name moduleTrust tr = (case moduleTrust of
     None \<Rightarrow> res_bind (push_scope w v empty_scope) (\<lambda>sc.
       let e = Some \<lparr>te_module_names = Strings [Some name], te_scope = sc\<rparr> in
       (case tr_modules tr of
          OtherNode \<Rightarrow> Inl BadPushback
        | NoNode \<Rightarrow> Inr (tr\<lparr>tr_modules := Node [e]\<rparr>)
        | Node es \<Rightarrow> Inr (tr\<lparr>tr_modules := Node (es @ [e])\<rparr>)))
   | Some i \<Rightarrow> (case tr_modules tr of
        Node es \<Rightarrow> (case es ! i of
            Some e \<Rightarrow> res_bind (push_scope w v (te_scope e)) (\<lambda>sc.
              Inr (tr\<lparr>tr_modules := Node (es[i := Some (e\<lparr>te_scope := sc\<rparr>)])\<rparr>))
          | None \<Rightarrow> Inr tr)
      | _ \<Rightarrow> Inr tr))"

text \<open>One question with its follow-up: the trust file if the answer is yes, and the input that is left.\<close>

definition ask_trust :: "what \<Rightarrow> bytes \<Rightarrow> bytes \<Rightarrow> nat option \<Rightarrow> trust \<Rightarrow> bytes list \<Rightarrow>
    mod_error + (trust option \<times> bytes list)" where
  "ask_trust w v name moduleTrust tr inp =
     (case answer inp of (yes, inp) \<Rightarrow>
        if \<not> yes then Inr (None, inp)
        else (case answer inp of (all, inp) \<Rightarrow>
          res_bind (if all then trust_for_all w v tr else trust_for_module w v name moduleTrust tr) (\<lambda>tr. Inr (Some tr, inp))))"

definition empty_trust :: trust where
  "empty_trust = \<lparr>tr_all = NoNode, tr_modules = NoNode\<rparr>"

definition searchU8TrustFile :: "u8env \<Rightarrow> bytes \<Rightarrow> bytes" where
  "searchU8TrustFile E homeDir =
     (if ue_exists E (cstr ''u8trust.yaml'') False then cstr ''u8trust.yaml''
      else if ue_exists E (cstr ''./.u8/u8trust.yaml'') False then cstr ''./.u8/u8trust.yaml''
      else if ue_exists E (homeDir @ cstr ''/.u8/u8trust.yaml'') False then homeDir @ cstr ''/.u8/u8trust.yaml''
      else [])"

definition trust_path :: "u8env \<Rightarrow> bytes \<Rightarrow> bytes" where
  "trust_path E homeDir = (let found = searchU8TrustFile E homeDir in
     if found \<noteq> [] then found else homeDir @ cstr ''/.u8/u8trust.yaml'')"

text \<open>What the trust file says: \<open>Inl\<close> trusted, or \<open>moduleTrust\<close> and \<open>askTrustUNS\<close>.\<close>

definition with_all :: "(trust_scope \<Rightarrow> mod_error + bool) \<Rightarrow> trust \<Rightarrow> mod_error + bool" where
  "with_all f tr = (case tr_all tr of Node sc \<Rightarrow> f sc | _ \<Rightarrow> Inr False)"

definition module_entries :: "trust \<Rightarrow> trust_entry option list" where
  "module_entries tr = (case tr_modules tr of Node es \<Rightarrow> es | _ \<Rightarrow> [])"

definition consult_UNS :: "u8env \<Rightarrow> bytes \<Rightarrow> bytes \<Rightarrow> nat option \<times> bool \<Rightarrow> unit + nat option \<times> bool" where
  "consult_UNS E UNS_name keyData r = (case r of (moduleTrust, trustUNS) \<Rightarrow>
     if UNS_name \<noteq> [] \<and> ue_uns E UNS_name keyData then (if trustUNS then Inl () else Inr (moduleTrust, True))
     else Inr (moduleTrust, False))"

definition consult :: "u8env \<Rightarrow> bytes \<Rightarrow> public_key \<Rightarrow> bytes \<Rightarrow> bytes \<Rightarrow> trust \<Rightarrow> mod_error + (unit + nat option \<times> bool)" where
  "consult E keyData publicKey name UNS_name tr =
     res_bind (with_all (scope_trusts E keyData publicKey) tr) (\<lambda>b.
     if b then Inr (Inl ())
     else res_bind (with_all (scope_names UNS_name) tr) (\<lambda>trustUNS.
     res_bind (check_modules E keyData publicKey name UNS_name 0 (module_entries tr) None trustUNS) (\<lambda>r.
       Inr (case r of Inl _ \<Rightarrow> Inl () | Inr x \<Rightarrow> consult_UNS E UNS_name keyData x))))"

text \<open>The questions: first for the UNS contract, then for the key. The result is the changed trust file.\<close>

definition ask_user :: "u8env \<Rightarrow> bytes \<Rightarrow> bytes \<Rightarrow> key_address \<Rightarrow> trust \<Rightarrow> nat option \<times> bool \<Rightarrow> bytes list \<Rightarrow>
    mod_error + trust option" where
  "ask_user E name UNS_name ka tr r inp = (case r of (moduleTrust, askTrustUNS) \<Rightarrow>
     res_bind (if askTrustUNS then ask_trust UNSName UNS_name name moduleTrust tr inp else Inr (None, inp)) (\<lambda>(changed, inp).
     case changed of
       Some tr \<Rightarrow> Inr (Some tr)
     | None \<Rightarrow> (case address_toString ka of
           Inl _ \<Rightarrow> Inl (KeyErr BadBase58)
         | Inr str \<Rightarrow> res_bind (ask_trust Address str name moduleTrust tr inp) (\<lambda>(changed, inp). Inr changed))))"

definition uns_name :: "(bytes \<Rightarrow> bytes option) \<Rightarrow> bytes" where
  "uns_name manifest = (case manifest (cstr ''UNS_name'') of Some n \<Rightarrow> n | None \<Rightarrow> [])"

text \<open>\<open>checkKeyTrust\<close>: whether the key is trusted, and the trust file that was written, if one was.\<close>

definition checkKeyTrust :: "u8env \<Rightarrow> bytes \<Rightarrow> bytes \<Rightarrow> (bytes \<Rightarrow> bytes option) \<Rightarrow> bytes \<Rightarrow> bytes list \<Rightarrow>
    mod_error + (bool \<times> (bytes \<times> trust) option)" where
  "checkKeyTrust E name homeDir manifest keyData inp =
     (if keyData = U8Key E then Inr (True, None)
      else if name = U8COREMODULE_NAME then Inr (False, None)
      else
        let found = searchU8TrustFile E homeDir in
        res_bind (if found \<noteq> [] then ue_trust E found else Inr empty_trust) (\<lambda>tr.
        res_bind (key_res (unpack_public (ue_gmp E) (ue_stack E) (ue_parser E) keyData)) (\<lambda>publicKey.
        res_bind (if found \<noteq> [] then consult E keyData publicKey name (uns_name manifest) tr else Inr (Inr (None, False))) (\<lambda>r.
        case r of
          Inl _ \<Rightarrow> Inr (True, None)
        | Inr asked \<Rightarrow>
            res_bind (key_res (new_address (ue_ltc E) (ue_gmp E) (ue_stack E) publicKey 0 True)) (\<lambda>ka.
            res_bind (ask_user E name (uns_name manifest) ka tr asked inp) (\<lambda>changed.
              Inr (case changed of Some tr \<Rightarrow> (True, Some (trust_path E homeDir, tr)) | None \<Rightarrow> (False, None))))))))"

section \<open>What a lookup finds\<close>

definition listed :: "(bytes \<Rightarrow> mod_error + bool) \<Rightarrow> strings \<Rightarrow> bool" where
  "listed matches n \<longleftrightarrow> (\<exists>xs str. n = Strings xs \<and> Some str \<in> set xs \<and> matches str = Inr True)"

lemma any_string_Some:
  "any_string matches (Some v # xs) = Inr b \<longleftrightarrow> matches v = Inr True \<and> b \<or> matches v = Inr False \<and> any_string matches xs = Inr b"
  by (cases "matches v") (auto split: if_splits)

lemma any_string_True: "any_string matches xs = Inr True \<Longrightarrow> \<exists>str. Some str \<in> set xs \<and> matches str = Inr True"
proof (induction xs)
  case (Cons x xs)
  then show ?case by (cases x) (auto simp: any_string_Some simp del: any_string.simps(3))
qed simp

lemma any_node_True: "any_node matches n = Inr True \<Longrightarrow> listed matches n"
  by (cases n) (auto simp: any_node_def listed_def dest: any_string_True)

lemma any_string_snoc:
  assumes "any_string matches xs = Inr b" "matches v = Inr True"
  shows "any_string matches (xs @ [Some v]) = Inr True"
  using assms
proof (induction xs)
  case (Cons x xs)
  then show ?case by (cases x) (auto simp: any_string_Some simp del: any_string.simps(3))
qed simp

lemma any_node_push:
  "any_node matches n = Inr b \<Longrightarrow> matches v = Inr True \<Longrightarrow> push_string v n = Inr n' \<Longrightarrow> any_node matches n' = Inr True"
  by (cases n) (auto simp: any_node_def push_string_def any_string_snoc)

text \<open>The scopes that speak of a module: the one for all modules and those of the entries that name it.\<close>

definition scopes :: "bytes \<Rightarrow> trust \<Rightarrow> trust_scope set" where
  "scopes name tr = {sc. tr_all tr = Node sc} \<union>
     {te_scope e | e es. tr_modules tr = Node es \<and> Some e \<in> set es \<and> listed (name_matches name) (te_module_names e)}"

definition grants :: "u8env \<Rightarrow> bytes \<Rightarrow> public_key \<Rightarrow> trust_scope \<Rightarrow> bool" where
  "grants E keyData publicKey sc \<longleftrightarrow>
     listed (key_matches E keyData) (ts_keys sc) \<or> listed (address_matches E publicKey) (ts_addresses sc)"

definition names_contract :: "bytes \<Rightarrow> trust_scope \<Rightarrow> bool" where
  "names_contract UNS_name sc \<longleftrightarrow> UNS_name \<noteq> [] \<and> listed (name_matches UNS_name) (ts_UNS_names sc)"

definition file_trusts :: "u8env \<Rightarrow> bytes \<Rightarrow> public_key \<Rightarrow> bytes \<Rightarrow> bytes \<Rightarrow> trust \<Rightarrow> bool" where
  "file_trusts E keyData publicKey name UNS_name tr \<longleftrightarrow>
     (\<exists>sc \<in> scopes name tr. grants E keyData publicKey sc \<or> (names_contract UNS_name sc \<and> ue_uns E UNS_name keyData))"

lemma scope_trusts_True: "scope_trusts E keyData publicKey sc = Inr True \<Longrightarrow> grants E keyData publicKey sc"
  by (auto simp: scope_trusts_def grants_def res_bind_eq_Inr split: if_splits dest: any_node_True)

lemma scope_names_True: "scope_names UNS_name sc = Inr True \<Longrightarrow> names_contract UNS_name sc"
  by (auto simp: scope_names_def names_contract_def split: if_splits dest: any_node_True)

text \<open>One entry of the loop over the modules.\<close>

definition chosen :: "trust_entry \<Rightarrow> nat \<Rightarrow> nat option \<Rightarrow> nat option" where
  "chosen e i mt = (if mt = None \<and> single_name (te_module_names e) then Some i else mt)"

lemma check_entry:
  assumes "check_modules E keyData publicKey name UNS_name i (Some e # es) mt t = Inr r"
  obtains (other) "any_node (name_matches name) (te_module_names e) = Inr False"
      "check_modules E keyData publicKey name UNS_name (i + 1) es mt t = Inr r"
    | (trusts) "any_node (name_matches name) (te_module_names e) = Inr True"
      "scope_trusts E keyData publicKey (te_scope e) = Inr True" "r = Inl ()"
    | (goes_on) n where "any_node (name_matches name) (te_module_names e) = Inr True"
      "scope_trusts E keyData publicKey (te_scope e) = Inr False" "scope_names UNS_name (te_scope e) = Inr n"
      "check_modules E keyData publicKey name UNS_name (i + 1) es (chosen e i mt) (t \<or> n) = Inr r"
  using assms by (auto simp: res_bind_eq_Inr Let_def chosen_def split: if_splits)

lemma check_entry_eq:
  "any_node (name_matches name) (te_module_names e) = Inr False \<Longrightarrow>
    check_modules E keyData publicKey name UNS_name i (Some e # es) mt t =
    check_modules E keyData publicKey name UNS_name (i + 1) es mt t"
  "any_node (name_matches name) (te_module_names e) = Inr True \<Longrightarrow> scope_trusts E keyData publicKey (te_scope e) = Inr True \<Longrightarrow>
    check_modules E keyData publicKey name UNS_name i (Some e # es) mt t = Inr (Inl ())"
  "any_node (name_matches name) (te_module_names e) = Inr True \<Longrightarrow> scope_trusts E keyData publicKey (te_scope e) = Inr False \<Longrightarrow>
    scope_names UNS_name (te_scope e) = Inr n \<Longrightarrow>
    check_modules E keyData publicKey name UNS_name i (Some e # es) mt t =
    check_modules E keyData publicKey name UNS_name (i + 1) es (chosen e i mt) (t \<or> n)"
  by (simp_all add: chosen_def Let_def)

definition named :: "bytes \<Rightarrow> trust_entry option list \<Rightarrow> trust_scope set" where
  "named name es = {te_scope e | e. Some e \<in> set es \<and> listed (name_matches name) (te_module_names e)}"

lemma named_simps [simp]:
  "named name [] = {}" "named name (None # es) = named name es"
  "named name (Some e # es) =
    (if listed (name_matches name) (te_module_names e) then insert (te_scope e) (named name es) else named name es)"
  by (auto simp: named_def)

lemma check_modules_trusted:
  assumes "check_modules E keyData publicKey name UNS_name i es mt t = Inr (Inl ())"
  shows "\<exists>sc \<in> named name es. grants E keyData publicKey sc"
  using assms
proof (induction es arbitrary: i mt t)
  case (Cons x es)
  show ?case
  proof (cases x)
    case (Some e)
    from Cons.prems show ?thesis unfolding Some
      by (rule check_entry) (auto dest!: Cons.IH any_node_True scope_trusts_True)
  qed (use Cons in auto)
qed simp

lemma check_modules_names:
  assumes "check_modules E keyData publicKey name UNS_name i es mt t = Inr (Inr (mt', True))" "\<not> t"
  shows "\<exists>sc \<in> named name es. names_contract UNS_name sc"
  using assms
proof (induction es arbitrary: i mt t)
  case (Cons x es)
  show ?case
  proof (cases x)
    case (Some e)
    from Cons.prems(1) [unfolded Some] show ?thesis
    proof (cases rule: check_entry)
      case other
      then show ?thesis using Cons.IH [OF other(2) Cons.prems(2)] by (auto simp: Some)
    next
      case (goes_on n)
      then show ?thesis using Cons.IH [OF goes_on(4)] Cons.prems(2) any_node_True [OF goes_on(1)]
          scope_names_True [of UNS_name "te_scope e"] by (cases n) (auto simp: Some)
    qed simp
  qed (use Cons in auto)
qed simp

lemma scopes_named: "scopes name tr = {sc. tr_all tr = Node sc} \<union> (case tr_modules tr of Node es \<Rightarrow> named name es | _ \<Rightarrow> {})"
  by (auto simp: scopes_def named_def split: node.splits)

section \<open>What is trusted\<close>

lemma scopes_entries: "scopes name tr = {sc. tr_all tr = Node sc} \<union> named name (module_entries tr)"
  by (auto simp: scopes_named module_entries_def split: node.splits)

lemma with_all_True: "with_all f tr = Inr True \<Longrightarrow> \<exists>sc \<in> scopes name tr. f sc = Inr True"
  by (auto simp: with_all_def scopes_entries split: node.splits)

lemma consult_cases:
  assumes "consult E keyData publicKey name UNS_name tr = Inr r"
  obtains (all) "with_all (scope_trusts E keyData publicKey) tr = Inr True" "r = Inl ()"
    | (more) t r' where "with_all (scope_trusts E keyData publicKey) tr = Inr False" "with_all (scope_names UNS_name) tr = Inr t"
      "check_modules E keyData publicKey name UNS_name 0 (module_entries tr) None t = Inr r'"
      "r = (case r' of Inl _ \<Rightarrow> Inl () | Inr x \<Rightarrow> consult_UNS E UNS_name keyData x)"
  using assms by (auto simp: consult_def res_bind_eq_Inr split: if_splits)

lemma consult_sound:
  assumes "consult E keyData publicKey name UNS_name tr = Inr (Inl ())"
  shows "file_trusts E keyData publicKey name UNS_name tr"
  using assms
proof (cases rule: consult_cases)
  case all
  then show ?thesis using with_all_True [OF all(1)] scope_trusts_True unfolding file_trusts_def by blast
next
  case (more t r)
  show ?thesis
  proof (cases r)
    case (Inl u)
    then show ?thesis using check_modules_trusted [of E keyData publicKey name UNS_name 0] more(3)
      unfolding file_trusts_def scopes_entries by fastforce
  next
    case (Inr x)
    then obtain mt where x: "x = (mt, True)" "ue_uns E UNS_name keyData"
      using more(4) by (cases x) (auto simp: consult_UNS_def split: if_splits)
    have "\<exists>sc \<in> scopes name tr. names_contract UNS_name sc"
    proof (cases t)
      case True
      then show ?thesis using with_all_True [of "scope_names UNS_name" tr name] more(2) scope_names_True by fastforce
    next
      case False
      then show ?thesis using check_modules_names [of E keyData publicKey name UNS_name 0] more(3) Inr x
        unfolding scopes_entries by fastforce
    qed
    then show ?thesis using x(2) unfolding file_trusts_def by blast
  qed
qed

definition says_yes :: "bytes \<Rightarrow> bool" where
  "says_yes a \<longleftrightarrow> a \<noteq> [] \<and> (hd a = chr CHR ''y'' \<or> hd a = chr CHR ''Y'')"

lemma answer_yes: "answer inp = (True, inp') \<Longrightarrow> \<exists>a. inp = a # inp' \<and> says_yes a"
  by (cases inp) (auto simp: answer_def says_yes_def)

lemma answer_rest: "answer inp = (b, inp') \<Longrightarrow> inp' = tl inp"
  by (cases inp) (auto simp: answer_def)

lemma ask_yes:
  assumes "ask_trust w v name mt tr inp = Inr (Some tr', inp')"
  shows "\<exists>a \<in> set inp. says_yes a" "trust_for_all w v tr = Inr tr' \<or> trust_for_module w v name mt tr = Inr tr'"
proof -
  obtain i1 where "answer inp = (True, i1)" using assms by (cases "answer inp") (auto simp: ask_trust_def split: if_splits)
  then show "\<exists>a \<in> set inp. says_yes a" using answer_yes by force
  show "trust_for_all w v tr = Inr tr' \<or> trust_for_module w v name mt tr = Inr tr'"
    using assms by (auto simp: ask_trust_def res_bind_eq_Inr split: prod.splits if_splits)
qed

lemma ask_no:
  assumes "ask_trust w v name mt tr inp = Inr (None, inp')"
  shows "set inp' \<subseteq> set inp"
proof -
  have "inp' = tl inp" using assms answer_rest by (auto simp: ask_trust_def res_bind_eq_Inr split: prod.splits if_splits)
  then show ?thesis by (cases inp) auto
qed

lemma ask_user_yes:
  assumes "ask_user E name UNS_name ka tr asked inp = Inr (Some tr')"
  shows "\<exists>a \<in> set inp. says_yes a"
proof -
  obtain mt b where asked: "asked = (mt, b)" by (cases asked)
  obtain changed inp1 where c: "(if b then ask_trust UNSName UNS_name name mt tr inp else Inr (None, inp)) = Inr (changed, inp1)"
    using assms by (auto simp: ask_user_def asked res_bind_eq_Inr)
  show ?thesis
  proof (cases changed)
    case None
    then obtain str inp2 where "ask_trust Address str name mt tr inp1 = Inr (Some tr', inp2)"
      using assms c by (auto simp: ask_user_def asked res_bind_eq_Inr split: sum.splits)
    moreover have "set inp1 \<subseteq> set inp" using c None ask_no by (auto split: if_splits)
    ultimately show ?thesis using ask_yes(1) by blast
  next
    case (Some tr1)
    then show ?thesis using c ask_yes(1) by (auto split: if_splits)
  qed
qed

lemma key_res_Inr [simp]: "key_res m = Inr x \<longleftrightarrow> m = Inr x"
  by (cases m) (simp_all add: key_res_def)

lemma key_trust_cases:
  assumes "checkKeyTrust E name homeDir manifest keyData inp = Inr (b, saved)" "keyData \<noteq> U8Key E"
  obtains (core) "name = U8COREMODULE_NAME" "\<not> b" "saved = None"
    | (by_file) tr publicKey where "name \<noteq> U8COREMODULE_NAME" "searchU8TrustFile E homeDir \<noteq> []"
      "ue_trust E (searchU8TrustFile E homeDir) = Inr tr"
      "unpack_public (ue_gmp E) (ue_stack E) (ue_parser E) keyData = Inr publicKey"
      "consult E keyData publicKey name (uns_name manifest) tr = Inr (Inl ())" "b" "saved = None"
    | (asked) tr publicKey asked ka changed where "name \<noteq> U8COREMODULE_NAME"
      "unpack_public (ue_gmp E) (ue_stack E) (ue_parser E) keyData = Inr publicKey"
      "if searchU8TrustFile E homeDir \<noteq> [] then ue_trust E (searchU8TrustFile E homeDir) = Inr tr \<and>
         consult E keyData publicKey name (uns_name manifest) tr = Inr (Inr asked) else tr = empty_trust \<and> asked = (None, False)"
      "new_address (ue_ltc E) (ue_gmp E) (ue_stack E) publicKey 0 True = Inr ka"
      "ask_user E name (uns_name manifest) ka tr asked inp = Inr changed"
      "b \<longleftrightarrow> changed \<noteq> None" "saved = map_option (Pair (trust_path E homeDir)) changed"
proof (cases "name = U8COREMODULE_NAME")
  case True
  with assms core show thesis by (simp add: checkKeyTrust_def)
next
  case False
  let ?f = "searchU8TrustFile E homeDir"
  obtain tr pk r where h: "(if ?f \<noteq> [] then ue_trust E ?f else Inr empty_trust) = Inr tr"
    "unpack_public (ue_gmp E) (ue_stack E) (ue_parser E) keyData = Inr pk"
    "(if ?f \<noteq> [] then consult E keyData pk name (uns_name manifest) tr else Inr (Inr (None, False))) = Inr r"
    and rest: "(case r of Inl _ \<Rightarrow> Inr (True, None)
        | Inr asked \<Rightarrow>
            res_bind (key_res (new_address (ue_ltc E) (ue_gmp E) (ue_stack E) pk 0 True)) (\<lambda>ka.
            res_bind (ask_user E name (uns_name manifest) ka tr asked inp) (\<lambda>changed.
              Inr (case changed of Some tr \<Rightarrow> (True, Some (trust_path E homeDir, tr))
                | None \<Rightarrow> (False, None))))) = Inr (b, saved)"
    using assms False unfolding checkKeyTrust_def Let_def by (auto simp: res_bind_eq_Inr)
  show thesis
  proof (cases r)
    case (Inl u)
    have f: "?f \<noteq> []" using h(3) Inl by (cases "?f = []") simp_all
    have r: "b" "saved = None" using rest Inl by (auto split: unit.splits)
    show thesis by (rule by_file [OF False f _ h(2) _ r]) (use h(1,3) f Inl in simp_all)
  next
    case (Inr q)
    obtain ka changed where k: "new_address (ue_ltc E) (ue_gmp E) (ue_stack E) pk 0 True = Inr ka"
      "ask_user E name (uns_name manifest) ka tr q inp = Inr changed"
      "(case changed of Some tr \<Rightarrow> (True, Some (trust_path E homeDir, tr)) | None \<Rightarrow> (False, None)) = (b, saved)"
      using rest unfolding Inr sum.case res_bind_eq_Inr key_res_Inr sum.inject by blast
    have "if ?f \<noteq> [] then ue_trust E ?f = Inr tr \<and> consult E keyData pk name (uns_name manifest) tr = Inr (Inr q)
      else tr = empty_trust \<and> q = (None, False)"
      using h(1,3) Inr by (cases "?f = []") simp_all
    moreover have "b \<longleftrightarrow> changed \<noteq> None"
      "saved = map_option (Pair (trust_path E homeDir)) changed"
      using k(3) by (cases changed; simp)+
    ultimately show thesis by (rule asked [OF False h(2) _ k(1,2)])
  qed
qed

lemma key_trusted_because:
  assumes "checkKeyTrust E name homeDir manifest keyData inp = Inr (True, saved)" "keyData \<noteq> U8Key E"
  shows "name \<noteq> U8COREMODULE_NAME \<and> (\<exists>publicKey. unpack_public (ue_gmp E) (ue_stack E) (ue_parser E) keyData = Inr publicKey \<and>
    ((\<exists>tr. ue_trust E (searchU8TrustFile E homeDir) = Inr tr \<and> file_trusts E keyData publicKey name (uns_name manifest) tr) \<or>
     (saved \<noteq> None \<and> (\<exists>a \<in> set inp. says_yes a))))"
  using assms
proof (cases rule: key_trust_cases)
  case (by_file tr publicKey)
  then show ?thesis using consult_sound [OF by_file(5)] by blast
next
  case (asked tr publicKey q ka changed)
  then obtain tr' where c: "changed = Some tr'" by auto
  have "\<exists>a \<in> set inp. says_yes a" by (rule ask_user_yes [OF asked(5) [unfolded c]])
  then show ?thesis using asked(1,2,7) c by auto
qed simp

section \<open>A trusted key stays trusted\<close>

text \<open>What a value pushed into a scope achieves: the address makes the scope trust the key, the name makes it name the
  contract.\<close>

definition good_value :: "u8env \<Rightarrow> public_key \<Rightarrow> bytes \<Rightarrow> what \<Rightarrow> bytes \<Rightarrow> bool" where
  "good_value E publicKey UNS_name w v =
     (case w of Address \<Rightarrow> address_matches E publicKey v = Inr True | UNSName \<Rightarrow> v = UNS_name \<and> UNS_name \<noteq> [])"

definition satisfied :: "u8env \<Rightarrow> bytes \<Rightarrow> public_key \<Rightarrow> bytes \<Rightarrow> what \<Rightarrow> trust_scope \<Rightarrow> bool" where
  "satisfied E keyData publicKey UNS_name w sc = (case w of Address \<Rightarrow> scope_trusts E keyData publicKey sc = Inr True
     | UNSName \<Rightarrow> scope_trusts E keyData publicKey sc = Inr False \<and> scope_names UNS_name sc = Inr True)"

lemma scope_trusts_UNS [simp]: "scope_trusts E keyData publicKey (sc\<lparr>ts_UNS_names := n\<rparr>) = scope_trusts E keyData publicKey sc"
  by (simp add: scope_trusts_def cong: if_cong)

lemma push_satisfies:
  assumes "scope_trusts E keyData publicKey sc = Inr False" "scope_names UNS_name sc = Inr n"
    "good_value E publicKey UNS_name w v" "push_scope w v sc = Inr sc'"
  shows "satisfied E keyData publicKey UNS_name w sc'"
proof (cases w)
  case Address
  then obtain n' where n': "push_string v (ts_addresses sc) = Inr n'" "sc' = sc\<lparr>ts_addresses := n'\<rparr>"
    using assms(4) by (auto simp: push_scope_def res_bind_eq_Inr)
  have "any_node (key_matches E keyData) (ts_keys sc) = Inr False"
    "any_node (address_matches E publicKey) (ts_addresses sc) = Inr False"
    using assms(1) by (auto simp: scope_trusts_def res_bind_eq_Inr split: if_splits)
  then show ?thesis using any_node_push [OF _ _ n'(1)] assms(3) n'(2) Address
    by (simp add: satisfied_def scope_trusts_def good_value_def)
next
  case UNSName
  then obtain n' where n': "push_string v (ts_UNS_names sc) = Inr n'" "sc' = sc\<lparr>ts_UNS_names := n'\<rparr>"
    using assms(4) by (auto simp: push_scope_def res_bind_eq_Inr)
  have v: "v = UNS_name" "UNS_name \<noteq> []" using assms(3) UNSName by (simp_all add: good_value_def)
  then have "any_node (name_matches UNS_name) (ts_UNS_names sc) = Inr n" using assms(2) by (simp add: scope_names_def)
  then have "any_node (name_matches UNS_name) n' = Inr True"
    by (rule any_node_push [OF _ _ n'(1)]) (simp add: v name_matches_def)
  then show ?thesis using assms(1) v(2) n'(2) UNSName by (simp add: satisfied_def scope_names_def)
qed

lemma empty_scope_neutral:
  "scope_trusts E keyData publicKey empty_scope = Inr False" "scope_names UNS_name empty_scope = Inr False"
  by (simp_all add: scope_trusts_def scope_names_def empty_scope_def any_node_def)

lemma check_append:
  assumes "check_modules E keyData publicKey name UNS_name i es mt t = Inr (Inr (m, t1))"
  shows "check_modules E keyData publicKey name UNS_name i (es @ fs) mt t =
    check_modules E keyData publicKey name UNS_name (i + length es) fs m t1"
  using assms
proof (induction es arbitrary: i mt t)
  case (Cons x es)
  show ?case
  proof (cases x)
    case (Some e)
    from Cons.prems [unfolded Some] show ?thesis
    proof (cases rule: check_entry)
      case other
      then show ?thesis using Cons.IH [OF other(2)] by (simp add: Some)
    next
      case (goes_on n)
      then show ?thesis using Cons.IH [OF goes_on(4)] check_entry_eq(3) [OF goes_on(1-3), of i "es @ fs" mt t]
        by (simp add: Some)
    qed simp
  qed (use Cons in auto)
qed simp

lemma check_prefix:
  assumes "check_modules E keyData publicKey name UNS_name i (es @ fs) mt t = Inr (Inr r)"
  shows "\<exists>m t1. check_modules E keyData publicKey name UNS_name i es mt t = Inr (Inr (m, t1))"
  using assms
proof (induction es arbitrary: i mt t)
  case (Cons x es)
  show ?case
  proof (cases x)
    case (Some e)
    from Cons.prems [unfolded Some append_Cons] show ?thesis
    proof (cases rule: check_entry)
      case other
      then show ?thesis using Cons.IH [OF other(2)] by (simp add: Some)
    next
      case (goes_on n)
      then show ?thesis using Cons.IH [OF goes_on(4)] check_entry_eq(3) [OF goes_on(1-3), of i es mt t] by (simp add: Some)
    qed simp
  qed (use Cons in auto)
qed simp

lemma check_modules_more:
  assumes "check_modules E keyData publicKey name UNS_name i es mt t = Inr (Inr (mt', t'))"
  shows "check_modules E keyData publicKey name UNS_name i es mt True = Inr (Inr (mt', True))"
  using assms
proof (induction es arbitrary: i mt t)
  case (Cons x es)
  show ?case
  proof (cases x)
    case (Some e)
    from Cons.prems [unfolded Some] show ?thesis
    proof (cases rule: check_entry)
      case other
      then show ?thesis using Cons.IH [OF other(2)] by (simp add: Some)
    next
      case (goes_on n)
      then show ?thesis using Cons.IH [OF goes_on(4)] check_entry_eq(3) [OF goes_on(1-3), of i es mt True] by (simp add: Some)
    qed simp
  qed (use Cons in auto)
qed simp

lemma check_modules_chosen:
  assumes "check_modules E keyData publicKey name UNS_name i es mt t = Inr (Inr (Some j, t'))" "mt \<noteq> Some j"
  shows "\<exists>pre e post. es = pre @ Some e # post \<and> j = i + length pre \<and> any_node (name_matches name) (te_module_names e) = Inr True"
  using assms
proof (induction es arbitrary: i mt t)
  case (Cons x es)
  show ?case
  proof (cases x)
    case None
    then obtain pre e post where "es = pre @ Some e # post" "j = Suc i + length pre"
      "any_node (name_matches name) (te_module_names e) = Inr True" using Cons by fastforce
    then show ?thesis using None by (intro exI [of _ "None # pre"]) auto
  next
    case (Some e)
    have shift: ?thesis if "\<exists>pre e post. es = pre @ Some e # post \<and> j = i + 1 + length pre \<and>
        any_node (name_matches name) (te_module_names e) = Inr True"
      using that by (metis Some add.assoc add.commute append_Cons length_Cons plus_1_eq_Suc)
    from Cons.prems(1) [unfolded Some] show ?thesis
    proof (cases rule: check_entry)
      case other
      then show ?thesis using shift Cons.IH [OF other(2) Cons.prems(2)] by blast
    next
      case (goes_on n)
      show ?thesis
      proof (cases "chosen e i mt = Some j")
        case True
        then have "j = i" using Cons.prems(2) by (auto simp: chosen_def split: if_splits)
        then show ?thesis using goes_on(1) Some by (intro exI [of _ "[]"]) simp
      next
        case False
        then show ?thesis using shift Cons.IH [OF goes_on(4)] by blast
      qed
    qed simp
  qed
qed simp

text \<open>An entry for the module whose scope the value was pushed into settles the loop, whatever follows it.\<close>

definition settled :: "what \<Rightarrow> mod_error + (unit + nat option \<times> bool) \<Rightarrow> bool" where
  "settled w r = (case w of Address \<Rightarrow> r = Inr (Inl ()) | UNSName \<Rightarrow> (\<exists>mt. r = Inr (Inr (mt, True))))"

lemma check_satisfied:
  assumes "check_modules E keyData publicKey name UNS_name i pre mt t = Inr (Inr (m, t1))"
    "any_node (name_matches name) (te_module_names e) = Inr True" "satisfied E keyData publicKey UNS_name w (te_scope e)"
    "check_modules E keyData publicKey name UNS_name (i + length pre + 1) post (chosen e (i + length pre) m) t2 = Inr (Inr (m', t'))"
  shows "settled w (check_modules E keyData publicKey name UNS_name i (pre @ Some e # post) mt t)"
proof (cases w)
  case Address
  then show ?thesis
    using check_append [OF assms(1), of "Some e # post"] check_entry_eq(2) [OF assms(2)] assms(3)
    by (simp add: settled_def satisfied_def)
next
  case UNSName
  then show ?thesis
    using check_append [OF assms(1), of "Some e # post"] check_entry_eq(3) [OF assms(2)] assms(3) check_modules_more [OF assms(4)]
    by (simp add: settled_def satisfied_def)
qed

lemma check_after_push:
  assumes "check_modules E keyData publicKey name UNS_name 0 (module_entries tr) None t = Inr (Inr (mt, t'))"
    "trust_for_module w v name mt tr = Inr tr'" "good_value E publicKey UNS_name w v"
  shows "settled w (check_modules E keyData publicKey name UNS_name 0 (module_entries tr') None t)"
proof (cases mt)
  case None
  then obtain sc where sc: "push_scope w v empty_scope = Inr sc"
    "module_entries tr' = module_entries tr @ [Some \<lparr>te_module_names = Strings [Some name], te_scope = sc\<rparr>]"
    using assms(2) by (cases "tr_modules tr") (auto simp: trust_for_module_def res_bind_eq_Inr Let_def module_entries_def)
  have "satisfied E keyData publicKey UNS_name w sc" by (rule push_satisfies [OF empty_scope_neutral assms(3) sc(1)])
  then show ?thesis using check_satisfied [OF assms(1), of "\<lparr>te_module_names = Strings [Some name], te_scope = sc\<rparr>" w "[]"]
    by (simp add: sc(2) any_node_def name_matches_def)
next
  case (Some j)
  from check_modules_chosen [OF assms(1) [unfolded Some]] obtain pre e post where
    es: "module_entries tr = pre @ Some e # post" "j = length pre" "any_node (name_matches name) (te_module_names e) = Inr True"
    by auto
  obtain m t1 where pre: "check_modules E keyData publicKey name UNS_name 0 pre None t = Inr (Inr (m, t1))"
    using check_prefix assms(1) unfolding es(1) by blast
  have "check_modules E keyData publicKey name UNS_name j (Some e # post) m t1 = Inr (Inr (mt, t'))"
    using check_append [OF pre, of "Some e # post"] assms(1) es by simp
  then obtain n where e: "scope_trusts E keyData publicKey (te_scope e) = Inr False" "scope_names UNS_name (te_scope e) = Inr n"
    "check_modules E keyData publicKey name UNS_name (j + 1) post (chosen e j m) (t1 \<or> n) = Inr (Inr (mt, t'))"
    by (cases rule: check_entry) (use es(3) in auto)
  obtain sc where sc: "push_scope w v (te_scope e) = Inr sc" "module_entries tr' = pre @ Some (e\<lparr>te_scope := sc\<rparr>) # post"
    using assms(2) es(1,2) unfolding Some
    by (cases "tr_modules tr") (auto simp: trust_for_module_def res_bind_eq_Inr module_entries_def)
  have "satisfied E keyData publicKey UNS_name w sc" by (rule push_satisfies [OF e(1,2) assms(3) sc(1)])
  then show ?thesis
    using check_satisfied [OF pre, of "e\<lparr>te_scope := sc\<rparr>" w post] es(2,3) e(3) by (simp add: sc(2) chosen_def)
qed

lemma consult_settled:
  assumes "with_all (scope_trusts E keyData publicKey) tr = Inr False" "with_all (scope_names UNS_name) tr = Inr t"
    "settled w (check_modules E keyData publicKey name UNS_name 0 (module_entries tr) None t)"
    "w = UNSName \<Longrightarrow> UNS_name \<noteq> [] \<and> ue_uns E UNS_name keyData"
  shows "consult E keyData publicKey name UNS_name tr = Inr (Inl ())"
proof (cases w)
  case Address
  with assms(3) have "check_modules E keyData publicKey name UNS_name 0 (module_entries tr) None t = Inr (Inl ())"
    by (simp add: settled_def)
  then show ?thesis using assms(1,2) by (simp add: consult_def)
next
  case UNSName
  with assms(3) obtain mt where "check_modules E keyData publicKey name UNS_name 0 (module_entries tr) None t = Inr (Inr (mt, True))"
    by (auto simp: settled_def)
  then show ?thesis using assms(1,2) assms(4) [OF UNSName] by (simp add: consult_def consult_UNS_def)
qed

lemma trust_for_module_all:
  assumes "trust_for_module w v name mt tr = Inr tr'"
  shows "with_all f tr' = with_all f tr"
proof -
  have "tr_all tr' = tr_all tr"
  proof (cases mt)
    case None
    with assms show ?thesis by (cases "tr_modules tr") (auto simp: trust_for_module_def res_bind_eq_Inr Let_def)
  next
    case (Some i)
    show ?thesis
    proof (cases "tr_modules tr")
      case (Node es)
      with assms Some show ?thesis by (cases "es ! i") (auto simp: trust_for_module_def res_bind_eq_Inr)
    qed (use assms Some in \<open>auto simp: trust_for_module_def\<close>)
  qed
  then show ?thesis by (simp add: with_all_def)
qed

lemma consult_after_push:
  assumes "with_all (scope_trusts E keyData publicKey) tr = Inr False" "with_all (scope_names UNS_name) tr = Inr t"
    "check_modules E keyData publicKey name UNS_name 0 (module_entries tr) None t = Inr (Inr (mt, t'))"
    "good_value E publicKey UNS_name w v" "w = UNSName \<Longrightarrow> UNS_name \<noteq> [] \<and> ue_uns E UNS_name keyData"
    "trust_for_all w v tr = Inr tr' \<or> trust_for_module w v name mt tr = Inr tr'"
  shows "consult E keyData publicKey name UNS_name tr' = Inr (Inl ())"
  using assms(6)
proof
  assume m: "trust_for_module w v name mt tr = Inr tr'"
  show ?thesis
    by (rule consult_settled [OF _ _ check_after_push [OF assms(3) m assms(4)] assms(5)])
      (simp_all add: trust_for_module_all [OF m] assms(1,2))
next
  assume a: "trust_for_all w v tr = Inr tr'"
  then obtain sc0 sc where sc: "push_scope w v sc0 = Inr sc" "tr' = tr\<lparr>tr_all := Node sc\<rparr>"
    "scope_trusts E keyData publicKey sc0 = Inr False" "scope_names UNS_name sc0 = Inr t"
    using assms(1,2) empty_scope_neutral
    by (cases "tr_all tr") (auto simp: trust_for_all_def with_all_def res_bind_eq_Inr)
  have s: "satisfied E keyData publicKey UNS_name w sc" by (rule push_satisfies [OF sc(3,4) assms(4) sc(1)])
  have e: "module_entries tr' = module_entries tr" by (simp add: sc(2) module_entries_def)
  show ?thesis
  proof (cases w)
    case Address
    then show ?thesis using s sc(2) by (simp add: satisfied_def consult_def with_all_def)
  next
    case UNSName
    then have "with_all (scope_trusts E keyData publicKey) tr' = Inr False" "with_all (scope_names UNS_name) tr' = Inr True"
      using s sc(2) by (simp_all add: satisfied_def with_all_def)
    then show ?thesis
      by (rule consult_settled [where w = UNSName]) (use e check_modules_more [OF assms(3)] assms(5) UNSName in \<open>auto simp: settled_def\<close>)
  qed
qed

lemma alphabet_no_space: "chr CHR '' '' \<notin> set ALPHABET"
  by (simp add: ALPHABET_def)

lemma own_address_matches:
  assumes "ltc_ok (ue_ltc E)" "new_address (ue_ltc E) (ue_gmp E) (ue_stack E) publicKey 0 True = Inr ka" "address_toString ka = Inr str"
  shows "address_matches E publicKey str = Inr True"
proof -
  have "set str \<subseteq> set ALPHABET" using encode_set [of "ka_packed ka"] assms(3) by (auto simp: address_toString_def)
  then have "erase_spaces str = str" using alphabet_no_space by (auto simp: erase_spaces_def filter_id_conv)
  moreover have "address_of_string (ue_ltc E) (ue_stack E) str = Inr ka"
    by (rule string_read_back [OF assms(1,2) _ assms(3)]) simp
  ultimately show ?thesis using own_key_matches [OF assms(2)] by (simp add: address_matches_def key_res_def)
qed

lemma consult_asks:
  assumes "consult E keyData publicKey name UNS_name tr = Inr (Inr (mt, b))"
  obtains t t' where "with_all (scope_trusts E keyData publicKey) tr = Inr False" "with_all (scope_names UNS_name) tr = Inr t"
    "check_modules E keyData publicKey name UNS_name 0 (module_entries tr) None t = Inr (Inr (mt, t'))"
    "b = (UNS_name \<noteq> [] \<and> ue_uns E UNS_name keyData)"
  using assms
proof (cases rule: consult_cases)
  case (more t r)
  then obtain mt' t' where r: "r = Inr (mt', t')" by (cases r) auto
  then have "mt' = mt" "b = (UNS_name \<noteq> [] \<and> ue_uns E UNS_name keyData)"
    using more(4) by (auto simp: consult_UNS_def split: if_splits)
  then show thesis using more(1-3) r that by blast
qed simp

lemma ask_user_Some:
  assumes "ask_user E name UNS_name ka tr (mt, b) inp = Inr (Some tr')"
  obtains w v where "w = UNSName \<and> b \<and> v = UNS_name \<or> w = Address \<and> address_toString ka = Inr v"
    "trust_for_all w v tr = Inr tr' \<or> trust_for_module w v name mt tr = Inr tr'"
proof -
  obtain changed inp1 where c: "(if b then ask_trust UNSName UNS_name name mt tr inp else Inr (None, inp)) = Inr (changed, inp1)"
    using assms by (auto simp: ask_user_def res_bind_eq_Inr)
  show thesis
  proof (cases changed)
    case None
    then obtain str inp2 where "address_toString ka = Inr str" "ask_trust Address str name mt tr inp1 = Inr (Some tr', inp2)"
      using assms c by (auto simp: ask_user_def res_bind_eq_Inr split: sum.splits)
    then show thesis using that [of Address str] ask_yes(2) by blast
  next
    case (Some tr1)
    then have "tr1 = tr'" using assms c by (auto simp: ask_user_def)
    then show thesis using that [of UNSName UNS_name] c Some ask_yes(2) by (auto split: if_splits)
  qed
qed

text \<open>The part of the environment that decides, apart from the trust file.\<close>

abbreviation with_trust_file :: "u8env \<Rightarrow> (bytes \<Rightarrow> bool \<Rightarrow> bool) \<Rightarrow> (bytes \<Rightarrow> mod_error + trust) \<Rightarrow> u8env" where
  "with_trust_file E ex tf \<equiv> E\<lparr>ue_exists := ex, ue_trust := tf\<rparr>"

lemma matches_file [simp]:
  "key_matches (with_trust_file E ex tf) = key_matches E" "address_matches (with_trust_file E ex tf) = address_matches E"
  "consult_UNS (with_trust_file E ex tf) = consult_UNS E"
  by (simp_all add: fun_eq_iff key_matches_def address_matches_def consult_UNS_def)

lemma scope_trusts_file [simp]: "scope_trusts (with_trust_file E ex tf) = scope_trusts E"
  by (simp add: fun_eq_iff scope_trusts_def cong: if_cong)

lemma check_modules_file [simp]:
  "check_modules (with_trust_file E ex tf) keyData publicKey name UNS_name i es mt t =
    check_modules E keyData publicKey name UNS_name i es mt t"
proof (induction es arbitrary: i mt t)
  case (Cons x es)
  then show ?case by (cases x) (simp_all cong: if_cong)
qed simp

lemma consult_file [simp]: "consult (with_trust_file E ex tf) = consult E"
  by (simp add: fun_eq_iff consult_def cong: if_cong sum.case_cong)

lemma trusted_again:
  assumes "ltc_ok (ue_ltc E)" "checkKeyTrust E name homeDir manifest keyData inp = Inr (True, Some (path, tr'))"
    "searchU8TrustFile (with_trust_file E ex tf) homeDir = path" "path \<noteq> []" "tf path = Inr tr'"
  shows "checkKeyTrust (with_trust_file E ex tf) name homeDir manifest keyData inp' = Inr (True, None)"
proof (cases "keyData = U8Key E")
  case False
  have key: "U8Key (with_trust_file E ex tf) = U8Key E" by (simp add: U8Key_def)
  from assms(2) False show ?thesis
  proof (cases rule: key_trust_cases)
    case (asked tr publicKey q ka changed)
    obtain mt b where q: "q = (mt, b)" by (cases q)
    let ?U = "uns_name manifest"
    have ch: "changed = Some tr'" using asked(7) by (cases changed) auto
    have "\<exists>t t'. with_all (scope_trusts E keyData publicKey) tr = Inr False \<and> with_all (scope_names ?U) tr = Inr t \<and>
      check_modules E keyData publicKey name ?U 0 (module_entries tr) None t = Inr (Inr (mt, t')) \<and>
      (b \<longrightarrow> ?U \<noteq> [] \<and> ue_uns E ?U keyData)"
    proof (cases "searchU8TrustFile E homeDir = []")
      case True
      with asked(3) q show ?thesis
        by (intro exI [of _ False]) (simp add: empty_trust_def with_all_def module_entries_def scope_names_def)
    next
      case False
      with asked(3) q have "consult E keyData publicKey name ?U tr = Inr (Inr (mt, b))" by simp
      then show ?thesis by (rule consult_asks) blast
    qed
    then obtain t t' where before: "with_all (scope_trusts E keyData publicKey) tr = Inr False" "with_all (scope_names ?U) tr = Inr t"
      "check_modules E keyData publicKey name ?U 0 (module_entries tr) None t = Inr (Inr (mt, t'))"
      "b \<Longrightarrow> ?U \<noteq> [] \<and> ue_uns E ?U keyData" by blast
    obtain w v where w: "w = UNSName \<and> b \<and> v = ?U \<or> w = Address \<and> address_toString ka = Inr v"
      "trust_for_all w v tr = Inr tr' \<or> trust_for_module w v name mt tr = Inr tr'"
      using asked(5) unfolding q ch by (rule ask_user_Some)
    have good: "good_value E publicKey ?U w v"
      using w(1) before(4) own_address_matches [OF assms(1) asked(4)] by (auto simp: good_value_def)
    have "consult E keyData publicKey name ?U tr' = Inr (Inl ())"
      by (rule consult_after_push [OF before(1-3) good _ w(2)]) (use w(1) before(4) in auto)
    then show ?thesis
      using False asked(1,2) assms(3-5) by (simp add: checkKeyTrust_def key key_res_def Let_def)
  qed auto
qed (use assms in \<open>simp add: checkKeyTrust_def\<close>)

section \<open>A sample\<close>

definition sample_env :: u8env where
  "sample_env = \<lparr>ue_ltc = toy_ltc, ue_gmp = toy_gmp, ue_rsa = failing_lib, ue_parser = no_keys,
     ue_stack = (\<lambda>i. 0), ue_junk = [0, 0, 0, 0], ue_exists = (\<lambda>f d. f = cstr ''u8trust.yaml''), ue_read = (\<lambda>f. None), ue_zip = (\<lambda>f. None),
     ue_core = [], ue_core_zip = None, ue_get = (\<lambda>u. (404, [])), ue_put = (\<lambda>f. False),
     ue_trust = (\<lambda>f. Inr \<lparr>tr_all = NoNode, tr_modules = Node [Some \<lparr>te_module_names = Strings [Some (cstr ''m'')],
       te_scope = empty_scope\<lparr>ts_keys := Strings [Some (cstr ''JggcAQAB DCEA'')]\<rparr>\<rparr>]\<rparr>), ue_uns = (\<lambda>n k. False)\<rparr>"

definition sample_key :: bytes where
  "sample_key = [38, 8, 28, 1, 0, 1, 12, 33, 0]"

text \<open>The first bytes of the built-in key.\<close>

lemma decode_loop_prefix: "decode_loop arr i ret s = (arr', j, ret') \<Longrightarrow> \<exists>x. ret' = ret @ x"
proof (induction arr i ret s rule: decode_loop.induct)
  case (2 arr i ret c s)
  then show ?case by (fastforce simp: Let_def split: if_splits)
qed simp

lemma U8Key_start:
  assumes "length (ue_junk E) = 4"
  shows "\<exists>rest. U8Key E = [30, 8, 28] @ rest"
proof -
  have ok: "b64_ok 7" "b64_ok 32" "b64_ok 28" by (rule b64_at_ok; code_simp)+
  have start: "take 4 U8_PUBLIC_KEY = [b64_at 7, b64_at 32, b64_at 32, b64_at 28]" by code_simp
  have quad: "decode_quad [7, 32, 32, 28] = [30, 8, 28]" by code_simp
  let ?rest = "drop 4 U8_PUBLIC_KEY"
  have key: "U8_PUBLIC_KEY = b64_at 7 # b64_at 32 # b64_at 32 # b64_at 28 # ?rest"
    using append_take_drop_id [of 4 U8_PUBLIC_KEY] unfolding start by simp
  obtain arr' j ret where d: "decode_loop [7, 32, 32, 28] 0 [30, 8, 28] ?rest = (arr', j, ret)" by (metis prod_cases3)
  obtain x where x: "ret = [30, 8, 28] @ x" using decode_loop_prefix [OF d] by blast
  have "decode_loop (ue_junk E) 0 [] U8_PUBLIC_KEY = decode_loop [7, 32, 32, 28] 0 ([] @ decode_quad [7, 32, 32, 28]) ?rest"
    by (subst key) (rule decode_four [OF assms ok(1,2,2,3)])
  then have "decode_loop (ue_junk E) 0 [] U8_PUBLIC_KEY = (arr', j, ret)" by (simp add: quad d)
  then show ?thesis using x by (simp add: U8Key_def base64_decode_def)
qed

lemma sample_not_u8: "sample_key \<noteq> U8Key sample_env"
  using U8Key_start [of sample_env] by (auto simp: sample_key_def sample_env_def)

definition plain_key :: public_key where
  "plain_key = \<lparr>pk_e = 65537, pk_N = 33\<rparr>"

lemma big_endian_shift: "0 < n \<Longrightarrow> big_endian (n * 256 ^ k) = big_endian n @ replicate k 0"
proof (induction k)
  case (Suc k)
  have "(256 :: byte) = 0" by simp
  then have wrap: "(of_nat n :: byte) * (256 * 256 ^ k) = 0" by (simp only: mult_zero_left mult_zero_right)
  have "big_endian (n * 256 ^ Suc k) = big_endian (n * 256 ^ k) @ [0]"
    using Suc.prems wrap by (subst big_endian.simps) (simp add: mult.assoc)
  then show ?case using Suc by (simp add: replicate_append_same)
qed simp

lemma small_bytes: "big_endian 65537 = [1, 0, 1]" "big_endian 33 = [33]"
  by (simp_all add: big_endian.simps)

lemma unpack_extra:
  assumes "serialize (UArray [UInt 1, UBytes (mpz_export toy_gmp e), UBytes (mpz_export toy_gmp n), UInt 0]) = Inr bs"
    "length bs < 2 ^ 32" "0 < e" "0 < n" "sized (mpz_export toy_gmp e)" "sized (mpz_export toy_gmp n)"
  shows "unpack_public toy_gmp stack no_keys bs = Inr \<lparr>pk_e = e, pk_N = n\<rparr>"
proof -
  have "read_array no_keys bs = Inr [UInt 1, UBytes (mpz_export toy_gmp e), UBytes (mpz_export toy_gmp n), UInt 0]"
    by (rule array_read_back [OF _ _ _ assms(1,2)]) (use assms(5,6) in \<open>auto simp: sized_def\<close>)
  then show ?thesis using assms(3,4)
    by (simp add: unpack_public_def public_of_bytes_def public_of_numbers_def import_export [OF toy_gmp_ok] unsigned_bin_pos [OF toy_gmp_ok])
qed

lemma sample_unpack: "unpack_public toy_gmp (\<lambda>i. 0) no_keys sample_key = Inr plain_key"
proof -
  have "serialize (UArray [UInt 1, UBytes [1, 0, 1], UBytes [33], UInt 0]) = Inr sample_key" by code_simp
  then show ?thesis unfolding plain_key_def
    by (intro unpack_extra) (simp_all add: toy_gmp_def small_bytes sample_key_def sized_def)
qed

lemma sample_found: "searchU8TrustFile sample_env homeDir = cstr ''u8trust.yaml''"
  by (simp add: searchU8TrustFile_def sample_env_def)

definition sample_trust :: trust where
  "sample_trust = \<lparr>tr_all = NoNode, tr_modules = Node [Some \<lparr>te_module_names = Strings [Some (cstr ''m'')],
     te_scope = empty_scope\<lparr>ts_keys := Strings [Some (cstr ''JggcAQAB DCEA'')]\<rparr>\<rparr>]\<rparr>"

lemma sample_listed: "key_matches sample_env sample_key (cstr ''JggcAQAB DCEA'') = Inr True"
  by code_simp

lemma sample_consult: "consult sample_env sample_key plain_key (cstr ''m'') [] sample_trust = Inr (Inl ())"
  using sample_listed
  by (simp add: consult_def sample_trust_def with_all_def module_entries_def any_node_def name_matches_def scope_trusts_def
    empty_scope_def)

lemma sample_trusted: "checkKeyTrust sample_env (cstr ''m'') [] (\<lambda>k. None) sample_key [] = Inr (True, None)"
proof -
  have "ue_trust sample_env (cstr ''u8trust.yaml'') = Inr sample_trust" "ue_gmp sample_env = toy_gmp"
    "ue_stack sample_env = (\<lambda>i. 0)" "ue_parser sample_env = no_keys"
    by (simp_all add: sample_env_def sample_trust_def)
  then show ?thesis using sample_not_u8 sample_consult
    by (simp add: checkKeyTrust_def sample_found sample_unpack key_res_def U8COREMODULE_NAME_def uns_name_def)
qed

text \<open>A key with an address; nothing trusts it, and the user does so for one module.\<close>

definition big_data :: bytes where
  "big_data = [38, 8, 28, 1, 0, 1, 196, 0, 1, 128] @ replicate 255 0 @ [0]"

lemma big_exports: "mpz_export toy_gmp (pk_N big_key) = 128 # replicate 255 0" "mpz_export toy_gmp (pk_e big_key) = [1, 0, 1]"
proof -
  have "nat (pk_N big_key) = 128 * 256 ^ 255" by (simp add: big_key_def nat_power_eq)
  then show "mpz_export toy_gmp (pk_N big_key) = 128 # replicate 255 0"
    using big_endian_shift [of 128 255] toy_bytes [of 128] by (simp add: toy_gmp_def)
  show "mpz_export toy_gmp (pk_e big_key) = [1, 0, 1]" by (simp add: toy_gmp_def big_key_def small_bytes)
qed

lemma big_positive: "0 < pk_N big_key" "0 < pk_e big_key"
  by (simp_all add: big_key_def)

lemma big_unpack: "unpack_public toy_gmp (\<lambda>i. 0) no_keys big_data = Inr big_key"
proof -
  have "serialize (UArray [UInt 1, UBytes [1, 0, 1], UBytes (128 # replicate 255 0), UInt 0]) = Inr big_data" by code_simp
  then have "unpack_public toy_gmp (\<lambda>i. 0) no_keys big_data = Inr \<lparr>pk_e = pk_e big_key, pk_N = pk_N big_key\<rparr>"
    by (intro unpack_extra) (simp_all add: big_exports big_positive sized_def big_data_def)
  then show ?thesis by simp
qed

definition no_file_env :: u8env where
  "no_file_env = sample_env\<lparr>ue_exists := (\<lambda>f d. False)\<rparr>"

definition user_path :: bytes where
  "user_path = cstr ''/.u8/u8trust.yaml''"

definition module_trust :: "bytes \<Rightarrow> trust" where
  "module_trust str = \<lparr>tr_all = NoNode, tr_modules = Node [Some \<lparr>te_module_names = Strings [Some (cstr ''m'')],
     te_scope = empty_scope\<lparr>ts_addresses := Strings [Some str]\<rparr>\<rparr>]\<rparr>"

lemma big_not_u8: "big_data \<noteq> U8Key no_file_env"
  using U8Key_start [of no_file_env] by (auto simp: big_data_def no_file_env_def sample_env_def)

lemma big_asked:
  "\<exists>str. checkKeyTrust no_file_env (cstr ''m'') [] (\<lambda>k. None) big_data [cstr ''y'', cstr ''n''] =
    Inr (True, Some (user_path, module_trust str))"
proof -
  let ?a = "address_parts toy_ltc 1 True (hash_memory toy_ltc (addr_hash True) (getKeyComponentsAsBytes toy_gmp (\<lambda>i. 0) big_key)) 0"
  have a: "new_address toy_ltc toy_gmp (\<lambda>i. 0) big_key 0 True = Inr ?a" by (rule new_address_parts [OF big_key_mask]) simp
  obtain str where str: "address_toString ?a = Inr str" using encode_set [of "ka_packed ?a"] by (auto simp: address_toString_def)
  have E: "ue_gmp no_file_env = toy_gmp" "ue_ltc no_file_env = toy_ltc" "ue_stack no_file_env = (\<lambda>i. 0)"
    "ue_parser no_file_env = no_keys" "searchU8TrustFile no_file_env [] = []"
    by (simp_all add: no_file_env_def sample_env_def searchU8TrustFile_def)
  have "ask_trust Address str (cstr ''m'') None empty_trust [cstr ''y'', cstr ''n''] = Inr (Some (module_trust str), [])"
    by (simp add: ask_trust_def answer_def trust_for_module_def push_scope_def push_string_def empty_scope_def empty_trust_def
      module_trust_def)
  then show ?thesis using big_not_u8 a str
    by (intro exI [of _ str])
      (simp add: checkKeyTrust_def E big_unpack key_res_def U8COREMODULE_NAME_def ask_user_def trust_path_def user_path_def)
qed

section \<open>Properties\<close>

text \<open>C14: A key other than the built-in one is trusted only for a reason that speaks of this very module and key: never for
  the core module; and otherwise the trust file lists the key or its address for all modules or in an entry that names
  the module, or it lists there the UNS contract the module names and that contract lists the key, or the user
  answered yes and the answer was written to the file.\<close>

theorem key_trusted:
  assumes "checkKeyTrust E name homeDir manifest keyData inp = Inr (True, saved)" "keyData \<noteq> U8Key E"
  shows "name \<noteq> U8COREMODULE_NAME \<and> (\<exists>publicKey. unpack_public (ue_gmp E) (ue_stack E) (ue_parser E) keyData = Inr publicKey \<and>
    ((\<exists>tr. ue_trust E (searchU8TrustFile E homeDir) = Inr tr \<and> file_trusts E keyData publicKey name (uns_name manifest) tr) \<or>
     (saved \<noteq> None \<and> (\<exists>a \<in> set inp. says_yes a))))"
  using assms by (rule key_trusted_because)

theorem key_trusted_witness:
  "\<exists>publicKey tr. ue_trust sample_env (cstr ''u8trust.yaml'') = Inr tr \<and>
     file_trusts sample_env sample_key publicKey (cstr ''m'') (uns_name (\<lambda>k. None)) tr"
  using key_trusted [OF sample_trusted sample_not_u8] unfolding sample_found by auto

text \<open>C15: What the user trusted stays trusted: when \<open>checkKeyTrust\<close> accepts a key after a question (for all modules or for
  this one, the key or the UNS contract) and writes the trust file, then the same key is accepted for the same module
  from that file without any question.\<close>

theorem trust_remembered:
  assumes "ltc_ok (ue_ltc E)" "checkKeyTrust E name homeDir manifest keyData inp = Inr (True, Some (path, tr'))"
    "searchU8TrustFile (with_trust_file E ex tf) homeDir = path" "path \<noteq> []" "tf path = Inr tr'"
  shows "checkKeyTrust (with_trust_file E ex tf) name homeDir manifest keyData inp' = Inr (True, None)"
  using assms by (rule trusted_again)

theorem trust_remembered_witness:
  "\<exists>str. checkKeyTrust (with_trust_file no_file_env (\<lambda>f d. f = user_path) (\<lambda>f. Inr (module_trust str)))
     (cstr ''m'') [] (\<lambda>k. None) big_data [] = Inr (True, None)"
proof -
  obtain str where "checkKeyTrust no_file_env (cstr ''m'') [] (\<lambda>k. None) big_data [cstr ''y'', cstr ''n''] =
    Inr (True, Some (user_path, module_trust str))" using big_asked by blast
  then show ?thesis
    by (intro exI [of _ str] trust_remembered [where path = user_path])
      (simp_all add: no_file_env_def sample_env_def toy_ltc_ok searchU8TrustFile_def user_path_def)
qed

end
