(* ===== verification/U8Module.thy ===== *)
theory U8Module
  imports U8Trust
begin

text \<open>
  \<open>modules/U8Module.cpp\<close> and \<open>modules/ModuleManager.cpp\<close>: finding, downloading and opening a module, the check of its
  signature and of who signed it, the roots files are required from, and the table of loaded modules; and
  \<open>singModule\<close> of \<open>tools/tools.cpp\<close>, which signs a module. libzip, the file system and the network are in \<open>u8env\<close>.
  A module is a ZIP archive whose comment, after the two bytes that hold its length, is the packed signature.
\<close>

definition U8COREMODULE_FULLNAME :: bytes where "U8COREMODULE_FULLNAME = cstr ''u8core.u8m''"

record u8module =
  md_name :: bytes
  md_modulePath :: bytes
  md_homeDir :: bytes
  md_require_roots :: "bytes list"
  md_lenSignData :: int
  md_manifest :: "bytes \<Rightarrow> bytes option"

definition new_module :: "bytes \<Rightarrow> bytes \<Rightarrow> u8module" where
  "new_module modulePath homeDir = \<lparr>md_name = [], md_modulePath = modulePath, md_homeDir = homeDir, md_require_roots = [],
     md_lenSignData = 0, md_manifest = (\<lambda>k. None)\<rparr>"

section \<open>Finding and loading\<close>

definition searchU8Module :: "u8env \<Rightarrow> bytes \<Rightarrow> bytes \<Rightarrow> bytes" where
  "searchU8Module E homeDir basePath =
     (if ue_exists E basePath False then basePath
      else if ue_exists E (cstr ''./.u8/modules/'' @ basePath) False then cstr ''./.u8/modules/'' @ basePath
      else if ue_exists E (homeDir @ cstr ''/.u8/modules/'' @ basePath) False then homeDir @ cstr ''/.u8/modules/'' @ basePath
      else [])"

definition is_upper :: "byte \<Rightarrow> bool" where "is_upper c \<longleftrightarrow> chr CHR ''A'' \<le> c \<and> c \<le> chr CHR ''Z''"
definition is_lower :: "byte \<Rightarrow> bool" where "is_lower c \<longleftrightarrow> chr CHR ''a'' \<le> c \<and> c \<le> chr CHR ''z''"
definition is_number :: "byte \<Rightarrow> bool" where "is_number c \<longleftrightarrow> chr CHR ''0'' \<le> c \<and> c \<le> chr CHR ''9''"

text \<open>The two character classes of the regular expression, and its search.\<close>

definition url_last :: "byte \<Rightarrow> bool" where
  "url_last c \<longleftrightarrow> is_upper c \<or> is_number c \<or> c \<in> set (cstr ''+&@#/%=~_|$'')"

definition url_char :: "byte \<Rightarrow> bool" where
  "url_char c \<longleftrightarrow> url_last c \<or> is_lower c \<or> c \<in> set (cstr ''-?!:,.;'')"

definition url_at :: "bytes \<Rightarrow> bool" where
  "url_at s \<longleftrightarrow> take 7 s = cstr ''http://'' \<and> list_ex url_last (takeWhile url_char (drop 7 s))"

definition isCorrectURL :: "bytes \<Rightarrow> bool" where
  "isCorrectURL url = list_ex (\<lambda>i. url_at (drop i url)) [0..<length url]"

definition getFileFromURL :: "u8env \<Rightarrow> bytes \<Rightarrow> bytes \<Rightarrow> mod_error + bytes" where
  "getFileFromURL E homeDir url =
     (let path = (homeDir @ cstr ''/.u8'') @ cstr ''/loaded_modules/''; (respCode, body) = ue_get E url;
          file_name = map (\<lambda>ch. if is_upper ch \<or> is_lower ch \<or> is_number ch then ch else chr CHR ''_'') url @ cstr ''.u8m'' in
      if respCode = 200 \<and> body \<noteq> [] \<and> ue_put E (path @ file_name) then Inr (path @ file_name) else Inl DownloadFailed)"

definition loadManifest :: "zip_info \<Rightarrow> mod_error + (bytes \<Rightarrow> bytes option)" where
  "loadManifest z = (case zi_manifest z of
     None \<Rightarrow> Inr (\<lambda>k. None)
   | Some (Inl e) \<Rightarrow> Inl e
   | Some (Inr yaml) \<Rightarrow> Inr (\<lambda>k. if k \<in> {cstr ''name'', cstr ''UNS_name'', cstr ''useInUBot''} then yaml k else None))"

definition open_module :: "u8env \<Rightarrow> u8module \<Rightarrow> zip_info option \<times> u8module" where
  "open_module E m =
     (if md_modulePath m = U8COREMODULE_FULLNAME then (ue_core_zip E, m)
      else let path = searchU8Module E (md_homeDir m) (md_modulePath m) in
        if path \<noteq> [] then (ue_zip E path, m\<lparr>md_modulePath := path\<rparr>) else (None, m))"

definition load :: "u8env \<Rightarrow> bool \<Rightarrow> u8module \<Rightarrow> bool \<times> u8module" where
  "load E inUBot m =
     (case (if isCorrectURL (md_modulePath m) then getFileFromURL E (md_homeDir m) (md_modulePath m) else Inr (md_modulePath m)) of
        Inl _ \<Rightarrow> (False, m)
      | Inr path \<Rightarrow>
          (case open_module E (m\<lparr>md_modulePath := path\<rparr>) of
             (None, m) \<Rightarrow> (False, m)
           | (Some z, m) \<Rightarrow>
               let m = m\<lparr>md_lenSignData := zi_comment z\<rparr> in
               (case loadManifest z of
                  Inl _ \<Rightarrow> (False, m)
                | Inr manifest \<Rightarrow>
                    let m = m\<lparr>md_manifest := manifest,
                      md_name := (case manifest (cstr ''name'') of Some n \<Rightarrow> n | None \<Rightarrow> md_modulePath m)\<rparr> in
                    if inUBot \<and> manifest (cstr ''useInUBot'') \<noteq> Some (cstr ''true'') then (False, m) else (True, m))))"

section \<open>The signature\<close>

definition signature_field :: "uobj \<Rightarrow> bytes \<Rightarrow> mod_error + bytes" where
  "signature_field signature k =
     key_res (boss (res_bind (binder_asInstance signature) (\<lambda>b. bytes_asInstance (binder_get b k))))"

text \<open>The key in the packed signature, and whether the signature of \<open>data\<close> verifies with it.\<close>

definition verify_packed :: "u8env \<Rightarrow> bytes \<Rightarrow> bytes \<Rightarrow> mod_error + (bytes \<times> bool)" where
  "verify_packed E data packed =
     res_bind (key_res (boss (deserialize (ue_parser E) packed))) (\<lambda>signature.
     res_bind (signature_field signature (cstr ''pub_key'')) (\<lambda>keyData.
     res_bind (signature_field signature (cstr ''sha3_512'')) (\<lambda>sign.
     res_bind (key_res (unpack_public (ue_gmp E) (ue_stack E) (ue_parser E) keyData)) (\<lambda>publicKey.
       Inr (keyData, verify (ue_ltc E) (ue_rsa E) publicKey sign data SHA3_512)))))"

definition initRequireRoots :: "u8env \<Rightarrow> u8module \<Rightarrow> bool \<times> u8module" where
  "initRequireRoots E m =
     (let isU8Core = (md_name m = U8COREMODULE_NAME);
          m = (if isU8Core then m else m\<lparr>md_require_roots := md_require_roots m @ [md_modulePath m]\<rparr>);
          path = md_modulePath m @ cstr ''/jslib'' in
      if ue_exists E path True then (True, m\<lparr>md_require_roots := md_require_roots m @ [path]\<rparr>)
      else if isU8Core then (False, m)
      else (True, m))"

type_synonym checked = "bool \<times> (bytes \<times> trust) option \<times> u8module"

text \<open>
  What both branches do with the data and the packed signature. The key is asked about even when the signature does not
  verify.
\<close>

definition check_signed :: "u8env \<Rightarrow> bytes \<Rightarrow> bytes list \<Rightarrow> u8module \<Rightarrow> bytes \<Rightarrow> bytes \<Rightarrow> mod_error + checked" where
  "check_signed E signer inp m data packed =
     res_bind (verify_packed E data packed) (\<lambda>(keyData, res).
     res_bind (if signer \<noteq> [] then res_bind (checkSigner E keyData signer) (\<lambda>b. Inr (b, None))
               else checkKeyTrust E (md_name m) (md_homeDir m) (md_manifest m) keyData inp) (\<lambda>(trusted, saved).
       case initRequireRoots E m of (roots, m) \<Rightarrow> Inr (res \<and> trusted \<and> roots, saved, m)))"

definition catch_false :: "u8module \<Rightarrow> mod_error + checked \<Rightarrow> mod_error + checked" where
  "catch_false m r = (case r of Inl e \<Rightarrow> if thrown e then Inr (False, None, m) else Inl e | Inr x \<Rightarrow> Inr x)"

text \<open>
  \<open>checkModuleSignature\<close>: the result, the trust file it wrote, and the module with its require roots. The length of the
  comment goes through an \<open>unsigned short\<close>.
\<close>

definition checkModuleSignature :: "u8env \<Rightarrow> bytes \<Rightarrow> bytes list \<Rightarrow> u8module \<Rightarrow> mod_error + checked" where
  "checkModuleSignature E signer inp m =
     (if md_lenSignData m = 0 \<or> 65536 < md_lenSignData m then Inr (False, None, m)
      else
        let core = (md_modulePath m = U8COREMODULE_FULLNAME); len = nat (md_lenSignData m) in
        (case (if core then Some (ue_core E) else ue_read E (md_modulePath m)) of
           None \<Rightarrow> Inr (False, None, m)
         | Some file \<Rightarrow>
             if md_lenSignData m < 0 \<or> length file < len + 2 then Inl FileTooShort
             else
               let dataLen = length file - len - 2; data = take dataLen file;
                   packed = take (len mod 65536) (drop (dataLen + 2) file) in
               if \<not> core \<and> length packed \<noteq> len then Inr (False, None, m)
               else catch_false m (check_signed E (if core then [] else signer) inp m data packed)))"

definition resolveRequiredFile :: "u8env \<Rightarrow> u8module \<Rightarrow> bytes \<Rightarrow> bytes" where
  "resolveRequiredFile E m fileName =
     (if fileName \<noteq> [] \<and> (hd fileName = chr CHR ''.'' \<or> hd fileName = chr CHR ''/'') then fileName
      else (case find (\<lambda>r. ue_exists E (r @ chr CHR ''/'' # fileName) False) (md_require_roots m) of
              Some r \<Rightarrow> r @ chr CHR ''/'' # fileName | None \<Rightarrow> []))"

section \<open>Signing\<close>

datatype sing_error = SingKey key_error | SingRsa rsa_error | SingBoss boss_error | TooLarge | NoComment

text \<open>
  \<open>singModule\<close> after the archive was rewritten without its comment: \<open>file\<close> is the archive, whose last two bytes are the
  length zero of the comment, and the result is the file that was written. What \<open>sign\<close> draws and finds on its stack
  are \<open>rnd\<close> and \<open>junk\<close>.
\<close>

definition singModule :: "u8env \<Rightarrow> (nat \<Rightarrow> byte) \<Rightarrow> prng \<Rightarrow> bytes \<Rightarrow> bytes \<Rightarrow> sing_error + bytes" where
  "singModule E junk rnd file keyFile =
     (if length file < 2 then Inl NoComment
      else let dataLen = length file - 2; data = take dataLen file in
       (case unpack_private (ue_gmp E) (ue_stack E) (ue_parser E) keyFile of Inl e \<Rightarrow> Inl (SingKey e) | Inr k \<Rightarrow>
       (case sign (ue_ltc E) (ue_rsa E) junk rnd k data SHA3_512 of Inl e \<Rightarrow> Inl (SingRsa e) | Inr sig \<Rightarrow>
       (case pack_public (ue_gmp E) (ue_stack E) (public_of_private (ue_gmp E) (ue_stack E) k) of Inl e \<Rightarrow> Inl (SingKey e) | Inr packedKey \<Rightarrow>
        let keyBytes = take (length packedKey mod 65536) packedKey; signBytes = take (length sig mod 65536) sig;
            signature = binder_of2 (cstr ''pub_key'') (UBytes keyBytes) (cstr ''sha3_512'') (UBytes signBytes) in
       (case serialize (UBinder signature) of Inl e \<Rightarrow> Inl (SingBoss e) | Inr packed \<Rightarrow>
        if 65536 < length packed then Inl TooLarge
        else let size = length packed mod 65536 in
          Inr (data @ [of_nat size, of_nat (size div 256)] @ take size packed))))))"

section \<open>The module manager\<close>

record manager =
  mm_modules :: "bytes \<Rightarrow> u8module option"
  mm_modulesByPath :: "bytes \<Rightarrow> u8module option"
  mm_u8coreLoaded :: bool
  mm_startingModuleName :: bytes

definition new_manager :: manager where
  "new_manager = \<lparr>mm_modules = (\<lambda>n. None), mm_modulesByPath = (\<lambda>p. None), mm_u8coreLoaded = False, mm_startingModuleName = []\<rparr>"

text \<open>
  \<open>loadModule\<close> holds its mutex up to the check of the signature and again after it: \<open>Inl\<close> the result of the call when
  the first section settles it, \<open>Inr\<close> the module whose signature is to be checked.
\<close>

definition load_begin :: "u8env \<Rightarrow> bytes \<Rightarrow> bytes \<Rightarrow> bool \<Rightarrow> bool \<Rightarrow> manager \<Rightarrow> (bool + u8module) \<times> manager" where
  "load_begin E home sourceName isStarting inUBot mm =
     (if mm_modulesByPath mm sourceName \<noteq> None then (Inl True, mm)
      else (case load E inUBot (new_module sourceName home) of (ok, m) \<Rightarrow>
        if \<not> ok then (Inl False, mm)
        else if mm_modules mm (md_name m) \<noteq> None then
          (Inl True, if isStarting then mm\<lparr>mm_startingModuleName := md_name m\<rparr> else mm)
        else (Inr m, mm)))"

definition map_insert :: "'k \<Rightarrow> 'v \<Rightarrow> ('k \<Rightarrow> 'v option) \<Rightarrow> 'k \<Rightarrow> 'v option" where
  "map_insert k v f = (if f k = None then f(k := Some v) else f)"

definition load_finish :: "bytes \<Rightarrow> bool \<Rightarrow> u8module \<Rightarrow> bool \<Rightarrow> manager \<Rightarrow> manager" where
  "load_finish sourceName isStarting m res mm =
     (if \<not> res then mm
      else mm\<lparr>mm_modules := map_insert (md_name m) m (mm_modules mm),
              mm_modulesByPath := map_insert sourceName m (mm_modulesByPath mm),
              mm_u8coreLoaded := mm_u8coreLoaded mm \<or> md_name m = U8COREMODULE_NAME,
              mm_startingModuleName := (if isStarting then md_name m else mm_startingModuleName mm)\<rparr>)"

definition loadModule :: "u8env \<Rightarrow> bytes \<Rightarrow> bytes \<Rightarrow> bool \<Rightarrow> bool \<Rightarrow> bytes \<Rightarrow> bytes list \<Rightarrow> manager \<Rightarrow>
    mod_error + (bool \<times> (bytes \<times> trust) option \<times> manager)" where
  "loadModule E home sourceName isStarting inUBot signer inp mm =
     (case load_begin E home sourceName isStarting inUBot mm of
        (Inl r, mm) \<Rightarrow> Inr (r, None, mm)
      | (Inr m, mm) \<Rightarrow> res_bind (checkModuleSignature E signer inp m) (\<lambda>(res, saved, m).
          Inr (res, saved, load_finish sourceName isStarting m res mm)))"

definition getModule :: "manager \<Rightarrow> bytes \<Rightarrow> u8module option" where
  "getModule mm moduleName = mm_modules mm moduleName"

section \<open>Accepted modules\<close>

lemma catch_false_True: "catch_false m r = Inr (True, x) \<longleftrightarrow> r = Inr (True, x)"
  by (cases r) (auto simp: catch_false_def)

lemma verify_packed_Inr:
  assumes "verify_packed E data packed = Inr (keyData, b)"
  obtains sig publicKey where "signature_field (UBinder sig) (cstr ''pub_key'') = Inr keyData"
    "deserialize (ue_parser E) packed = Inr (UBinder sig)"
    "unpack_public (ue_gmp E) (ue_stack E) (ue_parser E) keyData = Inr publicKey"
    "\<exists>s. signature_field (UBinder sig) (cstr ''sha3_512'') = Inr s \<and> b = verify (ue_ltc E) (ue_rsa E) publicKey s data SHA3_512"
proof -
  obtain u s publicKey where h: "deserialize (ue_parser E) packed = Inr u" "signature_field u (cstr ''pub_key'') = Inr keyData"
    "signature_field u (cstr ''sha3_512'') = Inr s" "unpack_public (ue_gmp E) (ue_stack E) (ue_parser E) keyData = Inr publicKey"
    "b = verify (ue_ltc E) (ue_rsa E) publicKey s data SHA3_512"
    using assms unfolding verify_packed_def res_bind_eq_Inr key_res_Inr boss_eq_Inr by blast
  obtain sig where "u = UBinder sig" using h(2) by (cases u) (auto simp: signature_field_def binder_asInstance_def res_bind_def)
  then show thesis using h that by blast
qed

text \<open>What makes a signer acceptable: the one that was asked for, or else a trusted key.\<close>

definition signer_ok :: "u8env \<Rightarrow> bytes \<Rightarrow> bytes list \<Rightarrow> u8module \<Rightarrow> bytes \<Rightarrow> (bytes \<times> trust) option \<Rightarrow> bool" where
  "signer_ok E signer inp m keyData saved \<longleftrightarrow>
     (if signer \<noteq> [] then checkSigner E keyData signer = Inr True \<and> saved = None
      else checkKeyTrust E (md_name m) (md_homeDir m) (md_manifest m) keyData inp = Inr (True, saved))"

lemma check_signed_True:
  "check_signed E signer inp m data packed = Inr (True, saved, m') \<longleftrightarrow>
     (\<exists>keyData. verify_packed E data packed = Inr (keyData, True) \<and> signer_ok E signer inp m keyData saved \<and>
        initRequireRoots E m = (True, m'))"
  by (cases "initRequireRoots E m") (auto simp: check_signed_def signer_ok_def res_bind_eq_Inr)

text \<open>The bytes that were checked are those of the file: the signed data, two bytes, the signature.\<close>

definition module_file :: "u8env \<Rightarrow> u8module \<Rightarrow> bytes option" where
  "module_file E m = (if md_modulePath m = U8COREMODULE_FULLNAME then Some (ue_core E) else ue_read E (md_modulePath m))"

lemma cut_three: "xs = take n xs @ take k (drop n xs) @ drop (n + k) xs"
  by (metis add.commute append_take_drop_id drop_drop)

lemma drop_third: "length a = n \<Longrightarrow> length b = k \<Longrightarrow> drop (n + k) (a @ b @ c) = c"
  by simp

lemma accepted:
  assumes "checkModuleSignature E signer inp m = Inr (True, saved, m')" "md_lenSignData m < 65536"
  shows "\<exists>data two packed keyData. module_file E m = Some (data @ two @ packed) \<and> length two = 2 \<and>
    int (length packed) = md_lenSignData m \<and> verify_packed E data packed = Inr (keyData, True) \<and>
    signer_ok E (if md_modulePath m = U8COREMODULE_FULLNAME then [] else signer) inp m keyData saved \<and>
    initRequireRoots E m = (True, m')"
proof -
  let ?core = "md_modulePath m = U8COREMODULE_FULLNAME" and ?len = "nat (md_lenSignData m)"
  from assms obtain cont where cont: "module_file E m = Some cont"
    by (cases "module_file E m") (auto simp: checkModuleSignature_def module_file_def Let_def split: if_splits)
  let ?n = "length cont - ?len - 2"
  let ?data = "take ?n cont" and ?packed = "take (?len mod 65536) (drop (?n + 2) cont)"
  have len: "0 < md_lenSignData m" "?len + 2 \<le> length cont"
    using assms cont
    by (auto simp: checkModuleSignature_def Let_def module_file_def [symmetric] split: if_splits)
  have "catch_false m (check_signed E (if ?core then [] else signer) inp m ?data ?packed) = Inr (True, saved, m')"
    using assms cont len
    by (auto simp: checkModuleSignature_def Let_def module_file_def [symmetric] split: if_splits)
  then have c: "check_signed E (if ?core then [] else signer) inp m ?data ?packed = Inr (True, saved, m')"
    by (simp only: catch_false_True)
  have m: "?len mod 65536 = ?len" using assms(2) len by (intro mod_less) simp
  have p: "?packed = drop (?n + 2) cont" unfolding m using len by simp
  have "cont = ?data @ take 2 (drop ?n cont) @ ?packed" unfolding p by (rule cut_three)
  moreover have "length (take 2 (drop ?n cont)) = 2" "length ?packed = ?len" unfolding p using len by simp_all
  ultimately show ?thesis using c cont len unfolding check_signed_True by (metis nat_eq_iff2 order_less_le)
qed

section \<open>Signing and checking\<close>

text \<open>What signing \<open>data\<close> relies on: a key pair, and a key with which LibTomCrypt signs the SHA3-512 digest of the data.\<close>

definition signing_ok :: "u8env \<Rightarrow> prng \<Rightarrow> rsa_key \<Rightarrow> public_key \<Rightarrow> bytes \<Rightarrow> bool" where
  "signing_ok E rnd k pub data \<longleftrightarrow> rsa_lib_ok (ue_rsa E) k pub \<and> pk_N pub = rk_N k \<and> public_ok (ue_gmp E) pub \<and>
     signs_body (ue_ltc E) (ue_rsa E) rnd k SHA3_512 data"

lemma sign_verifies:
  assumes "signing_ok E rnd k pub data"
  obtains sig where "sign (ue_ltc E) (ue_rsa E) junk rnd k data SHA3_512 = Inr sig" "length sig < 65536"
    "verify (ue_ltc E) (ue_rsa E) pub sig data SHA3_512"
  using signs_verifies [of "ue_rsa E" k pub "ue_ltc E" rnd SHA3_512 data] assms by (auto simp: signing_ok_def)

lemma signature_wf:
  "sized k \<Longrightarrow> sized s \<Longrightarrow>
    uobj_wf kp (UBinder (binder_of2 (cstr ''pub_key'') (UBytes k) (cstr ''sha3_512'') (UBytes s))) \<and>
    canon (UBinder (binder_of2 (cstr ''pub_key'') (UBytes k) (cstr ''sha3_512'') (UBytes s))) =
      UBinder (binder_of2 (cstr ''pub_key'') (UBytes k) (cstr ''sha3_512'') (UBytes s)) \<and>
    binder_get (binder_of2 (cstr ''pub_key'') (UBytes k) (cstr ''sha3_512'') (UBytes s)) (cstr ''pub_key'') = UBytes k \<and>
    binder_get (binder_of2 (cstr ''pub_key'') (UBytes k) (cstr ''sha3_512'') (UBytes s)) (cstr ''sha3_512'') = UBytes s"
  by (auto simp: binder_of2_def binder_of1_def Let_def k_type_def k_t_def sized_def)

lemma verify_written:
  assumes "signing_ok E rnd k pub data" "pack_public (ue_gmp E) (ue_stack E) pub = Inr packedKey" "length packedKey < 65536"
    "sign (ue_ltc E) (ue_rsa E) junk rnd k data SHA3_512 = Inr sig" "length packed < 2 ^ 32"
    "serialize (UBinder (binder_of2 (cstr ''pub_key'') (UBytes packedKey) (cstr ''sha3_512'') (UBytes sig))) = Inr packed"
  shows "verify_packed E data packed = Inr (packedKey, True)"
proof -
  obtain sig' where s: "sign (ue_ltc E) (ue_rsa E) junk rnd k data SHA3_512 = Inr sig'" "length sig' < 65536"
    "verify (ue_ltc E) (ue_rsa E) pub sig' data SHA3_512" by (rule sign_verifies [OF assms(1)])
  let ?b = "binder_of2 (cstr ''pub_key'') (UBytes packedKey) (cstr ''sha3_512'') (UBytes sig)"
  have sz: "sized packedKey" "sized sig" using assms(3,4) s(1,2) by (auto simp: sized_def)
  note wf = signature_wf [OF sz, of "ue_parser E"]
  have d: "deserialize (ue_parser E) packed = Inr (UBinder ?b)"
    using serialize_reads [of "ue_parser E" "UBinder ?b"] wf assms(5,6) by auto
  have "unpack_public (ue_gmp E) (ue_stack E) (ue_parser E) packedKey = Inr pub"
    using pub.unpack_packed [OF _ assms(2)] assms(1,3) by (simp add: signing_ok_def)
  then show ?thesis using d wf s(1,3) assms(4)
    by (simp add: verify_packed_def key_res_def signature_field_def binder_asInstance_def)
qed

lemma signed_accepted:
  assumes "singModule E junk rnd archive keyFile = Inr out"
    "unpack_private (ue_gmp E) (ue_stack E) (ue_parser E) keyFile = Inr k"
    "signing_ok E rnd k (public_of_private (ue_gmp E) (ue_stack E) k) (take (length archive - 2) archive)"
    "pack_public (ue_gmp E) (ue_stack E) (public_of_private (ue_gmp E) (ue_stack E) k) = Inr packedKey" "length packedKey < 65536"
    "ue_read E (md_modulePath m) = Some out" "md_modulePath m \<noteq> U8COREMODULE_FULLNAME"
    "md_lenSignData m = int (length out) - int (length archive)" "md_lenSignData m \<noteq> 0"
    "signer_ok E signer inp m packedKey saved" "initRequireRoots E m = (True, m')"
  shows "checkModuleSignature E signer inp m = Inr (True, saved, m')"
proof -
  let ?n = "length archive - 2" and ?pub = "public_of_private (ue_gmp E) (ue_stack E) k"
  obtain sig where s: "sign (ue_ltc E) (ue_rsa E) junk rnd k (take ?n archive) SHA3_512 = Inr sig" "length sig < 65536"
    by (rule sign_verifies [OF assms(3)])
  have n: "2 \<le> length archive" using assms(1) by (simp add: singModule_def split: if_splits)
  obtain packed where p: "serialize (UBinder (binder_of2 (cstr ''pub_key'') (UBytes packedKey) (cstr ''sha3_512'') (UBytes sig))) = Inr packed"
    "length packed \<le> 65536"
    "out = take ?n archive @ [of_nat (length packed mod 65536), of_nat ((length packed mod 65536) div 256)] @ take (length packed mod 65536) packed"
    using assms(1,2,4,5) s n by (auto simp: singModule_def Let_def split: sum.splits if_splits)
  have "length packed \<noteq> 65536" using p(3) assms(8,9) n by auto
  then have l: "length packed < 65536" using p(2) by simp
  have out: "out = take ?n archive @ [of_nat (length packed), of_nat (length packed div 256)] @ packed" using p(3) l by simp
  have len: "md_lenSignData m = int (length packed)" "length out = ?n + 2 + length packed" using assms(8) out n by simp_all
  have "check_signed E signer inp m (take ?n archive) packed = Inr (True, saved, m')"
    unfolding check_signed_True using verify_written [OF assms(3-5) s(1) _ p(1)] l assms(10,11) by auto
  moreover have "take (length out - length packed - 2) out = take ?n archive" unfolding len(2) by (simp add: out)
  moreover have "drop (length out - length packed - 2 + 2) out = packed"
  proof -
    have e: "length out - length packed - 2 + 2 = ?n + 2" unfolding len(2) by simp
    show ?thesis unfolding e out by (rule drop_third) simp_all
  qed
  ultimately show ?thesis
    using assms(6,7,9) len(1) l len(2) by (simp add: checkModuleSignature_def catch_false_def Let_def)
qed

section \<open>Loading in any order\<close>

text \<open>
  The sections of concurrent calls of \<open>loadModule\<close>: the modules whose signature is being checked are pending. The
  environment (files, trust file, network) may be another one of \<open>Es\<close> in every section.
\<close>

type_synonym pending = "bytes \<times> bool \<times> bytes \<times> u8module"

inductive mm_step :: "u8env set \<Rightarrow> manager \<times> pending list \<Rightarrow> manager \<times> pending list \<Rightarrow> bool" for Es where
  settled_call: "E \<in> Es \<Longrightarrow> load_begin E home sourceName isStarting inUBot mm = (Inl r, mm') \<Longrightarrow> mm_step Es (mm, ps) (mm', ps)"
| begin_check: "E \<in> Es \<Longrightarrow> load_begin E home sourceName isStarting inUBot mm = (Inr m, mm') \<Longrightarrow>
    mm_step Es (mm, ps) (mm', (sourceName, isStarting, signer, m) # ps)"
| end_check: "E \<in> Es \<Longrightarrow> checkModuleSignature E signer inp m = Inr (res, saved, m') \<Longrightarrow>
    mm_step Es (mm, xs @ (sourceName, isStarting, signer, m) # ys) (load_finish sourceName isStarting m' res mm, xs @ ys)"

definition vetted :: "u8env set \<Rightarrow> u8module \<Rightarrow> bool" where
  "vetted Es m' \<longleftrightarrow> (\<exists>E \<in> Es. \<exists>signer inp saved m. checkModuleSignature E signer inp m = Inr (True, saved, m'))"

definition manager_ok :: "u8env set \<Rightarrow> manager \<Rightarrow> bool" where
  "manager_ok Es mm \<longleftrightarrow> (\<forall>n m. mm_modules mm n = Some m \<longrightarrow> md_name m = n \<and> vetted Es m) \<and>
     (\<forall>p m. mm_modulesByPath mm p = Some m \<longrightarrow> vetted Es m \<and> mm_modules mm (md_name m) \<noteq> None) \<and>
     (mm_u8coreLoaded mm \<longleftrightarrow> mm_modules mm U8COREMODULE_NAME \<noteq> None)"

lemma load_begin_ok: "load_begin E home sourceName isStarting inUBot mm = (r, mm') \<Longrightarrow> manager_ok Es mm \<Longrightarrow> manager_ok Es mm'"
  by (auto simp: load_begin_def manager_ok_def split: if_splits prod.splits)

lemma load_finish_ok:
  assumes "manager_ok Es mm" "res \<longrightarrow> vetted Es m"
  shows "manager_ok Es (load_finish sourceName isStarting m res mm)"
proof (cases res)
  case True
  then have v: "vetted Es m" using assms(2) by simp
  then show ?thesis using assms(1) True
    by (auto simp: load_finish_def manager_ok_def map_insert_def)
qed (simp add: load_finish_def assms(1))

lemma mm_step_ok: "mm_step Es s s' \<Longrightarrow> manager_ok Es (fst s) \<Longrightarrow> manager_ok Es (fst s')"
proof (induction rule: mm_step.induct)
  case (end_check E signer inp m res saved m' mm xs sourceName isStarting ys)
  have "vetted Es m'" if res
    unfolding vetted_def using end_check(1) end_check(2) [unfolded eqTrueI [OF that]] by blast
  then show ?case using load_finish_ok end_check(3) by simp
qed (auto dest: load_begin_ok)

lemma manager_reachable: "(mm_step Es)\<^sup>*\<^sup>* (new_manager, []) s \<Longrightarrow> manager_ok Es (fst s)"
proof (induction rule: rtranclp_induct)
  case base
  then show ?case by (simp add: manager_ok_def new_manager_def)
next
  case (step s s')
  then show ?case using mm_step_ok by blast
qed

section \<open>A sample\<close>

definition echo_lib :: rsa_lib where
  "echo_lib = failing_lib\<lparr>rsa_sign_hash_ex := (\<lambda>h t r g s k. Inr (take 64 h)),
     rsa_verify_hash_ex := (\<lambda>sig h t g s k. Some (if sig = take 64 h then 1 else 0)),
     rsa_encrypt_key_ex := (\<lambda>m r t k. Inr m)\<rparr>"

definition signed_key :: bytes where
  "signed_key = [30, 8, 12, 3, 12, 33]"

definition signed_packed :: bytes where
  "signed_packed = [23, 59, 112, 117, 98, 95, 107, 101, 121, 52, 30, 8, 12, 3, 12, 33, 67, 115, 104, 97, 51, 95, 53, 49, 50, 188, 64,
     80, 75, 5, 6] @ replicate 60 0"

definition sample_archive :: bytes where
  "sample_archive = [80, 75, 5, 6, 0, 0]"

definition signed_archive :: bytes where
  "signed_archive = [80, 75, 5, 6, 91, 0] @ signed_packed"

definition sample_manifest :: "bytes \<Rightarrow> bytes option" where
  "sample_manifest k = (if k = cstr ''name'' then Some (cstr ''m'') else None)"

definition module_env :: u8env where
  "module_env = sample_env\<lparr>ue_rsa := echo_lib, ue_read := (\<lambda>f. Some signed_archive),
     ue_exists := (\<lambda>f d. f = cstr ''u8trust.yaml'' \<or> f = cstr ''m.u8m''),
     ue_zip := (\<lambda>f. Some \<lparr>zi_comment = 91, zi_manifest = Some (Inr sample_manifest)\<rparr>),
     ue_trust := (\<lambda>f. Inr \<lparr>tr_all = Node (empty_scope\<lparr>ts_keys := Strings [Some (cstr ''HggMAwwh'')]\<rparr>), tr_modules = NoNode\<rparr>)\<rparr>"

definition sample_module :: u8module where
  "sample_module = (new_module (cstr ''m.u8m'') [])\<lparr>md_name := cstr ''m'', md_lenSignData := 91, md_manifest := sample_manifest\<rparr>"

lemma env_fields:
  "ue_gmp module_env = toy_gmp" "ue_ltc module_env = toy_ltc" "ue_rsa module_env = echo_lib" "ue_parser module_env = no_keys"
  "ue_stack module_env = (\<lambda>i. 0)" "ue_read module_env f = Some signed_archive"
  by (simp_all add: module_env_def sample_env_def)

lemma pub_of_sample: "public_of_private toy_gmp stack sample_rsa = \<lparr>pk_e = 3, pk_N = 33\<rparr>"
  by (simp add: public_of_private_def public_of_numbers_def sample_rsa_def toy_bin) (simp add: toy_gmp_def)

lemma signing_sample: "signing_ok module_env rnd sample_rsa \<lparr>pk_e = 3, pk_N = 33\<rparr> data"
  by (simp add: signing_ok_def env_fields rsa_lib_ok_def echo_lib_def failing_lib_def sample_rsa_def public_ok_def toy_gmp_ok toy_number
    min_less_iff_disj signs_body_def)

lemma unpack_sample: "unpack_private toy_gmp stack no_keys [38, 0, 12, 3, 21, 12, 11] = Inr sample_rsa"
proof (rule priv.unpack_packed [OF sample_private_ok])
  have "serialize (UArray [UInt 0, UBytes [3], UBytes [3], UBytes [11]]) = Inr [38, 0, 12, 3, 21, 12, 11]" by code_simp
  then show "pack_private toy_gmp stack sample_rsa = Inr [38, 0, 12, 3, 21, 12, 11]"
    by (simp add: pack_private_def toy_bin sample_rsa_def)
qed simp

lemma pack_sample: "pack_public toy_gmp stack \<lparr>pk_e = 3, pk_N = 33\<rparr> = Inr signed_key"
proof -
  have "serialize (UArray [UInt 1, UBytes [3], UBytes [33]]) = Inr signed_key" by code_simp
  then show ?thesis by (simp add: pack_public_def toy_bin)
qed

lemma sign_sample: "singModule module_env junk rnd sample_archive [38, 0, 12, 3, 21, 12, 11] = Inr signed_archive"
proof -
  have h: "hash_memory toy_ltc SHA3_512 [80, 75, 5, 6] = [80, 75, 5, 6] @ replicate 60 0" by code_simp
  have "serialize (UBinder (binder_of2 (cstr ''pub_key'') (UBytes signed_key) (cstr ''sha3_512'')
      (UBytes ([80, 75, 5, 6] @ replicate 60 0)))) = Inr signed_packed" by code_simp
  moreover have "sign toy_ltc echo_lib junk rnd sample_rsa [80, 75, 5, 6] SHA3_512 = Inr ([80, 75, 5, 6] @ replicate 60 0)"
    by (simp add: sign_def echo_lib_def copy_out_def hashed_def h)
  moreover have "length signed_packed = 91" "length signed_key = 6" by (simp_all add: signed_packed_def signed_key_def)
  ultimately show ?thesis
    by (simp add: singModule_def env_fields unpack_sample pub_of_sample pack_sample sample_archive_def signed_archive_def)
qed

lemma trust_sample: "signer_ok module_env [] [] sample_module signed_key None"
proof -
  have l: "length (ue_junk module_env) = 4" by (simp add: module_env_def sample_env_def)
  have "signed_key \<noteq> U8Key module_env" using U8Key_start [OF l] by (auto simp: signed_key_def)
  moreover have "key_matches module_env signed_key (cstr ''HggMAwwh'') = Inr True" by code_simp
  moreover have "unpack_public toy_gmp (\<lambda>i. 0) no_keys signed_key = Inr \<lparr>pk_e = 3, pk_N = 33\<rparr>"
    by (rule pub.unpack_packed [OF _ pack_sample]) (simp_all add: public_ok_def toy_gmp_ok toy_number signed_key_def)
  moreover have "searchU8TrustFile module_env [] = cstr ''u8trust.yaml''"
    by (simp add: searchU8TrustFile_def module_env_def sample_env_def)
  moreover have "ue_trust module_env (cstr ''u8trust.yaml'') =
      Inr \<lparr>tr_all = Node (empty_scope\<lparr>ts_keys := Strings [Some (cstr ''HggMAwwh'')]\<rparr>), tr_modules = NoNode\<rparr>"
    by (simp add: module_env_def)
  ultimately show ?thesis
    by (simp add: signer_ok_def checkKeyTrust_def env_fields key_res_def sample_module_def new_module_def U8COREMODULE_NAME_def
      sample_manifest_def consult_def with_all_def scope_trusts_def any_node_def empty_scope_def)
qed

definition rooted_module :: u8module where
  "rooted_module = sample_module\<lparr>md_require_roots := [cstr ''m.u8m'']\<rparr>"

lemma roots_sample: "initRequireRoots module_env sample_module = (True, rooted_module)"
  by (simp add: initRequireRoots_def sample_module_def new_module_def rooted_module_def U8COREMODULE_NAME_def module_env_def
    sample_env_def Let_def)

lemma sample_facts:
  "unpack_private (ue_gmp module_env) (ue_stack module_env) (ue_parser module_env) [38, 0, 12, 3, 21, 12, 11] = Inr sample_rsa"
  "signing_ok module_env rnd sample_rsa (public_of_private (ue_gmp module_env) (ue_stack module_env) sample_rsa)
     (take (length sample_archive - 2) sample_archive)"
  "pack_public (ue_gmp module_env) (ue_stack module_env)
     (public_of_private (ue_gmp module_env) (ue_stack module_env) sample_rsa) = Inr signed_key"
  "length signed_key < 65536"
  "ue_read module_env (md_modulePath sample_module) = Some signed_archive"
  "md_modulePath sample_module \<noteq> U8COREMODULE_FULLNAME"
  "md_lenSignData sample_module = int (length signed_archive) - int (length sample_archive)" "md_lenSignData sample_module \<noteq> 0"
  using signing_sample
  by (simp_all add: env_fields unpack_sample pub_of_sample pack_sample signed_key_def sample_module_def new_module_def
    U8COREMODULE_FULLNAME_def signed_archive_def sample_archive_def signed_packed_def)

lemma accepted_sample: "checkModuleSignature module_env [] [] sample_module = Inr (True, None, rooted_module)"
  by (rule signed_accepted [OF sign_sample sample_facts trust_sample roots_sample])

lemma load_sample: "load module_env False (new_module (cstr ''m.u8m'') []) = (True, sample_module)"
proof -
  have "\<not> isCorrectURL (cstr ''m.u8m'')" by code_simp
  moreover have "(\<lambda>k. if k \<in> {cstr ''name'', cstr ''UNS_name'', cstr ''useInUBot''} then sample_manifest k else None) = sample_manifest"
    by (auto simp: sample_manifest_def fun_eq_iff)
  ultimately show ?thesis
    by (simp add: load_def new_module_def open_module_def searchU8Module_def module_env_def sample_env_def loadManifest_def
      sample_module_def U8COREMODULE_FULLNAME_def) (simp add: sample_manifest_def)
qed

lemma manager_run:
  "(mm_step {module_env})\<^sup>*\<^sup>* (new_manager, []) (load_finish (cstr ''m.u8m'') False rooted_module True new_manager, [])"
proof -
  have "load_begin module_env [] (cstr ''m.u8m'') False False new_manager = (Inr sample_module, new_manager)"
    unfolding load_begin_def load_sample by (simp add: new_manager_def)
  then have a: "mm_step {module_env} (new_manager, []) (new_manager, [(cstr ''m.u8m'', False, [], sample_module)])"
    by (intro begin_check) simp_all
  have b: "mm_step {module_env} (new_manager, [] @ (cstr ''m.u8m'', False, [], sample_module) # [])
      (load_finish (cstr ''m.u8m'') False rooted_module True new_manager, [] @ [])"
    by (rule end_check [OF _ accepted_sample]) simp
  then have b': "mm_step {module_env} (new_manager, [(cstr ''m.u8m'', False, [], sample_module)])
      (load_finish (cstr ''m.u8m'') False rooted_module True new_manager, [])" unfolding append_Nil .
  show ?thesis by (rule converse_rtranclp_into_rtranclp [of "mm_step {module_env}", OF a r_into_rtranclp]) (rule b')
qed

section \<open>Properties\<close>

text \<open>C13: A module is accepted only if the bytes in its file check out: they are the signed data, the two bytes of the comment
  length, and a comment that unpacks to a key and a signature; the signature of exactly that data verifies with that
  key; and that key is the signer that was asked for, or, when none was or for the core archive, it is trusted for
  the name of this module.\<close>

theorem module_accepted:
  assumes "checkModuleSignature E signer inp m = Inr (True, saved, m')" "md_lenSignData m < 65536"
  shows "\<exists>data two packed keyData. module_file E m = Some (data @ two @ packed) \<and> length two = 2 \<and>
    int (length packed) = md_lenSignData m \<and> verify_packed E data packed = Inr (keyData, True) \<and>
    signer_ok E (if md_modulePath m = U8COREMODULE_FULLNAME then [] else signer) inp m keyData saved \<and>
    initRequireRoots E m = (True, m')"
  using assms by (rule accepted)

theorem module_accepted_witness:
  "\<exists>data two packed keyData. signed_archive = data @ two @ packed \<and> length two = 2 \<and>
     verify_packed module_env data packed = Inr (keyData, True)"
proof -
  have "md_lenSignData sample_module < 65536" by (simp add: sample_module_def)
  moreover have "module_file module_env sample_module = Some signed_archive"
    by (simp add: module_file_def sample_module_def new_module_def U8COREMODULE_FULLNAME_def env_fields)
  ultimately show ?thesis using module_accepted [OF accepted_sample] by auto
qed

text \<open>C16: What \<open>singModule\<close> signs, \<open>checkModuleSignature\<close> accepts: if the archive it wrote is loaded (its comment is then
  what was appended), the check succeeds whenever the signer's public key is the one asked for or is trusted, and its key is
  one with which LibTomCrypt signs the digest of this archive; the data that was hashed, the packed key and the signature
  come back from the file.\<close>

theorem signed_module_accepted:
  assumes "singModule E junk rnd archive keyFile = Inr out"
    "unpack_private (ue_gmp E) (ue_stack E) (ue_parser E) keyFile = Inr k"
    "signing_ok E rnd k (public_of_private (ue_gmp E) (ue_stack E) k) (take (length archive - 2) archive)"
    "pack_public (ue_gmp E) (ue_stack E) (public_of_private (ue_gmp E) (ue_stack E) k) = Inr packedKey" "length packedKey < 65536"
    "ue_read E (md_modulePath m) = Some out" "md_modulePath m \<noteq> U8COREMODULE_FULLNAME"
    "md_lenSignData m = int (length out) - int (length archive)" "md_lenSignData m \<noteq> 0"
    "signer_ok E signer inp m packedKey saved" "initRequireRoots E m = (True, m')"
  shows "checkModuleSignature E signer inp m = Inr (True, saved, m')"
  using assms by (rule signed_accepted)

theorem signed_module_accepted_witness:
  "checkModuleSignature module_env [] [] sample_module = Inr (True, None, rooted_module)"
  by (rule signed_module_accepted [OF sign_sample sample_facts trust_sample roots_sample])

text \<open>C17: However concurrent calls of \<open>loadModule\<close> interleave, and whatever files and answers each of them meets, every module
  in the table was accepted by \<open>checkModuleSignature\<close> and stands under its own name, and every path that counts as
  loaded belongs to a name in the table.\<close>

theorem manager_vetted:
  assumes "(mm_step Es)\<^sup>*\<^sup>* (new_manager, []) (mm, ps)"
  shows "(\<forall>n m. getModule mm n = Some m \<longrightarrow> md_name m = n \<and> vetted Es m) \<and>
    (\<forall>p m. mm_modulesByPath mm p = Some m \<longrightarrow> vetted Es m \<and> getModule mm (md_name m) \<noteq> None) \<and>
    (mm_u8coreLoaded mm \<longleftrightarrow> getModule mm U8COREMODULE_NAME \<noteq> None)"
  using manager_reachable [OF assms] by (simp add: manager_ok_def getModule_def)

theorem manager_vetted_witness:
  "vetted {module_env} rooted_module \<and> getModule (load_finish (cstr ''m.u8m'') False rooted_module True new_manager) (cstr ''m'') =
     Some rooted_module"
proof -
  have "getModule (load_finish (cstr ''m.u8m'') False rooted_module True new_manager) (cstr ''m'') = Some rooted_module"
    by (simp add: getModule_def load_finish_def map_insert_def new_manager_def rooted_module_def sample_module_def new_module_def)
  then show ?thesis using manager_vetted [OF manager_run] by blast
qed

section \<open>Surprises\<close>

text \<open>A call that asks for a signer is satisfied by any module of the same name that was loaded before, whoever signed it.\<close>

theorem signer_ignored:
  assumes "load E inUBot (new_module sourceName home) = (True, m)" "getModule mm (md_name m) \<noteq> None"
  shows "\<exists>mm'. loadModule E home sourceName isStarting inUBot signer inp mm = Inr (True, None, mm') \<and> mm_modules mm' = mm_modules mm"
  using assms by (auto simp: loadModule_def load_begin_def getModule_def)

text \<open>A signature that does not verify does not stop the questions: when the user trusts the key, the trust file is written
  although the module is rejected.\<close>

theorem bad_signature_trusted:
  assumes "verify_packed E data packed = Inr (keyData, False)"
    "checkKeyTrust E (md_name m) (md_homeDir m) (md_manifest m) keyData inp = Inr (True, Some tr)"
  shows "\<exists>m'. check_signed E [] inp m data packed = Inr (False, Some tr, m')"
  using assms by (cases "initRequireRoots E m") (simp add: check_signed_def)

text \<open>The last character of a URL must be a capital letter, a digit or one of a few signs, so a plain host in small letters is
  no URL; and text before the URL does not matter.\<close>

theorem url_recognition:
  "\<not> isCorrectURL (cstr ''http://example.com'')" "isCorrectURL (cstr ''http://example.com/'')"
  "isCorrectURL (cstr ''file http://A'')"
  by code_simp+

end
