(* ===== verification/MgDns.thy ===== *)
theory MgDns
  imports MgStr
begin

text \<open>
  The DNS messages of \<open>network/mongoose/mongoose.c\<close> (\<open>mg_dns.c\<close>, \<open>mg_dns_server.c\<close> in it) and the MX records of
  \<open>mongooseExt.cpp\<close>: names with and without compression, records, messages, and replies. A pointer into the packet is
  an offset; a read at an offset outside it is the error \<open>OutsidePacket\<close>. An \<open>int\<close> of a record is its 32 bits. A buffer
  is the list of its bytes: the queue \<open>MgBuf\<close> shows it to be when allocation succeeds. A function that appends to a
  buffer returns whether it succeeded and what it appended, also when it failed.
\<close>

datatype dns_error =
    OutsidePacket
  | OutsideBuffer
  | Malformed      \<comment> \<open>-1 or \<open>NULL\<close>\<close>

section \<open>Numbers in network order\<close>

definition be16 :: "nat \<Rightarrow> bytes" where
  "be16 n = [of_nat (n div 256), of_nat n]"

definition be32 :: "nat \<Rightarrow> bytes" where
  "be32 n = [of_nat (n div 16777216), of_nat (n div 65536), of_nat (n div 256), of_nat n]"

definition rd :: "bytes \<Rightarrow> nat \<Rightarrow> dns_error + byte" where
  "rd pkt i = (if i < length pkt then Inr (pkt ! i) else Inl OutsidePacket)"

definition rd16 :: "bytes \<Rightarrow> nat \<Rightarrow> dns_error + nat" where
  "rd16 pkt i = res_bind (rd pkt i) (\<lambda>a. res_bind (rd pkt (i + 1)) (\<lambda>b. Inr (256 * unat a + unat b)))"

definition rd32 :: "bytes \<Rightarrow> nat \<Rightarrow> dns_error + nat" where
  "rd32 pkt i = res_bind (rd16 pkt i) (\<lambda>a. res_bind (rd16 pkt (i + 2)) (\<lambda>b. Inr (65536 * a + b)))"

section \<open>Messages\<close>

datatype rr_kind = InvalidRecord | Question | Answer

record dns_rr =
  rr_name :: "nat \<times> nat"      \<comment> \<open>offset and length\<close>
  rr_rtype :: u32
  rr_rclass :: u32
  rr_ttl :: u32
  rr_kind :: rr_kind
  rr_rdata :: "nat \<times> nat"

text \<open>The counters \<open>num_questions\<close> and \<open>num_answers\<close> are the lengths of the lists.\<close>

record dns_message =
  dm_pkt :: bytes
  dm_flags :: u16
  dm_transaction_id :: u16
  dm_questions :: "dns_rr list"
  dm_answers :: "dns_rr list"

definition MG_DNS_A_RECORD :: u32 where "MG_DNS_A_RECORD = 1"
definition MG_DNS_CNAME_RECORD :: u32 where "MG_DNS_CNAME_RECORD = 5"
definition MG_DNS_MX_RECORD :: u32 where "MG_DNS_MX_RECORD = 15"
definition MG_DNS_AAAA_RECORD :: u32 where "MG_DNS_AAAA_RECORD = 28"
definition MG_MAX_DNS_QUESTIONS :: nat where "MG_MAX_DNS_QUESTIONS = 32"
definition MG_MAX_DNS_ANSWERS :: nat where "MG_MAX_DNS_ANSWERS = 32"

definition dns_header_size :: nat where "dns_header_size = 12"

section \<open>Reading a message\<close>

text \<open>The loop over the name: the offset of its last byte.\<close>

function skip_name :: "bytes \<Rightarrow> nat \<Rightarrow> nat" where
  "skip_name pkt data =
     (if data < length pkt \<and> pkt ! data \<noteq> 0 then
        if pkt ! data AND 0xc0 \<noteq> 0 then data + 1 else skip_name pkt (data + unat (pkt ! data) + 1)
      else data)"
  by auto
termination by (relation "measure (\<lambda>(pkt, data). length pkt - data)") auto

declare skip_name.simps [simp del]

definition parse_record :: "bytes \<Rightarrow> nat \<Rightarrow> bool \<Rightarrow> dns_error + (dns_rr \<times> nat)" where
  "parse_record pkt name reply =
     (let data = skip_name pkt name in
      if length pkt < data + 5 then Inl Malformed
      else
        res_bind (rd16 pkt (data + 1)) (\<lambda>rtype.
        res_bind (rd16 pkt (data + 3)) (\<lambda>rclass.
        let rr = \<lparr>rr_name = (name, data - name + 1), rr_rtype = of_nat rtype, rr_rclass = of_nat rclass, rr_ttl = 0,
              rr_kind = (if reply then Answer else Question), rr_rdata = (0, 0)\<rparr> in
        if \<not> reply then Inr (rr, data + 5)
        else if length pkt \<le> data + 11 then Inl Malformed
        else
          res_bind (rd32 pkt (data + 5)) (\<lambda>ttl.
          res_bind (rd16 pkt (data + 9)) (\<lambda>data_len.
            Inr (rr\<lparr>rr_ttl := of_nat ttl, rr_rdata := (data + 11, data_len)\<rparr>, data + 11 + data_len))))))"

fun parse_records :: "bytes \<Rightarrow> nat \<Rightarrow> bool \<Rightarrow> nat \<Rightarrow> dns_error + (dns_rr list \<times> nat)" where
  "parse_records pkt data reply 0 = Inr ([], data)"
| "parse_records pkt data reply (Suc n) =
     res_bind (parse_record pkt data reply) (\<lambda>(rr, data).
     res_bind (parse_records pkt data reply n) (\<lambda>(rrs, data). Inr (rr # rrs, data)))"

text \<open>The transaction id is copied as it is, so it is read with the byte order of the machine.\<close>

definition parse_dns :: "bytes \<Rightarrow> dns_error + dns_message" where
  "parse_dns pkt =
     (if length pkt < dns_header_size then Inl Malformed
      else
        res_bind (rd16 pkt 2) (\<lambda>flags.
        res_bind (rd16 pkt 4) (\<lambda>num_questions.
        res_bind (rd16 pkt 6) (\<lambda>num_answers.
        res_bind (parse_records pkt dns_header_size False (min num_questions MG_MAX_DNS_QUESTIONS)) (\<lambda>(questions, data).
        res_bind (parse_records pkt data True (min num_answers MG_MAX_DNS_ANSWERS)) (\<lambda>(answers, data).
          Inr \<lparr>dm_pkt = pkt, dm_flags = of_nat flags,
               dm_transaction_id = of_nat (unat (pkt ! 0) + 256 * unat (pkt ! 1)),
               dm_questions = questions, dm_answers = answers\<rparr>))))))"

text \<open>
  \<open>mg_dns_uncompress_name\<close>: the number it returns and what it wrote from \<open>dst\<close> on; the bytes of \<open>dst\<close> behind that are
  unchanged. When it returns 0 because the name is not valid, it may have written some labels.
\<close>

definition uncompress_end :: "bytes \<Rightarrow> nat \<times> bytes" where
  "uncompress_end out = (if out = [] then (0, []) else (length out - 1, butlast out @ [0]))"

function uncompress_loop :: "bytes \<Rightarrow> nat \<Rightarrow> nat \<Rightarrow> nat \<Rightarrow> bytes \<Rightarrow> dns_error + (nat \<times> bytes)" where
  "uncompress_loop pkt data num_ptrs dst_len out =
     res_bind (rd pkt data) (\<lambda>chunk_len.
       if chunk_len = 0 then Inr (uncompress_end out)
       else if length pkt \<le> data + 1 then Inr (0, out)
       else if chunk_len AND 0xc0 = 0xc0 then
         res_bind (rd pkt (data + 1)) (\<lambda>low.
           let off = 256 * unat (chunk_len AND 0x3f) + unat low in
           if length pkt \<le> off then Inr (0, out)
           else if 15 < num_ptrs + 1 then Inr (0, out)
           else uncompress_loop pkt off (num_ptrs + 1) dst_len out)
       else if 63 < chunk_len then Inr (0, out)
       else
         let leeway = dst_len - length out; n = min (unat chunk_len) leeway in
         if length pkt \<le> data + 1 + n then Inr (0, out)
         else
           let out = out @ take n (drop (data + 1) pkt) in
           if n = leeway then Inr (length out, out)
           else uncompress_loop pkt (data + 1 + n) num_ptrs dst_len (out @ [chr CHR ''.'']))"
  by auto
termination
  by (relation "measures [\<lambda>(pkt, data, num_ptrs, dst_len, out). 16 - num_ptrs, \<lambda>(pkt, data, num_ptrs, dst_len, out). length pkt - data]")
    (auto simp: rd_def split: if_splits)

declare uncompress_loop.simps [simp del]

definition uncompress_name :: "bytes \<Rightarrow> nat \<times> nat \<Rightarrow> nat \<Rightarrow> dns_error + (nat \<times> bytes)" where
  "uncompress_name pkt name dst_len = (if length pkt \<le> fst name then Inr (0, []) else uncompress_loop pkt (fst name) 0 dst_len [])"

text \<open>The buffer after it was written to from its start.\<close>

definition overwrite :: "bytes \<Rightarrow> bytes \<Rightarrow> bytes" where
  "overwrite buf out = out @ drop (length out) buf"

definition dns_slice :: "bytes \<Rightarrow> nat \<Rightarrow> nat \<Rightarrow> dns_error + bytes" where
  "dns_slice pkt off len = (if off + len \<le> length pkt then Inr (take len (drop off pkt)) else Inl OutsidePacket)"

text \<open>\<open>mg_dns_next_record\<close>, by position, and \<open>mg_dns_parse_record_data\<close> into a buffer \<open>data\<close>.\<close>

definition next_record :: "dns_message \<Rightarrow> u32 \<Rightarrow> nat option \<Rightarrow> nat option" where
  "next_record msg query prev =
     find (\<lambda>i. rr_rtype (dm_answers msg ! i) = query) [(case prev of None \<Rightarrow> 0 | Some i \<Rightarrow> i + 1)..<length (dm_answers msg)]"

definition parse_record_data :: "dns_message \<Rightarrow> dns_rr \<Rightarrow> bytes \<Rightarrow> dns_error + bytes" where
  "parse_record_data msg rr data =
     (if rr_rtype rr = MG_DNS_A_RECORD then
        if length data < 4 then Inl Malformed
        else if length (dm_pkt msg) < fst (rr_rdata rr) + length data then Inl Malformed
        else dns_slice (dm_pkt msg) (fst (rr_rdata rr)) (length data)
      else if rr_rtype rr = MG_DNS_AAAA_RECORD then
        if length data < 16 then Inl Malformed else dns_slice (dm_pkt msg) (fst (rr_rdata rr)) (length data)
      else if rr_rtype rr = MG_DNS_CNAME_RECORD then
        res_bind (uncompress_name (dm_pkt msg) (rr_rdata rr) (length data)) (\<lambda>(n, out). Inr (overwrite data out))
      else Inl Malformed)"

section \<open>Writing a message\<close>

function encode_labels :: "bytes \<Rightarrow> bool \<times> bytes" where
  "encode_labels name =
     (let l = takeWhile (\<lambda>c. c \<noteq> 0 \<and> c \<noteq> chr CHR ''.'') name;
          dot = (length l < length name \<and> name ! length l = chr CHR ''.'');
          s = (if dot then length l else length name) in
      if 127 < s then (False, [])
      else if dot then (case encode_labels (drop (s + 1) name) of (ok, bs) \<Rightarrow> (ok, of_nat s # take s name @ bs))
      else (True, of_nat s # name))"
  by auto
termination by (relation "measure length") auto

declare encode_labels.simps [simp del]

definition encode_name :: "bytes \<Rightarrow> bool \<times> bytes" where
  "encode_name name = (case encode_labels name of (ok, bs) \<Rightarrow> (ok, if ok then bs @ [0] else bs))"

text \<open>
  \<open>mg_dns_encode_record\<close> and, with \<open>Some preference\<close>, \<open>mg_dns_encode_record_mx\<close>. The length of a name is filled in
  after the name: until then the place holds the class (or what was written last).
\<close>

definition encode_record :: "u16 option \<Rightarrow> dns_rr \<Rightarrow> bytes \<Rightarrow> bytes \<Rightarrow> bool \<times> bytes" where
  "encode_record mx rr name rdata =
     (if rr_kind rr = InvalidRecord then (False, [])
      else (case encode_name name of
        (False, bs) \<Rightarrow> (False, bs)
      | (True, bs) \<Rightarrow>
          let h = bs @ be16 (unat (rr_rtype rr)) @ be16 (unat (rr_rclass rr)) in
          if rr_kind rr \<noteq> Answer then (True, h)
          else
            let h = h @ be32 (unat (rr_ttl rr)); pre = (case mx of None \<Rightarrow> [] | Some preference \<Rightarrow> be16 (unat preference)) in
            if rr_rtype rr = (case mx of None \<Rightarrow> MG_DNS_CNAME_RECORD | Some _ \<Rightarrow> MG_DNS_MX_RECORD) then
              (case encode_name rdata of
                 (False, d) \<Rightarrow> (False, h @ be16 (unat (rr_rclass rr)) @ pre @ d)
               | (True, d) \<Rightarrow> (True, h @ be16 (length d + length pre) @ pre @ d))
            else (True, h @ be16 (length rdata) @ rdata)))"

definition dns_header :: "dns_message \<Rightarrow> bytes" where
  "dns_header msg = [ucast (dm_transaction_id msg), ucast (drop_bit 8 (dm_transaction_id msg))] @ be16 (unat (dm_flags msg)) @
     be16 (length (dm_questions msg)) @ be16 (length (dm_answers msg)) @ [0, 0, 0, 0]"

definition copy_questions :: "dns_message \<Rightarrow> dns_error + bytes" where
  "copy_questions msg = (if dm_questions msg = [] then Inr []
     else let last_q = last (dm_questions msg); end = fst (rr_name last_q) + snd (rr_name last_q) + 4 in
       dns_slice (dm_pkt msg) dns_header_size (end - dns_header_size))"

text \<open>\<open>mg_send_dns_query\<close>: what is given to \<open>mg_send\<close>.\<close>

definition dns_query :: "u16 \<Rightarrow> bytes \<Rightarrow> u32 \<Rightarrow> bool \<Rightarrow> bytes option" where
  "dns_query tid name query_type udp =
     (let rr = \<lparr>rr_name = (0, 0), rr_rtype = query_type, rr_rclass = 1, rr_ttl = 0, rr_kind = Question, rr_rdata = (0, 0)\<rparr>;
          msg = \<lparr>dm_pkt = [], dm_flags = 0x100, dm_transaction_id = tid, dm_questions = [rr], dm_answers = []\<rparr> in
      (case encode_record None rr name [] of
         (False, _) \<Rightarrow> None
       | (True, bs) \<Rightarrow> let pkt = dns_header msg @ bs in Some (if udp then pkt else be16 (length pkt) @ pkt)))"

section \<open>Replies\<close>

record dns_reply =
  rp_msg :: dns_message
  rp_io :: bytes

definition create_reply :: "dns_message \<Rightarrow> dns_error + dns_reply" where
  "create_reply msg = res_bind (copy_questions msg) (\<lambda>qs.
     Inr \<lparr>rp_msg = msg\<lparr>dm_flags := dm_flags msg OR 0x8080, dm_answers := []\<rparr>, rp_io = qs\<rparr>)"

text \<open>
  \<open>mg_dns_reply_record\<close> and \<open>mg_dns_reply_record_mx\<close> without a name: it is taken from the question, through an array of
  512 bytes whose other contents are what the stack holds.
\<close>

definition question_name :: "(nat \<Rightarrow> byte) \<Rightarrow> dns_message \<Rightarrow> dns_rr \<Rightarrow> dns_error + bytes" where
  "question_name stack msg question =
     res_bind (uncompress_name (dm_pkt msg) (rr_name question) 511) (\<lambda>(n, out).
       Inr (c_str (overwrite (map stack [0..<511] @ [0]) out)))"

definition reply_record :: "(nat \<Rightarrow> byte) \<Rightarrow> u16 option \<Rightarrow> dns_rr \<Rightarrow> u32 \<Rightarrow> u32 \<Rightarrow> bytes \<Rightarrow> dns_reply \<Rightarrow>
    dns_error + (bool \<times> dns_reply)" where
  "reply_record stack mx question rtype ttl rdata reply =
     (let msg = rp_msg reply in
      if MG_MAX_DNS_ANSWERS \<le> length (dm_answers msg) then Inr (False, reply)
      else
        res_bind (question_name stack msg question) (\<lambda>name.
        let ans = question\<lparr>rr_kind := Answer, rr_rtype := rtype, rr_ttl := ttl\<rparr> in
        (case encode_record mx ans name rdata of
           (False, bs) \<Rightarrow> Inr (False, reply\<lparr>rp_io := rp_io reply @ bs\<rparr>)
         | (True, bs) \<Rightarrow> Inr (True, reply\<lparr>rp_io := rp_io reply @ bs, rp_msg := msg\<lparr>dm_answers := dm_answers msg @ [ans]\<rparr>\<rparr>))))"

text \<open>\<open>mg_dns_send_reply\<close>: over TCP the length is that of the reply before the header was put in front of it.\<close>

definition send_reply :: "bool \<Rightarrow> dns_reply \<Rightarrow> bytes" where
  "send_reply udp reply = (let pkt = dns_header (rp_msg reply) @ rp_io reply in
     if udp then pkt else be16 (length (rp_io reply)) @ pkt)"

text \<open>\<open>dns_handler\<close> on a received packet: the message for the handler of the user, or the error reply.\<close>

definition dns_handler :: "bool \<Rightarrow> bytes \<Rightarrow> dns_error + (dns_message + bytes)" where
  "dns_handler udp recv =
     (let io = (if udp \<or> length recv < 2 then recv else drop 2 recv) in
      (case parse_dns io of
         Inr msg \<Rightarrow> Inr (Inl msg)
       | Inl Malformed \<Rightarrow>
           let msg = \<lparr>dm_pkt = [], dm_flags = 0x8081, dm_transaction_id = 0, dm_questions = [], dm_answers = []\<rparr>;
               pkt = dns_header msg @ io in
           Inr (Inr (if udp then pkt else be16 (length pkt) @ pkt))
       | Inl e \<Rightarrow> Inl e))"

section \<open>Reads stay inside the packet\<close>

lemma rd_Inr [simp]: "i < length pkt \<Longrightarrow> rd pkt i = Inr (pkt ! i)"
  by (simp add: rd_def)

lemma rd16_Inr [simp]: "i + 1 < length pkt \<Longrightarrow> rd16 pkt i = Inr (256 * unat (pkt ! i) + unat (pkt ! (i + 1)))"
  by (simp add: rd16_def)

lemma rd32_inside: "i + 3 < length pkt \<Longrightarrow> \<exists>v. rd32 pkt i = Inr v"
  using rd16_Inr [of i pkt] rd16_Inr [of "i + 2" pkt] by (simp add: rd32_def)

lemma skip_name_ge: "data \<le> skip_name pkt data"
proof (induction pkt data rule: skip_name.induct)
  case (1 pkt data)
  then show ?case by (subst skip_name.simps) auto
qed

text \<open>A record that is read has its name inside the packet, and its data begin inside; they need not end there.\<close>

definition rr_inside :: "bytes \<Rightarrow> bool \<Rightarrow> dns_rr \<Rightarrow> bool" where
  "rr_inside pkt reply rr \<longleftrightarrow> rr_kind rr = (if reply then Answer else Question) \<and> snd (rr_name rr) \<noteq> 0 \<and>
     fst (rr_name rr) + snd (rr_name rr) + 4 \<le> length pkt \<and> (reply \<longrightarrow> fst (rr_rdata rr) < length pkt)"

lemma parse_record_inside:
  "parse_record pkt data reply = Inl Malformed \<or>
   (\<exists>rr data'. parse_record pkt data reply = Inr (rr, data') \<and> rr_inside pkt reply rr \<and>
     (\<not> reply \<longrightarrow> data' = fst (rr_name rr) + snd (rr_name rr) + 4))"
proof -
  let ?d = "skip_name pkt data"
  have ge: "data \<le> ?d" by (rule skip_name_ge)
  show ?thesis
  proof (cases "reply \<and> ?d + 11 < length pkt")
    case True
    obtain v where "rd32 pkt (?d + 5) = Inr v" using rd32_inside [of "?d + 5" pkt] True by auto
    then show ?thesis using True ge by (auto simp: parse_record_def Let_def rr_inside_def)
  next
    case False
    then show ?thesis using ge by (auto simp: parse_record_def Let_def rr_inside_def)
  qed
qed

lemma parse_records_inside:
  "parse_records pkt data reply n = Inl Malformed \<or>
   (\<exists>rrs data'. parse_records pkt data reply n = Inr (rrs, data') \<and> length rrs = n \<and> (\<forall>rr \<in> set rrs. rr_inside pkt reply rr))"
proof (induction n arbitrary: data)
  case (Suc n)
  consider "parse_record pkt data reply = Inl Malformed"
    | rr data' where "parse_record pkt data reply = Inr (rr, data')" "rr_inside pkt reply rr"
    using parse_record_inside [of pkt data reply] by blast
  then show ?case
  proof cases
    case 2
    then show ?thesis using Suc [of data'] by auto
  qed simp
qed simp

definition message_inside :: "dns_message \<Rightarrow> bool" where
  "message_inside msg \<longleftrightarrow> dns_header_size \<le> length (dm_pkt msg) \<and>
     length (dm_questions msg) \<le> MG_MAX_DNS_QUESTIONS \<and> length (dm_answers msg) \<le> MG_MAX_DNS_ANSWERS \<and>
     (\<forall>rr \<in> set (dm_questions msg). rr_inside (dm_pkt msg) False rr) \<and> (\<forall>rr \<in> set (dm_answers msg). rr_inside (dm_pkt msg) True rr)"

lemma parse_dns_inside:
  "parse_dns pkt = Inl Malformed \<or> (\<exists>msg. parse_dns pkt = Inr msg \<and> dm_pkt msg = pkt \<and> message_inside msg)"
proof (cases "length pkt < dns_header_size")
  case False
  let ?q = "min (256 * unat (pkt ! 4) + unat (pkt ! 5)) MG_MAX_DNS_QUESTIONS"
  let ?a = "min (256 * unat (pkt ! 6) + unat (pkt ! 7)) MG_MAX_DNS_ANSWERS"
  consider "parse_records pkt dns_header_size False ?q = Inl Malformed"
    | qs data where "parse_records pkt dns_header_size False ?q = Inr (qs, data)" "length qs = ?q"
        "\<forall>rr \<in> set qs. rr_inside pkt False rr"
    using parse_records_inside [of pkt dns_header_size False ?q] by blast
  then show ?thesis
  proof cases
    case 1
    then show ?thesis using False by (simp add: parse_dns_def dns_header_size_def)
  next
    case 2
    then show ?thesis using False parse_records_inside [of pkt data True ?a]
      by (auto simp: parse_dns_def dns_header_size_def message_inside_def)
  qed
qed (simp add: parse_dns_def)

text \<open>A name that is expanded reads inside the packet and writes inside the buffer.\<close>

lemma uncompress_loop_inside:
  "data < length pkt \<Longrightarrow> length out \<le> dst_len \<Longrightarrow>
    \<exists>n out'. uncompress_loop pkt data num_ptrs dst_len out = Inr (n, out') \<and> n \<le> length out' \<and> length out' \<le> dst_len"
proof (induction pkt data num_ptrs dst_len out rule: uncompress_loop.induct)
  case (1 pkt data num_ptrs dst_len out)
  let ?c = "pkt ! data" and ?off = "256 * unat (pkt ! data AND 0x3f) + unat (pkt ! (data + 1))"
  let ?leeway = "dst_len - length out" let ?n = "min (unat ?c) ?leeway"
  let ?out = "out @ take ?n (drop (data + 1) pkt)"
  note unfold = uncompress_loop.simps [of pkt data num_ptrs dst_len out]
  have rd: "rd pkt data = Inr ?c" using 1 by simp
  consider (zero) "?c = 0" | (last) "?c \<noteq> 0" "length pkt \<le> data + 1"
    | (pointer) "?c \<noteq> 0" "data + 1 < length pkt" "?c AND 0xc0 = 0xc0"
    | (label) "?c \<noteq> 0" "data + 1 < length pkt" "?c AND 0xc0 \<noteq> 0xc0" by linarith
  then show ?case
  proof cases
    case zero
    then show ?thesis using 1 by (subst unfold) (auto simp: uncompress_end_def)
  next
    case last
    then show ?thesis using 1 by (subst unfold) auto
  next
    case pointer
    show ?thesis
    proof (cases "length pkt \<le> ?off \<or> 15 < num_ptrs + 1")
      case True
      then show ?thesis using pointer 1 by (subst unfold) (auto simp: Let_def)
    next
      case False
      have "\<exists>n out'. uncompress_loop pkt ?off (num_ptrs + 1) dst_len out = Inr (n, out') \<and> n \<le> length out' \<and> length out' \<le> dst_len"
        by (rule 1(1) [OF rd]) (use pointer False 1 in auto)
      then show ?thesis using pointer False by (subst unfold) (simp add: rd Let_def)
    qed
  next
    case label
    show ?thesis
    proof (cases "63 < ?c \<or> length pkt \<le> data + 1 + ?n \<or> ?n = ?leeway")
      case True
      then show ?thesis using label 1 by (subst unfold) (auto simp: Let_def)
    next
      case False
      have "\<exists>n out'. uncompress_loop pkt (data + 1 + ?n) num_ptrs dst_len (?out @ [chr CHR ''.'']) = Inr (n, out') \<and>
          n \<le> length out' \<and> length out' \<le> dst_len"
        by (rule 1(2) [OF rd]) (use label False 1 in auto)
      then show ?thesis using label False by (subst unfold) (simp add: rd Let_def)
    qed
  qed
qed

lemma uncompress_inside:
  "\<exists>n out. uncompress_name pkt name dst_len = Inr (n, out) \<and> n \<le> length out \<and> length out \<le> dst_len"
  using uncompress_loop_inside [of "fst name" pkt "[]" dst_len 0] by (auto simp: uncompress_name_def)

end
