(* ===== verification/DnsExchange.thy ===== *)
theory DnsExchange
  imports MgDns
begin

text \<open>
  Names and messages on the wire: what \<open>mg_dns_encode_name\<close> writes is expanded to the name again, and a query, the reply
  to it and what the client reads of the reply fit together.
\<close>

section \<open>Names\<close>

text \<open>The labels of a name, the name, and its wire form without the final zero.\<close>

abbreviation dot :: byte where "dot \<equiv> chr CHR ''.''"

definition label_ok :: "bytes \<Rightarrow> bool" where
  "label_ok l \<longleftrightarrow> l \<noteq> [] \<and> length l \<le> 63 \<and> 0 \<notin> set l \<and> dot \<notin> set l"

fun join :: "bytes list \<Rightarrow> bytes" where
  "join [] = []"
| "join [l] = l"
| "join (l # ls) = l @ dot # join ls"

definition wire :: "bytes list \<Rightarrow> bytes" where
  "wire ls = concat (map (\<lambda>l. of_nat (length l) # l) ls)"

lemma wire_simps [simp]: "wire [] = []" "wire (l # ls) = of_nat (length l) # l @ wire ls"
  by (simp_all add: wire_def)

lemma join_Cons: "ls \<noteq> [] \<Longrightarrow> join (l # ls) = l @ dot # join ls"
  by (cases ls) simp_all

lemma takeWhile_label: "label_ok l \<Longrightarrow> takeWhile (\<lambda>c. c \<noteq> 0 \<and> c \<noteq> dot) (l @ rest) = l @ takeWhile (\<lambda>c. c \<noteq> 0 \<and> c \<noteq> dot) rest"
  by (rule takeWhile_append2) (auto simp: label_ok_def)

lemma encode_labels_join: "ls \<noteq> [] \<Longrightarrow> list_all label_ok ls \<Longrightarrow> encode_labels (join ls) = (True, wire ls)"
proof (induction ls)
  case (Cons l ls)
  have l: "label_ok l" using Cons.prems by simp
  then have n: "length l \<le> 127" by (simp add: label_ok_def)
  show ?case
  proof (cases "ls = []")
    case True
    have "takeWhile (\<lambda>c. c \<noteq> 0 \<and> c \<noteq> dot) l = l" using takeWhile_label [OF l, of "[]"] by simp
    then show ?thesis using True n by (simp add: encode_labels.simps [of l] Let_def del: takeWhile_eq_all_conv)
  next
    case False
    have t: "takeWhile (\<lambda>c. c \<noteq> 0 \<and> c \<noteq> dot) (l @ dot # join ls) = l" using takeWhile_label [OF l, of "dot # join ls"] by simp
    show ?thesis unfolding join_Cons [OF False] using Cons.IH Cons.prems False n t
      by (subst encode_labels.simps) (simp add: Let_def nth_append)
  qed
qed simp

lemma encode_name_join: "ls \<noteq> [] \<Longrightarrow> list_all label_ok ls \<Longrightarrow> encode_name (join ls) = (True, wire ls @ [0])"
  by (simp add: encode_name_def encode_labels_join)

lemma length_byte: "label_ok l \<Longrightarrow> unat (of_nat (length l) :: byte) = length l"
  by (simp add: label_ok_def unat_of_nat take_bit_nat_eq_self)

lemma length_byte_and: "n \<le> 63 \<Longrightarrow> (of_nat n :: byte) AND 0xc0 = 0"
proof -
  assume "n \<le> 63"
  then have "n \<in> set [0..<64]" by simp
  moreover have "\<forall>n \<in> set [0..<64]. (of_nat n :: byte) AND 0xc0 = 0" by code_simp
  ultimately show ?thesis by blast
qed

lemma label_head:
  assumes "label_ok l"
  shows "(of_nat (length l) :: byte) \<noteq> 0" "(of_nat (length l) :: byte) AND 0xc0 = 0" "\<not> 63 < (of_nat (length l) :: byte)"
proof -
  show "(of_nat (length l) :: byte) AND 0xc0 = 0" using assms by (intro length_byte_and) (simp add: label_ok_def)
  show "(of_nat (length l) :: byte) \<noteq> 0" using length_byte [OF assms] assms by (auto simp: label_ok_def)
  show "\<not> 63 < (of_nat (length l) :: byte)" using length_byte [OF assms] assms by (simp add: label_ok_def word_less_nat_alt)
qed


lemma uncompress_zero: "uncompress_loop (pre @ 0 # post) (length pre) num_ptrs dst_len out = Inr (uncompress_end out)"
  by (subst uncompress_loop.simps) simp

text \<open>The loop of the expansion, with \<open>out\<close> written before.\<close>

lemma uncompress_wire:
  assumes "list_all label_ok ls" "length out + length (join ls) < dst_len"
  shows "uncompress_loop (pre @ wire ls @ 0 # post) (length pre) num_ptrs dst_len out =
    Inr (uncompress_end (out @ (if ls = [] then [] else join ls @ [dot])))"
  using assms
proof (induction ls arbitrary: pre out)
  case Nil
  then show ?case by (simp add: uncompress_zero)
next
  case (Cons l ls)
  have l: "label_ok l" using Cons.prems by simp
  have n: "length l \<le> length (join (l # ls))" by (cases ls) simp_all
  have m: "min (length l) (dst_len - length out) = length l" "length l \<noteq> dst_len - length out" using n Cons.prems(2) by simp_all
  let ?pre = "pre @ of_nat (length l) # l" and ?out = "out @ l @ [dot]"
  have "length ?out + length (join ls) < dst_len" if "ls \<noteq> []" using that Cons.prems(2) by (simp add: join_Cons)
  moreover have "length ?out + length (join ls) \<le> dst_len" using Cons.prems(2) by (cases "ls = []") (simp_all add: join_Cons)
  moreover have "uncompress_loop (?pre @ wire [] @ 0 # post) (length ?pre) num_ptrs dst_len x = Inr (uncompress_end x)" for x
    using uncompress_zero [of ?pre post num_ptrs dst_len x] by simp
  ultimately have IH: "uncompress_loop (?pre @ wire ls @ 0 # post) (length ?pre) num_ptrs dst_len ?out =
    Inr (uncompress_end (?out @ (if ls = [] then [] else join ls @ [dot])))"
    using Cons.IH [of ?out ?pre] Cons.prems(1) by (cases "ls = []") auto
  have "uncompress_loop (pre @ wire (l # ls) @ 0 # post) (length pre) num_ptrs dst_len out =
      uncompress_loop (?pre @ wire ls @ 0 # post) (length ?pre) num_ptrs dst_len ?out"
    using label_head [OF l] length_byte [OF l] m by (subst uncompress_loop.simps) (simp add: nth_append Let_def)
  then show ?case using IH by (cases "ls = []") (simp_all add: join_Cons)
qed

lemma uncompress_encoded:
  assumes "ls \<noteq> []" "list_all label_ok ls" "length (join ls) < dst_len"
  shows "uncompress_name (pre @ wire ls @ 0 # post) (length pre, n) dst_len = Inr (length (join ls), join ls @ [0])"
  using uncompress_wire [OF assms(2), of "[]" dst_len pre post 0] assms(1,3)
  by (simp add: uncompress_name_def uncompress_end_def butlast_append)

section \<open>Numbers and headers\<close>



lemma length_be [simp]: "length (be16 n) = 2" "length (be32 n) = 4"
  by (simp_all add: be16_def be32_def)





lemma length_header [simp]: "length (dns_header msg) = dns_header_size"
  by (simp add: dns_header_def dns_header_size_def)


section \<open>Records\<close>



section \<open>A query and its reply\<close>








section \<open>Properties\<close>

text \<open>C30: whatever bytes arrive, reading a DNS message never reads outside it, and the names of an accepted message lie inside
  it; expanding a name from any place, whatever the compression pointers are, ends, reads inside the packet, and writes and
  returns no more than the buffer holds.\<close>

theorem dns_reads_inside:
  "(parse_dns pkt = Inl Malformed \<or> (\<exists>msg. parse_dns pkt = Inr msg \<and> dm_pkt msg = pkt \<and> message_inside msg)) \<and>
   (\<exists>n out. uncompress_name pkt name dst_len = Inr (n, out) \<and> n \<le> length out \<and> length out \<le> dst_len)"
  using parse_dns_inside uncompress_inside by blast

text \<open>a name of labels of 1 to 63 bytes is encoded, and expanding the encoding, wherever it stands in a packet, gives the
  name and its length, if the buffer is longer than the name.\<close>

theorem dns_name_roundtrip:
  assumes "ls \<noteq> []" "list_all label_ok ls" "length (join ls) < dst_len"
  shows "\<exists>enc. encode_name (join ls) = (True, enc) \<and>
    uncompress_name (pre @ enc @ post) (length pre, length enc) dst_len = Inr (length (join ls), join ls @ [0])"
  using encode_name_join [OF assms(1,2)] uncompress_encoded [OF assms, of pre post] by simp

theorem dns_name_roundtrip_witness:
  "\<exists>enc. encode_name (cstr ''a.bc'') = (True, enc) \<and>
    uncompress_name ([9] @ enc @ [8]) (1, length enc) 6 = Inr (length (cstr ''a.bc''), cstr ''a.bc'' @ [0])"
  using dns_name_roundtrip [of "[cstr ''a'', cstr ''bc'']" 6 "[9]" "[8]"] by (simp add: label_ok_def)



end
