(* ===== verification/HttpSecure.thy ===== *)
theory HttpSecure
  imports U8Module MgPrintf
begin

text \<open>
  The secure protocol of \<open>network/HttpServer.cpp\<close> and \<open>network/HttpClient.cpp\<close>: the endpoints \<open>/connect\<close>,
  \<open>/get_token\<close> and \<open>/command\<close> with the table of sessions, and the client that opens a session and sends commands.
  A request is the map of its multipart fields, an answer its status code and body. A session object is shared by the two
  tables, so it lives in a store and the tables hold its place in it. What a call of the random source yields is an
  argument. Handlers run one after the other.
\<close>

section \<open>The environment\<close>

datatype http_error =
    HKey key_error | HRsa rsa_error | HCrypto crypto_error
  | BadSessionNumber | BadVersion | BadNumber | BadPartLength | Timeout | NodeSignature | NonceMismatch
  | NullSessionKey   \<comment> \<open>the code would dereference a null pointer\<close>

text \<open>The errors that are exceptions.\<close>

fun http_thrown :: "http_error \<Rightarrow> bool" where
  "http_thrown (HKey e) = thrown (KeyErr e)"
| "http_thrown (HRsa e) = (e \<noteq> ReadBehindBuffer)"
| "http_thrown NullSessionKey = False"
| "http_thrown _ = True"

definition as_error :: "('e \<Rightarrow> 'f) \<Rightarrow> 'e + 'a \<Rightarrow> 'f + 'a" where
  "as_error f m = (case m of Inl e \<Rightarrow> Inl (f e) | Inr x \<Rightarrow> Inr x)"

abbreviation hkey :: "key_error + 'a \<Rightarrow> http_error + 'a" where "hkey \<equiv> as_error HKey"
abbreviation hboss :: "boss_error + 'a \<Rightarrow> http_error + 'a" where "hboss \<equiv> as_error (\<lambda>e. HKey (Boss e))"
abbreviation hrsa :: "rsa_error + 'a \<Rightarrow> http_error + 'a" where "hrsa \<equiv> as_error HRsa"
abbreviation hcrypto :: "crypto_error + 'a \<Rightarrow> http_error + 'a" where "hcrypto \<equiv> as_error HCrypto"

lemma as_error_Inr [simp]: "as_error f m = Inr x \<longleftrightarrow> m = Inr x" "as_error f (Inr x) = Inr x"
  by (cases m) (simp_all add: as_error_def)

record http_env =
  he_ltc :: ltc
  he_gmp :: gmp
  he_rsa :: rsa_lib
  he_ciphers :: ciphers
  he_parser :: key_parser
  he_stack :: "nat \<Rightarrow> byte"
  he_junk :: "nat \<Rightarrow> byte"
  he_junk3 :: bytes
  he_junk4 :: bytes
  he_what :: "http_error \<Rightarrow> bytes"      \<comment> \<open>\<open>e.what()\<close>\<close>

text \<open>What the random source yields during one request.\<close>

record http_random =
  hr_nonce :: bytes
  hr_key :: bytes
  hr_iv :: bytes
  hr_encrypt :: prng
  hr_sign :: prng

type_synonym http_params = "bytes \<Rightarrow> bytes option"
type_synonym http_answer = "nat \<times> bytes"

definition read_binder :: "http_env \<Rightarrow> bytes \<Rightarrow> http_error + ubinder" where
  "read_binder E bs = hboss (res_bind (deserialize (he_parser E) bs) binder_asInstance)"

definition bytes_field :: "ubinder \<Rightarrow> bytes \<Rightarrow> http_error + bytes" where
  "bytes_field b k = hboss (bytes_asInstance (binder_get b k))"

definition write_binder :: "(bytes \<times> uobj) list \<Rightarrow> http_error + bytes" where
  "write_binder kvs = hboss (serialize (UBinder (binder_of kvs)))"

text \<open>\<open>int\<close> from the 64 bits of a \<open>UInt\<close>.\<close>

definition to_int :: "u64 \<Rightarrow> int" where
  "to_int v = sint (ucast v :: 32 word)"

section \<open>Sessions\<close>

definition SERVER_VERSION :: int where "SERVER_VERSION = 3"
definition CLIENT_VERSION :: int where "CLIENT_VERSION = 3"
definition LONG_MAX :: int where "LONG_MAX = 2 ^ 63 - 1"

record http_session =
  hs_publicKey :: public_key
  hs_sessionKey :: "bytes option"
  hs_serverNonce :: bytes
  hs_encryptedAnswer :: bytes
  hs_sessionId :: int
  hs_version :: int

record http_server =
  sv_myKey :: rsa_key
  sv_store :: "http_session list"
  sv_byKeyAndVersion :: "int \<Rightarrow> bytes \<Rightarrow> nat option"
  sv_byId :: "int \<Rightarrow> nat option"
  sv_nextSessionId :: int

definition new_server :: "rsa_key \<Rightarrow> int \<Rightarrow> http_server" where
  "new_server key first = \<lparr>sv_myKey = key, sv_store = [], sv_byKeyAndVersion = (\<lambda>v k. None), sv_byId = (\<lambda>i. None),
     sv_nextSessionId = first\<rparr>"

definition http_session_at :: "http_server \<Rightarrow> nat \<Rightarrow> http_session" where
  "http_session_at sv r = sv_store sv ! r"

definition set_session :: "nat \<Rightarrow> http_session \<Rightarrow> http_server \<Rightarrow> http_server" where
  "set_session r s sv = sv\<lparr>sv_store := (sv_store sv)[r := s]\<rparr>"

definition add_session :: "public_key \<Rightarrow> int \<Rightarrow> http_server \<Rightarrow> nat \<times> http_server" where
  "add_session key version sv =
     (let s = \<lparr>hs_publicKey = key, hs_sessionKey = None, hs_serverNonce = [], hs_encryptedAnswer = [],
            hs_sessionId = sv_nextSessionId sv, hs_version = version\<rparr>; next = sv_nextSessionId sv + 1 in
      (length (sv_store sv), sv\<lparr>sv_store := sv_store sv @ [s], sv_nextSessionId := (if LONG_MAX \<le> next then 1 else next)\<rparr>))"

definition register :: "nat \<Rightarrow> http_server \<Rightarrow> http_server" where
  "register r sv = sv\<lparr>sv_byId := (sv_byId sv)(hs_sessionId (http_session_at sv r) := Some r)\<rparr>"

text \<open>The two functions \<open>getSession\<close>.\<close>

definition getSessionByKey :: "http_env \<Rightarrow> public_key \<Rightarrow> int \<Rightarrow> http_server \<Rightarrow> http_error + (nat \<times> http_server)" where
  "getSessionByKey E key protocolVersion sv =
     (if protocolVersion = 0 then (case add_session key protocolVersion sv of (r, sv) \<Rightarrow> Inr (r, register r sv))
      else
        let skey = base64_encode (he_junk3 E) (fingerprint (he_ltc E) (he_gmp E) (he_stack E) key) in
        if protocolVersion < 0 \<or> SERVER_VERSION < protocolVersion then Inl BadVersion
        else (case sv_byKeyAndVersion sv protocolVersion skey of
            Some r \<Rightarrow> Inr (r, register r sv)
          | None \<Rightarrow> (case add_session key protocolVersion sv of (r, sv) \<Rightarrow>
              Inr (r, register r (sv\<lparr>sv_byKeyAndVersion :=
                (sv_byKeyAndVersion sv)(protocolVersion := (sv_byKeyAndVersion sv protocolVersion)(skey := Some r))\<rparr>)))))"

definition getSessionById :: "int \<Rightarrow> http_server \<Rightarrow> http_error + nat" where
  "getSessionById sessionId sv = (case sv_byId sv sessionId of None \<Rightarrow> Inl BadSessionNumber | Some r \<Rightarrow> Inr r)"

section \<open>Requests and answers\<close>

text \<open>\<open>operator[]\<close> yields an empty vector for a field that is not there.\<close>

definition param :: "http_params \<Rightarrow> bytes \<Rightarrow> bytes" where
  "param reqParams k = (case reqParams k of Some v \<Rightarrow> v | None \<Rightarrow> [])"

definition extractParams :: "http_env \<Rightarrow> http_params \<Rightarrow> http_error + ubinder" where
  "extractParams E reqParams =
     (case (if reqParams (cstr ''requestData64'') \<noteq> None
            then read_binder E (base64_decode (he_junk4 E) (param reqParams (cstr ''requestData'')))
            else read_binder E (param reqParams (cstr ''requestData''))) of
        Inl e \<Rightarrow> if http_thrown e
          then Inr (binder_of [(cstr ''status'', UString (cstr ''error'')), (cstr ''message'', UString (he_what E e))]) else Inl e
      | Inr b \<Rightarrow> Inr b)"

definition error_answer :: "bytes \<Rightarrow> http_error + http_answer" where
  "error_answer message = res_bind (write_binder [(cstr ''result'', UString (cstr ''error'')), (cstr ''response'', UString message)])
     (\<lambda>body. Inr (500, body))"

definition ok_answer :: "(bytes \<times> uobj) list \<Rightarrow> http_error + http_answer" where
  "ok_answer kvs = res_bind (write_binder [(cstr ''result'', UString (cstr ''ok'')), (cstr ''response'', UBinder (binder_of kvs))])
     (\<lambda>body. Inr (200, body))"

text \<open>The \<open>catch\<close> of every endpoint: \<open>sv\<close> is the state when the exception is thrown.\<close>

definition catch_answer :: "http_env \<Rightarrow> http_server \<Rightarrow> http_error + (http_answer \<times> http_server) \<Rightarrow>
    http_error + (http_answer \<times> http_server)" where
  "catch_answer E sv m = (case m of
     Inl e \<Rightarrow> if http_thrown e then res_bind (error_answer (he_what E e)) (\<lambda>a. Inr (a, sv)) else Inl e
   | Inr x \<Rightarrow> Inr x)"

section \<open>The endpoints\<close>

fun to_dec :: "nat \<Rightarrow> bytes" where
  "to_dec n = (if n < 10 then [of_nat (48 + n)] else to_dec (n div 10) @ [of_nat (48 + n mod 10)])"

declare to_dec.simps [simp del]

definition to_string :: "int \<Rightarrow> bytes" where
  "to_string i = (if i < 0 then chr CHR ''-'' # to_dec (nat (- i)) else to_dec (nat i))"

definition connect_session :: "http_env \<Rightarrow> http_params \<Rightarrow> http_server \<Rightarrow> http_error + (nat \<times> http_server)" where
  "connect_session E reqParams sv =
     res_bind (extractParams E reqParams) (\<lambda>req.
     res_bind (hboss (getIntOrDefault req (cstr ''client_version'') 0)) (\<lambda>version.
     res_bind (bytes_field req (cstr ''client_key'')) (\<lambda>clientKeyBytes.
     res_bind (hkey (unpack_public (he_gmp E) (he_stack E) (he_parser E) clientKeyBytes)) (\<lambda>clientKey.
       getSessionByKey E clientKey (to_int version) sv))))"

definition connect :: "http_env \<Rightarrow> http_random \<Rightarrow> http_params \<Rightarrow> http_server \<Rightarrow> http_error + (http_answer \<times> http_server)" where
  "connect E rnd reqParams sv =
     (case connect_session E reqParams sv of
        Inl e \<Rightarrow> catch_answer E sv (Inl e)
      | Inr (r, sv) \<Rightarrow>
          let s = http_session_at sv r;
              s = (if hs_serverNonce s = [] then s\<lparr>hs_serverNonce := hr_nonce rnd\<rparr> else s);
              sv = set_session r s sv in
          catch_answer E sv (res_bind (ok_answer
            [(cstr ''server_nonce'', UBytes (hs_serverNonce s)), (cstr ''server_version'', UInt (of_int SERVER_VERSION)),
             (cstr ''session_id'', UString (to_string (hs_sessionId s)))]) (\<lambda>a. Inr (a, sv))))"

text \<open>What \<open>/get_token\<close> reads of the request: the session, the signed data and the signature.\<close>

definition token_request_parts :: "http_env \<Rightarrow> http_params \<Rightarrow> http_server \<Rightarrow> http_error + (nat \<times> bytes \<times> bytes)" where
  "token_request_parts E reqParams sv =
     res_bind (extractParams E reqParams) (\<lambda>req.
     res_bind (hboss (int_asInstance (binder_get req (cstr ''session_id'')))) (\<lambda>sessionId.
     res_bind (getSessionById (sint sessionId) sv) (\<lambda>r.
     res_bind (bytes_field req (cstr ''data'')) (\<lambda>signedAnswer.
     res_bind (bytes_field req (cstr ''signature'')) (\<lambda>signature. Inr (r, signedAnswer, signature))))))"

text \<open>What the signed data say: the two nonces and the version.\<close>

definition signed_parts :: "http_env \<Rightarrow> bytes \<Rightarrow> http_error + (bytes \<times> bytes \<times> int)" where
  "signed_parts E signedAnswer =
     res_bind (read_binder E signedAnswer) (\<lambda>params.
     res_bind (bytes_field params (cstr ''server_nonce'')) (\<lambda>serverNonce.
     res_bind (bytes_field params (cstr ''client_nonce'')) (\<lambda>clientNonce.
     res_bind (hboss (getIntOrDefault params (cstr ''client_version'') 1)) (\<lambda>version.
       Inr (serverNonce, clientNonce, to_int version)))))"

definition issue_key :: "http_env \<Rightarrow> http_random \<Rightarrow> http_session \<Rightarrow> http_error + http_session" where
  "issue_key E rnd s = (if hs_sessionKey s \<noteq> None then Inr s
     else
       res_bind (write_binder [(cstr ''sk'', UBytes (hr_key rnd))]) (\<lambda>data.
       res_bind (hrsa (rsa_encrypt (he_rsa E) (he_junk E) (hr_encrypt rnd) (hs_publicKey s) data)) (\<lambda>enc.
         Inr (s\<lparr>hs_sessionKey := Some (hr_key rnd), hs_encryptedAnswer := enc\<rparr>))))"

definition token_answer :: "http_env \<Rightarrow> http_random \<Rightarrow> rsa_key \<Rightarrow> bytes \<Rightarrow> bytes \<Rightarrow> http_error + http_answer" where
  "token_answer E rnd myKey clientNonce encryptedAnswer =
     res_bind (write_binder [(cstr ''client_nonce'', UBytes clientNonce), (cstr ''encrypted_token'', UBytes encryptedAnswer)]) (\<lambda>packed.
     res_bind (hrsa (sign (he_ltc E) (he_rsa E) (he_junk E) (hr_sign rnd) myKey packed SHA512)) (\<lambda>sig.
       ok_answer [(cstr ''data'', UBytes packed), (cstr ''signature'', UBytes sig)]))"

definition get_token :: "http_env \<Rightarrow> http_random \<Rightarrow> http_params \<Rightarrow> http_server \<Rightarrow> http_error + (http_answer \<times> http_server)" where
  "get_token E rnd reqParams sv =
     (case token_request_parts E reqParams sv of
        Inl e \<Rightarrow> catch_answer E sv (Inl e)
      | Inr (r, signedAnswer, signature) \<Rightarrow>
          let s = http_session_at sv r in
          if \<not> verify (he_ltc E) (he_rsa E) (hs_publicKey s) signature signedAnswer SHA512 then
            res_bind (error_answer (cstr ''signature check failed'')) (\<lambda>a. Inr (a, sv))
          else (case signed_parts E signedAnswer of
              Inl e \<Rightarrow> catch_answer E sv (Inl e)
            | Inr (serverNonce, clientNonce, version) \<Rightarrow>
                let s = s\<lparr>hs_version := min version SERVER_VERSION\<rparr>; sv = set_session r s sv in
                if serverNonce \<noteq> hs_serverNonce s then
                  res_bind (error_answer (cstr ''server_nonce does not match'')) (\<lambda>a. Inr (a, sv))
                else (case issue_key E rnd s of
                    Inl e \<Rightarrow> catch_answer E (set_session r (s\<lparr>hs_sessionKey := Some (hr_key rnd)\<rparr>) sv) (Inl e)
                  | Inr s \<Rightarrow>
                      let sv = set_session r s sv in
                      catch_answer E sv (res_bind (token_answer E rnd (sv_myKey sv) clientNonce (hs_encryptedAnswer s)) (\<lambda>a. Inr (a, sv))))))"

definition session_seal :: "http_env \<Rightarrow> bytes \<Rightarrow> int \<Rightarrow> bytes \<Rightarrow> bytes \<Rightarrow> http_error + bytes" where
  "session_seal E iv version key data =
     hcrypto (if 2 \<le> version then etaEncrypt (he_ciphers E) key iv data else sk_encrypt (he_ciphers E) key iv data)"

text \<open>
  \<open>etaDecrypt\<close> and \<open>decrypt\<close> are called through the pointer to the session key, which is null before a token is issued;
  they compare the size of their input before they read the key.
\<close>

definition sealed_size :: "int \<Rightarrow> nat" where
  "sealed_size version = (if 2 \<le> version then blockSize + hashsize else blockSize)"

definition session_open :: "http_env \<Rightarrow> int \<Rightarrow> bytes option \<Rightarrow> bytes \<Rightarrow> http_error + bytes" where
  "session_open E version sessionKey data = (case sessionKey of
       None \<Rightarrow> if length data < sealed_size version then Inl (HCrypto InputTooSmall) else Inl NullSessionKey
     | Some key \<Rightarrow> hcrypto (if 2 \<le> version then etaDecrypt (he_ciphers E) key data else sk_decrypt (he_ciphers E) key data))"

text \<open>\<open>inSession\<close>: what the processor is given, and the answer it sends through the function it is given.\<close>

definition open_command :: "http_env \<Rightarrow> http_params \<Rightarrow> http_server \<Rightarrow> http_error + (nat \<times> bytes)" where
  "open_command E reqParams sv =
     res_bind (extractParams E reqParams) (\<lambda>req.
     res_bind (hboss (int_asInstance (binder_get req (cstr ''session_id'')))) (\<lambda>sessionId.
     res_bind (getSessionById (sint sessionId) sv) (\<lambda>r.
     res_bind (bytes_field req (cstr ''params'')) (\<lambda>paramsBin.
       let s = http_session_at sv r in
       res_bind (session_open E (hs_version s) (hs_sessionKey s) paramsBin) (\<lambda>dec. Inr (r, dec))))))"

definition seal_answer :: "http_env \<Rightarrow> bytes \<Rightarrow> http_session \<Rightarrow> bytes \<Rightarrow> http_error + http_answer" where
  "seal_answer E iv s reqAnsBin =
     (case hs_sessionKey s of
        None \<Rightarrow> Inl NullSessionKey
      | Some key \<Rightarrow> res_bind (session_seal E iv (hs_version s) key reqAnsBin) (\<lambda>enc. ok_answer [(cstr ''result'', UBytes enc)]))"

text \<open>\<open>/command\<close> with a processor that answers at once.\<close>

definition command :: "http_env \<Rightarrow> http_random \<Rightarrow> (nat \<Rightarrow> bytes \<Rightarrow> bytes) \<Rightarrow> http_params \<Rightarrow> http_server \<Rightarrow>
    http_error + (http_answer \<times> http_server)" where
  "command E rnd processor reqParams sv =
     catch_answer E sv (res_bind (open_command E reqParams sv) (\<lambda>(r, dec).
       res_bind (seal_answer E (hr_iv rnd) (http_session_at sv r) (processor r dec)) (\<lambda>a. Inr (a, sv))))"

section \<open>The client\<close>

datatype start_error = Failed http_error | HelloFailed

record client_session =
  cs_connectMessage :: bytes
  cs_clientPrivateKey :: rsa_key
  cs_sessionKey :: "bytes option"
  cs_sessionId :: u64
  cs_nodePublicKey :: public_key
  cs_version :: int

definition new_client_session :: "rsa_key \<Rightarrow> public_key \<Rightarrow> client_session" where
  "new_client_session clientKey nodeKey = \<lparr>cs_connectMessage = [], cs_clientPrivateKey = clientKey, cs_sessionKey = None,
     cs_sessionId = 0, cs_nodePublicKey = nodeKey, cs_version = 1\<rparr>"

text \<open>\<open>std::stol\<close>.\<close>

definition stol :: "bytes \<Rightarrow> http_error + int" where
  "stol str =
     (let s = dropWhile isspace str;
          neg = (s \<noteq> [] \<and> hd s = chr CHR ''-'');
          ds = takeWhile isdigit (if s \<noteq> [] \<and> (hd s = chr CHR ''-'' \<or> hd s = chr CHR ''+'') then tl s else s);
          v = foldl (\<lambda>n d. 10 * n + (uint d - 48)) 0 ds; v = (if neg then - v else v) in
      if ds = [] \<or> v < - LONG_MAX - 1 \<or> LONG_MAX < v then Inl BadNumber else Inr v)"

definition connect_request :: "http_env \<Rightarrow> rsa_key \<Rightarrow> http_error + bytes" where
  "connect_request E clientKey =
     res_bind (hkey (pack_public (he_gmp E) (he_stack E) (public_of_private (he_gmp E) (he_stack E) clientKey))) (\<lambda>packed.
       write_binder [(cstr ''client_key'', UBytes packed), (cstr ''client_version'', UInt (of_int CLIENT_VERSION))])"

text \<open>
  The callback of \<open>/connect\<close>: what it leaves in the session, the server nonce and the server version. When it catches an
  exception, what it has stored before remains.
\<close>

definition on_connect :: "http_env \<Rightarrow> bytes \<Rightarrow> client_session \<Rightarrow> http_error option \<times> client_session \<times> bytes \<times> int" where
  "on_connect E respBody cs =
     (case res_bind (read_binder E respBody) (\<lambda>binderWrap.
           res_bind (hboss (getBinder binderWrap (cstr ''response''))) (\<lambda>b.
           res_bind (hboss (getString b (cstr ''session_id''))) (\<lambda>strSessionId.
           res_bind (stol strSessionId) (\<lambda>sessionId. Inr (b, sessionId))))) of
        Inl e \<Rightarrow> (Some e, cs, [], 1)
      | Inr (b, sessionId) \<Rightarrow>
          let cs = cs\<lparr>cs_sessionId := of_int sessionId\<rparr> in
          (case bytes_field b (cstr ''server_nonce'') of
             Inl e \<Rightarrow> (Some e, cs, [], 1)
           | Inr serverNonce \<Rightarrow>
               (case hboss (getIntOrDefault b (cstr ''server_version'') 1) of
                  Inl e \<Rightarrow> (Some e, cs, serverNonce, 1)
                | Inr v \<Rightarrow> (None, cs\<lparr>cs_version := min (to_int v) CLIENT_VERSION\<rparr>, serverNonce, to_int v))))"

definition token_request :: "http_env \<Rightarrow> http_random \<Rightarrow> client_session \<Rightarrow> bytes \<Rightarrow> int \<Rightarrow> http_error + bytes" where
  "token_request E rnd cs server_nonce server_version =
     res_bind (write_binder [(cstr ''client_nonce'', UBytes (hr_nonce rnd)), (cstr ''server_nonce'', UBytes server_nonce),
       (cstr ''server_version'', UInt (of_int server_version)), (cstr ''client_version'', UInt (of_int CLIENT_VERSION))]) (\<lambda>data.
     res_bind (hrsa (sign (he_ltc E) (he_rsa E) (he_junk E) (hr_sign rnd) (cs_clientPrivateKey cs) data SHA512)) (\<lambda>sig.
       write_binder [(cstr ''signature'', UBytes sig), (cstr ''data'', UBytes data), (cstr ''session_id'', UInt (cs_sessionId cs))]))"

text \<open>The callback of \<open>/get_token\<close>, and what \<open>start\<close> does with the token.\<close>

definition on_token :: "http_env \<Rightarrow> bytes \<Rightarrow> http_error + (bytes \<times> bytes)" where
  "on_token E respBody =
     res_bind (read_binder E respBody) (\<lambda>binderWrap.
     res_bind (hboss (getBinder binderWrap (cstr ''response''))) (\<lambda>b.
     res_bind (bytes_field b (cstr ''data'')) (\<lambda>dataRcv.
     res_bind (bytes_field b (cstr ''signature'')) (\<lambda>sigRcv. Inr (dataRcv, sigRcv)))))"

definition accept_token :: "http_env \<Rightarrow> client_session \<Rightarrow> bytes \<Rightarrow> bytes \<Rightarrow> bytes \<Rightarrow> http_error + client_session" where
  "accept_token E cs client_nonce dataRcv sigRcv =
     (if \<not> verify (he_ltc E) (he_rsa E) (cs_nodePublicKey cs) sigRcv dataRcv SHA512 then Inl NodeSignature
      else
        res_bind (read_binder E dataRcv) (\<lambda>paramsRcv.
        res_bind (bytes_field paramsRcv (cstr ''client_nonce'')) (\<lambda>clientNonceRcv.
        if client_nonce \<noteq> clientNonceRcv then Inl NonceMismatch
        else
          res_bind (bytes_field paramsRcv (cstr ''encrypted_token'')) (\<lambda>encrypted_token.
          res_bind (hrsa (rsa_decrypt (he_rsa E) (cs_clientPrivateKey cs) encrypted_token)) (\<lambda>token.
          res_bind (read_binder E token) (\<lambda>b.
          res_bind (bytes_field b (cstr ''sk'')) (\<lambda>key. Inr (cs\<lparr>cs_sessionKey := Some key\<rparr>))))))))"

section \<open>Commands of the client\<close>

text \<open>
  \<open>execCommand\<close> on bytes: the request, or the message \<open>onComplete\<close> gets when there is no session key; and what an
  \<open>onComplete\<close> that throws nothing gets of the reply.
\<close>

definition command_request :: "http_env \<Rightarrow> bytes \<Rightarrow> client_session \<Rightarrow> bytes \<Rightarrow> bytes + http_error + bytes" where
  "command_request E iv cs callBin =
     (case cs_sessionKey cs of
        None \<Rightarrow> Inl (cstr ''Session does not created or session key is not got yet.'')
      | Some key \<Rightarrow> Inr (res_bind (session_seal E iv (cs_version cs) key callBin) (\<lambda>enc.
          write_binder [(cstr ''command'', UString (cstr ''command'')), (cstr ''params'', UBytes enc),
            (cstr ''session_id'', UInt (cs_sessionId cs))])))"

definition open_reply :: "http_env \<Rightarrow> client_session \<Rightarrow> bytes \<Rightarrow> http_error + bytes" where
  "open_reply E cs respBody =
     res_bind (read_binder E respBody) (\<lambda>ansBinder.
     res_bind (hboss (getBinder ansBinder (cstr ''response''))) (\<lambda>responseBinder.
     res_bind (bytes_field responseBinder (cstr ''result'')) (\<lambda>result.
       session_open E (cs_version cs) (cs_sessionKey cs) result)))"

definition command_reply :: "http_env \<Rightarrow> client_session \<Rightarrow> http_answer \<Rightarrow> http_error + (bytes \<times> bool)" where
  "command_reply E cs reply =
     (case reply of (respCode, respBody) \<Rightarrow>
        if respCode = 408 then Inr (cstr ''respCode='' @ to_string (int respCode), True)
        else (case open_reply E cs respBody of
            Inl e \<Rightarrow> if http_thrown e then Inr (he_what E e, True) else Inl e
          | Inr decrypted \<Rightarrow> Inr (decrypted, False)))"

text \<open>\<open>execCommand\<close> with a name: the packed call, and the callback around a reply.\<close>

definition pack_call :: "bytes \<Rightarrow> ubinder \<Rightarrow> http_error + bytes" where
  "pack_call name params = write_binder [(cstr ''command'', UString name), (cstr ''params'', UBinder params)]"

definition named_reply :: "http_env \<Rightarrow> bytes \<times> bool \<Rightarrow> http_error + (ubinder \<times> bool)" where
  "named_reply E r =
     (case res_bind (read_binder E (fst r)) (\<lambda>decryptedBinder. hboss (getBinder decryptedBinder (cstr ''result''))) of
        Inl e \<Rightarrow> if http_thrown e then Inr (binder_of [(cstr ''error'', UString (he_what E e))], True) else Inl e
      | Inr result \<Rightarrow> Inr (result, snd r))"

section \<open>Starting a session\<close>

text \<open>
  What the network does with a request to an endpoint: its answer, or nothing in time. The requests of \<open>start\<close> follow
  each other, so the state of the network is passed on.
\<close>

type_synonym 's transport = "bytes \<Rightarrow> bytes \<Rightarrow> 's \<Rightarrow> http_answer option \<times> 's"

definition start_connect :: "http_env \<Rightarrow> 's transport \<Rightarrow> client_session \<Rightarrow> 's \<Rightarrow>
    http_error option \<times> client_session \<times> bytes \<times> int \<times> 's" where
  "start_connect E net cs s =
     (case connect_request E (cs_clientPrivateKey cs) of
        Inl e \<Rightarrow> (Some e, cs, [], 1, s)
      | Inr paramsBin \<Rightarrow> (case net (cstr ''/connect'') paramsBin s of
          (None, s) \<Rightarrow> (Some Timeout, cs, [], 1, s)
        | (Some (respCode, respBody), s) \<Rightarrow> (case on_connect E respBody cs of (e, cs, nonce, version) \<Rightarrow> (e, cs, nonce, version, s))))"

definition start_token :: "http_env \<Rightarrow> http_random \<Rightarrow> 's transport \<Rightarrow> client_session \<Rightarrow> bytes \<Rightarrow> int \<Rightarrow> 's \<Rightarrow>
    (http_error + client_session) \<times> 's" where
  "start_token E rnd net cs server_nonce server_version s =
     (case token_request E rnd cs server_nonce server_version of
        Inl e \<Rightarrow> (Inl e, s)
      | Inr paramsBin \<Rightarrow> (case net (cstr ''/get_token'') paramsBin s of
          (None, s) \<Rightarrow> (Inl Timeout, s)
        | (Some (respCode, respBody), s) \<Rightarrow>
            (res_bind (on_token E respBody) (\<lambda>(dataRcv, sigRcv). accept_token E cs (hr_nonce rnd) dataRcv sigRcv), s)))"

definition on_hello :: "http_env \<Rightarrow> client_session \<Rightarrow> bytes \<times> bool \<Rightarrow> start_error option \<times> client_session" where
  "on_hello E cs r =
     (case named_reply E r of
        Inl e \<Rightarrow> (Some (Failed e), cs)
      | Inr (res, isError) \<Rightarrow>
          if isError then (Some HelloFailed, cs)
          else (case getString res (cstr ''message'') of
              Inl e \<Rightarrow> (Some HelloFailed, cs)
            | Inr message \<Rightarrow>
                let cs = cs\<lparr>cs_connectMessage := message\<rparr> in
                (if getString res (cstr ''status'') = Inr (cstr ''OK'') then (None, cs) else (Some HelloFailed, cs))))"

definition start_hello :: "http_env \<Rightarrow> http_random \<Rightarrow> 's transport \<Rightarrow> client_session \<Rightarrow> 's \<Rightarrow>
    start_error option \<times> client_session \<times> 's" where
  "start_hello E rnd net cs s =
     (case res_bind (pack_call (cstr ''hello'') []) (\<lambda>callBin.
         case command_request E (hr_iv rnd) cs callBin of Inl m \<Rightarrow> Inl NullSessionKey | Inr r \<Rightarrow> r) of
        Inl e \<Rightarrow> (Some (Failed e), cs, s)
      | Inr req \<Rightarrow> (case net (cstr ''/command'') req s of
          (None, s) \<Rightarrow> (Some (Failed Timeout), cs, s)
        | (Some reply, s) \<Rightarrow> (case command_reply E cs reply of
            Inl e \<Rightarrow> (Some (Failed e), cs, s)
          | Inr r \<Rightarrow> (case on_hello E cs r of (e, cs) \<Rightarrow> (e, cs, s)))))"

text \<open>\<open>start\<close>: the exception it throws, if any, the field \<open>session_\<close>, and the network after it.\<close>

definition start :: "http_env \<Rightarrow> http_random \<Rightarrow> 's transport \<Rightarrow> rsa_key \<Rightarrow> public_key \<Rightarrow> client_session option \<times> 's \<Rightarrow>
    start_error option \<times> client_session option \<times> 's" where
  "start E rnd net clientKey nodeKey state =
     (case state of
        (Some cs, s) \<Rightarrow> (None, Some cs, s)
      | (None, s) \<Rightarrow>
          (case start_connect E net (new_client_session clientKey nodeKey) s of
             (Some e, cs, _, _, s) \<Rightarrow> (Some (Failed e), Some cs, s)
           | (None, cs, server_nonce, server_version, s) \<Rightarrow>
               (case start_token E rnd net cs server_nonce server_version s of
                  (Inl e, s) \<Rightarrow> (Some (Failed e), Some cs, s)
                | (Inr cs, s) \<Rightarrow> (case start_hello E rnd net cs s of (e, cs, s) \<Rightarrow> (e, Some cs, s)))))"

text \<open>
  The network that delivers a request to the server, as the multipart field \<open>requestData\<close>: what the random source yields
  is another value in every call. A request that makes the server crash gets no answer.
\<close>

definition serve :: "http_env \<Rightarrow> (nat \<Rightarrow> http_random) \<Rightarrow> (nat \<Rightarrow> bytes \<Rightarrow> bytes) \<Rightarrow> (nat \<times> http_server) transport" where
  "serve E rnds processor endpoint req s =
     (let rnd = rnds (fst s); reqParams = [cstr ''requestData'' \<mapsto> req];
          r = (if endpoint = cstr ''/connect'' then connect E rnd reqParams (snd s)
               else if endpoint = cstr ''/get_token'' then get_token E rnd reqParams (snd s)
               else command E rnd processor reqParams (snd s)) in
      (case r of Inl e \<Rightarrow> (None, Suc (fst s), snd s) | Inr (a, sv) \<Rightarrow> (Some a, Suc (fst s), sv)))"

section \<open>Decimal digits\<close>

lemma decimal_digit: "d < 10 \<Longrightarrow> isdigit (48 + of_nat d) \<and> uint (48 + of_nat d :: byte) - 48 = int d"
proof -
  assume "d < 10"
  then have "d \<in> set [0..<10]" by simp
  moreover have "\<forall>d \<in> set [0..<10]. isdigit (48 + of_nat d) \<and> uint (48 + of_nat d :: byte) - 48 = int d" by code_simp
  ultimately show ?thesis by blast
qed

lemma to_dec_digits:
  "list_all isdigit (to_dec n) \<and> to_dec n \<noteq> [] \<and> foldl (\<lambda>n d. 10 * n + (uint d - 48)) 0 (to_dec n) = int n"
proof (induction n rule: to_dec.induct)
  case (1 n)
  show ?case
  proof (cases "n < 10")
    case True
    then show ?thesis using decimal_digit [OF True] by (simp add: to_dec.simps [of n])
  next
    case False
    have "int (n mod 10) = int n - 10 * int (n div 10)" by presburger
    then show ?thesis using 1 [OF False] decimal_digit [of "n mod 10"] False by (simp add: to_dec.simps [of n])
  qed
qed

lemma to_dec_length: "n < 10 ^ Suc k \<Longrightarrow> length (to_dec n) \<le> Suc k"
proof (induction k arbitrary: n)
  case 0
  then show ?case by (simp add: to_dec.simps [of n])
next
  case (Suc k)
  then have "n div 10 < 10 ^ Suc k" by (simp add: less_mult_imp_div_less)
  then show ?case using Suc.IH [of "n div 10"] by (simp add: to_dec.simps [of n])
qed

end
