(* ===== verification/BossFields.thy ===== *)
theory BossFields
  imports CryptoCommon
begin

text \<open>
  Binders as lists of fields: what \<open>UBinder::of\<close> with many pairs holds, how long its packed form can be, and that a
  packed binder of plain fields is read back as it was written.
\<close>

section \<open>What \<open>of\<close> holds\<close>

lemma insert_absent_get: "binder_get (insert_absent kvs b) k =
    (if k \<in> set (map fst b) then binder_get b k else binder_get kvs k)"
proof (induction kvs b rule: insert_absent.induct)
  case (2 k' v kvs b)
  show ?case
  proof (cases "k' \<in> set (map fst b)")
    case True
    then show ?thesis using 2 by (auto simp del: set_map)
  next
    case False
    then show ?thesis using 2 by (auto simp: set_keys_binder_set binder_get_set_same binder_get_set_other simp del: set_map)
  qed
next
  case (1 b)
  then show ?case by (simp add: binder_get_notin)
qed

lemma binder_get_of: "binder_get (binder_of kvs) k = (case map_of kvs k of None \<Rightarrow> UNull | Some v \<Rightarrow> v)"
  by (induction kvs rule: binder_of.induct) (auto simp: insert_absent_get binder_of1_def)

lemma set_binder_set: "set (binder_set k v b) \<subseteq> insert (k, v) (set b)"
proof (induction b)
  case (Cons p b)
  obtain k' v' where p: "p = (k', v')" by (cases p)
  have "set (binder_set k v (p # b)) \<subseteq> insert (k, v) (insert p (set (binder_set k v b) \<union> set b))" unfolding p by auto
  with Cons show ?case by auto
qed simp

lemma set_insert_absent: "set (insert_absent kvs b) \<subseteq> set kvs \<union> set b"
proof (induction kvs b rule: insert_absent.induct)
  case (2 k v kvs b)
  then show ?case using set_binder_set [of k v b] by (auto split: if_splits)
qed simp

lemma set_binder_of: "set (binder_of kvs) \<subseteq> set kvs"
proof (induction kvs rule: binder_of.induct)
  case (2 k v kvs)
  then show ?case using set_insert_absent [of "binder_of kvs" "binder_of1 k v"] by (auto simp: binder_of1_def)
qed simp

section \<open>Lengths\<close>

lemma writeHeader_bound: "writeHeader c v w = Inr w' \<Longrightarrow> length (wr_buf w') \<le> length (wr_buf w) + 19"
  using length_header_bytes_le [of c v] by (auto simp: writeHeader_def push_bytes_def split: if_splits)

lemma tryWriteRef_bound:
  assumes "tryWriteRef key w = Inr (done, w')"
  shows "length (wr_buf w') \<le> length (wr_buf w) + 19" "\<not> done \<Longrightarrow> wr_buf w' = wr_buf w"
proof -
  have *: "length (wr_buf w1) \<le> length (wr_buf w) + 19" if "writeHeader TYPE_CREF i w = Inr w1" for i w1
    by (rule writeHeader_bound [OF that])
  show "length (wr_buf w') \<le> length (wr_buf w) + 19" "\<not> done \<Longrightarrow> wr_buf w' = wr_buf w"
    using assms by (auto simp: tryWriteRef_def res_bind_eq_Inr split: option.splits intro: *)
qed

lemma bind_pair:
  assumes "res_bind m (\<lambda>(d, w). f d w) = Inr x"
  obtains d w where "m = Inr (d, w)" "f d w = Inr x"
  using assms by (cases m) auto

lemma put_flat_bound:
  assumes "put_flat ct c b w = Inr w'"
  shows "length (wr_buf w') \<le> length (wr_buf w) + 19 + length b"
proof -
  obtain d w1 where t: "tryWriteFlat ct b w = Inr (d, w1)"
    "(if d then Inr w1 else res_bind (writeHeader c (of_nat (length b)) w1) (\<lambda>w. Inr (push_bytes b w))) = Inr w'"
    using assms unfolding put_flat_def by (rule bind_pair)
  have l: "length (wr_buf w1) \<le> length (wr_buf w) + 19 \<and> (\<not> d \<longrightarrow> wr_buf w1 = wr_buf w)"
  proof (cases "skips_cache w")
    case False
    then have "tryWriteRef (ct, b) w = Inr (d, w1)" using t(1) by (simp add: tryWriteFlat_def)
    then show ?thesis using tryWriteRef_bound by blast
  qed (use t(1) in \<open>simp add: tryWriteFlat_def\<close>)
  show ?thesis
  proof (cases d)
    case False
    then obtain w2 where w2: "writeHeader c (of_nat (length b)) w1 = Inr w2" "w' = push_bytes b w2"
      using t(2) by (auto simp: res_bind_eq_Inr)
    then show ?thesis using writeHeader_bound [OF w2(1)] l False by (simp add: push_bytes_def)
  qed (use t(2) l in simp)
qed

lemma container_split:
  fixes X :: "boss_error + writer"
  assumes "res_bind (if skips_cache w then Inr (False, w) else res_bind X (\<lambda>aw. tryWriteRef (ct, stream_key aw) w))
      (\<lambda>(done, w1). if done then Inr w1 else res_bind (writeHeader c n w1) F) = Inr w'"
  obtains (ref) "length (wr_buf w') \<le> length (wr_buf w) + 19"
  | (items) w1 w2 where
      "(if skips_cache w then Inr (False, w) else res_bind X (\<lambda>aw. tryWriteRef (ct, stream_key aw) w)) = Inr (False, w1)"
      "writeHeader c n w1 = Inr w2" "F w2 = Inr w'" "length (wr_buf w2) \<le> length (wr_buf w) + 19"
proof -
  obtain d w1 where t: "(if skips_cache w then Inr (False, w) else res_bind X (\<lambda>aw. tryWriteRef (ct, stream_key aw) w)) = Inr (d, w1)"
    "(if d then Inr w1 else res_bind (writeHeader c n w1) F) = Inr w'"
    using assms(1) by (rule bind_pair)
  have l: "length (wr_buf w1) \<le> length (wr_buf w) + 19 \<and> (\<not> d \<longrightarrow> wr_buf w1 = wr_buf w)"
  proof (cases "skips_cache w")
    case False
    then obtain aw :: writer where "tryWriteRef (ct, stream_key aw) w = Inr (d, w1)" using t(1) by (auto simp: res_bind_eq_Inr)
    then show ?thesis using tryWriteRef_bound by blast
  qed (use t(1) in simp)
  show thesis
  proof (cases d)
    case True
    then show thesis using t(2) l by (intro ref) simp
  next
    case False
    then obtain w2 where w2: "writeHeader c n w1 = Inr w2" "F w2 = Inr w'" using t(2) by (auto simp: res_bind_eq_Inr)
    then show thesis using items [OF _ w2] writeHeader_bound [OF w2(1)] t(1) l False by simp
  qed
qed

lemma put_double_bound: "put_double d w = Inr w' \<Longrightarrow> length (wr_buf w') \<le> length (wr_buf w) + 29"
proof -
  have e: "length (emit_le n v) = n" for n v by (induction n arbitrary: v) auto
  assume "put_double d w = Inr w'"
  then show ?thesis
    by (auto simp: put_double_def res_bind_eq_Inr push_bytes_def e header_small split: if_splits)
qed

lemma put_bound:
  "put u w = Inr w' \<Longrightarrow> length (wr_buf w') \<le> length (wr_buf w) + weight u"
  "put_list us w = Inr w1' \<Longrightarrow> length (wr_buf w1') \<le> length (wr_buf w) + sum_list (map weight us)"
  "put_pairs b w = Inr w2' \<Longrightarrow> length (wr_buf w2') \<le> length (wr_buf w) + sum_list (map (\<lambda>p. 19 + length (fst p) + weight (snd p)) b)"
proof (induction u w and us w and b w arbitrary: w' and w1' and w2' rule: put_put_list_put_pairs.induct)
  case (1 w)
  then show ?case by (auto simp: header_small)
next
  case (2 i w)
  then show ?case by (auto simp: header_small split: if_splits)
next
  case (3 d w)
  then show ?case using put_double_bound [of d w w'] by simp
next
  case (4 b w)
  then show ?case by (auto simp: header_small split: if_splits)
next
  case (5 t w)
  obtain w1 where w1: "writeHeader TYPE_EXTRA XT_TIME w = Inr w1" "w' = writeEncoded (t div NANOS) w1"
    using 5 by (auto simp only: put.simps res_bind_eq_Inr sum.inject)
  show ?case using writeHeader_bound [OF w1(1)] length_encode7_le [of "t div NANOS"] by (simp add: w1(2) writeEncoded_def push_bytes_def)
next
  case (6 b w)
  then show ?case using put_flat_bound [of CT_BIN TYPE_BIN b w w'] by simp
next
  case (7 s w)
  then show ?case using put_flat_bound [of CT_TEXT TYPE_TEXT s w w'] by simp
next
  case (8 xs w)
  show ?case
  proof (rule container_split [OF "8.prems" [unfolded put.simps]], goal_cases)
    case (2 w1 w2)
    from 8(2) [OF 2(1) refl _ 2(2,3)] 2(4) show ?case by simp
  qed simp
next
  case (9 b w)
  show ?case
  proof (rule container_split [OF "9.prems" [unfolded put.simps]], goal_cases)
    case (2 w1 w2)
    from 9(2) [OF 2(1) refl _ 2(2,3)] 2(4) show ?case by simp
  qed simp
next
  case (12 x xs w)
  then obtain w1 where w1: "put x w = Inr w1" "put_list xs w1 = Inr w1'" by (auto simp: res_bind_eq_Inr)
  show ?case using 12(1) [OF w1(1)] 12(2) [OF w1] by simp
next
  case (14 k v b w)
  then obtain wa wb where wa: "put (UString k) w = Inr wa" "put v wa = Inr wb" "put_pairs b wb = Inr w2'"
    by (auto simp only: put_pairs.simps res_bind_eq_Inr)
  show ?case using 14(1) [OF wa(1)] 14(2) [OF wa(1,2)] 14(3) [OF wa] by simp
qed simp_all

section \<open>Plain trees\<close>

text \<open>Trees without complex objects that the format stores as they are.\<close>

definition plain_tree :: "key_parser \<Rightarrow> uobj \<Rightarrow> bool" where
  "plain_tree kp u \<longleftrightarrow> uobj_wf kp u \<and> uobj_plain u \<and> canon u = u"

lemma plain_leaf [simp]:
  "plain_tree kp (UInt i)" "plain_tree kp (UBool b)" "plain_tree kp UNull"
  "plain_tree kp (UBytes bs) \<longleftrightarrow> sized bs" "plain_tree kp (UString bs) \<longleftrightarrow> sized bs"
  by (simp_all add: plain_tree_def)

lemma plain_read_back:
  assumes "plain_tree kp u" "weight u < 2 ^ 32"
  shows "\<exists>bs. serialize u = Inr bs \<and> deserialize kp bs = Inr u \<and> length bs \<le> weight u"
proof -
  have p: "uobj_wf kp u" "base_serialize u = u" "canon u = u"
    using assms(1) base_serialize_plain_id by (auto simp: plain_tree_def)
  obtain bs where bs: "serialize u = Inr bs" "length bs < 2 ^ 32 \<longrightarrow> deserialize kp bs = Inr (canon u)"
    using serialize_reads [OF p(1)] by blast
  have "writeObject u (new_writer True) = put u (new_writer True)" unfolding writeObject_def p(2) by (cases u) simp_all
  then obtain w where "put u (new_writer True) = Inr w" "bs = wr_buf w" using bs(1) by (auto simp: serialize_def res_bind_eq_Inr)
  then have "length bs \<le> weight u" using put_bound(1) [of u "new_writer True" w] by (simp add: new_writer_def)
  then show ?thesis using bs assms(2) p(3) by auto
qed

definition field_weight :: "(bytes \<times> uobj) list \<Rightarrow> nat" where
  "field_weight kvs = sum_list (map (\<lambda>p. 19 + length (fst p) + weight (snd p)) kvs)"

lemma field_weight_simps [simp]:
  "field_weight [] = 0" "field_weight ((k, v) # kvs) = 19 + length k + weight v + field_weight kvs"
  by (simp_all add: field_weight_def)

lemma binder_set_size:
  "length (binder_set k v b) \<le> Suc (length b) \<and> field_weight (binder_set k v b) \<le> 19 + length k + weight v + field_weight b"
  by (induction b) auto

lemma insert_absent_size:
  "length (insert_absent kvs b) \<le> length kvs + length b \<and> field_weight (insert_absent kvs b) \<le> field_weight kvs + field_weight b"
proof (induction kvs b rule: insert_absent.induct)
  case (2 k v kvs b)
  then show ?case using binder_set_size [of k v b] by (cases "k \<in> set (map fst b)") auto
qed simp

lemma binder_of_size: "length (binder_of kvs) \<le> length kvs \<and> field_weight (binder_of kvs) \<le> field_weight kvs"
proof (induction kvs rule: binder_of.induct)
  case (2 k v kvs)
  then show ?case using insert_absent_size [of "binder_of kvs" "binder_of1 k v"] by (auto simp: binder_of1_def)
qed simp

definition fields_ok :: "key_parser \<Rightarrow> (bytes \<times> uobj) list \<Rightarrow> bool" where
  "fields_ok kp kvs \<longleftrightarrow> length kvs < 2 ^ 31 \<and>
     list_all (\<lambda>(k, v). sized k \<and> k \<noteq> k_type \<and> k \<noteq> k_t \<and> plain_tree kp v \<and> short_stream v) kvs"

lemma plain_binder_of: "fields_ok kp kvs \<Longrightarrow> plain_tree kp (UBinder (binder_of kvs))"
proof -
  assume "fields_ok kp kvs"
  then have ok: "length kvs < 2 ^ 31" "\<forall>p \<in> set (binder_of kvs). sized (fst p) \<and> fst p \<noteq> k_type \<and> fst p \<noteq> k_t \<and>
      plain_tree kp (snd p) \<and> short_stream (snd p)"
    using set_binder_of [of kvs] unfolding fields_ok_def list_all_iff case_prod_beta by blast+
  have "length (binder_of kvs) < 2 ^ 31" using ok(1) binder_of_size [of kvs] by simp
  moreover have "map (\<lambda>p. (fst p, canon (snd p))) (binder_of kvs) = binder_of kvs"
  proof (rule map_idI)
    fix p assume "p \<in> set (binder_of kvs)"
    then have "canon (snd p) = snd p" using ok(2) unfolding plain_tree_def by blast
    then show "(fst p, canon (snd p)) = p" by simp
  qed
  moreover have "k_type \<notin> fst ` set (binder_of kvs)" using ok(2) by (metis imageE)
  moreover have "k_t \<notin> fst ` set (binder_of kvs)" using ok(2) by (metis imageE)
  moreover have "\<forall>p \<in> set (binder_of kvs). sized (fst p) \<and> uobj_wf kp (snd p) \<and> short_stream (base_serialize (snd p))"
    using ok(2) base_serialize_plain_id unfolding plain_tree_def by metis
  moreover have "\<forall>p \<in> set (binder_of kvs). sized (fst p) \<and> uobj_plain (snd p) \<and> short_stream (snd p)" using ok(2) unfolding plain_tree_def by blast
  ultimately show ?thesis using binder_of_sorted [of kvs] unfolding plain_tree_def by simp
qed

lemma weight_binder_of: "weight (UBinder (binder_of kvs)) \<le> 19 + field_weight kvs"
  using binder_of_size [of kvs] by (simp add: field_weight_def)

lemma fields_read_back:
  assumes "fields_ok kp kvs" "field_weight kvs < 2 ^ 31"
  shows "\<exists>bs. serialize (UBinder (binder_of kvs)) = Inr bs \<and> deserialize kp bs = Inr (UBinder (binder_of kvs)) \<and>
    length bs \<le> 19 + field_weight kvs"
proof -
  have "weight (UBinder (binder_of kvs)) < 2 ^ 32" using weight_binder_of [of kvs] assms(2) by simp
  from plain_read_back [OF plain_binder_of [OF assms(1)] this] show ?thesis using weight_binder_of [of kvs] by force
qed

end
