(* ===== verification/HttpExchange.thy ===== *)
theory HttpExchange
  imports HttpSecure BossFields
begin

text \<open>
  A client that starts a session with an honest server: every message is read as it was written, both ends have the same
  key and version at the end, and commands and answers pass unchanged.
\<close>

section \<open>Session numbers\<close>

lemma to_string_length: "0 \<le> i \<Longrightarrow> i \<le> LONG_MAX \<Longrightarrow> length (to_string i) \<le> 19"
  using to_dec_length [of "nat i" 18] by (simp add: to_string_def LONG_MAX_def)

lemma stol_to_string: "0 \<le> i \<Longrightarrow> i \<le> LONG_MAX \<Longrightarrow> stol (to_string i) = Inr i"
proof -
  assume i: "0 \<le> i" "i \<le> LONG_MAX"
  let ?d = "to_dec (nat i)"
  have d: "list_all isdigit ?d" "?d \<noteq> []" "foldl (\<lambda>n d. 10 * n + (uint d - 48)) 0 ?d = i"
    using to_dec_digits [of "nat i"] i by simp_all
  have h: "isdigit (hd ?d)" using d(1,2) by (cases ?d) simp_all
  have "dropWhile isspace ?d = ?d" using isdigit_not_space [OF h] d(2) by (cases ?d) simp_all
  moreover have "takeWhile isdigit ?d = ?d" using d(1) by (simp add: list_all_iff takeWhile_eq_all_conv)
  moreover have "hd ?d \<noteq> 45" "hd ?d \<noteq> 43" using h by (auto simp: isdigit_def)
  ultimately show ?thesis using d(2,3) i by (simp add: stol_def to_string_def Let_def LONG_MAX_def del: takeWhile_eq_all_conv)
qed

lemma session_number: "0 \<le> i \<Longrightarrow> i \<le> LONG_MAX \<Longrightarrow> sint (of_int i :: u64) = i"
  by (simp add: LONG_MAX_def signed_of_int signed_take_bit_int_eq_self)

section \<open>Messages are read as they were written\<close>

declare binder_of.simps [simp del]

lemma write_read:
  assumes "fields_ok (he_parser E) kvs" "field_weight kvs < 2 ^ 31"
  shows "\<exists>bs. write_binder kvs = Inr bs \<and> read_binder E bs = Inr (binder_of kvs) \<and> length bs \<le> 19 + field_weight kvs"
  using fields_read_back [OF assms] by (auto simp: write_binder_def read_binder_def binder_asInstance_def)

lemma extract_request: "read_binder E req = Inr b \<Longrightarrow> extractParams E [cstr ''requestData'' \<mapsto> req] = Inr b"
  by (simp add: extractParams_def param_def)

text \<open>Keys that work: a pair whose private key signs every message, and one whose public key encrypts the token.\<close>

definition signer :: "http_env \<Rightarrow> prng \<Rightarrow> rsa_key \<Rightarrow> public_key \<Rightarrow> bool" where
  "signer E rnd k pub \<longleftrightarrow> rsa_lib_ok (he_rsa E) k pub \<and> pk_N pub = rk_N k \<and>
     (\<forall>data. signs_body (he_ltc E) (he_rsa E) rnd k SHA512 data)"

definition recipient :: "http_env \<Rightarrow> prng \<Rightarrow> rsa_key \<Rightarrow> public_key \<Rightarrow> bool" where
  "recipient E rnd k pub \<longleftrightarrow> rsa_lib_ok (he_rsa E) k pub \<and> encrypts_short (he_rsa E) rnd pub"

lemma http_signs:
  assumes "signer E rnd k pub"
  shows "\<exists>sig. sign (he_ltc E) (he_rsa E) junk rnd k data SHA512 = Inr sig \<and> length sig < 65536 \<and>
    verify (he_ltc E) (he_rsa E) pub sig data SHA512"
  using signs_verifies [of "he_rsa E" k pub "he_ltc E" rnd SHA512 data junk] assms unfolding signer_def by blast

lemma http_encrypts:
  assumes "recipient E rnd k pub" "length m \<le> 128"
  shows "\<exists>c. rsa_encrypt (he_rsa E) junk rnd pub m = Inr c \<and> length c < 65536 \<and> rsa_decrypt (he_rsa E) k c = Inr m"
  using encrypts_decrypts [OF _ _ assms(2)] assms(1) by (auto simp: recipient_def)

definition response_of :: "(bytes \<times> uobj) list \<Rightarrow> ubinder" where
  "response_of kvs = binder_of [(cstr ''result'', UString (cstr ''ok'')), (cstr ''response'', UBinder (binder_of kvs))]"

lemma response_get [simp]: "getBinder (response_of kvs) (cstr ''response'') = Inr (binder_of kvs)"
  by (simp add: response_of_def getBinder_def binder_get_of)

lemma ok_answer_read:
  assumes "fields_ok (he_parser E) kvs" "field_weight kvs < 2 ^ 30"
  shows "\<exists>body. ok_answer kvs = Inr (200, body) \<and> read_binder E body = Inr (response_of kvs) \<and> length body < 2 ^ 31"
proof -
  let ?r = "[(cstr ''result'', UString (cstr ''ok'')), (cstr ''response'', UBinder (binder_of kvs))]"
  have "short_stream (UBinder (binder_of kvs))" using weight_binder_of [of kvs] assms(2) by (intro short_streamI) simp
  then have "fields_ok (he_parser E) ?r" using plain_binder_of [OF assms(1)] by (simp add: fields_ok_def sized_def k_type_def k_t_def)
  moreover have "field_weight ?r \<le> 100 + field_weight kvs" using weight_binder_of [of kvs] by simp
  ultimately show ?thesis using write_read [of E ?r] assms(2) by (fastforce simp: ok_answer_def response_of_def)
qed

section \<open>An honest exchange\<close>

definition holds :: "http_server \<Rightarrow> nat \<Rightarrow> http_session \<Rightarrow> bool" where
  "holds sv r s \<longleftrightarrow> r < length (sv_store sv) \<and> sv_byId sv (hs_sessionId s) = Some r \<and> http_session_at sv r = s"

definition session_key_of :: "http_env \<Rightarrow> public_key \<Rightarrow> bytes" where
  "session_key_of E key = base64_encode (he_junk3 E) (fingerprint (he_ltc E) (he_gmp E) (he_stack E) key)"

lemma holds_set_session: "holds sv r s \<Longrightarrow> hs_sessionId s' = hs_sessionId s \<Longrightarrow> holds (set_session r s' sv) r s'"
  by (simp add: holds_def set_session_def http_session_at_def)

lemma getSession_new:
  assumes "sv_byKeyAndVersion sv 3 (session_key_of E pub) = None"
  obtains sv' where "getSessionByKey E pub 3 sv = Inr (length (sv_store sv), sv')" "sv_myKey sv' = sv_myKey sv"
    "holds sv' (length (sv_store sv)) \<lparr>hs_publicKey = pub, hs_sessionKey = None, hs_serverNonce = [], hs_encryptedAnswer = [],
       hs_sessionId = sv_nextSessionId sv, hs_version = 3\<rparr>"
  using assms that
  by (simp add: getSessionByKey_def session_key_of_def [symmetric] SERVER_VERSION_def add_session_def Let_def register_def holds_def http_session_at_def)

lemma connect_new:
  assumes "read_binder E req = Inr b" "binder_get b (cstr ''client_version'') = UInt 3" "binder_get b (cstr ''client_key'') = UBytes packed"
    "unpack_public (he_gmp E) (he_stack E) (he_parser E) packed = Inr pub"
    "sv_byKeyAndVersion sv 3 (session_key_of E pub) = None" "length (hr_nonce rnd) = 48"
    "0 \<le> sv_nextSessionId sv" "sv_nextSessionId sv \<le> LONG_MAX"
  obtains body sv' where "connect E rnd [cstr ''requestData'' \<mapsto> req] sv = Inr ((200, body), sv')" "sv_myKey sv' = sv_myKey sv"
    "read_binder E body = Inr (response_of [(cstr ''server_nonce'', UBytes (hr_nonce rnd)), (cstr ''server_version'', UInt 3),
      (cstr ''session_id'', UString (to_string (sv_nextSessionId sv)))])"
    "holds sv' (length (sv_store sv)) \<lparr>hs_publicKey = pub, hs_sessionKey = None, hs_serverNonce = hr_nonce rnd, hs_encryptedAnswer = [],
       hs_sessionId = sv_nextSessionId sv, hs_version = 3\<rparr>"
proof -
  let ?r = "length (sv_store sv)" and ?id = "sv_nextSessionId sv"
  let ?s = "\<lparr>hs_publicKey = pub, hs_sessionKey = None, hs_serverNonce = [], hs_encryptedAnswer = [], hs_sessionId = ?id, hs_version = 3\<rparr>"
  let ?kvs = "[(cstr ''server_nonce'', UBytes (hr_nonce rnd)), (cstr ''server_version'', UInt 3),
      (cstr ''session_id'', UString (to_string ?id))]"
  obtain sv1 where g: "getSessionByKey E pub 3 sv = Inr (?r, sv1)" "sv_myKey sv1 = sv_myKey sv" "holds sv1 ?r ?s"
    by (rule getSession_new [OF assms(5)])
  have c: "connect_session E [cstr ''requestData'' \<mapsto> req] sv = Inr (?r, sv1)"
    using extract_request [OF assms(1)] assms(2-4) g(1) by (simp add: connect_session_def getIntOrDefault_def bytes_field_def bytes_asInstance_def to_int_def)
  have l: "length (to_string ?id) \<le> 19" using to_string_length assms(7,8) by blast
  have "fields_ok (he_parser E) ?kvs" using l assms(6) by (simp add: fields_ok_def sized_def k_type_def k_t_def)
  moreover have "field_weight ?kvs < 2 ^ 30" using l assms(6) by simp
  ultimately obtain body where body: "ok_answer ?kvs = Inr (200, body)" "read_binder E body = Inr (response_of ?kvs)"
    using ok_answer_read by blast
  have nn: "hr_nonce rnd \<noteq> []" using assms(6) by auto
  show thesis
  proof (rule that [OF _ _ body(2)])
    let ?sv = "set_session ?r (?s\<lparr>hs_serverNonce := hr_nonce rnd\<rparr>) sv1"
    show "connect E rnd [cstr ''requestData'' \<mapsto> req] sv = Inr ((200, body), ?sv)"
      using c g(3) body(1) by (simp add: connect_def holds_def Let_def catch_answer_def SERVER_VERSION_def)
    show "sv_myKey ?sv = sv_myKey sv" using g(2) by (simp add: set_session_def)
    show "holds ?sv ?r \<lparr>hs_publicKey = pub, hs_sessionKey = None, hs_serverNonce = hr_nonce rnd, hs_encryptedAnswer = [],
       hs_sessionId = ?id, hs_version = 3\<rparr>" using holds_set_session [OF g(3)] by simp
  qed
qed

lemma issue_key_new:
  assumes "hs_sessionKey s = None" "recipient E (hr_encrypt rnd) clientKey (hs_publicKey s)" "length (hr_key rnd) = 32"
  obtains enc data where "issue_key E rnd s = Inr (s\<lparr>hs_sessionKey := Some (hr_key rnd), hs_encryptedAnswer := enc\<rparr>)"
    "rsa_decrypt (he_rsa E) clientKey enc = Inr data" "read_binder E data = Inr (binder_of [(cstr ''sk'', UBytes (hr_key rnd))])"
    "length enc < 65536"
proof -
  let ?kvs = "[(cstr ''sk'', UBytes (hr_key rnd))]"
  have "fields_ok (he_parser E) ?kvs" using assms(3) by (simp add: fields_ok_def sized_def k_type_def k_t_def)
  moreover have w: "field_weight ?kvs = 72" using assms(3) by simp
  moreover have "field_weight ?kvs < 2 ^ 31" unfolding w by simp
  ultimately obtain data where d: "write_binder ?kvs = Inr data" "read_binder E data = Inr (binder_of ?kvs)" "length data \<le> 19 + field_weight ?kvs"
    using write_read by blast
  have "length data \<le> 128" using d(3) unfolding w by simp
  from http_encrypts [OF assms(2) this, of "he_junk E"] obtain enc where
    e: "rsa_encrypt (he_rsa E) (he_junk E) (hr_encrypt rnd) (hs_publicKey s) data = Inr enc" "length enc < 65536"
      "rsa_decrypt (he_rsa E) clientKey enc = Inr data" by blast
  show thesis by (rule that [OF _ e(3) d(2) e(2)]) (use assms(1) d(1) e(1) in \<open>simp add: issue_key_def\<close>)
qed

lemma token_answer_read:
  assumes "signer E (hr_sign rnd) myKey nodeKey" "length clientNonce = 47" "length enc < 65536"
  obtains body packed sig where "token_answer E rnd myKey clientNonce enc = Inr (200, body)"
    "read_binder E body = Inr (response_of [(cstr ''data'', UBytes packed), (cstr ''signature'', UBytes sig)])"
    "verify (he_ltc E) (he_rsa E) nodeKey sig packed SHA512"
    "read_binder E packed = Inr (binder_of [(cstr ''client_nonce'', UBytes clientNonce), (cstr ''encrypted_token'', UBytes enc)])"
proof -
  let ?kvs = "[(cstr ''client_nonce'', UBytes clientNonce), (cstr ''encrypted_token'', UBytes enc)]"
  have "fields_ok (he_parser E) ?kvs" using assms(2,3) by (simp add: fields_ok_def sized_def k_type_def k_t_def)
  moreover have w: "field_weight ?kvs < 2 ^ 18" using assms(2,3) by simp
  moreover have "field_weight ?kvs < 2 ^ 31" using w by simp
  ultimately obtain packed where d: "write_binder ?kvs = Inr packed" "read_binder E packed = Inr (binder_of ?kvs)"
      "length packed \<le> 19 + field_weight ?kvs" using write_read by blast
  obtain sig where sg: "sign (he_ltc E) (he_rsa E) (he_junk E) (hr_sign rnd) myKey packed SHA512 = Inr sig" "length sig < 65536"
    "verify (he_ltc E) (he_rsa E) nodeKey sig packed SHA512" using http_signs [OF assms(1)] by blast
  let ?ans = "[(cstr ''data'', UBytes packed), (cstr ''signature'', UBytes sig)]"
  have l: "length packed < 2 ^ 19" using d(3) w by simp
  then have "fields_ok (he_parser E) ?ans" using sg(2) by (simp add: fields_ok_def sized_def k_type_def k_t_def)
  moreover have "field_weight ?ans < 2 ^ 30" using l sg(2) by simp
  ultimately obtain body where b: "ok_answer ?ans = Inr (200, body)" "read_binder E body = Inr (response_of ?ans)" using ok_answer_read by blast
  show thesis by (rule that [OF _ b(2) sg(3) d(2)]) (use d(1) sg(1) b(1) in \<open>simp add: token_answer_def\<close>)
qed

lemma get_token_new:
  assumes "holds sv r s" "hs_sessionKey s = None" "hs_version s = 3" "recipient E (hr_encrypt rnd) clientKey (hs_publicKey s)"
    "signer E (hr_sign rnd) (sv_myKey sv) nodeKey" "length (hr_key rnd) = 32" "length clientNonce = 47"
    "0 \<le> hs_sessionId s" "hs_sessionId s \<le> LONG_MAX"
    "read_binder E req = Inr b" "binder_get b (cstr ''session_id'') = UInt (of_int (hs_sessionId s))"
    "binder_get b (cstr ''data'') = UBytes data" "binder_get b (cstr ''signature'') = UBytes sig"
    "verify (he_ltc E) (he_rsa E) (hs_publicKey s) sig data SHA512"
    "read_binder E data = Inr params" "binder_get params (cstr ''server_nonce'') = UBytes (hs_serverNonce s)"
    "binder_get params (cstr ''client_nonce'') = UBytes clientNonce" "binder_get params (cstr ''client_version'') = UInt 3"
  obtains body sv' enc packed nodeSig token where
    "get_token E rnd [cstr ''requestData'' \<mapsto> req] sv = Inr ((200, body), sv')"
    "holds sv' r (s\<lparr>hs_sessionKey := Some (hr_key rnd), hs_encryptedAnswer := enc\<rparr>)"
    "read_binder E body = Inr (response_of [(cstr ''data'', UBytes packed), (cstr ''signature'', UBytes nodeSig)])"
    "verify (he_ltc E) (he_rsa E) nodeKey nodeSig packed SHA512"
    "read_binder E packed = Inr (binder_of [(cstr ''client_nonce'', UBytes clientNonce), (cstr ''encrypted_token'', UBytes enc)])"
    "rsa_decrypt (he_rsa E) clientKey enc = Inr token" "read_binder E token = Inr (binder_of [(cstr ''sk'', UBytes (hr_key rnd))])"
proof -
  have id: "sint (of_int (hs_sessionId s) :: u64) = hs_sessionId s"
    using assms(8,9) by (simp add: LONG_MAX_def signed_of_int signed_take_bit_int_eq_self)
  have p: "token_request_parts E [cstr ''requestData'' \<mapsto> req] sv = Inr (r, data, sig)"
    using extract_request [OF assms(10)] assms(1,11-13) id
    by (simp add: token_request_parts_def int_asInstance_def getSessionById_def bytes_field_def bytes_asInstance_def holds_def)
  have q: "signed_parts E data = Inr (hs_serverNonce s, clientNonce, 3)"
    using assms(15-18) by (simp add: signed_parts_def bytes_field_def bytes_asInstance_def getIntOrDefault_def to_int_def)
  have s: "http_session_at sv r = s" "s\<lparr>hs_version := min 3 SERVER_VERSION\<rparr> = s" using assms(1,3) by (simp_all add: holds_def SERVER_VERSION_def)
  obtain enc token where k: "issue_key E rnd s = Inr (s\<lparr>hs_sessionKey := Some (hr_key rnd), hs_encryptedAnswer := enc\<rparr>)"
    "rsa_decrypt (he_rsa E) clientKey enc = Inr token" "read_binder E token = Inr (binder_of [(cstr ''sk'', UBytes (hr_key rnd))])"
    "length enc < 65536" by (rule issue_key_new [OF assms(2,4,6)])
  obtain body packed nodeSig where t: "token_answer E rnd (sv_myKey sv) clientNonce enc = Inr (200, body)"
    "read_binder E body = Inr (response_of [(cstr ''data'', UBytes packed), (cstr ''signature'', UBytes nodeSig)])"
    "verify (he_ltc E) (he_rsa E) nodeKey nodeSig packed SHA512"
    "read_binder E packed = Inr (binder_of [(cstr ''client_nonce'', UBytes clientNonce), (cstr ''encrypted_token'', UBytes enc)])"
    by (rule token_answer_read [OF assms(5,7) k(4)])
  let ?s = "s\<lparr>hs_sessionKey := Some (hr_key rnd), hs_encryptedAnswer := enc\<rparr>" and ?sv = "set_session r s sv"
  show thesis
  proof (rule that [OF _ _ t(2-4) k(2,3)])
    show "holds (set_session r ?s ?sv) r ?s" by (rule holds_set_session [OF holds_set_session [OF assms(1)]]) simp_all
    have m: "sv_myKey (set_session r ?s ?sv) = sv_myKey sv" by (simp add: set_session_def)
    show "get_token E rnd [cstr ''requestData'' \<mapsto> req] sv = Inr ((200, body), set_session r ?s ?sv)"
      unfolding get_token_def p sum.case prod.case Let_def s(1) using assms(14) q k(1) t(1) m s(2)
      by (simp add: catch_answer_def)
  qed
qed

section \<open>The client of an honest server\<close>

lemma on_connect_ok:
  assumes "read_binder E body = Inr (response_of [(cstr ''server_nonce'', UBytes nonce), (cstr ''server_version'', UInt 3),
      (cstr ''session_id'', UString (to_string i))])" "0 \<le> i" "i \<le> LONG_MAX"
  shows "on_connect E body cs = (None, cs\<lparr>cs_sessionId := of_int i, cs_version := 3\<rparr>, nonce, 3)"
  using assms response_get [of "[(cstr ''server_nonce'', UBytes nonce), (cstr ''server_version'', UInt 3),
      (cstr ''session_id'', UString (to_string i))]"] stol_to_string [of i]
  by (simp add: on_connect_def getString_def binder_get_of bytes_field_def bytes_asInstance_def getIntOrDefault_def to_int_def CLIENT_VERSION_def)

lemma token_request_ok:
  assumes "signer E (hr_sign rnd) (cs_clientPrivateKey cs) pub" "length (hr_nonce rnd) = 47" "length nonce = 48"
  obtains req b data sig params where "token_request E rnd cs nonce 3 = Inr req" "read_binder E req = Inr b"
    "binder_get b (cstr ''session_id'') = UInt (cs_sessionId cs)" "binder_get b (cstr ''data'') = UBytes data"
    "binder_get b (cstr ''signature'') = UBytes sig" "verify (he_ltc E) (he_rsa E) pub sig data SHA512"
    "read_binder E data = Inr params" "binder_get params (cstr ''server_nonce'') = UBytes nonce"
    "binder_get params (cstr ''client_nonce'') = UBytes (hr_nonce rnd)" "binder_get params (cstr ''client_version'') = UInt 3"
proof -
  let ?p = "[(cstr ''client_nonce'', UBytes (hr_nonce rnd)), (cstr ''server_nonce'', UBytes nonce),
    (cstr ''server_version'', UInt 3), (cstr ''client_version'', UInt 3)]"
  have "fields_ok (he_parser E) ?p" using assms(2,3) by (simp add: fields_ok_def sized_def k_type_def k_t_def)
  moreover have w: "field_weight ?p < 2 ^ 10" using assms(2,3) by simp
  moreover have "field_weight ?p < 2 ^ 31" using w by simp
  ultimately obtain data where d: "write_binder ?p = Inr data" "read_binder E data = Inr (binder_of ?p)" "length data \<le> 19 + field_weight ?p"
    using write_read by blast
  obtain sig where sg: "sign (he_ltc E) (he_rsa E) (he_junk E) (hr_sign rnd) (cs_clientPrivateKey cs) data SHA512 = Inr sig"
    "length sig < 65536" "verify (he_ltc E) (he_rsa E) pub sig data SHA512" using http_signs [OF assms(1)] by blast
  let ?b = "[(cstr ''signature'', UBytes sig), (cstr ''data'', UBytes data), (cstr ''session_id'', UInt (cs_sessionId cs))]"
  have l: "length data < 2 ^ 11" using d(3) w by simp
  then have "fields_ok (he_parser E) ?b" using sg(2) by (simp add: fields_ok_def sized_def k_type_def k_t_def)
  moreover have "field_weight ?b < 2 ^ 31" using l sg(2) by simp
  ultimately obtain req where r: "write_binder ?b = Inr req" "read_binder E req = Inr (binder_of ?b)" using write_read by blast
  show thesis
    by (rule that [OF _ r(2) _ _ _ sg(3) d(2)]) (use d(1) sg(1) r(1) in \<open>simp_all add: token_request_def binder_get_of CLIENT_VERSION_def\<close>)
qed

lemma connect_request_ok:
  assumes "public_ok (he_gmp E) (public_of_private (he_gmp E) (he_stack E) clientKey)"
    "pack_public (he_gmp E) (he_stack E) (public_of_private (he_gmp E) (he_stack E) clientKey) = Inr packed" "length packed < 65536"
  obtains req b where "connect_request E clientKey = Inr req" "read_binder E req = Inr b"
    "binder_get b (cstr ''client_version'') = UInt 3" "binder_get b (cstr ''client_key'') = UBytes packed"
    "unpack_public (he_gmp E) (he_stack E) (he_parser E) packed = Inr (public_of_private (he_gmp E) (he_stack E) clientKey)"
proof -
  let ?b = "[(cstr ''client_key'', UBytes packed), (cstr ''client_version'', UInt 3)]"
  have "fields_ok (he_parser E) ?b" using assms(3) by (simp add: fields_ok_def sized_def k_type_def k_t_def)
  moreover have "field_weight ?b < 2 ^ 31" using assms(3) by simp
  ultimately obtain req where r: "write_binder ?b = Inr req" "read_binder E req = Inr (binder_of ?b)" using write_read by blast
  have u: "unpack_public (he_gmp E) (he_stack E) (he_parser E) packed = Inr (public_of_private (he_gmp E) (he_stack E) clientKey)"
    by (rule pub.unpack_packed [OF assms(1,2)]) (use assms(3) in simp)
  show thesis by (rule that [OF _ r(2) _ _ u]) (use assms(2) r(1) in \<open>simp_all add: connect_request_def binder_get_of CLIENT_VERSION_def\<close>)
qed

lemma accept_token_ok:
  assumes "read_binder E body = Inr (response_of [(cstr ''data'', UBytes packed), (cstr ''signature'', UBytes sig)])"
    "verify (he_ltc E) (he_rsa E) (cs_nodePublicKey cs) sig packed SHA512"
    "read_binder E packed = Inr (binder_of [(cstr ''client_nonce'', UBytes nonce), (cstr ''encrypted_token'', UBytes enc)])"
    "rsa_decrypt (he_rsa E) (cs_clientPrivateKey cs) enc = Inr token" "read_binder E token = Inr (binder_of [(cstr ''sk'', UBytes key)])"
  shows "on_token E body = Inr (packed, sig)" "accept_token E cs nonce packed sig = Inr (cs\<lparr>cs_sessionKey := Some key\<rparr>)"
  using assms response_get [of "[(cstr ''data'', UBytes packed), (cstr ''signature'', UBytes sig)]"]
  by (simp_all add: on_token_def accept_token_def binder_get_of bytes_field_def bytes_asInstance_def)

section \<open>Commands in a session\<close>

definition same_session :: "client_session \<Rightarrow> http_session \<Rightarrow> bool" where
  "same_session cs s \<longleftrightarrow> cs_sessionKey cs \<noteq> None \<and> cs_sessionKey cs = hs_sessionKey s \<and> cs_version cs = hs_version s \<and>
     cs_sessionId cs = of_int (hs_sessionId s) \<and> 0 \<le> hs_sessionId s \<and> hs_sessionId s \<le> LONG_MAX"

lemma sealed_opens:
  assumes "\<And>k m. length (hmac_sha256 (he_ciphers E) k m) = 32" "length iv = 16" "2 \<le> version"
  obtains d where "session_seal E iv version key m = Inr d" "session_open E version (Some key) d = Inr m" "length d = length m + 48"
proof -
  obtain enc where e: "etaEncrypt (he_ciphers E) key iv m = Inr (iv @ enc @ hmac_sha256 (he_ciphers E) key enc)" "length enc = length m"
    using etaEncrypt_total [of iv "he_ciphers E" key m] assms(2) by (auto simp: blockSize_def)
  have "etaDecrypt (he_ciphers E) key (iv @ enc @ hmac_sha256 (he_ciphers E) key enc) = Inr m"
    by (rule etaDecrypt_etaEncrypt [OF assms(1,2) e(1)])
  then show thesis using that e assms by (simp add: session_seal_def session_open_def)
qed

lemma command_exchange:
  assumes "holds sv r s" "same_session cs s" "2 \<le> hs_version s" "\<And>k m. length (hmac_sha256 (he_ciphers E) k m) = 32"
    "length iv = 16" "length (hr_iv rnd) = 16" "length call < 2 ^ 29" "length (processor r call) < 2 ^ 29"
  obtains req body where "command_request E iv cs call = Inr (Inr req)"
    "command E rnd processor [cstr ''requestData'' \<mapsto> req] sv = Inr ((200, body), sv)"
    "command_reply E cs (200, body) = Inr (processor r call, False)"
proof -
  obtain key where k: "cs_sessionKey cs = Some key" "hs_sessionKey s = Some key" using assms(2) by (auto simp: same_session_def)
  have v: "cs_version cs = hs_version s" using assms(2) by (simp add: same_session_def)
  have id: "sint (cs_sessionId cs) = hs_sessionId s"
    using assms(2) by (simp add: same_session_def LONG_MAX_def signed_of_int signed_take_bit_int_eq_self)
  obtain d where d: "session_seal E iv (hs_version s) key call = Inr d" "session_open E (hs_version s) (Some key) d = Inr call"
    "length d = length call + 48" by (rule sealed_opens [OF assms(4,5,3)])
  let ?b = "[(cstr ''command'', UString (cstr ''command'')), (cstr ''params'', UBytes d), (cstr ''session_id'', UInt (cs_sessionId cs))]"
  have "fields_ok (he_parser E) ?b" using d(3) assms(7) by (simp add: fields_ok_def sized_def k_type_def k_t_def)
  moreover have "field_weight ?b < 2 ^ 31" using d(3) assms(7) by simp
  ultimately obtain req where r: "write_binder ?b = Inr req" "read_binder E req = Inr (binder_of ?b)" using write_read by blast
  obtain a where a: "session_seal E (hr_iv rnd) (hs_version s) key (processor r call) = Inr a"
    "session_open E (hs_version s) (Some key) a = Inr (processor r call)" "length a = length (processor r call) + 48"
    by (rule sealed_opens [OF assms(4,6,3)])
  let ?a = "[(cstr ''result'', UBytes a)]"
  have "fields_ok (he_parser E) ?a" using a(3) assms(8) by (simp add: fields_ok_def sized_def k_type_def k_t_def)
  moreover have "field_weight ?a < 2 ^ 30" using a(3) assms(8) by simp
  ultimately obtain body where b: "ok_answer ?a = Inr (200, body)" "read_binder E body = Inr (response_of ?a)" using ok_answer_read by blast
  have o: "open_command E [cstr ''requestData'' \<mapsto> req] sv = Inr (r, call)"
    using extract_request [OF r(2)] assms(1) k(2) d(2) id
    by (simp add: open_command_def binder_get_of int_asInstance_def getSessionById_def bytes_field_def bytes_asInstance_def holds_def)
  show thesis
  proof (rule that)
    show "command_request E iv cs call = Inr (Inr req)" using k(1) v d(1) r(1) by (simp add: command_request_def)
    have "seal_answer E (hr_iv rnd) (http_session_at sv r) (processor r call) = Inr (200, body)"
      using k(2) a(1) b(1) assms(1) by (simp add: seal_answer_def holds_def)
    then show "command E rnd processor [cstr ''requestData'' \<mapsto> req] sv = Inr ((200, body), sv)"
      unfolding command_def o by (simp add: catch_answer_def)
    show "command_reply E cs (200, body) = Inr (processor r call, False)"
      using b(2) k(1) a(2) v response_get [of ?a]
      by (simp add: command_reply_def open_reply_def binder_get_of bytes_field_def bytes_asInstance_def)
  qed
qed

section \<open>The whole start\<close>

text \<open>
  What an honest start relies on: keys that work, lengths that fit, a source that yields as many bytes as are asked for,
  and a server that does not know the key of the client yet.
\<close>

definition honest :: "http_env \<Rightarrow> http_random \<Rightarrow> (nat \<Rightarrow> http_random) \<Rightarrow> rsa_key \<Rightarrow> public_key \<Rightarrow> bytes \<Rightarrow> http_server \<Rightarrow> bool" where
  "honest E rnd rnds clientKey nodeKey packed sv \<longleftrightarrow>
     (let pub = public_of_private (he_gmp E) (he_stack E) clientKey in
      signer E (hr_sign rnd) clientKey pub \<and> recipient E (hr_encrypt (rnds 1)) clientKey pub \<and>
      signer E (hr_sign (rnds 1)) (sv_myKey sv) nodeKey \<and> public_ok (he_gmp E) pub \<and>
      pack_public (he_gmp E) (he_stack E) pub = Inr packed \<and> length packed < 65536 \<and>
      sv_byKeyAndVersion sv 3 (session_key_of E pub) = None \<and> 0 \<le> sv_nextSessionId sv \<and> sv_nextSessionId sv \<le> LONG_MAX \<and>
      length (hr_nonce rnd) = 47 \<and> length (hr_iv rnd) = 16 \<and>
      (\<forall>i. length (hr_nonce (rnds i)) = 48 \<and> length (hr_key (rnds i)) = 32 \<and> length (hr_iv (rnds i)) = 16))"

text \<open>A processor that answers the command \<open>hello\<close> with the status \<open>OK\<close>.\<close>

definition welcomes :: "http_env \<Rightarrow> bytes \<Rightarrow> bytes \<Rightarrow> bytes \<Rightarrow> bool" where
  "welcomes E hello reply message \<longleftrightarrow> length reply < 2 ^ 29 \<and>
     (\<exists>b res. pack_call (cstr ''hello'') [] = Inr hello \<and> length hello < 2 ^ 29 \<and>
        read_binder E reply = Inr b \<and> getBinder b (cstr ''result'') = Inr res \<and>
        getString res (cstr ''message'') = Inr message \<and> getString res (cstr ''status'') = Inr (cstr ''OK''))"

lemma named_hello:
  assumes "welcomes E hello reply message"
  shows "on_hello E cs (reply, False) = (None, cs\<lparr>cs_connectMessage := message\<rparr>)"
proof -
  obtain b res where h: "read_binder E reply = Inr b" "getBinder b (cstr ''result'') = Inr res"
    "getString res (cstr ''message'') = Inr message" "getString res (cstr ''status'') = Inr (cstr ''OK'')"
    using assms unfolding welcomes_def by blast
  have "named_reply E (reply, False) = Inr (res, False)" unfolding named_reply_def fst_conv h(1) using h(2) by simp
  then show ?thesis unfolding on_hello_def using h(3,4) by simp
qed

lemma start_honest:
  assumes "honest E rnd rnds clientKey nodeKey packed sv" "\<And>k m. length (hmac_sha256 (he_ciphers E) k m) = 32"
    "\<And>r. welcomes E hello (processor r hello) message"
  obtains cs sv' s where "start E rnd (serve E rnds processor) clientKey nodeKey (None, 0, sv) = (None, Some cs, 3, sv')"
    "holds sv' (length (sv_store sv)) s" "same_session cs s" "cs_version cs = 3" "cs_sessionKey cs = Some (hr_key (rnds 1))"
    "hs_publicKey s = public_of_private (he_gmp E) (he_stack E) clientKey" "cs_connectMessage cs = message"
proof -
  let ?pub = "public_of_private (he_gmp E) (he_stack E) clientKey" and ?r = "length (sv_store sv)" and ?id = "sv_nextSessionId sv"
  let ?net = "serve E rnds processor" and ?n = "hr_nonce (rnds 0)" and ?cs0 = "new_client_session clientKey nodeKey"
  have H: "recipient E (hr_encrypt (rnds 1)) clientKey ?pub" "signer E (hr_sign (rnds 1)) (sv_myKey sv) nodeKey" "public_ok (he_gmp E) ?pub"
    "pack_public (he_gmp E) (he_stack E) ?pub = Inr packed" "length packed < 65536"
    "sv_byKeyAndVersion sv 3 (session_key_of E ?pub) = None" "0 \<le> ?id" "?id \<le> LONG_MAX"
    "length (hr_nonce rnd) = 47" "length (hr_iv rnd) = 16"
    "\<And>i. length (hr_nonce (rnds i)) = 48" "\<And>i. length (hr_key (rnds i)) = 32" "\<And>i. length (hr_iv (rnds i)) = 16"
    using assms(1) unfolding honest_def Let_def by blast+
  have S: "signer E (hr_sign rnd) clientKey ?pub" using assms(1) unfolding honest_def Let_def by blast
  obtain req1 b1 where q1: "connect_request E clientKey = Inr req1" "read_binder E req1 = Inr b1"
    "binder_get b1 (cstr ''client_version'') = UInt 3" "binder_get b1 (cstr ''client_key'') = UBytes packed"
    "unpack_public (he_gmp E) (he_stack E) (he_parser E) packed = Inr ?pub" by (rule connect_request_ok [OF H(3-5)])
  let ?s1 = "\<lparr>hs_publicKey = ?pub, hs_sessionKey = None, hs_serverNonce = ?n, hs_encryptedAnswer = [], hs_sessionId = ?id, hs_version = 3\<rparr>"
  obtain body1 sv1 where c1: "connect E (rnds 0) [cstr ''requestData'' \<mapsto> req1] sv = Inr ((200, body1), sv1)" "sv_myKey sv1 = sv_myKey sv"
    "read_binder E body1 = Inr (response_of [(cstr ''server_nonce'', UBytes ?n), (cstr ''server_version'', UInt 3),
      (cstr ''session_id'', UString (to_string ?id))])" "holds sv1 ?r ?s1"
    by (rule connect_new [OF q1(2-5) H(6,11,7,8)])
  let ?cs1 = "?cs0\<lparr>cs_sessionId := of_int ?id, cs_version := 3\<rparr>"
  have priv: "cs_clientPrivateKey ?cs0 = clientKey" "cs_clientPrivateKey ?cs1 = clientKey" "cs_nodePublicKey ?cs1 = nodeKey"
    "cs_sessionId ?cs1 = of_int ?id" by (simp_all add: new_client_session_def)
  have s1: "start_connect E ?net ?cs0 (0, sv) = (None, ?cs1, ?n, 3, 1, sv1)"
    unfolding start_connect_def priv(1) q1(1) using c1(1) on_connect_ok [OF c1(3) H(7,8), of ?cs0] by (simp add: serve_def)
  obtain req2 b2 data sig params where q2: "token_request E rnd ?cs1 ?n 3 = Inr req2" "read_binder E req2 = Inr b2"
    "binder_get b2 (cstr ''session_id'') = UInt (cs_sessionId ?cs1)" "binder_get b2 (cstr ''data'') = UBytes data"
    "binder_get b2 (cstr ''signature'') = UBytes sig" "verify (he_ltc E) (he_rsa E) ?pub sig data SHA512"
    "read_binder E data = Inr params" "binder_get params (cstr ''server_nonce'') = UBytes ?n"
    "binder_get params (cstr ''client_nonce'') = UBytes (hr_nonce rnd)" "binder_get params (cstr ''client_version'') = UInt 3"
    by (rule token_request_ok [of E rnd ?cs1 ?pub ?n]) (use S H(9,11) priv(2) in simp_all)
  have f1: "hs_sessionKey ?s1 = None" "hs_version ?s1 = 3" "hs_publicKey ?s1 = ?pub" "hs_sessionId ?s1 = ?id" "hs_serverNonce ?s1 = ?n" by simp_all
  obtain body2 sv2 enc pkd nodeSig token where c2:
    "get_token E (rnds 1) [cstr ''requestData'' \<mapsto> req2] sv1 = Inr ((200, body2), sv2)"
    "holds sv2 ?r (?s1\<lparr>hs_sessionKey := Some (hr_key (rnds 1)), hs_encryptedAnswer := enc\<rparr>)"
    "read_binder E body2 = Inr (response_of [(cstr ''data'', UBytes pkd), (cstr ''signature'', UBytes nodeSig)])"
    "verify (he_ltc E) (he_rsa E) nodeKey nodeSig pkd SHA512"
    "read_binder E pkd = Inr (binder_of [(cstr ''client_nonce'', UBytes (hr_nonce rnd)), (cstr ''encrypted_token'', UBytes enc)])"
    "rsa_decrypt (he_rsa E) clientKey enc = Inr token" "read_binder E token = Inr (binder_of [(cstr ''sk'', UBytes (hr_key (rnds 1)))])"
    by (rule get_token_new [OF c1(4) f1(1,2), unfolded f1, OF H(1) _ H(12) H(9) H(7,8) q2(2) q2(3) [unfolded priv] q2(4-10)],
      unfold c1(2), rule H(2), rule that; assumption)
  let ?cs2 = "?cs1\<lparr>cs_sessionKey := Some (hr_key (rnds 1))\<rparr>"
  let ?s2 = "?s1\<lparr>hs_sessionKey := Some (hr_key (rnds 1)), hs_encryptedAnswer := enc\<rparr>"
  have v: "verify (he_ltc E) (he_rsa E) (cs_nodePublicKey ?cs1) nodeSig pkd SHA512" unfolding priv(3) by (rule c2(4))
  have d: "rsa_decrypt (he_rsa E) (cs_clientPrivateKey ?cs1) enc = Inr token" unfolding priv(2) by (rule c2(6))
  have s2: "start_token E rnd ?net ?cs1 ?n 3 (1, sv1) = (Inr ?cs2, 2, sv2)"
    unfolding start_token_def q2(1) using c2(1) accept_token_ok [OF c2(3) v c2(5) d c2(7)] by (simp add: serve_def)
  have same: "same_session ?cs2 ?s2" using H(7,8) by (simp add: same_session_def)
  have w: "welcomes E hello (processor ?r hello) message" by (rule assms(3))
  have hl: "pack_call (cstr ''hello'') [] = Inr hello" "length hello < 2 ^ 29" "length (processor ?r hello) < 2 ^ 29"
    using w unfolding welcomes_def by blast+
  obtain req3 body3 where c3: "command_request E (hr_iv rnd) ?cs2 hello = Inr (Inr req3)"
    "command E (rnds 2) processor [cstr ''requestData'' \<mapsto> req3] sv2 = Inr ((200, body3), sv2)"
    "command_reply E ?cs2 (200, body3) = Inr (processor ?r hello, False)"
    by (rule command_exchange [where processor = processor and r = ?r and call = hello and rnd = "rnds 2",
        OF c2(2) same _ assms(2) H(10) H(13) hl(2,3)]) simp_all
  have s3: "start_hello E rnd ?net ?cs2 (2, sv2) = (None, ?cs2\<lparr>cs_connectMessage := message\<rparr>, 3, sv2)"
    unfolding start_hello_def hl(1) using c3 named_hello [OF w, of ?cs2] by (simp add: serve_def)
  show thesis
  proof (rule that [OF _ c2(2)])
    show "start E rnd ?net clientKey nodeKey (None, 0, sv) = (None, Some (?cs2\<lparr>cs_connectMessage := message\<rparr>), 3, sv2)"
      unfolding start_def using s1 s2 s3 by simp
  qed (use same in \<open>simp_all add: same_session_def\<close>)
qed

section \<open>A sample\<close>

definition http_sample :: http_env where
  "http_sample = \<lparr>he_ltc = toy_ltc, he_gmp = toy_gmp, he_rsa = echo_lib, he_ciphers = toy_ciphers, he_parser = no_keys,
     he_stack = (\<lambda>i. 0), he_junk = (\<lambda>i. 0), he_junk3 = [0, 0, 0], he_junk4 = [0, 0, 0, 0], he_what = (\<lambda>e. cstr ''error'')\<rparr>"

definition sample_random :: "nat \<Rightarrow> http_random" where
  "sample_random n = \<lparr>hr_nonce = replicate n 1, hr_key = replicate 32 2, hr_iv = replicate 16 3, hr_encrypt = (\<lambda>n. []), hr_sign = (\<lambda>n. [])\<rparr>"

definition sample_public :: public_key where
  "sample_public = \<lparr>pk_e = 3, pk_N = 33\<rparr>"

definition hello_result :: "(bytes \<times> uobj) list" where
  "hello_result = [(cstr ''message'', UString (cstr ''welcome'')), (cstr ''status'', UString (cstr ''OK''))]"

lemma sample_fields:
  "he_ltc http_sample = toy_ltc" "he_gmp http_sample = toy_gmp" "he_rsa http_sample = echo_lib" "he_ciphers http_sample = toy_ciphers"
  "he_parser http_sample = no_keys" "he_stack http_sample = (\<lambda>i. 0)"
  by (simp_all add: http_sample_def)

lemma sample_pair: "signer http_sample rnd sample_rsa sample_public" "recipient http_sample rnd sample_rsa sample_public"
  by (simp_all add: signer_def recipient_def signs_body_def encrypts_short_def sample_fields rsa_lib_ok_def echo_lib_def failing_lib_def sample_rsa_def sample_public_def min_less_iff_disj)

lemma sample_honest: "honest http_sample (sample_random 47) (\<lambda>i. sample_random 48) sample_rsa sample_public signed_key (new_server sample_rsa 5)"
proof -
  have p: "public_of_private toy_gmp (\<lambda>i. 0) sample_rsa = sample_public" unfolding sample_public_def by (rule pub_of_sample)
  have k: "pack_public toy_gmp (\<lambda>i. 0) sample_public = Inr signed_key" unfolding sample_public_def by (rule pack_sample)
  have "public_ok toy_gmp sample_public" by (simp add: public_ok_def sample_public_def toy_gmp_ok toy_number)
  then show ?thesis using sample_pair p k
    by (simp add: honest_def sample_fields new_server_def sample_random_def signed_key_def LONG_MAX_def)
qed

lemma sample_welcomes:
  obtains hello reply where "welcomes http_sample hello reply (cstr ''welcome'')"
proof -
  have r: "fields_ok no_keys hello_result" "field_weight hello_result = 98"
    by (simp_all add: fields_ok_def hello_result_def sized_def k_type_def k_t_def)
  let ?reply = "[(cstr ''result'', UBinder (binder_of hello_result))]"
  have "short_stream (UBinder (binder_of hello_result))" using weight_binder_of [of hello_result] r(2) by (intro short_streamI) simp
  then have "fields_ok no_keys ?reply" using plain_binder_of [OF r(1)] by (simp add: fields_ok_def sized_def k_type_def k_t_def)
  moreover have l: "field_weight ?reply \<le> 300" using weight_binder_of [of hello_result] r(2) by simp
  ultimately obtain reply where y: "write_binder ?reply = Inr reply" "read_binder http_sample reply = Inr (binder_of ?reply)" "length reply \<le> 319"
    using write_read [of http_sample ?reply] unfolding sample_fields by fastforce
  let ?hello = "[(cstr ''command'', UString (cstr ''hello'')), (cstr ''params'', UBinder [])]"
  have "plain_tree no_keys (UBinder [])" by (simp add: plain_tree_def sized_def)
  moreover have "short_stream (UBinder [])" by (simp add: short_streamI)
  ultimately have "fields_ok no_keys ?hello" by (simp add: fields_ok_def sized_def k_type_def k_t_def)
  then obtain hello where h: "write_binder ?hello = Inr hello" "length hello \<le> 19 + field_weight ?hello"
    using write_read [of http_sample ?hello] unfolding sample_fields by auto
  show thesis
    by (rule that [of hello reply]) (use y h in \<open>simp add: welcomes_def pack_call_def getBinder_def getString_def binder_get_of hello_result_def\<close>)
qed

section \<open>Properties\<close>

text \<open>C20: a client that starts a session with an honest server that does not know its key yet, over a network that delivers,
  succeeds, if LibTomCrypt signs and encrypts with the two keys: the two ends then have the same session number, the same
  version and the same key, which the server has made, and the message of the server is stored.\<close>

theorem secure_start:
  assumes "honest E rnd rnds clientKey nodeKey packed sv" "\<And>k m. length (hmac_sha256 (he_ciphers E) k m) = 32"
    "\<And>r. welcomes E hello (processor r hello) message"
  shows "\<exists>cs sv' s. start E rnd (serve E rnds processor) clientKey nodeKey (None, 0, sv) = (None, Some cs, 3, sv') \<and>
    holds sv' (length (sv_store sv)) s \<and> same_session cs s \<and> cs_version cs = 3 \<and> cs_sessionKey cs = Some (hr_key (rnds 1)) \<and>
    hs_publicKey s = public_of_private (he_gmp E) (he_stack E) clientKey \<and> cs_connectMessage cs = message"
  by (rule start_honest [where processor = processor, OF assms]) blast

theorem secure_start_witness:
  "\<exists>processor cs sv' s. start http_sample (sample_random 47) (serve http_sample (\<lambda>i. sample_random 48) processor) sample_rsa sample_public
      (None, 0, new_server sample_rsa 5) = (None, Some cs, 3, sv') \<and>
    holds sv' 0 s \<and> same_session cs s \<and> cs_version cs = 3 \<and> cs_sessionKey cs = Some (replicate 32 2) \<and>
    hs_publicKey s = sample_public \<and> cs_connectMessage cs = cstr ''welcome''"
proof -
  obtain hello reply where w: "welcomes http_sample hello reply (cstr ''welcome'')" by (rule sample_welcomes)
  have p: "public_of_private (he_gmp http_sample) (he_stack http_sample) sample_rsa = sample_public"
    unfolding sample_fields sample_public_def by (rule pub_of_sample)
  have "length (hmac_sha256 (he_ciphers http_sample) k m) = 32" for k m unfolding sample_fields by (rule toy_hmac_length)
  from secure_start [where processor = "\<lambda>r c. reply", OF sample_honest this w, unfolded p]
  show ?thesis by (intro exI [of _ "\<lambda>r c. reply"]) (simp add: new_server_def sample_random_def)
qed

text \<open>C21: in a session of version 2 or higher, a command below 512 MiB with an answer below 512 MiB reaches the processor of the server as the bytes the client
  passed, and what the processor answers comes back to the client unchanged; the server's state stays.\<close>

theorem command_delivered:
  assumes "holds sv r s" "same_session cs s" "2 \<le> hs_version s" "\<And>k m. length (hmac_sha256 (he_ciphers E) k m) = 32"
    "length iv = 16" "length (hr_iv rnd) = 16" "length call < 2 ^ 29" "length (processor r call) < 2 ^ 29"
  shows "\<exists>req body. command_request E iv cs call = Inr (Inr req) \<and>
    command E rnd processor [cstr ''requestData'' \<mapsto> req] sv = Inr ((200, body), sv) \<and>
    command_reply E cs (200, body) = Inr (processor r call, False)"
  by (rule command_exchange [where processor = processor, OF assms]) blast

definition sample_session :: http_session where
  "sample_session = \<lparr>hs_publicKey = sample_public, hs_sessionKey = Some (replicate 32 2), hs_serverNonce = replicate 48 1,
     hs_encryptedAnswer = [], hs_sessionId = 5, hs_version = 3\<rparr>"

definition sample_server :: http_server where
  "sample_server = (new_server sample_rsa 6)\<lparr>sv_store := [sample_session], sv_byId := [5 \<mapsto> 0]\<rparr>"

definition sample_client :: client_session where
  "sample_client = (new_client_session sample_rsa sample_public)\<lparr>cs_sessionKey := Some (replicate 32 2), cs_sessionId := 5, cs_version := 3\<rparr>"

theorem command_delivered_witness:
  "\<exists>req body. command_request http_sample (replicate 16 4) sample_client (cstr ''call'') = Inr (Inr req) \<and>
    command http_sample (sample_random 48) (\<lambda>r c. c @ cstr ''ed'') [cstr ''requestData'' \<mapsto> req] sample_server = Inr ((200, body), sample_server) \<and>
    command_reply http_sample sample_client (200, body) = Inr (cstr ''called'', False)"
proof -
  have h: "holds sample_server 0 sample_session" by (simp add: holds_def sample_server_def sample_session_def http_session_at_def)
  have s: "same_session sample_client sample_session" "2 \<le> hs_version sample_session"
    by (simp_all add: same_session_def sample_client_def sample_session_def new_client_session_def LONG_MAX_def)
  have m: "length (hmac_sha256 (he_ciphers http_sample) k m) = 32" for k m unfolding sample_fields by (rule toy_hmac_length)
  show ?thesis
    using command_delivered [where processor = "\<lambda>r c. c @ cstr ''ed''" and call = "cstr ''call''" and iv = "replicate 16 4"
        and rnd = "sample_random 48", OF h s m] by (simp add: sample_random_def)
qed

text \<open>C22: a command for a session that has no key yet makes the server dereference a null pointer, exactly when its
  parameters have the size of a sealed message (48 bytes, 16 below version 2): this is no exception that the handler
  could catch, so there is no answer. Shorter parameters are refused before the key is read.\<close>

theorem command_before_token:
  assumes "holds sv r s" "hs_sessionKey s = None" "0 \<le> hs_sessionId s" "hs_sessionId s \<le> LONG_MAX" "length d < 2 ^ 29"
  shows "\<exists>req. write_binder [(cstr ''params'', UBytes d), (cstr ''session_id'', UInt (of_int (hs_sessionId s)))] = Inr req \<and>
    (command E rnd processor [cstr ''requestData'' \<mapsto> req] sv = Inl NullSessionKey \<longleftrightarrow>
      (if 2 \<le> hs_version s then 48 else 16) \<le> length d)"
proof -
  let ?b = "[(cstr ''params'', UBytes d), (cstr ''session_id'', UInt (of_int (hs_sessionId s)))]"
  have "fields_ok (he_parser E) ?b" using assms(5) by (simp add: fields_ok_def sized_def k_type_def k_t_def)
  moreover have "field_weight ?b < 2 ^ 31" using assms(5) by simp
  ultimately obtain req where r: "write_binder ?b = Inr req" "read_binder E req = Inr (binder_of ?b)" using write_read by blast
  have "open_command E [cstr ''requestData'' \<mapsto> req] sv =
      Inl (if length d < sealed_size (hs_version s) then HCrypto InputTooSmall else NullSessionKey)"
    using extract_request [OF r(2)] assms(1,2) session_number [OF assms(3,4)]
    by (simp add: open_command_def session_open_def binder_get_of int_asInstance_def getSessionById_def bytes_field_def
      bytes_asInstance_def holds_def)
  then have "command E rnd processor [cstr ''requestData'' \<mapsto> req] sv = Inl NullSessionKey \<longleftrightarrow> \<not> length d < sealed_size (hs_version s)"
    by (simp add: command_def catch_answer_def error_answer_def write_binder_def as_error_def res_bind_eq_Inl split: sum.splits)
  then show ?thesis using r(1) by (auto simp: sealed_size_def blockSize_def hashsize_def)
qed

theorem command_before_token_witness:
  "\<exists>req. write_binder [(cstr ''params'', UBytes (replicate 48 0)), (cstr ''session_id'', UInt 5)] = Inr req \<and>
    command http_sample (sample_random 48) (\<lambda>r c. c) [cstr ''requestData'' \<mapsto> req]
      (sample_server\<lparr>sv_store := [sample_session\<lparr>hs_sessionKey := None\<rparr>]\<rparr>) = Inl NullSessionKey"
proof -
  let ?sv = "sample_server\<lparr>sv_store := [sample_session\<lparr>hs_sessionKey := None\<rparr>]\<rparr>"
  have h: "holds ?sv 0 (sample_session\<lparr>hs_sessionKey := None\<rparr>)" by (simp add: holds_def sample_server_def sample_session_def http_session_at_def)
  show ?thesis
    using command_before_token [OF h, of "replicate 48 0" http_sample "sample_random 48" "\<lambda>r c. c"]
    by (simp add: sample_session_def LONG_MAX_def)
qed

end
