(* ===== verification/HttpSafety.thy ===== *)
theory HttpSafety
  imports HttpExchange
begin

text \<open>
  What holds of the secure protocol whatever arrives: the invariant of the sessions of a server under requests in any order,
  and what a client has checked of the node before it has a key.
\<close>

section \<open>Requests in any order\<close>

text \<open>The requests that change the sessions, with whatever fields and whatever the random source yields.\<close>

inductive http_step :: "http_env \<Rightarrow> http_server \<Rightarrow> http_server \<Rightarrow> bool" for E where
  step_connect: "length (hr_nonce rnd) = 48 \<Longrightarrow> connect E rnd reqParams sv = Inr (a, sv') \<Longrightarrow> http_step E sv sv'"
| step_token: "get_token E rnd reqParams sv = Inr (a, sv') \<Longrightarrow> http_step E sv sv'"
| step_command: "command E rnd processor reqParams sv = Inr (a, sv') \<Longrightarrow> http_step E sv sv'"

text \<open>Somebody has signed the nonce of the session with the key of its client.\<close>

definition nonce_proven :: "http_env \<Rightarrow> http_session \<Rightarrow> bool" where
  "nonce_proven E s \<longleftrightarrow> (\<exists>data sig clientNonce version. verify (he_ltc E) (he_rsa E) (hs_publicKey s) sig data SHA512 \<and>
     signed_parts E data = Inr (hs_serverNonce s, clientNonce, version))"

definition http_session_ok :: "http_env \<Rightarrow> http_session \<Rightarrow> bool" where
  "http_session_ok E s \<longleftrightarrow> (hs_serverNonce s = [] \<or> length (hs_serverNonce s) = 48) \<and>
     (hs_sessionKey s \<noteq> None \<longrightarrow> hs_serverNonce s \<noteq> [] \<and> nonce_proven E s)"

definition server_ok :: "http_env \<Rightarrow> http_server \<Rightarrow> bool" where
  "server_ok E sv \<longleftrightarrow> (\<forall>r < length (sv_store sv). http_session_ok E (http_session_at sv r)) \<and>
     (\<forall>i r. sv_byId sv i = Some r \<longrightarrow> r < length (sv_store sv) \<and> hs_sessionId (http_session_at sv r) = i) \<and>
     (\<forall>v k r. sv_byKeyAndVersion sv v k = Some r \<longrightarrow> r < length (sv_store sv) \<and> session_key_of E (hs_publicKey (http_session_at sv r)) = k)"

text \<open>What a request leaves of a session that is there.\<close>

definition same_one :: "http_session \<Rightarrow> http_session \<Rightarrow> bool" where
  "same_one s s' \<longleftrightarrow> hs_publicKey s' = hs_publicKey s \<and> hs_sessionId s' = hs_sessionId s \<and>
     (hs_serverNonce s \<noteq> [] \<longrightarrow> hs_serverNonce s' = hs_serverNonce s) \<and>
     (hs_sessionKey s \<noteq> None \<longrightarrow> hs_sessionKey s' = hs_sessionKey s)"

definition keeps_sessions :: "http_server \<Rightarrow> http_server \<Rightarrow> bool" where
  "keeps_sessions sv sv' \<longleftrightarrow> length (sv_store sv) \<le> length (sv_store sv') \<and>
     (\<forall>r < length (sv_store sv). same_one (http_session_at sv r) (http_session_at sv' r))"

lemma same_one_refl [simp]: "same_one s s"
  by (simp add: same_one_def)

lemma same_one_trans: "same_one a b \<Longrightarrow> same_one b c \<Longrightarrow> same_one a c"
  by (auto simp: same_one_def)

lemma keeps_refl [simp]: "keeps_sessions sv sv"
  by (simp add: keeps_sessions_def)

lemma keeps_trans: "keeps_sessions a b \<Longrightarrow> keeps_sessions b c \<Longrightarrow> keeps_sessions a c"
  unfolding keeps_sessions_def by (meson order_less_le_trans order_trans same_one_trans)

lemma session_at_set: "http_session_at (set_session r s sv) r' = (if r' = r \<and> r < length (sv_store sv) then s else http_session_at sv r')"
  by (cases "r' = r"; cases "r < length (sv_store sv)") (simp_all add: http_session_at_def set_session_def list_update_beyond)

lemma set_session_sel [simp]:
  "length (sv_store (set_session r s sv)) = length (sv_store sv)" "sv_byId (set_session r s sv) = sv_byId sv"
  "sv_byKeyAndVersion (set_session r s sv) = sv_byKeyAndVersion sv" "sv_myKey (set_session r s sv) = sv_myKey sv"
  by (simp_all add: set_session_def)

lemma set_session_ok:
  assumes "server_ok E sv" "http_session_ok E s" "same_one (http_session_at sv r) s"
  shows "server_ok E (set_session r s sv) \<and> keeps_sessions sv (set_session r s sv)"
  using assms by (auto simp: server_ok_def session_at_set keeps_sessions_def same_one_def)

lemma register_ok: "server_ok E sv \<Longrightarrow> r < length (sv_store sv) \<Longrightarrow>
    server_ok E (register r sv) \<and> keeps_sessions sv (register r sv) \<and> r < length (sv_store (register r sv))"
  by (auto simp: server_ok_def register_def http_session_at_def keeps_sessions_def)

lemma add_session_ok:
  assumes "server_ok E sv" "add_session key v sv = (r, sv')"
  shows "server_ok E sv' \<and> keeps_sessions sv sv' \<and> r < length (sv_store sv') \<and> hs_publicKey (http_session_at sv' r) = key \<and>
    (\<forall>q < length (sv_store sv'). q = r \<or> q < length (sv_store sv))"
proof -
  let ?s = "\<lparr>hs_publicKey = key, hs_sessionKey = None, hs_serverNonce = [], hs_encryptedAnswer = [],
    hs_sessionId = sv_nextSessionId sv, hs_version = v\<rparr>"
  have st: "sv_store sv' = sv_store sv @ [?s]" "r = length (sv_store sv)" "sv_byId sv' = sv_byId sv"
    "sv_byKeyAndVersion sv' = sv_byKeyAndVersion sv" using assms(2) by (auto simp: add_session_def Let_def)
  have at: "http_session_at sv' q = (if q < length (sv_store sv) then http_session_at sv q else ?s)" if "q < length (sv_store sv')" for q
    using that by (cases "q < length (sv_store sv)") (auto simp: http_session_at_def st(1) nth_append less_Suc_eq)
  have "http_session_ok E ?s" by (simp add: http_session_ok_def)
  then have "\<forall>q < length (sv_store sv'). http_session_ok E (http_session_at sv' q)" using assms(1) at by (auto simp: server_ok_def)
  moreover have "q < length (sv_store sv) \<Longrightarrow> http_session_at sv' q = http_session_at sv q" for q using at [of q] by (simp add: st(1))
  ultimately show ?thesis using assms(1) at [of r] by (auto simp: server_ok_def st keeps_sessions_def intro: less_SucI)
qed

lemma remember_ok:
  assumes "server_ok E sv" "r < length (sv_store sv)" "session_key_of E (hs_publicKey (http_session_at sv r)) = k"
  shows "server_ok E (sv\<lparr>sv_byKeyAndVersion := (sv_byKeyAndVersion sv)(v := (sv_byKeyAndVersion sv v)(k := Some r))\<rparr>)"
    "keeps_sessions sv (sv\<lparr>sv_byKeyAndVersion := (sv_byKeyAndVersion sv)(v := (sv_byKeyAndVersion sv v)(k := Some r))\<rparr>)"
  using assms by (auto simp: server_ok_def http_session_at_def keeps_sessions_def)

lemma getSession_ok:
  assumes "server_ok E sv" "getSessionByKey E key v sv = Inr (r, sv')"
  shows "server_ok E sv' \<and> keeps_sessions sv sv' \<and> r < length (sv_store sv') \<and>
    (\<forall>q < length (sv_store sv'). q = r \<or> q < length (sv_store sv))"
proof -
  have len [simp]: "length (sv_store (register x y)) = length (sv_store y)" for x y by (simp add: register_def)
  obtain r0 sv0 where a: "add_session key v sv = (r0, sv0)" by (cases "add_session key v sv")
  note ok0 = add_session_ok [OF assms(1) a]
  let ?sv1 = "sv0\<lparr>sv_byKeyAndVersion := (sv_byKeyAndVersion sv0)(v := (sv_byKeyAndVersion sv0 v)(session_key_of E key := Some r0))\<rparr>"
  consider (plain) "r = r0" "sv' = register r0 sv0"
    | (known) k where "sv_byKeyAndVersion sv v k = Some r" "sv' = register r sv"
    | (new) "r = r0" "sv' = register r0 ?sv1"
    using assms(2) a by (auto simp: getSessionByKey_def session_key_of_def Let_def split: if_splits option.splits)
  then show ?thesis
  proof cases
    case plain
    then show ?thesis using ok0 register_ok [of E sv0 r0] keeps_trans [of sv sv0] by auto
  next
    case known
    then have "r < length (sv_store sv)" using assms(1) unfolding server_ok_def by blast
    then show ?thesis using register_ok [OF assms(1)] known(2) by auto
  next
    case new
    have ok1: "server_ok E ?sv1" "keeps_sessions sv0 ?sv1" by (rule remember_ok; use ok0 in simp)+
    have "r0 < length (sv_store ?sv1)" using ok0 by simp
    from register_ok [OF ok1(1) this] have "server_ok E sv'" "keeps_sessions ?sv1 sv'" using new by simp_all
    then show ?thesis using ok0 keeps_trans [OF _ keeps_trans [OF ok1(2)], of sv] new by auto
  qed
qed

text \<open>Between requests, every session has its nonce.\<close>

definition nonces_ok :: "http_server \<Rightarrow> bool" where
  "nonces_ok sv \<longleftrightarrow> (\<forall>r < length (sv_store sv). hs_serverNonce (http_session_at sv r) \<noteq> [])"

lemma keeps_nonces: "keeps_sessions sv sv' \<Longrightarrow> nonces_ok sv \<Longrightarrow> q < length (sv_store sv) \<Longrightarrow> hs_serverNonce (http_session_at sv' q) \<noteq> []"
  by (auto simp: keeps_sessions_def nonces_ok_def same_one_def)

lemma connect_ok:
  assumes "server_ok E sv" "nonces_ok sv" "length (hr_nonce rnd) = 48" "connect E rnd reqParams sv = Inr (a, sv')"
  shows "server_ok E sv' \<and> keeps_sessions sv sv' \<and> nonces_ok sv'"
proof (cases "connect_session E reqParams sv")
  case (Inl e)
  then have "sv' = sv" using assms(4)
    by (auto simp: connect_def catch_answer_def res_bind_eq_Inr split: if_splits)
  then show ?thesis using assms(1,2) by simp
next
  case (Inr p)
  obtain r sv1 where p: "p = (r, sv1)" by (cases p)
  obtain key v where "getSessionByKey E key v sv = Inr (r, sv1)" using Inr p by (auto simp: connect_session_def res_bind_eq_Inr)
  note ok1 = getSession_ok [OF assms(1) this]
  let ?s1 = "http_session_at sv1 r"
  let ?s = "if hs_serverNonce ?s1 = [] then ?s1\<lparr>hs_serverNonce := hr_nonce rnd\<rparr> else ?s1"
  have sv': "sv' = set_session r ?s sv1"
    using assms(4) unfolding connect_def Inr p sum.case prod.case Let_def catch_answer_def
    by (auto simp: res_bind_eq_Inr split: sum.splits if_splits)
  have "http_session_ok E ?s1" using ok1 by (simp add: server_ok_def)
  then have "http_session_ok E ?s" using assms(3) by (auto simp: http_session_ok_def)
  moreover have "same_one ?s1 ?s" by (simp add: same_one_def)
  ultimately have "server_ok E sv' \<and> keeps_sessions sv sv'"
    unfolding sv' using set_session_ok [of E sv1 ?s r] ok1 keeps_trans by blast
  moreover have "hs_serverNonce ?s \<noteq> []" using assms(3) by auto
  then have "nonces_ok sv'" unfolding nonces_ok_def
  proof (intro allI impI)
    fix q assume n: "hs_serverNonce ?s \<noteq> []" and q: "q < length (sv_store sv')"
    show "hs_serverNonce (http_session_at sv' q) \<noteq> []"
    proof (cases "q = r")
      case True
      then show ?thesis using n ok1 unfolding sv' session_at_set by simp
    next
      case False
      then have "q < length (sv_store sv)" using q ok1 by (auto simp: sv')
      then show ?thesis using keeps_nonces [OF _ assms(2)] ok1 False by (simp add: sv' session_at_set)
    qed
  qed
  ultimately show ?thesis by blast
qed

lemma proven_upd [simp]:
  "nonce_proven E (s\<lparr>hs_sessionKey := k\<rparr>) = nonce_proven E s" "nonce_proven E (s\<lparr>hs_encryptedAnswer := enc\<rparr>) = nonce_proven E s"
  "nonce_proven E (s\<lparr>hs_version := v\<rparr>) = nonce_proven E s"
  by (simp_all add: nonce_proven_def)

lemma issue_key_ok:
  assumes "nonce_proven E s" "hs_serverNonce s \<noteq> []" "http_session_ok E s"
  shows "issue_key E rnd s = Inr s' \<Longrightarrow> http_session_ok E s' \<and> same_one s s'"
    "issue_key E rnd s = Inl e \<Longrightarrow> http_session_ok E (s\<lparr>hs_sessionKey := Some (hr_key rnd)\<rparr>) \<and> same_one s (s\<lparr>hs_sessionKey := Some (hr_key rnd)\<rparr>)"
  using assms by (auto simp: issue_key_def http_session_ok_def same_one_def res_bind_eq_Inr split: if_splits)

lemma catch_answer_state:
  "catch_answer E sv (Inl e) = Inr (a, sv') \<Longrightarrow> sv' = sv"
  "catch_answer E sv (res_bind m (\<lambda>a. Inr (a, sv))) = Inr (a, sv') \<Longrightarrow> sv' = sv"
  by (auto simp: catch_answer_def res_bind_eq_Inr split: sum.splits if_splits)

lemma error_answer_state: "res_bind m (\<lambda>a. Inr (a, sv)) = Inr (a, sv') \<Longrightarrow> sv' = sv"
  by (auto simp: res_bind_eq_Inr)

lemma set_session_twice: "set_session r s' (set_session r s sv) = set_session r s' sv"
  by (simp add: set_session_def)

lemma get_token_ok:
  assumes "server_ok E sv" "nonces_ok sv" "get_token E rnd reqParams sv = Inr (a, sv')"
  shows "server_ok E sv' \<and> keeps_sessions sv sv' \<and> length (sv_store sv') = length (sv_store sv)"
proof (cases "token_request_parts E reqParams sv")
  case (Inl e)
  then show ?thesis using assms(1,3) catch_answer_state(1) by (fastforce simp: get_token_def)
next
  case (Inr p)
  obtain r data sig where p: "p = (r, data, sig)" by (cases p)
  let ?s = "http_session_at sv r"
  have r: "r < length (sv_store sv)" using Inr p assms(1)
    by (auto simp: token_request_parts_def getSessionById_def res_bind_eq_Inr server_ok_def split: option.splits)
  then have ok: "http_session_ok E ?s" and n: "hs_serverNonce ?s \<noteq> []" using assms(1,2) by (simp_all add: server_ok_def nonces_ok_def)
  have set_ok: "server_ok E sv' \<and> keeps_sessions sv sv' \<and> length (sv_store sv') = length (sv_store sv)"
    if "sv' = set_session r s sv" "http_session_ok E s" "same_one ?s s" for s
    using set_session_ok [OF assms(1) that(2,3)] by (simp add: that(1))
  note T = assms(3) [unfolded get_token_def Inr p sum.case prod.case Let_def]
  show ?thesis
  proof (cases "verify (he_ltc E) (he_rsa E) (hs_publicKey ?s) sig data SHA512")
    case False
    then show ?thesis using T assms(1) error_answer_state by fastforce
  next
    case verified: True
    show ?thesis
    proof (cases "signed_parts E data")
      case (Inl e)
      then show ?thesis using T verified assms(1) catch_answer_state(1) by fastforce
    next
      case (Inr q)
      obtain sn cn v where q: "q = (sn, cn, v)" by (cases q)
      let ?s1 = "?s\<lparr>hs_version := min v SERVER_VERSION\<rparr>"
      have s1: "http_session_ok E ?s1" "same_one ?s ?s1" using ok by (simp_all add: http_session_ok_def same_one_def)
      show ?thesis
      proof (cases "sn = hs_serverNonce ?s")
        case False
        then show ?thesis using set_ok [OF _ s1] T verified Inr q error_answer_state by fastforce
      next
        case True
        have "nonce_proven E ?s" unfolding nonce_proven_def using verified Inr [unfolded q True] by blast
        then have pr: "nonce_proven E ?s1" by simp
        have n1: "hs_serverNonce ?s1 \<noteq> []" using n by simp
        note K = issue_key_ok [OF pr n1 s1(1)]
        show ?thesis
        proof (cases "issue_key E rnd ?s1")
          case (Inl e)
          then have "sv' = set_session r (?s1\<lparr>hs_sessionKey := Some (hr_key rnd)\<rparr>) sv"
            using T verified \<open>signed_parts E data = Inr q\<close> q True catch_answer_state(1) by (fastforce simp: set_session_twice)
          then show ?thesis using set_ok K(2) [OF Inl] same_one_trans [OF s1(2)] by blast
        next
          case (Inr s)
          then have "sv' = set_session r s sv"
            using T verified \<open>signed_parts E data = Inr q\<close> q True catch_answer_state(2) by (fastforce simp: set_session_twice)
          then show ?thesis using set_ok K(1) [OF Inr] same_one_trans [OF s1(2)] by blast
        qed
      qed
    qed
  qed
qed

lemma http_step_ok: "http_step E sv sv' \<Longrightarrow> server_ok E sv \<Longrightarrow> nonces_ok sv \<Longrightarrow> server_ok E sv' \<and> keeps_sessions sv sv' \<and> nonces_ok sv'"
proof (induction rule: http_step.induct)
  case (step_connect rnd reqParams sv a sv')
  then show ?case using connect_ok by blast
next
  case (step_token rnd reqParams sv a sv')
  from get_token_ok [OF step_token(2,3,1)] show ?case using keeps_nonces [OF _ step_token(3)] by (simp add: nonces_ok_def)
next
  case (step_command rnd processor reqParams sv a sv')
  have "sv' = sv" using step_command(1)
    by (auto simp: command_def catch_answer_def res_bind_eq_Inr split: sum.splits if_splits)
  then show ?case using step_command(2,3) by simp
qed

lemma http_reachable: "(http_step E)\<^sup>*\<^sup>* (new_server key first) sv \<Longrightarrow> server_ok E sv \<and> nonces_ok sv"
proof (induction rule: rtranclp_induct)
  case base
  then show ?case by (simp add: server_ok_def nonces_ok_def new_server_def)
next
  case (step sv sv')
  then show ?case using http_step_ok by blast
qed

lemma http_keeps:
  "(http_step E)\<^sup>*\<^sup>* sv sv' \<Longrightarrow> server_ok E sv \<Longrightarrow> nonces_ok sv \<Longrightarrow> server_ok E sv' \<and> nonces_ok sv' \<and> keeps_sessions sv sv'"
proof (induction rule: rtranclp_induct)
  case (step sv1 sv')
  then show ?case using http_step_ok keeps_trans by blast
qed simp

lemma bytes_field_Inr: "bytes_field b k = Inr v \<longleftrightarrow> binder_get b k = UBytes v"
  by (auto simp: bytes_field_def bytes_asInstance_def split: uobj.splits)

text \<open>What \<open>start\<close> has checked when the client has a key, whatever the network answers.\<close>

definition node_proven :: "http_env \<Rightarrow> rsa_key \<Rightarrow> public_key \<Rightarrow> bytes \<Rightarrow> bytes \<Rightarrow> bool" where
  "node_proven E clientKey nodeKey nonce key \<longleftrightarrow> (\<exists>data sig params enc token b.
     verify (he_ltc E) (he_rsa E) nodeKey sig data SHA512 \<and> read_binder E data = Inr params \<and>
     binder_get params (cstr ''client_nonce'') = UBytes nonce \<and> binder_get params (cstr ''encrypted_token'') = UBytes enc \<and>
     rsa_decrypt (he_rsa E) clientKey enc = Inr token \<and> read_binder E token = Inr b \<and> binder_get b (cstr ''sk'') = UBytes key)"

lemma accept_token_proven:
  assumes "accept_token E cs nonce data sig = Inr cs'"
  shows "\<exists>key. cs' = cs\<lparr>cs_sessionKey := Some key\<rparr> \<and> node_proven E (cs_clientPrivateKey cs) (cs_nodePublicKey cs) nonce key"
proof -
  have v: "verify (he_ltc E) (he_rsa E) (cs_nodePublicKey cs) sig data SHA512" using assms by (simp add: accept_token_def split: if_splits)
  obtain params enc token b key where h: "read_binder E data = Inr params" "bytes_field params (cstr ''client_nonce'') = Inr nonce"
    "bytes_field params (cstr ''encrypted_token'') = Inr enc" "rsa_decrypt (he_rsa E) (cs_clientPrivateKey cs) enc = Inr token"
    "read_binder E token = Inr b" "bytes_field b (cstr ''sk'') = Inr key" "cs' = cs\<lparr>cs_sessionKey := Some key\<rparr>"
    using assms v by (auto simp: accept_token_def res_bind_eq_Inr split: if_splits)
  then show ?thesis unfolding node_proven_def using v bytes_field_Inr by blast
qed

lemma on_connect_keeps:
  assumes "on_connect E respBody cs = (e, cs', n, v)"
  shows "cs_sessionKey cs' = cs_sessionKey cs \<and> cs_clientPrivateKey cs' = cs_clientPrivateKey cs \<and> cs_nodePublicKey cs' = cs_nodePublicKey cs"
  using assms by (auto simp: on_connect_def Let_def split: sum.splits)

lemma start_connect_keeps:
  assumes "start_connect E net cs s = (e, cs', n, v, s')"
  shows "cs_sessionKey cs' = cs_sessionKey cs \<and> cs_clientPrivateKey cs' = cs_clientPrivateKey cs \<and> cs_nodePublicKey cs' = cs_nodePublicKey cs"
  using assms on_connect_keeps by (fastforce simp: start_connect_def split: sum.splits prod.splits option.splits)

lemma on_hello_keeps: "on_hello E cs r = (e, cs') \<Longrightarrow> cs_sessionKey cs' = cs_sessionKey cs"
  by (auto simp: on_hello_def Let_def split: sum.splits prod.splits if_splits)

lemma start_hello_keeps: "start_hello E rnd net cs s = (e, cs', s') \<Longrightarrow> cs_sessionKey cs' = cs_sessionKey cs"
  using on_hello_keeps by (fastforce simp: start_hello_def split: sum.splits prod.splits option.splits)

lemma start_proven:
  assumes "start E rnd net clientKey nodeKey (None, s) = (e, Some cs, s')" "cs_sessionKey cs = Some key"
  shows "node_proven E clientKey nodeKey (hr_nonce rnd) key"
proof -
  let ?cs0 = "new_client_session clientKey nodeKey"
  obtain e1 cs1 n v s1 where c: "start_connect E net ?cs0 s = (e1, cs1, n, v, s1)" by (cases "start_connect E net ?cs0 s")
  have k1: "cs_sessionKey cs1 = None" "cs_clientPrivateKey cs1 = clientKey" "cs_nodePublicKey cs1 = nodeKey"
    using start_connect_keeps [OF c] by (simp_all add: new_client_session_def)
  have e1: "e1 = None"
  proof (rule ccontr)
    assume "e1 \<noteq> None"
    then have "cs = cs1" using assms(1) c by (auto simp: start_def)
    then show False using k1(1) assms(2) by simp
  qed
  obtain t s2 where t: "start_token E rnd net cs1 n v s1 = (t, s2)" by (cases "start_token E rnd net cs1 n v s1")
  show ?thesis
  proof (cases t)
    case (Inl e2)
    then have "cs = cs1" using assms(1) c e1 t by (auto simp: start_def)
    then show ?thesis using k1(1) assms(2) by simp
  next
    case (Inr cs2)
    then obtain data sig where "accept_token E cs1 (hr_nonce rnd) data sig = Inr cs2"
      using t by (auto simp: start_token_def res_bind_eq_Inr split: sum.splits prod.splits option.splits)
    from accept_token_proven [OF this] obtain k where k: "cs2 = cs1\<lparr>cs_sessionKey := Some k\<rparr>"
      "node_proven E clientKey nodeKey (hr_nonce rnd) k" unfolding k1 by blast
    obtain e3 cs3 s3 where h: "start_hello E rnd net cs2 s2 = (e3, cs3, s3)" by (cases "start_hello E rnd net cs2 s2")
    then have "cs = cs3" using assms(1) c e1 t Inr by (simp add: start_def)
    then show ?thesis using start_hello_keeps [OF h] k assms(2) by simp
  qed
qed

section \<open>A start as steps of the server\<close>

lemma serve_steps:
  assumes "serve E rnds processor endpoint req (n, sv) = (a, n', sv')" "\<And>i. length (hr_nonce (rnds i)) = 48"
  shows "(http_step E)\<^sup>*\<^sup>* sv sv'"
proof -
  have "sv' = sv \<or> http_step E sv sv'"
    using assms(1) step_connect [OF assms(2)] step_token step_command
    by (auto simp: serve_def Let_def split: if_splits sum.splits)
  then show ?thesis by auto
qed

lemma start_steps:
  assumes "start E rnd (serve E rnds processor) clientKey nodeKey (None, n, sv) = (e, c, n', sv')" "\<And>i. length (hr_nonce (rnds i)) = 48"
  shows "(http_step E)\<^sup>*\<^sup>* sv sv'"
proof -
  let ?net = "serve E rnds processor" and ?cs0 = "new_client_session clientKey nodeKey"
  note S = serve_steps [OF _ assms(2)]
  obtain e1 cs1 sn v n1 sv1 where c: "start_connect E ?net ?cs0 (n, sv) = (e1, cs1, sn, v, n1, sv1)"
    by (cases "start_connect E ?net ?cs0 (n, sv)")
  have r1: "(http_step E)\<^sup>*\<^sup>* sv sv1"
    using c by (auto simp: start_connect_def split: sum.splits prod.splits option.splits dest: S)
  obtain t n2 sv2 where t: "start_token E rnd ?net cs1 sn v (n1, sv1) = (t, n2, sv2)"
    by (cases "start_token E rnd ?net cs1 sn v (n1, sv1)")
  have r2: "(http_step E)\<^sup>*\<^sup>* sv1 sv2"
    using t by (auto simp: start_token_def split: sum.splits prod.splits option.splits dest: S)
  have r3: "(http_step E)\<^sup>*\<^sup>* sv2 sv3" if "start_hello E rnd ?net cs2 (n2, sv2) = (e3, cs3, n3, sv3)" for cs2 e3 cs3 n3 sv3
    using that by (auto simp: start_hello_def split: sum.splits prod.splits option.splits dest: S)
  consider "sv' = sv1" | "e1 = None" "sv' = sv2" | cs2 e3 cs3 where "e1 = None" "t = Inr cs2" "start_hello E rnd ?net cs2 (n2, sv2) = (e3, cs3, n', sv')"
    using assms(1) c t by (cases e1; cases t) (auto simp: start_def split: prod.splits)
  then show ?thesis
  proof cases
    case 1
    then show ?thesis using r1 by simp
  next
    case 2
    then show ?thesis using r1 r2 by simp
  next
    case 3
    show ?thesis using rtranclp_trans [OF rtranclp_trans [OF r1 r2] r3 [OF 3(3)]] .
  qed
qed

lemma sample_started:
  obtains e cs sv s where
    "start http_sample (sample_random 47) (serve http_sample (\<lambda>i. sample_random 48) (\<lambda>r c. e)) sample_rsa sample_public
      (None, 0, new_server sample_rsa 5) = (None, Some cs, 3, sv)"
    "cs_sessionKey cs = Some (replicate 32 2)" "holds sv 0 s" "hs_sessionKey s = Some (replicate 32 2)"
proof -
  obtain hello reply where w: "welcomes http_sample hello reply (cstr ''welcome'')" by (rule sample_welcomes)
  have m: "length (hmac_sha256 (he_ciphers http_sample) k m) = 32" for k m unfolding sample_fields by (rule toy_hmac_length)
  obtain cs sv s where st: "start http_sample (sample_random 47) (serve http_sample (\<lambda>i. sample_random 48) (\<lambda>r c. reply)) sample_rsa sample_public
      (None, 0, new_server sample_rsa 5) = (None, Some cs, 3, sv)"
    "holds sv (length (sv_store (new_server sample_rsa 5))) s" "same_session cs s" "cs_sessionKey cs = Some (hr_key (sample_random 48))"
    by (rule start_honest [where processor = "\<lambda>r c. reply", OF sample_honest m w])
  show thesis
    by (rule that [OF st(1)]) (use st(2-4) in \<open>simp_all add: same_session_def new_server_def sample_random_def\<close>)
qed

section \<open>Properties\<close>

text \<open>C18: whatever requests a server has handled, in any order, a session has a key only if somebody has signed its 48-byte
  nonce with the private key of the session's public key; the key and the public key then never change.\<close>

theorem session_key_proven:
  assumes "(http_step E)\<^sup>*\<^sup>* (new_server key first) sv" "r < length (sv_store sv)" "hs_sessionKey (http_session_at sv r) = Some k"
    "(http_step E)\<^sup>*\<^sup>* sv sv'"
  shows "length (hs_serverNonce (http_session_at sv r)) = 48 \<and> nonce_proven E (http_session_at sv r) \<and>
    hs_sessionKey (http_session_at sv' r) = Some k \<and> hs_publicKey (http_session_at sv' r) = hs_publicKey (http_session_at sv r)"
proof -
  have ok: "server_ok E sv" "nonces_ok sv" using http_reachable [OF assms(1)] by blast+
  then have "http_session_ok E (http_session_at sv r)" using assms(2) by (simp add: server_ok_def)
  moreover have "keeps_sessions sv sv'" using http_keeps [OF assms(4) ok] by blast
  ultimately show ?thesis using assms(2,3) by (auto simp: http_session_ok_def keeps_sessions_def same_one_def)
qed

theorem session_key_proven_witness:
  "\<exists>sv. (http_step http_sample)\<^sup>*\<^sup>* (new_server sample_rsa 5) sv \<and> length (hs_serverNonce (http_session_at sv 0)) = 48 \<and>
    nonce_proven http_sample (http_session_at sv 0) \<and> hs_sessionKey (http_session_at sv 0) = Some (replicate 32 2)"
proof -
  obtain e cs sv s where st: "start http_sample (sample_random 47) (serve http_sample (\<lambda>i. sample_random 48) (\<lambda>r c. e)) sample_rsa sample_public
      (None, 0, new_server sample_rsa 5) = (None, Some cs, 3, sv)" "holds sv 0 s" "hs_sessionKey s = Some (replicate 32 2)"
    by (rule sample_started)
  have r: "(http_step http_sample)\<^sup>*\<^sup>* (new_server sample_rsa 5) sv" by (rule start_steps [OF st(1)]) (simp add: sample_random_def)
  have k: "0 < length (sv_store sv)" "hs_sessionKey (http_session_at sv 0) = Some (replicate 32 2)" using st(2,3) by (auto simp: holds_def)
  show ?thesis using session_key_proven [OF r k rtranclp.rtrancl_refl] r k(2) by blast
qed

text \<open>C19: whatever the network answers, a client that has a session key after \<open>start\<close> has got it from data that the node's
  key signed and that hold the nonce the client has just made, and the key was encrypted for the client.\<close>

theorem client_authenticates:
  assumes "start E rnd net clientKey nodeKey (None, s) = (e, Some cs, s')" "cs_sessionKey cs = Some key"
  shows "node_proven E clientKey nodeKey (hr_nonce rnd) key"
  by (rule start_proven [OF assms])

theorem client_authenticates_witness:
  "node_proven http_sample sample_rsa sample_public (replicate 47 1) (replicate 32 2)"
proof -
  obtain e cs sv s where st: "start http_sample (sample_random 47) (serve http_sample (\<lambda>i. sample_random 48) (\<lambda>r c. e)) sample_rsa sample_public
      (None, 0, new_server sample_rsa 5) = (None, Some cs, 3, sv)" "cs_sessionKey cs = Some (replicate 32 2)"
    by (rule sample_started)
  show ?thesis using client_authenticates [OF st] by (simp add: sample_random_def)
qed

end
