(* ===== verification/MgHttp.thy ===== *)
theory MgHttp
  imports MgStr MgBuf
begin

text \<open>
  The HTTP of \<open>network/mongoose/mongoose.c\<close>: the parser of requests and responses, chunked bodies, the handler of what
  arrives on a connection, multipart bodies and form variables. A pointer into a buffer is an offset, an \<open>mg_str\<close> an
  offset and a length. Behind the last byte of a buffer reads as NUL. The handlers of the program do nothing at
  \<open>MG_EV_HTTP_CHUNK\<close>, so that event is left out; streaming of multipart bodies and CGI are not compiled in.
\<close>

section \<open>Messages\<close>

type_synonym mg_str = "nat \<times> nat"

definition str_of :: "bytes \<Rightarrow> mg_str \<Rightarrow> bytes" where
  "str_of buf v = take (snd v) (drop (fst v) buf)"

text \<open>\<open>strchr(delims, c) != NULL\<close>: the NUL that ends the delimiters is found too.\<close>

definition is_delim :: "bytes \<Rightarrow> byte \<Rightarrow> bool" where
  "is_delim delims c = (c = 0 \<or> c \<in> set delims)"

definition mg_skip :: "bytes \<Rightarrow> nat \<Rightarrow> nat \<Rightarrow> bytes \<Rightarrow> mg_str \<times> nat" where
  "mg_skip buf s end delims =
     (let e = s + length (takeWhile (\<lambda>c. \<not> is_delim delims c) (take (end - s) (drop s buf))) in
      ((s, e - s), e + length (takeWhile (is_delim delims) (take (end - e) (drop e buf)))))"

definition isprint :: "byte \<Rightarrow> bool" where
  "isprint b = (32 \<le> b \<and> b \<le> 126)"

fun request_len_loop :: "bytes \<Rightarrow> int \<Rightarrow> int" where
  "request_len_loop [] i = 0"
| "request_len_loop (b # s) i =
     (if \<not> isprint b \<and> b \<noteq> 13 \<and> b \<noteq> 10 \<and> b < 128 then - 1
      else if b = 10 \<and> take 1 s = [10] then i + 2
      else if b = 10 \<and> take 2 s = [13, 10] then i + 3
      else request_len_loop s (i + 1))"

definition mg_http_get_request_len :: "bytes \<Rightarrow> int \<Rightarrow> int" where
  "mg_http_get_request_len s buf_len = request_len_loop (take (nat buf_len) s) 0"

record http_message =
  hm_method :: mg_str
  hm_uri :: mg_str
  hm_proto :: mg_str
  hm_query_string :: mg_str
  hm_resp_code :: int
  hm_resp_status_msg :: mg_str
  hm_headers :: "(mg_str \<times> mg_str) list"
  hm_body_p :: nat
  hm_body_len :: u64
  hm_message_len :: u64

definition MG_MAX_HTTP_HEADERS :: nat where "MG_MAX_HTTP_HEADERS = 40"

definition new_message :: "nat \<Rightarrow> http_message" where
  "new_message len = \<lparr>hm_method = (0, 0), hm_uri = (0, 0), hm_proto = (0, 0), hm_query_string = (0, 0), hm_resp_code = 0,
     hm_resp_status_msg = (0, 0), hm_headers = [], hm_body_p = len, hm_body_len = - 1, hm_message_len = - 1\<rparr>"

definition trim_value :: "bytes \<Rightarrow> mg_str \<Rightarrow> mg_str" where
  "trim_value buf v = (fst v, length (dropWhile (\<lambda>c. c = 32) (rev (str_of buf v))))"

text \<open>\<open>strtol(s, NULL, 10)\<close> and \<open>strtoll\<close> saturate at 64 bits; \<open>to64\<close> is \<open>strtoll\<close> on this platform.\<close>

definition strtol10 :: "bytes \<Rightarrow> int" where
  "strtol10 s =
     (let s = dropWhile isspace s; neg = (take 1 s = [45]); s = (if take 1 s = [45] \<or> take 1 s = [43] then drop 1 s else s);
          n = foldl (\<lambda>n d. 10 * n + (uint d - 48)) 0 (takeWhile isdigit s) in
      max (- (2 ^ 63)) (min (2 ^ 63 - 1) (if neg then - n else n)))"

definition to64 :: "bytes \<Rightarrow> u64" where
  "to64 s = word_of_int (strtol10 s)"

text \<open>A header is stored; \<open>Content-Length\<close> sets the length of the body, and only these 14 bytes are compared.\<close>

definition add_header :: "bytes \<Rightarrow> nat \<Rightarrow> mg_str \<Rightarrow> mg_str \<Rightarrow> http_message \<Rightarrow> http_message" where
  "add_header buf len k v req =
     (let req = req\<lparr>hm_headers := hm_headers req @ [(k, v)]\<rparr> in
      if mg_ncasecmp (drop (fst k) buf) (cstr ''Content-Length'') 14 = 0
      then let n = to64 (drop (fst v) buf) in req\<lparr>hm_body_len := n, hm_message_len := of_nat len + n\<rparr>
      else req)"

lemma mg_skip_ge: "mg_skip buf s end delims = (k, s') \<Longrightarrow> s + snd k \<le> s' \<and> fst k = s"
  by (auto simp: mg_skip_def Let_def)

lemma mg_skip_moves: "mg_skip buf s end delims = (k, s') \<Longrightarrow> 0 < snd k \<Longrightarrow> s < end"
  by (cases "s < end") (auto simp: mg_skip_def Let_def)

function parse_headers :: "bytes \<Rightarrow> nat \<Rightarrow> nat \<Rightarrow> http_message \<Rightarrow> http_message" where
  "parse_headers buf s end req =
     (if \<not> length (hm_headers req) < MG_MAX_HTTP_HEADERS - 1 then req
      else let (k, s1) = mg_skip buf s end (cstr '': ''); (v, s2) = mg_skip buf s1 end [13, 10]; v = trim_value buf v in
        if snd k \<noteq> 0 \<and> snd v = 0 then parse_headers buf s2 end req
        else if snd k = 0 \<or> snd v = 0 then req
        else parse_headers buf s2 end (add_header buf end k v req))"
  by pat_completeness auto

termination
proof (relation "measure (\<lambda>(buf, s, end, req). end - s)")
  fix buf s "end" req x k s1 y v s2 v'
  assume "x = mg_skip buf s end (cstr '': '')" "(k, s1) = x" "y = mg_skip buf s1 end [13, 10]" "(v, s2) = y"
    "snd k \<noteq> 0 \<and> snd v' = (0 :: nat)"
  then have "s < end" "s < s2" using mg_skip_ge [of buf s "end"] mg_skip_ge [of buf s1 "end"] mg_skip_moves [of buf s "end"]
    by (metis neq0_conv, metis add_leD1 le_less_trans less_add_same_cancel1 neq0_conv order_less_le_trans)
  then show "((buf, s2, end, req), (buf, s, end, req)) \<in> measure (\<lambda>(buf, s, end, req). end - s)" by simp
next
  fix buf s "end" req x k s1 y v s2 v'
  assume "x = mg_skip buf s end (cstr '': '')" "(k, s1) = x" "y = mg_skip buf s1 end [13, 10]" "(v, s2) = y" "\<not> (snd k = 0 \<or> snd (v' :: mg_str) = 0)"
  then have "s < end" "s < s2" using mg_skip_ge [of buf s "end"] mg_skip_ge [of buf s1 "end"] mg_skip_moves [of buf s "end"]
    by (metis neq0_conv, metis add_leD1 le_less_trans less_add_same_cancel1 neq0_conv order_less_le_trans)
  then show "((buf, s2, end, add_header buf end k v' req), (buf, s, end, req)) \<in> measure (\<lambda>(buf, s, end, req). end - s)" by simp
qed simp

declare parse_headers.simps [simp del]

text \<open>\<open>atoi\<close> is \<open>strtol\<close> cut to an \<open>int\<close>.\<close>

definition atoi :: "bytes \<Rightarrow> int" where
  "atoi s = sint (word_of_int (strtol10 s) :: 32 word)"

definition parse_request_line :: "bytes \<Rightarrow> nat \<Rightarrow> nat \<Rightarrow> http_message \<Rightarrow> (nat \<times> http_message) option" where
  "parse_request_line buf s end hm =
     (let (method, s) = mg_skip buf s end [32]; (uri, s) = mg_skip buf s end [32]; (proto, s) = mg_skip buf s end [13, 10];
          hm = hm\<lparr>hm_method := method, hm_uri := uri, hm_proto := proto\<rparr> in
      if fst uri \<le> fst method \<or> fst proto \<le> fst uri then None
      else (case memchr (str_of buf uri) (chr CHR ''?'') of
          None \<Rightarrow> Some (s, hm)
        | Some q \<Rightarrow> Some (s, hm\<lparr>hm_query_string := (fst uri + q + 1, snd uri - (q + 1)), hm_uri := (fst uri, q)\<rparr>)))"

definition parse_status_line :: "bytes \<Rightarrow> nat \<Rightarrow> nat \<Rightarrow> http_message \<Rightarrow> (nat \<times> http_message) option" where
  "parse_status_line buf s end hm =
     (let (proto, s) = mg_skip buf s end [32]; hm = hm\<lparr>hm_proto := proto\<rparr> in
      if end - s < 4 \<or> c_at buf (s + 3) \<noteq> 32 then None
      else let hm = hm\<lparr>hm_resp_code := atoi (drop s buf)\<rparr> in
        if hm_resp_code hm < 100 \<or> 600 \<le> hm_resp_code hm then None
        else let (msg, s) = mg_skip buf (s + 4) end [13, 10] in Some (s, hm\<lparr>hm_resp_status_msg := msg\<rparr>))"

text \<open>\<open>mg_parse_http\<close>: a length that is not positive is on the left.\<close>

definition mg_parse_http :: "bytes \<Rightarrow> int \<Rightarrow> bool \<Rightarrow> int + nat \<times> http_message" where
  "mg_parse_http buf n is_req =
     (let len = mg_http_get_request_len buf n in
      if len \<le> 0 then Inl len
      else let end = nat len; s = length (takeWhile isspace (take end buf)); hm = new_message end in
        case (if is_req then parse_request_line buf s end hm else parse_status_line buf s end hm) of
          None \<Rightarrow> Inl (- 1)
        | Some (s, hm) \<Rightarrow>
            let hm = parse_headers buf s end hm; method = str_of buf (hm_method hm) in
            Inr (end,
              if hm_body_len hm = - 1 \<and> is_req \<and> mg_vcasecmp method (cstr ''PUT'') \<noteq> 0 \<and> mg_vcasecmp method (cstr ''POST'') \<noteq> 0
              then hm\<lparr>hm_body_len := 0, hm_message_len := of_nat end\<rparr> else hm))"

definition mg_get_http_header :: "bytes \<Rightarrow> http_message \<Rightarrow> bytes \<Rightarrow> mg_str option" where
  "mg_get_http_header buf hm name =
     map_option snd (List.find (\<lambda>(h, v). snd h = length name \<and> mg_ncasecmp (drop (fst h) buf) name (length name) = 0) (hm_headers hm))"

section \<open>Chunked bodies\<close>

definition hex_value :: "byte \<Rightarrow> nat option" where
  "hex_value b =
     (if isdigit b then Some (unat b - 48)
      else if 97 \<le> tolower b \<and> tolower b \<le> 102 then Some (unat (tolower b) - 97 + 10) else None)"

text \<open>The digits before the line end: their number and value; a seventh is unreasonable.\<close>

fun chunk_len_loop :: "bytes \<Rightarrow> nat \<Rightarrow> nat \<Rightarrow> (nat \<times> nat) option" where
  "chunk_len_loop [] i n = Some (i, n)"
| "chunk_len_loop (c # s) i n =
     (case hex_value c of
        None \<Rightarrow> Some (i, n)
      | Some d \<Rightarrow> if 6 < i + 1 then None else chunk_len_loop s (i + 1) (n * 16 + d))"

definition line_end_at :: "bytes \<Rightarrow> nat \<Rightarrow> bool" where
  "line_end_at s i = (\<not> (i = 0 \<or> length s < i + 2 \<or> s ! i \<noteq> 13 \<or> s ! (i + 1) \<noteq> 10))"

text \<open>\<open>mg_http_parse_chunk\<close>: the length of the chunk (0 when it is not there), and where its data are.\<close>

definition mg_http_parse_chunk :: "bytes \<Rightarrow> nat \<times> nat \<times> nat" where
  "mg_http_parse_chunk s =
     (case chunk_len_loop s 0 0 of
        None \<Rightarrow> (0, 0, 0)
      | Some (i, n) \<Rightarrow>
          if line_end_at s i \<and> line_end_at s (i + 2 + n) then (i + 2 + n + 2, i + 2, n) else (0, 0, 0))"

text \<open>\<open>mg_send_http_chunk\<close> prints the length with \<open>%lX\<close>.\<close>

fun hex_upper :: "nat \<Rightarrow> bytes" where
  "hex_upper n =
     (if n < 16 then [cstr ''0123456789ABCDEF'' ! n] else hex_upper (n div 16) @ [cstr ''0123456789ABCDEF'' ! (n mod 16)])"

declare hex_upper.simps [simp del]

definition mg_send_http_chunk :: "bytes \<Rightarrow> bytes" where
  "mg_send_http_chunk buf = hex_upper (length buf) @ [13, 10] @ buf @ [13, 10]"

lemma chunk_inside: "mg_http_parse_chunk s = (n, d, data_len) \<Longrightarrow> n \<noteq> 0 \<Longrightarrow> d + data_len + 2 = n \<and> n \<le> length s \<and> 0 < d"
  by (auto simp: mg_http_parse_chunk_def line_end_at_def split: option.splits if_splits)

text \<open>
  The loop of \<open>mg_handle_chunked\<close>. The buffer is the body collapsed so far, what the chunk headers leave behind, and the
  bytes not yet parsed; the copy of a chunk ends before those, so body and rest are the state, and the shift after the
  loop puts them side by side. The result says whether the last chunk has been seen.
\<close>

function chunks_loop :: "bytes \<Rightarrow> bytes \<Rightarrow> bytes \<times> bytes \<times> bool" where
  "chunks_loop body rest =
     (let (n, d, data_len) = mg_http_parse_chunk rest in
      if n = 0 then (body, rest, False)
      else let body = body @ take data_len (drop d rest); rest = drop n rest in
        if data_len = 0 then (body, rest, True) else chunks_loop body rest)"
  by pat_completeness auto

termination
  by (relation "measure (\<lambda>(body, rest). length rest)") (auto dest!: chunk_inside [OF sym])

declare chunks_loop.simps [simp del]

section \<open>What arrives on a connection\<close>

datatype http_event = HttpRequest | HttpReply

record http_conn =
  hc_is_req :: bool        \<comment> \<open>the connection was accepted by a listener\<close>
  hc_recv :: bytes         \<comment> \<open>\<open>recv_mbuf\<close>\<close>
  hc_rcvd :: nat
  hc_chunk :: nat          \<comment> \<open>\<open>chunk.body_len\<close>\<close>
  hc_close :: bool
  hc_websocket :: bool     \<comment> \<open>the WebSocket handler has taken over\<close>
  hc_events :: "(http_event \<times> http_message \<times> bytes) list"

definition http_conn :: "bool \<Rightarrow> http_conn" where
  "http_conn is_req = \<lparr>hc_is_req = is_req, hc_recv = [], hc_rcvd = 0, hc_chunk = 0, hc_close = False, hc_websocket = False,
     hc_events = []\<rparr>"

definition MG_MAX_HTTP_REQUEST_SIZE :: nat where "MG_MAX_HTTP_REQUEST_SIZE = 8192"

definition int_of_size :: "nat \<Rightarrow> int" where
  "int_of_size n = sint (of_nat n :: 32 word)"

definition handle_chunked :: "nat \<Rightarrow> http_message \<Rightarrow> http_conn \<Rightarrow> http_message \<times> http_conn" where
  "handle_chunked req_len hm c =
     (let buf = drop req_len (hc_recv c); (body, rest, last) = chunks_loop (take (hc_chunk c) buf) (drop (hc_chunk c) buf) in
      if length rest < length (drop (hc_chunk c) buf)
      then (let hm = hm\<lparr>hm_body_len := of_nat (length body)\<rparr> in
          if last then hm\<lparr>hm_message_len := of_nat (length body + length rest + req_len)\<rparr> else hm,
          c\<lparr>hc_recv := take req_len (hc_recv c) @ body @ rest, hc_chunk := length body\<rparr>)
      else (hm, c))"

definition is_chunked :: "bytes \<Rightarrow> http_message \<Rightarrow> bool" where
  "is_chunked buf hm = (case mg_get_http_header buf hm (cstr ''Transfer-Encoding'') of
     None \<Rightarrow> False | Some v \<Rightarrow> mg_vcasecmp (str_of buf v) (cstr ''chunked'') = 0)"

text \<open>\<open>mbuf_remove\<close> on the contents.\<close>

definition remove_front :: "u64 \<Rightarrow> bytes \<Rightarrow> bytes" where
  "remove_front n buf = (if 0 < n \<and> unat n \<le> length buf then drop (unat n) buf else buf)"

text \<open>
  One pass from the label \<open>again\<close> of \<open>mg_http_handler\<close> on \<open>MG_EV_RECV\<close>, and whether it goes back to the label. The length
  of the body is set to everything behind the headers before the event.
\<close>

definition http_pass :: "http_conn \<Rightarrow> http_conn \<times> bool" where
  "http_pass c =
     (case mg_parse_http (hc_recv c) (int_of_size (length (hc_recv c))) (hc_is_req c) of
        Inl len \<Rightarrow> (if len < 0 \<or> MG_MAX_HTTP_REQUEST_SIZE \<le> length (hc_recv c) then c\<lparr>hc_close := True\<rparr> else c, False)
      | Inr (req_len, hm) \<Rightarrow>
          let (hm, c) = (if is_chunked (hc_recv c) hm then handle_chunked req_len hm c else (hm, c)) in
          if hc_is_req c \<and> mg_get_http_header (hc_recv c) hm (cstr ''Sec-WebSocket-Key'') \<noteq> None
          then (c\<lparr>hc_recv := remove_front (of_nat req_len) (hc_recv c), hc_websocket := True\<rparr>, False)
          else if hc_rcvd c < unat (hm_message_len hm) then (c, False)
          else let hm = hm\<lparr>hm_body_len := of_nat (length (hc_recv c) - req_len)\<rparr>;
              recv = remove_front (hm_message_len hm) (hc_recv c);
              event = (if hc_is_req c then HttpRequest else HttpReply, hm, hc_recv c) in
            (c\<lparr>hc_recv := recv, hc_rcvd := length recv, hc_chunk := 0, hc_events := hc_events c @ [event]\<rparr>, recv \<noteq> []))"

partial_function (option) http_again :: "http_conn \<Rightarrow> http_conn option" where
  "http_again c = (case http_pass c of (c, again) \<Rightarrow> if again then http_again c else Some c)"

definition http_recv :: "bytes \<Rightarrow> http_conn \<Rightarrow> http_conn option" where
  "http_recv data c = http_again (c\<lparr>hc_recv := hc_recv c @ data, hc_rcvd := hc_rcvd c + length data\<rparr>)"

text \<open>The bytes of a connection come in pieces.\<close>

fun http_pieces :: "bytes list \<Rightarrow> http_conn \<Rightarrow> http_conn option" where
  "http_pieces [] c = Some c"
| "http_pieces (d # ds) c = Option.bind (http_recv d c) (http_pieces ds)"

definition http_close :: "http_conn \<Rightarrow> http_conn" where
  "http_close c =
     (if hc_recv c \<noteq> []
      then (case mg_parse_http (hc_recv c) (int_of_size (length (hc_recv c))) (hc_is_req c) of
          Inl len \<Rightarrow> c
        | Inr (req_len, hm) \<Rightarrow>
            let n = length (hc_recv c); hm = hm\<lparr>hm_message_len := of_nat n, hm_body_len := of_nat (n - req_len)\<rparr> in
            c\<lparr>hc_events := hc_events c @ [(if hc_is_req c then HttpRequest else HttpReply, hm, hc_recv c)]\<rparr>)
      else c)\<lparr>hc_rcvd := 0\<rparr>"

end
