(* ===== verification/MgForm.thy ===== *)
theory MgForm
  imports MgHttp
begin

text \<open>
  Bodies of requests in \<open>network/mongoose/mongoose.c\<close>: multipart bodies with the parameters of their headers, and
  form variables with the coding of URLs. An array of the caller is the list of its bytes.
\<close>

section \<open>\<open>altbuf\<close>: a buffer of the caller, and an \<open>mbuf\<close> when that is full\<close>

record altbuf =
  ab_user :: bytes
  ab_m :: bytes
  ab_len :: nat

definition altbuf_init :: "bytes \<Rightarrow> altbuf" where
  "altbuf_init buf = \<lparr>ab_user = buf, ab_m = [], ab_len = 0\<rparr>"

definition altbuf_append :: "altbuf \<Rightarrow> byte \<Rightarrow> altbuf" where
  "altbuf_append ab c =
     (if ab_len ab < length (ab_user ab) then ab\<lparr>ab_user := (ab_user ab)[ab_len ab := c], ab_len := ab_len ab + 1\<rparr>
      else let m = (if 0 < ab_len ab \<and> ab_m ab = [] then take (ab_len ab) (ab_user ab) else ab_m ab) @ [c] in
        ab\<lparr>ab_m := m, ab_len := length m\<rparr>)"

definition altbuf_reset :: "altbuf \<Rightarrow> altbuf" where
  "altbuf_reset ab = ab\<lparr>ab_m := [], ab_len := 0\<rparr>"

definition altbuf_reallocated :: "altbuf \<Rightarrow> bool" where
  "altbuf_reallocated ab = (length (ab_user ab) < ab_len ab)"

section \<open>Parameters of a header\<close>

text \<open>
  The loop that finds where the variable starts, from the first byte of the header to its end, and the loop that copies
  its value: \<open>ch\<close>, \<open>ch1\<close> and \<open>ch2\<close> end it, and behind a quote a backslash hides the next quote.
\<close>

definition find_var :: "bytes \<Rightarrow> nat \<Rightarrow> int \<Rightarrow> bytes \<Rightarrow> nat option" where
  "find_var buf p end name =
     List.find (\<lambda>s. (s = p \<or> c_at buf (s - 1) \<in> {32, 44, 59}) \<and> c_at buf (s + length name) = 61 \<and>
       strncmp (drop s buf) name (length name) = 0) [p ..< nat (end - int (length name))]"

function value_loop :: "bytes \<Rightarrow> nat \<Rightarrow> nat \<Rightarrow> byte \<Rightarrow> byte \<Rightarrow> byte \<Rightarrow> altbuf \<Rightarrow> nat \<times> altbuf" where
  "value_loop buf p end ch ch1 ch2 ab =
     (if p < end \<and> c_at buf p \<noteq> ch \<and> c_at buf p \<noteq> ch1 \<and> c_at buf p \<noteq> ch2
      then let p = (if ch \<noteq> 32 \<and> c_at buf p = 92 \<and> c_at buf (p + 1) = ch then p + 1 else p) in
        value_loop buf (p + 1) end ch ch1 ch2 (altbuf_append ab (c_at buf p))
      else (p, ab))"
  by pat_completeness auto

termination
  by (relation "measure (\<lambda>(buf, p, end, _). end - p)") (auto split: if_splits)

declare value_loop.simps [simp del]

definition header_internal :: "bytes \<Rightarrow> nat \<Rightarrow> int \<Rightarrow> bytes \<Rightarrow> altbuf \<Rightarrow> altbuf" where
  "header_internal buf p end name ab =
     (let ab = (case find_var buf p end name of
          None \<Rightarrow> ab
        | Some s \<Rightarrow>
            let s = s + length name + 1 in
            if int s < end
            then let q = c_at buf s; quoted = (q = 34 \<or> q = 39);
                (p, ab) = (if quoted then value_loop buf (s + 1) (nat end) q q q ab else value_loop buf s (nat end) 32 44 59 ab) in
              if quoted \<and> c_at buf p \<noteq> q then altbuf_reset ab else ab
            else ab) in
      if 0 < ab_len ab then altbuf_append ab 0 else ab)"

text \<open>
  \<open>mg_http_parse_header2\<close> with what \<open>mg_parse_multipart\<close> does with its result: the array after it, where the first byte is
  NUL when the value did not fit.
\<close>

definition header_param :: "bytes \<Rightarrow> nat \<Rightarrow> int \<Rightarrow> bytes \<Rightarrow> bytes \<Rightarrow> bytes" where
  "header_param buf p end name arr =
     (let ab = header_internal buf p end name (altbuf_init (arr[0 := 0])) in
      if altbuf_reallocated ab then (ab_user ab)[0 := 0] else ab_user ab)"

section \<open>Multipart bodies\<close>

definition mg_get_line_len :: "bytes \<Rightarrow> nat" where
  "mg_get_line_len buf = (case memchr buf 10 of None \<Rightarrow> 0 | Some len \<Rightarrow> len + 1)"

lemma line_len_le: "mg_get_line_len buf \<le> length buf"
  using memchr_Some [of buf 10] by (auto simp: mg_get_line_len_def split: option.splits)

definition content_disposition :: bytes where
  "content_disposition = cstr ''Content-Disposition: ''"

text \<open>The loop over the headers of a part, from offset \<open>n\<close> to \<open>hl\<close>.\<close>

function part_headers :: "bytes \<Rightarrow> nat \<Rightarrow> nat \<Rightarrow> bytes \<Rightarrow> bytes \<Rightarrow> bytes \<times> bytes" where
  "part_headers buf n hl var_name file_name =
     (let ll = mg_get_line_len (take (hl - n) (drop n buf)) in
      if ll = 0 then (var_name, file_name)
      else if mg_ncasecmp content_disposition (drop n buf) 21 = 0
      then let p = n + 21; end = int (n + ll) - 2 in
        part_headers buf (n + ll) hl (header_param buf p end (cstr ''name'') var_name)
          (header_param buf p end (cstr ''filename'') file_name)
      else part_headers buf (n + ll) hl var_name file_name)"
  by pat_completeness auto

termination
proof (relation "measure (\<lambda>(buf, n, hl, _). hl - n)")
  fix buf n hl ll and var_name file_name v f :: bytes
  assume "ll = mg_get_line_len (take (hl - n) (drop n buf))" "ll \<noteq> 0"
  then have "0 < ll" "ll \<le> hl - n" using line_len_le [of "take (hl - n) (drop n buf)"] by simp_all
  then show "((buf, n + ll, hl, v, f), (buf, n, hl, var_name, file_name)) \<in> measure (\<lambda>(buf, n, hl, _). hl - n)"
    "((buf, n + ll, hl, var_name, file_name), (buf, n, hl, var_name, file_name)) \<in> measure (\<lambda>(buf, n, hl, _). hl - n)"
    by simp_all
qed simp

declare part_headers.simps [simp del]

text \<open>
  \<open>mg_parse_multipart\<close>: the offset of the next boundary (0 when there is no part), the offset and the length of the data, and
  the arrays of the names. The length is a \<open>size_t\<close>.
\<close>

definition mg_parse_multipart :: "bytes \<Rightarrow> bytes \<Rightarrow> bytes \<Rightarrow> nat \<times> (nat \<times> u64) \<times> bytes \<times> bytes" where
  "mg_parse_multipart buf var_name file_name =
     (let shl = mg_http_get_request_len buf (int_of_size (length buf)); none = (0, (0, 0), var_name, file_name) in
      if buf = [] \<or> shl \<le> 0 then none
      else let hl = nat shl; bl = mg_get_line_len buf in
        if c_at buf 0 \<noteq> 45 \<or> c_at buf 1 \<noteq> 45 \<or> c_at buf 2 = 10 then none
        else let (var_name, file_name) = part_headers buf bl hl (var_name[0 := 0]) (file_name[0 := 0]) in
          (case List.find (\<lambda>pos. c_at buf pos = 45 \<and> strncmp buf (drop pos buf) (bl - 2) = 0) [hl ..< length buf - (bl - 2)] of
             None \<Rightarrow> (0, (0, 0), var_name, file_name)
           | Some pos \<Rightarrow> (pos, (hl, of_nat pos - 2 - of_nat hl), var_name, file_name)))"

lemma multipart_end: "mg_parse_multipart buf v f = (pos, r) \<Longrightarrow> pos \<noteq> 0 \<Longrightarrow> buf \<noteq> []"
  by (auto simp: mg_parse_multipart_def Let_def)

section \<open>Form variables\<close>

text \<open>
  \<open>mg_url_decode\<close>: the result and what is in \<open>dst\<close>, where \<open>room\<close> bytes are left before the NUL; a wrong escape returns before
  the NUL is written.
\<close>

fun url_decode_loop :: "bool \<Rightarrow> bytes \<Rightarrow> nat \<Rightarrow> bytes \<Rightarrow> int \<times> bytes" where
  "url_decode_loop form [] room dst = (int (length dst), dst @ [0])"
| "url_decode_loop form (c # src) room dst =
     (if room = 0 then (- 1, dst @ [0])
      else if c = 37 then
        (case src of
           a # b # src' \<Rightarrow> (case (hex_value a, hex_value b) of
               (Some x, Some y) \<Rightarrow> url_decode_loop form src' (room - 1) (dst @ [of_nat (x * 16 + y)])
             | _ \<Rightarrow> (- 1, dst))
         | _ \<Rightarrow> (- 1, dst))
      else if form \<and> c = 43 then url_decode_loop form src (room - 1) (dst @ [32])
      else url_decode_loop form src (room - 1) (dst @ [c]))"

definition mg_url_decode :: "bytes \<Rightarrow> nat \<Rightarrow> bool \<Rightarrow> int \<times> bytes" where
  "mg_url_decode src dst_len is_form_url_encoded = url_decode_loop is_form_url_encoded src (dst_len - 1) []"

definition isalnum :: "byte \<Rightarrow> bool" where
  "isalnum b = (isdigit b \<or> (65 \<le> b \<and> b \<le> 90) \<or> (97 \<le> b \<and> b \<le> 122))"

definition mg_url_encode_opt :: "bytes \<Rightarrow> bytes \<Rightarrow> bool \<Rightarrow> bool \<Rightarrow> bytes" where
  "mg_url_encode_opt src safe uppercase_hex space_as_plus =
     (let hex = (if uppercase_hex then cstr ''0123456789ABCDEF'' else cstr ''0123456789abcdef'') in
      concat (map (\<lambda>c. if isalnum c \<or> mg_strchr safe c \<noteq> None then [c]
        else if c = 32 \<and> space_as_plus then [43]
        else [37, hex ! unat (drop_bit 4 c), hex ! unat (c AND 15)]) src))"

definition mg_url_encode :: "bytes \<Rightarrow> bytes" where
  "mg_url_encode src = mg_url_encode_opt src (cstr ''._-$,;~()/'') False False"

text \<open>\<open>mg_get_http_var\<close> with an array of \<open>dst_len\<close> bytes: the result, and the array where the call writes to it.\<close>

definition mg_get_http_var :: "bytes \<Rightarrow> bytes \<Rightarrow> nat \<Rightarrow> int \<times> bytes" where
  "mg_get_http_var buf name dst_len =
     (if dst_len = 0 then (- 2, [])
      else if buf = [] then (- 1, [0])
      else (case List.find (\<lambda>p. (p = 0 \<or> c_at buf (p - 1) = 38) \<and> c_at buf (p + length name) = 61 \<and>
            mg_ncasecmp name (drop p buf) (length name) = 0) [0 ..< length buf - length name] of
          None \<Rightarrow> (- 4, [0])
        | Some p \<Rightarrow>
            let rest = drop (p + length name + 1) buf;
                value = (case memchr rest 38 of None \<Rightarrow> rest | Some k \<Rightarrow> take k rest);
                (len, dst) = mg_url_decode value dst_len True in
            (if len = - 1 then - 3 else len, if dst = [] then [0] else dst)))"

end
