(* ===== verification/MgUri.thy ===== *)
theory MgUri
  imports MgHttp
begin

text \<open>
  URIs in \<open>network/mongoose/mongoose.c\<close>: the state machine that takes one apart, and the resolution of \<open>.\<close> and \<open>..\<close> in a
  path. Parts are offsets and lengths in the text; behind its last byte the text reads as NUL.
\<close>

section \<open>The parts of a URI\<close>

text \<open>\<open>parse_uri_component\<close>: the component, and the offset behind its separator.\<close>

definition parse_uri_component :: "bytes \<Rightarrow> nat \<Rightarrow> bytes \<Rightarrow> mg_str \<times> nat" where
  "parse_uri_component uri p seps =
     (let n = length (takeWhile (\<lambda>c. c \<notin> set seps) (drop p uri)) in
      ((p, n), if p + n < length uri then p + n + 1 else p + n))"

datatype uri_state = P_START | P_SCHEME_OR_PORT | P_USER_INFO | P_HOST | P_PORT | P_REST

record uri_parts =
  ur_scheme :: mg_str
  ur_user_info :: mg_str
  ur_host :: mg_str
  ur_port :: u32
  ur_path :: mg_str
  ur_query :: mg_str
  ur_fragment :: mg_str

definition no_parts :: uri_parts where
  "no_parts = \<lparr>ur_scheme = (0, 0), ur_user_info = (0, 0), ur_host = (0, 0), ur_port = 0, ur_path = (0, 0), ur_query = (0, 0),
     ur_fragment = (0, 0)\<rparr>"

text \<open>The offset of the first byte at or behind \<open>p\<close> that is one of \<open>stops\<close>, or the end.\<close>

definition scan :: "bytes \<Rightarrow> nat \<Rightarrow> bytes \<Rightarrow> nat" where
  "scan uri p stops = p + length (takeWhile (\<lambda>c. c \<notin> set stops) (drop p uri))"

definition port_digits :: "u32 \<Rightarrow> bytes \<Rightarrow> u32" where
  "port_digits = foldl (\<lambda>port c. port * 10 + (scast c - 48))"

text \<open>One round of the loop, by state; \<open>None\<close> is the return of \<open>-1\<close>.\<close>

definition uri_start :: "bytes \<Rightarrow> nat \<Rightarrow> uri_parts \<Rightarrow> uri_state \<times> nat \<times> uri_parts" where
  "uri_start uri p u =
     (if c_at uri p = 91 then (P_HOST, p, u)
      else let p = scan uri p [58, 47] in
        if c_at uri p = 58 \<and> p < length uri then (P_SCHEME_OR_PORT, p, u)
        else (if p < length uri then P_REST else P_START, p, u\<lparr>ur_host := (0, p)\<rparr>))"

definition uri_scheme_or_port :: "bytes \<Rightarrow> nat \<Rightarrow> uri_parts \<Rightarrow> uri_state \<times> nat \<times> uri_parts" where
  "uri_scheme_or_port uri p u =
     (if 3 \<le> length uri - p \<and> strncmp (drop p uri) (cstr ''://'') 3 = 0 then (P_USER_INFO, p + 3, u\<lparr>ur_scheme := (0, p)\<rparr>)
      else (P_PORT, p, u\<lparr>ur_host := (0, p)\<rparr>))"

definition uri_user_info :: "bytes \<Rightarrow> nat \<Rightarrow> uri_parts \<Rightarrow> uri_state \<times> nat \<times> uri_parts" where
  "uri_user_info uri p u =
     (let q = scan uri p [64, 91, 47]; q = (if q = length uri \<or> c_at uri q = 47 \<or> c_at uri q = 91 then p else q) in
      (P_HOST, q, u\<lparr>ur_user_info := (p, q - p)\<rparr>))"

definition uri_host :: "bytes \<Rightarrow> nat \<Rightarrow> uri_parts \<Rightarrow> (uri_state \<times> nat \<times> uri_parts) option" where
  "uri_host uri p u =
     (let p = (if c_at uri p = 64 then p + 1 else p) in
      case (if c_at uri p = 91
            then let q = scan uri p [93] in if q < length uri then Some (q + 1) else None
            else Some (scan uri p [58, 47])) of
        None \<Rightarrow> None
      | Some q \<Rightarrow> Some (if q < length uri \<and> c_at uri q = 58 then P_PORT
                       else if q < length uri \<and> c_at uri q = 47 then P_REST else P_HOST,
                     q, u\<lparr>ur_host := (p, q - p)\<rparr>))"

definition uri_port :: "bytes \<Rightarrow> nat \<Rightarrow> uri_parts \<Rightarrow> uri_state \<times> nat \<times> uri_parts" where
  "uri_port uri p u =
     (let q = scan uri (p + 1) [47] in
      (if q < length uri then P_REST else P_PORT, q,
       u\<lparr>ur_port := port_digits (ur_port u) (take (q - (p + 1)) (drop (p + 1) uri))\<rparr>))"

definition uri_rest :: "bytes \<Rightarrow> nat \<Rightarrow> uri_parts \<Rightarrow> uri_state \<times> nat \<times> uri_parts" where
  "uri_rest uri p u =
     (let (path, p) = parse_uri_component uri p (cstr ''?#'');
          (query, p) = (if p < length uri \<and> c_at uri (p - 1) = 63 then parse_uri_component uri p (cstr ''#'') else (ur_query u, p));
          (fragment, p) = parse_uri_component uri p [] in
      (P_REST, p, u\<lparr>ur_path := path, ur_query := query, ur_fragment := fragment\<rparr>))"

definition uri_step :: "bytes \<Rightarrow> uri_state \<Rightarrow> nat \<Rightarrow> uri_parts \<Rightarrow> (uri_state \<times> nat \<times> uri_parts) option" where
  "uri_step uri st p u =
     (case st of
        P_START \<Rightarrow> Some (uri_start uri p u)
      | P_SCHEME_OR_PORT \<Rightarrow> Some (uri_scheme_or_port uri p u)
      | P_USER_INFO \<Rightarrow> Some (uri_user_info uri p u)
      | P_HOST \<Rightarrow> uri_host uri p u
      | P_PORT \<Rightarrow> Some (uri_port uri p u)
      | P_REST \<Rightarrow> Some (uri_rest uri p u))"

fun uri_rank :: "uri_state \<Rightarrow> nat" where
  "uri_rank P_START = 5" | "uri_rank P_SCHEME_OR_PORT = 4" | "uri_rank P_USER_INFO = 3" | "uri_rank P_HOST = 2"
| "uri_rank P_PORT = 1" | "uri_rank P_REST = 0"

lemma scan_bounds: "p \<le> length uri \<Longrightarrow> p \<le> scan uri p stops \<and> scan uri p stops \<le> length uri"
  by (simp add: scan_def) (metis length_drop length_takeWhile_le add_le_mono1 le_add_diff_inverse nat_add_left_cancel_le)

lemma scan_stop: "scan uri p stops < length uri \<Longrightarrow> p \<le> length uri \<Longrightarrow> c_at uri (scan uri p stops) \<in> set stops"
  using nth_length_takeWhile [of "\<lambda>c. c \<notin> set stops" "drop p uri"] by (simp add: scan_def c_at_def)

text \<open>A round moves on, or goes to a later state.\<close>

lemma component_end: "parse_uri_component uri p seps = (v, q) \<Longrightarrow> p \<le> length uri \<Longrightarrow> p \<le> q \<and> q \<le> length uri \<and> fst v = p \<and> p + snd v \<le> q"
  using scan_bounds [of p uri seps] by (auto simp: parse_uri_component_def Let_def scan_def split: if_splits)

lemma component_moves: "parse_uri_component uri p seps = (v, q) \<Longrightarrow> p < length uri \<Longrightarrow> p < q"
  by (auto simp: parse_uri_component_def Let_def split: if_splits)

lemma uri_start_moves: "uri_start uri p u = (st, q, u') \<Longrightarrow> p < length uri \<Longrightarrow>
    p \<le> q \<and> q \<le> length uri \<and> (p < q \<or> uri_rank st < uri_rank P_START)"
  using scan_bounds [of p uri "[58, 47]"] by (auto simp: uri_start_def Let_def split: if_splits)

lemma uri_scheme_moves: "uri_scheme_or_port uri p u = (st, q, u') \<Longrightarrow> p < length uri \<Longrightarrow>
    p \<le> q \<and> q \<le> length uri \<and> (p < q \<or> uri_rank st < uri_rank P_SCHEME_OR_PORT)"
  by (auto simp: uri_scheme_or_port_def split: if_splits)

lemma uri_user_moves: "uri_user_info uri p u = (st, q, u') \<Longrightarrow> p < length uri \<Longrightarrow>
    p \<le> q \<and> q \<le> length uri \<and> (p < q \<or> uri_rank st < uri_rank P_USER_INFO)"
  using scan_bounds [of p uri "[64, 91, 47]"] by (auto simp: uri_user_info_def Let_def split: if_splits)

lemma uri_host_moves: "uri_host uri p u = Some (st, q, u') \<Longrightarrow> p < length uri \<Longrightarrow>
    p \<le> q \<and> q \<le> length uri \<and> (p < q \<or> uri_rank st < uri_rank P_HOST)"
proof -
  assume h: "uri_host uri p u = Some (st, q, u')" and p: "p < length uri"
  let ?p = "if c_at uri p = 64 then p + 1 else p"
  have le: "p \<le> ?p" "?p \<le> length uri" using p by simp_all
  have stop: "scan uri ?p [58, 47] < length uri \<Longrightarrow> c_at uri (scan uri ?p [58, 47]) \<in> {58, 47}"
    using scan_stop [of uri ?p "[58, 47]"] le by simp
  have b: "?p \<le> scan uri ?p [58, 47]" "scan uri ?p [58, 47] \<le> length uri" "?p \<le> scan uri ?p [93]"
    using scan_bounds [OF le(2)] by blast+
  from h consider (bracket) "c_at uri ?p = 91" "scan uri ?p [93] < length uri" "q = scan uri ?p [93] + 1"
    | (name) "c_at uri ?p \<noteq> 91" "q = scan uri ?p [58, 47]"
        "st = (if q < length uri \<and> c_at uri q = 58 then P_PORT else if q < length uri \<and> c_at uri q = 47 then P_REST else P_HOST)"
    unfolding uri_host_def Let_def by (simp split: if_split_asm)
  then show ?thesis
  proof cases
    case bracket
    then show ?thesis using b le by linarith
  next
    case name
    have "p < q \<or> uri_rank st < uri_rank P_HOST"
    proof (cases "q < length uri")
      case True
      then show ?thesis using stop name by auto
    qed (use p b name in linarith)
    then show ?thesis using b le name(2) by linarith
  qed
qed

lemma uri_port_moves: "uri_port uri p u = (st, q, u') \<Longrightarrow> p < length uri \<Longrightarrow> p < q \<and> q \<le> length uri"
  using scan_bounds [of "p + 1" uri "[47]"] by (auto simp: uri_port_def Let_def split: if_splits)

lemma uri_rest_moves: "uri_rest uri p u = (st, q, u') \<Longrightarrow> p < length uri \<Longrightarrow> p < q \<and> q \<le> length uri"
  using component_moves [of uri p "cstr ''?#''"] component_end [of uri p "cstr ''?#''"]
  by (auto simp: uri_rest_def Let_def split: prod.splits if_splits dest!: component_end)

lemma uri_step_moves:
  assumes "uri_step uri st p u = Some (st', p', u')" "p < length uri"
  shows "p \<le> p' \<and> p' \<le> length uri \<and> (p < p' \<or> uri_rank st' < uri_rank st)"
  using assms uri_start_moves [of uri p u st' p' u'] uri_scheme_moves [of uri p u st' p' u'] uri_user_moves [of uri p u st' p' u']
    uri_host_moves [of uri p u st' p' u'] uri_port_moves [of uri p u st' p' u'] uri_rest_moves [of uri p u st' p' u']
  by (cases st) (auto simp: uri_step_def)

text \<open>The loop of \<open>mg_parse_uri\<close>: it ends, since every round moves on or goes to a later state.\<close>

function uri_loop :: "bytes \<Rightarrow> uri_state \<Rightarrow> nat \<Rightarrow> uri_parts \<Rightarrow> uri_parts option" where
  "uri_loop uri st p u =
     (if p < length uri
      then (case uri_step uri st p u of None \<Rightarrow> None | Some (st, p, u) \<Rightarrow> uri_loop uri st p u)
      else Some u)"
  by pat_completeness auto

termination
proof (relation "(\<lambda>(uri, st, p, u). length uri - p) <*mlex*> measure (\<lambda>(uri, st, p, u). uri_rank st)")
  fix uri st p u x st' y p' u'
  assume "p < length uri" "uri_step uri st p u = Some x" "(st', y) = x" "(p', u') = y"
  then have "p \<le> p' \<and> p' \<le> length uri \<and> (p < p' \<or> uri_rank st' < uri_rank st)" by (intro uri_step_moves) auto
  then show "((uri, st', p', u'), (uri, st, p, u)) \<in> (\<lambda>(uri, st, p, u). length uri - p) <*mlex*> measure (\<lambda>(uri, st, p, u). uri_rank st)"
    using \<open>p < length uri\<close> by (auto simp: mlex_prod_def)
qed (simp add: wf_mlex)

declare uri_loop.simps [simp del]

definition mg_parse_uri :: "bytes \<Rightarrow> uri_parts option" where
  "mg_parse_uri uri = uri_loop uri P_START 0 no_parts"

section \<open>Paths\<close>

text \<open>
  \<open>mg_normalize_uri_path\<close>: the loop over the components with what has been written, where \<open>..\<close> goes back to the slash
  before the last component; \<open>None\<close> for a path that does not start with a slash.
\<close>

definition path_back :: "bytes \<Rightarrow> bytes" where
  "path_back out =
     (let out = (if 1 < length out \<and> last out = 47 then butlast out else out) in
      rev (dropWhile (\<lambda>c. c \<noteq> 47) (rev out)))"

function path_loop :: "bytes \<Rightarrow> bytes \<Rightarrow> bytes" where
  "path_loop s out =
     (if s = [] then out
      else let (component, n) = parse_uri_component s 0 [47]; c = str_of s component in
        path_loop (drop n s)
          (if mg_vcmp c [46] = 0 then out else if mg_vcmp c [46, 46] = 0 then path_back out else out @ take n s))"
  by pat_completeness auto

termination
  by (relation "measure (\<lambda>(s, out). length s)") (auto dest!: component_moves [OF sym])

declare path_loop.simps [simp del]

definition mg_normalize_uri_path :: "bytes \<Rightarrow> bytes option" where
  "mg_normalize_uri_path path =
     (if path = [] \<or> hd path \<noteq> 47 then None
      else let out = path_loop path [] in Some (if out = [] then [47] else out))"

end
