(* ===== verification/HttpWire.thy ===== *)
theory HttpWire
  imports HttpSecure MgForm MgUri MgBase64
begin

text \<open>
  What stands between the secure protocol and the network: the text of a request (\<open>HttpClient.cpp\<close>,
  \<open>network/mongoose/mongooseExt.cpp\<close>), the request the server makes of it and the choice of the endpoint, and the text of
  an answer (\<open>HttpServer.cpp\<close>, \<open>mongoose.c\<close>). A \<open>%s\<close> prints a C string up to its NUL.
\<close>

section \<open>The text of a request\<close>

text \<open>\<open>%.*s\<close>: a negative precision prints the whole string.\<close>

definition print_prec :: "int \<Rightarrow> bytes \<Rightarrow> bytes" where
  "print_prec n s = (if n < 0 then c_str s else take (nat n) (c_str s))"

definition mg_basic_auth_header :: "bytes \<Rightarrow> bytes \<Rightarrow> bytes" where
  "mg_basic_auth_header user pass =
     (let ctx = cs_base64_init [0, 0, 0] (cstr ''Authorization: Basic ''); ctx = cs_base64_update ctx user;
          ctx = (if 0 < length pass then cs_base64_update (cs_base64_update ctx [58]) pass else ctx) in
      b64_out (cs_base64_finish ctx) @ [13, 10])"

text \<open>\<open>mg_connect_http_base\<close>, as far as the text of the request needs it: the parts of the URL, where the query belongs to the path.\<close>

definition http_url :: "bytes \<Rightarrow> uri_parts option" where
  "http_url url =
     (case mg_parse_uri url of
        None \<Rightarrow> None
      | Some u \<Rightarrow>
          let u = (if 0 < snd (ur_query u) then u\<lparr>ur_path := (fst (ur_path u), snd (ur_path u) + snd (ur_query u) + 1)\<rparr> else u);
              scheme = str_of url (ur_scheme u) in
          if scheme = [] \<or> mg_vcmp scheme (cstr ''http'') = 0 \<or> mg_vcmp scheme (cstr ''https'') = 0 then Some u else None)"

text \<open>
  The bytes \<open>mg_connect_http_opt1\<close> sends. The \<open>Host\<close> is printed from the host up to the path; without a path the code
  subtracts pointers into different strings, and \<open>gap\<close> is what comes of it.
\<close>

definition http_request_text :: "int \<Rightarrow> bytes \<Rightarrow> bytes \<Rightarrow> bytes \<Rightarrow> bytes \<Rightarrow> bytes option" where
  "http_request_text gap url method extra_headers post_data =
     (let url = c_str url in
      case http_url url of
        None \<Rightarrow> None
      | Some u \<Rightarrow>
          let auth = (if 0 < snd (ur_user_info u) then mg_basic_auth_header (str_of url (ur_user_info u)) [] else []);
              path = (if snd (ur_path u) = 0 then [47] else str_of url (ur_path u));
              host = (if snd (ur_host u) = 0 then []
                else print_prec (if snd (ur_path u) = 0 then gap else int (fst (ur_path u)) - int (fst (ur_host u)))
                  (drop (fst (ur_host u)) url));
              n = int_of_size (length post_data) in
          Some (c_str method @ [32] @ path @ cstr '' HTTP/1.1'' @ [13, 10] @ cstr ''Host: '' @ host @ [13, 10] @
            cstr ''Content-Length: '' @ to_dec (unat (word_of_int n :: u64)) @ [13, 10] @ auth @ c_str extra_headers @ [13, 10] @
            (if 0 < n then post_data else [])))"

definition idChars :: bytes where
  "idChars = cstr ''0123456789_abcdefghijklmnopqrstuvwxyzABCDEFGHIJKLMNOPQRSTUVWXYZ''"

definition randomString :: "bytes \<Rightarrow> bytes" where
  "randomString randomBytes = map (\<lambda>b. idChars ! (unat b mod length idChars)) randomBytes"

definition bin_boundary :: "bytes \<Rightarrow> bytes" where
  "bin_boundary randomBytes = cstr ''==boundary=='' @ randomString randomBytes"

text \<open>The headers and the body of \<open>sendBinRequest\<close>.\<close>

definition bin_headers :: "bytes \<Rightarrow> bytes" where
  "bin_headers boundary =
     cstr ''Content-Type: multipart/form-data; boundary='' @ boundary @ [13, 10] @
     cstr ''User-Agent: Universa U8 API Client'' @ [13, 10] @ cstr ''connection: close'' @ [13, 10]"

definition bin_part_headers :: bytes where
  "bin_part_headers =
     cstr ''Content-Disposition: form-data; name='' @ [34] @ cstr ''requestData'' @ [34] @ cstr ''; filename='' @ [34] @
     cstr ''requestData.boss'' @ [34, 13, 10] @ cstr ''Content-Type: application/octet-stream'' @ [13, 10] @
     cstr ''Content-Transfer-Encoding: binary'' @ [13, 10, 13, 10]"

definition bin_body :: "bytes \<Rightarrow> bytes \<Rightarrow> bytes" where
  "bin_body boundary reqBody =
     [45, 45] @ boundary @ [13, 10] @ bin_part_headers @ reqBody @ [13, 10, 45, 45] @ boundary @ [45, 45, 13, 10]"

section \<open>The request at the server\<close>

record server_request =
  sr_queryString :: bytes
  sr_method :: bytes
  sr_body :: bytes
  sr_endpoint :: bytes
  sr_path :: bytes

definition new_request :: "bytes \<Rightarrow> http_message \<Rightarrow> bytes \<Rightarrow> bytes \<Rightarrow> server_request" where
  "new_request buf hm endpoint path =
     \<lparr>sr_queryString = str_of buf (hm_query_string hm), sr_method = str_of buf (hm_method hm),
      sr_body = str_of buf (hm_body_p hm, unat (hm_body_len hm)), sr_endpoint = endpoint, sr_path = path\<rparr>"

text \<open>The loop that cuts the last component off the path until a route is found.\<close>

definition last_slash :: "bytes \<Rightarrow> nat option" where
  "last_slash s = (case memchr (rev s) 47 of None \<Rightarrow> None | Some k \<Rightarrow> Some (length s - 1 - k))"

lemma last_slash_less: "last_slash s = Some i \<Longrightarrow> i < length s"
  using memchr_Some [of "rev s" 47] by (fastforce simp: last_slash_def split: option.splits)

function find_route :: "(bytes \<Rightarrow> bool) \<Rightarrow> bytes \<Rightarrow> bytes option" where
  "find_route routes s =
     (if routes s then Some s else (case last_slash s of None \<Rightarrow> None | Some i \<Rightarrow> find_route routes (take i s)))"
  by pat_completeness auto

termination
  by (relation "measure (\<lambda>(routes, s). length s)") (auto dest: last_slash_less)

declare find_route.simps [simp del]

definition service_request :: "(bytes \<Rightarrow> bool) \<Rightarrow> bytes \<Rightarrow> http_message \<Rightarrow> server_request option" where
  "service_request routes buf hm =
     (let strUri = str_of buf (hm_uri hm) in map_option (\<lambda>s. new_request buf hm s strUri) (find_route routes strUri))"

text \<open>
  \<open>parseMultipartData\<close>: \<open>None\<close> when the vector of a part cannot be made, which throws. The two arrays live on the stack
  through the loop.
\<close>

function multipart_loop :: "bytes \<Rightarrow> bytes \<Rightarrow> bytes \<Rightarrow> http_params \<Rightarrow> http_params option" where
  "multipart_loop body var_name file_name res =
     (let (n2, (chunk, chunk_len), var_name, file_name) = mg_parse_multipart body var_name file_name in
      if n2 = 0 then Some res
      else if length body < unat chunk_len then None
      else multipart_loop (drop n2 body) var_name file_name
        (res(c_str var_name \<mapsto> take (unat chunk_len) (drop chunk body))))"
  by pat_completeness auto

termination
  by (relation "measure (\<lambda>(body, _). length body)") (auto dest!: multipart_end [OF sym])

declare multipart_loop.simps [simp del]

definition parseMultipartData :: "bytes \<Rightarrow> bytes \<Rightarrow> server_request \<Rightarrow> http_params option" where
  "parseMultipartData var_name file_name req = multipart_loop (sr_body req) var_name file_name (\<lambda>k. None)"

section \<open>The text of an answer\<close>

definition mg_status_message :: "int \<Rightarrow> bytes" where
  "mg_status_message status_code =
     (if status_code = 206 then cstr ''Partial Content'' else if status_code = 301 then cstr ''Moved''
      else if status_code = 302 then cstr ''Found'' else if status_code = 400 then cstr ''Bad Request''
      else if status_code = 401 then cstr ''Unauthorized'' else if status_code = 403 then cstr ''Forbidden''
      else if status_code = 404 then cstr ''Not Found'' else if status_code = 416 then cstr ''Requested Range Not Satisfiable''
      else if status_code = 418 then cstr ''I'' @ [39] @ cstr ''m a teapot'' else if status_code = 500 then cstr ''Internal Server Error''
      else if status_code = 502 then cstr ''Bad Gateway'' else if status_code = 503 then cstr ''Service Unavailable''
      else cstr ''OK'')"

definition mg_send_response_line :: "int \<Rightarrow> bytes \<Rightarrow> bytes" where
  "mg_send_response_line status_code extra_headers =
     cstr ''HTTP/1.1 '' @ to_string status_code @ [32] @ mg_status_message status_code @ [13, 10] @
     (let extra = c_str extra_headers in if 0 < length extra then extra @ [13, 10] else [])"

definition mg_send_head :: "int \<Rightarrow> int \<Rightarrow> bytes \<Rightarrow> bytes" where
  "mg_send_head status_code content_length extra_headers =
     mg_send_response_line status_code extra_headers @
     (if content_length < 0 then cstr ''Transfer-Encoding: chunked'' @ [13, 10]
      else cstr ''Content-Length: '' @ to_string content_length @ [13, 10]) @ [13, 10]"

definition mg_http_send_error :: "int \<Rightarrow> bytes" where
  "mg_http_send_error code =
     (let reason = mg_status_message code in
      mg_send_head code (int (length reason)) (cstr ''Content-Type: text/plain'' @ [13, 10] @ cstr ''Connection: close'') @ reason)"

text \<open>The extra headers in the order the \<open>unordered_map\<close> has them.\<close>

fun header_lines :: "(bytes \<times> bytes) list \<Rightarrow> bytes" where
  "header_lines [] = []"
| "header_lines [(k, v)] = k @ cstr '': '' @ v"
| "header_lines ((k, v) # h) = k @ cstr '': '' @ v @ [13, 10] @ header_lines h"

definition sendAnswer :: "(bytes \<times> bytes) list \<Rightarrow> int \<Rightarrow> bytes \<Rightarrow> bytes" where
  "sendAnswer extHeaders statusCode answerBody =
     mg_send_head statusCode (sint (of_nat (length answerBody) :: u64)) (header_lines extHeaders) @ answerBody"

section \<open>A request of the secure protocol and its answer\<close>

definition secure_routes :: "bytes \<Rightarrow> bool" where
  "secure_routes s = (s = cstr ''/connect'' \<or> s = cstr ''/get_token'' \<or> s = cstr ''/command'')"

definition secure_endpoint :: "http_env \<Rightarrow> http_random \<Rightarrow> (nat \<Rightarrow> bytes \<Rightarrow> bytes) \<Rightarrow> bytes \<Rightarrow> bytes \<Rightarrow> server_request \<Rightarrow>
    http_server \<Rightarrow> http_error + (http_answer \<times> http_server)" where
  "secure_endpoint E rnd processor var_name file_name req sv =
     (case parseMultipartData var_name file_name req of
        None \<Rightarrow> catch_answer E sv (Inl BadPartLength)
      | Some res \<Rightarrow>
          if sr_endpoint req = cstr ''/connect'' then connect E rnd res sv
          else if sr_endpoint req = cstr ''/get_token'' then get_token E rnd res sv
          else command E rnd processor res sv)"

text \<open>
  What one exchange leaves open: the root of the URLs, the random bytes of the boundary, how the bytes of the two
  directions come in pieces, the two arrays on the stack, the order of the headers of the answer.
\<close>

record http_wire =
  hw_rootUrl :: bytes
  hw_gap :: int
  hw_randomBytes :: bytes
  hw_request_pieces :: "bytes \<Rightarrow> bytes list"
  hw_answer_pieces :: "bytes \<Rightarrow> bytes list"
  hw_var_name :: bytes
  hw_file_name :: bytes
  hw_extHeaders :: "(bytes \<times> bytes) list"

text \<open>The reply the callback of the client gets, if one comes.\<close>

definition client_reply :: "http_wire \<Rightarrow> bytes \<Rightarrow> http_answer option" where
  "client_reply W text =
     (case http_pieces (hw_answer_pieces W text) (http_conn False) of
        None \<Rightarrow> None
      | Some c \<Rightarrow> (case hc_events (http_close c) of
            [] \<Rightarrow> None
          | (ev, hm, buf) # _ \<Rightarrow> Some (nat (hm_resp_code hm), str_of buf (hm_body_p hm, unat (hm_body_len hm)))))"

definition over_wire :: "http_wire \<Rightarrow> http_env \<Rightarrow> (nat \<Rightarrow> http_random) \<Rightarrow> (nat \<Rightarrow> bytes \<Rightarrow> bytes) \<Rightarrow> (nat \<times> http_server) transport" where
  "over_wire W E rnds processor endpoint req s =
     (let boundary = bin_boundary (hw_randomBytes W) in
      case http_request_text (hw_gap W) (hw_rootUrl W @ endpoint) (cstr ''POST'') (bin_headers boundary) (bin_body boundary req) of
        None \<Rightarrow> (None, s)
      | Some text \<Rightarrow> (case http_pieces (hw_request_pieces W text) (http_conn True) of
          None \<Rightarrow> (None, s)
        | Some c \<Rightarrow> (case hc_events c of
            [] \<Rightarrow> (None, s)
          | (ev, hm, buf) # _ \<Rightarrow> (case service_request secure_routes buf hm of
              None \<Rightarrow> (client_reply W (mg_http_send_error 404), s)
            | Some r \<Rightarrow> (case secure_endpoint E (rnds (fst s)) processor (hw_var_name W) (hw_file_name W) r (snd s) of
                Inl e \<Rightarrow> (None, Suc (fst s), snd s)
              | Inr ((code, body), sv) \<Rightarrow> (client_reply W (sendAnswer (hw_extHeaders W) (int code) body), Suc (fst s), sv))))))"

end
