(* ===== verification/HttpText.thy ===== *)
theory HttpText
  imports HttpWire
begin

text \<open>
  The text of requests and responses is read as it was written: the parser on a request line or a status line with headers,
  for every continuation of the buffer, and on the beginnings of the text.
\<close>

section \<open>Characters and tokens\<close>

definition text_char :: "byte \<Rightarrow> bool" where
  "text_char c = (isprint c \<or> 128 \<le> c)"

definition word_char :: "byte \<Rightarrow> bool" where
  "word_char c = (text_char c \<and> c \<noteq> 32)"

definition key_char :: "byte \<Rightarrow> bool" where
  "key_char c = (word_char c \<and> c \<noteq> 58)"

lemma text_char_facts: "text_char c \<Longrightarrow> c \<noteq> 0 \<and> c \<noteq> 10 \<and> c \<noteq> 13 \<and> (isprint c \<or> \<not> c < 128)"
  by (auto simp: text_char_def isprint_def)

lemma word_char_no_space: "word_char c \<Longrightarrow> \<not> isspace c \<and> text_char c \<and> c \<noteq> 32"
  using text_char_facts [of c] by (auto simp: word_char_def text_char_def isprint_def isspace_def) unat_arith+

lemma takeWhile_token: "list_all P w \<Longrightarrow> (r = [] \<or> \<not> P (hd r)) \<Longrightarrow> takeWhile P (w @ r) = w"
  by (cases r) (auto simp: list_all_iff takeWhile_append2 takeWhile_eq_all_conv)

lemma skip_token:
  assumes "buf = pre @ w @ d @ post" "s = length pre" "s + length w + length d \<le> end"
    "list_all (\<lambda>c. \<not> is_delim delims c) w" "list_all (is_delim delims) d" "d \<noteq> []"
    "end = s + length w + length d \<or> (post \<noteq> [] \<and> \<not> is_delim delims (hd post))"
  shows "mg_skip buf s end delims = ((s, length w), s + length w + length d)"
proof -
  let ?k = "end - (s + length w + length d)"
  have "take (end - s) (drop s buf) = w @ d @ take ?k post"
    using assms(1-3) by simp
  moreover have "takeWhile (\<lambda>c. \<not> is_delim delims c) (w @ d @ take ?k post) = w"
    using assms(4,5,6) by (intro takeWhile_token) (auto simp: list_all_iff)
  moreover have "take (end - (s + length w)) (drop (s + length w) buf) = d @ take ?k post"
    using assms(1-3) by simp
  moreover have "takeWhile (is_delim delims) (d @ take ?k post) = d"
    using assms(5,7) by (intro takeWhile_token) (auto simp: hd_take)
  ultimately show ?thesis by (simp add: mg_skip_def Let_def)
qed

lemma skip_end: "mg_skip buf s s delims = ((s, 0), s)"
  by (simp add: mg_skip_def)

section \<open>Headers\<close>

fun header_text :: "(bytes \<times> bytes) list \<Rightarrow> bytes" where
  "header_text [] = []"
| "header_text ((k, v) # h) = k @ [58, 32] @ v @ [13, 10] @ header_text h"

definition field_ok :: "bytes \<times> bytes \<Rightarrow> bool" where
  "field_ok f = (fst f \<noteq> [] \<and> list_all key_char (fst f) \<and> snd f \<noteq> [] \<and> list_all text_char (snd f) \<and>
     hd (snd f) \<noteq> 32 \<and> hd (snd f) \<noteq> 58 \<and> last (snd f) \<noteq> 32)"

definition is_length :: "bytes \<Rightarrow> bool" where
  "is_length k = (mg_ncasecmp (k @ [58]) (cstr ''Content-Length'') 14 = 0)"

definition put_header :: "nat \<Rightarrow> nat \<Rightarrow> bytes \<times> bytes \<Rightarrow> http_message \<Rightarrow> http_message" where
  "put_header p len f req =
     (let req = req\<lparr>hm_headers := hm_headers req @ [((p, length (fst f)), (p + length (fst f) + 2, length (snd f)))]\<rparr> in
      if is_length (fst f)
      then let n = to64 (snd f @ [13]) in req\<lparr>hm_body_len := n, hm_message_len := of_nat len + n\<rparr> else req)"

fun put_headers :: "nat \<Rightarrow> nat \<Rightarrow> (bytes \<times> bytes) list \<Rightarrow> http_message \<Rightarrow> http_message" where
  "put_headers p len [] req = req"
| "put_headers p len (f # h) req = put_headers (p + length (fst f) + length (snd f) + 4) len h (put_header p len f req)"

lemma tolower_colon: "tolower c = 58 \<longleftrightarrow> c = 58"
  by (auto simp: tolower_def word_le_nat_alt split: if_splits)

lemma ncasecmp_colon: "58 \<notin> set t \<Longrightarrow> mg_ncasecmp (s @ 58 # x) t n = mg_ncasecmp (s @ [58]) t n"
proof (induction n arbitrary: s t)
  case (Suc n)
  show ?case
  proof (cases s)
    case Nil
    have "c_at t 0 \<noteq> 58" using Suc.prems by (cases t) (auto simp: c_at_def)
    then have "tolower (c_at t 0) \<noteq> 58" by (simp add: tolower_colon)
    then have "str_util_lowercase 58 - str_util_lowercase (c_at t 0) \<noteq> 0"
      by (simp add: str_util_lowercase_def tolower_colon [of 58, simplified] word_uint_eq_iff)
    then show ?thesis using Nil by (simp add: c_at_def [of "58 # x"] c_at_def [of "[58]"])
  next
    case (Cons c s')
    have "58 \<notin> set (drop 1 t)" using Suc.prems by (meson in_set_dropD)
    then show ?thesis using Suc.IH [of "drop 1 t" s'] Cons by (simp add: c_at_def Let_def)
  qed
qed simp

lemma digits_line: "takeWhile isdigit (s @ 13 # x) = takeWhile isdigit (s @ [13])"
  by (induction s) (simp_all add: isdigit_def)

lemma to64_line: "s \<noteq> [] \<Longrightarrow> \<not> isspace (hd s) \<Longrightarrow> to64 (s @ 13 # x) = to64 (s @ [13])"
  using digits_line [of s x] digits_line [of "tl s" x] by (cases s) (simp_all add: to64_def strtol10_def Let_def del: takeWhile.simps)

lemma field_facts:
  assumes "field_ok (k, v)"
  shows "list_all (\<lambda>c. \<not> is_delim (cstr '': '') c) k" "list_all (\<lambda>c. \<not> is_delim [13, 10] c) v" "\<not> isspace (hd v)" "hd v \<in> set v"
    "\<not> is_delim (cstr '': '') (hd v)" "\<not> is_delim [13, 10] (hd k)" "k \<noteq> []" "v \<noteq> []" "last v \<noteq> 32"
proof -
  have k: "list_all key_char k" "k \<noteq> []" and v: "list_all text_char v" "v \<noteq> []" "hd v \<noteq> 32" "hd v \<noteq> 58" "last v \<noteq> 32"
    using assms by (auto simp: field_ok_def)
  show "k \<noteq> []" "v \<noteq> []" "last v \<noteq> 32" "hd v \<in> set v" using k v by simp_all
  show "list_all (\<lambda>c. \<not> is_delim (cstr '': '') c) k"
    using k text_char_facts by (auto simp: list_all_iff key_char_def word_char_def is_delim_def)
  show "list_all (\<lambda>c. \<not> is_delim [13, 10] c) v" using v text_char_facts by (auto simp: list_all_iff is_delim_def)
  have h: "text_char (hd v)" "text_char (hd k)" using k v by (auto simp: list_all_iff key_char_def word_char_def)
  show "\<not> isspace (hd v)" using word_char_no_space [of "hd v"] h(1) v(3) by (simp add: word_char_def)
  show "\<not> is_delim (cstr '': '') (hd v)" using text_char_facts [OF h(1)] v by (simp add: is_delim_def)
  show "\<not> is_delim [13, 10] (hd k)" using text_char_facts [OF h(2)] by (simp add: is_delim_def)
qed

text \<open>One header, with the line ends behind it.\<close>

lemma parse_header_line:
  assumes "buf = pre @ k @ [58, 32] @ v @ d @ post" "field_ok (k, v)" "d \<noteq> []" "hd d = 13" "list_all (is_delim [13, 10]) d"
    "length pre + length k + 2 + length v + length d \<le> end"
    "end = length pre + length k + 2 + length v + length d \<or> (post \<noteq> [] \<and> \<not> is_delim [13, 10] (hd post))"
    "length (hm_headers req) < 39"
  shows "parse_headers buf (length pre) end req =
    parse_headers buf (length pre + length k + 2 + length v + length d) end (put_header (length pre) end (k, v) req)"
proof -
  note f = field_facts [OF assms(2)]
  have k: "mg_skip buf (length pre) end (cstr '': '') = ((length pre, length k), length pre + length k + 2)"
    using skip_token [of buf pre k "[58, 32]" "v @ d @ post" "length pre" "end" "cstr '': ''"] assms(1,6) f
    by (simp add: is_delim_def)
  have v: "mg_skip buf (length pre + length k + 2) end [13, 10] =
      ((length pre + length k + 2, length v), length pre + length k + 2 + length v + length d)"
    using skip_token [of buf "pre @ k @ [58, 32]" v d post "length pre + length k + 2" "end" "[13, 10]"] assms f
    by simp
  have t: "trim_value buf (length pre + length k + 2, length v) = (length pre + length k + 2, length v)"
  proof -
    have "dropWhile (\<lambda>c. c = 32) (rev v) = rev v" using f(8,9) by (cases "rev v") (auto simp: last_rev [symmetric] hd_rev)
    then show ?thesis using assms(1) by (simp add: trim_value_def str_of_def)
  qed
  have d: "d = 13 # tl d" using assms(3,4) by (cases d) simp_all
  have "drop (length pre) buf = k @ 58 # (32 # v @ d @ post)" using assms(1) by simp
  then have n: "mg_ncasecmp (drop (length pre) buf) (cstr ''Content-Length'') 14 = mg_ncasecmp (k @ [58]) (cstr ''Content-Length'') 14"
    using ncasecmp_colon [of "cstr ''Content-Length''" k] by simp
  have "drop (length pre + length k + 2) buf = v @ 13 # (tl d @ post)" using assms(1) d by simp
  then have l: "to64 (drop (length pre + length k + 2) buf) = to64 (v @ [13])" using to64_line [OF f(8,3)] by simp
  have a: "add_header buf end (length pre, length k) (length pre + length k + 2, length v) req = put_header (length pre) end (k, v) req"
    unfolding add_header_def put_header_def is_length_def Let_def fst_conv snd_conv n l ..
  have c: "length (hm_headers req) < MG_MAX_HTTP_HEADERS - 1" using assms(8) by (simp add: MG_MAX_HTTP_HEADERS_def)
  show ?thesis unfolding parse_headers.simps [of buf "length pre"] k v Let_def prod.case t a snd_conv using f(7,8) c by simp
qed

text \<open>All headers, with the empty line behind them.\<close>

lemma put_header_count: "length (hm_headers (put_header p len f req)) = length (hm_headers req) + 1"
  by (simp add: put_header_def Let_def)

lemma parse_headers_end: "parse_headers buf s s req = req"
  by (simp add: parse_headers.simps skip_end)

lemma header_text_head: "h \<noteq> [] \<Longrightarrow> list_all field_ok h \<Longrightarrow> header_text h \<noteq> [] \<and> \<not> is_delim [13, 10] (hd (header_text h))"
proof (cases h)
  case (Cons f t)
  assume "list_all field_ok h"
  then show ?thesis using field_facts(6,7) [of "fst f" "snd f"] Cons by (cases f) simp
qed simp

lemma parse_header_text:
  assumes "list_all field_ok h" "h \<noteq> []" "length (hm_headers req) + length h \<le> 39"
  shows "parse_headers (pre @ header_text h @ [13, 10] @ rest) (length pre) (length pre + length (header_text h) + 2) req =
    put_headers (length pre) (length pre + length (header_text h) + 2) h req"
  using assms
proof (induction h arbitrary: pre req)
  case (Cons f h)
  obtain k v where f: "f = (k, v)" by fastforce
  let ?buf = "pre @ header_text (f # h) @ [13, 10] @ rest" and ?stop = "length pre + length (header_text (f # h)) + 2"
  have ok: "field_ok (k, v)" "list_all field_ok h" and n: "length (hm_headers req) < 39" using Cons.prems f by simp_all
  show ?case
  proof (cases "h = []")
    case True
    have "parse_headers ?buf (length pre) ?stop req = parse_headers ?buf ?stop ?stop (put_header (length pre) ?stop (k, v) req)"
      using parse_header_line [of ?buf pre k v "[13, 10, 13, 10]" rest ?stop req] ok(1) n f True by (simp add: is_delim_def algebra_simps)
    then show ?thesis using True f by (simp add: parse_headers_end)
  next
    case False
    let ?pre = "pre @ k @ [58, 32] @ v @ [13, 10]" and ?req = "put_header (length pre) ?stop (k, v) req"
    have "parse_headers ?buf (length pre) ?stop req = parse_headers ?buf (length ?pre) ?stop ?req"
      using parse_header_line [of ?buf pre k v "[13, 10]" "header_text h @ [13, 10] @ rest" ?stop req] ok n f
        header_text_head [OF False ok(2)] by (simp add: is_delim_def algebra_simps)
    moreover have "parse_headers (?pre @ header_text h @ [13, 10] @ rest) (length ?pre) (length ?pre + length (header_text h) + 2) ?req =
        put_headers (length ?pre) (length ?pre + length (header_text h) + 2) h ?req"
      using Cons.IH [OF ok(2) False, of ?req ?pre] Cons.prems(3) by (simp add: put_header_count)
    ultimately show ?thesis using f by (simp add: algebra_simps eval_nat_numeral)
  qed
qed simp

text \<open>Where the headers are, and which of them \<open>mg_get_http_header\<close> finds.\<close>

fun header_spans :: "nat \<Rightarrow> (bytes \<times> bytes) list \<Rightarrow> (mg_str \<times> mg_str) list" where
  "header_spans p [] = []"
| "header_spans p (f # h) =
     ((p, length (fst f)), (p + length (fst f) + 2, length (snd f))) # header_spans (p + length (fst f) + length (snd f) + 4) h"

definition named_field :: "bytes \<Rightarrow> bytes \<times> bytes \<Rightarrow> bool" where
  "named_field name f = (length (fst f) = length name \<and> mg_ncasecmp (fst f) name (length name) = 0)"

lemma put_headers_spans: "hm_headers (put_headers p len h req) = hm_headers req @ header_spans p h"
  by (induction h arbitrary: p req) (simp_all add: put_header_def Let_def)

lemma ncasecmp_prefix: "n \<le> length s \<Longrightarrow> mg_ncasecmp (s @ x) t n = mg_ncasecmp s t n"
proof (induction n arbitrary: s t)
  case (Suc n)
  then show ?case by (cases s) (simp_all add: c_at_def Let_def)
qed simp

lemma find_header_none:
  assumes "list_all (\<lambda>f. \<not> named_field name f) h"
  shows "List.find (\<lambda>(k, v). snd k = length name \<and> mg_ncasecmp (drop (fst k) (pre @ header_text h @ x)) name (length name) = 0)
    (header_spans (length pre) h) = None"
  using assms
proof (induction h arbitrary: pre)
  case (Cons f h)
  let ?pre = "pre @ fst f @ [58, 32] @ snd f @ [13, 10]"
  have e: "pre @ header_text (f # h) @ x = ?pre @ header_text h @ x" "length ?pre = length pre + length (fst f) + length (snd f) + 4"
    by (cases f, simp)+
  have IH: "List.find (\<lambda>(k, v). snd k = length name \<and> mg_ncasecmp (drop (fst k) (?pre @ header_text h @ x)) name (length name) = 0)
      (header_spans (length ?pre) h) = None"
    using Cons.prems by (intro Cons.IH) simp
  have "drop (length pre) (pre @ header_text (f # h) @ x) = fst f @ [58, 32] @ snd f @ [13, 10] @ header_text h @ x"
    by (cases f) simp
  then have "\<not> (length (fst f) = length name \<and> mg_ncasecmp (drop (length pre) (pre @ header_text (f # h) @ x)) name (length name) = 0)"
    using Cons.prems ncasecmp_prefix [of "length name" "fst f"] by (auto simp: named_field_def)
  then show ?case unfolding header_spans.simps List.find.simps prod.case fst_conv snd_conv
    using IH unfolding e by simp
qed simp

lemma get_header_none:
  assumes "list_all (\<lambda>f. \<not> named_field name f) h" "hm_headers req = []"
  shows "mg_get_http_header (pre @ header_text h @ x) (put_headers (length pre) len h req) name = None"
  using find_header_none [OF assms(1)] assms(2) by (simp add: mg_get_http_header_def put_headers_spans)

section \<open>The length of a head\<close>

fun lines_text :: "bytes list \<Rightarrow> bytes" where
  "lines_text [] = [13, 10]"
| "lines_text (l # ls) = l @ [13, 10] @ lines_text ls"

definition line_ok :: "bytes \<Rightarrow> bool" where
  "line_ok l = (l \<noteq> [] \<and> list_all text_char l)"

lemma len_step: "text_char b \<Longrightarrow> request_len_loop (b # s) i = request_len_loop s (i + 1)"
  using text_char_facts [of b] by auto

lemma len_text: "list_all text_char l \<Longrightarrow> request_len_loop (l @ s) i = request_len_loop s (i + int (length l))"
proof (induction l arbitrary: i)
  case (Cons b l)
  then show ?case using len_step [of b "l @ s" i] by (simp add: add.assoc del: request_len_loop.simps)
qed simp

lemma lines_head: "list_all line_ok ls \<Longrightarrow> ls \<noteq> [] \<Longrightarrow> take 1 (lines_text ls @ x) \<noteq> [10] \<and> take 2 (lines_text ls @ x) \<noteq> [13, 10]"
proof (cases ls)
  case (Cons l ls')
  assume "list_all line_ok ls"
  then obtain b m where l: "l = b # m" "text_char b" using Cons by (cases l) (auto simp: line_ok_def)
  show ?thesis using text_char_facts [OF l(2)] l Cons by simp
qed simp

lemma len_lines:
  "list_all line_ok ls \<Longrightarrow> ls \<noteq> [] \<Longrightarrow> request_len_loop (lines_text ls @ x) i = i + int (length (lines_text ls))"
proof (induction ls arbitrary: i)
  case (Cons l ls)
  have l: "list_all text_char l" using Cons.prems by (simp add: line_ok_def)
  show ?case
  proof (cases "ls = []")
    case True
    then show ?thesis using len_text [OF l, of "[13, 10, 13, 10] @ x" i] by (simp add: word_less_nat_alt)
  next
    case False
    have "request_len_loop (13 # 10 # lines_text ls @ x) j = request_len_loop (lines_text ls @ x) (2 + j)" for j
      using lines_head [OF _ False, of x] Cons.prems by simp
    then show ?thesis using len_text [OF l, of "[13, 10] @ lines_text ls @ x" i] Cons.IH [OF _ False] Cons.prems by simp
  qed
qed simp

text \<open>When the end of the head lies behind the first bytes, they alone have none.\<close>

lemma len_prefix: "0 \<le> i \<Longrightarrow> i + int (length s) < request_len_loop (s @ t) i \<Longrightarrow> request_len_loop s i = 0"
proof (induction s arbitrary: i)
  case (Cons b s)
  let ?j = "request_len_loop ((b # s) @ t) i"
  have p: "isprint b \<or> b = 13 \<or> b = 10 \<or> \<not> b < 128" using Cons.prems by (cases "isprint b") (auto split: if_splits)
  consider (one) "b = 10" "take 1 (s @ t) = [10]" | (two) "b = 10" "take 1 (s @ t) \<noteq> [10]" "take 2 (s @ t) = [13, 10]"
    | (go) "\<not> (b = 10 \<and> take 1 (s @ t) = [10])" "\<not> (b = 10 \<and> take 2 (s @ t) = [13, 10])" by blast
  then show ?case
  proof cases
    case one
    then have "s = []" using Cons.prems by (cases s) auto
    then show ?thesis using one by simp
  next
    case two
    then have "?j = i + 3" by simp
    then have "length s \<le> 1" using Cons.prems by simp
    then have "s = [] \<or> s = [13]" using two(3) by (cases s) auto
    then show ?thesis using two by auto
  next
    case go
    then have "?j = request_len_loop (s @ t) (i + 1)" using p by auto
    moreover have "i + 1 + int (length s) < ?j" using Cons.prems by (simp del: request_len_loop.simps)
    ultimately have "request_len_loop s (i + 1) = 0" using Cons.prems(1) by (intro Cons.IH) simp_all
    moreover have "\<not> (b = 10 \<and> take 1 s = [10])" "\<not> (b = 10 \<and> take 2 s = [13, 10])"
      using go by (cases s; auto)+
    ultimately show ?thesis using p by auto
  qed
qed simp

section \<open>Requests and responses\<close>

definition header_line :: "bytes \<times> bytes \<Rightarrow> bytes" where
  "header_line f = fst f @ [58, 32] @ snd f"

definition head_text :: "bytes \<Rightarrow> (bytes \<times> bytes) list \<Rightarrow> bytes" where
  "head_text l h = lines_text (l # map header_line h)"

definition request_line :: "bytes \<Rightarrow> bytes \<Rightarrow> bytes" where
  "request_line method path = method @ [32] @ path @ [32] @ cstr ''HTTP/1.1''"

definition status_line :: "nat \<Rightarrow> bytes \<Rightarrow> bytes" where
  "status_line code msg = cstr ''HTTP/1.1'' @ [32] @ to_dec code @ [32] @ msg"

lemma head_text_fields: "head_text l h = l @ [13, 10] @ header_text h @ [13, 10]"
proof -
  have "lines_text (map header_line h) = header_text h @ [13, 10]"
    by (induction h) (auto simp: header_line_def)
  then show ?thesis by (simp add: head_text_def)
qed

definition fields_ok_h :: "(bytes \<times> bytes) list \<Rightarrow> bool" where
  "fields_ok_h h = (list_all field_ok h \<and> h \<noteq> [] \<and> length h \<le> 39)"

lemma field_line_ok: "field_ok f \<Longrightarrow> line_ok (header_line f)"
  by (auto simp: field_ok_def line_ok_def header_line_def list_all_iff key_char_def word_char_def text_char_def isprint_def)

lemma head_len:
  assumes "line_ok l" "fields_ok_h h" "length (head_text l h) \<le> n"
  shows "mg_http_get_request_len (head_text l h @ rest) (int n) = int (length (head_text l h))"
proof -
  have "list_all line_ok (l # map header_line h)" using assms(1,2) field_line_ok by (auto simp: fields_ok_h_def list_all_iff)
  moreover have "take n (head_text l h @ rest) = lines_text (l # map header_line h) @ take (n - length (head_text l h)) rest"
    using assms(3) by (simp add: head_text_def del: lines_text.simps)
  ultimately show ?thesis by (simp add: mg_http_get_request_len_def len_lines head_text_def del: lines_text.simps)
qed

lemma head_prefix:
  assumes "line_ok l" "fields_ok_h h" "p @ t = head_text l h @ rest" "length p < length (head_text l h)"
  shows "mg_parse_http p (int (length p)) r = Inl 0"
proof -
  have "list_all line_ok (l # map header_line h)" using assms(1,2) field_line_ok by (auto simp: fields_ok_h_def list_all_iff)
  then have "request_len_loop (p @ t) 0 = int (length (head_text l h))"
    unfolding assms(3) by (simp add: len_lines head_text_def del: lines_text.simps)
  then have "request_len_loop p 0 = 0" using assms(4) by (intro len_prefix [of 0 p t]) simp_all
  then show ?thesis by (simp add: mg_parse_http_def mg_http_get_request_len_def)
qed

lemma head_text_length: "length (head_text l h) = length l + 2 + length (header_text h) + 2"
  by (simp add: head_text_fields)

text \<open>The message of a request, and of a response.\<close>

definition request_message :: "bytes \<Rightarrow> bytes \<Rightarrow> (bytes \<times> bytes) list \<Rightarrow> http_message" where
  "request_message method path h =
     (let l = request_line method path; n = length (head_text l h) in
      put_headers (length l + 2) n h ((new_message n)\<lparr>hm_method := (0, length method), hm_uri := (length method + 1, length path),
        hm_proto := (length method + length path + 2, 8)\<rparr>))"

definition response_message :: "nat \<Rightarrow> bytes \<Rightarrow> (bytes \<times> bytes) list \<Rightarrow> http_message" where
  "response_message code msg h =
     (let l = status_line code msg; n = length (head_text l h) in
      put_headers (length l + 2) n h ((new_message n)\<lparr>hm_proto := (0, 8), hm_resp_code := int code,
        hm_resp_status_msg := (13, length msg)\<rparr>))"

definition method_ok :: "bytes \<Rightarrow> bool" where
  "method_ok m = (m \<noteq> [] \<and> list_all word_char m)"

lemma word_tokens:
  assumes "method_ok w"
  shows "list_all (\<lambda>c. \<not> is_delim [32] c) w" "list_all (\<lambda>c. \<not> is_delim [13, 10] c) w" "w \<noteq> []" "\<not> isspace (hd w)"
    "\<not> is_delim [32] (hd w)" "list_all text_char w"
proof -
  have w: "\<And>c. c \<in> set w \<Longrightarrow> text_char c \<and> c \<noteq> 32" "w \<noteq> []" "hd w \<in> set w" "word_char (hd w)"
    using assms by (cases w; auto simp: method_ok_def list_all_iff word_char_def)+
  show "w \<noteq> []" by fact
  show "list_all (\<lambda>c. \<not> is_delim [32] c) w" "list_all (\<lambda>c. \<not> is_delim [13, 10] c) w" "list_all text_char w"
    using w(1) text_char_facts by (fastforce simp: list_all_iff is_delim_def)+
  then show "\<not> is_delim [32] (hd w)" using w(3) by (simp add: list_all_iff)
  show "\<not> isspace (hd w)" using word_char_no_space [OF w(4)] by simp
qed

lemma request_line_ok: "method_ok m \<Longrightarrow> method_ok path \<Longrightarrow> line_ok (request_line m path)"
  using word_tokens(3,6) by (auto simp: line_ok_def request_line_def list_all_iff text_char_def isprint_def)

lemma parse_request_line_text:
  assumes "method_ok m" "method_ok path" "63 \<notin> set path" "buf = request_line m path @ [13, 10] @ post" "post \<noteq> []"
    "\<not> is_delim [13, 10] (hd post)" "length m + length path + 12 \<le> end"
  shows "parse_request_line buf 0 end hm =
    Some (length m + length path + 12, hm\<lparr>hm_method := (0, length m), hm_uri := (length m + 1, length path),
      hm_proto := (length m + length path + 2, 8)\<rparr>)"
proof -
  note M = word_tokens [OF assms(1)] and P = word_tokens [OF assms(2)]
  have 1: "mg_skip buf 0 end [32] = ((0, length m), length m + 1)"
    using skip_token [of buf "[]" m "[32]" "path @ [32] @ cstr ''HTTP/1.1'' @ [13, 10] @ post" 0 "end" "[32]"] assms M P
    by (simp add: request_line_def is_delim_def)
  have 2: "mg_skip buf (length m + 1) end [32] = ((length m + 1, length path), length m + 1 + length path + 1)"
    using skip_token [of buf "m @ [32]" path "[32]" "cstr ''HTTP/1.1'' @ [13, 10] @ post" "length m + 1" "end" "[32]"] assms M P
    by (simp add: request_line_def is_delim_def)
  have 3: "mg_skip buf (length m + 1 + length path + 1) end [13, 10] =
      ((length m + 1 + length path + 1, 8), length m + 1 + length path + 1 + 8 + 2)"
    using skip_token [of buf "m @ [32] @ path @ [32]" "cstr ''HTTP/1.1''" "[13, 10]" post "length m + 1 + length path + 1" "end" "[13, 10]"]
      assms by (simp add: request_line_def is_delim_def)
  have "str_of buf (length m + 1, length path) = path" using assms(4) by (simp add: str_of_def request_line_def)
  then have 4: "memchr (str_of buf (length m + 1, length path)) 63 = None"
    using assms(3) by (simp add: memchr_def index_from_None)
  have "length m > 0" "length path > 0" using M P by simp_all
  then show ?thesis unfolding parse_request_line_def 1 Let_def prod.case 2 3 fst_conv using 4 by simp
qed

lemma request_parsed:
  assumes "method_ok m" "method_ok path" "63 \<notin> set path" "fields_ok_h h" "hm_body_len (request_message m path h) \<noteq> - 1"
    "length (head_text (request_line m path) h) \<le> n"
  shows "mg_parse_http (head_text (request_line m path) h @ rest) (int n) True =
    Inr (length (head_text (request_line m path) h), request_message m path h)"
proof -
  let ?l = "request_line m path"
  let ?head = "head_text ?l h" and ?post = "header_text h @ [13, 10] @ rest"
  have h: "list_all field_ok h" "h \<noteq> []" "length h \<le> 39" using assms(4) by (simp_all add: fields_ok_h_def)
  have ll: "length ?l = length m + length path + 10" by (simp add: request_line_def)
  have len: "mg_http_get_request_len (?head @ rest) (int n) = int (length ?head)"
    by (rule head_len [OF request_line_ok [OF assms(1,2)] assms(4,6)])
  have s: "takeWhile isspace (take (length ?head) (?head @ rest)) = []"
    using word_tokens(3,4) [OF assms(1)] by (cases m) (simp_all add: head_text_fields request_line_def)
  have buf: "?head @ rest = ?l @ [13, 10] @ ?post" by (simp add: head_text_fields)
  have post: "?post \<noteq> []" "\<not> is_delim [13, 10] (hd ?post)" using header_text_head [OF h(2,1)] by simp_all
  let ?hm = "(new_message (length ?head))\<lparr>hm_method := (0, length m), hm_uri := (length m + 1, length path),
      hm_proto := (length m + length path + 2, 8)\<rparr>"
  have line: "parse_request_line (?head @ rest) 0 (length ?head) (new_message (length ?head)) = Some (length ?l + 2, ?hm)"
    using parse_request_line_text [OF assms(1-3) buf post, of "length ?head"] ll by (simp add: head_text_length)
  have "length (hm_headers ?hm) + length h \<le> 39" using h(3) by (simp add: new_message_def)
  then have "parse_headers ((?l @ [13, 10]) @ header_text h @ [13, 10] @ rest) (length (?l @ [13, 10]))
      (length (?l @ [13, 10]) + length (header_text h) + 2) ?hm =
    put_headers (length (?l @ [13, 10])) (length (?l @ [13, 10]) + length (header_text h) + 2) h ?hm"
    by (rule parse_header_text [OF h(1,2)])
  moreover have "length (?l @ [13, 10]) = length ?l + 2" "length ?l + 2 + length (header_text h) + 2 = length ?head"
    "(?l @ [13, 10]) @ header_text h @ [13, 10] @ rest = ?head @ rest" by (simp_all add: head_text_fields)
  ultimately have headers: "parse_headers (?head @ rest) (length ?l + 2) (length ?head) ?hm = request_message m path h"
    unfolding request_message_def Let_def by metis
  have "\<not> int (length ?head) \<le> 0" by (simp add: head_text_fields)
  then show ?thesis unfolding mg_parse_http_def len Let_def nat_int s using line headers assms(5) by simp
qed

text \<open>A status code has three digits.\<close>

lemma three_digits: "100 \<le> code \<Longrightarrow> code < 1000 \<Longrightarrow> length (to_dec code) = 3"
proof -
  assume c: "100 \<le> code" "code < 1000"
  have 1: "\<not> code < 10" "\<not> code div 10 < 10" using c div_le_mono [of 100 code 10] by simp_all
  have 2: "code div 10 div 10 < 10" using c by (simp add: less_mult_imp_div_less)
  have "length (to_dec (code div 10 div 10)) = 1" unfolding to_dec.simps [of "code div 10 div 10"] using 2 by simp
  then have "length (to_dec (code div 10)) = 2" unfolding to_dec.simps [of "code div 10"] using 1 by simp
  then show ?thesis unfolding to_dec.simps [of code] using 1 by simp
qed

lemma isdigit_text: "isdigit c \<Longrightarrow> word_char c"
  by (auto simp: isdigit_def word_char_def text_char_def isprint_def word_le_nat_alt)

lemma strtol_to_dec:
  assumes "\<not> isdigit c" "n < 2 ^ 63"
  shows "strtol10 (to_dec n @ c # x) = int n" "strtol10 (45 # to_dec n @ c # x) = - int n"
proof -
  note d = to_dec_digits [of n]
  then obtain b s where b: "to_dec n = b # s" "isdigit b" by (cases "to_dec n") auto
  have t: "takeWhile isdigit (to_dec n @ c # x) = to_dec n"
    using d assms(1) by (intro takeWhile_token) simp_all
  have s: "dropWhile isspace (to_dec n @ c # x) = to_dec n @ c # x" "dropWhile isspace (45 # to_dec n @ c # x) = 45 # to_dec n @ c # x"
    by (simp add: b isdigit_not_space [OF b(2)]) (simp add: isspace_def)
  have 1: "take 1 (to_dec n @ c # x) \<noteq> [45]" "take 1 (to_dec n @ c # x) \<noteq> [43]" using b by (auto simp: isdigit_def)
  have 2: "take 1 (45 # to_dec n @ c # x) = [45]" "drop 1 (45 # to_dec n @ c # x) = to_dec n @ c # x" by simp_all
  have n: "int n < 2 ^ 63" using assms(2) by simp
  show "strtol10 (to_dec n @ c # x) = int n"
    unfolding strtol10_def s Let_def using 1 t d n by (simp del: takeWhile_append)
  show "strtol10 (45 # to_dec n @ c # x) = - int n"
    unfolding strtol10_def s Let_def 2 using t d n by (simp del: takeWhile_append)
qed

lemma atoi_to_dec: "n < 2 ^ 31 \<Longrightarrow> atoi (to_dec n @ 32 # x) = int n"
proof -
  assume n: "n < 2 ^ 31"
  then have "strtol10 (to_dec n @ 32 # x) = int n" by (intro strtol_to_dec) (simp_all add: isdigit_def)
  then show ?thesis using n by (simp add: atoi_def signed_of_nat signed_take_bit_int_eq_self)
qed

lemma parse_status_line_text:
  assumes "100 \<le> code" "code < 600" "list_all text_char msg" "buf = status_line code msg @ [13, 10] @ post" "post \<noteq> []"
    "\<not> is_delim [13, 10] (hd post)" "length msg + 15 \<le> end"
  shows "parse_status_line buf 0 end hm =
    Some (length msg + 15, hm\<lparr>hm_proto := (0, 8), hm_resp_code := int code, hm_resp_status_msg := (13, length msg)\<rparr>)"
proof -
  have three: "length (to_dec code) = 3" using assms(1,2) by (intro three_digits) simp_all
  have digits: "list_all word_char (to_dec code)" "to_dec code \<noteq> []"
    using to_dec_digits [of code] isdigit_text by (auto simp: list_all_iff)
  then have "\<not> is_delim [32] (hd (to_dec code))" using word_tokens(5) [of "to_dec code"] by (simp add: method_ok_def)
  then have 1: "mg_skip buf 0 end [32] = ((0, 8), 9)"
    using skip_token [of buf "[]" "cstr ''HTTP/1.1''" "[32]" "to_dec code @ [32] @ msg @ [13, 10] @ post" 0 "end" "[32]"] assms digits(2)
    by (simp add: status_line_def is_delim_def)
  have msg: "list_all (\<lambda>c. \<not> is_delim [13, 10] c) msg"
    using assms(3) text_char_facts by (auto simp: list_all_iff is_delim_def)
  have 2: "mg_skip buf 13 end [13, 10] = ((13, length msg), 13 + length msg + 2)"
    using skip_token [of buf "cstr ''HTTP/1.1'' @ [32] @ to_dec code @ [32]" msg "[13, 10]" post 13 "end" "[13, 10]"] assms three msg
    by (simp add: status_line_def is_delim_def)
  have d: "drop 9 buf = to_dec code @ 32 # (msg @ [13, 10] @ post)" using assms(4) by (simp add: status_line_def)
  have "c_at buf 12 = c_at (drop 9 buf) 3" using assms(4) by (simp add: c_at_def status_line_def)
  then have 3: "c_at buf 12 = 32" using three by (simp add: d c_at_def nth_append)
  have 4: "atoi (drop 9 buf) = int code" unfolding d using assms(2) by (intro atoi_to_dec) simp
  have "\<not> (end - 9 < 4 \<or> c_at buf (9 + 3) \<noteq> 32)" using assms(7) 3 by simp
  then show ?thesis unfolding parse_status_line_def 1 Let_def prod.case using 2 4 assms(1,2) by simp
qed

lemma status_line_ok: "100 \<le> code \<Longrightarrow> code < 600 \<Longrightarrow> list_all text_char msg \<Longrightarrow> line_ok (status_line code msg)"
  using to_dec_digits [of code] isdigit_text
  by (auto simp: line_ok_def status_line_def list_all_iff word_char_def text_char_def isprint_def)

lemma response_parsed:
  assumes "100 \<le> code" "code < 600" "list_all text_char msg" "fields_ok_h h" "length (head_text (status_line code msg) h) \<le> n"
  shows "mg_parse_http (head_text (status_line code msg) h @ rest) (int n) False =
    Inr (length (head_text (status_line code msg) h), response_message code msg h)"
proof -
  let ?l = "status_line code msg"
  let ?head = "head_text ?l h" and ?post = "header_text h @ [13, 10] @ rest"
  have h: "list_all field_ok h" "h \<noteq> []" "length h \<le> 39" using assms(4) by (simp_all add: fields_ok_h_def)
  have ll: "length ?l = length msg + 13" using three_digits [of code] assms(1,2) by (simp add: status_line_def)
  have len: "mg_http_get_request_len (?head @ rest) (int n) = int (length ?head)"
    by (rule head_len [OF status_line_ok [OF assms(1-3)] assms(4,5)])
  have s: "takeWhile isspace (take (length ?head) (?head @ rest)) = []"
    by (simp add: head_text_fields status_line_def isspace_def)
  have buf: "?head @ rest = ?l @ [13, 10] @ ?post" by (simp add: head_text_fields)
  have post: "?post \<noteq> []" "\<not> is_delim [13, 10] (hd ?post)" using header_text_head [OF h(2,1)] by simp_all
  let ?hm = "(new_message (length ?head))\<lparr>hm_proto := (0, 8), hm_resp_code := int code, hm_resp_status_msg := (13, length msg)\<rparr>"
  have line: "parse_status_line (?head @ rest) 0 (length ?head) (new_message (length ?head)) = Some (length ?l + 2, ?hm)"
    using parse_status_line_text [OF assms(1-3) buf post, of "length ?head"] ll by (simp add: head_text_length)
  have "length (hm_headers ?hm) + length h \<le> 39" using h(3) by (simp add: new_message_def)
  then have "parse_headers ((?l @ [13, 10]) @ header_text h @ [13, 10] @ rest) (length (?l @ [13, 10]))
      (length (?l @ [13, 10]) + length (header_text h) + 2) ?hm =
    put_headers (length (?l @ [13, 10])) (length (?l @ [13, 10]) + length (header_text h) + 2) h ?hm"
    by (rule parse_header_text [OF h(1,2)])
  moreover have "length (?l @ [13, 10]) = length ?l + 2" "length ?l + 2 + length (header_text h) + 2 = length ?head"
    "(?l @ [13, 10]) @ header_text h @ [13, 10] @ rest = ?head @ rest" by (simp_all add: head_text_fields)
  ultimately have headers: "parse_headers (?head @ rest) (length ?l + 2) (length ?head) ?hm = response_message code msg h"
    unfolding response_message_def Let_def by metis
  have "\<not> int (length ?head) \<le> 0" by (simp add: head_text_fields)
  then show ?thesis unfolding mg_parse_http_def len Let_def nat_int s using line headers by simp
qed

end
