(* ===== verification/HttpDelivery.thy ===== *)
theory HttpDelivery
  imports HttpText
begin

text \<open>
  Requests and answers arrive as they were sent: the handler of a connection on the bytes of one message in pieces of any
  size, and what the text of a request makes at the server and the text of an answer at the client.
\<close>

section \<open>One message in pieces\<close>

lemma again_stop: "http_pass c = (c', False) \<Longrightarrow> http_again c = Some c'"
  by (subst http_again.simps) simp

lemma again_go: "http_pass c = (c', True) \<Longrightarrow> http_again c = http_again c'"
  by (subst http_again.simps) simp

definition received :: "bool \<Rightarrow> bytes \<Rightarrow> http_conn" where
  "received r p = (http_conn r)\<lparr>hc_recv := p, hc_rcvd := length p\<rparr>"

lemma received_empty: "http_conn r = received r []"
  by (simp add: received_def http_conn_def)

lemma recv_received: "http_recv d (received r p) = http_again (received r (p @ d))"
  by (simp add: http_recv_def received_def)

definition delivered :: "bool \<Rightarrow> http_message \<Rightarrow> nat \<Rightarrow> bytes \<Rightarrow> http_conn" where
  "delivered r hm n text =
     (http_conn r)\<lparr>hc_events := [(if r then HttpRequest else HttpReply, hm\<lparr>hm_body_len := of_nat n\<rparr>, text)]\<rparr>"

lemma delivered_idle: "http_recv [] (delivered r hm n text) = Some (delivered r hm n text)"
proof -
  have "mg_parse_http [] (int_of_size 0) r = Inl 0" by (simp add: mg_parse_http_def mg_http_get_request_len_def)
  then have "http_pass (delivered r hm n text) = (delivered r hm n text, False)"
    by (simp add: http_pass_def delivered_def http_conn_def MG_MAX_HTTP_REQUEST_SIZE_def)
  moreover have "(delivered r hm n text)\<lparr>hc_recv := hc_recv (delivered r hm n text) @ [],
      hc_rcvd := hc_rcvd (delivered r hm n text) + length ([] :: bytes)\<rparr> = delivered r hm n text" by simp
  ultimately show ?thesis unfolding http_recv_def by (simp add: again_stop)
qed

lemma pieces_idle: "concat ps = [] \<Longrightarrow> http_pieces ps (delivered r hm n text) = Some (delivered r hm n text)"
  by (induction ps) (simp_all add: delivered_idle)

lemma int_of_size_small: "n < 2 ^ 31 \<Longrightarrow> int_of_size n = int n"
  by (simp add: int_of_size_def signed_of_nat signed_take_bit_int_eq_self)

text \<open>A head that is parsed the same whatever follows it, whose message ends with the body.\<close>

definition whole :: "bool \<Rightarrow> bytes \<Rightarrow> http_message \<Rightarrow> bytes \<Rightarrow> bool" where
  "whole r head hm body \<longleftrightarrow>
     (\<forall>rest n. length head \<le> n \<longrightarrow> mg_parse_http (head @ rest) (int n) r = Inr (length head, hm)) \<and>
     (\<forall>p t rest. p @ t = head @ rest \<longrightarrow> length p < length head \<longrightarrow> mg_parse_http p (int (length p)) r = Inl 0) \<and>
     (\<forall>rest. \<not> is_chunked (head @ rest) hm) \<and>
     (\<forall>rest. r \<longrightarrow> mg_get_http_header (head @ rest) hm (cstr ''Sec-WebSocket-Key'') = None) \<and>
     hm_message_len hm = of_nat (length head + length body) \<and> 0 < length head \<and> length head \<le> 8192 \<and>
     length head + length body < 2 ^ 31"

lemma whole_len:
  assumes "whole r head hm body"
  shows "unat (hm_message_len hm) = length head + length body"
proof -
  have "length head + length body < 2 ^ 31" using assms by (simp add: whole_def)
  moreover have "hm_message_len hm = of_nat (length head + length body)" using assms unfolding whole_def by blast
  ultimately show ?thesis by (simp add: unat_of_nat take_bit_nat_eq_self del: of_nat_add)
qed

lemma pass_head:
  assumes "whole r head hm body" "length head + length rest < 2 ^ 31"
  shows "http_pass (received r (head @ rest)) =
    (if length rest < length body then (received r (head @ rest), False)
     else let hm' = hm\<lparr>hm_body_len := of_nat (length rest)\<rparr>; more = drop (length body) rest in
       ((received r more)\<lparr>hc_events := [(if r then HttpRequest else HttpReply, hm', head @ rest)]\<rparr>, more \<noteq> []))"
proof -
  have p: "mg_parse_http (head @ rest) (int (length head + length rest)) r = Inr (length head, hm)"
    "\<not> is_chunked (head @ rest) hm" "r \<Longrightarrow> mg_get_http_header (head @ rest) hm (cstr ''Sec-WebSocket-Key'') = None"
    using assms(1) le_add1 [of "length head" "length rest"] unfolding whole_def by blast+
  note len = whole_len [OF assms(1)]
  have pos: "0 < length head" using assms(1) by (simp add: whole_def)
  have r: "hc_recv (received r b) = b" "hc_is_req (received r b) = r" "hc_rcvd (received r b) = length b"
    "hc_events (received r b) = []" for b by (simp_all add: received_def http_conn_def)
  have n: "int_of_size (length (head @ rest)) = int (length head + length rest)" using assms(2) by (simp add: int_of_size_small)
  have w: "\<not> (r \<and> mg_get_http_header (head @ rest) hm (cstr ''Sec-WebSocket-Key'') \<noteq> None)" using p(3) by auto
  have "http_pass (received r (head @ rest)) =
      (if length head + length rest < unat (hm_message_len hm) then (received r (head @ rest), False)
       else let hm' = hm\<lparr>hm_body_len := of_nat (length (head @ rest) - length head)\<rparr>; recv = remove_front (hm_message_len hm) (head @ rest) in
         ((received r (head @ rest))\<lparr>hc_recv := recv, hc_rcvd := length recv, hc_chunk := 0,
            hc_events := [] @ [(if r then HttpRequest else HttpReply, hm', head @ rest)]\<rparr>, recv \<noteq> []))"
    unfolding http_pass_def r n p(1) sum.case prod.case Let_def if_not_P [OF p(2)] if_not_P [OF w] by simp
  moreover have "remove_front (hm_message_len hm) (head @ rest) = drop (length body) rest" if "\<not> length rest < length body"
  proof -
    have "0 < hm_message_len hm" using len pos by (metis add_is_0 neq0_conv unat_eq_0 word_gt_0)
    then show ?thesis using that len by (simp add: remove_front_def)
  qed
  ultimately show ?thesis using len by (simp add: received_def http_conn_def Let_def)
qed

lemma pass_prefix:
  assumes "whole r head hm body" "p @ t = head @ body" "t \<noteq> []"
  shows "http_pass (received r p) = (received r p, False)"
proof (cases "length p < length head")
  case True
  then have "mg_parse_http p (int (length p)) r = Inl 0" "length p < 8192" "length p < 2 ^ 31"
    using assms(1,2) unfolding whole_def by (blast, simp_all)
  then show ?thesis by (simp add: http_pass_def received_def http_conn_def int_of_size_small MG_MAX_HTTP_REQUEST_SIZE_def)
next
  case False
  then obtain q where q: "p = head @ q" "body = q @ t" using assms(2) by (auto simp: append_eq_append_conv2)
  have "length head + length q < 2 ^ 31" using assms(1) q(2) by (simp add: whole_def)
  then show ?thesis using pass_head [OF assms(1), of q] q assms(3) by simp
qed

lemma pass_whole:
  assumes "whole r head hm body"
  shows "http_pass (received r (head @ body)) = (delivered r hm (length body) (head @ body), False)"
proof -
  have "length head + length body < 2 ^ 31" using assms by (simp add: whole_def)
  then show ?thesis using pass_head [OF assms, of body] by (simp add: delivered_def received_def http_conn_def Let_def)
qed

lemma pieces_delivered:
  assumes "whole r head hm body" "p @ concat ps = head @ body" "concat ps \<noteq> []"
  shows "http_pieces ps (received r p) = Some (delivered r hm (length body) (head @ body))"
  using assms(2,3)
proof (induction ps arbitrary: p)
  case (Cons d ps)
  show ?case
  proof (cases "concat ps = []")
    case True
    then have "http_recv d (received r p) = Some (delivered r hm (length body) (head @ body))"
      using Cons.prems(1) unfolding concat.simps True append_Nil2 recv_received by (simp add: again_stop [OF pass_whole [OF assms(1)]])
    then show ?thesis using pieces_idle [OF True] by simp
  next
    case False
    have e: "(p @ d) @ concat ps = head @ body" using Cons.prems(1) by simp
    have "http_recv d (received r p) = Some (received r (p @ d))"
      using again_stop [OF pass_prefix [OF assms(1) e False]] by (simp add: recv_received)
    then show ?thesis using Cons.IH [OF e False] by simp
  qed
qed simp

section \<open>URLs\<close>

record http_address =
  ad_host :: bytes
  ad_port :: bytes      \<comment> \<open>empty, or a colon and digits\<close>

definition address_ok :: "http_address \<Rightarrow> bool" where
  "address_ok a = (ad_host a \<noteq> [] \<and> list_all word_char (ad_host a) \<and> list_all (\<lambda>c. c \<notin> {58, 47, 64, 91}) (ad_host a) \<and>
     (ad_port a = [] \<or> (hd (ad_port a) = 58 \<and> list_all isdigit (tl (ad_port a)))))"

definition authority :: "http_address \<Rightarrow> bytes" where
  "authority a = ad_host a @ ad_port a"

definition path_ok :: "bytes \<Rightarrow> bool" where
  "path_ok path = (path \<noteq> [] \<and> hd path = 47 \<and> list_all word_char path \<and> list_all (\<lambda>c. c \<notin> {63, 35}) path)"

definition url_of :: "http_address \<Rightarrow> bytes \<Rightarrow> bytes" where
  "url_of a path = cstr ''http://'' @ authority a @ path"

lemma scan_to:
  assumes "uri = pre @ w @ c # x" "p = length pre" "list_all (\<lambda>b. b \<notin> set stops) w" "c \<in> set stops"
  shows "scan uri p stops = p + length w"
  using takeWhile_token [of "\<lambda>b. b \<notin> set stops" w "c # x"] assms by (simp add: scan_def)

lemma port_chars: "address_ok a \<Longrightarrow> list_all word_char (ad_port a) \<and> list_all (\<lambda>c. c \<notin> {47, 64, 91}) (ad_port a)"
proof (cases "ad_port a")
  case (Cons c s)
  assume a: "address_ok a"
  have "isdigit d \<Longrightarrow> word_char d \<and> d \<notin> {47, 64, 91}" for d using isdigit_text by (auto simp: isdigit_def)
  then have "list_all word_char s \<and> list_all (\<lambda>c. c \<notin> {47, 64, 91}) s" using a Cons by (auto simp: address_ok_def list_all_iff)
  moreover have "c = 58" using a Cons by (simp add: address_ok_def)
  ultimately show ?thesis using Cons by (simp add: word_char_def text_char_def isprint_def)
qed simp

lemma authority_chars:
  assumes "address_ok a"
  shows "authority a \<noteq> []" "list_all word_char (authority a)" "list_all (\<lambda>c. c \<notin> {47, 64, 91}) (authority a)" "hd (authority a) \<noteq> 58"
    "hd (authority a) \<noteq> 64 \<and> hd (authority a) \<noteq> 91"
  using assms port_chars [OF assms] by (cases "ad_host a"; auto simp: address_ok_def authority_def list_all_iff)+

lemma uri_loop_next: "p < length uri \<Longrightarrow> uri_step uri st p u = Some (st', p', u') \<Longrightarrow> uri_loop uri st p u = uri_loop uri st' p' u'"
  by (subst uri_loop.simps) simp

lemma uri_host_name:
  "c_at uri p \<noteq> 64 \<Longrightarrow> c_at uri p \<noteq> 91 \<Longrightarrow> scan uri p [58, 47] = q \<Longrightarrow> q < length uri \<Longrightarrow> c_at uri q = c \<Longrightarrow>
   uri_host uri p u = Some (if c = 58 then P_PORT else if c = 47 then P_REST else P_HOST, q, u\<lparr>ur_host := (p, q - p)\<rparr>)"
  by (simp add: uri_host_def Let_def)

lemma url_parsed:
  assumes "address_ok a" "path_ok path"
  shows "\<exists>u. mg_parse_uri (url_of a path) = Some u \<and> ur_scheme u = (0, 4) \<and> snd (ur_user_info u) = 0 \<and>
    fst (ur_host u) = 7 \<and> 0 < snd (ur_host u) \<and> ur_path u = (7 + length (authority a), length path) \<and> snd (ur_query u) = 0"
proof -
  let ?uri = "url_of a path" and ?n = "length (authority a)"
  note A = authority_chars [OF assms(1)]
  obtain rest where path: "path = 47 # rest" using assms(2) by (cases path) (auto simp: path_ok_def)
  have h: "ad_host a \<noteq> []" "list_all (\<lambda>c. c \<notin> {58, 47, 64, 91}) (ad_host a)" using assms(1) by (simp_all add: address_ok_def)
  have uri: "?uri = cstr ''http://'' @ authority a @ 47 # rest" by (simp add: url_of_def path)
  have len: "length ?uri = 7 + ?n + length path" by (simp add: url_of_def)
  have n: "0 < ?n" using A(1) by simp
  have lt: "7 + ?n < length ?uri" by (subst len) (simp add: path)
  let ?u1 = "no_parts\<lparr>ur_scheme := (0, 4)\<rparr>"
  let ?u2 = "?u1\<lparr>ur_user_info := (7, 0)\<rparr>"
  let ?u3 = "?u2\<lparr>ur_host := (7, length (ad_host a))\<rparr>"
  have s1: "scan ?uri 0 [58, 47] = 4"
    using scan_to [of ?uri "[]" "cstr ''http''" 58 "cstr ''//'' @ authority a @ path" 0 "[58, 47]"] by (simp add: url_of_def)
  have "uri_start ?uri 0 no_parts = (P_SCHEME_OR_PORT, 4, no_parts)"
    unfolding uri_start_def s1 Let_def by (simp add: url_of_def c_at_def)
  then have 1: "uri_loop ?uri P_START 0 no_parts = uri_loop ?uri P_SCHEME_OR_PORT 4 no_parts"
    by (intro uri_loop_next) (simp_all add: uri_step_def len)
  have "uri_scheme_or_port ?uri 4 no_parts = (P_USER_INFO, 7, ?u1)"
    by (simp add: uri_scheme_or_port_def url_of_def c_at_def numeral_3_eq_3)
  then have 2: "uri_loop ?uri P_SCHEME_OR_PORT 4 no_parts = uri_loop ?uri P_USER_INFO 7 ?u1"
    by (intro uri_loop_next) (simp_all add: uri_step_def len)
  have s3: "scan ?uri 7 [64, 91, 47] = 7 + ?n"
    using scan_to [of ?uri "cstr ''http://''" "authority a" 47 rest 7 "[64, 91, 47]"] uri A(3) by (simp add: list_all_iff)
  have c3: "c_at ?uri (7 + ?n) = 47" by (simp add: uri c_at_def nth_append)
  have "uri_user_info ?uri 7 ?u1 = (P_HOST, 7, ?u2)" unfolding uri_user_info_def s3 Let_def c3 by simp
  then have 3: "uri_loop ?uri P_USER_INFO 7 ?u1 = uri_loop ?uri P_HOST 7 ?u2"
    by (intro uri_loop_next) (use lt in \<open>simp_all add: uri_step_def\<close>)
  have c7: "c_at ?uri 7 = hd (authority a)" using A(1) by (cases "authority a") (simp_all add: uri c_at_def)
  have c7': "c_at ?uri 7 \<noteq> 64" "c_at ?uri 7 \<noteq> 91" unfolding c7 using A(5) by blast+
  have 5: "\<exists>u. uri_loop ?uri P_REST (7 + ?n) u3 = Some u \<and> ur_scheme u = ur_scheme u3 \<and> ur_user_info u = ur_user_info u3 \<and>
      ur_host u = ur_host u3 \<and> ur_path u = (7 + ?n, length path) \<and> ur_query u = ur_query u3" for u3
  proof -
    have t: "takeWhile (\<lambda>c. c \<notin> set (cstr ''?#'')) path = path"
      using assms(2) by (intro takeWhile_eq_all_conv [THEN iffD2]) (auto simp: path_ok_def list_all_iff)
    have d: "drop (7 + ?n) ?uri = path"
      using append_eq_conv_conj [of "cstr ''http://'' @ authority a" path ?uri] by (simp add: url_of_def eval_nat_numeral)
    have "parse_uri_component ?uri (7 + ?n) (cstr ''?#'') = ((7 + ?n, length path), length ?uri)"
      unfolding parse_uri_component_def Let_def d t len by simp
    then have "uri_rest ?uri (7 + ?n) u3 = (P_REST, length ?uri, u3\<lparr>ur_path := (7 + ?n, length path), ur_fragment := (length ?uri, 0)\<rparr>)"
      unfolding uri_rest_def by (simp add: parse_uri_component_def)
    then have "uri_loop ?uri P_REST (7 + ?n) u3 =
        uri_loop ?uri P_REST (length ?uri) (u3\<lparr>ur_path := (7 + ?n, length path), ur_fragment := (length ?uri, 0)\<rparr>)"
      by (intro uri_loop_next) (use lt in \<open>simp_all add: uri_step_def\<close>)
    then show ?thesis by (simp add: uri_loop.simps [of _ _ "length ?uri"])
  qed
  have "\<exists>u. uri_loop ?uri P_HOST 7 ?u2 = Some u \<and> ur_scheme u = (0, 4) \<and> ur_user_info u = (7, 0) \<and>
      ur_host u = (7, length (ad_host a)) \<and> ur_path u = (7 + ?n, length path) \<and> ur_query u = (0, 0)"
  proof (cases "ad_port a = []")
    case True
    then have a: "authority a = ad_host a" by (simp add: authority_def)
    have s4: "scan ?uri 7 [58, 47] = 7 + ?n"
      using scan_to [of ?uri "cstr ''http://''" "ad_host a" 47 rest 7 "[58, 47]"] h uri a by (simp add: list_all_iff)
    have "uri_host ?uri 7 ?u2 = Some (P_REST, 7 + ?n, ?u3)" using uri_host_name [OF c7' s4 lt c3, of ?u2] a by simp
    then have "uri_loop ?uri P_HOST 7 ?u2 = uri_loop ?uri P_REST (7 + ?n) ?u3"
      by (intro uri_loop_next) (use lt in \<open>simp_all add: uri_step_def\<close>)
    then show ?thesis using 5 [of ?u3] by (simp add: no_parts_def)
  next
    case False
    then obtain ds where port: "ad_port a = 58 # ds" "list_all isdigit ds" using assms(1) by (cases "ad_port a") (auto simp: address_ok_def)
    let ?m = "length (ad_host a)"
    have a: "authority a = ad_host a @ 58 # ds" by (simp add: authority_def port)
    have s4: "scan ?uri 7 [58, 47] = 7 + ?m"
      using scan_to [of ?uri "cstr ''http://''" "ad_host a" 58 "ds @ 47 # rest" 7 "[58, 47]"] h uri a by (simp add: list_all_iff)
    have lt': "7 + ?m < length ?uri" using lt a by simp
    have c4: "c_at ?uri (7 + ?m) = 58" by (simp add: uri a c_at_def nth_append)
    have "uri_host ?uri 7 ?u2 = Some (P_PORT, 7 + ?m, ?u3)" using uri_host_name [OF c7' s4 lt' c4, of ?u2] by simp
    then have 4: "uri_loop ?uri P_HOST 7 ?u2 = uri_loop ?uri P_PORT (7 + ?m) ?u3"
      by (intro uri_loop_next) (use lt in \<open>simp_all add: uri_step_def\<close>)
    have digits: "list_all (\<lambda>b. b \<notin> set [47]) ds" using port(2) by (auto simp: list_all_iff isdigit_def)
    have s5: "scan ?uri (7 + ?m + 1) [47] = 7 + ?n"
      using scan_to [of ?uri "cstr ''http://'' @ ad_host a @ [58]" ds 47 rest "7 + ?m + 1" "[47]"] digits by (simp add: uri a)
    obtain port where "uri_port ?uri (7 + ?m) ?u3 = (P_REST, 7 + ?n, ?u3\<lparr>ur_port := port\<rparr>)"
      unfolding uri_port_def s5 Let_def using lt by simp
    then have "uri_loop ?uri P_PORT (7 + ?m) ?u3 = uri_loop ?uri P_REST (7 + ?n) (?u3\<lparr>ur_port := port\<rparr>)"
      by (intro uri_loop_next) (use lt' in \<open>simp_all add: uri_step_def\<close>)
    then show ?thesis using 4 5 [of "?u3\<lparr>ur_port := port\<rparr>"] by (simp add: no_parts_def)
  qed
  then show ?thesis unfolding mg_parse_uri_def 1 2 3 using h(1) by auto
qed

section \<open>The text of a request\<close>

text \<open>Headers that are neither looked for by the handler nor set by the client itself.\<close>

definition harmless :: "bytes \<times> bytes \<Rightarrow> bool" where
  "harmless f = (field_ok f \<and> \<not> is_length (fst f) \<and> \<not> named_field (cstr ''Transfer-Encoding'') f \<and>
     \<not> named_field (cstr ''Sec-WebSocket-Key'') f)"

definition content_length :: "nat \<Rightarrow> bytes \<times> bytes" where
  "content_length n = (cstr ''Content-Length'', to_dec n)"

definition request_fields :: "http_address \<Rightarrow> nat \<Rightarrow> (bytes \<times> bytes) list \<Rightarrow> (bytes \<times> bytes) list" where
  "request_fields a n ext = (cstr ''Host'', authority a) # content_length n # ext"

lemma c_str_id: "0 \<notin> set s \<Longrightarrow> c_str s = s"
  by (induction s) auto

lemma word_chars_no_nul: "list_all text_char s \<Longrightarrow> 0 \<notin> set s"
  using text_char_facts by (auto simp: list_all_iff)

lemma word_text: "list_all word_char s \<Longrightarrow> list_all text_char s"
  by (auto simp: list_all_iff word_char_def)

lemma header_text_no_nul: "list_all field_ok h \<Longrightarrow> 0 \<notin> set (header_text h)"
proof (induction h)
  case (Cons f h)
  then have "list_all text_char (fst f)" "list_all text_char (snd f)"
    by (cases f; auto simp: field_ok_def list_all_iff key_char_def word_char_def)+
  then show ?case using Cons word_chars_no_nul by (cases f) auto
qed simp

lemma to_dec_text: "list_all word_char (to_dec n)" "to_dec n \<noteq> []"
  using to_dec_digits [of n] isdigit_text by (auto simp: list_all_iff)

lemma plain_keys:
  "\<not> is_length (cstr ''Host'')" "is_length (cstr ''Content-Length'')"
  "\<not> named_field (cstr ''Transfer-Encoding'') (cstr ''Host'', v)" "\<not> named_field (cstr ''Sec-WebSocket-Key'') (cstr ''Host'', v)"
  "\<not> named_field (cstr ''Transfer-Encoding'') (cstr ''Content-Length'', v)"
  "\<not> named_field (cstr ''Sec-WebSocket-Key'') (cstr ''Content-Length'', v)"
  "list_all key_char (cstr ''Host'')" "list_all key_char (cstr ''Content-Length'')"
  by (code_simp | simp add: named_field_def)+

lemma value_ends:
  assumes "v \<noteq> []" "list_all word_char v"
  shows "hd v \<noteq> 32 \<and> last v \<noteq> 32"
  using assms hd_in_set [OF assms(1)] last_in_set [OF assms(1)] unfolding list_all_iff word_char_def by blast

lemma word_field: "list_all key_char k \<Longrightarrow> k \<noteq> [] \<Longrightarrow> v \<noteq> [] \<Longrightarrow> list_all word_char v \<Longrightarrow> hd v \<noteq> 58 \<Longrightarrow> field_ok (k, v)"
  using value_ends word_text by (simp add: field_ok_def)

lemma host_field:
  assumes "address_ok a"
  shows "harmless (cstr ''Host'', authority a)"
proof -
  note A = authority_chars [OF assms]
  have "field_ok (cstr ''Host'', authority a)" by (rule word_field [OF plain_keys(7) _ A(1,2,4)]) simp
  then show ?thesis unfolding harmless_def fst_conv using plain_keys(1,3,4) by blast
qed

lemma content_length_field: "field_ok (content_length n)" "\<not> named_field (cstr ''Transfer-Encoding'') (content_length n)"
  "\<not> named_field (cstr ''Sec-WebSocket-Key'') (content_length n)"
proof -
  have "isdigit (hd (to_dec n))" using to_dec_digits [of n] by (cases "to_dec n") simp_all
  then have "hd (to_dec n) \<noteq> 58" by (auto simp: isdigit_def)
  then show "field_ok (content_length n)" unfolding content_length_def
    by (intro word_field [OF plain_keys(8)] to_dec_text) simp_all
qed (unfold content_length_def, rule plain_keys, rule plain_keys)

lemma length_value: "n < 2 ^ 63 \<Longrightarrow> to64 (to_dec n @ [13]) = of_nat n" "n < 2 ^ 63 \<Longrightarrow> to64 (45 # to_dec n @ [13]) = - of_nat n"
  by (simp_all add: to64_def strtol_to_dec isdigit_def)

lemma put_header_keeps:
  "hm_method (put_header p len f req) = hm_method req" "hm_uri (put_header p len f req) = hm_uri req"
  "hm_query_string (put_header p len f req) = hm_query_string req" "hm_resp_code (put_header p len f req) = hm_resp_code req"
  "hm_body_p (put_header p len f req) = hm_body_p req"
  by (simp_all add: put_header_def Let_def)

lemma put_headers_keep:
  "hm_method (put_headers p len h req) = hm_method req" "hm_uri (put_headers p len h req) = hm_uri req"
  "hm_query_string (put_headers p len h req) = hm_query_string req" "hm_resp_code (put_headers p len h req) = hm_resp_code req"
  "hm_body_p (put_headers p len h req) = hm_body_p req"
  by (induction h arbitrary: p req) (simp_all add: put_header_keeps)

lemma put_headers_plain:
  "list_all (\<lambda>f. \<not> is_length (fst f)) h \<Longrightarrow> hm_body_len (put_headers p len h req) = hm_body_len req \<and>
    hm_message_len (put_headers p len h req) = hm_message_len req"
  by (induction h arbitrary: p req) (simp_all add: put_header_def Let_def)

lemma put_headers_length:
  assumes "list_all (\<lambda>f. \<not> is_length (fst f)) h1" "list_all (\<lambda>f. \<not> is_length (fst f)) h2" "n < 2 ^ 63"
  shows "hm_body_len (put_headers p len (h1 @ content_length n # h2) req) = of_nat n \<and>
    hm_message_len (put_headers p len (h1 @ content_length n # h2) req) = of_nat (len + n)"
  using assms(1)
proof (induction h1 arbitrary: p req)
  case Nil
  have "to64 (snd (content_length n) @ [13]) = of_nat n" "is_length (fst (content_length n))"
    unfolding content_length_def using length_value [OF assms(3)] plain_keys(2) by simp_all
  then show ?case using put_headers_plain [OF assms(2)] by (simp add: put_header_def Let_def)
qed simp

text \<open>The fields of a message: harmless ones, and the length between them.\<close>

definition length_among :: "nat \<Rightarrow> (bytes \<times> bytes) list \<Rightarrow> bool" where
  "length_among n h = (\<exists>h1 h2. h = h1 @ content_length n # h2 \<and> list_all harmless h1 \<and> list_all harmless h2 \<and> length h \<le> 39)"

lemma length_among_fields:
  assumes "length_among n h" "n < 2 ^ 31"
  shows "fields_ok_h h" "list_all (\<lambda>f. \<not> named_field (cstr ''Transfer-Encoding'') f) h"
    "list_all (\<lambda>f. \<not> named_field (cstr ''Sec-WebSocket-Key'') f) h"
    "hm_body_len (put_headers p len h req) = of_nat n" "hm_message_len (put_headers p len h req) = of_nat (len + n)"
proof -
  obtain h1 h2 where h: "h = h1 @ content_length n # h2" "list_all harmless h1" "list_all harmless h2" "length h \<le> 39"
    using assms(1) unfolding length_among_def by blast
  then show "fields_ok_h h" using content_length_field(1) unfolding fields_ok_h_def list_all_iff harmless_def by auto
  show "list_all (\<lambda>f. \<not> named_field (cstr ''Transfer-Encoding'') f) h" "list_all (\<lambda>f. \<not> named_field (cstr ''Sec-WebSocket-Key'') f) h"
    using h(2,3) content_length_field(2,3) unfolding h(1) list_all_iff harmless_def set_append list.set by blast+
  have l: "list_all (\<lambda>f. \<not> is_length (fst f)) h1" "list_all (\<lambda>f. \<not> is_length (fst f)) h2"
    using h(2,3) unfolding list_all_iff harmless_def by blast+
  have n: "n < 2 ^ 63" using assms(2) by simp
  show "hm_body_len (put_headers p len h req) = of_nat n" "hm_message_len (put_headers p len h req) = of_nat (len + n)"
    unfolding h(1) using put_headers_length [OF l n] by blast+
qed

lemma head_no_header:
  assumes "list_all (\<lambda>f. \<not> named_field name f) h" "hm_headers req = []"
  shows "mg_get_http_header (head_text l h @ rest) (put_headers (length l + 2) len h req) name = None"
  using get_header_none [OF assms, of "l @ [13, 10]" "[13, 10] @ rest" len] by (simp add: head_text_fields)

lemma small_length: "n < 2 ^ 31 \<Longrightarrow> (of_nat n :: u64) \<noteq> - 1"
proof
  assume "n < 2 ^ 31" "(of_nat n :: u64) = - 1"
  then have "unat (of_nat n :: u64) = unat (- 1 :: u64)" by simp
  moreover have "unat (- 1 :: u64) = 2 ^ 64 - 1" by (simp add: unsigned_minus_1_eq_mask mask_eq_exp_minus_1)
  ultimately show False using \<open>n < 2 ^ 31\<close> by (simp add: unat_of_nat take_bit_nat_eq_self)
qed

lemma whole_request:
  assumes "method_ok m" "method_ok path" "63 \<notin> set path" "length_among (length body) h"
    "length (head_text (request_line m path) h) \<le> 8192" "length (head_text (request_line m path) h) + length body < 2 ^ 31"
  shows "whole True (head_text (request_line m path) h) (request_message m path h) body"
proof -
  have n: "length body < 2 ^ 31" using assms(6) by simp
  note f = length_among_fields [OF assms(4) n]
  have b: "hm_body_len (request_message m path h) \<noteq> - 1" using f(4) small_length [OF n] by (simp add: request_message_def Let_def)
  have len: "hm_message_len (request_message m path h) = of_nat (length (head_text (request_line m path) h) + length body)"
    unfolding request_message_def Let_def by (rule f(5))
  have none: "mg_get_http_header (head_text (request_line m path) h @ rest) (request_message m path h) (cstr ''Transfer-Encoding'') = None"
    "mg_get_http_header (head_text (request_line m path) h @ rest) (request_message m path h) (cstr ''Sec-WebSocket-Key'') = None" for rest
    unfolding request_message_def Let_def by (rule head_no_header [OF f(2)], simp add: new_message_def, rule head_no_header [OF f(3)], simp add: new_message_def)
  have chunked: "\<not> is_chunked (head_text (request_line m path) h @ rest) (request_message m path h)" for rest
    unfolding is_chunked_def none by simp
  have "head_text (request_line m path) h \<noteq> []" by (simp add: head_text_fields)
  then show ?thesis unfolding whole_def
    using request_parsed [OF assms(1-3) f(1) b] head_prefix [OF request_line_ok [OF assms(1,2)] f(1)] chunked none len assms(5,6) by blast
qed

lemma whole_response:
  assumes "100 \<le> code" "code < 600" "list_all text_char msg" "length_among (length body) h"
    "length (head_text (status_line code msg) h) \<le> 8192" "length (head_text (status_line code msg) h) + length body < 2 ^ 31"
  shows "whole False (head_text (status_line code msg) h) (response_message code msg h) body"
proof -
  have n: "length body < 2 ^ 31" using assms(6) by simp
  note f = length_among_fields [OF assms(4) n]
  have len: "hm_message_len (response_message code msg h) = of_nat (length (head_text (status_line code msg) h) + length body)"
    unfolding response_message_def Let_def by (rule f(5))
  have none: "mg_get_http_header (head_text (status_line code msg) h @ rest) (response_message code msg h) (cstr ''Transfer-Encoding'') = None" for rest
    unfolding response_message_def Let_def by (rule head_no_header [OF f(2)], simp add: new_message_def)
  have chunked: "\<not> is_chunked (head_text (status_line code msg) h @ rest) (response_message code msg h)" for rest
    unfolding is_chunked_def none by simp
  have "head_text (status_line code msg) h \<noteq> []" by (simp add: head_text_fields)
  then show ?thesis unfolding whole_def
    using response_parsed [OF assms(1-3) f(1)] head_prefix [OF status_line_ok [OF assms(1-3)] f(1)] chunked len assms(5,6) by blast
qed

section \<open>Requests at the server, answers at the client\<close>

lemma request_text:
  assumes "address_ok a" "path_ok path" "method_ok m" "list_all harmless ext" "length body < 2 ^ 31"
  shows "http_request_text gap (url_of a path) m (header_text ext) body =
    Some (head_text (request_line m path) (request_fields a (length body) ext) @ body)"
proof -
  note A = authority_chars [OF assms(1)]
  obtain u where u: "mg_parse_uri (url_of a path) = Some u" "ur_scheme u = (0, 4)" "snd (ur_user_info u) = 0" "fst (ur_host u) = 7"
    "0 < snd (ur_host u)" "ur_path u = (7 + length (authority a), length path)" "snd (ur_query u) = 0"
    using url_parsed [OF assms(1,2)] by blast
  have path: "list_all word_char path" "path \<noteq> []" using assms(2) by (simp_all add: path_ok_def)
  have ext: "list_all field_ok ext" using assms(4) unfolding list_all_iff harmless_def by blast
  have nul: "0 \<notin> set (authority a @ path)" "0 \<notin> set m" "0 \<notin> set (header_text ext)"
    using word_chars_no_nul word_text [OF A(2)] word_text [OF path(1)] word_tokens(6) [OF assms(3)] header_text_no_nul [OF ext]
    by (force, blast, blast)
  then have url: "c_str (url_of a path) = url_of a path" by (intro c_str_id) (simp add: url_of_def)
  have "str_of (url_of a path) (0, 4) = cstr ''http''" by (simp add: str_of_def url_of_def)
  moreover have "mg_vcmp (cstr ''http'') (cstr ''http'') = 0" by code_simp
  ultimately have h: "http_url (url_of a path) = Some u" unfolding http_url_def u(1) by (simp add: u(2,7) Let_def)
  have d: "drop 7 (url_of a path) = authority a @ path" by (simp add: url_of_def)
  have p: "str_of (url_of a path) (7 + length (authority a), length path) = path"
  proof -
    have "drop (7 + length (authority a)) (url_of a path) = drop (length (authority a)) (drop 7 (url_of a path))" by (simp add: add.commute)
    then show ?thesis unfolding str_of_def fst_conv snd_conv d by simp
  qed
  have host: "print_prec (int (7 + length (authority a)) - int 7) (drop 7 (url_of a path)) = authority a"
    "print_prec (int (length (authority a))) (drop 7 (url_of a path)) = authority a"
    unfolding d print_prec_def c_str_id [OF nul(1)] by simp_all
  have n: "int_of_size (length body) = int (length body)" "unat (word_of_int (int (length body)) :: u64) = length body"
    using assms(5) by (simp_all add: int_of_size_small unat_of_nat take_bit_nat_eq_self)
  have b: "(if 0 < int (length body) then body else []) = body" by simp
  have t: "head_text (request_line m path) (request_fields a (length body) ext) =
      m @ [32] @ path @ cstr '' HTTP/1.1'' @ [13, 10] @ cstr ''Host: '' @ authority a @ [13, 10] @
      cstr ''Content-Length: '' @ to_dec (length body) @ [13, 10] @ header_text ext @ [13, 10]"
    unfolding head_text_fields request_line_def request_fields_def content_length_def by simp
  have l: "\<not> 0 < snd (ur_user_info u)" "snd (ur_path u) \<noteq> 0" "snd (ur_host u) \<noteq> 0" using u path by simp_all
  show ?thesis
    unfolding http_request_text_def Let_def url h option.case if_not_P [OF l(1)] if_not_P [OF l(2)] if_not_P [OF l(3)] u(4,6) p
      fst_conv host(1) n b c_str_id [OF nul(2)] c_str_id [OF nul(3)] t using path(2) host(2) by simp
qed

lemma request_length_among:
  assumes "address_ok a" "list_all harmless ext" "length ext \<le> 37"
  shows "length_among n (request_fields a n ext)"
proof -
  have "request_fields a n ext = [(cstr ''Host'', authority a)] @ content_length n # ext" by (simp add: request_fields_def)
  moreover have "list_all harmless [(cstr ''Host'', authority a)]" using host_field [OF assms(1)] by simp
  ultimately show ?thesis unfolding length_among_def using assms(2,3) by (intro exI conjI) (assumption | simp add: request_fields_def)+
qed

text \<open>The request the server makes of the bytes, in whatever pieces they come.\<close>

lemma request_at_server:
  assumes "address_ok a" "path_ok path" "method_ok m" "list_all harmless ext" "length ext \<le> 37"
    "http_request_text gap (url_of a path) m (header_text ext) body = Some text"
    "length text \<le> 8192 + length body" "length body < 2 ^ 31 - 8192" "concat ps = text"
  obtains c hm where "http_pieces ps (http_conn True) = Some c" "hc_events c = [(HttpRequest, hm, text)]" "hc_recv c = []"
    "\<not> hc_close c" "\<And>routes. service_request routes text hm = map_option (\<lambda>ep. \<lparr>sr_queryString = [], sr_method = m, sr_body = body,
       sr_endpoint = ep, sr_path = path\<rparr>) (find_route routes path)"
proof -
  let ?h = "request_fields a (length body) ext" and ?l = "request_line m path"
  let ?head = "head_text ?l ?h" and ?hm = "request_message m path ?h"
  let ?ev = "?hm\<lparr>hm_body_len := of_nat (length body)\<rparr>"
  have n: "length body < 2 ^ 31" using assms(8) by simp
  have tx: "text = ?head @ body" using request_text [OF assms(1-4) n] assms(6) by simp
  have path: "method_ok path" "63 \<notin> set path" using assms(2) by (auto simp: path_ok_def method_ok_def list_all_iff)
  have sizes: "length ?head \<le> 8192" "length ?head + length body < 2 ^ 31" using assms(7,8) tx by simp_all
  note w = whole_request [OF assms(3) path request_length_among [OF assms(1,4,5)] sizes]
  have "?head \<noteq> []" by (simp add: head_text_fields)
  then have d: "http_pieces ps (http_conn True) = Some (delivered True ?hm (length body) text)"
    using pieces_delivered [OF w, of "[]" ps] assms(9) tx by (simp add: received_empty)
  have fields: "hm_uri ?ev = (length m + 1, length path)" "hm_method ?ev = (0, length m)" "hm_query_string ?ev = (0, 0)"
    "hm_body_p ?ev = length ?head" "unat (hm_body_len ?ev) = length body"
    using n by (simp_all add: request_message_def Let_def put_headers_keep new_message_def unat_of_nat take_bit_nat_eq_self)
  have strings: "str_of text (length m + 1, length path) = path" "str_of text (0, length m) = m" "str_of text (0, 0) = []"
    unfolding tx by (simp_all add: str_of_def head_text_fields request_line_def)
  have body: "str_of text (length ?head, length body) = body" unfolding tx by (simp add: str_of_def)
  have "service_request routes text ?ev = map_option (\<lambda>ep. \<lparr>sr_queryString = [], sr_method = m, sr_body = body,
       sr_endpoint = ep, sr_path = path\<rparr>) (find_route routes path)" for routes
    unfolding service_request_def new_request_def Let_def fields strings body by simp
  then show ?thesis using d by (intro that [OF d]) (simp_all add: delivered_def http_conn_def)
qed

section \<open>Answers at the client\<close>

lemma header_lines_text: "h \<noteq> [] \<Longrightarrow> header_lines h @ [13, 10] = header_text h"
  by (induction h rule: header_lines.induct) auto

lemma status_message_text: "list_all text_char (mg_status_message code)"
  unfolding mg_status_message_def by (simp add: text_char_def isprint_def)

lemma header_text_append: "header_text (h @ h') = header_text h @ header_text h'"
  by (induction h) auto

lemma answer_text:
  assumes "list_all harmless ext" "length body < 2 ^ 31"
  shows "sendAnswer ext (int code) body =
    head_text (status_line code (mg_status_message (int code))) (ext @ [content_length (length body)]) @ body"
proof -
  have "list_all field_ok ext" using assms(1) unfolding list_all_iff harmless_def by blast
  then have "0 \<notin> set (header_text ext)" by (rule header_text_no_nul)
  then have "0 \<notin> set (header_lines ext)" if "ext \<noteq> []" using header_lines_text [OF that] by (metis Un_iff set_append)
  then have lines: "(let extra = c_str (header_lines ext) in if 0 < length extra then extra @ [13, 10] else []) = header_text ext"
  proof (cases ext)
    case (Cons f h)
    then have ne: "ext \<noteq> []" by simp
    then have "c_str (header_lines ext) = header_lines ext" using \<open>ext \<noteq> [] \<Longrightarrow> 0 \<notin> set (header_lines ext)\<close> by (intro c_str_id) simp
    moreover have "header_lines ext \<noteq> []" using Cons by (cases f; cases h) auto
    ultimately show ?thesis using header_lines_text [OF ne] by simp
  qed simp
  have n: "sint (of_nat (length body) :: u64) = int (length body)"
    using assms(2) by (simp add: signed_of_nat signed_take_bit_int_eq_self)
  have d: "to_string (int k) = to_dec k" for k by (simp add: to_string_def)
  show ?thesis
    unfolding sendAnswer_def mg_send_head_def mg_send_response_line_def n d lines head_text_fields status_line_def header_text_append
      content_length_def by simp
qed

lemma answer_at_client:
  assumes "100 \<le> code" "code < 600" "list_all harmless (hw_extHeaders W)" "length (hw_extHeaders W) \<le> 38"
    "text = sendAnswer (hw_extHeaders W) (int code) body" "length text \<le> 8192 + length body" "length body < 2 ^ 31 - 8192"
    "concat (hw_answer_pieces W text) = text"
  shows "client_reply W text = Some (code, body)"
proof -
  let ?ext = "hw_extHeaders W" and ?msg = "mg_status_message (int code)"
  let ?h = "?ext @ [content_length (length body)]" and ?l = "status_line code ?msg"
  let ?head = "head_text ?l ?h" and ?hm = "response_message code ?msg ?h"
  have n: "length body < 2 ^ 31" using assms(7) by simp
  have tx: "text = ?head @ body" using answer_text [OF assms(3) n] assms(5) by simp
  have sizes: "length ?head \<le> 8192" "length ?head + length body < 2 ^ 31" using assms(6,7) tx by simp_all
  have among: "length_among (length body) ?h" unfolding length_among_def using assms(3,4) by (intro exI conjI) (rule refl | simp)+
  note w = whole_response [OF assms(1,2) status_message_text among sizes]
  have "?head \<noteq> []" by (simp add: head_text_fields)
  then have "http_pieces (hw_answer_pieces W text) (http_conn False) = Some (delivered False ?hm (length body) text)"
    using pieces_delivered [OF w, of "[]" "hw_answer_pieces W text"] assms(8) tx by (simp add: received_empty)
  moreover have "hc_events (http_close (delivered False ?hm (length body) text)) = [(HttpReply, ?hm\<lparr>hm_body_len := of_nat (length body)\<rparr>, text)]"
    by (simp add: http_close_def delivered_def http_conn_def)
  moreover have "hm_resp_code ?hm = int code" "hm_body_p ?hm = length ?head"
    by (simp_all add: response_message_def Let_def put_headers_keep new_message_def)
  moreover have "str_of text (length ?head, length body) = body" unfolding tx by (simp add: str_of_def)
  moreover have "unat (of_nat (length body) :: u64) = length body" using n by (simp add: unat_of_nat take_bit_nat_eq_self)
  ultimately show ?thesis unfolding client_reply_def by simp
qed

end
