(* ===== verification/HttpMultipart.thy ===== *)
theory HttpMultipart
  imports HttpText "HOL-Library.Sublist"
begin

text \<open>
  A multipart body is read as it was written: the parameters of a header, the headers of a part, the search for the
  boundary, and the fields the server takes from the body \<open>sendBinRequest\<close> makes.
\<close>

section \<open>The parameters of a header\<close>

lemma find_upt: "p \<le> s \<Longrightarrow> s < q \<Longrightarrow> P s \<Longrightarrow> (\<And>i. p \<le> i \<Longrightarrow> i < s \<Longrightarrow> \<not> P i) \<Longrightarrow> List.find P [p ..< q] = Some s"
proof -
  assume a: "p \<le> s" "s < q" "P s" "\<And>i. p \<le> i \<Longrightarrow> i < s \<Longrightarrow> \<not> P i"
  have "[p ..< q] ! (s - p) = s" using a by simp
  then show ?thesis using a unfolding find_Some_iff by (intro exI [of _ "s - p"]) auto
qed

lemma find_map_eq: "\<forall>x \<in> set xs. P (f x) = Q x \<Longrightarrow> List.find P (map f xs) = map_option f (List.find Q xs)"
  by (induction xs) auto

lemma strncmp_prefix: "n \<le> length s \<Longrightarrow> strncmp (s @ x) t n = strncmp s t n"
proof (induction n arbitrary: s t)
  case (Suc n)
  then show ?case by (cases s) (simp_all add: c_at_def Let_def)
qed simp

lemma strncmp_same: "n \<le> length s \<Longrightarrow> n \<le> length t \<Longrightarrow> 0 \<notin> set (take n s) \<Longrightarrow> strncmp s t n = 0 \<longleftrightarrow> take n s = take n t"
proof (induction n arbitrary: s t)
  case (Suc n)
  then obtain a s' b t' where st: "s = a # s'" "t = b # t'" by (cases s; cases t) auto
  then show ?case using Suc.IH [of s' t'] Suc.prems by (auto simp: c_at_def Let_def word_uint_eq_iff)
qed simp

lemma find_var_at:
  assumes "buf = pre @ params @ post" "length name \<le> length params"
  shows "find_var buf (length pre) (int (length pre + length params)) name =
    map_option ((+) (length pre)) (find_var params 0 (int (length params)) name)"
proof -
  let ?p = "length pre" and ?k = "length params - length name"
  have at: "c_at buf (?p + j) = c_at params j" if "j < length params" for j using that assms(1) by (simp add: c_at_def nth_append)
  have n: "nat (int (?p + length params) - int (length name)) = ?p + ?k" "nat (int (length params) - int (length name)) = ?k"
    using assms(2) by simp_all
  have u: "[?p ..< ?p + ?k] = map ((+) ?p) [0 ..< ?k]" by (intro nth_equalityI) simp_all
  let ?P = "\<lambda>s. (s = ?p \<or> c_at buf (s - 1) \<in> {32, 44, 59}) \<and> c_at buf (s + length name) = 61 \<and> strncmp (drop s buf) name (length name) = 0"
  let ?Q = "\<lambda>s. (s = 0 \<or> c_at params (s - 1) \<in> {32, 44, 59}) \<and> c_at params (s + length name) = 61 \<and> strncmp (drop s params) name (length name) = 0"
  have e: "?P (?p + i) \<longleftrightarrow> ?Q i" if "i < ?k" for i
  proof -
    have "i + length name < length params" "i - 1 < length params" using that by simp_all
    then have "c_at buf (?p + i + length name) = c_at params (i + length name)" "c_at buf (?p + (i - 1)) = c_at params (i - 1)"
      using at by (simp_all add: add.assoc)
    moreover have "drop (?p + i) buf = drop i params @ post" using that assms(1) by simp
    then have "strncmp (drop (?p + i) buf) name (length name) = strncmp (drop i params) name (length name)"
      using that strncmp_prefix [of "length name" "drop i params"] by simp
    ultimately show ?thesis by (cases i) simp_all
  qed
  have "List.find ?P [?p ..< ?p + ?k] = map_option ((+) ?p) (List.find ?Q [0 ..< ?k])"
    unfolding u
  proof (rule find_map_eq, rule ballI)
    fix x
    assume "x \<in> set [0 ..< ?k]"
    then have "x < ?k" by simp
    then show "?P (?p + x) = ?Q x" by (rule e)
  qed
  then show ?thesis unfolding find_var_def n .
qed

lemma append_chars_user:
  "ab_len ab + length v \<le> length (ab_user ab) \<Longrightarrow> foldl altbuf_append ab v =
    ab\<lparr>ab_user := store_at (ab_user ab) (ab_len ab) v, ab_len := ab_len ab + length v\<rparr>"
proof (induction v arbitrary: ab)
  case Nil
  then show ?case by (simp add: store_at_def)
next
  case (Cons c v)
  let ?ab = "ab\<lparr>ab_user := (ab_user ab)[ab_len ab := c], ab_len := ab_len ab + 1\<rparr>"
  have "altbuf_append ab c = ?ab" using Cons.prems by (simp add: altbuf_append_def)
  moreover have "foldl altbuf_append ?ab v = ?ab\<lparr>ab_user := store_at (ab_user ?ab) (ab_len ?ab) v, ab_len := ab_len ?ab + length v\<rparr>"
    using Cons.prems by (intro Cons.IH) simp
  moreover have "store_at ((ab_user ab)[ab_len ab := c]) (ab_len ab + 1) v = store_at (ab_user ab) (ab_len ab) (c # v)"
    using Cons.prems by (simp add: store_at_def take_Suc_conv_app_nth take_update_cancel drop_update_cancel)
  ultimately show ?case by simp
qed

lemma value_loop_text:
  "buf = pre @ v @ q # post \<Longrightarrow> p = length pre \<Longrightarrow> p + length v \<le> e \<Longrightarrow> q \<noteq> 32 \<Longrightarrow> \<forall>c \<in> set v. c \<noteq> q \<and> c \<noteq> 92 \<Longrightarrow>
    value_loop buf p e q q q ab = (p + length v, foldl altbuf_append ab v)"
proof (induction v arbitrary: pre p ab)
  case Nil
  then show ?case by (subst value_loop.simps) (simp add: c_at_def)
next
  case (Cons c v)
  have "c_at buf p = c" using Cons.prems by (simp add: c_at_def nth_append)
  moreover have "value_loop buf (p + 1) e q q q (altbuf_append ab c) = (p + 1 + length v, foldl altbuf_append (altbuf_append ab c) v)"
    using Cons.prems by (intro Cons.IH [of "pre @ [c]"]) auto
  ultimately show ?case using Cons.prems by (subst value_loop.simps) (simp add: Let_def)
qed

lemma header_param_quoted:
  assumes "buf = pre @ params @ post" "p = length pre" "end = int (length pre + length params)"
    "find_var params 0 (int (length params)) name = Some (length a)" "params = a @ name @ [61, 34] @ v @ [34] @ b"
    "\<forall>c \<in> set v. c \<noteq> 34 \<and> c \<noteq> 92" "v \<noteq> []" "length v < length arr"
  shows "header_param buf p end name arr = v @ 0 # drop (length v + 1) arr"
proof -
  let ?s = "length pre + length a" and ?ab = "altbuf_init (arr[0 := 0])"
  have found: "find_var buf p end name = Some ?s" using find_var_at [OF assms(1), of name] assms(2-5) by simp
  have q: "c_at buf (?s + length name + 1) = 34" "c_at buf (?s + length name + 2 + length v) = 34" "int (?s + length name + 1) < end"
    using assms(1,3,5) by (simp_all add: c_at_def nth_append)
  have f: "foldl altbuf_append ?ab v = ?ab\<lparr>ab_user := v @ drop (length v) (arr[0 := 0]), ab_len := length v\<rparr>"
    using append_chars_user [of ?ab v] assms(8) by (simp add: altbuf_init_def store_at_def)
  have "buf = (pre @ a @ name @ [61, 34]) @ v @ 34 # (b @ post)" using assms(1,5) by simp
  from value_loop_text [OF this, of "?s + length name + 1 + 1" "nat end" ?ab]
  have l: "value_loop buf (?s + length name + 1 + 1) (nat end) 34 34 34 ?ab = (?s + length name + 2 + length v, foldl altbuf_append ?ab v)"
    using assms(3,5,6) by simp
  have "0 < ab_len (foldl altbuf_append ?ab v)" using assms(7) unfolding f by simp
  then have "header_internal buf p end name ?ab = altbuf_append (foldl altbuf_append ?ab v) 0"
    unfolding header_internal_def found option.case Let_def q(1) if_P [OF q(3)] using l q(2) by simp
  also have "\<dots> = ?ab\<lparr>ab_user := v @ 0 # drop (length v + 1) arr, ab_len := length v + 1\<rparr>"
  proof -
    obtain c w where v: "v = c # w" using assms(7) by (cases v) auto
    have "drop (length v) (arr[0 := 0]) = drop (length v) arr" using v by simp
    then have "(v @ drop (length v) (arr[0 := 0]))[length v := 0] = v @ 0 # drop (length v + 1) arr"
      using assms(8) by (simp add: list_update_append Cons_nth_drop_Suc [symmetric])
    then show ?thesis unfolding f using assms(8) by (simp add: altbuf_append_def altbuf_init_def)
  qed
  finally have h: "header_internal buf p end name ?ab = ?ab\<lparr>ab_user := v @ 0 # drop (length v + 1) arr, ab_len := length v + 1\<rparr>" .
  moreover have "\<not> length (v @ 0 # drop (length v + 1) arr) < length v + 1" by simp
  ultimately show ?thesis unfolding header_param_def Let_def altbuf_reallocated_def by (simp del: length_append length_Cons)
qed

section \<open>The headers of a part\<close>

lemma ncasecmp_same: "n \<le> length s \<Longrightarrow> mg_ncasecmp (s @ x) (s @ y) n = 0"
proof (induction n arbitrary: s)
  case (Suc n)
  then show ?case by (cases s) (simp_all add: c_at_def Let_def)
qed simp

lemma ncasecmp_prefix_right: "n \<le> length t \<Longrightarrow> mg_ncasecmp s (t @ x) n = mg_ncasecmp s t n"
proof (induction n arbitrary: s t)
  case (Suc n)
  then show ?case by (cases t) (simp_all add: c_at_def Let_def)
qed simp

lemma other_lines:
  "mg_ncasecmp content_disposition (cstr ''Content-Type: application/octet-stream'' @ x) 21 \<noteq> 0"
  "mg_ncasecmp content_disposition (cstr ''Content-Transfer-Encoding: binary'' @ x) 21 \<noteq> 0"
  "mg_ncasecmp content_disposition (13 # x) 21 \<noteq> 0"
proof -
  have "mg_ncasecmp content_disposition (cstr ''Content-Type: application/octet-stream'') 21 \<noteq> 0"
    "mg_ncasecmp content_disposition (cstr ''Content-Transfer-Encoding: binary'') 21 \<noteq> 0" by code_simp+
  then show "mg_ncasecmp content_disposition (cstr ''Content-Type: application/octet-stream'' @ x) 21 \<noteq> 0"
    "mg_ncasecmp content_disposition (cstr ''Content-Transfer-Encoding: binary'' @ x) 21 \<noteq> 0"
    by (subst ncasecmp_prefix_right; simp)+
  have "21 = Suc 20" by simp
  then show "mg_ncasecmp content_disposition (13 # x) 21 \<noteq> 0"
    by (simp only: mg_ncasecmp.simps) (simp add: content_disposition_def c_at_def str_util_lowercase_def tolower_def)
qed

lemma index_from_app: "c \<notin> set w \<Longrightarrow> index_from c i (w @ c # x) = Some (i + length w)"
  by (induction w arbitrary: i) auto

lemma line_len: "10 \<notin> set l \<Longrightarrow> mg_get_line_len (l @ 13 # 10 # x) = length l + 2"
  using index_from_app [of 10 "l @ [13]" 0 x] by (simp add: mg_get_line_len_def memchr_def)

lemma part_headers_line:
  assumes "buf = pre @ l @ 13 # 10 # post" "n = length pre" "10 \<notin> set l" "n + length l + 2 \<le> hl"
  shows "part_headers buf n hl v f =
    (if mg_ncasecmp content_disposition (drop n buf) 21 = 0
     then part_headers buf (n + length l + 2) hl (header_param buf (n + 21) (int (n + length l)) (cstr ''name'') v)
       (header_param buf (n + 21) (int (n + length l)) (cstr ''filename'') f)
     else part_headers buf (n + length l + 2) hl v f)"
proof -
  have "take (hl - n) (drop n buf) = l @ 13 # 10 # take (hl - n - length l - 2) post"
    using assms by (simp add: take_Cons' algebra_simps)
  then have "mg_get_line_len (take (hl - n) (drop n buf)) = length l + 2" using line_len [OF assms(3)] by simp
  moreover have "int (n + (length l + 2)) - 2 = int (n + length l)" by simp
  ultimately show ?thesis by (subst part_headers.simps) (simp only: Let_def add.assoc, simp)
qed

lemma part_headers_end: "part_headers buf n n v f = (v, f)"
  by (subst part_headers.simps) (simp add: mg_get_line_len_def memchr_def)

definition bin_params :: bytes where
  "bin_params = cstr ''form-data; name='' @ [34] @ cstr ''requestData'' @ [34] @ cstr ''; filename='' @ [34] @ cstr ''requestData.boss'' @ [34]"

lemma bin_params_name: "find_var bin_params 0 (int (length bin_params)) (cstr ''name'') = Some (length (cstr ''form-data; ''))"
  by code_simp

lemma bin_params_filename:
  "find_var bin_params 0 (int (length bin_params)) (cstr ''filename'') = Some (length (cstr ''form-data; name=0requestData0; ''))"
  by code_simp

lemma bin_part_lines:
  "bin_part_headers = (content_disposition @ bin_params) @ 13 # 10 # cstr ''Content-Type: application/octet-stream'' @ 13 # 10 #
     cstr ''Content-Transfer-Encoding: binary'' @ 13 # 10 # 13 # 10 # []"
  by (simp add: bin_part_headers_def bin_params_def content_disposition_def)

lemma bin_part_parsed:
  assumes "buf = pre @ bin_part_headers @ post" "length v = 100" "length f = 100"
  shows "part_headers buf (length pre) (length pre + length bin_part_headers) v f =
    (cstr ''requestData'' @ 0 # drop (length (cstr ''requestData'') + 1) v, cstr ''requestData.boss'' @ 0 # drop (length (cstr ''requestData.boss'') + 1) f)"
proof -
  let ?n = "length pre" and ?hl = "length pre + length bin_part_headers"
  let ?l1 = "content_disposition @ bin_params" and ?l2 = "cstr ''Content-Type: application/octet-stream''"
    and ?l3 = "cstr ''Content-Transfer-Encoding: binary''"
  let ?n2 = "?n + length ?l1 + 2" let ?n3 = "?n2 + length ?l2 + 2" let ?n4 = "?n3 + length ?l3 + 2"
  have hl: "?hl = ?n4 + 2" unfolding bin_part_lines by simp
  have buf: "buf = pre @ ?l1 @ 13 # 10 # (?l2 @ 13 # 10 # ?l3 @ 13 # 10 # 13 # 10 # post)" unfolding assms(1) bin_part_lines by simp
  have cd: "length content_disposition = 21" "length bin_params = 58" by code_simp+
  have nl: "10 \<notin> set ?l1" "10 \<notin> set ?l2" "10 \<notin> set ?l3" by code_simp+
  have c1: "mg_ncasecmp content_disposition (drop ?n buf) 21 = 0"
  proof -
    have "mg_ncasecmp (content_disposition @ []) (content_disposition @ x) 21 = 0" for x by (rule ncasecmp_same) (simp add: cd)
    then show ?thesis unfolding buf by simp
  qed
  have h1: "header_param buf (?n + 21) (int (?n + length ?l1)) (cstr ''name'') v = cstr ''requestData'' @ 0 # drop (length (cstr ''requestData'') + 1) v"
  proof -
    have "buf = (pre @ content_disposition) @ bin_params @ (13 # 10 # (?l2 @ 13 # 10 # ?l3 @ 13 # 10 # 13 # 10 # post))" unfolding buf by simp
    from header_param_quoted [OF this _ _ bin_params_name, of "?n + 21" "int (?n + length ?l1)" "cstr ''requestData''"
      "cstr ''; filename='' @ [34] @ cstr ''requestData.boss'' @ [34]" v]
    show ?thesis using assms(2) cd by (simp add: bin_params_def)
  qed
  have h2: "header_param buf (?n + 21) (int (?n + length ?l1)) (cstr ''filename'') f = cstr ''requestData.boss'' @ 0 # drop (length (cstr ''requestData.boss'') + 1) f"
  proof -
    have "buf = (pre @ content_disposition) @ bin_params @ (13 # 10 # (?l2 @ 13 # 10 # ?l3 @ 13 # 10 # 13 # 10 # post))" unfolding buf by simp
    from header_param_quoted [OF this _ _ _, of "?n + 21" "int (?n + length ?l1)" "cstr ''filename''"
      "cstr ''form-data; name='' @ [34] @ cstr ''requestData'' @ [34] @ cstr ''; ''" "cstr ''requestData.boss''" "[]" f]
    show ?thesis using assms(3) cd bin_params_filename by (simp add: bin_params_def)
  qed
  have le: "?n + length ?l1 + 2 \<le> ?hl" "?n2 + length ?l2 + 2 \<le> ?hl" "?n3 + length ?l3 + 2 \<le> ?hl" "?n4 + length ([] :: bytes) + 2 \<le> ?hl"
    unfolding hl by simp_all
  have 1: "part_headers buf ?n ?hl v f =
      part_headers buf ?n2 ?hl (cstr ''requestData'' @ 0 # drop (length (cstr ''requestData'') + 1) v) (cstr ''requestData.boss'' @ 0 # drop (length (cstr ''requestData.boss'') + 1) f)"
    unfolding part_headers_line [OF buf refl nl(1) le(1), of v f] if_P [OF c1] h1 h2 ..
  have b2: "buf = (pre @ ?l1 @ [13, 10]) @ ?l2 @ 13 # 10 # (?l3 @ 13 # 10 # 13 # 10 # post)" unfolding buf by simp
  have p2: "?n2 = length (pre @ ?l1 @ [13, 10])" by simp
  have "drop ?n2 buf = ?l2 @ 13 # 10 # (?l3 @ 13 # 10 # 13 # 10 # post)" unfolding p2 by (subst b2) simp
  then have c2: "mg_ncasecmp content_disposition (drop ?n2 buf) 21 \<noteq> 0" using other_lines(1) by simp
  have 2: "part_headers buf ?n2 ?hl v f = part_headers buf ?n3 ?hl v f" for v f
    unfolding part_headers_line [OF b2 p2 nl(2) le(2), of v f] if_not_P [OF c2] ..
  have b3: "buf = (pre @ ?l1 @ [13, 10] @ ?l2 @ [13, 10]) @ ?l3 @ 13 # 10 # (13 # 10 # post)" unfolding buf by simp
  have p3: "?n3 = length (pre @ ?l1 @ [13, 10] @ ?l2 @ [13, 10])" by simp
  have "drop ?n3 buf = ?l3 @ 13 # 10 # (13 # 10 # post)" unfolding p3 by (subst b3) simp
  then have c3: "mg_ncasecmp content_disposition (drop ?n3 buf) 21 \<noteq> 0" using other_lines(2) by simp
  have 3: "part_headers buf ?n3 ?hl v f = part_headers buf ?n4 ?hl v f" for v f
    unfolding part_headers_line [OF b3 p3 nl(3) le(3), of v f] if_not_P [OF c3] ..
  have b4: "buf = (pre @ ?l1 @ [13, 10] @ ?l2 @ [13, 10] @ ?l3 @ [13, 10]) @ [] @ 13 # 10 # post" unfolding buf by simp
  have p4: "?n4 = length (pre @ ?l1 @ [13, 10] @ ?l2 @ [13, 10] @ ?l3 @ [13, 10])" by simp
  have "drop ?n4 buf = 13 # 10 # post" unfolding p4 by (subst b4) simp
  then have c4: "mg_ncasecmp content_disposition (drop ?n4 buf) 21 \<noteq> 0" using other_lines(3) by simp
  have n4: "10 \<notin> set ([] :: bytes)" "?n4 + length ([] :: bytes) + 2 = ?hl" unfolding hl by simp_all
  have 4: "part_headers buf ?n4 ?hl v f = part_headers buf ?hl ?hl v f" for v f
    unfolding part_headers_line [OF b4 p4 n4(1) le(4), of v f] if_not_P [OF c4] n4(2) ..
  show ?thesis unfolding 1 2 3 4 part_headers_end ..
qed

section \<open>The body of a request\<close>

lemma id_chars: "list_all key_char (randomString rnd)"
proof -
  have "list_all key_char idChars" "0 < length idChars" by code_simp+
  then have "key_char (idChars ! (unat b mod length idChars))" for b :: byte by (simp add: list_all_iff)
  then show ?thesis by (simp add: randomString_def list_all_iff)
qed

definition marker :: "bytes \<Rightarrow> bytes" where
  "marker rnd = [45, 45] @ bin_boundary rnd"

lemma marker_chars: "list_all key_char (marker rnd)"
proof -
  have "list_all key_char ([45, 45] @ cstr ''==boundary=='')" by code_simp
  then show ?thesis using id_chars [of rnd] by (simp add: marker_def bin_boundary_def)
qed

lemma marker_no: "0 \<notin> set (marker rnd)" "10 \<notin> set (marker rnd)" "13 \<notin> set (marker rnd)"
  using marker_chars [of rnd] text_char_facts by (auto simp: list_all_iff key_char_def word_char_def)

lemma marker_length: "length (marker rnd) = 14 + length rnd"
  by (simp add: marker_def bin_boundary_def randomString_def)

lemma bin_body_split:
  "bin_body (bin_boundary rnd) req = marker rnd @ [13, 10] @ bin_part_headers @ req @ [13, 10] @ marker rnd @ [45, 45, 13, 10]"
  by (simp add: bin_body_def marker_def)

text \<open>The head of the part.\<close>

definition part_lines :: "bytes \<Rightarrow> bytes list" where
  "part_lines rnd = [marker rnd, content_disposition @ bin_params, cstr ''Content-Type: application/octet-stream'',
     cstr ''Content-Transfer-Encoding: binary'']"

lemma part_lines_text: "lines_text (part_lines rnd) = marker rnd @ [13, 10] @ bin_part_headers"
  by (simp add: part_lines_def bin_part_lines)

lemma part_lines_ok: "list_all line_ok (part_lines rnd)"
proof -
  have "line_ok (content_disposition @ bin_params)" "line_ok (cstr ''Content-Type: application/octet-stream'')"
    "line_ok (cstr ''Content-Transfer-Encoding: binary'')" by code_simp+
  moreover have "line_ok (marker rnd)" using marker_chars [of rnd]
    by (auto simp: line_ok_def list_all_iff key_char_def word_char_def marker_def)
  ultimately show ?thesis by (simp add: part_lines_def)
qed

lemma marker_found:
  assumes "\<not> sublist (marker rnd) req" "i < length req + 2" "buf = pre @ req @ [13, 10] @ marker rnd @ post" "hd_ok = (c_at buf (length pre + i) = 45)"
  shows "\<not> (hd_ok \<and> strncmp (marker rnd @ x) (drop (length pre + i) buf) (length (marker rnd)) = 0)"
proof
  let ?m = "marker rnd" and ?t = "req @ [13, 10] @ marker rnd @ post"
  assume a: "hd_ok \<and> strncmp (?m @ x) (drop (length pre + i) buf) (length ?m) = 0"
  have d: "drop (length pre + i) buf = drop i ?t" using assms(3) by simp
  have len: "length ?m \<le> length (drop i ?t)" using assms(2) by simp
  have "take (length ?m) (?m @ x) = take (length ?m) (drop i ?t)"
    using a strncmp_same [of "length ?m" "?m @ x" "drop i ?t"] len marker_no(1) [of rnd] unfolding d by simp
  then have m: "?m = take (length ?m) (drop i ?t)" by simp
  have pos: "0 < length ?m" by (simp add: marker_def)
  consider "i + length ?m \<le> length req" | "i \<le> length req" "length req < i + length ?m" | "i = length req + 1"
    using assms(2) by linarith
  then show False
  proof cases
    case 1
    then have "?m = take (length ?m) (drop i req)" using m by simp
    then have "sublist ?m req" unfolding sublist_def by (metis append_take_drop_id)
    then show False using assms(1) by blast
  next
    case 2
    let ?k = "length req - i"
    have k: "?k < length ?m" "i + ?k = length req" using 2 by simp_all
    have "?m ! ?k = (take (length ?m) (drop i ?t)) ! ?k" using m by simp
    also have "\<dots> = (drop i ?t) ! ?k" by (rule nth_take [OF k(1)])
    also have "\<dots> = ?t ! (i + ?k)" by (rule nth_drop) (use 2 in simp)
    also have "\<dots> = ?t ! (length req)" unfolding k(2) ..
    also have "\<dots> = 13" by (simp add: nth_append)
    finally show False using k(1) marker_no(3) [of rnd] nth_mem by metis
  next
    case 3
    then have "c_at buf (length pre + i) = 10" using assms(3) by (simp add: c_at_def nth_append)
    then show False using a assms(4) by simp
  qed
qed

lemma bin_body_parsed:
  assumes "\<not> sublist (marker rnd) req" "length (bin_body (bin_boundary rnd) req) < 2 ^ 31" "length v = 100" "length f = 100"
  shows "mg_parse_multipart (bin_body (bin_boundary rnd) req) v f =
    (length (marker rnd) + 2 + length bin_part_headers + length req + 2,
     (length (marker rnd) + 2 + length bin_part_headers, of_nat (length req)),
     cstr ''requestData'' @ 0 # drop (length (cstr ''requestData'') + 1) v,
     cstr ''requestData.boss'' @ 0 # drop (length (cstr ''requestData.boss'') + 1) f)"
proof -
  let ?m = "marker rnd" let ?buf = "bin_body (bin_boundary rnd) req"
  let ?hl = "length ?m + 2 + length bin_part_headers" let ?pos = "?hl + length req + 2"
  have split: "?buf = lines_text (part_lines rnd) @ req @ [13, 10] @ ?m @ [45, 45, 13, 10]"
    unfolding part_lines_text bin_body_split by simp
  have "part_lines rnd \<noteq> []" by (simp add: part_lines_def)
  from len_lines [OF part_lines_ok this, of "req @ [13, 10] @ ?m @ [45, 45, 13, 10]" 0]
  have "request_len_loop ?buf 0 = int (length (lines_text (part_lines rnd)))" unfolding split by simp
  then have shl: "mg_http_get_request_len ?buf (int_of_size (length ?buf)) = int ?hl"
    using assms(2) by (simp add: mg_http_get_request_len_def int_of_size_def signed_of_nat signed_take_bit_int_eq_self part_lines_text)
  have bl: "mg_get_line_len ?buf = length ?m + 2"
    using line_len [OF marker_no(2), of rnd "bin_part_headers @ req @ [13, 10] @ ?m @ [45, 45, 13, 10]"] by (simp add: bin_body_split)
  have dashes: "c_at ?buf 0 = 45" "c_at ?buf 1 = 45" "c_at ?buf 2 \<noteq> 10"
    unfolding bin_body_def by (simp_all add: c_at_def bin_boundary_def)
  have pre: "?buf = (?m @ [13, 10]) @ bin_part_headers @ (req @ [13, 10] @ ?m @ [45, 45, 13, 10])" unfolding bin_body_split by simp
  have "part_headers ?buf (length (?m @ [13, 10])) (length (?m @ [13, 10]) + length bin_part_headers) (v[0 := 0]) (f[0 := 0]) =
      (cstr ''requestData'' @ 0 # drop (length (cstr ''requestData'') + 1) (v[0 := 0]),
       cstr ''requestData.boss'' @ 0 # drop (length (cstr ''requestData.boss'') + 1) (f[0 := 0]))"
    by (rule bin_part_parsed [OF pre]) (simp_all add: assms(3,4))
  then have ph: "part_headers ?buf (length ?m + 2) ?hl (v[0 := 0]) (f[0 := 0]) =
      (cstr ''requestData'' @ 0 # drop (length (cstr ''requestData'') + 1) v,
       cstr ''requestData.boss'' @ 0 # drop (length (cstr ''requestData.boss'') + 1) f)" by simp
  let ?P = "\<lambda>pos. c_at ?buf pos = 45 \<and> strncmp ?buf (drop pos ?buf) (length ?m) = 0"
  have body: "?buf = lines_text (part_lines rnd) @ req @ [13, 10] @ ?m @ [45, 45, 13, 10]" by (rule split)
  have hl: "length (lines_text (part_lines rnd)) = ?hl" unfolding part_lines_text by simp
  have len: "length ?buf = ?pos + length ?m + 4" unfolding body using hl by simp
  obtain y where y: "?buf = ?m @ y" unfolding bin_body_split by blast
  have no: "\<not> ?P i" if "?hl \<le> i" "i < ?pos" for i
  proof -
    have i: "i - ?hl < length req + 2" "?hl + (i - ?hl) = i" using that by linarith+
    show ?thesis using marker_found [OF assms(1) i(1) body refl, of y] unfolding hl i(2) y [symmetric] .
  qed
  have "drop ?pos ?buf = ?m @ [45, 45, 13, 10]"
  proof -
    have "?buf = (lines_text (part_lines rnd) @ req @ [13, 10]) @ ?m @ [45, 45, 13, 10]" unfolding body by simp
    moreover have "length (lines_text (part_lines rnd) @ req @ [13, 10]) = ?pos" using hl by simp
    ultimately show ?thesis by (metis append_eq_conv_conj)
  qed
  moreover from this have "c_at ?buf ?pos = 45"
    by (metis (no_types) add.right_neutral append_Cons c_at_def drop_eq_Nil hd_drop_conv_nth leI list.sel(1) marker_def not_Cons_self2 append_is_Nil_conv list.distinct(1))
  moreover have "strncmp (?m @ y) (?m @ [45, 45, 13, 10]) (length ?m) = 0"
    by (subst strncmp_same) (use marker_no(1) [of rnd] in simp_all)
  ultimately have yes: "?P ?pos" using y by simp
  have find: "List.find ?P [?hl ..< length ?buf - length ?m] = Some ?pos"
    by (rule find_upt) (use yes no len in simp_all)
  have ne: "?buf \<noteq> []" "\<not> int ?hl \<le> 0" unfolding bin_body_split by simp_all
  have dl: "(of_nat ?pos - 2 - of_nat ?hl :: u64) = of_nat (length req)" by simp
  have bl2: "length ?m + 2 - 2 = length ?m" by simp
  show ?thesis unfolding mg_parse_multipart_def shl Let_def nat_int bl bl2
    using ne dashes ph find dl by simp
qed

lemma last_boundary_ends: "fst (mg_parse_multipart (marker rnd @ [45, 45, 13, 10]) v f) = 0"
proof -
  let ?b = "marker rnd @ [45, 45, 13, 10]"
  have t: "list_all text_char (marker rnd @ [45, 45])"
    using marker_chars [of rnd] by (auto simp: list_all_iff key_char_def word_char_def text_char_def isprint_def)
  have "request_len_loop (marker rnd @ [45, 45, 13, 10]) 0 = 0"
    using len_text [OF t, of "[13, 10]" 0] by simp
  then have full: "request_len_loop ?b 0 = 0" .
  have short: "request_len_loop (take n ?b) 0 = 0" for n
  proof -
    have "list_all text_char (take n (marker rnd @ [45, 45]))" using t unfolding list_all_iff by (meson in_set_takeD)
    then have "request_len_loop (take n (marker rnd @ [45, 45]) @ take (n - (length (marker rnd) + 2)) [13, 10]) 0 =
        request_len_loop (take (n - (length (marker rnd) + 2)) [13, 10]) (int (length (take n (marker rnd @ [45, 45]))))"
      using len_text by simp
    moreover have "take n ?b = take n (marker rnd @ [45, 45]) @ take (n - (length (marker rnd) + 2)) [13, 10]"
      using take_append [of n "marker rnd @ [45, 45]" "[13, 10]"] by simp
    moreover have "request_len_loop (take k [13, 10]) i = 0" for k i
    proof -
      consider "k = 0" | "k = 1" | "2 \<le> k" by linarith
      then show ?thesis by cases simp_all
    qed
    ultimately show ?thesis by simp
  qed
  show ?thesis by (simp add: mg_parse_multipart_def mg_http_get_request_len_def short Let_def del: take_append)
qed

lemma bin_body_fields:
  assumes "\<not> sublist (marker rnd) req" "length (bin_body (bin_boundary rnd) req) < 2 ^ 31" "length v = 100" "length f = 100"
  shows "multipart_loop (bin_body (bin_boundary rnd) req) v f (\<lambda>k. None) = Some [cstr ''requestData'' \<mapsto> req]"
proof -
  let ?m = "marker rnd" let ?buf = "bin_body (bin_boundary rnd) req"
  let ?hl = "length ?m + 2 + length bin_part_headers" let ?pos = "?hl + length req + 2"
  let ?v = "cstr ''requestData'' @ 0 # drop (length (cstr ''requestData'') + 1) v"
  let ?f = "cstr ''requestData.boss'' @ 0 # drop (length (cstr ''requestData.boss'') + 1) f"
  have parts: "length req \<le> length ?buf" "take (length req) (drop ?hl ?buf) = req" "drop ?pos ?buf = ?m @ [45, 45, 13, 10]"
  proof -
    have b: "?buf = (?m @ [13, 10] @ bin_part_headers) @ req @ [13, 10] @ ?m @ [45, 45, 13, 10]" unfolding bin_body_split by simp
    have l: "length (?m @ [13, 10] @ bin_part_headers) = ?hl" by simp
    show "length req \<le> length ?buf" unfolding b by simp
    have d: "drop ?hl ?buf = req @ [13, 10] @ ?m @ [45, 45, 13, 10]" using b l by (metis append_eq_conv_conj)
    then show "take (length req) (drop ?hl ?buf) = req" by simp
    have "drop ?pos ?buf = drop (length req + 2) (drop ?hl ?buf)" by (simp add: add.commute add.left_commute)
    then show "drop ?pos ?buf = ?m @ [45, 45, 13, 10]" unfolding d by simp
  qed
  have small: "length req < 2 ^ 31" using parts(1) assms(2) by linarith
  have u: "unat (of_nat (length req) :: u64) = length req" using small by (simp add: unat_of_nat take_bit_nat_eq_self)
  have name: "c_str ?v = cstr ''requestData''" by simp
  obtain n2 chunk v2 f2 where last: "mg_parse_multipart (?m @ [45, 45, 13, 10]) ?v ?f = (n2, chunk, v2, f2)" "n2 = 0"
    using last_boundary_ends [of rnd ?v ?f] by (cases "mg_parse_multipart (?m @ [45, 45, 13, 10]) ?v ?f") auto
  have second: "multipart_loop (?m @ [45, 45, 13, 10]) ?v ?f res = Some res" for res
    by (subst multipart_loop.simps) (simp only: last Let_def prod.case, cases chunk, simp)
  have "?pos \<noteq> 0" "\<not> length ?buf < length req" using parts(1) by simp_all
  then show ?thesis
    unfolding multipart_loop.simps [of ?buf] bin_body_parsed [OF assms] Let_def prod.case u parts name second by simp
qed

end
