(* ===== verification/HttpTransport.thy ===== *)
theory HttpTransport
  imports HttpDelivery HttpMultipart HttpExchange
begin

text \<open>
  The network between client and server: a request of the secure protocol goes through the text of an HTTP request, the
  multipart body and the text of the answer, and the outcome is that of the server called with the request.
\<close>

section \<open>Requests arrive\<close>

text \<open>C23: However the bytes of a client's request are cut into pieces, the server gets one request from them, with the method,
  the path and the body the client gave it and without a query; nothing is left over, and the connection stays open. This
  is for a head of at most 8192 bytes (for a longer one the server closes the connection), at most 37 extra headers that are
  not those the handler looks for, a body below \<open>2 ^ 31 - 8192\<close> bytes, a method that is a word, an address with a host and
  possibly a port, and a path without query and fragment.\<close>

theorem request_arrives:
  assumes "address_ok a" "path_ok path" "method_ok m" "list_all harmless ext" "length ext \<le> 37"
    "http_request_text gap (url_of a path) m (header_text ext) body = Some text"
    "length text \<le> 8192 + length body" "length body < 2 ^ 31 - 8192" "concat ps = text"
  shows "\<exists>c hm. http_pieces ps (http_conn True) = Some c \<and> hc_events c = [(HttpRequest, hm, text)] \<and> hc_recv c = [] \<and>
    \<not> hc_close c \<and> (\<forall>routes. service_request routes text hm = map_option (\<lambda>ep. \<lparr>sr_queryString = [], sr_method = m, sr_body = body,
       sr_endpoint = ep, sr_path = path\<rparr>) (find_route routes path))"
  by (rule request_at_server [OF assms]) blast

definition sample_address :: http_address where
  "sample_address = \<lparr>ad_host = cstr ''localhost'', ad_port = cstr '':8080''\<rparr>"

lemma sample_address_ok: "address_ok sample_address"
  by code_simp

lemma request_arrives_witness:
  "\<exists>text c hm. http_request_text 0 (url_of sample_address (cstr ''/connect'')) (cstr ''POST'') [] [1, 2, 3] = Some text \<and>
    http_pieces (map (\<lambda>b. [b]) text) (http_conn True) = Some c \<and> hc_events c = [(HttpRequest, hm, text)] \<and>
    service_request secure_routes text hm = Some \<lparr>sr_queryString = [], sr_method = cstr ''POST'', sr_body = [1, 2, 3],
       sr_endpoint = cstr ''/connect'', sr_path = cstr ''/connect''\<rparr>"
proof -
  let ?text = "head_text (request_line (cstr ''POST'') (cstr ''/connect'')) (request_fields sample_address (length [1, 2, 3 :: byte]) []) @ [1, 2, 3]"
  have ok: "path_ok (cstr ''/connect'')" "method_ok (cstr ''POST'')" by code_simp+
  have t: "http_request_text 0 (url_of sample_address (cstr ''/connect'')) (cstr ''POST'') (header_text []) [1, 2, 3] = Some ?text"
    by (rule request_text [OF sample_address_ok ok(1,2)]) simp_all
  have l: "length ?text \<le> 8192 + length [1, 2, 3 :: byte]" by code_simp
  have c: "concat (map (\<lambda>b. [b]) ?text) = ?text" by (induction ?text) simp_all
  have r: "find_route secure_routes (cstr ''/connect'') = Some (cstr ''/connect'')" by (subst find_route.simps) (simp add: secure_routes_def)
  obtain c hm where "http_pieces (map (\<lambda>b. [b]) ?text) (http_conn True) = Some c" "hc_events c = [(HttpRequest, hm, ?text)]"
    "\<forall>routes. service_request routes ?text hm = map_option (\<lambda>ep. \<lparr>sr_queryString = [], sr_method = cstr ''POST'', sr_body = [1, 2, 3],
       sr_endpoint = ep, sr_path = cstr ''/connect''\<rparr>) (find_route routes (cstr ''/connect''))"
    using request_arrives [OF sample_address_ok ok(1,2) _ _ t l _ c] by auto
  then show ?thesis using t r by (intro exI conjI) (simp | assumption)+
qed

section \<open>An exchange\<close>

lemma secure_path: "secure_routes endpoint \<Longrightarrow> path_ok endpoint \<and> length endpoint \<le> 10 \<and> find_route secure_routes endpoint = Some endpoint"
proof -
  assume s: "secure_routes endpoint"
  have "path_ok (cstr ''/connect'')" "path_ok (cstr ''/get_token'')" "path_ok (cstr ''/command'')" by code_simp+
  then have "path_ok endpoint \<and> length endpoint \<le> 10" using s by (auto simp: secure_routes_def)
  then show ?thesis using s by (subst find_route.simps) simp
qed

definition bin_fields :: "bytes \<Rightarrow> (bytes \<times> bytes) list" where
  "bin_fields boundary = [(cstr ''Content-Type'', cstr ''multipart/form-data; boundary='' @ boundary),
     (cstr ''User-Agent'', cstr ''Universa U8 API Client''), (cstr ''connection'', cstr ''close'')]"

lemma bin_headers_text: "bin_headers boundary = header_text (bin_fields boundary)"
  by (simp add: bin_headers_def bin_fields_def)

lemma bin_fields_harmless: "list_all harmless (bin_fields (bin_boundary rnd))"
proof -
  let ?v = "cstr ''multipart/form-data; boundary='' @ bin_boundary rnd"
  have keys: "list_all key_char (cstr ''Content-Type'')" "\<not> is_length (cstr ''Content-Type'')"
    "length (cstr ''Content-Type'') \<noteq> length (cstr ''Transfer-Encoding'')" "length (cstr ''Content-Type'') \<noteq> length (cstr ''Sec-WebSocket-Key'')"
    by code_simp+
  have b: "list_all key_char (bin_boundary rnd)" "bin_boundary rnd \<noteq> []"
    using marker_chars [of rnd] by (simp_all add: marker_def) (simp add: bin_boundary_def)
  have "list_all text_char (cstr ''multipart/form-data; boundary='')" by code_simp
  then have v: "list_all text_char ?v" using b(1) by (auto simp: list_all_iff key_char_def word_char_def)
  have "last ?v = last (bin_boundary rnd)" using b(2) by simp
  also have "\<dots> \<noteq> 32" using b last_in_set [OF b(2)] unfolding list_all_iff key_char_def word_char_def by blast
  finally have "field_ok (cstr ''Content-Type'', ?v)" using keys(1) v by (simp add: field_ok_def)
  then have "harmless (cstr ''Content-Type'', ?v)" unfolding harmless_def named_field_def fst_conv using keys(2-4) by blast
  moreover have "harmless (cstr ''User-Agent'', cstr ''Universa U8 API Client'')" "harmless (cstr ''connection'', cstr ''close'')" by code_simp+
  ultimately show ?thesis by (simp add: bin_fields_def)
qed

lemma answer_code:
  "error_answer msg = Inr (code, body) \<Longrightarrow> code = 500"
  "ok_answer kvs = Inr (code, body) \<Longrightarrow> code = 200"
  by (auto simp: error_answer_def ok_answer_def res_bind_eq_Inr)

definition ok_code :: "http_error + (http_answer \<times> http_server) \<Rightarrow> bool" where
  "ok_code r = (case r of Inl e \<Rightarrow> True | Inr ((code, body), sv) \<Rightarrow> code = 200 \<or> code = 500)"

lemma ok_code_catch: "ok_code m \<Longrightarrow> ok_code (catch_answer E sv m)"
  by (auto simp: ok_code_def catch_answer_def res_bind_eq_Inr dest!: answer_code split: sum.splits if_splits prod.splits)

lemma ok_code_bind: "(\<And>code body. m = Inr (code, body) \<Longrightarrow> code = 200 \<or> code = 500) \<Longrightarrow> ok_code (res_bind m (\<lambda>a. Inr (a, sv)))"
  by (auto simp: ok_code_def res_bind_eq_Inr split: sum.splits prod.splits)

lemma ok_code_Inl: "ok_code (Inl e)"
  by (simp add: ok_code_def)

lemma endpoint_codes: "ok_code (connect E rnd params sv)" "ok_code (get_token E rnd params sv)" "ok_code (command E rnd processor params sv)"
proof -
  show "ok_code (connect E rnd params sv)" unfolding connect_def Let_def
    by (auto split: sum.split prod.split intro!: ok_code_catch ok_code_bind ok_code_Inl dest: answer_code)
  show "ok_code (get_token E rnd params sv)" unfolding get_token_def Let_def
    by (auto split: sum.split prod.split intro!: ok_code_catch ok_code_bind ok_code_Inl dest: answer_code simp: token_answer_def res_bind_eq_Inr)
  have "ok_code (res_bind (open_command E params sv) (\<lambda>(r, dec).
       res_bind (seal_answer E (hr_iv rnd) (http_session_at sv r) (processor r dec)) (\<lambda>a. Inr (a, sv))))"
    by (cases "open_command E params sv")
      (auto simp: ok_code_Inl seal_answer_def res_bind_eq_Inr intro!: ok_code_bind dest: answer_code split: option.splits prod.split)
  then show "ok_code (command E rnd processor params sv)" unfolding command_def by (rule ok_code_catch)
qed

text \<open>The sizes of the two texts.\<close>

lemma to_dec_small: "n < 2 ^ 31 \<Longrightarrow> length (to_dec n) \<le> 10"
  using to_dec_length [of n 9] by simp

lemma request_size:
  assumes "length endpoint \<le> 10" "n < 2 ^ 31"
  shows "length (head_text (request_line (cstr ''POST'') endpoint) (request_fields a n (bin_fields (bin_boundary rnd)))) \<le>
    300 + length (authority a) + length rnd"
  using assms(1) to_dec_small [OF assms(2)]
  by (simp add: head_text_length request_line_def request_fields_def content_length_def bin_fields_def bin_boundary_def randomString_def)

lemma status_message_size: "length (mg_status_message code) \<le> 31"
  by (simp add: mg_status_message_def)

lemma answer_size:
  assumes "100 \<le> code" "code < 600" "list_all harmless ext" "n < 2 ^ 31"
  shows "length (head_text (status_line code (mg_status_message (int code))) (ext @ [content_length n])) \<le> 100 + length (header_text ext)"
  using three_digits [of code] assms(1,2) to_dec_small [OF assms(4)] status_message_size [of "int code"]
  by (simp add: head_text_length status_line_def header_text_append content_length_def)

definition wire_ok :: "http_wire \<Rightarrow> http_address \<Rightarrow> bool" where
  "wire_ok W a \<longleftrightarrow> address_ok a \<and> hw_rootUrl W = cstr ''http://'' @ authority a \<and> length (hw_var_name W) = 100 \<and>
     length (hw_file_name W) = 100 \<and> list_all harmless (hw_extHeaders W) \<and> length (hw_extHeaders W) \<le> 38 \<and>
     length (header_text (hw_extHeaders W)) \<le> 8000 \<and> length (authority a) + length (hw_randomBytes W) \<le> 7000 \<and>
     (\<forall>t. concat (hw_request_pieces W t) = t) \<and> (\<forall>t. concat (hw_answer_pieces W t) = t)"

lemma reply_at_client:
  assumes "wire_ok W a" "code = 200 \<or> code = 500" "length body \<le> 2 ^ 30"
  shows "client_reply W (sendAnswer (hw_extHeaders W) (int code) body) = Some (code, body)"
proof -
  have w: "list_all harmless (hw_extHeaders W)" "length (hw_extHeaders W) \<le> 38" "length (header_text (hw_extHeaders W)) \<le> 8000"
    "\<And>t. concat (hw_answer_pieces W t) = t" using assms(1) by (simp_all add: wire_ok_def)
  have c: "100 \<le> code" "code < 600" and n: "length body < 2 ^ 31" "length body < 2 ^ 31 - 8192" using assms(2,3) by auto
  have "length (sendAnswer (hw_extHeaders W) (int code) body) \<le> 8192 + length body"
    unfolding answer_text [OF w(1) n(1)] using answer_size [OF c w(1) n(1)] w(3) by simp
  then show ?thesis by (rule answer_at_client [OF c w(1,2) refl _ n(2) w(4)])
qed

lemma wire_request:
  assumes "wire_ok W a" "secure_routes endpoint" "\<not> sublist (marker (hw_randomBytes W)) req" "length req \<le> 2 ^ 30"
  obtains tx c hm r where
    "http_request_text (hw_gap W) (hw_rootUrl W @ endpoint) (cstr ''POST'') (bin_headers (bin_boundary (hw_randomBytes W)))
       (bin_body (bin_boundary (hw_randomBytes W)) req) = Some tx"
    "http_pieces (hw_request_pieces W tx) (http_conn True) = Some c" "hc_events c = [(HttpRequest, hm, tx)]"
    "service_request secure_routes tx hm = Some r" "sr_endpoint r = endpoint"
    "parseMultipartData (hw_var_name W) (hw_file_name W) r = Some [cstr ''requestData'' \<mapsto> req]"
proof -
  let ?rnd = "hw_randomBytes W"
  let ?b = "bin_boundary ?rnd" let ?body = "bin_body ?b req"
  have w: "address_ok a" "hw_rootUrl W = cstr ''http://'' @ authority a" "length (hw_var_name W) = 100" "length (hw_file_name W) = 100"
    "length (authority a) + length ?rnd \<le> 7000" "\<And>t. concat (hw_request_pieces W t) = t"
    using assms(1) by (simp_all add: wire_ok_def)
  have p: "path_ok endpoint" "length endpoint \<le> 10" "find_route secure_routes endpoint = Some endpoint" using secure_path [OF assms(2)] by blast+
  have url: "hw_rootUrl W @ endpoint = url_of a endpoint" using w(2) by (simp add: url_of_def)
  have "length bin_part_headers \<le> 300" by code_simp
  then have n: "length ?body < 2 ^ 31" "length ?body < 2 ^ 31 - 8192" using assms(4) w(5) by (simp_all add: bin_body_split marker_length)
  have post: "method_ok (cstr ''POST'')" by code_simp
  have ext: "length (bin_fields ?b) \<le> 37" by (simp add: bin_fields_def)
  let ?text = "head_text (request_line (cstr ''POST'') endpoint) (request_fields a (length ?body) (bin_fields ?b)) @ ?body"
  note t = request_text [OF w(1) p(1) post bin_fields_harmless [of ?rnd] n(1), of "hw_gap W"]
  have size: "length ?text \<le> 8192 + length ?body" using request_size [OF p(2) n(1), of a ?rnd] w(5) by simp
  obtain c hm where c: "http_pieces (hw_request_pieces W ?text) (http_conn True) = Some c" "hc_events c = [(HttpRequest, hm, ?text)]"
    "\<And>routes. service_request routes ?text hm = map_option (\<lambda>ep. \<lparr>sr_queryString = [], sr_method = cstr ''POST'', sr_body = ?body,
       sr_endpoint = ep, sr_path = endpoint\<rparr>) (find_route routes endpoint)"
    by (rule request_at_server [OF w(1) p(1) post bin_fields_harmless ext t size n(2) w(6)]) blast
  show thesis
  proof (rule that)
    show "http_request_text (hw_gap W) (hw_rootUrl W @ endpoint) (cstr ''POST'') (bin_headers ?b) ?body = Some ?text"
      unfolding url bin_headers_text by (rule t)
    show "service_request secure_routes ?text hm = Some \<lparr>sr_queryString = [], sr_method = cstr ''POST'', sr_body = ?body,
       sr_endpoint = endpoint, sr_path = endpoint\<rparr>" unfolding c(3) p(3) by simp
    show "parseMultipartData (hw_var_name W) (hw_file_name W) \<lparr>sr_queryString = [], sr_method = cstr ''POST'', sr_body = ?body,
       sr_endpoint = endpoint, sr_path = endpoint\<rparr> = Some [cstr ''requestData'' \<mapsto> req]"
      unfolding parseMultipartData_def using bin_body_fields [OF assms(3) n(1) w(3,4)] by simp
  qed (use c in simp_all)
qed

lemma wire_exchange:
  assumes "wire_ok W a" "secure_routes endpoint" "\<not> sublist (marker (hw_randomBytes W)) req" "length req \<le> 2 ^ 30"
    "\<And>code body s'. serve E rnds processor endpoint req s = (Some (code, body), s') \<Longrightarrow> length body \<le> 2 ^ 30"
  shows "over_wire W E rnds processor endpoint req s = serve E rnds processor endpoint req s"
proof -
  obtain tx c hm r where t: "http_request_text (hw_gap W) (hw_rootUrl W @ endpoint) (cstr ''POST'')
       (bin_headers (bin_boundary (hw_randomBytes W))) (bin_body (bin_boundary (hw_randomBytes W)) req) = Some tx"
    "http_pieces (hw_request_pieces W tx) (http_conn True) = Some c" "hc_events c = [(HttpRequest, hm, tx)]"
    "service_request secure_routes tx hm = Some r" "sr_endpoint r = endpoint"
    "parseMultipartData (hw_var_name W) (hw_file_name W) r = Some [cstr ''requestData'' \<mapsto> req]"
    by (rule wire_request [OF assms(1-4)])
  let ?params = "[cstr ''requestData'' \<mapsto> req]" and ?rnd = "rnds (fst s)"
  let ?r = "if endpoint = cstr ''/connect'' then connect E ?rnd ?params (snd s)
      else if endpoint = cstr ''/get_token'' then get_token E ?rnd ?params (snd s) else command E ?rnd processor ?params (snd s)"
  have e: "secure_endpoint E ?rnd processor (hw_var_name W) (hw_file_name W) r (snd s) = ?r"
    unfolding secure_endpoint_def t(5,6) by simp
  have sv: "serve E rnds processor endpoint req s =
      (case ?r of Inl e \<Rightarrow> (None, Suc (fst s), snd s) | Inr (a, sv) \<Rightarrow> (Some a, Suc (fst s), sv))"
    unfolding serve_def Let_def ..
  have ok: "ok_code ?r" using endpoint_codes by simp
  have "over_wire W E rnds processor endpoint req s =
      (case ?r of Inl e \<Rightarrow> (None, Suc (fst s), snd s)
       | Inr ((code, body), sv) \<Rightarrow> (client_reply W (sendAnswer (hw_extHeaders W) (int code) body), Suc (fst s), sv))"
    unfolding over_wire_def Let_def t(1) option.case t(2) t(3) list.case prod.case t(4) e ..
  also have "\<dots> = serve E rnds processor endpoint req s"
  proof (cases ?r)
    case (Inr x)
    obtain code body sv' where x: "x = ((code, body), sv')" by (cases x) auto
    have "code = 200 \<or> code = 500" using ok unfolding Inr x by (simp add: ok_code_def)
    moreover have "length body \<le> 2 ^ 30" using assms(5) unfolding sv Inr x by simp
    ultimately show ?thesis unfolding sv Inr x using reply_at_client [OF assms(1)] by simp
  qed (simp add: sv)
  finally show ?thesis .
qed

text \<open>C24: One exchange of the secure protocol over HTTP gives the client what the server answers to the request: the boundary,
  the pieces the bytes come in, the contents of the stack and the order of the headers make no difference, as long as the
  boundary does not occur in the request and both are at most a gigabyte.\<close>

theorem over_wire_serves:
  assumes "wire_ok W a" "secure_routes endpoint" "\<not> sublist (marker (hw_randomBytes W)) req" "length req \<le> 2 ^ 30"
    "\<And>code body s'. serve E rnds processor endpoint req s = (Some (code, body), s') \<Longrightarrow> length body \<le> 2 ^ 30"
  shows "over_wire W E rnds processor endpoint req s = serve E rnds processor endpoint req s"
  by (rule wire_exchange [OF assms])

definition sample_wire :: http_wire where
  "sample_wire = \<lparr>hw_rootUrl = cstr ''http://localhost:8080'', hw_gap = 0, hw_randomBytes = replicate 48 0,
     hw_request_pieces = map (\<lambda>b. [b]), hw_answer_pieces = map (\<lambda>b. [b]), hw_var_name = replicate 100 7, hw_file_name = replicate 100 8,
     hw_extHeaders = [(cstr ''Content-Type'', cstr ''application/octet-stream''), (cstr ''Connection'', cstr ''close'')]\<rparr>"

lemma sample_wire_ok: "wire_ok sample_wire sample_address"
proof -
  have "list_all harmless [(cstr ''Content-Type'', cstr ''application/octet-stream''), (cstr ''Connection'', cstr ''close'')]" by code_simp
  moreover have "concat (map (\<lambda>b. [b]) t) = t" for t :: bytes by (induction t) simp_all
  moreover note sample_address_ok
  ultimately show ?thesis by (simp add: wire_ok_def sample_wire_def authority_def sample_address_def)
qed

theorem over_wire_serves_witness:
  "\<exists>req body sv. write_binder [] = Inr req \<and>
    over_wire sample_wire http_sample (\<lambda>i. sample_random 48) (\<lambda>r c. c) (cstr ''/connect'') req (0, sample_server) =
      (Some (500, body), (1, sv))"
proof -
  have "fields_ok (he_parser http_sample) []" by (simp add: fields_ok_def sized_def)
  then obtain req where req: "write_binder [] = Inr req" "read_binder http_sample req = Inr (binder_of [])" "length req \<le> 19"
    using write_read [of http_sample "[]"] by auto
  let ?e = "[(cstr ''result'', UString (cstr ''error'')), (cstr ''response'', UString (cstr ''error''))]"
  have "fields_ok (he_parser http_sample) ?e" by (simp add: fields_ok_def sized_def k_type_def k_t_def)
  then obtain body where body: "write_binder ?e = Inr body" "length body \<le> 19 + field_weight ?e"
    using write_read [of http_sample ?e] by auto
  have "extractParams http_sample [cstr ''requestData'' \<mapsto> req] = Inr []"
    using extract_request [OF req(2)] by (simp add: binder_of.simps)
  then have "connect_session http_sample [cstr ''requestData'' \<mapsto> req] sample_server = Inl (HKey (Boss NotInstance))"
    by (simp add: connect_session_def getIntOrDefault_def bytes_field_def bytes_asInstance_def as_error_def)
  then have "connect http_sample (sample_random 48) [cstr ''requestData'' \<mapsto> req] sample_server = Inr ((500, body), sample_server)"
    using body(1) by (simp add: connect_def catch_answer_def error_answer_def http_sample_def boss_undefined_def)
  then have sv: "serve http_sample (\<lambda>i. sample_random 48) (\<lambda>r c. c) (cstr ''/connect'') req (0, sample_server) = (Some (500, body), (1, sample_server))"
    by (simp add: serve_def Let_def)
  have "length (marker (hw_randomBytes sample_wire)) = 62" by (simp add: marker_length sample_wire_def)
  then have m: "\<not> sublist (marker (hw_randomBytes sample_wire)) req" using req(3) by (auto dest!: sublist_length_le)
  have b: "length body \<le> 2 ^ 30" using body(2) by simp
  have "over_wire sample_wire http_sample (\<lambda>i. sample_random 48) (\<lambda>r c. c) (cstr ''/connect'') req (0, sample_server) = (Some (500, body), (1, sample_server))"
    using over_wire_serves [OF sample_wire_ok _ m, of "cstr ''/connect''" http_sample "\<lambda>i. sample_random 48" "\<lambda>r c. c" "(0, sample_server)"]
      sv b req(3) by (simp add: secure_routes_def)
  then show ?thesis using req(1) by blast
qed

end
