(* ===== verification/HttpLimits.thy ===== *)
theory HttpLimits
  imports HttpDelivery
begin

text \<open>
  What the HTTP parser reads and what it makes of unusual input: the bounds of what it stores, chunked bodies, a second
  request in the same buffer, and a length that makes the handler run forever.
\<close>

section \<open>Bounds\<close>

definition inside :: "nat \<Rightarrow> mg_str \<Rightarrow> bool" where
  "inside len v = (fst v + snd v \<le> len)"

definition headers_inside :: "nat \<Rightarrow> (mg_str \<times> mg_str) list \<Rightarrow> bool" where
  "headers_inside len h = list_all (\<lambda>(k, v). inside len k \<and> inside len v) h"

definition http_inside :: "nat \<Rightarrow> http_message \<Rightarrow> bool" where
  "http_inside len hm = (inside len (hm_method hm) \<and> inside len (hm_uri hm) \<and> inside len (hm_proto hm) \<and>
     inside len (hm_query_string hm) \<and> inside len (hm_resp_status_msg hm) \<and> hm_body_p hm = len \<and>
     headers_inside len (hm_headers hm) \<and> length (hm_headers hm) < MG_MAX_HTTP_HEADERS)"

lemma takeWhile_take_le: "length (takeWhile P (take n xs)) \<le> n"
  by (metis length_takeWhile_le length_take min.cobounded2 order_trans)

lemma skip_bounds: "s \<le> end \<Longrightarrow> mg_skip buf s end delims = (v, s') \<Longrightarrow> fst v = s \<and> s + snd v \<le> s' \<and> s' \<le> end"
proof -
  assume s: "s \<le> end" "mg_skip buf s end delims = (v, s')"
  let ?e = "s + length (takeWhile (\<lambda>c. \<not> is_delim delims c) (take (end - s) (drop s buf)))"
  have "?e \<le> end" using takeWhile_take_le [of _ "end - s"] s(1) by (metis le_add_diff_inverse nat_add_left_cancel_le)
  moreover have "?e + length (takeWhile (is_delim delims) (take (end - ?e) (drop ?e buf))) \<le> end"
    using takeWhile_take_le [of _ "end - ?e"] calculation by (metis le_add_diff_inverse nat_add_left_cancel_le)
  ultimately show ?thesis using s(2) by (auto simp: mg_skip_def Let_def)
qed

lemma trim_le: "snd (trim_value buf v) \<le> snd v \<and> fst (trim_value buf v) = fst v"
  using length_dropWhile_le [of _ "rev (str_of buf v)"] by (auto simp: trim_value_def str_of_def intro: order_trans)

lemma add_header_keeps:
  "hm_headers (add_header buf len k v req) = hm_headers req @ [(k, v)]" "hm_method (add_header buf len k v req) = hm_method req"
  "hm_uri (add_header buf len k v req) = hm_uri req" "hm_proto (add_header buf len k v req) = hm_proto req"
  "hm_query_string (add_header buf len k v req) = hm_query_string req" "hm_body_p (add_header buf len k v req) = hm_body_p req"
  "hm_resp_status_msg (add_header buf len k v req) = hm_resp_status_msg req"
  by (simp_all add: add_header_def Let_def)

lemma parse_headers_inside: "http_inside end req \<Longrightarrow> s \<le> end \<Longrightarrow> http_inside end (parse_headers buf s end req)"
proof (induction buf s "end" req rule: parse_headers.induct)
  case (1 buf s "end" req)
  obtain k s1 where k: "mg_skip buf s end (cstr '': '') = (k, s1)" by fastforce
  obtain v0 s2 where v: "mg_skip buf s1 end [13, 10] = (v0, s2)" by fastforce
  let ?v = "trim_value buf v0"
  note kb = skip_bounds [OF "1.prems"(2) k]
  have s1: "s1 \<le> end" using kb by blast
  note vb = skip_bounds [OF s1 v]
  have i: "inside end k" "inside end ?v" "s2 \<le> end" using kb vb trim_le [of buf v0] by (auto simp: inside_def)
  show ?case
  proof (cases "length (hm_headers req) < MG_MAX_HTTP_HEADERS - 1")
    case True
    have a: "http_inside end (add_header buf end k ?v req)"
      using "1.prems"(1) i True by (auto simp: http_inside_def add_header_keeps headers_inside_def)
    have IH: "snd k \<noteq> 0 \<and> snd ?v = 0 \<Longrightarrow> http_inside end (parse_headers buf s2 end req)"
      "\<not> (snd k \<noteq> 0 \<and> snd ?v = 0) \<Longrightarrow> \<not> (snd k = 0 \<or> snd ?v = 0) \<Longrightarrow>
        http_inside end (parse_headers buf s2 end (add_header buf end k ?v req))"
      using "1.IH"(1) [OF _ k [symmetric] refl v [symmetric] refl refl] "1.IH"(2) [OF _ k [symmetric] refl v [symmetric] refl refl]
        True "1.prems"(1) i(3) a by simp_all
    show ?thesis unfolding parse_headers.simps [of buf s] k v Let_def prod.case using True IH "1.prems"(1) by simp
  next
    case False
    then show ?thesis using "1.prems"(1) by (simp add: parse_headers.simps)
  qed
qed

lemma len_bound: "0 \<le> i \<Longrightarrow> request_len_loop s i \<le> i + int (length s)"
proof (induction s arbitrary: i)
  case (Cons b s)
  have "take 1 s = [10] \<Longrightarrow> 1 \<le> length s" "take 2 s = [13, 10] \<Longrightarrow> 2 \<le> length s"
    by (cases s; simp) (metis length_take length_Cons list.size(3) min.cobounded1 numeral_2_eq_2)
  then show ?case using Cons.IH [of "i + 1"] Cons.prems by auto
qed simp

lemma new_inside: "http_inside n (new_message n)"
  by (simp add: http_inside_def new_message_def inside_def headers_inside_def MG_MAX_HTTP_HEADERS_def)

lemma request_line_inside:
  assumes "parse_request_line buf s end hm = Some (s', hm')" "http_inside end hm" "s \<le> end"
  shows "http_inside end hm' \<and> s' \<le> end"
proof -
  obtain m s1 where m: "mg_skip buf s end [32] = (m, s1)" by fastforce
  obtain u s2 where u: "mg_skip buf s1 end [32] = (u, s2)" by fastforce
  obtain p s3 where p: "mg_skip buf s2 end [13, 10] = (p, s3)" by fastforce
  note mb = skip_bounds [OF assms(3) m]
  then have s1: "s1 \<le> end" by blast
  note ub = skip_bounds [OF s1 u]
  then have s2: "s2 \<le> end" by blast
  note pb = skip_bounds [OF s2 p]
  have q: "memchr (str_of buf u) 63 = Some k \<Longrightarrow> k < snd u" for k
    using memchr_Some [of "str_of buf u" 63 k] by (auto simp: str_of_def)
  show ?thesis using assms(1,2) mb ub pb q unfolding parse_request_line_def m u p Let_def prod.case
    by (auto simp: http_inside_def inside_def split: if_splits option.splits)
qed

lemma status_line_inside:
  assumes "parse_status_line buf s end hm = Some (s', hm')" "http_inside end hm" "s \<le> end"
  shows "http_inside end hm' \<and> s' \<le> end"
proof -
  obtain p s1 where p: "mg_skip buf s end [32] = (p, s1)" by fastforce
  note pb = skip_bounds [OF assms(3) p]
  obtain m s2 where m: "mg_skip buf (s1 + 4) end [13, 10] = (m, s2)" by fastforce
  have "\<not> end - s1 < 4 \<Longrightarrow> fst m = s1 + 4 \<and> s1 + 4 + snd m \<le> s2 \<and> s2 \<le> end"
    by (rule skip_bounds [OF _ m]) linarith
  then show ?thesis using assms(1,2) pb unfolding parse_status_line_def p Let_def prod.case m
    by (auto simp: http_inside_def inside_def split: if_splits)
qed

text \<open>C25: Whatever the bytes, a message that is parsed ends its head inside them; the method, the URI, the query, every header
  name and every header value lie inside the head, the body starts where the head ends, and at most 39 headers are stored.\<close>

theorem http_reads_inside:
  "case mg_parse_http buf n is_req of
     Inl len \<Rightarrow> len \<le> 0
   | Inr (len, hm) \<Rightarrow> 0 < len \<and> len \<le> length buf \<and> int len \<le> n \<and> http_inside len hm"
proof -
  let ?len = "mg_http_get_request_len buf n" and ?s = "length (takeWhile isspace (take (nat (mg_http_get_request_len buf n)) buf))"
  have b: "?len \<le> int (length (take (nat n) buf))" using len_bound [of 0 "take (nat n) buf"] by (simp add: mg_http_get_request_len_def)
  show ?thesis
  proof (cases "?len \<le> 0")
    case False
    let ?line = "if is_req then parse_request_line buf ?s (nat ?len) (new_message (nat ?len)) else parse_status_line buf ?s (nat ?len) (new_message (nat ?len))"
    have s: "?s \<le> nat ?len" by (rule takeWhile_take_le)
    have bounds: "0 < nat ?len" "nat ?len \<le> length buf" "int (nat ?len) \<le> n" using b False by (auto simp: min_def split: if_splits)
    show ?thesis
    proof (cases ?line)
      case None
      then show ?thesis using False by (simp add: mg_parse_http_def Let_def)
    next
      case (Some x)
      obtain s' hm where x: "x = (s', hm)" by (cases x)
      have "http_inside (nat ?len) hm \<and> s' \<le> nat ?len"
      proof (cases is_req)
        case True
        show ?thesis by (rule request_line_inside [OF _ new_inside s]) (use Some in \<open>unfold x if_P [OF True]\<close>)
      next
        case False
        show ?thesis by (rule status_line_inside [OF _ new_inside s]) (use Some in \<open>unfold x if_not_P [OF False]\<close>)
      qed
      then have "http_inside (nat ?len) (parse_headers buf s' (nat ?len) hm)" by (intro parse_headers_inside) simp_all
      then show ?thesis using bounds unfolding mg_parse_http_def Let_def if_not_P [OF False] Some x option.case prod.case sum.case
        by (simp add: http_inside_def)
    qed
  qed (simp add: mg_parse_http_def Let_def)
qed

section \<open>Chunked bodies\<close>

lemma hex_upper_digit: "d < 16 \<Longrightarrow> hex_value (cstr ''0123456789ABCDEF'' ! d) = Some d"
proof -
  assume "d < 16"
  then have "d \<in> set [0 ..< 16]" by simp
  moreover have "\<forall>d \<in> set [0 ..< 16]. hex_value (cstr ''0123456789ABCDEF'' ! d) = Some d" by code_simp
  ultimately show ?thesis by blast
qed

lemma chunk_len_digits:
  "list_all (\<lambda>c. hex_value c \<noteq> None) ds \<Longrightarrow> i + length ds \<le> 6 \<Longrightarrow>
    chunk_len_loop (ds @ 13 # x) i m = Some (i + length ds, foldl (\<lambda>n c. n * 16 + the (hex_value c)) m ds)"
proof (induction ds arbitrary: i m)
  case Nil
  have "hex_value 13 = None" by code_simp
  then show ?case by simp
qed auto

lemma hex_upper_value:
  "list_all (\<lambda>c. hex_value c \<noteq> None) (hex_upper n) \<and> foldl (\<lambda>n c. n * 16 + the (hex_value c)) 0 (hex_upper n) = n"
proof (induction n rule: hex_upper.induct)
  case (1 n)
  show ?case
  proof (cases "n < 16")
    case True
    then show ?thesis using hex_upper_digit [OF True] by (simp add: hex_upper.simps [of n] del: list.map)
  next
    case False
    have d: "hex_value (cstr ''0123456789ABCDEF'' ! (n mod 16)) = Some (n mod 16)" by (rule hex_upper_digit) simp
    show ?thesis using 1 [OF False] d False by (simp add: hex_upper.simps [of n] del: list.map)
  qed
qed

lemma hex_upper_length: "n < 16 ^ Suc k \<Longrightarrow> length (hex_upper n) \<le> Suc k \<and> 0 < length (hex_upper n)"
proof (induction k arbitrary: n)
  case 0
  then show ?case by (simp add: hex_upper.simps [of n] del: list.map)
next
  case (Suc k)
  then have "n div 16 < 16 ^ Suc k" by (simp add: less_mult_imp_div_less)
  then show ?case using Suc.IH [of "n div 16"] by (simp add: hex_upper.simps [of n] del: list.map)
qed

lemma chunk_parsed:
  assumes "length d < 2 ^ 24"
  shows "mg_http_parse_chunk (mg_send_http_chunk d @ rest) =
    (length (mg_send_http_chunk d), length (hex_upper (length d)) + 2, length d)"
proof -
  let ?h = "hex_upper (length d)"
  have l: "length ?h \<le> 6" "0 < length ?h" using hex_upper_length [of "length d" 5] assms by simp_all
  have t: "mg_send_http_chunk d @ rest = ?h @ 13 # 10 # d @ 13 # 10 # rest" by (simp add: mg_send_http_chunk_def)
  have "chunk_len_loop (?h @ 13 # 10 # d @ 13 # 10 # rest) 0 0 = Some (length ?h, length d)"
    using chunk_len_digits [of ?h 0 "10 # d @ 13 # 10 # rest" 0] hex_upper_value [of "length d"] l by simp
  then show ?thesis using l unfolding mg_http_parse_chunk_def t
    by (simp add: line_end_at_def nth_append mg_send_http_chunk_def)
qed

lemma chunk_taken:
  assumes "length d < 2 ^ 24"
  shows "chunks_loop body (mg_send_http_chunk d @ rest) = (if d = [] then (body, rest, True) else chunks_loop (body @ d) rest)"
proof -
  let ?n = "length (hex_upper (length d)) + 2"
  have d: "take (length d) (drop ?n (mg_send_http_chunk d @ rest)) = d" by (simp add: mg_send_http_chunk_def)
  have r: "drop (length (mg_send_http_chunk d)) (mg_send_http_chunk d @ rest) = rest" by simp
  have n: "length (mg_send_http_chunk d) \<noteq> 0" by (simp add: mg_send_http_chunk_def)
  show ?thesis
    by (subst chunks_loop.simps) (unfold chunk_parsed [OF assms] Let_def prod.case d r if_not_P [OF n], simp)
qed

text \<open>C26: The chunks a sender makes of a body are put together again, as long as each is shorter than 16 megabytes and none is
  empty: the body is their contents in order, the last chunk is seen, and what follows it is left.\<close>

theorem chunks_reassembled:
  assumes "\<And>d. d \<in> set ds \<Longrightarrow> d \<noteq> [] \<and> length d < 2 ^ 24"
  shows "chunks_loop body (concat (map mg_send_http_chunk ds) @ mg_send_http_chunk [] @ rest) = (body @ concat ds, rest, True)"
  using assms
proof (induction ds arbitrary: body)
  case (Cons d ds)
  then show ?case using chunk_taken [of d body "concat (map mg_send_http_chunk ds) @ mg_send_http_chunk [] @ rest"] by simp
qed (simp add: chunk_taken)

theorem chunks_reassembled_witness:
  "chunks_loop [] (concat (map mg_send_http_chunk [cstr ''Hello, '', cstr ''world'']) @ mg_send_http_chunk [] @ cstr ''GET'') =
    (cstr ''Hello, world'', cstr ''GET'', True)"
proof -
  have "d \<noteq> [] \<and> length d < 2 ^ 24" if "d \<in> set [cstr ''Hello, '', cstr ''world'']" for d
    using that by auto
  from chunks_reassembled [where ds = "[cstr ''Hello, '', cstr ''world'']" and body = "[]" and rest = "cstr ''GET''", OF this] show ?thesis by simp
qed

section \<open>Two requests in one buffer\<close>

lemma handle_chunked_events:
  "handle_chunked n hm (c\<lparr>hc_events := es\<rparr>) =
    (let (hm', c') = handle_chunked n hm (c\<lparr>hc_events := []\<rparr>) in (hm', c'\<lparr>hc_events := es\<rparr>))"
  "hc_events (snd (handle_chunked n hm c)) = hc_events c"
  by (auto simp: handle_chunked_def Let_def split: prod.split)

lemma pass_events:
  "http_pass (c\<lparr>hc_events := es\<rparr>) =
    (let (c', again) = http_pass (c\<lparr>hc_events := []\<rparr>) in (c'\<lparr>hc_events := es @ hc_events c'\<rparr>, again))"
proof (cases "mg_parse_http (hc_recv c) (int_of_size (length (hc_recv c))) (hc_is_req c)")
  case (Inr x)
  obtain n hm where x: "x = (n, hm)" by (cases x)
  show ?thesis
  proof (cases "is_chunked (hc_recv c) hm")
    case True
    obtain hm' c' where h: "handle_chunked n hm (c\<lparr>hc_events := []\<rparr>) = (hm', c')" by fastforce
    then have "hc_events c' = []" using handle_chunked_events(2) [of n hm "c\<lparr>hc_events := []\<rparr>"] by simp
    then show ?thesis using Inr x True h by (auto simp: http_pass_def handle_chunked_events(1) [where es = es] Let_def)
  qed (use Inr x in \<open>auto simp: http_pass_def Let_def\<close>)
qed (simp add: http_pass_def)

text \<open>C27: When two requests are in the buffer at once, the server gets both, and the body of the first is its own body followed
  by the whole text of the second: the length the handler sets before the event is that of the buffer.\<close>

theorem pipelined_body:
  assumes "method_ok m1" "method_ok path1" "63 \<notin> set path1" "length_among (length body1) h1"
    "method_ok m2" "method_ok path2" "63 \<notin> set path2" "length_among (length body2) h2"
    "length (head_text (request_line m1 path1) h1) \<le> 8192" "length (head_text (request_line m2 path2) h2) \<le> 8192"
    "length body1 + length body2 < 2 ^ 30"
    "first = head_text (request_line m1 path1) h1 @ body1" "second = head_text (request_line m2 path2) h2 @ body2"
  shows "\<exists>c hm1 hm2. http_recv (first @ second) (http_conn True) = Some c \<and>
    hc_events c = [(HttpRequest, hm1, first @ second), (HttpRequest, hm2, second)] \<and>
    new_request (first @ second) hm1 ep p = \<lparr>sr_queryString = [], sr_method = m1, sr_body = body1 @ second, sr_endpoint = ep, sr_path = p\<rparr> \<and>
    new_request second hm2 ep p = \<lparr>sr_queryString = [], sr_method = m2, sr_body = body2, sr_endpoint = ep, sr_path = p\<rparr>"
proof -
  let ?head1 = "head_text (request_line m1 path1) h1" and ?hm1 = "request_message m1 path1 h1"
  let ?head2 = "head_text (request_line m2 path2) h2" and ?hm2 = "request_message m2 path2 h2"
  let ?rest = "body1 @ second"
  have l: "length ?head1 + length ?rest < 2 ^ 31" "length ?head1 + length body1 < 2 ^ 31" "length ?head2 + length body2 < 2 ^ 31"
    using assms(9-11) unfolding assms(13) by simp_all
  have w1: "whole True ?head1 ?hm1 body1" by (rule whole_request [OF assms(1-4,9) l(2)])
  have w2: "whole True ?head2 ?hm2 body2" by (rule whole_request [OF assms(5-8,10) l(3)])
  let ?e1 = "(HttpRequest, ?hm1\<lparr>hm_body_len := of_nat (length ?rest)\<rparr>, first @ second)"
  let ?e2 = "(HttpRequest, ?hm2\<lparr>hm_body_len := of_nat (length body2)\<rparr>, second)"
  have ne: "second \<noteq> []" by (simp add: assms(13) head_text_fields)
  have 1: "http_pass (received True (first @ second)) = ((received True second)\<lparr>hc_events := [?e1]\<rparr>, True)"
    using pass_head [OF w1 l(1)] ne unfolding assms(12) by simp
  have e: "(received True second)\<lparr>hc_events := []\<rparr> = received True second" by (simp add: received_def http_conn_def)
  have "http_pass (received True second) = (delivered True ?hm2 (length body2) second, False)"
    using pass_whole [OF w2] unfolding assms(13) .
  then have 2: "http_pass ((received True second)\<lparr>hc_events := [?e1]\<rparr>) =
      ((delivered True ?hm2 (length body2) second)\<lparr>hc_events := [?e1, ?e2]\<rparr>, False)"
    by (subst pass_events) (simp add: e delivered_def)
  have "http_recv (first @ second) (http_conn True) = http_again (received True (first @ second))"
    unfolding received_empty recv_received by simp
  then have r: "http_recv (first @ second) (http_conn True) = Some ((delivered True ?hm2 (length body2) second)\<lparr>hc_events := [?e1, ?e2]\<rparr>)"
    using again_go [OF 1] again_stop [OF 2] by simp
  have n: "unat (of_nat (length ?rest) :: u64) = length ?rest" "unat (of_nat (length body2) :: u64) = length body2"
    using l by (simp_all add: unat_of_nat take_bit_nat_eq_self del: of_nat_add)
  have s1: "str_of (first @ second) (0, length m1) = m1" "str_of (first @ second) (0, 0) = []"
    "str_of (first @ second) (length ?head1, length ?rest) = ?rest"
    unfolding assms(12) by (simp_all add: str_of_def) (simp add: head_text_fields request_line_def)
  have s2: "str_of second (0, length m2) = m2" "str_of second (0, 0) = []" "str_of second (length ?head2, length body2) = body2"
    unfolding assms(13) by (simp_all add: str_of_def) (simp add: head_text_fields request_line_def)
  have f1: "hm_method ?hm1 = (0, length m1)" "hm_query_string ?hm1 = (0, 0)" "hm_body_p ?hm1 = length ?head1"
    "hm_method ?hm2 = (0, length m2)" "hm_query_string ?hm2 = (0, 0)" "hm_body_p ?hm2 = length ?head2"
    by (simp_all add: request_message_def Let_def put_headers_keep new_message_def)
  have q1: "new_request (first @ second) (?hm1\<lparr>hm_body_len := of_nat (length ?rest)\<rparr>) ep p =
      \<lparr>sr_queryString = [], sr_method = m1, sr_body = ?rest, sr_endpoint = ep, sr_path = p\<rparr>"
    unfolding new_request_def by (simp add: f1 n(1) s1 del: length_append of_nat_add)
  have q2: "new_request second (?hm2\<lparr>hm_body_len := of_nat (length body2)\<rparr>) ep p =
      \<lparr>sr_queryString = [], sr_method = m2, sr_body = body2, sr_endpoint = ep, sr_path = p\<rparr>"
    unfolding new_request_def by (simp add: f1 n(2) s2)
  show ?thesis using r q1 q2 by (intro exI conjI) (assumption | simp)+
qed

theorem pipelined_body_witness:
  "\<exists>first second c hm1 hm2.
    first = head_text (request_line (cstr ''POST'') (cstr ''/connect'')) [content_length 2] @ [1, 2] \<and>
    second = head_text (request_line (cstr ''GET'') (cstr ''/'')) [content_length 0] \<and>
    http_recv (first @ second) (http_conn True) = Some c \<and>
    hc_events c = [(HttpRequest, hm1, first @ second), (HttpRequest, hm2, second)] \<and>
    sr_body (new_request (first @ second) hm1 [] []) = [1, 2] @ second \<and> sr_body (new_request second hm2 [] []) = []"
proof -
  let ?head1 = "head_text (request_line (cstr ''POST'') (cstr ''/connect'')) [content_length (length [1, 2 :: byte])]"
  let ?head2 = "head_text (request_line (cstr ''GET'') (cstr ''/'')) [content_length (length ([] :: bytes))]"
  have m: "method_ok (cstr ''POST'')" "method_ok (cstr ''/connect'')" "method_ok (cstr ''GET'')" "method_ok (cstr ''/'')" by code_simp+
  have l: "length_among n [content_length n]" for n unfolding length_among_def by (intro exI [of _ "[]"]) simp
  have s: "length ?head1 \<le> 8192" "length ?head2 \<le> 8192" by code_simp+
  have q: "63 \<notin> set (cstr ''/connect'')" "63 \<notin> set (cstr ''/'')" by simp_all
  have b: "length [1, 2 :: byte] + length ([] :: bytes) < 2 ^ 30" by simp
  have "\<exists>c hm1 hm2. http_recv ((?head1 @ [1, 2]) @ ?head2 @ []) (http_conn True) = Some c \<and>
    hc_events c = [(HttpRequest, hm1, (?head1 @ [1, 2]) @ ?head2 @ []), (HttpRequest, hm2, ?head2 @ [])] \<and>
    new_request ((?head1 @ [1, 2]) @ ?head2 @ []) hm1 [] [] =
      \<lparr>sr_queryString = [], sr_method = cstr ''POST'', sr_body = [1, 2] @ ?head2 @ [], sr_endpoint = [], sr_path = []\<rparr> \<and>
    new_request (?head2 @ []) hm2 [] [] = \<lparr>sr_queryString = [], sr_method = cstr ''GET'', sr_body = [], sr_endpoint = [], sr_path = []\<rparr>"
    by (rule pipelined_body [OF m(1,2) q(1) l m(3,4) q(2) l s b refl refl])
  then show ?thesis unfolding append_Nil2 by (simp add: numeral_2_eq_2) (metis server_request.select_convs(3))
qed

section \<open>A length that makes the handler run forever\<close>

definition minus_length :: "nat \<Rightarrow> bytes \<times> bytes" where
  "minus_length n = (cstr ''Content-Length'', 45 # to_dec n)"

text \<open>The second pass starts where the first did, so no number of passes is enough.\<close>

lemma again_never:
  assumes "\<And>c. stuck c \<Longrightarrow> \<exists>c'. http_pass c = (c', True) \<and> stuck c'"
  shows "stuck c \<Longrightarrow> http_again c = None"
proof -
  have "\<not> stuck c" if "http_again c = Some y" for c y
  proof (rule http_again.raw_induct [OF _ that])
    fix again c y
    assume "\<And>c y. again c = Some y \<Longrightarrow> \<not> stuck c" "(case http_pass c of (c, b) \<Rightarrow> if b then again c else Some c) = Some y"
    then show "\<not> stuck c" using assms [of c] by (cases "stuck c") auto
  qed
  then show "stuck c \<Longrightarrow> http_again c = None" by (cases "http_again c") auto
qed

text \<open>C28: A request whose first header is a \<open>Content-Length\<close> of minus the length of its own head, which is at most 8192 bytes,
  never lets the handler return: the message has length 0, it is complete at once, nothing is removed from the buffer and
  the handler starts over.\<close>

theorem negative_length_loops:
  assumes "method_ok m" "method_ok path" "63 \<notin> set path" "h = minus_length n # ext" "list_all harmless ext" "length ext \<le> 38"
    "buf = head_text (request_line m path) h" "length buf = n" "n \<le> 8192"
  shows "http_recv buf (http_conn True) = None"
proof -
  let ?hm = "request_message m path h"
  let ?stuck = "\<lambda>c. hc_recv c = buf \<and> hc_is_req c"
  have n: "n < 2 ^ 63" "n < 2 ^ 31" "1 < n" using assms(7-9) by (simp_all add: head_text_fields request_line_def)
  have "to_dec n \<noteq> []" "list_all word_char (to_dec n)" by (rule to_dec_text)+
  then have f: "field_ok (minus_length n)" using plain_keys(8) unfolding minus_length_def by (intro word_field) (simp_all, code_simp)
  have e: "list_all (\<lambda>f. \<not> is_length (fst f)) ext" "list_all (\<lambda>f. \<not> named_field (cstr ''Transfer-Encoding'') f) ext"
    "list_all (\<lambda>f. \<not> named_field (cstr ''Sec-WebSocket-Key'') f) ext" "list_all field_ok ext"
    using assms(5) unfolding list_all_iff harmless_def by blast+
  have fields: "fields_ok_h h" unfolding fields_ok_h_def assms(4) using f e(4) assms(6) by simp
  have key: "is_length (fst (minus_length n))" "to64 (snd (minus_length n) @ [13]) = - of_nat n"
    unfolding minus_length_def using plain_keys(2) length_value(2) [OF n(1)] by simp_all
  have hm: "hm_body_len ?hm = - of_nat n" "hm_message_len ?hm = 0"
    unfolding request_message_def Let_def assms(4) using key put_headers_plain [OF e(1)] assms(7,8)
    by (simp_all add: put_header_def Let_def assms(4))
  have b: "hm_body_len ?hm \<noteq> - 1" 
  proof
    assume "hm_body_len ?hm = - 1"
    then have "unat (of_nat n :: u64) = unat (1 :: u64)" unfolding hm by simp
    then show False using n by (simp add: unat_of_nat take_bit_nat_eq_self)
  qed
  have "\<not> named_field (cstr ''Transfer-Encoding'') (minus_length n)" "\<not> named_field (cstr ''Sec-WebSocket-Key'') (minus_length n)"
    unfolding minus_length_def by (rule plain_keys)+
  then have k: "list_all (\<lambda>f. \<not> named_field (cstr ''Transfer-Encoding'') f) h" "list_all (\<lambda>f. \<not> named_field (cstr ''Sec-WebSocket-Key'') f) h"
    unfolding assms(4) using e(2,3) by simp_all
  have none: "mg_get_http_header buf ?hm (cstr ''Transfer-Encoding'') = None" "mg_get_http_header buf ?hm (cstr ''Sec-WebSocket-Key'') = None"
    using head_no_header [OF k(1), of _ "request_line m path" "[]"] head_no_header [OF k(2), of _ "request_line m path" "[]"]
    unfolding request_message_def Let_def assms(7) by (simp_all add: new_message_def)
  have parsed: "mg_parse_http buf (int (length buf)) True = Inr (length buf, ?hm)"
    using request_parsed [OF assms(1-3) fields b, of "length buf" "[]"] unfolding assms(7) by simp
  have size: "int_of_size (length buf) = int (length buf)" "buf \<noteq> []" using n assms(8) by (auto simp: int_of_size_small)
  have w: "\<not> (hc_is_req c \<and> mg_get_http_header buf ?hm (cstr ''Sec-WebSocket-Key'') \<noteq> None)" "\<not> is_chunked buf ?hm" for c
    unfolding is_chunked_def none by simp_all
  have "\<exists>c'. http_pass c = (c', True) \<and> ?stuck c'" if "?stuck c" for c
  proof -
    have r: "hc_recv c = buf" "hc_is_req c = True" using that by simp_all
    show ?thesis unfolding http_pass_def r size(1) parsed sum.case prod.case Let_def if_not_P [OF w(2)] if_not_P [OF w(1) [of c, unfolded r]] hm(2)
      using size(2) r by (simp add: remove_front_def hm(2))
  qed
  then have "?stuck c \<Longrightarrow> http_again c = None" for c by (rule again_never)
  then show ?thesis by (simp add: http_recv_def http_conn_def)
qed

theorem negative_length_loops_witness:
  "http_recv (cstr ''GET / HTTP/1.1'' @ [13, 10] @ cstr ''Content-Length: -39'' @ [13, 10, 13, 10]) (http_conn True) = None"
proof -
  let ?h = "minus_length 39 # []"
  have m: "method_ok (cstr ''GET'')" "method_ok (cstr ''/'')" by code_simp+
  have b: "cstr ''GET / HTTP/1.1'' @ [13, 10] @ cstr ''Content-Length: -39'' @ [13, 10, 13, 10] = head_text (request_line (cstr ''GET'') (cstr ''/'')) ?h"
    by code_simp
  have n: "length (head_text (request_line (cstr ''GET'') (cstr ''/'')) ?h) = 39" by code_simp
  show ?thesis unfolding b by (rule negative_length_loops [OF m _ refl _ _ refl n]) simp_all
qed

end
