(* ===== verification/Spec2Isabelle.thy ===== *)
theory Spec2Isabelle
  imports BossTheorems BossSafety UvTls MgBase64 MgBuf MgPrintf MgSha1 SymKey RsaOps HashId UdpData UdpSession UdpAccept UdpInvariant UdpQueue
    WorkPool U8Module DnsExchange HttpSafety HttpTransport HttpLimits
begin

text \<open>
  U8 is the runtime of the Universa blockchain: a V8 JavaScript engine with C++ bindings for
  cryptography, serialization, networking and asynchronous input and output. This library models the
  native parts that carry logic of their own. Paths are relative to \<open>src/\<close>.

  \<^bold>\<open>Parts of the program and how they interact.\<close> Objects (\<open>types/\<close>) are packed to bytes by the
  BOSS serializer (\<open>serialization/\<close>). The UDP adapter (\<open>network/UDPAdapter*.cpp\<close>) exchanges BOSS-packed
  packets between nodes (\<open>network/NodeInfo.cpp\<close>, \<open>NetConfig.cpp\<close>): a handshake with RSA keys establishes
  a symmetric key (\<open>crypto/SymmetricKey.cpp\<close>), under which data packets are encrypted, authenticated,
  acknowledged and retransmitted. TCP connections go through the TLS layer (\<open>AsyncIO/TLS\<close>), which pumps
  records between libuv and OpenSSL. Keys (\<open>crypto/PublicKey.cpp\<close>, \<open>PrivateKey.cpp\<close>) are packed with BOSS, a
  private key also under a password (\<open>KeyInfo.cpp\<close>, \<open>PBKDF2.cpp\<close>, \<open>SymmetricKey.cpp\<close>); the address of a public key
  (\<open>KeyAddress.cpp\<close>) is written in base 58 (\<open>Safe58.cpp\<close>). HTTP is spoken by mongoose (\<open>network/mongoose\<close>): a client sends a
  request as text with a multipart body, the server parses it, chooses the endpoint, and answers with text; the secure
  protocol of \<open>HttpServer.cpp\<close> and \<open>HttpClient.cpp\<close> goes over it. The buffers, strings, printing and digests of mongoose are
  modelled too. JavaScript code is loaded from modules (\<open>modules/\<close>), archives with the
  BOSS-packed signature of one of these keys. Threads pass tasks and results through the queue, the semaphore and the
  thread pool of \<open>tools/\<close>.

  \<^bold>\<open>Theories.\<close>
  \<^item> \<open>Prelude\<close>: bytes and words, results with an error branch, C literals, association lists.
  \<^item> \<open>UTypes\<close>, \<open>BaseSerializer\<close>: objects as one datatype, \<open>UBinder\<close> as a sorted association list;
    \<open>BaseSerializer::serialize\<close> and \<open>deserialize\<close>, the complex types.
  \<^item> \<open>BossWriter\<close>, \<open>BossReader\<close>: the classes \<open>BossSerializer::Writer\<close> and \<open>Reader\<close> as functions on the
    records \<open>writer\<close> and \<open>reader\<close> (buffer or position, cache of references, mode).
    \<open>BossCodec\<close> and \<open>BossRoundtrip\<close> describe the bytes of each object and keep the two caches in step;
    \<open>BossTheorems\<close> has the round trips, \<open>BossSafety\<close> what holds for arbitrary input.
  \<^item> \<open>SymKey\<close>: \<open>CTRTransformerAES.cpp\<close> and \<open>SymmetricKey.cpp\<close>.
  \<^item> \<open>Safe58\<close>: \<open>Safe58.cpp\<close>, with the conversion between bases as a loop on an array of digits and the
    number a list of digits stands for. \<open>CryptoCommon\<close>: \<open>cryptoCommon.cpp\<close>, the libraries below the keys, and
    the locale \<open>packed_format\<close> of a format that is packed and unpacked. \<open>KeyInfo\<close>: \<open>PBKDF2.cpp\<close> and
    \<open>KeyInfo.cpp\<close>. \<open>RsaKeys\<close>: \<open>PublicKey.cpp\<close> and \<open>PrivateKey.cpp\<close>, their packed forms. \<open>KeyAddress\<close>:
    \<open>KeyAddress.cpp\<close>. \<open>RsaOps\<close>: signatures and encryption, \<open>no_prng.cpp\<close>. \<open>HashId\<close>: \<open>HashId.cpp\<close> and
    \<open>base64.cpp\<close>, with the order of digests (locale \<open>strict_order\<close>).
  \<^item> \<open>UdpTypes\<close>: nodes, configuration, packets, duplicate protection, retransmission items, sessions.
    \<open>UdpAdapter\<close>: the record \<open>adapter\<close> (the fields of \<open>UDPAdapter\<close>, the clock, and what was sent and
    received), the state monad with exceptions the handlers are written in, and the functions that
    send. \<open>UdpHandlers\<close>: \<open>onReceive\<close> and its handlers, retransmission, the timer, and the task of the
    sender pool with one step for each critical section.
    \<open>UdpFrame\<close>: locales whose laws say which elementary changes a predicate survives, with the lemma that
    it then survives each handler; every later theory interprets them on its own predicate.
    \<open>UdpWire\<close>: packets on the wire, sending never fails. \<open>UdpData\<close>: delivery. \<open>UdpSession\<close> and
    \<open>UdpAccept\<close>: the two ends of the handshake. \<open>UdpInvariant\<close>: reachable states. \<open>UdpQueue\<close>: sending
    and the schedule of retransmission. \<open>UdpSample\<close>: two nodes on which the theorems are applied.
  \<^item> \<open>U8Trust\<close>: \<open>checkKeyTrust\<close> and \<open>checkSigner\<close> of \<open>U8Module.cpp\<close>: the trust file as the tree the code looks at, the
    questions to the user as a list of lines. \<open>U8Module\<close>: the rest of \<open>U8Module.cpp\<close>, \<open>singModule\<close> of \<open>tools.cpp\<close>, and
    \<open>ModuleManager.cpp\<close> as a step relation whose steps are its two critical sections.
  \<^item> \<open>HttpSecure\<close>: the secure protocol of \<open>HttpServer.cpp\<close> (\<open>connect\<close>, \<open>get_token\<close>, \<open>command\<close> on the record \<open>http_server\<close>, whose
    store holds the shared session objects) and of \<open>HttpClient.cpp\<close> (\<open>start\<close>, \<open>execCommand\<close>) over an arbitrary network.
    \<open>BossFields\<close>: binders made by \<open>UBinder::of\<close>, how long they are when packed, and that they are read back.
    \<open>HttpExchange\<close>: a client and an honest server. \<open>HttpSafety\<close>: requests in any order, any network.
  \<^item> \<open>MgHttp\<close>: messages of \<open>mongoose.c\<close> as the record \<open>http_message\<close> of offsets into the buffer, chunked bodies, and
    \<open>mg_http_handler\<close> on the record \<open>http_conn\<close> (the receive buffer, the counters and the events delivered so far), one pass from
    the label \<open>again\<close> as \<open>http_pass\<close> and the jump back as a partial function. \<open>MgForm\<close>: multipart bodies, header parameters,
    form variables. \<open>MgUri\<close>: the state machine of \<open>mg_parse_uri\<close> and the paths. \<open>HttpWire\<close>: the text of requests
    (\<open>mongooseExt.cpp\<close>, \<open>HttpClient.cpp\<close>) and answers (\<open>HttpServer.cpp\<close>), the request object, the endpoint, and \<open>over_wire\<close>, one
    exchange through all of them. \<open>HttpText\<close> and \<open>HttpDelivery\<close>: the head of a message is parsed as it was written, in pieces of
    any size; \<open>HttpMultipart\<close>: the body of \<open>sendBinRequest\<close>. \<open>HttpTransport\<close>: requests arrive, an exchange over the wire is a call of the
    server. \<open>HttpLimits\<close>: bounds, chunks, and unusual input.
  \<^item> \<open>MgDns\<close>: the DNS part of \<open>mongoose.c\<close> and \<open>mongooseExt.cpp\<close>, with pointers into the packet as offsets.
    \<open>DnsExchange\<close>: names and messages on the wire.
  \<^item> \<open>WorkQueue\<close>: \<open>Queue.h\<close> as a step relation; a step is a section under the mutex, waiting threads are in the state.
    The locale \<open>no_lost_wakeup\<close> states what a condition variable must keep; it is interpreted for both condition
    variables of the queue and, in \<open>WorkPool\<close>, for \<open>Semaphore.h\<close>. \<open>WorkPool\<close> also has the workers of
    \<open>AutoThreadPool.cpp\<close>.
  \<^item> \<open>EvtTls\<close>, \<open>UvTls\<close>: \<open>evt_tls.c\<close> over a memory BIO pair and \<open>uv_tls.c\<close> over a libuv handle.
  \<^item> \<open>MgBuf\<close>, \<open>MgStr\<close>, \<open>MgPrintf\<close>, \<open>MgBase64\<close>: \<open>mbuf\<close>, \<open>mg_str\<close> and \<open>str_util\<close>, \<open>c_vsnprintf\<close>, base64 of
    \<open>mongoose.c\<close>. \<open>HashStream\<close>: the interface of a digest that is fed in pieces (locale
    \<open>hash_stream\<close>), interpreted by \<open>MgMd5\<close> and \<open>MgSha1\<close> (with HMAC).

  \<^bold>\<open>What the theorems show.\<close> BOSS: whatever is serialized is read back, with shared parts
  written as references; reading ends on every input and never exposes an unfinished container; the
  length check of the reader wraps. UDP: only data sealed with the session key is delivered, unchanged, and once
  as long as the duplicate buffers hold its number (\<open>data_at_most_once\<close>, with the timer); one datagram can make the
  adapter copy memory behind it (\<open>datagram_overread\<close>); a session or a reader gets a key only from a peer that signed a message with the right
  nonce, and does get it then; the tables stay well formed in every reachable state; a payload
  given to \<open>send\<close> is kept until it is acknowledged or its attempts are used up. TLS: received bytes reach the
  engine in order as far as the BIO takes them, and the loop ends in every case. Keys: the packed forms of public keys, private keys and
  key parameters are read back, also under a password, and the key a password gives is that of RFC 8018;
  the text of an address reads back to it, and packed bytes are accepted only with their control code;
  base 58 represents the number of the bytes, without leaving its buffers; digests are ordered strictly and
  totally. Modules: one is accepted only if its bytes are signed by the signer asked for or by a key that is trusted for
  this very module, what the user trusted is found again in the trust file, and what \<open>singModule\<close> signs is
  accepted; every module in the table went through this check. HTTP sessions: a session gets a key only for a client that
  signed its nonce, a client takes a key only from a node that signed its nonce, the two then agree, and commands and answers
  pass unchanged; a command before the token crashes the server when it is long enough to be decrypted. HTTP: a request arrives with its method, path and body however its bytes
  are cut, and an exchange of the secure protocol through text, multipart body and answer gives what the server called directly
  gives; whatever the bytes, a parsed message lies inside them; chunks are put together again; the second of two requests in a
  buffer also ends up in the body of the first, and a negative \<open>Content-Length\<close> keeps the handler running for ever. DNS: messages are read inside their bytes, names round
  trip, and the answer to a query is read as it was given. Threads: the queue hands on every item once and in order,
  no thread sleeps while there is something for it, the pool's counters are right in every interleaving;
  \<open>optGet\<close>, the parking of workers and the destructor of the pool have lost wake-ups. mongoose: the buffer is a queue of bytes,
  base64 round trips and the streaming encoder agrees with the batch encoder, printing
  never writes past the buffer and reports the length it needed, MD5, SHA-1 and HMAC do not depend on how the
  input is cut and follow their definitions.

  \<^bold>\<open>Parameters.\<close> Code that is not in the repository is an argument of the model: OpenSSL (\<open>tls_env\<close>),
  libuv, \<open>realloc\<close>, AES and HMAC-SHA256 of LibTomCrypt (\<open>ciphers\<close>), RSA, the random sources and CRC-32
  (\<open>udp_env\<close>), the parsers of packed keys (\<open>key_parser\<close>); for the key classes, LibTomCrypt (\<open>ltc\<close>, \<open>rsa_lib\<close>), GMP
  (\<open>gmp\<close>) and the hashes of \<open>HashId\<close> (\<open>hashes\<close>); for the modules the file system, libzip, yaml-cpp, the download and the
  script of \<open>checkUNS\<close> (\<open>u8env\<close>); for the HTTP sessions the same libraries as one record (\<open>http_env\<close>); for the wire
  (\<open>http_wire\<close>) the pieces the bytes come in, the random bytes of the boundary, the order of the headers in an
  \<open>unordered_map\<close>, the arrays on the stack and what a difference of unrelated pointers is (\<open>hw_gap\<close>). \<open>env_ok\<close>, \<open>ltc_ok\<close> and \<open>gmp_ok\<close> state the documented behaviour the
  code relies on; that a signature or an encryption succeeds is a hypothesis about the one key, hash and source of
  random bytes it is made with (\<open>signs_body\<close>, \<open>encrypts_short\<close>). \<open>toy_ltc\<close> and \<open>toy_gmp\<close> are concrete functions that behave so. What an uninitialised array holds
  is an argument (\<open>stack\<close>, \<open>junk\<close>). Random sources are numbered draws, so nothing is assumed about what they return.

  \<^bold>\<open>Bounds and fuel.\<close> The reader recurses on fuel \<open>fuel_for\<close>, twice the length of the input and two more;
  \<open>deserialize_terminates\<close> shows that it is never used up. A task of the sender pool has five steps
  (\<open>send_terminates\<close>). The handler of a connection may run for ever and is a \<open>partial_function\<close>; \<open>request_arrives\<close> shows that it
  returns for every request with a head of at most 8192 bytes and a body below \<open>2 ^ 31\<close>, and \<open>negative_length_loops\<close> that it does
  not always. The reader counts the elements of a list with an \<open>int\<close> (\<open>int_rounds\<close>, \<open>int_counted\<close>), and the writer's cache keys
  are cut to 32 bits (\<open>cut_size\<close>); \<open>serialize\<close> itself gives the whole buffer, which is what \<open>getBytes\<close> gives below 4 GiB.
  \<open>base64_encode\<close> takes the length modulo \<open>2 ^ 32\<close>, and \<open>cs_base64_encode\<close> has no result when its \<open>int\<close> counters overflow.
  What C++ leaves undefined is an error value of its own, which no handler of exceptions catches (\<open>udp_undefined\<close>,
  \<open>boss_undefined\<close>). Packed data is shorter than \<open>2 ^ 32\<close> bytes where a theorem says so, encrypted
  data shorter than \<open>2 ^ 31\<close>; machine integers wrap at their width in the serializer, the digests and the
  printing, and the numbers of UDP packets are \<open>int\<close> values kept in range.

  \<^bold>\<open>Not modelled.\<close> The V8 bindings (\<open>js_bindings\<close>) and the JavaScript library, which is compiled into
  generated code (\<open>u8core.u8m.c\<close>); \<open>sortYAML\<close>, which only reorders the trust file; the other tools (\<open>TimerThread\<close>, \<open>AsyncSleep\<close>,
  \<open>FixedThreadPool\<close>, \<open>StreamPump\<close>, reading and writing files); the PostgreSQL pool and file, directory and socket
  handles, which forward to libpq and libuv; the threads, sockets, timers and queues of the HTTP and DNS servers and clients, which
  configure mongoose; WebSocket after the hand-over, streamed multipart bodies, CGI and the serving of files; the registration of hashes with LibTomCrypt and the generation of RSA keys; vendored code (\<open>tools/json.hpp\<close>,
  \<open>gost3411-2012.h\<close>); the event loop and the other protocols of mongoose. Data races between the sender pool
  and the other threads have no meaning in C++ and none here: the steps of a task interleave with whole
  handlers only.
\<close>

end
